(* ===== verification/Ferr_Prelude.thy ===== *)
theory Ferr_Prelude
  imports Main "HOL-Library.Word" "HOL-Library.Product_Lexorder" "HOL-Library.List_Lexorder"
    "HOL-Library.Option_ord" "HOL-Library.Char_ord" "HOL-Library.Multiset"
begin

text \<open>
  The shared vocabulary of the development: the machine integers and byte strings the Rust code
  uses, Rust's \<open>Ordering\<close> type with \<open>cmp\<close> and \<open>then_with\<close>, the result type \<open>error + 'a\<close>
  with its bind, little-endian byte encodings, and generic facts on strictly sorted lists
  (\<open>sort_unstable\<close> followed by \<open>dedup\<close>, binary search and \<open>partition_point\<close>), which the
  components share.
\<close>

unbundle bit_operations_syntax

named_theorems ord_keys \<open>unfolds a derived order to the order of its lexicographic key\<close>
named_theorems codec_simps \<open>facts that evaluate encoders and parsers\<close>

section \<open>Machine integers and bytes\<close>

type_synonym u8 = "8 word"
type_synonym u16 = "16 word"
type_synonym u32 = "32 word"
type_synonym u64 = "64 word"
type_synonym u128 = "128 word"
type_synonym bytes = "u8 list"

definition u16_max :: nat where "u16_max = 65535"
definition u32_max :: nat where "u32_max = 4294967295"
definition u64_max :: nat where "u64_max = 18446744073709551615"

text \<open>\<open>uN::try_from(n)\<close> on a \<open>usize\<close>, and the saturating fallback \<open>unwrap_or(uN::MAX)\<close>.\<close>

definition try_from_usize :: "nat \<Rightarrow> nat \<Rightarrow> nat option" where
  "try_from_usize mx n = (if n \<le> mx then Some n else None)"

definition sat_usize :: "nat \<Rightarrow> nat \<Rightarrow> nat" where
  "sat_usize mx n = (case try_from_usize mx n of Some k \<Rightarrow> k | None \<Rightarrow> mx)"

lemma try_from_usize_Some [simp]: "n \<le> mx \<Longrightarrow> try_from_usize mx n = Some n"
  and try_from_usize_None [simp]: "mx < n \<Longrightarrow> try_from_usize mx n = None"
  by (simp_all add: try_from_usize_def)

lemma sat_usize_min: "sat_usize mx n = min mx n"
  by (simp add: sat_usize_def try_from_usize_def)

lemma sat_usize_id [simp]: "n \<le> mx \<Longrightarrow> sat_usize mx n = n"
  by (simp add: sat_usize_min)

text \<open>A string of the source is its UTF-8 byte sequence; \<open>char\<close> is one byte.\<close>

definition as_bytes :: "string \<Rightarrow> bytes" where
  "as_bytes s = map of_char s"

definition of_bytes :: "bytes \<Rightarrow> string" where
  "of_bytes bs = map (\<lambda>b. char_of (unat b)) bs"

lemma length_as_bytes [simp]: "length (as_bytes s) = length s"
  by (simp add: as_bytes_def)

lemma of_char_bound: "of_char c < (256 :: nat)"
  using nat_of_char_less_256 [of c] by simp

lemma unat_of_char: "unat (of_char c :: u8) = of_char c"
proof -
  have "unat (of_nat (of_char c) :: u8) = of_char c"
    using of_char_bound [of c] by (simp add: unat_of_nat)
  then show ?thesis by (simp only: of_nat_of_char)
qed

lemma of_bytes_as_bytes [simp]: "of_bytes (as_bytes s) = s"
  by (induction s) (simp_all add: of_bytes_def as_bytes_def unat_of_char)

lemma as_bytes_of_bytes [simp]: "as_bytes (of_bytes bs) = bs"
proof -
  have "of_char (char_of (unat b)) = b" for b :: u8
  proof -
    have "unat b < 256" using unsigned_less [of b, where ?'a = nat] by simp
    then have "of_char (char_of (unat b)) = unat b" by simp
    then have "unat (of_char (char_of (unat b)) :: u8) = unat b" by (simp add: unat_of_char)
    then show ?thesis by (simp add: word_unat_eq_iff)
  qed
  then show ?thesis by (simp add: as_bytes_def of_bytes_def map_idI)
qed

lemma as_bytes_inject [simp]: "as_bytes s = as_bytes t \<longleftrightarrow> s = t"
  by (metis of_bytes_as_bytes)

section \<open>Rust's Ordering\<close>

datatype ordering = Less | Equal | Greater

definition cmp :: "'a::linorder \<Rightarrow> 'a \<Rightarrow> ordering" where
  "cmp x y = (if x < y then Less else if x = y then Equal else Greater)"

fun then_with :: "ordering \<Rightarrow> ordering \<Rightarrow> ordering" where
  "then_with Equal o2 = o2"
| "then_with o1 o2 = o1"

fun reverse_ordering :: "ordering \<Rightarrow> ordering" where
  "reverse_ordering Less = Greater"
| "reverse_ordering Equal = Equal"
| "reverse_ordering Greater = Less"

lemma cmp_Less [simp]: "cmp x y = Less \<longleftrightarrow> x < y"
  and cmp_Equal [simp]: "cmp x y = Equal \<longleftrightarrow> x = y"
  and cmp_Greater [simp]: "cmp x y = Greater \<longleftrightarrow> y < x"
  by (auto simp: cmp_def)

lemma case_cmp [simp]:
  "(case cmp x y of Less \<Rightarrow> a | Equal \<Rightarrow> b | Greater \<Rightarrow> c) =
     (if x < y then a else if x = y then b else c)"
  by (simp add: cmp_def)

lemma cmp_refl [simp]: "cmp x x = Equal"
  by simp

lemma reverse_cmp [simp]: "reverse_ordering (cmp x y) = cmp y x"
  by (auto simp: cmp_def)

text \<open>A derived or chained comparison is the comparison of the lexicographic key.\<close>

lemma cmp_pair: "cmp (a, b) (c, d) = then_with (cmp a c) (cmp b d)"
  by (auto simp: cmp_def less_prod_simp)

section \<open>Results\<close>

definition bind_result :: "'e + 'a \<Rightarrow> ('a \<Rightarrow> 'e + 'b) \<Rightarrow> 'e + 'b" where
  "bind_result m f = (case m of Inl e \<Rightarrow> Inl e | Inr x \<Rightarrow> f x)"

lemma bind_result_simps [simp, codec_simps]:
  "bind_result (Inl e) f = Inl e"
  "bind_result (Inr x) f = f x"
  by (simp_all add: bind_result_def)

lemma bind_result_cong [fundef_cong]:
  "m = m' \<Longrightarrow> (\<And>x. m' = Inr x \<Longrightarrow> f x = g x) \<Longrightarrow> bind_result m f = bind_result m' g"
  by (cases m') (simp_all add: bind_result_def)

lemma bind_result_Inr: "bind_result m f = Inr y \<longleftrightarrow> (\<exists>x. m = Inr x \<and> f x = Inr y)"
  by (cases m) auto

lemma bind_result_InrE:
  assumes "bind_result m f = Inr y"
  obtains x where "m = Inr x" "f x = Inr y"
  using assms by (auto simp: bind_result_Inr)

lemma option_eqI: "(\<And>v. x = Some v \<longleftrightarrow> y = Some v) \<Longrightarrow> x = y"
  by (cases x; cases y) auto

section \<open>Strictly sorted lists\<close>

abbreviation strict_sorted :: "'a::linorder list \<Rightarrow> bool" where
  "strict_sorted \<equiv> sorted_wrt (<)"

lemma strict_sorted_distinct: "strict_sorted xs \<Longrightarrow> distinct xs"
  by (induction xs) auto

lemma strict_sorted_sorted: "strict_sorted xs \<Longrightarrow> sorted xs"
  by (simp add: strict_sorted_iff)

lemma strict_sorted_set_unique:
  "strict_sorted xs \<Longrightarrow> strict_sorted ys \<Longrightarrow> set xs = set ys \<Longrightarrow> xs = ys"
  by (metis strict_sorted_equal)

text \<open>\<open>windows(2).all(|w| w[0] < w[1])\<close>, the code's own test for strict order.\<close>

fun windows_lt :: "'a::linorder list \<Rightarrow> bool" where
  "windows_lt (x # y # zs) = (x < y \<and> windows_lt (y # zs))"
| "windows_lt _ = True"

lemma windows_lt_iff: "windows_lt xs \<longleftrightarrow> strict_sorted xs"
proof (induction xs rule: windows_lt.induct)
  case (1 x y zs)
  then show ?case by (auto dest: less_trans)
qed simp_all

text \<open>\<open>Vec::dedup\<close> removes consecutive equal elements; \<open>sort_unstable\<close> is any sort, and on a
  total order with equality its result is unique.\<close>

fun dedup :: "'a list \<Rightarrow> 'a list" where
  "dedup (x # y # zs) = (if x = y then dedup (y # zs) else x # dedup (y # zs))"
| "dedup xs = xs"

lemma set_dedup [simp]: "set (dedup xs) = set xs"
  by (induction xs rule: dedup.induct) auto

lemma strict_sorted_dedup: "sorted xs \<Longrightarrow> strict_sorted (dedup xs)"
proof (induction xs rule: dedup.induct)
  case (1 x y zs)
  then show ?case by (cases "x = y") (auto simp: less_le)
qed simp_all

definition sort_dedup :: "'a::linorder list \<Rightarrow> 'a list" where
  "sort_dedup xs = dedup (sort xs)"

lemma set_sort_dedup [simp]: "set (sort_dedup xs) = set xs"
  and strict_sorted_sort_dedup [simp]: "strict_sorted (sort_dedup xs)"
  by (simp_all add: sort_dedup_def strict_sorted_dedup)

lemma sort_dedup_id [simp]: "strict_sorted xs \<Longrightarrow> sort_dedup xs = xs"
  by (rule strict_sorted_set_unique) simp_all

lemma sort_dedup_cong: "set xs = set ys \<Longrightarrow> sort_dedup xs = sort_dedup ys"
  by (rule strict_sorted_set_unique) simp_all

section \<open>Searching a sorted slice\<close>

text \<open>\<open>slice::partition_point\<close> and \<open>slice::binary_search_by\<close>: the loops of the standard library,
  a halving search on the index range \<open>[lo, hi)\<close>.\<close>

function partition_point_loop :: "('a \<Rightarrow> bool) \<Rightarrow> 'a list \<Rightarrow> nat \<Rightarrow> nat \<Rightarrow> nat" where
  "partition_point_loop p xs lo hi =
     (if lo < hi then
        (let mid = lo + (hi - lo) div 2
         in if p (xs ! mid) then partition_point_loop p xs (mid + 1) hi
            else partition_point_loop p xs lo mid)
      else lo)"
  by pat_completeness auto
termination
  by (relation "measure (\<lambda>(p, xs, lo, hi). hi - lo)") (auto simp: Let_def)

declare partition_point_loop.simps [simp del]

definition partition_point :: "('a \<Rightarrow> bool) \<Rightarrow> 'a list \<Rightarrow> nat" where
  "partition_point p xs = partition_point_loop p xs 0 (length xs)"

text \<open>What a caller may rely on: on a list whose \<open>p\<close>-elements come first the result is their
  number.\<close>

definition partitioned :: "('a \<Rightarrow> bool) \<Rightarrow> 'a list \<Rightarrow> bool" where
  "partitioned p xs \<longleftrightarrow> (\<forall>i j. i \<le> j \<longrightarrow> j < length xs \<longrightarrow> p (xs ! j) \<longrightarrow> p (xs ! i))"

lemma partition_point_loop_spec:
  assumes "partitioned p xs" "lo \<le> hi" "hi \<le> length xs"
    and "\<forall>i < lo. p (xs ! i)" "\<forall>i. hi \<le> i \<longrightarrow> i < length xs \<longrightarrow> \<not> p (xs ! i)"
  shows "partition_point_loop p xs lo hi \<le> length xs \<and>
         (\<forall>i < length xs. p (xs ! i) \<longleftrightarrow> i < partition_point_loop p xs lo hi)"
  using assms
proof (induction p xs lo hi rule: partition_point_loop.induct)
  case (1 p xs lo hi)
  show ?case
  proof (cases "lo < hi")
    case False
    with "1.prems" show ?thesis 
      by (subst (1 2) partition_point_loop.simps) (auto, meson not_less)
  next
    case True
    define mid where "mid = lo + (hi - lo) div 2"
    have mid: "lo \<le> mid" "mid < hi" using True by (auto simp: mid_def)
    show ?thesis
    proof (cases "p (xs ! mid)")
      case p: True
      have "\<forall>i < mid + 1. p (xs ! i)"
        using p mid "1.prems"(1,3) unfolding partitioned_def by (metis Suc_eq_plus1 less_Suc_eq_le order.strict_trans2)
      with "1.IH"(1) [OF True mid_def p "1.prems"(1)] mid "1.prems"
      have "partition_point_loop p xs (mid + 1) hi \<le> length xs \<and>
         (\<forall>i < length xs. p (xs ! i) \<longleftrightarrow> i < partition_point_loop p xs (mid + 1) hi)"
        by simp
      with True p show ?thesis
        by (simp add: partition_point_loop.simps [of p xs lo hi] Let_def flip: mid_def)
    next
      case np: False
      have "\<forall>i. mid \<le> i \<longrightarrow> i < length xs \<longrightarrow> \<not> p (xs ! i)"
        using np "1.prems"(1) unfolding partitioned_def by blast
      with "1.IH"(2) [OF True mid_def np "1.prems"(1)] mid "1.prems"
      have "partition_point_loop p xs lo mid \<le> length xs \<and>
         (\<forall>i < length xs. p (xs ! i) \<longleftrightarrow> i < partition_point_loop p xs lo mid)"
        by simp
      with True np show ?thesis
        by (simp add: partition_point_loop.simps [of p xs lo hi] Let_def flip: mid_def)
    qed
  qed
qed

lemma partition_point_iff:
  "partitioned p xs \<Longrightarrow> i < length xs \<Longrightarrow> p (xs ! i) \<longleftrightarrow> i < partition_point p xs"
  and partition_point_le: "partitioned p xs \<Longrightarrow> partition_point p xs \<le> length xs"
  using partition_point_loop_spec [of p xs 0 "length xs"]
  by (auto simp: partition_point_def)

lemma partitioned_sorted_less: "sorted xs \<Longrightarrow> partitioned (\<lambda>x. x < k) xs"
  unfolding partitioned_def by (meson le_less_trans sorted_nth_mono)

lemma partitioned_sorted_le: "sorted xs \<Longrightarrow> partitioned (\<lambda>x. x \<le> k) xs"
  unfolding partitioned_def by (meson order_trans sorted_nth_mono)

definition binary_search_by :: "('a \<Rightarrow> ordering) \<Rightarrow> 'a list \<Rightarrow> nat option" where
  "binary_search_by f xs =
     (let i = partition_point (\<lambda>x. f x = Less) xs
      in if i < length xs \<and> f (xs ! i) = Equal then Some i else None)"

lemma binary_search_by_sound:
  "binary_search_by f xs = Some i \<Longrightarrow> i < length xs \<and> f (xs ! i) = Equal"
  by (auto simp: binary_search_by_def Let_def split: if_splits)

lemma binary_search_by_complete:
  assumes mono: "\<And>i j. i \<le> j \<Longrightarrow> j < length xs \<Longrightarrow> f (xs ! j) = Less \<Longrightarrow> f (xs ! i) = Less"
    and eq: "\<And>i j. i < j \<Longrightarrow> j < length xs \<Longrightarrow> f (xs ! i) = Equal \<Longrightarrow> f (xs ! j) \<noteq> Equal"
    and gt: "\<And>i j. i \<le> j \<Longrightarrow> j < length xs \<Longrightarrow> f (xs ! i) = Greater \<Longrightarrow> f (xs ! j) = Greater"
    and k: "k < length xs" "f (xs ! k) = Equal"
  shows "binary_search_by f xs = Some k"
proof -
  define i where "i = partition_point (\<lambda>x. f x = Less) xs"
  have part: "partitioned (\<lambda>x. f x = Less) xs" using mono by (auto simp: partitioned_def)
  note iff = partition_point_iff [OF part, folded i_def]
  have "i \<le> k" using iff k by force
  then have i: "i < length xs" using k by simp
  then have "f (xs ! i) \<noteq> Less" using iff by blast
  moreover have "f (xs ! i) \<noteq> Greater" using gt [OF \<open>i \<le> k\<close> k(1)] k(2) by auto
  ultimately have "f (xs ! i) = Equal" by (cases "f (xs ! i)") auto
  with eq [of i k] k \<open>i \<le> k\<close> have "i = k" by (metis le_neq_implies_less)
  with \<open>f (xs ! i) = Equal\<close> i show ?thesis
    by (simp add: binary_search_by_def Let_def flip: i_def)
qed

lemma binary_search_sorted:
  assumes "strict_sorted (map g xs)"
  shows "binary_search_by (\<lambda>x. cmp (g x) k) xs = Some i \<longleftrightarrow> i < length xs \<and> g (xs ! i) = k"
proof
  assume "binary_search_by (\<lambda>x. cmp (g x) k) xs = Some i"
  then show "i < length xs \<and> g (xs ! i) = k" using binary_search_by_sound by fastforce
next
  have lt: "g (xs ! i) < g (xs ! j)" if "i < j" "j < length xs" for i j
    using sorted_wrt_nth_less [OF assms, of i j] that by simp
  then have le: "g (xs ! i) \<le> g (xs ! j)" if "i \<le> j" "j < length xs" for i j
    using that by (metis le_neq_implies_less order.order_iff_strict)
  assume i: "i < length xs \<and> g (xs ! i) = k"
  show "binary_search_by (\<lambda>x. cmp (g x) k) xs = Some i"
  proof (rule binary_search_by_complete)
    show "\<And>i j. i \<le> j \<Longrightarrow> j < length xs \<Longrightarrow> cmp (g (xs ! j)) k = Less \<Longrightarrow> cmp (g (xs ! i)) k = Less"
      using le by (auto intro: le_less_trans)
    show "\<And>i j. i < j \<Longrightarrow> j < length xs \<Longrightarrow> cmp (g (xs ! i)) k = Equal \<Longrightarrow> cmp (g (xs ! j)) k \<noteq> Equal"
      using lt by fastforce
    show "\<And>i j. i \<le> j \<Longrightarrow> j < length xs \<Longrightarrow> cmp (g (xs ! i)) k = Greater \<Longrightarrow> cmp (g (xs ! j)) k = Greater"
      using le by (auto intro: less_le_trans)
  qed (use i in auto)
qed

end
