(* ===== verification/Ordered_Map.thy ===== *)
theory Ordered_Map
  imports Ferr_Prelude
begin

text \<open>
  The ordered containers of the source (\<open>BTreeMap\<close>, \<open>BTreeSet\<close>, \<open>im::OrdMap\<close>, \<open>im::OrdSet\<close>),
  as the value they denote: a list of entries with strictly increasing keys, so that two equal
  maps are the same list and \<open>iter()\<close> is the list itself. The operations are the ones the code
  calls: \<open>get\<close>, \<open>insert\<close>, \<open>remove\<close>, \<open>union_with\<close>.

  The join-semilattice locale at the end is the contract every merge of the store is held to; it is
  interpreted by the components that merge.
\<close>

section \<open>Ordered maps\<close>

type_synonym ('k, 'v) omap = "('k \<times> 'v) list"

definition om_inv :: "('k::linorder, 'v) omap \<Rightarrow> bool" where
  "om_inv m \<longleftrightarrow> strict_sorted (map fst m)"

abbreviation om_get :: "('k, 'v) omap \<Rightarrow> 'k \<Rightarrow> 'v option" where
  "om_get \<equiv> map_of"

fun om_insert :: "'k::linorder \<Rightarrow> 'v \<Rightarrow> ('k, 'v) omap \<Rightarrow> ('k, 'v) omap" where
  "om_insert k v [] = [(k, v)]"
| "om_insert k v ((k', v') # m) =
     (case cmp k k' of
        Less \<Rightarrow> (k, v) # (k', v') # m
      | Equal \<Rightarrow> (k, v) # m
      | Greater \<Rightarrow> (k', v') # om_insert k v m)"

definition om_remove :: "'k::linorder \<Rightarrow> ('k, 'v) omap \<Rightarrow> ('k, 'v) omap" where
  "om_remove k m = filter (\<lambda>(k', _). k' \<noteq> k) m"

text \<open>\<open>union_with(self, other, f)\<close>: keys of either side, \<open>f left right\<close> where both have the key.\<close>

fun om_union_with ::
  "('v \<Rightarrow> 'v \<Rightarrow> 'v) \<Rightarrow> ('k::linorder, 'v) omap \<Rightarrow> ('k, 'v) omap \<Rightarrow> ('k, 'v) omap" where
  "om_union_with f [] m2 = m2"
| "om_union_with f m1 [] = m1"
| "om_union_with f ((k1, v1) # m1) ((k2, v2) # m2) =
     (case cmp k1 k2 of
        Less \<Rightarrow> (k1, v1) # om_union_with f m1 ((k2, v2) # m2)
      | Equal \<Rightarrow> (k1, f v1 v2) # om_union_with f m1 m2
      | Greater \<Rightarrow> (k2, v2) # om_union_with f ((k1, v1) # m1) m2)"

lemma om_inv_Nil [simp]: "om_inv []"
  by (simp add: om_inv_def)

lemma om_inv_Cons: "om_inv ((k, v) # m) \<longleftrightarrow> (\<forall>x \<in> set m. k < fst x) \<and> om_inv m"
  by (auto simp: om_inv_def)

lemma om_inv_distinct: "om_inv m \<Longrightarrow> distinct (map fst m)"
  by (simp add: om_inv_def strict_sorted_distinct)

lemma om_get_in_set: "om_inv m \<Longrightarrow> om_get m k = Some v \<longleftrightarrow> (k, v) \<in> set m"
  by (simp add: om_inv_distinct map_of_eq_Some_iff)

lemma om_get_below: "\<forall>x \<in> set m. k < fst x \<Longrightarrow> om_get m (k :: 'k::linorder) = None"
  by (induction m) auto

text \<open>Extensionality: an ordered map is determined by its lookups.\<close>

lemma om_ext:
  assumes "om_inv m1" "om_inv m2" "\<And>k. om_get m1 k = om_get m2 k"
  shows "m1 = m2"
proof -
  have "set m1 = set m2"
    using assms om_get_in_set by (metis prod.collapse subset_antisym subsetI)
  moreover from this have "inj_on fst (set m1 \<union> set m2)"
    using om_inv_distinct [OF assms(1)] by (simp add: distinct_map)
  ultimately show ?thesis
    using assms(1,2) by (intro map_sorted_distinct_set_unique [of fst])
      (auto simp: om_inv_def strict_sorted_iff)
qed

lemma om_set_ext: "om_inv m1 \<Longrightarrow> om_inv m2 \<Longrightarrow> set m1 = set m2 \<Longrightarrow> m1 = m2"
  using om_ext [of m1 m2] map_of_inject_set [of m1 m2] by (simp add: om_inv_distinct)

lemma om_get_insert [simp]: "om_get (om_insert k v m) = (om_get m)(k \<mapsto> v)"
  by (induction m) (auto simp: fun_eq_iff)

lemma fst_set_om_insert [simp]: "fst ` set (om_insert k v m) = insert k (fst ` set m)"
proof (induction m)
  case (Cons p m)
  then show ?case by (cases p) auto
qed simp

lemma Ball_om_insert: "(\<forall>x \<in> set (om_insert k v m). P (fst x)) \<longleftrightarrow> P k \<and> (\<forall>x \<in> set m. P (fst x))"
proof -
  have "(\<forall>x \<in> set (om_insert k v m). P (fst x)) \<longleftrightarrow> (\<forall>y \<in> fst ` set (om_insert k v m). P y)"
    by blast
  then show ?thesis by (simp only: fst_set_om_insert) auto
qed

lemma om_inv_insert [simp]: "om_inv m \<Longrightarrow> om_inv (om_insert k v m)"
proof (induction m)
  case (Cons p m)
  then show ?case by (cases p) (auto simp: om_inv_Cons Ball_om_insert intro: less_trans)
qed (simp add: om_inv_def)

lemma om_get_remove: "om_get (om_remove k m) = (om_get m)(k := None)"
  by (induction m) (auto simp: om_remove_def fun_eq_iff)

lemma om_inv_remove [simp]: "om_inv m \<Longrightarrow> om_inv (om_remove k m)"
proof (induction m)
  case (Cons p m)
  then show ?case by (cases p) (auto simp: om_remove_def om_inv_Cons)
qed (simp add: om_remove_def)

lemma fst_set_om_union_with [simp]:
  "fst ` set (om_union_with f m1 m2) = fst ` set m1 \<union> fst ` set m2"
  by (induction f m1 m2 rule: om_union_with.induct) auto

lemma Ball_om_union_with:
  "(\<forall>x \<in> set (om_union_with f m1 m2). P (fst x)) \<longleftrightarrow>
     (\<forall>x \<in> set m1. P (fst x)) \<and> (\<forall>x \<in> set m2. P (fst x))"
proof -
  have "(\<forall>x \<in> set (om_union_with f m1 m2). P (fst x)) \<longleftrightarrow> (\<forall>y \<in> fst ` set (om_union_with f m1 m2). P y)"
    by blast
  then show ?thesis by (simp only: fst_set_om_union_with) auto
qed

lemma om_inv_union_with [simp]:
  "om_inv m1 \<Longrightarrow> om_inv m2 \<Longrightarrow> om_inv (om_union_with f m1 m2)"
proof (induction f m1 m2 rule: om_union_with.induct)
  case (3 f k1 v1 m1 k2 v2 m2)
  then show ?case by (auto simp: om_inv_Cons Ball_om_union_with intro: less_trans)
qed simp_all

text \<open>The lookup of a union, key by key.\<close>

definition combine_option :: "('v \<Rightarrow> 'v \<Rightarrow> 'v) \<Rightarrow> 'v option \<Rightarrow> 'v option \<Rightarrow> 'v option" where
  "combine_option f a b =
     (case a of None \<Rightarrow> b | Some x \<Rightarrow> (case b of None \<Rightarrow> Some x | Some y \<Rightarrow> Some (f x y)))"

lemma combine_option_simps [simp]:
  "combine_option f None b = b"
  "combine_option f a None = a"
  "combine_option f (Some x) (Some y) = Some (f x y)"
  by (simp_all add: combine_option_def split: option.splits)

lemma om_get_union_with:
  "om_inv m1 \<Longrightarrow> om_inv m2 \<Longrightarrow>
     om_get (om_union_with f m1 m2) k = combine_option f (om_get m1 k) (om_get m2 k)"
proof (induction f m1 m2 rule: om_union_with.induct)
  case (3 f k1 v1 m1 k2 v2 m2)
  then have below: "k1 < k2 \<Longrightarrow> om_get m2 k1 = None" "k2 < k1 \<Longrightarrow> om_get m1 k2 = None"
    "om_get m1 k1 = None" "om_get m2 k2 = None"
    by (auto simp: om_inv_Cons intro!: om_get_below intro: less_trans)
  from 3 below show ?case
    by (auto simp: om_inv_Cons)
qed simp_all

lemma om_union_with_comm:
  assumes "om_inv m1" "om_inv m2" "\<And>x y. f x y = f y x"
  shows "om_union_with f m1 m2 = om_union_with f m2 m1"
  using assms by (intro om_ext)
    (auto simp: om_get_union_with combine_option_def split: option.splits)

section \<open>Ordered sets\<close>

text \<open>An ordered set is its strictly increasing element list.\<close>

fun os_insert :: "'a::linorder \<Rightarrow> 'a list \<Rightarrow> 'a list" where
  "os_insert x [] = [x]"
| "os_insert x (y # ys) =
     (case cmp x y of Less \<Rightarrow> x # y # ys | Equal \<Rightarrow> y # ys | Greater \<Rightarrow> y # os_insert x ys)"

definition os_remove :: "'a \<Rightarrow> 'a list \<Rightarrow> 'a list" where
  "os_remove x ys = filter (\<lambda>y. y \<noteq> x) ys"

lemma set_os_insert [simp]: "set (os_insert x ys) = insert x (set ys)"
  by (induction ys) (auto)

lemma strict_sorted_os_insert [simp]: "strict_sorted ys \<Longrightarrow> strict_sorted (os_insert x ys)"
  by (induction ys) (auto dest: less_trans)

lemma set_os_remove [simp]: "set (os_remove x ys) = set ys - {x}"
  by (auto simp: os_remove_def)

lemma strict_sorted_os_remove [simp]: "strict_sorted ys \<Longrightarrow> strict_sorted (os_remove x ys)"
  by (simp add: os_remove_def sorted_wrt_filter)

lemma set_fold_os_insert [simp]: "set (fold os_insert xs s) = set xs \<union> set s"
  by (induction xs arbitrary: s) auto

lemma strict_sorted_fold_os_insert [simp]:
  "strict_sorted s \<Longrightarrow> strict_sorted (fold os_insert xs s)"
  by (induction xs arbitrary: s) simp_all

section \<open>The contract of a merge\<close>

text \<open>
  A state-based replicated type: \<open>join\<close> on the states that satisfy \<open>inv\<close> is commutative,
  associative and idempotent. Strong eventual consistency is a consequence: two replicas that
  absorb the same states, in any order and with any repetition, reach the same state.
\<close>

locale join_semilattice =
  fixes join :: "'s \<Rightarrow> 's \<Rightarrow> 's" and inv :: "'s \<Rightarrow> bool"
  assumes join_inv: "inv a \<Longrightarrow> inv b \<Longrightarrow> inv (join a b)"
    and join_comm: "inv a \<Longrightarrow> inv b \<Longrightarrow> join a b = join b a"
    and join_assoc: "inv a \<Longrightarrow> inv b \<Longrightarrow> inv c \<Longrightarrow> join (join a b) c = join a (join b c)"
    and join_idem: "inv a \<Longrightarrow> join a a = a"
begin

lemma join_absorb: "inv a \<Longrightarrow> inv b \<Longrightarrow> join (join a b) b = join a b"
  by (simp add: join_assoc join_idem)

lemma join_left_comm:
  "inv a \<Longrightarrow> inv b \<Longrightarrow> inv c \<Longrightarrow> join (join a b) c = join (join a c) b"
  by (simp add: join_assoc join_comm [of b c])

lemma fold_join_inv: "inv a \<Longrightarrow> \<forall>x \<in> set xs. inv x \<Longrightarrow> inv (fold (\<lambda>x s. join s x) xs a)"
  by (induction xs arbitrary: a) (auto intro: join_inv)

lemma fold_join_commute:
  "inv a \<Longrightarrow> inv y \<Longrightarrow> \<forall>x \<in> set xs. inv x \<Longrightarrow>
     fold (\<lambda>x s. join s x) xs (join a y) = join (fold (\<lambda>x s. join s x) xs a) y"
  by (induction xs arbitrary: a) (auto simp: join_left_comm join_inv)

lemma fold_join_absorb:
  "inv a \<Longrightarrow> \<forall>x \<in> set xs. inv x \<Longrightarrow> y \<in> set xs \<Longrightarrow>
     join (fold (\<lambda>x s. join s x) xs a) y = fold (\<lambda>x s. join s x) xs a"
proof (induction xs arbitrary: a)
  case (Cons x xs)
  show ?case
  proof (cases "y \<in> set xs")
    case True
    with Cons show ?thesis by (simp add: join_inv)
  next
    case False
    with Cons.prems have "y = x" by simp
    with Cons.prems show ?thesis by (simp add: fold_join_commute fold_join_inv join_absorb join_inv)
  qed
qed simp

lemma fold_join_subset:
  "inv a \<Longrightarrow> \<forall>x \<in> set xs. inv x \<Longrightarrow> set ys \<subseteq> set xs \<Longrightarrow>
     fold (\<lambda>x s. join s x) ys (fold (\<lambda>x s. join s x) xs a) = fold (\<lambda>x s. join s x) xs a"
  by (induction ys) (auto simp: fold_join_absorb)

lemma fold_join_swap:
  assumes "inv a" "\<forall>x \<in> set xs. inv x" "\<forall>y \<in> set ys. inv y"
  shows "fold (\<lambda>x s. join s x) ys (fold (\<lambda>x s. join s x) xs a) =
         fold (\<lambda>x s. join s x) xs (fold (\<lambda>x s. join s x) ys a)"
  using assms
proof (induction ys arbitrary: a)
  case (Cons y ys)
  then have "fold (\<lambda>x s. join s x) ys (fold (\<lambda>x s. join s x) xs (join a y)) =
             fold (\<lambda>x s. join s x) xs (fold (\<lambda>x s. join s x) ys (join a y))"
    by (simp add: join_inv)
  with Cons.prems show ?case by (simp add: fold_join_commute)
qed simp

text \<open>Convergence: only the set of absorbed states matters.\<close>

lemma convergence:
  assumes "inv a" "\<forall>x \<in> set xs. inv x" "set xs = set ys"
  shows "fold (\<lambda>x s. join s x) xs a = fold (\<lambda>x s. join s x) ys a"
proof -
  have "fold (\<lambda>x s. join s x) xs a = fold (\<lambda>x s. join s x) ys (fold (\<lambda>x s. join s x) xs a)"
    using assms by (simp add: fold_join_subset)
  also have "\<dots> = fold (\<lambda>x s. join s x) xs (fold (\<lambda>x s. join s x) ys a)"
    using assms by (simp add: fold_join_swap)
  also have "\<dots> = fold (\<lambda>x s. join s x) ys a"
    using assms by (simp add: fold_join_subset)
  finally show ?thesis .
qed

end

text \<open>Maps joined key by key inherit the contract from their values.\<close>

lemma om_get_value: "om_get m k = Some v \<Longrightarrow> \<forall>v \<in> snd ` set m. P v \<Longrightarrow> P v"
  by (force dest: map_of_SomeD)

lemma om_value_get:
  "om_inv m \<Longrightarrow> (\<And>k v. om_get m k = Some v \<Longrightarrow> P v) \<Longrightarrow> \<forall>v \<in> snd ` set m. P v"
  using om_get_in_set by fastforce

lemma join_semilattice_omap:
  assumes "join_semilattice f P"
  shows "join_semilattice (om_union_with f) (\<lambda>m. om_inv m \<and> (\<forall>v \<in> snd ` set m. P v))"
proof (unfold_locales, goal_cases)
  case (1 a b)
  have "P v" if "om_get (om_union_with f a b) k = Some v" for k v
    using that 1 om_get_value [of a k _ P] om_get_value [of b k _ P]
      join_semilattice.join_inv [OF assms]
    by (auto simp: om_get_union_with combine_option_def split: option.splits)
  with 1 show ?case using om_value_get [of "om_union_with f a b" P] by simp
next
  case (2 a b)
  have "combine_option f (om_get a k) (om_get b k) = combine_option f (om_get b k) (om_get a k)" for k
    using 2 om_get_value [of a k _ P] om_get_value [of b k _ P]
    by (auto simp: combine_option_def join_semilattice.join_comm [OF assms] split: option.splits)
  with 2 show ?case by (intro om_ext) (simp_all add: om_get_union_with)
next
  case (3 a b c)
  have "combine_option f (combine_option f (om_get a k) (om_get b k)) (om_get c k) =
        combine_option f (om_get a k) (combine_option f (om_get b k) (om_get c k))" for k
    using 3 om_get_value [of a k _ P] om_get_value [of b k _ P] om_get_value [of c k _ P]
    by (auto simp: combine_option_def join_semilattice.join_assoc [OF assms] split: option.splits)
  with 3 show ?case by (intro om_ext) (simp_all add: om_get_union_with)
next
  case (4 a)
  have "combine_option f (om_get a k) (om_get a k) = om_get a k" for k
    using 4 om_get_value [of a k _ P]
    by (auto simp: combine_option_def join_semilattice.join_idem [OF assms] split: option.splits)
  with 4 show ?case by (intro om_ext) (simp_all add: om_get_union_with)
qed

end
