(* ===== verification/Clock.thy ===== *)
theory Clock
  imports Ordered_Map
begin

text \<open>
  The crate \<open>ferratom-clock\<close>: node identifiers, transaction identifiers with their total order
  (\<open>txid.rs\<close>), the hybrid logical clock with its bounded busy-wait (\<open>lib.rs\<close>) and the per-node
  frontier (\<open>frontier.rs\<close>). The wall clock is the environment: \<open>now\<close> is an argument that reads
  a clock source and returns the source's next state, so nothing is assumed about its readings.
\<close>

section \<open>Node and transaction identifiers (txid.rs)\<close>

datatype node_id = NodeId (node_bytes: bytes)

definition node_wf :: "node_id \<Rightarrow> bool" where
  "node_wf n \<longleftrightarrow> length (node_bytes n) = 16"

definition zero_node :: node_id where
  "zero_node = NodeId (replicate 16 0)"

instantiation node_id :: linorder
begin

definition less_eq_node_id :: "node_id \<Rightarrow> node_id \<Rightarrow> bool" where
  "a \<le> b \<longleftrightarrow> node_bytes a \<le> node_bytes b"

definition less_node_id :: "node_id \<Rightarrow> node_id \<Rightarrow> bool" where
  "a < b \<longleftrightarrow> node_bytes a < node_bytes b"

instance
  by standard (auto simp: less_eq_node_id_def less_node_id_def node_id.expand)

end

datatype txid = TxId (tx_physical: u64) (tx_logical: u32) (tx_node: node_id)

definition with_node :: "u64 \<Rightarrow> u32 \<Rightarrow> node_id \<Rightarrow> txid" where
  "with_node p l n = TxId p l n"

text \<open>\<open>impl Ord for TxId\<close>.\<close>

definition TxId_cmp :: "txid \<Rightarrow> txid \<Rightarrow> ordering" where
  "TxId_cmp a b =
     then_with (then_with (cmp (tx_physical a) (tx_physical b)) (cmp (tx_logical a) (tx_logical b)))
       (cmp (tx_node a) (tx_node b))"

definition txid_key :: "txid \<Rightarrow> u64 \<times> u32 \<times> node_id" where
  "txid_key t = (tx_physical t, tx_logical t, tx_node t)"

lemma txid_key_inject [simp]: "txid_key a = txid_key b \<longleftrightarrow> a = b"
  by (auto simp: txid_key_def txid.expand)

lemma then_with_assoc: "then_with (then_with a b) c = then_with a (then_with b c)"
  by (cases a) auto

lemma TxId_cmp_key: "TxId_cmp a b = cmp (txid_key a) (txid_key b)"
  by (simp add: TxId_cmp_def txid_key_def cmp_pair then_with_assoc)

instantiation txid :: linorder
begin

definition less_eq_txid :: "txid \<Rightarrow> txid \<Rightarrow> bool" where
  "a \<le> b \<longleftrightarrow> TxId_cmp a b \<noteq> Greater"

definition less_txid :: "txid \<Rightarrow> txid \<Rightarrow> bool" where
  "a < b \<longleftrightarrow> TxId_cmp a b = Less"

instance
  by standard (auto simp: less_eq_txid_def less_txid_def TxId_cmp_key not_less intro: le_neq_trans)

end

lemma txid_less_eq_key [ord_keys]: "a \<le> b \<longleftrightarrow> txid_key a \<le> txid_key b"
  and txid_less_key [ord_keys]: "a < b \<longleftrightarrow> txid_key a < txid_key b"
  by (auto simp: less_eq_txid_def less_txid_def TxId_cmp_key not_less)

section \<open>The hybrid logical clock (lib.rs)\<close>

datatype clock_error = LogicalOverflow

definition MAX_BUSY_WAIT_RETRIES :: nat where
  "MAX_BUSY_WAIT_RETRIES = 1000000"

record 'c hybrid_clock =
  hc_clock :: 'c
  hc_physical :: u64
  hc_logical :: u32
  hc_node :: node_id

definition with_clock :: "node_id \<Rightarrow> 'c \<Rightarrow> 'c hybrid_clock" where
  "with_clock n c = \<lparr>hc_clock = c, hc_physical = 0, hc_logical = 0, hc_node = n\<rparr>"

text \<open>The overflow loop of \<open>tick\<close>: read the clock until it passes \<open>p\<close> or \<open>mx\<close> readings failed.\<close>

function busy_wait :: "nat \<Rightarrow> ('c \<Rightarrow> u64 \<times> 'c) \<Rightarrow> u64 \<Rightarrow> 'c \<Rightarrow> nat \<Rightarrow> 'c \<times> (clock_error + u64)" where
  "busy_wait mx now p c retries =
     (let (updated, c') = now c
      in if updated > p then (c', Inr updated)
         else if retries + 1 \<ge> mx then (c', Inl LogicalOverflow)
         else busy_wait mx now p c' (retries + 1))"
  by pat_completeness auto
termination
  by (relation "measure (\<lambda>(mx, now, p, c, retries). mx - retries)") auto

declare busy_wait.simps [simp del]

definition checked_add_u32 :: "u32 \<Rightarrow> u32 option" where
  "checked_add_u32 l = (if unat l < u32_max then Some (l + 1) else None)"

definition tick_bounded ::
  "nat \<Rightarrow> ('c \<Rightarrow> u64 \<times> 'c) \<Rightarrow> 'c hybrid_clock \<Rightarrow> 'c hybrid_clock \<times> (clock_error + txid)" where
  "tick_bounded mx now hc =
     (let (t, c) = now (hc_clock hc); hc = hc\<lparr>hc_clock := c\<rparr>
      in if t > hc_physical hc then
           (hc\<lparr>hc_physical := t, hc_logical := 0\<rparr>, Inr (with_node t 0 (hc_node hc)))
         else (case checked_add_u32 (hc_logical hc) of
           Some l \<Rightarrow>
             (hc\<lparr>hc_logical := l\<rparr>, Inr (with_node (hc_physical hc) l (hc_node hc)))
         | None \<Rightarrow>
             (case busy_wait mx now (hc_physical hc) c 0 of
                (c', Inr updated) \<Rightarrow>
                  (hc\<lparr>hc_clock := c', hc_physical := updated, hc_logical := 0\<rparr>,
                   Inr (with_node updated 0 (hc_node hc)))
              | (c', Inl e) \<Rightarrow> (hc\<lparr>hc_clock := c'\<rparr>, Inl e))))"

definition tick ::
  "('c \<Rightarrow> u64 \<times> 'c) \<Rightarrow> 'c hybrid_clock \<Rightarrow> 'c hybrid_clock \<times> (clock_error + txid)" where
  "tick = tick_bounded MAX_BUSY_WAIT_RETRIES"

definition receive :: "('c \<Rightarrow> u64 \<times> 'c) \<Rightarrow> txid \<Rightarrow> 'c hybrid_clock \<Rightarrow> 'c hybrid_clock" where
  "receive now remote hc =
     (let (t, c) = now (hc_clock hc);
          new_physical = max (max t (hc_physical hc)) (tx_physical remote);
          new_logical =
            (if new_physical = hc_physical hc \<and> new_physical = tx_physical remote
             then max (hc_logical hc) (tx_logical remote)
             else if new_physical = hc_physical hc then hc_logical hc
             else if new_physical = tx_physical remote then tx_logical remote
             else 0)
      in hc\<lparr>hc_clock := c, hc_physical := new_physical, hc_logical := new_logical\<rparr>)"

subsection \<open>Sequences of clock operations\<close>

text \<open>A node's history: local ticks and received timestamps, in order; the outputs are the
  timestamps that \<open>tick\<close> returned.\<close>

datatype clock_event = Tick | Receive txid

fun clock_run ::
  "('c \<Rightarrow> u64 \<times> 'c) \<Rightarrow> 'c hybrid_clock \<Rightarrow> clock_event list \<Rightarrow> 'c hybrid_clock \<times> txid list" where
  "clock_run now hc [] = (hc, [])"
| "clock_run now hc (Receive r # es) = clock_run now (receive now r hc) es"
| "clock_run now hc (Tick # es) =
     (case tick now hc of
        (hc', Inl e) \<Rightarrow> clock_run now hc' es
      | (hc', Inr t) \<Rightarrow> (let (hc'', ts) = clock_run now hc' es in (hc'', t # ts)))"

subsection \<open>Lemmas on the clock\<close>

text \<open>The clock's state as a point of the \<open>(physical, logical)\<close> order.\<close>

definition clock_point :: "'c hybrid_clock \<Rightarrow> u64 \<times> u32" where
  "clock_point hc = (hc_physical hc, hc_logical hc)"

definition txid_point :: "txid \<Rightarrow> u64 \<times> u32" where
  "txid_point t = (tx_physical t, tx_logical t)"

lemma txid_point_less: "txid_point a < txid_point b \<Longrightarrow> a < b"
  by (auto simp: ord_keys txid_point_def txid_key_def less_prod_simp)

lemma txid_less_point: "a \<le> b \<Longrightarrow> txid_point a \<le> txid_point b"
  by (auto simp: ord_keys txid_point_def txid_key_def less_eq_prod_simp less_prod_simp)

lemma busy_wait_Inr: "busy_wait mx now p c r = (c', Inr u) \<Longrightarrow> p < u"
proof (induction mx now p c r rule: busy_wait.induct)
  case (1 mx now p c r)
  obtain v d where now: "now c = (v, d)" by (cases "now c")
  from "1.prems" now show ?case
    using "1.IH" [OF refl now [symmetric]]
    by (simp add: busy_wait.simps [of mx now p c r] split: if_splits)
qed

lemma checked_add_u32_Some: "checked_add_u32 l = Some l' \<Longrightarrow> l < l'"
  by (auto simp: checked_add_u32_def u32_max_def word_less_nat_alt unat_word_ariths split: if_splits)

text \<open>A successful tick returns a timestamp past the old state, and the state is that timestamp.\<close>

lemma tick_bounded_point:
  assumes "tick_bounded mx now hc = (hc', Inr t)"
  shows "clock_point hc < txid_point t" "clock_point hc' = txid_point t"
    "tx_node t = hc_node hc" "hc_node hc' = hc_node hc"
  using assms
  by (auto simp: tick_bounded_def clock_point_def txid_point_def with_node_def less_prod_simp Let_def
      split: prod.splits if_splits option.splits sum.splits dest: busy_wait_Inr checked_add_u32_Some)

lemma tick_bounded_error:
  assumes "tick_bounded mx now hc = (hc', Inl e)"
  shows "clock_point hc' = clock_point hc" "hc_node hc' = hc_node hc" "unat (hc_logical hc) \<ge> u32_max"
  using assms
  by (auto simp: tick_bounded_def clock_point_def Let_def checked_add_u32_def
      split: prod.splits if_splits option.splits sum.splits)

lemma receive_point:
  "clock_point hc \<le> clock_point (receive now r hc)"
  "txid_point r \<le> clock_point (receive now r hc)"
  "hc_node (receive now r hc) = hc_node hc"
  by (auto simp: receive_def clock_point_def txid_point_def less_eq_prod_simp max_def Let_def
      split: prod.splits)

text \<open>The successive readings of a clock source, and when the busy-wait gives up.\<close>

primrec reading :: "('c \<Rightarrow> u64 \<times> 'c) \<Rightarrow> 'c \<Rightarrow> nat \<Rightarrow> u64" where
  "reading now c 0 = fst (now c)"
| "reading now c (Suc i) = reading now (snd (now c)) i"

lemma busy_wait_error:
  "r < mx \<Longrightarrow> snd (busy_wait mx now p c r) = Inl e \<longleftrightarrow> (\<forall>i < mx - r. reading now c i \<le> p)"
proof (induction mx now p c r rule: busy_wait.induct)
  case (1 mx now p c r)
  obtain u c' where now: "now c = (u, c')" by (cases "now c")
  have split: "(\<forall>i < mx - r. reading now c i \<le> p) \<longleftrightarrow>
      u \<le> p \<and> (\<forall>i < mx - (r + 1). reading now c' i \<le> p)"
  proof -
    have "mx - r = Suc (mx - (r + 1))" using "1.prems" by simp
    then show ?thesis using now by (simp add: All_less_Suc2)
  qed
  show ?case
  proof (cases "p < u \<or> mx \<le> r + 1")
    case True
    then show ?thesis using now split "1.prems"
      by (cases e) (auto simp: busy_wait.simps [of mx now p c r])
  next
    case False
    with "1.IH" [OF refl now [symmetric]] have
      "snd (busy_wait mx now p c' (r + 1)) = Inl e \<longleftrightarrow> (\<forall>i < mx - (r + 1). reading now c' i \<le> p)"
      by simp
    with False now split show ?thesis by (auto simp: busy_wait.simps [of mx now p c r] not_less)
  qed
qed

lemma clock_run_append:
  "clock_run now hc (es1 @ es2) =
     (let (hc1, ts1) = clock_run now hc es1; (hc2, ts2) = clock_run now hc1 es2 in (hc2, ts1 @ ts2))"
  by (induction now hc es1 rule: clock_run.induct) (auto split: prod.splits sum.splits)

lemma clock_run_sorted:
  assumes "clock_run now hc es = (hc', ts)"
  shows "strict_sorted ts \<and> (\<forall>t \<in> set ts. clock_point hc < txid_point t \<and> tx_node t = hc_node hc) \<and>
         clock_point hc \<le> clock_point hc' \<and> (\<forall>t \<in> set ts. txid_point t \<le> clock_point hc')"
  using assms
proof (induction now hc es arbitrary: hc' ts rule: clock_run.induct)
  case (2 now hc r es)
  then show ?case 
    using receive_point(1) [of hc now r] receive_point(3) [of now r hc]
    by (fastforce intro: order_trans le_less_trans)
next
  case (3 now hc es)
  show ?case
  proof (cases "tick now hc")
    case (Pair hc1 res)
    show ?thesis
    proof (cases res)
      case (Inl e)
      with 3 Pair show ?thesis using tick_bounded_error [of _ now hc hc1 e] by (simp add: tick_def)
    next
      case (Inr t)
      obtain hc2 ts2 where run: "clock_run now hc1 es = (hc2, ts2)" by (cases "clock_run now hc1 es")
      note IH = "3.IH"(2) [OF Pair [symmetric] Inr run]
      note pt = tick_bounded_point [OF Pair [unfolded Inr tick_def]]
      have "hc' = hc2" "ts = t # ts2" using "3.prems" Pair Inr run by auto
      with IH pt show ?thesis by (auto intro: txid_point_less less_trans less_le_trans less_imp_le)
    qed
  qed
qed simp

section \<open>The frontier (frontier.rs)\<close>

record frontier =
  fr_map :: "(node_id, txid) omap"

definition frontier_new :: frontier where
  "frontier_new = \<lparr>fr_map = []\<rparr>"

definition advance :: "node_id \<Rightarrow> txid \<Rightarrow> frontier \<Rightarrow> frontier" where
  "advance n t f =
     (let (entry, m) = (case om_get (fr_map f) n of
                          Some e \<Rightarrow> (e, fr_map f)
                        | None \<Rightarrow> (t, om_insert n t (fr_map f)))
      in if t > entry then f\<lparr>fr_map := om_insert n t m\<rparr> else f\<lparr>fr_map := m\<rparr>)"

definition frontier_get :: "frontier \<Rightarrow> node_id \<Rightarrow> txid option" where
  "frontier_get f n = om_get (fr_map f) n"

definition frontier_merge :: "frontier \<Rightarrow> frontier \<Rightarrow> frontier" where
  "frontier_merge f g = fold (\<lambda>(n, t) acc. advance n t acc) (fr_map g) f"

definition frontier_inv :: "frontier \<Rightarrow> bool" where
  "frontier_inv f \<longleftrightarrow> om_inv (fr_map f)"

lemma frontier_get_advance:
  "frontier_get (advance n t f) m =
     (if m = n then combine_option max (frontier_get f n) (Some t) else frontier_get f m)"
  by (auto simp: advance_def frontier_get_def max_def split: option.splits)

lemma frontier_inv_advance [simp]: "frontier_inv f \<Longrightarrow> frontier_inv (advance n t f)"
  by (auto simp: advance_def frontier_inv_def split: option.splits)

lemma frontier_ext:
  "frontier_inv f \<Longrightarrow> frontier_inv g \<Longrightarrow> (\<And>n. frontier_get f n = frontier_get g n) \<Longrightarrow> f = g"
  by (cases f; cases g) (auto simp: frontier_inv_def frontier_get_def intro: om_ext)

lemma frontier_fold_advance:
  "distinct (map fst xs) \<Longrightarrow> frontier_inv f \<Longrightarrow>
     frontier_inv (fold (\<lambda>(n, t) acc. advance n t acc) xs f) \<and>
     frontier_get (fold (\<lambda>(n, t) acc. advance n t acc) xs f) m =
       combine_option max (frontier_get f m) (map_of xs m)"
proof (induction xs arbitrary: f)
  case (Cons p xs)
  then show ?case
    by (cases p) (auto simp: frontier_get_advance map_of_eq_None_iff [symmetric])
qed simp

lemma frontier_get_merge:
  "frontier_inv f \<Longrightarrow> frontier_inv g \<Longrightarrow>
     frontier_get (frontier_merge f g) n = combine_option max (frontier_get f n) (frontier_get g n)"
  and frontier_inv_merge: "frontier_inv f \<Longrightarrow> frontier_inv g \<Longrightarrow> frontier_inv (frontier_merge f g)"
  using frontier_fold_advance [of "fr_map g" f]
  by (auto simp: frontier_merge_def frontier_get_def frontier_inv_def om_inv_distinct)

interpretation frontier: join_semilattice frontier_merge frontier_inv
proof (unfold_locales, goal_cases)
  case (2 a b)
  then show ?case by (intro frontier_ext)
      (auto simp: frontier_get_merge frontier_inv_merge combine_option_def max.commute split: option.splits)
next
  case (3 a b c)
  then show ?case by (intro frontier_ext)
      (auto simp: frontier_get_merge frontier_inv_merge combine_option_def max.assoc split: option.splits)
next
  case (4 a)
  then show ?case by (intro frontier_ext)
      (auto simp: frontier_get_merge frontier_inv_merge combine_option_def split: option.splits)
qed (simp add: frontier_inv_merge)

definition frontier_le :: "frontier \<Rightarrow> frontier \<Rightarrow> bool" where
  "frontier_le f g \<longleftrightarrow>
     (\<forall>n t. frontier_get f n = Some t \<longrightarrow> (\<exists>t'. frontier_get g n = Some t' \<and> t \<le> t'))"

section \<open>Properties of the clock\<close>

text \<open>C31 HLC monotonicity and causality. For any clock source, any node state and any history that
  receives \<open>r\<close> somewhere: the timestamps returned by \<open>tick\<close> are strictly increasing, all carry the
  node's identity, and every timestamp returned after \<open>r\<close> was received is greater than \<open>r\<close>.\<close>

theorem hlc_monotone_causal:
  assumes run: "clock_run now hc (es1 @ Receive r # es2) = (hc', ts)"
  shows "strict_sorted ts \<and> (\<forall>t \<in> set ts. tx_node t = hc_node hc) \<and>
         (\<exists>ts2. ts = snd (clock_run now hc es1) @ ts2 \<and> (\<forall>t \<in> set ts2. r < t))"
proof -
  obtain hc1 ts1 where r1: "clock_run now hc es1 = (hc1, ts1)" by fastforce
  obtain hc2 ts2 where r2: "clock_run now (receive now r hc1) es2 = (hc2, ts2)" by fastforce
  have "ts = ts1 @ ts2" using run r1 r2 by (simp add: clock_run_append)
  moreover have "r < t" if "t \<in> set ts2" for t
    using clock_run_sorted [OF r2] that receive_point(2) [of r now hc1]
    by (intro txid_point_less) (auto intro: le_less_trans)
  ultimately show ?thesis using clock_run_sorted [OF run] r1 by auto
qed

theorem hlc_monotone_causal_witness:
  "clock_run (\<lambda>c. (c, c)) (with_clock zero_node 5) [Tick, Receive (TxId 9 3 zero_node), Tick]
     = (\<lparr>hc_clock = 5, hc_physical = 9, hc_logical = 4, hc_node = zero_node\<rparr>,
        [TxId 5 0 zero_node, TxId 9 4 zero_node])
   \<and> strict_sorted [TxId 5 0 zero_node, TxId 9 4 zero_node]"
proof -
  let ?ts = "[TxId 5 0 zero_node, TxId 9 4 zero_node]"
  have run: "clock_run (\<lambda>c. (c, c)) (with_clock zero_node 5) ([Tick] @ Receive (TxId 9 3 zero_node) # [Tick])
     = (\<lparr>hc_clock = 5, hc_physical = 9, hc_logical = 4, hc_node = zero_node\<rparr>, ?ts)"
    by (simp add: with_clock_def tick_def tick_bounded_def receive_def with_node_def Let_def
        checked_add_u32_def u32_max_def)
  from hlc_monotone_causal [OF run] run show ?thesis by simp
qed

text \<open>When \<open>tick\<close> fails. The only error is \<open>LogicalOverflow\<close>, and it is returned exactly when
  the logical counter is at \<open>u32::MAX\<close> and none of the 1 + 1,000,000 readings of the clock passed the
  recorded physical time; otherwise a timestamp is returned.\<close>

theorem tick_error_iff:
  "snd (tick now hc) = Inl e \<longleftrightarrow>
     unat (hc_logical hc) = u32_max \<and>
     (\<forall>i \<le> MAX_BUSY_WAIT_RETRIES. reading now (hc_clock hc) i \<le> hc_physical hc)"
proof -
  obtain t c where now: "now (hc_clock hc) = (t, c)" by fastforce
  have mx: "0 < MAX_BUSY_WAIT_RETRIES" by (simp add: MAX_BUSY_WAIT_RETRIES_def)
  have split: "(\<forall>i \<le> MAX_BUSY_WAIT_RETRIES. reading now (hc_clock hc) i \<le> hc_physical hc) \<longleftrightarrow>
      t \<le> hc_physical hc \<and> (\<forall>i < MAX_BUSY_WAIT_RETRIES. reading now c i \<le> hc_physical hc)"
    using now by (simp add: less_Suc_eq_le [symmetric] All_less_Suc2)
  have ovf: "checked_add_u32 (hc_logical hc) = None \<longleftrightarrow> unat (hc_logical hc) = u32_max"
    using unsigned_less [of "hc_logical hc", where ?'a = nat]
    by (auto simp: checked_add_u32_def u32_max_def)
  have wait: "snd (busy_wait MAX_BUSY_WAIT_RETRIES now (hc_physical hc) c 0) = Inl e \<longleftrightarrow>
      (\<forall>i < MAX_BUSY_WAIT_RETRIES. reading now c i \<le> hc_physical hc)"
    using busy_wait_error [OF mx] by simp
  show ?thesis
  proof (cases "t \<le> hc_physical hc \<and> unat (hc_logical hc) = u32_max")
    case True
    then have "snd (tick now hc) = Inl e \<longleftrightarrow>
        snd (busy_wait MAX_BUSY_WAIT_RETRIES now (hc_physical hc) c 0) = Inl e"
      using now ovf by (auto simp: tick_def tick_bounded_def Let_def split: prod.splits sum.splits)
    with True wait split show ?thesis by simp
  next
    case False
    then have "snd (tick now hc) \<noteq> Inl e"
      using now ovf by (auto simp: tick_def tick_bounded_def Let_def not_le split: option.splits)
    with False split show ?thesis by blast
  qed
qed

theorem tick_error_iff_witness:
  "snd (tick (\<lambda>c. (0, c)) \<lparr>hc_clock = (), hc_physical = 7, hc_logical = 4294967295, hc_node = zero_node\<rparr>)
     = Inl LogicalOverflow"
proof -
  have frozen: "reading (\<lambda>c. (0, c)) () i = 0" for i by (induction i) simp_all
  show ?thesis unfolding tick_error_iff by (simp add: frozen u32_max_def)
qed

text \<open>The merge of two frontiers is their least upper bound in the per-node order, and it is
  commutative: it dominates both, and any frontier that dominates both dominates it.\<close>

theorem frontier_merge_lub:
  assumes "frontier_inv f" "frontier_inv g"
  shows "frontier_le f (frontier_merge f g) \<and> frontier_le g (frontier_merge f g) \<and>
         (\<forall>h. frontier_le f h \<and> frontier_le g h \<longrightarrow> frontier_le (frontier_merge f g) h) \<and>
         frontier_merge f g = frontier_merge g f"
proof -
  have get: "frontier_get (frontier_merge f g) n = combine_option max (frontier_get f n) (frontier_get g n)"
    for n using assms by (rule frontier_get_merge)
  have "frontier_le f (frontier_merge f g)" "frontier_le g (frontier_merge f g)"
    by (auto simp: frontier_le_def get combine_option_def split: option.splits)
  moreover have "frontier_le (frontier_merge f g) h" if "frontier_le f h" "frontier_le g h" for h
    using that by (fastforce simp: frontier_le_def get combine_option_def split: option.splits)
  ultimately show ?thesis using assms frontier.join_comm by blast
qed

theorem frontier_merge_lub_witness:
  "frontier_le \<lparr>fr_map = [(zero_node, TxId 1 0 zero_node)]\<rparr>
     (frontier_merge \<lparr>fr_map = [(zero_node, TxId 1 0 zero_node)]\<rparr>
                     \<lparr>fr_map = [(zero_node, TxId 2 0 zero_node)]\<rparr>)"
  by (rule frontier_merge_lub [THEN conjunct1]) (simp_all add: frontier_inv_def om_inv_def)

end
