(* ===== verification/Datom.thy ===== *)
theory Datom
  imports Clock
begin

text \<open>
  The data model of the crate \<open>ferratom\<close>: entity identifiers (\<open>datom/entity.rs\<close>), attributes and
  their intern table, values (\<open>datom/value.rs\<close>), operations and the datom with its derived EAVT order
  (\<open>datom/mod.rs\<close>), the error type (\<open>error.rs\<close>) and the datom filter (\<open>filter.rs\<close>).

  Conventions. A Rust string is a \<open>string\<close> of UTF-8 bytes. \<open>i64\<close> and \<open>i128\<close> are words read by \<open>sint\<close>.
  A non-NaN \<open>f64\<close> is its bit pattern; \<open>OrderedFloat\<close> identifies \<open>-0.0\<close> and \<open>+0.0\<close>, so the pattern is
  normalised on construction and HOL equality is Rust's \<open>==\<close> (the code reads the number only through
  \<open>into_inner() + 0.0\<close>, which normalises it too). Error values keep their variant and, where it has
  one, the attribute or invariant concerned; the free-text \<open>expected\<close>, \<open>got\<close> and \<open>details\<close> are left
  out. BLAKE3 is a parameter of the functions that hash.
\<close>

section \<open>Errors (error.rs)\<close>

datatype ferra_error =
    WalWrite string
  | WalRead string
  | CheckpointCorrupted
  | CheckpointWrite string
  | Io string string
  | UnknownAttribute string
  | SchemaViolation string
  | AttributeTooLong nat
  | EmptyTransaction
  | SchemaIncompatible string string string
  | Backpressure
  | PeerUnreachable string string
  | SignatureInvalid string
  | TransportError string
  | TruncatedChunk
  | TrailingBytes
  | NonCanonicalChunk
  | EmptyChunk
  | UnknownCodecTag u8
  | NotImplemented string
  | InvariantViolation string

section \<open>Entities, attributes, operations\<close>

datatype entity_id = EntityId (entity_bytes: bytes)

definition entity_wf :: "entity_id \<Rightarrow> bool" where
  "entity_wf e \<longleftrightarrow> length (entity_bytes e) = 32"

definition from_content :: "(bytes \<Rightarrow> bytes) \<Rightarrow> bytes \<Rightarrow> entity_id" where
  "from_content blake3 content = EntityId (blake3 content)"

datatype attribute = Attribute (as_str: string)

definition Attribute_new :: "string \<Rightarrow> ferra_error + attribute" where
  "Attribute_new s =
     (case try_from_usize u16_max (length s) of
        None \<Rightarrow> Inl (AttributeTooLong (length s))
      | Some _ \<Rightarrow> Inr (Attribute s))"

datatype op = Assert | Retract

fun op_rank :: "op \<Rightarrow> nat" where
  "op_rank Assert = 0"
| "op_rank Retract = 1"

lemma op_rank_inject [simp]: "op_rank a = op_rank b \<longleftrightarrow> a = b"
  by (cases a; cases b) simp_all

instantiation entity_id :: linorder
begin

definition less_eq_entity_id :: "entity_id \<Rightarrow> entity_id \<Rightarrow> bool" where
  "a \<le> b \<longleftrightarrow> entity_bytes a \<le> entity_bytes b"

definition less_entity_id :: "entity_id \<Rightarrow> entity_id \<Rightarrow> bool" where
  "a < b \<longleftrightarrow> entity_bytes a < entity_bytes b"

instance
  by standard (auto simp: less_eq_entity_id_def less_entity_id_def entity_id.expand)

end

instantiation attribute :: linorder
begin

definition less_eq_attribute :: "attribute \<Rightarrow> attribute \<Rightarrow> bool" where
  "a \<le> b \<longleftrightarrow> as_str a \<le> as_str b"

definition less_attribute :: "attribute \<Rightarrow> attribute \<Rightarrow> bool" where
  "a < b \<longleftrightarrow> as_str a < as_str b"

instance
  by standard (auto simp: less_eq_attribute_def less_attribute_def attribute.expand)

end

instantiation op :: linorder
begin

definition less_eq_op :: "op \<Rightarrow> op \<Rightarrow> bool" where
  "a \<le> b \<longleftrightarrow> op_rank a \<le> op_rank b"

definition less_op :: "op \<Rightarrow> op \<Rightarrow> bool" where
  "a < b \<longleftrightarrow> op_rank a < op_rank b"

instance
  by standard (auto simp: less_eq_op_def less_op_def)

end

lemma op_less [simp]: "a < b \<longleftrightarrow> a = Assert \<and> b = Retract"
  by (cases a; cases b) (simp_all add: less_op_def)

section \<open>Values (datom/value.rs)\<close>

subsection \<open>Non-NaN floats\<close>

definition f64_is_nan :: "u64 \<Rightarrow> bool" where
  "f64_is_nan w \<longleftrightarrow> w AND 0x7FFFFFFFFFFFFFFF > 0x7FF0000000000000"

text \<open>The bit pattern of \<open>x + 0.0\<close> for a number \<open>x\<close>: only \<open>-0.0\<close> changes.\<close>

definition f64_add_zero :: "u64 \<Rightarrow> u64" where
  "f64_add_zero w = (if w = 0x8000000000000000 then 0 else w)"

datatype non_nan_float = NonNanFloat (into_inner: u64)

definition NonNanFloat_new :: "u64 \<Rightarrow> non_nan_float option" where
  "NonNanFloat_new f = (if f64_is_nan f then None else Some (NonNanFloat (f64_add_zero f)))"

definition float_wf :: "non_nan_float \<Rightarrow> bool" where
  "float_wf f \<longleftrightarrow> \<not> f64_is_nan (into_inner f) \<and> into_inner f \<noteq> 0x8000000000000000"

text \<open>The numeric order of non-NaN doubles, on bit patterns: sign and magnitude.\<close>

definition f64_order :: "u64 \<Rightarrow> int" where
  "f64_order w =
     (if bit w 63 then - uint (w AND 0x7FFFFFFFFFFFFFFF) else uint (w AND 0x7FFFFFFFFFFFFFFF))"

lemma NonNanFloat_new_wf: "NonNanFloat_new f = Some g \<Longrightarrow> float_wf g"
  by (auto simp: NonNanFloat_new_def float_wf_def f64_add_zero_def f64_is_nan_def split: if_splits)

subsection \<open>The value type\<close>

datatype val =
    VKeyword string
  | VString string
  | VLong u64
  | VDouble non_nan_float
  | VBool bool
  | VInstant u64
  | VUuid bytes
  | VBytes bytes
  | VRef entity_id
  | VBigInt u128
  | VBigDec u128

text \<open>The derived order: the variant first, then the payload. The key spells both out.\<close>

fun val_key :: "val \<Rightarrow> nat \<times> int \<times> nat list" where
  "val_key (VKeyword s) = (0, 0, map of_char s)"
| "val_key (VString s) = (1, 0, map of_char s)"
| "val_key (VLong n) = (2, sint n, [])"
| "val_key (VDouble f) = (3, f64_order (into_inner f), [unat (into_inner f)])"
| "val_key (VBool b) = (4, of_bool b, [])"
| "val_key (VInstant n) = (5, sint n, [])"
| "val_key (VUuid u) = (6, 0, map unat u)"
| "val_key (VBytes b) = (7, 0, map unat b)"
| "val_key (VRef e) = (8, 0, map unat (entity_bytes e))"
| "val_key (VBigInt n) = (9, sint n, [])"
| "val_key (VBigDec n) = (10, sint n, [])"

lemma map_of_char_inject: "map (of_char :: char \<Rightarrow> nat) s = map of_char t \<longleftrightarrow> s = t"
  by (rule inj_map_eq_map [OF inj_of_char])

lemma map_unat_inject: "map unat (s :: 'a::len word list) = map unat t \<longleftrightarrow> s = t"
  by (rule inj_map_eq_map) (simp add: inj_def word_unat_eq_iff)

lemma val_key_inject [simp]: "val_key a = val_key b \<longleftrightarrow> a = b"
  by (cases a; cases b)
    (auto simp: map_of_char_inject map_unat_inject non_nan_float.expand entity_id.expand
      dest: word_unat_eq_iff [THEN iffD2] intro: signed_word_eqI)

instantiation val :: linorder
begin

definition less_eq_val :: "val \<Rightarrow> val \<Rightarrow> bool" where
  "a \<le> b \<longleftrightarrow> val_key a \<le> val_key b"

definition less_val :: "val \<Rightarrow> val \<Rightarrow> bool" where
  "a < b \<longleftrightarrow> val_key a < val_key b"

instance
  by standard (auto simp: less_eq_val_def less_val_def intro: le_neq_trans)

end

lemmas val_order [ord_keys] = less_eq_val_def less_val_def

section \<open>Datoms (datom/mod.rs)\<close>

datatype datom =
  Datom (d_entity: entity_id) (d_attribute: attribute) (d_value: val) (d_tx: txid) (d_op: op)

definition datom_key :: "datom \<Rightarrow> entity_id \<times> attribute \<times> val \<times> txid \<times> op" where
  "datom_key d = (d_entity d, d_attribute d, d_value d, d_tx d, d_op d)"

lemma datom_key_inject [simp]: "datom_key a = datom_key b \<longleftrightarrow> a = b"
  by (auto simp: datom_key_def datom.expand)

instantiation datom :: linorder
begin

definition less_eq_datom :: "datom \<Rightarrow> datom \<Rightarrow> bool" where
  "a \<le> b \<longleftrightarrow> datom_key a \<le> datom_key b"

definition less_datom :: "datom \<Rightarrow> datom \<Rightarrow> bool" where
  "a < b \<longleftrightarrow> datom_key a < datom_key b"

instance
  by standard (auto simp: less_eq_datom_def less_datom_def intro: le_neq_trans)

end

lemmas datom_order [ord_keys] = less_eq_datom_def less_datom_def

lemma datom_cmp_key: "cmp a b = cmp (datom_key a) (datom_key b)"
  by (auto simp: cmp_def less_datom_def)

text \<open>The \<open>(entity, attribute, value)\<close> triple a datom speaks about.\<close>

definition eav :: "datom \<Rightarrow> entity_id \<times> attribute \<times> val" where
  "eav d = (d_entity d, d_attribute d, d_value d)"

lemma datom_less_eav:
  "a < b \<longleftrightarrow> eav a < eav b \<or> eav a = eav b \<and> (d_tx a, d_op a) < (d_tx b, d_op b)"
  by (auto simp: less_datom_def datom_key_def eav_def less_prod_simp)

section \<open>The attribute intern table (datom/value.rs)\<close>

text \<open>\<open>AttributeId(u16)\<close> is the number itself, bounded by \<open>u16::MAX\<close>.\<close>

record attribute_intern =
  to_id :: "(attribute, nat) omap"
  to_name :: "string list"

fun intern_loop :: "nat \<Rightarrow> attribute list \<Rightarrow> attribute_intern \<Rightarrow> ferra_error + attribute_intern" where
  "intern_loop i [] t = Inr t"
| "intern_loop i (a # as) t =
     (case try_from_usize u16_max i of
        None \<Rightarrow> Inl (InvariantViolation ''ADR-FERR-030'')
      | Some n \<Rightarrow>
          intern_loop (i + 1) as
            (t\<lparr>to_id := om_insert a n (to_id t), to_name := to_name t @ [as_str a]\<rparr>))"

definition from_attributes :: "attribute list \<Rightarrow> ferra_error + attribute_intern" where
  "from_attributes attrs =
     (let sorted = sort_dedup attrs
      in if length sorted > u16_max + 1 then Inl (InvariantViolation ''ADR-FERR-030'')
         else intern_loop 0 sorted \<lparr>to_id = [], to_name = []\<rparr>)"

definition id_of :: "attribute_intern \<Rightarrow> attribute \<Rightarrow> nat option" where
  "id_of t a = om_get (to_id t) a"

definition resolve :: "attribute_intern \<Rightarrow> nat \<Rightarrow> string option" where
  "resolve t i = (if i < length (to_name t) then Some (to_name t ! i) else None)"

definition intern :: "attribute \<Rightarrow> attribute_intern \<Rightarrow> ferra_error + (nat \<times> attribute_intern)" where
  "intern a t =
     (case om_get (to_id t) a of
        Some i \<Rightarrow> Inr (i, t)
      | None \<Rightarrow>
          (case try_from_usize u16_max (length (to_name t)) of
             None \<Rightarrow> Inl (InvariantViolation ''ADR-FERR-030'')
           | Some i \<Rightarrow>
               Inr (i, t\<lparr>to_id := om_insert a i (to_id t), to_name := to_name t @ [as_str a]\<rparr>)))"

text \<open>The two directions of the table agree: \<open>id_of\<close> and \<open>resolve\<close> are inverse.\<close>

definition intern_inv :: "attribute_intern \<Rightarrow> bool" where
  "intern_inv t \<longleftrightarrow>
     om_inv (to_id t) \<and> length (to_name t) \<le> u16_max + 1 \<and>
     (\<forall>a i. id_of t a = Some i \<longleftrightarrow> resolve t i = Some (as_str a))"

lemma intern_inv_push:
  assumes "intern_inv t" "id_of t a = None" "length (to_name t) \<le> u16_max"
  shows "intern_inv (t\<lparr>to_id := om_insert a (length (to_name t)) (to_id t),
                       to_name := to_name t @ [as_str a]\<rparr>)"
  using assms
  by (auto simp: intern_inv_def id_of_def resolve_def nth_append attribute.expand)
     (metis attribute.expand less_irrefl option.distinct(1) option.inject)+

lemma intern_loop_spec:
  assumes "intern_inv t" "length (to_name t) = i" "strict_sorted as"
    "\<forall>a \<in> set as. id_of t a = None" "i + length as \<le> u16_max + 1"
  shows "\<exists>t'. intern_loop i as t = Inr t' \<and> intern_inv t' \<and>
           to_name t' = to_name t @ map as_str as"
  using assms
proof (induction i as t rule: intern_loop.induct)
  case (2 i a as t)
  let ?t = "t\<lparr>to_id := om_insert a i (to_id t), to_name := to_name t @ [as_str a]\<rparr>"
  have "i \<le> u16_max" using "2.prems" by simp
  moreover have "intern_inv ?t" using intern_inv_push [of t a] "2.prems" by simp
  moreover have "\<forall>a' \<in> set as. id_of ?t a' = None"
    using "2.prems" by (auto simp: id_of_def)
  ultimately show ?case using "2.IH" [of i] "2.prems" by simp
qed simp

lemma from_attributes_spec:
  assumes "length (sort_dedup attrs) \<le> u16_max + 1"
  shows "\<exists>t. from_attributes attrs = Inr t \<and> intern_inv t \<and>
           to_name t = map as_str (sort_dedup attrs)"
  using assms intern_loop_spec [of "\<lparr>to_id = [], to_name = []\<rparr>" 0 "sort_dedup attrs"]
  by (simp add: from_attributes_def intern_inv_def id_of_def resolve_def Let_def)

section \<open>Datom filters (filter.rs)\<close>

datatype datom_filter =
    FAll
  | AttributeNamespace "string list"
  | FromNodes "node_id list"
  | Entities "entity_id list"
  | FAnd "datom_filter list"
  | FOr "datom_filter list"

definition starts_with :: "string \<Rightarrow> string \<Rightarrow> bool" where
  "starts_with s p \<longleftrightarrow> take (length p) s = p"

fun filter_matches :: "datom_filter \<Rightarrow> datom \<Rightarrow> bool" where
  "filter_matches FAll d = True"
| "filter_matches (AttributeNamespace ps) d = list_ex (\<lambda>p. starts_with (as_str (d_attribute d)) p) ps"
| "filter_matches (FromNodes ns) d = List.member ns (tx_node (d_tx d))"
| "filter_matches (Entities es) d = List.member es (d_entity d)"
| "filter_matches (FAnd fs) d = list_all (\<lambda>f. filter_matches f d) fs"
| "filter_matches (FOr fs) d = list_ex (\<lambda>f. filter_matches f d) fs"

definition hex_digit :: "nat \<Rightarrow> char" where
  "hex_digit n = ''0123456789abcdef'' ! n"

definition bytes_to_hex :: "bytes \<Rightarrow> string" where
  "bytes_to_hex bs = concat (map (\<lambda>b. [hex_digit (unat b div 16), hex_digit (unat b mod 16)]) bs)"

fun join_strings :: "string \<Rightarrow> string list \<Rightarrow> string" where
  "join_strings sep [] = []"
| "join_strings sep [s] = s"
| "join_strings sep (s # t # ts) = s @ sep @ join_strings sep (t # ts)"

fun filter_serialize :: "datom_filter \<Rightarrow> string" where
  "filter_serialize FAll = ''All''"
| "filter_serialize (AttributeNamespace ps) = ''AttributeNamespace(['' @ join_strings '', '' ps @ ''])''"
| "filter_serialize (FromNodes ns) =
     ''FromNodes(['' @ join_strings '', '' (map (\<lambda>n. bytes_to_hex (node_bytes n)) ns) @ ''])''"
| "filter_serialize (Entities es) =
     ''Entities(['' @ join_strings '', '' (map (\<lambda>e. bytes_to_hex (entity_bytes e)) es) @ ''])''"
| "filter_serialize (FAnd fs) = ''And(['' @ join_strings '', '' (map filter_serialize fs) @ ''])''"
| "filter_serialize (FOr fs) = ''Or(['' @ join_strings '', '' (map filter_serialize fs) @ ''])''"

section \<open>Properties of the data model\<close>

text \<open>Interning preserves the attribute order and is lossless. Building the table from any list
  with at most 65,536 distinct attributes succeeds; every attribute of the list gets an identifier,
  identifiers compare exactly as the attribute names do, and \<open>resolve\<close> gives the name back.\<close>

theorem intern_order_isomorphic:
  assumes "length (sort_dedup attrs) \<le> u16_max + 1"
  shows "\<exists>t. from_attributes attrs = Inr t \<and>
    (\<forall>a. a \<in> set attrs \<longleftrightarrow> id_of t a \<noteq> None) \<and>
    (\<forall>a i. id_of t a = Some i \<longrightarrow> i \<le> u16_max \<and> resolve t i = Some (as_str a)) \<and>
    (\<forall>a b i j. id_of t a = Some i \<longrightarrow> id_of t b = Some j \<longrightarrow> (i < j \<longleftrightarrow> a < b))"
proof -
  obtain t where t: "from_attributes attrs = Inr t" "intern_inv t"
    "to_name t = map as_str (sort_dedup attrs)"
    using from_attributes_spec [OF assms] by blast
  have res: "id_of t a = Some i \<longleftrightarrow> i < length (sort_dedup attrs) \<and> sort_dedup attrs ! i = a" for a i
    using t(2,3) by (auto simp: intern_inv_def resolve_def attribute.expand split: if_splits)
  have mem: "a \<in> set attrs \<longleftrightarrow> id_of t a \<noteq> None" for a
    using res [of a] set_sort_dedup [of attrs] by (metis in_set_conv_nth not_None_eq)
  have "i < j \<longleftrightarrow> a < b" if "id_of t a = Some i" "id_of t b = Some j" for a b i j
    using that res sorted_wrt_nth_less [OF strict_sorted_sort_dedup, of _ _ attrs]
    by (metis linorder_neqE_nat not_less_iff_gr_or_eq)
  then show ?thesis using t res mem assms by (auto simp: resolve_def)
qed

theorem intern_order_isomorphic_witness:
  "\<exists>t. from_attributes [Attribute ''b'', Attribute ''a'', Attribute ''b''] = Inr t \<and>
     (\<forall>a b i j. id_of t a = Some i \<longrightarrow> id_of t b = Some j \<longrightarrow> (i < j \<longleftrightarrow> a < b))"
proof -
  have "length (sort_dedup [Attribute ''b'', Attribute ''a'', Attribute ''b'']) \<le> u16_max + 1"
    by (simp add: sort_dedup_def u16_max_def less_eq_attribute_def)
  from intern_order_isomorphic [OF this] show ?thesis by blast
qed

end
