(* ===== verification/Canonical.thy ===== *)
theory Canonical
  imports Datom
begin

text \<open>
  The canonical byte format of datoms (\<open>ferratom/src/datom/mod.rs\<close>): \<open>canonical_bytes\<close>, its parser
  \<open>from_canonical_bytes\<close> and the streaming content hash. The parsers keep the code's offset
  argument and its bounds checks. \<open>core::str::from_utf8\<close> is the standard's validity table; strings
  parsed from bytes are valid UTF-8.
\<close>

section \<open>Little-endian bytes\<close>

primrec to_le_bytes :: "nat \<Rightarrow> 'a::len word \<Rightarrow> bytes" where
  "to_le_bytes 0 w = []"
| "to_le_bytes (Suc n) w = ucast w # to_le_bytes n (drop_bit 8 w)"

primrec from_le_bytes :: "bytes \<Rightarrow> 'a::len word" where
  "from_le_bytes [] = 0"
| "from_le_bytes (b # bs) = ucast b OR push_bit 8 (from_le_bytes bs)"

lemma length_to_le_bytes [simp]: "length (to_le_bytes n w) = n"
  by (induction n arbitrary: w) simp_all

lemma from_le_to_le: "from_le_bytes (to_le_bytes n w) = take_bit (8 * n) (w :: 'a::len word)"
proof (induction n arbitrary: w)
  case (Suc n)
  show ?case
  proof (rule bit_word_eqI)
    fix k assume k: "k < LENGTH('a)"
    show "bit (from_le_bytes (to_le_bytes (Suc n) w) :: 'a word) k = bit (take_bit (8 * Suc n) w) k"
      using k by (cases "k < 8") (auto simp: Suc bit_simps not_less)
  qed
qed simp

lemma bit_from_le_bytes_bound: "bit (from_le_bytes bs :: 'a::len word) k \<Longrightarrow> k < 8 * length bs"
proof (induction bs arbitrary: k)
  case (Cons b bs)
  then have "bit b k \<or> 8 \<le> k \<and> bit (from_le_bytes bs :: 'a word) (k - 8)"
    by (auto simp: bit_simps)
  then show ?case using Cons.IH [of "k - 8"] by (auto dest: bit_imp_le_length)
qed simp

lemma to_le_from_le:
  "8 * length bs \<le> LENGTH('a) \<Longrightarrow> to_le_bytes (length bs) (from_le_bytes bs :: 'a::len word) = bs"
proof (induction bs)
  case (Cons b bs)
  have low: "(ucast (ucast b OR push_bit 8 (from_le_bytes bs) :: 'a word) :: u8) = b"
    using Cons.prems by (intro bit_word_eqI) (auto simp: bit_simps)
  have high: "drop_bit 8 (ucast b OR push_bit 8 (from_le_bytes bs) :: 'a word) = from_le_bytes bs"
  proof (rule bit_word_eqI)
    fix k assume "k < LENGTH('a)"
    show "bit (drop_bit 8 (ucast b OR push_bit 8 (from_le_bytes bs) :: 'a word)) k =
          bit (from_le_bytes bs :: 'a word) k"
      using bit_from_le_bytes_bound [of bs k, where ?'a = 'a] Cons.prems
      by (auto simp: bit_simps dest: bit_imp_le_length)
  qed
  from low high Cons show ?case by simp
qed simp

lemma le_bytes_roundtrip [simp]:
  "from_le_bytes (to_le_bytes 2 (w :: u16)) = w"
  "from_le_bytes (to_le_bytes 4 (x :: u32)) = x"
  "from_le_bytes (to_le_bytes 8 (y :: u64)) = y"
  "from_le_bytes (to_le_bytes 16 (z :: u128)) = z"
  by (simp_all add: from_le_to_le take_bit_word_eq_self)

section \<open>UTF-8 validity (core::str::from_utf8)\<close>

definition utf8_cont :: "u8 \<Rightarrow> bool" where
  "utf8_cont b \<longleftrightarrow> 0x80 \<le> b \<and> b \<le> 0xBF"

definition in_range :: "u8 \<Rightarrow> u8 \<Rightarrow> u8 \<Rightarrow> bool" where
  "in_range lo hi b \<longleftrightarrow> lo \<le> b \<and> b \<le> hi"

fun utf8_valid :: "bytes \<Rightarrow> bool" where
  "utf8_valid [] = True"
| "utf8_valid (b # bs) =
     (if b < 0x80 then utf8_valid bs
      else if in_range 0xC2 0xDF b then
        (case bs of c1 # bs' \<Rightarrow> utf8_cont c1 \<and> utf8_valid bs' | _ \<Rightarrow> False)
      else if in_range 0xE0 0xEF b then
        (case bs of
           c1 # c2 # bs' \<Rightarrow>
             (if b = 0xE0 then in_range 0xA0 0xBF c1
              else if b = 0xED then in_range 0x80 0x9F c1
              else utf8_cont c1) \<and> utf8_cont c2 \<and> utf8_valid bs'
         | _ \<Rightarrow> False)
      else if in_range 0xF0 0xF4 b then
        (case bs of
           c1 # c2 # c3 # bs' \<Rightarrow>
             (if b = 0xF0 then in_range 0x90 0xBF c1
              else if b = 0xF4 then in_range 0x80 0x8F c1
              else utf8_cont c1) \<and> utf8_cont c2 \<and> utf8_cont c3 \<and> utf8_valid bs'
         | _ \<Rightarrow> False)
      else False)"

declare utf8_valid.simps(2) [simp del]

definition from_utf8 :: "bytes \<Rightarrow> string option" where
  "from_utf8 bs = (if utf8_valid bs then Some (of_bytes bs) else None)"

definition str_wf :: "string \<Rightarrow> bool" where
  "str_wf s \<longleftrightarrow> utf8_valid (as_bytes s)"

lemma from_utf8_as_bytes [simp]: "str_wf s \<Longrightarrow> from_utf8 (as_bytes s) = Some s"
  by (simp add: from_utf8_def str_wf_def)

lemma from_utf8_Some: "from_utf8 bs = Some s \<Longrightarrow> as_bytes s = bs \<and> str_wf s"
  by (auto simp: from_utf8_def str_wf_def split: if_splits)

lemma utf8_valid_ascii: "\<forall>b \<in> set bs. b < 0x80 \<Longrightarrow> utf8_valid bs"
  by (induction bs) (simp_all add: utf8_valid.simps(2))

section \<open>Encoding\<close>

definition attr_byte_len_u16 :: "nat \<Rightarrow> u16" where
  "attr_byte_len_u16 len = of_nat (sat_usize u16_max len)"

definition canonical_attr_bytes :: "attribute \<Rightarrow> bytes" where
  "canonical_attr_bytes a =
     (let b = as_bytes (as_str a) in to_le_bytes 2 (attr_byte_len_u16 (length b)) @ b)"

definition canonical_tx_bytes :: "txid \<Rightarrow> bytes" where
  "canonical_tx_bytes t =
     to_le_bytes 8 (tx_physical t) @ to_le_bytes 4 (tx_logical t) @ node_bytes (tx_node t)"

definition push_tag_u16_str :: "u8 \<Rightarrow> bytes \<Rightarrow> bytes" where
  "push_tag_u16_str tag dat =
     tag # to_le_bytes 2 (of_nat (sat_usize u16_max (length dat)) :: u16) @ dat"

definition push_tag_u32_bytes :: "u8 \<Rightarrow> bytes \<Rightarrow> bytes" where
  "push_tag_u32_bytes tag dat =
     tag # to_le_bytes 4 (of_nat (sat_usize u32_max (length dat)) :: u32) @ dat"

fun canonical_value_bytes :: "val \<Rightarrow> bytes" where
  "canonical_value_bytes (VKeyword s) = push_tag_u16_str 0x01 (as_bytes s)"
| "canonical_value_bytes (VString s) = push_tag_u32_bytes 0x02 (as_bytes s)"
| "canonical_value_bytes (VLong n) = 0x03 # to_le_bytes 8 n"
| "canonical_value_bytes (VDouble f) = 0x04 # to_le_bytes 8 (f64_add_zero (into_inner f))"
| "canonical_value_bytes (VBool b) = [0x05, of_bool b]"
| "canonical_value_bytes (VInstant ms) = 0x06 # to_le_bytes 8 ms"
| "canonical_value_bytes (VUuid u) = 0x07 # u"
| "canonical_value_bytes (VBytes blob) = push_tag_u32_bytes 0x08 blob"
| "canonical_value_bytes (VRef e) = 0x09 # entity_bytes e"
| "canonical_value_bytes (VBigInt n) = 0x0A # to_le_bytes 16 n"
| "canonical_value_bytes (VBigDec n) = 0x0B # to_le_bytes 16 n"

definition op_byte :: "op \<Rightarrow> u8" where
  "op_byte p = (case p of Assert \<Rightarrow> 0x00 | Retract \<Rightarrow> 0x01)"

definition canonical_bytes :: "datom \<Rightarrow> bytes" where
  "canonical_bytes d =
     entity_bytes (d_entity d) @ canonical_attr_bytes (d_attribute d) @
     canonical_value_bytes (d_value d) @ canonical_tx_bytes (d_tx d) @ [op_byte (d_op d)]"

definition tx_id_canonical_bytes :: "txid \<Rightarrow> bytes" where
  "tx_id_canonical_bytes t =
     to_le_bytes 8 (tx_physical t) @ to_le_bytes 4 (tx_logical t) @ node_bytes (tx_node t)"

subsection \<open>The streaming hash\<close>

text \<open>\<open>blake3::Hasher\<close> absorbs the byte runs given to \<open>update\<close>; \<open>finalize\<close> is the hash of what was
  absorbed. The hasher's state is that byte string.\<close>

type_synonym hasher = bytes

definition hasher_update :: "bytes \<Rightarrow> hasher \<Rightarrow> hasher" where
  "hasher_update bs h = h @ bs"

definition hash_tag_u16_str :: "u8 \<Rightarrow> bytes \<Rightarrow> hasher \<Rightarrow> hasher" where
  "hash_tag_u16_str tag dat h =
     hasher_update dat
       (hasher_update (to_le_bytes 2 (of_nat (sat_usize u16_max (length dat)) :: u16))
         (hasher_update [tag] h))"

definition hash_tag_u32_bytes :: "u8 \<Rightarrow> bytes \<Rightarrow> hasher \<Rightarrow> hasher" where
  "hash_tag_u32_bytes tag dat h =
     hasher_update dat
       (hasher_update (to_le_bytes 4 (of_nat (sat_usize u32_max (length dat)) :: u32))
         (hasher_update [tag] h))"

fun canonical_value_hash :: "val \<Rightarrow> hasher \<Rightarrow> hasher" where
  "canonical_value_hash (VKeyword s) h = hash_tag_u16_str 0x01 (as_bytes s) h"
| "canonical_value_hash (VString s) h = hash_tag_u32_bytes 0x02 (as_bytes s) h"
| "canonical_value_hash (VLong n) h = hasher_update (to_le_bytes 8 n) (hasher_update [0x03] h)"
| "canonical_value_hash (VDouble f) h =
     hasher_update (to_le_bytes 8 (f64_add_zero (into_inner f))) (hasher_update [0x04] h)"
| "canonical_value_hash (VBool b) h = hasher_update [of_bool b] (hasher_update [0x05] h)"
| "canonical_value_hash (VInstant ms) h = hasher_update (to_le_bytes 8 ms) (hasher_update [0x06] h)"
| "canonical_value_hash (VUuid u) h = hasher_update u (hasher_update [0x07] h)"
| "canonical_value_hash (VBytes blob) h = hash_tag_u32_bytes 0x08 blob h"
| "canonical_value_hash (VRef e) h = hasher_update (entity_bytes e) (hasher_update [0x09] h)"
| "canonical_value_hash (VBigInt n) h = hasher_update (to_le_bytes 16 n) (hasher_update [0x0A] h)"
| "canonical_value_hash (VBigDec n) h = hasher_update (to_le_bytes 16 n) (hasher_update [0x0B] h)"

definition content_hash :: "(bytes \<Rightarrow> bytes) \<Rightarrow> datom \<Rightarrow> bytes" where
  "content_hash blake3 d =
     (let h = hasher_update (entity_bytes (d_entity d)) [];
          attr_bytes = as_bytes (as_str (d_attribute d));
          h = hasher_update (to_le_bytes 2 (attr_byte_len_u16 (length attr_bytes))) h;
          h = hasher_update attr_bytes h;
          h = canonical_value_hash (d_value d) h;
          h = hasher_update (to_le_bytes 8 (tx_physical (d_tx d))) h;
          h = hasher_update (to_le_bytes 4 (tx_logical (d_tx d))) h;
          h = hasher_update (node_bytes (tx_node (d_tx d))) h;
          h = hasher_update [op_byte (d_op d)] h
      in blake3 h)"

text \<open>The fields that are signed: everything but the transaction identifier.\<close>

definition hash_signing_fields :: "datom \<Rightarrow> hasher \<Rightarrow> hasher" where
  "hash_signing_fields d h =
     (let h = hasher_update (entity_bytes (d_entity d)) h;
          attr_bytes = as_bytes (as_str (d_attribute d));
          h = hasher_update (to_le_bytes 2 (attr_byte_len_u16 (length attr_bytes))) h;
          h = hasher_update attr_bytes h;
          h = canonical_value_hash (d_value d) h
      in hasher_update [op_byte (d_op d)] h)"

section \<open>Parsing\<close>

definition byte_slice :: "bytes \<Rightarrow> nat \<Rightarrow> nat \<Rightarrow> bytes" where
  "byte_slice bs off n = take n (drop off bs)"

definition parse_entity :: "bytes \<Rightarrow> nat \<Rightarrow> ferra_error + (entity_id \<times> nat)" where
  "parse_entity bs off =
     (if off + 32 > length bs then Inl TruncatedChunk
      else Inr (EntityId (byte_slice bs off 32), off + 32))"

definition parse_attribute :: "bytes \<Rightarrow> nat \<Rightarrow> ferra_error + (attribute \<times> nat)" where
  "parse_attribute bs off =
     (if off + 2 > length bs then Inl TruncatedChunk
      else (let len = unat (from_le_bytes (byte_slice bs off 2) :: u16); off = off + 2
            in if off + len > length bs then Inl TruncatedChunk
               else (case from_utf8 (byte_slice bs off len) of
                       None \<Rightarrow> Inl NonCanonicalChunk
                     | Some s \<Rightarrow> Inr (Attribute s, off + len))))"

definition parse_tx :: "bytes \<Rightarrow> nat \<Rightarrow> ferra_error + (txid \<times> nat)" where
  "parse_tx bs off =
     (if off + 28 > length bs then Inl TruncatedChunk
      else Inr (with_node (from_le_bytes (byte_slice bs off 8)) (from_le_bytes (byte_slice bs (off + 8) 4))
                  (NodeId (byte_slice bs (off + 12) 16)), off + 28))"

definition parse_op :: "bytes \<Rightarrow> nat \<Rightarrow> ferra_error + (op \<times> nat)" where
  "parse_op bs off =
     (if off \<ge> length bs then Inl TruncatedChunk
      else if bs ! off = 0x00 then Inr (Assert, off + 1)
      else if bs ! off = 0x01 then Inr (Retract, off + 1)
      else Inl NonCanonicalChunk)"

definition read_word :: "nat \<Rightarrow> bytes \<Rightarrow> ferra_error + 'a::len word" where
  "read_word n rest = (if length rest < n then Inl TruncatedChunk else Inr (from_le_bytes (take n rest)))"

definition read_i64 :: "bytes \<Rightarrow> ferra_error + u64" where "read_i64 = read_word 8"
definition read_f64 :: "bytes \<Rightarrow> ferra_error + u64" where "read_f64 = read_word 8"
definition read_i128 :: "bytes \<Rightarrow> ferra_error + u128" where "read_i128 = read_word 16"

definition parse_varlen_value :: "u8 \<Rightarrow> bytes \<Rightarrow> ferra_error + (val \<times> nat)" where
  "parse_varlen_value tag rest =
     (if tag = 0x01 then
        (if length rest < 2 then Inl TruncatedChunk
         else (let len = unat (from_le_bytes (take 2 rest) :: u16)
               in if length rest < 2 + len then Inl TruncatedChunk
                  else (case from_utf8 (byte_slice rest 2 len) of
                          None \<Rightarrow> Inl NonCanonicalChunk
                        | Some s \<Rightarrow> Inr (VKeyword s, 1 + 2 + len))))
      else if tag = 0x02 then
        (if length rest < 4 then Inl TruncatedChunk
         else (let len = unat (from_le_bytes (take 4 rest) :: u32)
               in if length rest < 4 + len then Inl TruncatedChunk
                  else (case from_utf8 (byte_slice rest 4 len) of
                          None \<Rightarrow> Inl NonCanonicalChunk
                        | Some s \<Rightarrow> Inr (VString s, 1 + 4 + len))))
      else if tag = 0x08 then
        (if length rest < 4 then Inl TruncatedChunk
         else (let len = unat (from_le_bytes (take 4 rest) :: u32)
               in if length rest < 4 + len then Inl TruncatedChunk
                  else Inr (VBytes (byte_slice rest 4 len), 1 + 4 + len)))
      else Inl NonCanonicalChunk)"

definition parse_fixed_value :: "u8 \<Rightarrow> bytes \<Rightarrow> ferra_error + (val \<times> nat)" where
  "parse_fixed_value tag rest =
     (if tag = 0x03 then bind_result (read_i64 rest) (\<lambda>n. Inr (VLong n, 1 + 8))
      else if tag = 0x04 then
        bind_result (read_f64 rest) (\<lambda>f.
          (case NonNanFloat_new f of None \<Rightarrow> Inl NonCanonicalChunk | Some nnf \<Rightarrow> Inr (VDouble nnf, 1 + 8)))
      else if tag = 0x05 then
        (case rest of
           [] \<Rightarrow> Inl TruncatedChunk
         | b # _ \<Rightarrow> if b = 0x00 then Inr (VBool False, 1 + 1)
                    else if b = 0x01 then Inr (VBool True, 1 + 1)
                    else Inl NonCanonicalChunk)
      else if tag = 0x06 then bind_result (read_i64 rest) (\<lambda>n. Inr (VInstant n, 1 + 8))
      else if tag = 0x07 then
        (if length rest < 16 then Inl TruncatedChunk else Inr (VUuid (take 16 rest), 1 + 16))
      else if tag = 0x09 then
        (if length rest < 32 then Inl TruncatedChunk else Inr (VRef (EntityId (take 32 rest)), 1 + 32))
      else if tag = 0x0A then bind_result (read_i128 rest) (\<lambda>n. Inr (VBigInt n, 1 + 16))
      else if tag = 0x0B then bind_result (read_i128 rest) (\<lambda>n. Inr (VBigDec n, 1 + 16))
      else Inl NonCanonicalChunk)"

definition parse_canonical_value :: "bytes \<Rightarrow> ferra_error + (val \<times> nat)" where
  "parse_canonical_value bs =
     (case bs of
        [] \<Rightarrow> Inl TruncatedChunk
      | tag # rest \<Rightarrow>
          if tag = 0x01 \<or> tag = 0x02 \<or> tag = 0x08 then parse_varlen_value tag rest
          else if in_range 0x03 0x07 tag \<or> in_range 0x09 0x0B tag then parse_fixed_value tag rest
          else Inl NonCanonicalChunk)"

definition from_canonical_bytes :: "bytes \<Rightarrow> ferra_error + datom" where
  "from_canonical_bytes bs =
     bind_result (parse_entity bs 0) (\<lambda>(entity, off).
     bind_result (parse_attribute bs off) (\<lambda>(attr, off).
     bind_result (parse_canonical_value (drop off bs)) (\<lambda>(value, vlen).
     let off = off + vlen in
     bind_result (parse_tx bs off) (\<lambda>(tx, off).
     bind_result (parse_op bs off) (\<lambda>(p, off).
     if off \<noteq> length bs then Inl TrailingBytes
     else Inr (Datom entity attr value tx p))))))"

section \<open>Well-formed datoms\<close>

text \<open>The lengths the Rust types fix (\<open>[u8; 32]\<close>, \<open>[u8; 16]\<close>, UTF-8 strings), the attribute bound
  of \<open>Attribute::new\<close>, and the payload bounds the length prefixes can express.\<close>

fun val_wf :: "val \<Rightarrow> bool" where
  "val_wf (VKeyword s) \<longleftrightarrow> str_wf s \<and> length s \<le> u16_max"
| "val_wf (VString s) \<longleftrightarrow> str_wf s \<and> length s \<le> u32_max"
| "val_wf (VDouble f) \<longleftrightarrow> float_wf f"
| "val_wf (VUuid u) \<longleftrightarrow> length u = 16"
| "val_wf (VBytes b) \<longleftrightarrow> length b \<le> u32_max"
| "val_wf (VRef e) \<longleftrightarrow> entity_wf e"
| "val_wf v \<longleftrightarrow> True"

definition attr_wf :: "attribute \<Rightarrow> bool" where
  "attr_wf a \<longleftrightarrow> str_wf (as_str a) \<and> length (as_str a) \<le> u16_max"

definition txid_wf :: "txid \<Rightarrow> bool" where
  "txid_wf t \<longleftrightarrow> node_wf (tx_node t)"

definition datom_wf :: "datom \<Rightarrow> bool" where
  "datom_wf d \<longleftrightarrow>
     entity_wf (d_entity d) \<and> attr_wf (d_attribute d) \<and> val_wf (d_value d) \<and> txid_wf (d_tx d)"

lemma slice_middle: "length pre = off \<Longrightarrow> length xs = n \<Longrightarrow> byte_slice (pre @ xs @ post) off n = xs"
  by (simp add: byte_slice_def)

lemma u16_len: "n \<le> u16_max \<Longrightarrow> unat (of_nat n :: u16) = n"
  and u32_len: "n \<le> u32_max \<Longrightarrow> unat (of_nat n :: u32) = n"
  by (simp_all add: u16_max_def u32_max_def unat_of_nat)

lemma unat_u16_max: "unat (w :: u16) \<le> u16_max"
  and unat_u32_max: "unat (w' :: u32) \<le> u32_max"
  using unsigned_less [of w, where ?'a = nat] unsigned_less [of w', where ?'a = nat]
  by (simp_all add: u16_max_def u32_max_def)

text \<open>Hashing a value absorbs its canonical bytes.\<close>

lemma canonical_value_hash_append: "canonical_value_hash v h = h @ canonical_value_bytes v"
  by (cases v) (simp_all add: hash_tag_u16_str_def hash_tag_u32_bytes_def hasher_update_def
      push_tag_u16_str_def push_tag_u32_bytes_def)

section \<open>Parsing what was encoded\<close>

lemma parse_entity_encoded:
  "entity_wf e \<Longrightarrow> length pre = off \<Longrightarrow>
     parse_entity (pre @ entity_bytes e @ post) off = Inr (e, off + 32)"
  by (simp add: parse_entity_def entity_wf_def slice_middle)

lemma parse_attribute_encoded:
  assumes "attr_wf a" "length pre = off"
  shows "parse_attribute (pre @ canonical_attr_bytes a @ post) off =
           Inr (a, off + length (canonical_attr_bytes a))"
proof -
  let ?b = "as_bytes (as_str a)" and ?l = "to_le_bytes 2 (attr_byte_len_u16 (length (as_str a)))"
  have bs: "pre @ canonical_attr_bytes a @ post = pre @ ?l @ ?b @ post"
    by (simp add: canonical_attr_bytes_def Let_def)
  have "byte_slice (pre @ ?l @ ?b @ post) off 2 = ?l"
    using assms(2) by (intro slice_middle) simp_all
  moreover have "byte_slice ((pre @ ?l) @ ?b @ post) (off + 2) (length (as_str a)) = ?b"
    using assms(2) by (intro slice_middle) simp_all
  ultimately show ?thesis using assms unfolding bs
    by (simp add: parse_attribute_def attr_wf_def attr_byte_len_u16_def u16_len canonical_attr_bytes_def Let_def)
qed

lemma parse_tx_encoded:
  assumes "txid_wf t" "length pre = off"
  shows "parse_tx (pre @ canonical_tx_bytes t @ post) off = Inr (t, off + 28)"
proof -
  let ?p = "to_le_bytes 8 (tx_physical t)" and ?l = "to_le_bytes 4 (tx_logical t)" and
      ?n = "node_bytes (tx_node t)"
  have n: "length ?n = 16" using assms(1) by (simp add: txid_wf_def node_wf_def)
  have "byte_slice (pre @ ?p @ ?l @ ?n @ post) off 8 = ?p"
    using assms(2) by (intro slice_middle) simp_all
  moreover have "byte_slice ((pre @ ?p) @ ?l @ ?n @ post) (off + 8) 4 = ?l"
    using assms(2) by (intro slice_middle) simp_all
  moreover have "byte_slice ((pre @ ?p @ ?l) @ ?n @ post) (off + 12) 16 = ?n"
    using assms(2) n by (intro slice_middle) simp_all
  ultimately show ?thesis using assms(2) n
    by (simp add: parse_tx_def canonical_tx_bytes_def with_node_def)
qed

lemma parse_op_encoded: "length pre = off \<Longrightarrow> parse_op (pre @ [op_byte p]) off = Inr (p, off + 1)"
  by (cases p) (auto simp: parse_op_def op_byte_def nth_append)

lemma f64_add_zero_wf: "float_wf f \<Longrightarrow> f64_add_zero (into_inner f) = into_inner f"
  by (simp add: float_wf_def f64_add_zero_def)

lemma parse_value_encoded:
  "val_wf v \<Longrightarrow> parse_canonical_value (canonical_value_bytes v @ post) =
     Inr (v, length (canonical_value_bytes v))"
  by (cases v)
    (auto simp: parse_canonical_value_def parse_varlen_value_def parse_fixed_value_def in_range_def
      push_tag_u16_str_def push_tag_u32_bytes_def byte_slice_def u16_len u32_len Let_def
      read_i64_def read_f64_def read_i128_def read_word_def f64_add_zero_wf NonNanFloat_new_def
      float_wf_def entity_wf_def)

text \<open>The layout with any value bytes in the value's place; the parser is run on it field by field.\<close>

definition layout :: "datom \<Rightarrow> bytes \<Rightarrow> bytes" where
  "layout d vb =
     entity_bytes (d_entity d) @ canonical_attr_bytes (d_attribute d) @ vb @
     canonical_tx_bytes (d_tx d) @ [op_byte (d_op d)]"

lemma canonical_bytes_layout: "canonical_bytes d = layout d (canonical_value_bytes (d_value d))"
  by (simp add: canonical_bytes_def layout_def)

lemma parse_layout:
  assumes "datom_wf d" and vb: "\<And>rest. parse_canonical_value (vb @ rest) = Inr (d_value d, length vb)"
  shows "from_canonical_bytes (layout d vb) = Inr d"
proof -
  let ?e = "entity_bytes (d_entity d)" and ?a = "canonical_attr_bytes (d_attribute d)"
    and ?t = "canonical_tx_bytes (d_tx d)" and ?n = "length (canonical_attr_bytes (d_attribute d))"
  have wf: "entity_wf (d_entity d)" "attr_wf (d_attribute d)" "txid_wf (d_tx d)"
    using assms(1) by (simp_all add: datom_wf_def)
  then have len: "length ?e = 32" "length ?t = 28"
    by (simp_all add: entity_wf_def canonical_tx_bytes_def txid_wf_def node_wf_def)
  have "parse_entity (layout d vb) 0 = Inr (d_entity d, 32)"
    using parse_entity_encoded [OF wf(1), of "[]" 0] by (simp add: layout_def)
  moreover have "parse_attribute (layout d vb) 32 = Inr (d_attribute d, 32 + ?n)"
    using parse_attribute_encoded [OF wf(2) len(1)] by (simp add: layout_def)
  moreover have "parse_canonical_value (drop (32 + ?n) (layout d vb)) = Inr (d_value d, length vb)"
    using vb len by (simp add: layout_def)
  moreover have "parse_tx (layout d vb) (32 + ?n + length vb) = Inr (d_tx d, 32 + ?n + length vb + 28)"
    using parse_tx_encoded [OF wf(3), of "?e @ ?a @ vb"] len by (simp add: layout_def)
  moreover have "parse_op (layout d vb) (32 + ?n + length vb + 28) =
      Inr (d_op d, 32 + ?n + length vb + 28 + 1)"
    using parse_op_encoded [of "?e @ ?a @ vb @ ?t"] len by (simp add: layout_def)
  moreover have "length (layout d vb) = 32 + ?n + length vb + 28 + 1"
    using len by (simp add: layout_def)
  ultimately show ?thesis by (simp add: from_canonical_bytes_def)
qed

section \<open>Encoding what was parsed\<close>

lemma drop_slice: "off + n \<le> length bs \<Longrightarrow> drop off bs = byte_slice bs off n @ drop (off + n) bs"
  by (simp add: byte_slice_def) (metis append_take_drop_id drop_drop add.commute)

lemma length_slice: "off + n \<le> length bs \<Longrightarrow> length (byte_slice bs off n) = n"
  by (simp add: byte_slice_def)

lemma to_le_slice:
  "8 * n = LENGTH('a) \<Longrightarrow> length bs = n \<Longrightarrow> to_le_bytes n (from_le_bytes bs :: 'a::len word) = bs"
  using to_le_from_le [of bs, where ?'a = 'a] by simp

lemma parse_entity_Inr:
  "parse_entity bs off = Inr (e, off') \<Longrightarrow>
     off' \<le> length bs \<and> entity_wf e \<and> drop off bs = entity_bytes e @ drop off' bs"
  by (auto simp: parse_entity_def entity_wf_def length_slice drop_slice split: if_splits)

lemma parse_attribute_Inr:
  assumes "parse_attribute bs off = Inr (a, off')"
  shows "off' \<le> length bs \<and> attr_wf a \<and> drop off bs = canonical_attr_bytes a @ drop off' bs"
proof -
  define len where "len = unat (from_le_bytes (byte_slice bs off 2) :: u16)"
  from assms have b: "off + 2 \<le> length bs" "off + 2 + len \<le> length bs"
    and s: "from_utf8 (byte_slice bs (off + 2) len) = Some (as_str a)" and off': "off' = off + 2 + len"
    by (auto simp: parse_attribute_def Let_def len_def split: if_splits option.splits)
  from from_utf8_Some [OF s] have as: "as_bytes (as_str a) = byte_slice bs (off + 2) len" "str_wf (as_str a)"
    by auto
  then have l: "length (as_str a) = len" using b by (metis length_as_bytes length_slice)
  have le: "to_le_bytes 2 (attr_byte_len_u16 len) = byte_slice bs off 2"
    using b by (simp add: attr_byte_len_u16_def len_def unat_u16_max to_le_slice length_slice)
  have "drop off bs = byte_slice bs off 2 @ byte_slice bs (off + 2) len @ drop off' bs"
    using drop_slice [OF b(1)] drop_slice [OF b(2)] off' by simp
  moreover have "canonical_attr_bytes a = byte_slice bs off 2 @ byte_slice bs (off + 2) len"
    using as l le by (metis canonical_attr_bytes_def length_as_bytes)
  ultimately show ?thesis using as(2) l b(2) off' unat_u16_max by (simp add: attr_wf_def len_def)
qed

lemma parse_tx_Inr:
  assumes "parse_tx bs off = Inr (t, off')"
  shows "off' \<le> length bs \<and> txid_wf t \<and> drop off bs = canonical_tx_bytes t @ drop off' bs"
proof -
  from assms have b: "off + 28 \<le> length bs" "off' = off + 28"
    and t: "t = TxId (from_le_bytes (byte_slice bs off 8)) (from_le_bytes (byte_slice bs (off + 8) 4))
              (NodeId (byte_slice bs (off + 12) 16))"
    by (auto simp: parse_tx_def with_node_def split: if_splits)
  have "drop off bs = byte_slice bs off 8 @ drop (off + 8) bs"
    "drop (off + 8) bs = byte_slice bs (off + 8) 4 @ drop (off + 12) bs"
    "drop (off + 12) bs = byte_slice bs (off + 12) 16 @ drop off' bs"
    using b drop_slice [of off 8 bs] drop_slice [of "off + 8" 4 bs] drop_slice [of "off + 12" 16 bs]
    by (simp_all add: add.assoc)
  with b t show ?thesis
    by (simp add: canonical_tx_bytes_def txid_wf_def node_wf_def to_le_slice length_slice)
qed

lemma parse_op_Inr:
  "parse_op bs off = Inr (p, off') \<Longrightarrow> off' \<le> length bs \<and> drop off bs = op_byte p # drop off' bs"
  by (auto simp: parse_op_def op_byte_def Cons_nth_drop_Suc [symmetric] not_le split: if_splits)

text \<open>The bytes of a negative zero, which \<open>canonical_value_bytes\<close> never writes.\<close>

definition neg_zero_bytes :: bytes where
  "neg_zero_bytes = 0x04 # to_le_bytes 8 (0x8000000000000000 :: u64)"

definition value_bytes_for :: "val \<Rightarrow> bytes \<Rightarrow> bool" where
  "value_bytes_for v vb \<longleftrightarrow>
     vb = canonical_value_bytes v \<or> v = VDouble (NonNanFloat 0) \<and> vb = neg_zero_bytes"

lemma prefixed_run:
  assumes "8 * k = LENGTH('a)" "k + len \<le> length rest"
    and "len = unat (from_le_bytes (take k rest) :: 'a::len word)"
  shows "rest = to_le_bytes k (of_nat len :: 'a word) @ byte_slice rest k len @ drop (k + len) rest"
proof -
  have "to_le_bytes k (of_nat len :: 'a word) = take k rest"
    using assms by (simp add: to_le_slice)
  then show ?thesis using drop_slice [OF assms(2)] by (metis append_take_drop_id)
qed

lemma varlen_keyword_Inr:
  assumes "parse_varlen_value 0x01 rest = Inr (v, n)"
  shows "n \<le> Suc (length rest) \<and> val_wf v \<and> 0x01 # rest = canonical_value_bytes v @ drop n (0x01 # rest)"
proof -
  define len where "len = unat (from_le_bytes (take 2 rest) :: u16)"
  from assms obtain s where b: "2 + len \<le> length rest" and s: "from_utf8 (byte_slice rest 2 len) = Some s"
    and v: "v = VKeyword s" "n = Suc (2 + len)"
    by (auto simp: parse_varlen_value_def Let_def len_def split: if_splits option.splits)
  from from_utf8_Some [OF s] have as: "as_bytes s = byte_slice rest 2 len" "str_wf s" by auto
  then have l: "length s = len" using b by (metis length_as_bytes length_slice)
  have "len \<le> u16_max" by (simp add: len_def unat_u16_max)
  with prefixed_run [OF _ b len_def] show ?thesis using v as l b length_slice [OF b]
    by (simp add: push_tag_u16_str_def)
qed

lemma varlen_string_Inr:
  assumes "parse_varlen_value 0x02 rest = Inr (v, n)"
  shows "n \<le> Suc (length rest) \<and> val_wf v \<and> 0x02 # rest = canonical_value_bytes v @ drop n (0x02 # rest)"
proof -
  define len where "len = unat (from_le_bytes (take 4 rest) :: u32)"
  from assms obtain s where b: "4 + len \<le> length rest" and s: "from_utf8 (byte_slice rest 4 len) = Some s"
    and v: "v = VString s" "n = Suc (4 + len)"
    by (auto simp: parse_varlen_value_def Let_def len_def split: if_splits option.splits)
  from from_utf8_Some [OF s] have as: "as_bytes s = byte_slice rest 4 len" "str_wf s" by auto
  then have l: "length s = len" using b by (metis length_as_bytes length_slice)
  have "len \<le> u32_max" by (simp add: len_def unat_u32_max)
  with prefixed_run [OF _ b len_def] show ?thesis using v as l b length_slice [OF b]
    by (simp add: push_tag_u32_bytes_def drop_Cons')
qed

lemma varlen_bytes_Inr:
  assumes "parse_varlen_value 0x08 rest = Inr (v, n)"
  shows "n \<le> Suc (length rest) \<and> val_wf v \<and> 0x08 # rest = canonical_value_bytes v @ drop n (0x08 # rest)"
proof -
  define len where "len = unat (from_le_bytes (take 4 rest) :: u32)"
  from assms have b: "4 + len \<le> length rest" and v: "v = VBytes (byte_slice rest 4 len)" "n = Suc (4 + len)"
    by (auto simp: parse_varlen_value_def Let_def len_def split: if_splits)
  have "len \<le> u32_max" by (simp add: len_def unat_u32_max)
  with prefixed_run [OF _ b len_def] show ?thesis using v b length_slice [OF b]
    by (simp add: push_tag_u32_bytes_def drop_Cons')
qed

lemma read_word_Inr:
  assumes "read_word n rest = Inr (w :: 'a::len word)" "8 * n = LENGTH('a)"
  shows "n \<le> length rest \<and> rest = to_le_bytes n w @ drop n rest"
  using assms by (auto simp: read_word_def to_le_slice split: if_splits)

lemma NonNanFloat_bytes:
  "NonNanFloat_new f = Some g \<Longrightarrow>
     float_wf g \<and> (f = f64_add_zero (into_inner g) \<or> g = NonNanFloat 0 \<and> f = 0x8000000000000000)"
  by (auto simp: NonNanFloat_new_def f64_add_zero_def float_wf_def f64_is_nan_def split: if_splits)

lemma parse_fixed_Inr:
  assumes "parse_fixed_value tag rest = Inr (v, n)"
  shows "n \<le> Suc (length rest) \<and> val_wf v \<and>
    (\<exists>vb. value_bytes_for v vb \<and> tag # rest = vb @ drop n (tag # rest))"
proof -
  consider "tag \<in> {0x03, 0x06}" | "tag = 0x04" | "tag = 0x05" | "tag \<in> {0x07, 0x09}" | "tag \<in> {0x0A, 0x0B}"
    using assms by (auto simp: parse_fixed_value_def split: if_splits)
  then show ?thesis
  proof cases
    case 1
    with assms show ?thesis
      by (auto simp: parse_fixed_value_def read_i64_def value_bytes_for_def bind_result_Inr
          dest!: read_word_Inr)
  next
    case 2
    with assms obtain f where f: "read_word 8 rest = Inr (f :: u64)"
      and g: "\<exists>g. NonNanFloat_new f = Some g \<and> v = VDouble g" and n: "n = 9"
      by (auto simp: parse_fixed_value_def read_f64_def bind_result_Inr split: option.splits)
    with NonNanFloat_bytes read_word_Inr [OF f] 2 show ?thesis
      by (fastforce simp: value_bytes_for_def neg_zero_bytes_def)
  next
    case 3
    with assms show ?thesis
      by (auto simp: parse_fixed_value_def value_bytes_for_def split: list.splits if_splits)
  next
    case 4
    with assms show ?thesis
      by (auto simp: parse_fixed_value_def value_bytes_for_def entity_wf_def split: if_splits)
  next
    case 5
    with assms show ?thesis
      by (auto simp: parse_fixed_value_def read_i128_def value_bytes_for_def bind_result_Inr
          dest!: read_word_Inr)
  qed
qed

lemma parse_value_Inr:
  assumes "parse_canonical_value bs = Inr (v, n)"
  shows "n \<le> length bs \<and> val_wf v \<and> (\<exists>vb. value_bytes_for v vb \<and> bs = vb @ drop n bs)"
proof (cases bs)
  case (Cons tag rest)
  show ?thesis
  proof (cases "tag = 0x01 \<or> tag = 0x02 \<or> tag = 0x08")
    case True
    with assms Cons have "parse_varlen_value tag rest = Inr (v, n)"
      by (simp add: parse_canonical_value_def)
    with True have "n \<le> Suc (length rest) \<and> val_wf v \<and>
        tag # rest = canonical_value_bytes v @ drop n (tag # rest)"
      using varlen_keyword_Inr varlen_string_Inr varlen_bytes_Inr by blast
    with Cons show ?thesis by (auto simp: value_bytes_for_def)
  next
    case False
    with assms Cons have "parse_fixed_value tag rest = Inr (v, n)"
      by (simp add: parse_canonical_value_def split: if_splits)
    from parse_fixed_Inr [OF this] Cons show ?thesis by simp
  qed
qed (use assms in \<open>simp add: parse_canonical_value_def\<close>)

lemma from_canonical_bytes_Inr:
  assumes "from_canonical_bytes bs = Inr d"
  shows "datom_wf d \<and> (\<exists>vb. value_bytes_for (d_value d) vb \<and> bs = layout d vb)"
proof -
  from assms obtain e o1 a o2 v n t o3 p o4 where
    pe: "parse_entity bs 0 = Inr (e, o1)" and pa: "parse_attribute bs o1 = Inr (a, o2)"
    and pv: "parse_canonical_value (drop o2 bs) = Inr (v, n)" and pt: "parse_tx bs (o2 + n) = Inr (t, o3)"
    and po: "parse_op bs o3 = Inr (p, o4)" and fin: "o4 = length bs" and d: "d = Datom e a v t p"
    by (auto simp: from_canonical_bytes_def Let_def bind_result_Inr split: if_splits prod.splits)
  note E = parse_entity_Inr [OF pe] and A = parse_attribute_Inr [OF pa]
    and V = parse_value_Inr [OF pv] and T = parse_tx_Inr [OF pt] and O = parse_op_Inr [OF po]
  from V obtain vb where vb: "value_bytes_for v vb" "drop o2 bs = vb @ drop (o2 + n) bs"
    by (auto simp: add.commute)
  with E A T O fin have "bs = layout d vb" by (simp add: layout_def d)
  with E A V T vb d show ?thesis by (auto simp: datom_wf_def)
qed

section \<open>Properties of the canonical format\<close>

text \<open>C32 Round trip. Every well-formed datom is recovered from its canonical bytes: parsing
  \<open>canonical_bytes d\<close> returns \<open>d\<close>, for all eleven value variants.\<close>

theorem canonical_roundtrip:
  assumes "datom_wf d"
  shows "from_canonical_bytes (canonical_bytes d) = Inr d"
  unfolding canonical_bytes_layout
  by (rule parse_layout [OF assms]) (use assms in \<open>simp add: parse_value_encoded datom_wf_def\<close>)

definition sample_datom :: "val \<Rightarrow> datom" where
  "sample_datom v =
     Datom (EntityId (replicate 32 7)) (Attribute ''user/name'') v (TxId 5 1 zero_node) Assert"

lemma sample_datom_wf: "val_wf v \<Longrightarrow> datom_wf (sample_datom v)"
  by (simp add: sample_datom_def datom_wf_def entity_wf_def attr_wf_def txid_wf_def node_wf_def
      zero_node_def str_wf_def as_bytes_def utf8_valid_ascii u16_max_def)

theorem canonical_roundtrip_witness:
  "from_canonical_bytes (canonical_bytes (sample_datom (VBool True))) = Inr (sample_datom (VBool True))"
  by (rule canonical_roundtrip) (simp add: sample_datom_wf)

text \<open>What the parser accepts. A byte string that parses is the canonical encoding of the datom it
  parses to, and that datom is well-formed, with one exception: the double \<open>0.0\<close> is also accepted
  from the bytes of \<open>-0.0\<close>. So apart from that value parsing is injective.\<close>

theorem canonical_parse_exact:
  assumes "from_canonical_bytes bs = Inr d"
  shows "datom_wf d \<and>
    (bs = canonical_bytes d \<or> d_value d = VDouble (NonNanFloat 0) \<and> bs = layout d neg_zero_bytes)"
  using from_canonical_bytes_Inr [OF assms]
  by (auto simp: value_bytes_for_def canonical_bytes_layout)

theorem canonical_parse_exact_witness:
  "datom_wf (sample_datom (VLong 3))"
proof -
  have "from_canonical_bytes (canonical_bytes (sample_datom (VLong 3))) = Inr (sample_datom (VLong 3))"
    unfolding canonical_bytes_layout
    by (rule parse_layout) (simp_all only: sample_datom_wf parse_value_encoded val_wf.simps,
        simp only: sample_datom_def datom.sel parse_value_encoded val_wf.simps)
  from canonical_parse_exact [OF this] show ?thesis by simp
qed

text \<open>Two byte strings, one datom. The bytes of a datom whose double is written \<open>-0.0\<close> differ from
  the canonical bytes and parse to the same datom as they do, although the parser rejects trailing
  bytes and other Bool encodings to keep parsing injective.\<close>

theorem negative_zero_not_injective:
  "\<exists>bs d. bs \<noteq> canonical_bytes d \<and> from_canonical_bytes bs = Inr d \<and>
          from_canonical_bytes (canonical_bytes d) = Inr d"
proof -
  let ?d = "sample_datom (VDouble (NonNanFloat 0))"
  have wf: "datom_wf ?d" by (simp add: sample_datom_wf float_wf_def f64_is_nan_def)
  have nz: "parse_canonical_value (neg_zero_bytes @ rest) = Inr (d_value ?d, length neg_zero_bytes)" for rest
    by (simp add: neg_zero_bytes_def parse_canonical_value_def parse_fixed_value_def in_range_def
        read_f64_def read_word_def NonNanFloat_new_def f64_is_nan_def f64_add_zero_def sample_datom_def)
  have z: "parse_canonical_value (canonical_value_bytes (d_value ?d) @ rest) =
      Inr (d_value ?d, length (canonical_value_bytes (d_value ?d)))" for rest
    by (rule parse_value_encoded) (use wf in \<open>simp add: datom_wf_def\<close>)
  have "to_le_bytes 8 (0 :: u64) \<noteq> to_le_bytes 8 (0x8000000000000000 :: u64)"
    using le_bytes_roundtrip(3) [of 0] le_bytes_roundtrip(3) [of "0x8000000000000000"] by force
  then have "canonical_value_bytes (d_value ?d) \<noteq> neg_zero_bytes"
    by (simp add: sample_datom_def neg_zero_bytes_def f64_add_zero_def)
  then have "layout ?d neg_zero_bytes \<noteq> canonical_bytes ?d"
    by (simp add: canonical_bytes_layout layout_def neg_zero_bytes_def sample_datom_def)
  with parse_layout [OF wf nz] parse_layout [OF wf z] show ?thesis
    unfolding canonical_bytes_layout by blast
qed

text \<open>The keyword length saturates. A keyword value longer than 65,535 bytes, which the type
  allows, is written with the length \<open>u16::MAX\<close>, and no such datom is recovered from its bytes.\<close>

theorem long_keyword_not_recovered:
  assumes "u16_max < length s"
  shows "from_canonical_bytes (canonical_bytes (Datom e a (VKeyword s) t p)) \<noteq> Inr (Datom e a (VKeyword s) t p)"
  using from_canonical_bytes_Inr [of _ "Datom e a (VKeyword s) t p"] assms
  by (auto simp: datom_wf_def)

theorem long_keyword_not_recovered_witness:
  "from_canonical_bytes (canonical_bytes (sample_datom (VKeyword (replicate 65536 CHR ''a''))))
     \<noteq> Inr (sample_datom (VKeyword (replicate 65536 CHR ''a'')))"
  unfolding sample_datom_def
  by (rule long_keyword_not_recovered) (simp add: u16_max_def)

text \<open>The streaming hash of a datom is the hash of its canonical bytes, for every datom and every
  hash function.\<close>

theorem content_hash_canonical: "content_hash blake3 d = blake3 (canonical_bytes d)"
  by (simp add: content_hash_def canonical_bytes_def canonical_attr_bytes_def canonical_tx_bytes_def
      canonical_value_hash_append hasher_update_def Let_def)

end
