(* ===== verification/Index.thy ===== *)
theory Index
  imports Datom
begin

text \<open>
  The crate \<open>ferratomic-index\<close>: the four index keys with their zero-copy comparison (\<open>keys.rs\<close>), the
  \<open>IndexBackend\<close> contract with its two implementations, \<open>im::OrdMap\<close> and the deferred-sort
  \<open>SortedVecBackend\<close> (\<open>backend.rs\<close>), and the four secondary indexes of the store (\<open>indexes.rs\<close>).

  The trait is the locale \<open>index_backend\<close>; both implementations are interpretations of it, so what a
  client proves of an index holds for either. \<open>sort_unstable_by\<close> may permute entries with equal
  keys; the model uses the stable sort, and the laws are about backends in which equal keys carry
  equal values (index keys contain all five datom fields), where the two sorts agree.
\<close>

section \<open>Index keys (keys.rs)\<close>

type_synonym eavt_key = "entity_id \<times> attribute \<times> val \<times> txid \<times> op"
type_synonym aevt_key = "attribute \<times> entity_id \<times> val \<times> txid \<times> op"
type_synonym vaet_key = "val \<times> attribute \<times> entity_id \<times> txid \<times> op"
type_synonym avet_key = "attribute \<times> val \<times> entity_id \<times> txid \<times> op"

definition eavt_from_datom :: "datom \<Rightarrow> eavt_key" where
  "eavt_from_datom d = (d_entity d, d_attribute d, d_value d, d_tx d, d_op d)"

definition aevt_from_datom :: "datom \<Rightarrow> aevt_key" where
  "aevt_from_datom d = (d_attribute d, d_entity d, d_value d, d_tx d, d_op d)"

definition vaet_from_datom :: "datom \<Rightarrow> vaet_key" where
  "vaet_from_datom d = (d_value d, d_attribute d, d_entity d, d_tx d, d_op d)"

definition avet_from_datom :: "datom \<Rightarrow> avet_key" where
  "avet_from_datom d = (d_attribute d, d_value d, d_entity d, d_tx d, d_op d)"

fun eavt_cmp_datom :: "eavt_key \<Rightarrow> datom \<Rightarrow> ordering" where
  "eavt_cmp_datom (e, a, v, t, p) d =
     then_with (then_with (then_with (then_with (cmp e (d_entity d)) (cmp a (d_attribute d)))
       (cmp v (d_value d))) (cmp t (d_tx d))) (cmp p (d_op d))"

fun aevt_cmp_datom :: "aevt_key \<Rightarrow> datom \<Rightarrow> ordering" where
  "aevt_cmp_datom (a, e, v, t, p) d =
     then_with (then_with (then_with (then_with (cmp a (d_attribute d)) (cmp e (d_entity d)))
       (cmp v (d_value d))) (cmp t (d_tx d))) (cmp p (d_op d))"

fun vaet_cmp_datom :: "vaet_key \<Rightarrow> datom \<Rightarrow> ordering" where
  "vaet_cmp_datom (v, a, e, t, p) d =
     then_with (then_with (then_with (then_with (cmp v (d_value d)) (cmp a (d_attribute d)))
       (cmp e (d_entity d))) (cmp t (d_tx d))) (cmp p (d_op d))"

fun avet_cmp_datom :: "avet_key \<Rightarrow> datom \<Rightarrow> ordering" where
  "avet_cmp_datom (a, v, e, t, p) d =
     then_with (then_with (then_with (then_with (cmp a (d_attribute d)) (cmp v (d_value d)))
       (cmp e (d_entity d))) (cmp t (d_tx d))) (cmp p (d_op d))"

lemmas from_datom_defs =
  eavt_from_datom_def aevt_from_datom_def vaet_from_datom_def avet_from_datom_def

lemma from_datom_inject [simp]:
  "eavt_from_datom a = eavt_from_datom b \<longleftrightarrow> a = b"
  "aevt_from_datom a = aevt_from_datom b \<longleftrightarrow> a = b"
  "vaet_from_datom a = vaet_from_datom b \<longleftrightarrow> a = b"
  "avet_from_datom a = avet_from_datom b \<longleftrightarrow> a = b"
  by (auto simp: from_datom_defs datom.expand)

text \<open>Comparing a key with a datom field by field is comparing it with the datom's key.\<close>

lemma cmp_datom_key:
  "eavt_cmp_datom k1 d = cmp k1 (eavt_from_datom d)"
  "aevt_cmp_datom k2 d = cmp k2 (aevt_from_datom d)"
  "vaet_cmp_datom k3 d = cmp k3 (vaet_from_datom d)"
  "avet_cmp_datom k4 d = cmp k4 (avet_from_datom d)"
  by (cases k1; cases k2; cases k3; cases k4;
      simp add: from_datom_defs cmp_pair then_with_assoc)+

lemma eavt_from_datom_key: "eavt_from_datom = datom_key"
  by (rule ext) (simp add: eavt_from_datom_def datom_key_def)

section \<open>The backend contract (backend.rs)\<close>

text \<open>
  \<open>pairs\<close> is what a backend has been given, as a set; \<open>ready\<close> is the deferred sort (the identity for
  backends that need none). A lookup on a ready backend finds exactly the given pairs, iteration
  yields them in key order, and the length counts them.
\<close>

locale index_backend =
  fixes default :: "'m" and ins :: "'k::linorder \<Rightarrow> 'v \<Rightarrow> 'm \<Rightarrow> 'm" and get :: "'m \<Rightarrow> 'k \<Rightarrow> 'v option"
    and len :: "'m \<Rightarrow> nat" and vals :: "'m \<Rightarrow> 'v list" and ready :: "'m \<Rightarrow> 'm"
    and pairs :: "'m \<Rightarrow> ('k \<times> 'v) set" and inv :: "'m \<Rightarrow> bool"
  assumes inv_default: "inv default" and pairs_default: "pairs default = {}"
    and inv_ins: "inv m \<Longrightarrow> inv (ins k v m)"
    and pairs_ins: "inv m \<Longrightarrow> \<forall>v'. (k, v') \<in> pairs m \<longrightarrow> v' = v \<Longrightarrow>
          pairs (ins k v m) = insert (k, v) (pairs m)"
    and inv_ready: "inv m \<Longrightarrow> inv (ready m)" and pairs_ready: "inv m \<Longrightarrow> single_valued (pairs m) \<Longrightarrow> pairs (ready m) = pairs m"
    and get_ready: "inv m \<Longrightarrow> single_valued (pairs m) \<Longrightarrow> get (ready m) k = Some v \<longleftrightarrow> (k, v) \<in> pairs m"
    and vals_ready: "inv m \<Longrightarrow> single_valued (pairs m) \<Longrightarrow>
          \<exists>es. strict_sorted (map fst es) \<and> set es = pairs m \<and> vals (ready m) = map snd es"
    and len_ready: "inv m \<Longrightarrow> single_valued (pairs m) \<Longrightarrow> len (ready m) = card (pairs m)"
begin

text \<open>Loading a list of items under an injective key: the index of a datom set.\<close>

definition load :: "('v \<Rightarrow> 'k) \<Rightarrow> 'v list \<Rightarrow> 'm \<Rightarrow> 'm" where
  "load key ds m = fold (\<lambda>d. ins (key d) d) ds m"

lemma load_pairs:
  assumes "inj key" "inv m" "pairs m = (\<lambda>d. (key d, d)) ` D"
  shows "inv (load key ds m) \<and> pairs (load key ds m) = (\<lambda>d. (key d, d)) ` (D \<union> set ds)"
  using assms(2,3)
proof (induction ds arbitrary: m D)
  case (Cons d ds)
  have "\<forall>v'. (key d, v') \<in> pairs m \<longrightarrow> v' = d" using Cons.prems(2) assms(1) by (auto dest: injD)
  with Cons.prems have "pairs (ins (key d) d m) = (\<lambda>d. (key d, d)) ` (insert d D)"
    by (simp add: pairs_ins)
  from Cons.IH [OF inv_ins [OF Cons.prems(1)] this] show ?case by (simp add: load_def)
qed (simp add: load_def)

lemma single_valued_keyed: "inj key \<Longrightarrow> single_valued ((\<lambda>d. (key d, d)) ` D)"
  by (auto simp: single_valued_def dest: injD)

lemma load_get:
  assumes "inj key"
  shows "get (ready (load key ds default)) k = Some d \<longleftrightarrow> d \<in> set ds \<and> key d = k"
  using load_pairs [OF assms inv_default, of "{}" ds] single_valued_keyed [OF assms]
  by (auto simp: pairs_default get_ready)

lemma load_len: "inj key \<Longrightarrow> len (ready (load key ds default)) = card (set ds)"
  using load_pairs [of key default "{}" ds] single_valued_keyed [of key "set ds"]
  by (simp add: inv_default pairs_default len_ready card_image inj_on_def)

text \<open>Iteration yields the loaded items in key order, so the order of insertion is irrelevant.\<close>

lemma load_vals:
  assumes "inj key"
  shows "strict_sorted (map key (vals (ready (load key ds default)))) \<and>
         set (vals (ready (load key ds default))) = set ds"
proof -
  from load_pairs [OF assms inv_default, of "{}" ds] pairs_default
  have L: "inv (load key ds default)" "pairs (load key ds default) = (\<lambda>d. (key d, d)) ` set ds"
    by simp_all
  from vals_ready [OF L(1)] L(2) single_valued_keyed [OF assms, of "set ds"]
  obtain es where es: "strict_sorted (map fst es)" "set es = (\<lambda>d. (key d, d)) ` set ds"
    "vals (ready (load key ds default)) = map snd es" by auto
  have "map (key \<circ> snd) es = map fst es" using es(2) by (intro map_cong) auto
  moreover have "set (map snd es) = set ds" using es(2) by (simp add: image_image)
  ultimately show ?thesis using es(1,3) by (simp only: map_map)
qed

end

lemma distinct_mapI: "distinct (map f xs) \<Longrightarrow> distinct xs"
  by (simp add: distinct_map)

section \<open>im::OrdMap as a backend\<close>

interpretation ordmap: index_backend "[] :: ('k::linorder, 'v) omap" om_insert om_get length "map snd"
  "\<lambda>m. m" set om_inv
proof (unfold_locales, goal_cases)
  case (4 m k v)
  have "(x, y) \<in> set (om_insert k v m) \<longleftrightarrow> (x, y) \<in> insert (k, v) (set m)" for x y
    using 4 by (auto simp: om_get_in_set [symmetric])
  then show ?case by auto
next
  case (7 m k v)
  then show ?case by (simp add: om_get_in_set)
next
  case (8 m)
  then show ?case by (auto simp: om_inv_def)
next
  case (9 m)
  then have "distinct m" using om_inv_distinct distinct_mapI by blast
  then show ?case by (simp add: distinct_card)
qed simp_all

section \<open>SortedVecBackend (backend.rs)\<close>

record ('k, 'v) sorted_vec =
  sv_entries :: "('k \<times> 'v) list"
  sv_sorted :: bool

definition sv_default :: "('k, 'v) sorted_vec" where
  "sv_default = \<lparr>sv_entries = [], sv_sorted = True\<rparr>"

definition sv_insert :: "'k \<Rightarrow> 'v \<Rightarrow> ('k, 'v) sorted_vec \<Rightarrow> ('k, 'v) sorted_vec" where
  "sv_insert k v s = s\<lparr>sv_entries := sv_entries s @ [(k, v)], sv_sorted := False\<rparr>"

definition sv_get :: "('k::linorder, 'v) sorted_vec \<Rightarrow> 'k \<Rightarrow> 'v option" where
  "sv_get s key =
     (if \<not> sv_sorted s then None
      else (case binary_search_by (\<lambda>(k, _). cmp k key) (sv_entries s) of
              None \<Rightarrow> None | Some i \<Rightarrow> Some (snd (sv_entries s ! i))))"

definition sv_len :: "('k, 'v) sorted_vec \<Rightarrow> nat" where
  "sv_len s = length (sv_entries s)"

definition sv_values :: "('k, 'v) sorted_vec \<Rightarrow> 'v list" where
  "sv_values s = map snd (sv_entries s)"

definition sv_from_sorted :: "('k \<times> 'v) list \<Rightarrow> ('k, 'v) sorted_vec" where
  "sv_from_sorted es = \<lparr>sv_entries = es, sv_sorted = True\<rparr>"

text \<open>\<open>dedup_by\<close> on the keys: of consecutive entries with the same key the first is kept.\<close>

fun dedup_by_key :: "('k \<times> 'v) list \<Rightarrow> ('k \<times> 'v) list" where
  "dedup_by_key (x # y # zs) =
     (if fst x = fst y then dedup_by_key (x # zs) else x # dedup_by_key (y # zs))"
| "dedup_by_key xs = xs"

definition sv_sort :: "('k::linorder, 'v) sorted_vec \<Rightarrow> ('k, 'v) sorted_vec" where
  "sv_sort s =
     (if \<not> sv_sorted s
      then s\<lparr>sv_entries := dedup_by_key (sort_key fst (sv_entries s)), sv_sorted := True\<rparr>
      else s)"

definition sv_inv :: "('k::linorder, 'v) sorted_vec \<Rightarrow> bool" where
  "sv_inv s \<longleftrightarrow> (sv_sorted s \<longrightarrow> strict_sorted (map fst (sv_entries s)))"

definition sv_consistent :: "('k, 'v) sorted_vec \<Rightarrow> bool" where
  "sv_consistent s \<longleftrightarrow> single_valued (set (sv_entries s))"

lemma set_dedup_by_key: "set (dedup_by_key xs) \<subseteq> set xs"
  by (induction xs rule: dedup_by_key.induct) auto

lemma fst_dedup_by_key: "fst ` set (dedup_by_key xs) = fst ` set xs"
  by (induction xs rule: dedup_by_key.induct) auto

lemma strict_sorted_dedup_by_key:
  "sorted (map fst xs) \<Longrightarrow> strict_sorted (map fst (dedup_by_key xs))"
proof (induction xs rule: dedup_by_key.induct)
  case (1 x y zs)
  show ?case
  proof (cases "fst x = fst y")
    case False
    with "1.prems" have "\<forall>z \<in> fst ` set (y # zs). fst x < z" by (auto simp: less_le)
    then have "\<forall>z \<in> fst ` set (dedup_by_key (y # zs)). fst x < z" by (simp only: fst_dedup_by_key)
    with False 1 show ?thesis by simp
  qed (use 1 in auto)
qed simp_all

lemma dedup_by_key_single_valued:
  assumes "single_valued (set xs)"
  shows "set (dedup_by_key xs) = set xs"
proof
  show "set xs \<subseteq> set (dedup_by_key xs)"
  proof
    fix p assume p: "p \<in> set xs"
    then obtain v where "(fst p, v) \<in> set (dedup_by_key xs)"
      using fst_dedup_by_key [of xs] by (metis image_iff prod.collapse)
    with p assms set_dedup_by_key show "p \<in> set (dedup_by_key xs)"
      by (metis prod.collapse single_valuedD subsetD)
  qed
qed (rule set_dedup_by_key)

lemma sv_sort_sorted: "sv_inv s \<Longrightarrow> sv_sorted (sv_sort s) \<and> strict_sorted (map fst (sv_entries (sv_sort s)))"
  by (auto simp: sv_sort_def sv_inv_def strict_sorted_dedup_by_key)

lemma sv_sort_entries: "sv_consistent s \<Longrightarrow> set (sv_entries (sv_sort s)) = set (sv_entries s)"
  by (simp add: sv_sort_def sv_consistent_def dedup_by_key_single_valued)

lemma sv_get_sorted:
  assumes "sv_sorted s" "strict_sorted (map fst (sv_entries s))"
  shows "sv_get s k = Some v \<longleftrightarrow> (k, v) \<in> set (sv_entries s)"
proof -
  have f: "(\<lambda>(k', _). cmp k' k) = (\<lambda>x. cmp (fst x) k)" by (auto simp: fun_eq_iff)
  note bs = binary_search_sorted [OF assms(2), of k]
  show ?thesis using assms(1) bs strict_sorted_distinct [OF assms(2)]
    by (auto simp: sv_get_def f in_set_conv_nth distinct_conv_nth split: option.splits)
       (metis fst_conv length_map not_Some_eq nth_map snd_conv)+
qed

interpretation sortedvec: index_backend "sv_default :: ('k::linorder, 'v) sorted_vec" sv_insert sv_get
  sv_len sv_values sv_sort "\<lambda>s. set (sv_entries s)" sv_inv
proof (unfold_locales, goal_cases)
  case (6 m)
  then show ?case by (simp add: sv_sort_entries sv_consistent_def)
next
  case (7 m k v)
  then show ?case using sv_sort_sorted [of m] sv_sort_entries [of m]
    by (simp add: sv_get_sorted sv_consistent_def)
next
  case (8 m)
  then show ?case using sv_sort_sorted [of m] sv_sort_entries [of m]
    by (auto simp: sv_values_def sv_consistent_def)
next
  case (9 m)
  then have "distinct (sv_entries (sv_sort m))"
    using sv_sort_sorted [of m] by (blast dest: strict_sorted_distinct distinct_mapI)
  with 9 show ?case using sv_sort_entries [of m]
    by (metis distinct_card sv_consistent_def sv_len_def)
qed (auto simp: sv_default_def sv_insert_def sv_inv_def sv_sort_def strict_sorted_dedup_by_key)

section \<open>The four indexes (indexes.rs)\<close>

record indexes =
  ix_eavt :: "(eavt_key, datom) sorted_vec"
  ix_aevt :: "(aevt_key, datom) sorted_vec"
  ix_vaet :: "(vaet_key, datom) sorted_vec"
  ix_avet :: "(avet_key, datom) sorted_vec"

definition ix_insert :: "datom \<Rightarrow> indexes \<Rightarrow> indexes" where
  "ix_insert d ix =
     \<lparr>ix_eavt = sv_insert (eavt_from_datom d) d (ix_eavt ix),
      ix_aevt = sv_insert (aevt_from_datom d) d (ix_aevt ix),
      ix_vaet = sv_insert (vaet_from_datom d) d (ix_vaet ix),
      ix_avet = sv_insert (avet_from_datom d) d (ix_avet ix)\<rparr>"

definition ix_empty :: indexes where
  "ix_empty = \<lparr>ix_eavt = sv_default, ix_aevt = sv_default, ix_vaet = sv_default, ix_avet = sv_default\<rparr>"

definition ix_from_datoms :: "datom list \<Rightarrow> indexes" where
  "ix_from_datoms ds = fold ix_insert ds ix_empty"

definition sort_all :: "indexes \<Rightarrow> indexes" where
  "sort_all ix =
     \<lparr>ix_eavt = sv_sort (ix_eavt ix), ix_aevt = sv_sort (ix_aevt ix),
      ix_vaet = sv_sort (ix_vaet ix), ix_avet = sv_sort (ix_avet ix)\<rparr>"

definition verify_bijection :: "indexes \<Rightarrow> bool" where
  "verify_bijection ix =
     (let n = sv_len (ix_eavt ix)
      in if sv_len (ix_aevt ix) \<noteq> n \<or> sv_len (ix_vaet ix) \<noteq> n \<or> sv_len (ix_avet ix) \<noteq> n then False
         else (let eavt = sort_dedup (sv_values (ix_eavt ix)); aevt = sort_dedup (sv_values (ix_aevt ix));
                   vaet = sort_dedup (sv_values (ix_vaet ix)); avet = sort_dedup (sv_values (ix_avet ix))
               in eavt = aevt \<and> eavt = vaet \<and> eavt = avet))"

text \<open>The indexes hold exactly the datoms of \<open>D\<close>, under their keys.\<close>

definition ix_covers :: "indexes \<Rightarrow> datom set \<Rightarrow> bool" where
  "ix_covers ix D \<longleftrightarrow>
     sv_inv (ix_eavt ix) \<and> set (sv_entries (ix_eavt ix)) = (\<lambda>d. (eavt_from_datom d, d)) ` D \<and>
     sv_inv (ix_aevt ix) \<and> set (sv_entries (ix_aevt ix)) = (\<lambda>d. (aevt_from_datom d, d)) ` D \<and>
     sv_inv (ix_vaet ix) \<and> set (sv_entries (ix_vaet ix)) = (\<lambda>d. (vaet_from_datom d, d)) ` D \<and>
     sv_inv (ix_avet ix) \<and> set (sv_entries (ix_avet ix)) = (\<lambda>d. (avet_from_datom d, d)) ` D"

lemma from_datom_inj:
  "inj eavt_from_datom" "inj aevt_from_datom" "inj vaet_from_datom" "inj avet_from_datom"
  by (auto simp: inj_def)

lemma ix_covers_empty [simp]: "ix_covers ix_empty {}"
  by (simp add: ix_covers_def ix_empty_def sv_default_def sv_inv_def)

lemma ix_covers_insert [simp]: "ix_covers ix D \<Longrightarrow> ix_covers (ix_insert d ix) (insert d D)"
  by (auto simp: ix_covers_def ix_insert_def sv_insert_def sv_inv_def)

lemma ix_covers_sort [simp]: "ix_covers ix D \<Longrightarrow> ix_covers (sort_all ix) D"
  by (auto simp: ix_covers_def sort_all_def sortedvec.inv_ready sortedvec.pairs_ready
      sortedvec.single_valued_keyed from_datom_inj)

lemma ix_covers_fold: "ix_covers ix D \<Longrightarrow> ix_covers (fold ix_insert ds ix) (D \<union> set ds)"
proof (induction ds arbitrary: ix D)
  case (Cons d ds)
  from Cons.IH [OF ix_covers_insert [OF Cons.prems]] show ?case by simp
qed simp

lemma ix_from_datoms_load:
  "ix_eavt (ix_from_datoms ds) = sortedvec.load eavt_from_datom ds sv_default"
  "ix_aevt (ix_from_datoms ds) = sortedvec.load aevt_from_datom ds sv_default"
  "ix_vaet (ix_from_datoms ds) = sortedvec.load vaet_from_datom ds sv_default"
  "ix_avet (ix_from_datoms ds) = sortedvec.load avet_from_datom ds sv_default"
proof -
  have "ix_eavt (fold ix_insert ds ix) = sortedvec.load eavt_from_datom ds (ix_eavt ix) \<and>
    ix_aevt (fold ix_insert ds ix) = sortedvec.load aevt_from_datom ds (ix_aevt ix) \<and>
    ix_vaet (fold ix_insert ds ix) = sortedvec.load vaet_from_datom ds (ix_vaet ix) \<and>
    ix_avet (fold ix_insert ds ix) = sortedvec.load avet_from_datom ds (ix_avet ix)" for ix
    by (induction ds arbitrary: ix) (simp_all add: sortedvec.load_def ix_insert_def)
  from this [of ix_empty] show
    "ix_eavt (ix_from_datoms ds) = sortedvec.load eavt_from_datom ds sv_default"
    "ix_aevt (ix_from_datoms ds) = sortedvec.load aevt_from_datom ds sv_default"
    "ix_vaet (ix_from_datoms ds) = sortedvec.load vaet_from_datom ds sv_default"
    "ix_avet (ix_from_datoms ds) = sortedvec.load avet_from_datom ds sv_default"
    by (simp_all add: ix_from_datoms_def ix_empty_def)
qed

section \<open>Properties of the indexes\<close>

text \<open>Backend equivalence. Whatever (key, value) pairs are inserted, in whatever order and with
  whatever repetitions, as long as a key is always given the same value: the sorted-vector backend
  after \<open>sort()\<close> answers every lookup, iterates and counts exactly as the ordered map does.\<close>

theorem sorted_vec_refines_ordmap:
  fixes ps :: "('k::linorder \<times> 'v) list"
  assumes "single_valued (set ps)"
  shows "let sv = sv_sort (fold (\<lambda>(k, v). sv_insert k v) ps sv_default);
             om = fold (\<lambda>(k, v). om_insert k v) ps []
         in (\<forall>k. sv_get sv k = om_get om k) \<and> sv_values sv = map snd om \<and> sv_len sv = length om"
proof -
  have sv: "sv_inv (fold (\<lambda>(k, v). sv_insert k v) qs s) \<and>
      set (sv_entries (fold (\<lambda>(k, v). sv_insert k v) qs s)) = set qs \<union> set (sv_entries s)"
    if "sv_inv s" for qs :: "('k \<times> 'v) list" and s
    using that by (induction qs arbitrary: s) (auto simp: sv_insert_def sv_inv_def)
  have om: "om_inv (fold (\<lambda>(k, v). om_insert k v) qs m) \<and>
      set (fold (\<lambda>(k, v). om_insert k v) qs m) = set qs \<union> set m"
    if "om_inv m" "single_valued (set qs \<union> set m)" for qs :: "('k \<times> 'v) list" and m
    using that
  proof (induction qs arbitrary: m)
    case (Cons p qs)
    obtain k v where p: "p = (k, v)" by fastforce
    have "set (om_insert k v m) = insert (k, v) (set m)"
      using Cons.prems p by (intro ordmap.pairs_ins) (auto dest: single_valuedD)
    with Cons.IH [of "om_insert k v m"] Cons.prems p show ?case by simp
  qed simp
  define sv' where "sv' = sv_sort (fold (\<lambda>(k, v). sv_insert k v) ps sv_default)"
  define om' where "om' = fold (\<lambda>(k, v). om_insert k v) ps ([] :: ('k, 'v) omap)"
  define s0 where "s0 = fold (\<lambda>(k, v). sv_insert k v) ps (sv_default :: ('k, 'v) sorted_vec)"
  have "sv_inv s0" "set (sv_entries s0) = set ps"
    using sv [OF sortedvec.inv_default, of ps] by (simp_all add: s0_def sv_default_def)
  with sv_sort_sorted [of s0] sv_sort_entries [of s0] assms
  have s: "strict_sorted (map fst (sv_entries sv'))" "sv_sorted sv'" "set (sv_entries sv') = set ps"
    by (simp_all add: sv'_def sv_consistent_def flip: s0_def)
  from om [of "[]" ps] assms have o: "om_inv om'" "set om' = set ps" by (simp_all add: om'_def)
  have i: "om_inv (sv_entries sv')" using s(1) by (simp add: om_inv_def)
  have eq: "sv_entries sv' = om'"
    using om_set_ext [OF i o(1)] s(3) o(2) by simp
  have "sv_get sv' k = om_get om' k" for k
  proof (rule option_eqI)
    fix v show "sv_get sv' k = Some v \<longleftrightarrow> om_get om' k = Some v"
      using sv_get_sorted [OF s(2,1), of k v] om_get_in_set [OF i, of k v] unfolding eq by blast
  qed
  with eq show ?thesis
    by (simp add: Let_def sv_len_def sv_values_def flip: sv'_def om'_def)
qed

theorem sorted_vec_refines_ordmap_witness:
  "sv_get (sv_sort (fold (\<lambda>(k, v). sv_insert k v) [(2, ''b''), (1 :: nat, ''a''), (2, ''b'')] sv_default)) 2
     = Some ''b''"
proof -
  have "single_valued (set [(2, ''b''), (1 :: nat, ''a''), (2, ''b'')])"
    by (auto simp: single_valued_def)
  from sorted_vec_refines_ordmap [OF this] show ?thesis by (simp add: Let_def)
qed

text \<open>Index bijection. The indexes built from any datoms (repetitions allowed) and sorted pass
  \<open>verify_bijection\<close>; each has as many entries as there are distinct datoms, iterates exactly these
  datoms in its own key order, and finds a datom under a key exactly when it is one of them with
  that key.\<close>

theorem index_bijection:
  fixes ds :: "datom list"
  defines "ix \<equiv> sort_all (ix_from_datoms ds)"
  shows "verify_bijection ix \<and> sv_len (ix_eavt ix) = card (set ds) \<and>
    set (sv_values (ix_eavt ix)) = set ds \<and> strict_sorted (map eavt_from_datom (sv_values (ix_eavt ix))) \<and>
    set (sv_values (ix_aevt ix)) = set ds \<and> strict_sorted (map aevt_from_datom (sv_values (ix_aevt ix))) \<and>
    set (sv_values (ix_vaet ix)) = set ds \<and> strict_sorted (map vaet_from_datom (sv_values (ix_vaet ix))) \<and>
    set (sv_values (ix_avet ix)) = set ds \<and> strict_sorted (map avet_from_datom (sv_values (ix_avet ix))) \<and>
    (\<forall>k d. sv_get (ix_eavt ix) k = Some d \<longleftrightarrow> d \<in> set ds \<and> eavt_from_datom d = k) \<and>
    (\<forall>k d. sv_get (ix_aevt ix) k = Some d \<longleftrightarrow> d \<in> set ds \<and> aevt_from_datom d = k) \<and>
    (\<forall>k d. sv_get (ix_vaet ix) k = Some d \<longleftrightarrow> d \<in> set ds \<and> vaet_from_datom d = k) \<and>
    (\<forall>k d. sv_get (ix_avet ix) k = Some d \<longleftrightarrow> d \<in> set ds \<and> avet_from_datom d = k)"
proof -
  note L = from_datom_inj [THEN sortedvec.load_len [of _ ds]]
    and G = from_datom_inj [THEN sortedvec.load_get [of _ ds]]
    and V = from_datom_inj [THEN sortedvec.load_vals [of _ ds]]
  have "verify_bijection ix"
    using L V by (auto simp: ix_def sort_all_def ix_from_datoms_load verify_bijection_def Let_def
        intro!: sort_dedup_cong)
  then show ?thesis using L G V by (simp add: ix_def sort_all_def ix_from_datoms_load)
qed

end
