(* ===== verification/Positional.thy ===== *)
theory Positional
  imports Canonical Index
begin

text \<open>
  The positional store (crate \<open>ferratomic-positional\<close>): the XOR fingerprint (\<open>fingerprint.rs\<close>) and its
  chunk decomposition (\<open>chunk_fingerprints.rs\<close>), the merge of sorted arrays (\<open>merge.rs\<close>), the LIVE
  kernel (\<open>live.rs\<close>) and \<open>PositionalStore\<close> itself with its constructors and accessors (\<open>store.rs\<close>,
  \<open>columns.rs\<close>).

  Positions are \<open>u32\<close> in the code and \<open>nat\<close> here, with the code's saturating conversions written out.
  A \<open>RoaringBitmap\<close> is the strictly sorted list of its members, a \<open>BitVec\<close> a list of booleans. The
  \<open>OnceLock\<close> fields of the struct are caches of functions of the canonical array; they are modelled
  by these functions. The two closures of \<open>rayon::join\<close> are pure.
\<close>

section \<open>The fingerprint (fingerprint.rs)\<close>

text \<open>\<open>from_ne_bytes\<close> and \<open>to_ne_bytes\<close> use the byte order of the machine, big-endian if \<open>be\<close>.\<close>

definition from_ne_bytes :: "bool \<Rightarrow> bytes \<Rightarrow> u128" where
  "from_ne_bytes be bs = from_le_bytes (if be then rev bs else bs)"

definition to_ne_bytes :: "bool \<Rightarrow> u128 \<Rightarrow> bytes" where
  "to_ne_bytes be w = (if be then rev (to_le_bytes 16 w) else to_le_bytes 16 w)"

definition split_u128 :: "bool \<Rightarrow> bytes \<Rightarrow> u128 \<times> u128" where
  "split_u128 be bs = (from_ne_bytes be (take 16 bs), from_ne_bytes be (take 16 (drop 16 bs)))"

definition xor_hash_ne :: "bool \<Rightarrow> bytes \<Rightarrow> bytes \<Rightarrow> bytes" where
  "xor_hash_ne be fp hash =
     (let (fp_lo, fp_hi) = split_u128 be fp; (h_lo, h_hi) = split_u128 be hash
      in to_ne_bytes be (fp_lo XOR h_lo) @ to_ne_bytes be (fp_hi XOR h_hi))"

text \<open>On a little-endian machine; the choice is irrelevant (\<open>xor_hash_ne_bytewise\<close>).\<close>

definition xor_hash_into :: "bytes \<Rightarrow> bytes \<Rightarrow> bytes" where
  "xor_hash_into fp hash = xor_hash_ne False fp hash"

definition zero32 :: bytes where
  "zero32 = replicate 32 0"

definition compute_fingerprint :: "(bytes \<Rightarrow> bytes) \<Rightarrow> datom list \<Rightarrow> bytes" where
  "compute_fingerprint blake3 canonical =
     fold (\<lambda>d fp. xor_hash_into fp (content_hash blake3 d)) canonical zero32"

text \<open>BLAKE3 returns 32 bytes.\<close>

definition hash32 :: "(bytes \<Rightarrow> bytes) \<Rightarrow> bool" where
  "hash32 blake3 \<longleftrightarrow> (\<forall>bs. length (blake3 bs) = 32)"

definition xor_bytes :: "bytes \<Rightarrow> bytes \<Rightarrow> bytes" where
  "xor_bytes a b = map2 (XOR) a b"

lemma length_zero32 [simp]: "length zero32 = 32"
  by (simp add: zero32_def)

lemma length_xor_bytes [simp]: "length (xor_bytes a b) = min (length a) (length b)"
  by (simp add: xor_bytes_def)

lemma nth_xor_bytes [simp]:
  "i < length a \<Longrightarrow> i < length b \<Longrightarrow> xor_bytes a b ! i = a ! i XOR b ! i"
  by (simp add: xor_bytes_def)

lemma xor_bytes_comm: "xor_bytes a b = xor_bytes b a"
  by (rule nth_equalityI) (simp_all add: xor.commute)

lemma xor_bytes_assoc: "xor_bytes (xor_bytes a b) c = xor_bytes a (xor_bytes b c)"
  by (rule nth_equalityI) (simp_all add: xor.assoc)

lemma xor_bytes_left_comm: "xor_bytes (xor_bytes a b) c = xor_bytes (xor_bytes a c) b"
  by (metis xor_bytes_assoc xor_bytes_comm)

lemma xor_bytes_zero [simp]:
  "length a = 32 \<Longrightarrow> xor_bytes a zero32 = a" "length a = 32 \<Longrightarrow> xor_bytes zero32 a = a"
  by (rule nth_equalityI; simp add: zero32_def)+

lemma xor_bytes_self [simp]: "length a = 32 \<Longrightarrow> xor_bytes a a = zero32"
  by (rule nth_equalityI) (simp_all add: zero32_def)

lemma to_le_bytes_xor: "to_le_bytes n (x XOR y) = xor_bytes (to_le_bytes n x) (to_le_bytes n y)"
proof (induction n arbitrary: x y)
  case (Suc n)
  have "(ucast (x XOR y) :: u8) = ucast x XOR ucast y"
    by (rule bit_word_eqI) (auto simp: bit_simps)
  with Suc show ?case by (simp add: xor_bytes_def)
qed (simp add: xor_bytes_def)

lemma ne_bytes_xor: "to_ne_bytes be (x XOR y) = xor_bytes (to_ne_bytes be x) (to_ne_bytes be y)"
  by (cases be) (simp_all add: to_ne_bytes_def to_le_bytes_xor xor_bytes_def rev_map zip_rev)

lemma ne_bytes_roundtrip: "length bs = 16 \<Longrightarrow> to_ne_bytes be (from_ne_bytes be bs) = bs"
  using to_le_from_le [of bs, where ?'a = 128] to_le_from_le [of "rev bs", where ?'a = 128]
  by (cases be) (simp_all add: to_ne_bytes_def from_ne_bytes_def)

lemma xor_bytes_append:
  "length a = length c \<Longrightarrow> xor_bytes (a @ b) (c @ d) = xor_bytes a c @ xor_bytes b d"
  by (simp add: xor_bytes_def zip_append)

lemma xor_hash_ne_bytewise:
  assumes "length fp = 32" "length h = 32"
  shows "xor_hash_ne be fp h = xor_bytes fp h"
proof -
  have "xor_hash_ne be fp h =
      xor_bytes (take 16 fp) (take 16 h) @ xor_bytes (take 16 (drop 16 fp)) (take 16 (drop 16 h))"
    using assms by (simp add: xor_hash_ne_def split_u128_def ne_bytes_xor ne_bytes_roundtrip)
  also have "\<dots> = xor_bytes fp h"
    using assms xor_bytes_append [of "take 16 fp" "take 16 h" "drop 16 fp" "drop 16 h"] by simp
  finally show ?thesis .
qed

lemma xor_hash_into_bytewise [simp]:
  "length fp = 32 \<Longrightarrow> length h = 32 \<Longrightarrow> xor_hash_into fp h = xor_bytes fp h"
  by (simp add: xor_hash_into_def xor_hash_ne_bytewise)

lemma length_content_hash [simp]: "hash32 blake3 \<Longrightarrow> length (content_hash blake3 d) = 32"
  by (simp add: hash32_def content_hash_def Let_def)

text \<open>The fingerprint as a sum in the group of 32-byte strings under XOR.\<close>

lemma fold_xor_hash:
  assumes "hash32 blake3" "length fp = 32"
  shows "fold (\<lambda>d fp. xor_hash_into fp (content_hash blake3 d)) ds fp =
    xor_bytes fp (compute_fingerprint blake3 ds)"
    and "length (compute_fingerprint blake3 ds) = 32"
proof -
  have l: "length (fold (\<lambda>d fp. xor_hash_into fp (content_hash blake3 d)) ds a) = 32"
    if "length a = 32" for a ds
    using that assms(1) by (induction ds arbitrary: a) simp_all
  then show "length (compute_fingerprint blake3 ds) = 32" by (simp add: compute_fingerprint_def)
  show "fold (\<lambda>d fp. xor_hash_into fp (content_hash blake3 d)) ds fp =
    xor_bytes fp (compute_fingerprint blake3 ds)"
    using assms(2)
  proof (induction ds arbitrary: fp)
    case (Cons d ds)
    have "compute_fingerprint blake3 (d # ds) =
        xor_bytes (content_hash blake3 d) (compute_fingerprint blake3 ds)"
      using Cons.IH [of "content_hash blake3 d"] assms(1) by (simp add: compute_fingerprint_def)
    with Cons assms(1) show ?case by (simp add: xor_bytes_assoc)
  qed (simp add: compute_fingerprint_def)
qed

lemma compute_fingerprint_simps:
  assumes "hash32 blake3"
  shows "compute_fingerprint blake3 [] = zero32"
    and "compute_fingerprint blake3 (d # ds) =
      xor_bytes (content_hash blake3 d) (compute_fingerprint blake3 ds)"
    and "compute_fingerprint blake3 (ds @ es) =
      xor_bytes (compute_fingerprint blake3 ds) (compute_fingerprint blake3 es)"
  using fold_xor_hash [OF assms, of "content_hash blake3 d" ds]
    fold_xor_hash [OF assms, of "compute_fingerprint blake3 ds" es] fold_xor_hash(2) [OF assms, of zero32]
    assms
  by (simp_all add: compute_fingerprint_def)

lemma compute_fingerprint_mset:
  assumes "hash32 blake3" "mset ds = mset es"
  shows "compute_fingerprint blake3 ds = compute_fingerprint blake3 es"
proof -
  have "compute_fingerprint blake3 xs = fold (\<lambda>d fp. xor_bytes fp (content_hash blake3 d)) xs zero32" for xs
  proof -
    have "fold (\<lambda>d fp. xor_hash_into fp (content_hash blake3 d)) xs a =
        fold (\<lambda>d fp. xor_bytes fp (content_hash blake3 d)) xs a" if "length a = 32" for a
      using that assms(1) by (induction xs arbitrary: a) simp_all
    then show ?thesis by (simp add: compute_fingerprint_def)
  qed
  moreover have "fold (\<lambda>d fp. xor_bytes fp (content_hash blake3 d)) ds =
      fold (\<lambda>d fp. xor_bytes fp (content_hash blake3 d)) es"
    using assms(2) by (intro fold_multiset_equiv) (auto simp: fun_eq_iff xor_bytes_left_comm)
  ultimately show ?thesis by simp
qed

section \<open>Merging sorted arrays (merge.rs)\<close>

fun merge_sort_dedup :: "'a::linorder list \<Rightarrow> 'a list \<Rightarrow> 'a list" where
  "merge_sort_dedup [] b = b"
| "merge_sort_dedup a [] = a"
| "merge_sort_dedup (x # a) (y # b) =
     (case cmp x y of
        Less \<Rightarrow> x # merge_sort_dedup a (y # b)
      | Greater \<Rightarrow> y # merge_sort_dedup (x # a) b
      | Equal \<Rightarrow> x # merge_sort_dedup a b)"

lemma set_merge_sort_dedup [simp]: "set (merge_sort_dedup a b) = set a \<union> set b"
  by (induction a b rule: merge_sort_dedup.induct) auto

lemma strict_sorted_merge_sort_dedup [simp]:
  "strict_sorted a \<Longrightarrow> strict_sorted b \<Longrightarrow> strict_sorted (merge_sort_dedup a b)"
  by (induction a b rule: merge_sort_dedup.induct) (auto intro: less_trans)

interpretation array_join: join_semilattice "merge_sort_dedup :: 'a::linorder list \<Rightarrow> _" strict_sorted
  by unfold_locales (auto intro!: strict_sorted_set_unique)

text \<open>The fingerprint of a union of disjoint arrays is the XOR of the fingerprints.\<close>

lemma fingerprint_merge_disjoint:
  assumes "hash32 blake3" "strict_sorted a" "strict_sorted b" "set a \<inter> set b = {}"
  shows "compute_fingerprint blake3 (merge_sort_dedup a b) =
    xor_bytes (compute_fingerprint blake3 a) (compute_fingerprint blake3 b)"
proof -
  have "mset (merge_sort_dedup a b) = mset (a @ b)"
    using assms(2-4) by (intro set_eq_iff_mset_eq_distinct [THEN iffD1])
      (auto simp: strict_sorted_distinct)
  from compute_fingerprint_mset [OF assms(1) this] show ?thesis
    by (simp add: compute_fingerprint_simps assms(1))
qed

section \<open>The LIVE kernel (live.rs)\<close>

text \<open>The inner loop: the first index from \<open>j\<close> on whose key differs from \<open>key\<close>.\<close>

function run_end :: "nat \<Rightarrow> (nat \<Rightarrow> 'k) \<Rightarrow> 'k \<Rightarrow> nat \<Rightarrow> nat" where
  "run_end len key_at key j = (if j < len \<and> key_at j = key then run_end len key_at key (j + 1) else j)"
  by pat_completeness auto
termination by (relation "measure (\<lambda>(len, _, _, j). len - j)") auto

declare run_end.simps [simp del]

lemma run_end_ge: "j \<le> run_end len key_at key j"
proof (induction len key_at key j rule: run_end.induct)
  case (1 len key_at key j)
  then show ?case by (subst run_end.simps) auto
qed

function live_runs :: "nat \<Rightarrow> (nat \<Rightarrow> 'k) \<Rightarrow> (nat \<Rightarrow> op) \<Rightarrow> nat \<Rightarrow> nat list" where
  "live_runs len key_at op_at i =
     (if i < len then
        (let j = run_end len key_at (key_at i) (i + 1)
         in (if op_at (j - 1) = Assert then [sat_usize u32_max (j - 1)] else [])
              @ live_runs len key_at op_at j)
      else [])"
  by pat_completeness auto
termination
proof (relation "measure (\<lambda>(len, _, _, i). len - i)", goal_cases)
  case (2 len key_at op_at i j)
  then show ?case using run_end_ge [of "i + 1" len key_at "key_at i"] by simp
qed simp

declare live_runs.simps [simp del]

definition live_positions_from_sorted_runs :: "nat \<Rightarrow> (nat \<Rightarrow> 'k) \<Rightarrow> (nat \<Rightarrow> op) \<Rightarrow> nat list" where
  "live_positions_from_sorted_runs len key_at op_at = live_runs len key_at op_at 0"

definition live_positions_kernel :: "datom list \<Rightarrow> nat list" where
  "live_positions_kernel canonical =
     live_positions_from_sorted_runs (length canonical)
       (\<lambda>idx. (d_entity (canonical ! idx), d_attribute (canonical ! idx), d_value (canonical ! idx)))
       (\<lambda>idx. d_op (canonical ! idx))"

definition build_live_roaring :: "datom list \<Rightarrow> nat list" where
  "build_live_roaring canonical = fold os_insert (live_positions_kernel canonical) []"

definition build_live_bitvector_pub :: "datom list \<Rightarrow> bool list" where
  "build_live_bitvector_pub ds =
     fold (\<lambda>p live. live[p := True]) (live_positions_kernel ds) (replicate (length ds) False)"

lemma run_end_spec:
  "j \<le> len \<Longrightarrow> run_end len key_at key j \<le> len \<and>
     (\<forall>k. j \<le> k \<longrightarrow> k < run_end len key_at key j \<longrightarrow> key_at k = key) \<and>
     (run_end len key_at key j < len \<longrightarrow> key_at (run_end len key_at key j) \<noteq> key)"
proof (induction len key_at key j rule: run_end.induct)
  case (1 len key_at key j)
  show ?case
  proof (cases "j < len \<and> key_at j = key")
    case True
    then have e: "run_end len key_at key j = run_end len key_at key (j + 1)" by (simp add: run_end.simps)
    from True have "key_at k = key" if "j \<le> k" "k < run_end len key_at key (j + 1)" for k
      using 1 that by (cases "k = j") auto
    with e 1 True show ?thesis by auto
  next
    case False
    then have "run_end len key_at key j = j" by (subst run_end.simps) auto
    with 1 False show ?thesis by auto
  qed
qed

text \<open>A position is reported exactly when it is the last of its run and asserts.\<close>

lemma live_runs_spec:
  assumes "len \<le> u32_max"
  shows "p \<in> set (live_runs len key_at op_at i) \<longleftrightarrow>
    i \<le> p \<and> p < len \<and> op_at p = Assert \<and> (Suc p = len \<or> key_at (Suc p) \<noteq> key_at p)"
  using assms
proof (induction len key_at op_at i rule: live_runs.induct)
  case (1 len key_at op_at i)
  show ?case
  proof (cases "i < len")
    case True
    define j where "j = run_end len key_at (key_at i) (i + 1)"
    note sp = run_end_spec [of "i + 1" len key_at "key_at i", folded j_def]
    have j: "i < j" "j \<le> len" "j < len \<longrightarrow> key_at j \<noteq> key_at i"
      using run_end_ge [of "i + 1" len key_at "key_at i"] sp True by (auto simp: j_def)
    have run: "key_at k = key_at i" if "i \<le> k" "k < j" for k
      using sp True that by (cases "k = i") auto
    have rec: "live_runs len key_at op_at i =
        (if op_at (j - 1) = Assert then [j - 1] else []) @ live_runs len key_at op_at j"
      using True j "1.prems" by (subst live_runs.simps) (simp add: Let_def j_def)
    have l: "Suc p = len \<or> key_at (Suc p) \<noteq> key_at p \<longleftrightarrow> p = j - 1" if "i \<le> p" "p < j"
    proof (cases "Suc p < j")
      case True
      then show ?thesis using run [of p] run [of "Suc p"] that j by auto
    next
      case False
      then have "Suc p = j" using that by simp
      then show ?thesis using run [of p] that j by auto
    qed
    have b: "i \<le> j - 1" "j - 1 < len" using j(1,2) by linarith+
    note ih = "1.IH" [OF True j_def "1.prems"]
    show ?thesis
    proof (cases "i \<le> p \<and> p < j")
      case True
      with ih l b j(1) show ?thesis unfolding rec by auto
    next
      case False
      with ih b j(1) show ?thesis unfolding rec by auto
    qed
  qed (subst live_runs.simps, simp)
qed

lemma live_positions_kernel_spec:
  "length ds \<le> u32_max \<Longrightarrow> p \<in> set (live_positions_kernel ds) \<longleftrightarrow>
     p < length ds \<and> d_op (ds ! p) = Assert \<and> (Suc p = length ds \<or> eav (ds ! Suc p) \<noteq> eav (ds ! p))"
  by (auto simp: live_positions_kernel_def live_positions_from_sorted_runs_def live_runs_spec eav_def)

text \<open>In a canonical array the last of a run is the latest statement about its triple.\<close>

definition latest :: "datom set \<Rightarrow> datom \<Rightarrow> bool" where
  "latest D d \<longleftrightarrow> d \<in> D \<and> (\<forall>d' \<in> D. eav d' = eav d \<longrightarrow> (d_tx d', d_op d') \<le> (d_tx d, d_op d))"

lemma eav_mono: "a \<le> b \<Longrightarrow> eav a \<le> eav b"
  using datom_less_eav [of a b] by (cases "a = b") (auto simp: order.order_iff_strict)

lemma canonical_last_latest:
  assumes "strict_sorted ds" "p < length ds"
  shows "(Suc p = length ds \<or> eav (ds ! Suc p) \<noteq> eav (ds ! p)) \<longleftrightarrow> latest (set ds) (ds ! p)"
proof
  assume last: "Suc p = length ds \<or> eav (ds ! Suc p) \<noteq> eav (ds ! p)"
  have "(d_tx d, d_op d) \<le> (d_tx (ds ! p), d_op (ds ! p))" if d: "d \<in> set ds" "eav d = eav (ds ! p)" for d
  proof -
    from d(1) obtain q where q: "q < length ds" "d = ds ! q" by (auto simp: in_set_conv_nth)
    have "q \<le> p"
    proof (rule ccontr)
      assume "\<not> q \<le> p"
      then have "Suc p \<le> q" by simp
      then have "eav (ds ! Suc p) \<le> eav (ds ! q)" "eav (ds ! p) \<le> eav (ds ! Suc p)" "Suc p < length ds"
        using q strict_sorted_sorted [OF assms(1)] by (auto intro!: eav_mono sorted_nth_mono)
      with last d(2) q(2) show False by auto
    qed
    then have "d \<le> ds ! p" using q assms strict_sorted_sorted sorted_nth_mono by blast
    with d(2) datom_less_eav [of d "ds ! p"] show ?thesis
      by (cases "d = ds ! p") (auto intro: order.strict_implies_order simp del: less_eq_prod_simp)
  qed
  then show "latest (set ds) (ds ! p)" using assms(2) by (simp add: latest_def)
next
  assume l: "latest (set ds) (ds ! p)"
  show "Suc p = length ds \<or> eav (ds ! Suc p) \<noteq> eav (ds ! p)"
  proof (rule ccontr)
    assume "\<not> ?thesis"
    then have s: "Suc p < length ds" "eav (ds ! Suc p) = eav (ds ! p)" using assms(2) by auto
    have "ds ! p < ds ! Suc p" using sorted_wrt_nth_less [OF assms(1)] s(1) by simp
    then have "(d_tx (ds ! p), d_op (ds ! p)) < (d_tx (ds ! Suc p), d_op (ds ! Suc p))"
      using s(2) by (simp add: datom_less_eav)
    moreover have "(d_tx (ds ! Suc p), d_op (ds ! Suc p)) \<le> (d_tx (ds ! p), d_op (ds ! p))"
      using l s unfolding latest_def by simp
    ultimately show False by (meson leD)
  qed
qed

lemma set_build_live_roaring [simp]: "set (build_live_roaring ds) = set (live_positions_kernel ds)"
  and strict_sorted_build_live_roaring [simp]: "strict_sorted (build_live_roaring ds)"
  by (simp_all add: build_live_roaring_def)

lemma live_roaring_latest:
  assumes "strict_sorted ds" "length ds \<le> u32_max"
  shows "p \<in> set (build_live_roaring ds) \<longleftrightarrow>
    p < length ds \<and> d_op (ds ! p) = Assert \<and> latest (set ds) (ds ! p)"
  using canonical_last_latest [OF assms(1), of p] by (auto simp: live_positions_kernel_spec [OF assms(2)])

section \<open>PositionalStore (store.rs)\<close>

record positional_store =
  ps_canonical :: "datom list"
  ps_live_bits :: "nat list"
  ps_fingerprint :: bytes

definition from_sorted_canonical :: "(bytes \<Rightarrow> bytes) \<Rightarrow> datom list \<Rightarrow> positional_store" where
  "from_sorted_canonical blake3 canonical =
     \<lparr>ps_canonical = canonical, ps_live_bits = build_live_roaring canonical,
      ps_fingerprint = compute_fingerprint blake3 canonical\<rparr>"

definition ps_from_datoms :: "(bytes \<Rightarrow> bytes) \<Rightarrow> datom list \<Rightarrow> positional_store" where
  "ps_from_datoms blake3 datoms =
     (let canonical = dedup (sort datoms)
      in \<lparr>ps_canonical = canonical, ps_live_bits = build_live_roaring canonical,
          ps_fingerprint = compute_fingerprint blake3 canonical\<rparr>)"

definition merge_positional ::
  "(bytes \<Rightarrow> bytes) \<Rightarrow> positional_store \<Rightarrow> positional_store \<Rightarrow> positional_store" where
  "merge_positional blake3 a b =
     (let merged = merge_sort_dedup (ps_canonical a) (ps_canonical b)
      in \<lparr>ps_canonical = merged, ps_live_bits = build_live_roaring merged,
          ps_fingerprint = compute_fingerprint blake3 merged\<rparr>)"

text \<open>\<open>iter_ones\<close> of a bit vector, in increasing order.\<close>

definition iter_ones :: "bool list \<Rightarrow> nat list" where
  "iter_ones bits = filter (\<lambda>i. bits ! i) [0..<length bits]"

definition from_sorted_with_live ::
  "(bytes \<Rightarrow> bytes) \<Rightarrow> datom list \<Rightarrow> bool list \<Rightarrow> ferra_error + positional_store" where
  "from_sorted_with_live blake3 canonical live_bits =
     (if length live_bits \<noteq> length canonical then Inl (InvariantViolation ''INV-FERR-076'')
      else if \<not> windows_lt canonical then Inl (InvariantViolation ''INV-FERR-076'')
      else if try_from_usize u32_max (length canonical) = None
      then Inl (InvariantViolation ''INV-FERR-076'')
      else Inr \<lparr>ps_canonical = canonical,
                ps_live_bits = fold os_insert (List.map_filter (try_from_usize u32_max) (iter_ones live_bits)) [],
                ps_fingerprint = compute_fingerprint blake3 canonical\<rparr>)"

definition ps_len :: "positional_store \<Rightarrow> nat" where
  "ps_len s = length (ps_canonical s)"

definition position_of :: "positional_store \<Rightarrow> datom \<Rightarrow> nat option" where
  "position_of s d =
     Option.bind (binary_search_by (\<lambda>x. cmp x d) (ps_canonical s)) (try_from_usize u32_max)"

definition is_live :: "positional_store \<Rightarrow> nat \<Rightarrow> bool" where
  "is_live s p = List.member (ps_live_bits s) p"

definition datom_at :: "positional_store \<Rightarrow> nat \<Rightarrow> datom option" where
  "datom_at s p = (if p < length (ps_canonical s) then Some (ps_canonical s ! p) else None)"

definition live_datoms :: "positional_store \<Rightarrow> datom list" where
  "live_datoms s = List.map_filter (datom_at s) (ps_live_bits s)"

definition live_count :: "positional_store \<Rightarrow> nat" where
  "live_count s = length (ps_live_bits s)"

definition live_bits_clone :: "positional_store \<Rightarrow> bool list" where
  "live_bits_clone s =
     fold (\<lambda>p bv. bv[p := True]) (ps_live_bits s) (replicate (length (ps_canonical s)) False)"

definition col_entities :: "positional_store \<Rightarrow> entity_id list" where
  "col_entities s = map d_entity (ps_canonical s)"

definition col_txids :: "positional_store \<Rightarrow> txid list" where
  "col_txids s = map d_tx (ps_canonical s)"

definition col_ops :: "positional_store \<Rightarrow> bool list" where
  "col_ops s = map (\<lambda>d. d_op d = Assert) (ps_canonical s)"

definition build_col_attrs :: "positional_store \<Rightarrow> attribute_intern \<Rightarrow> nat option list" where
  "build_col_attrs s t = map (\<lambda>d. id_of t (d_attribute d)) (ps_canonical s)"

text \<open>The invariant: a strictly sorted array with its derived fields.\<close>

definition ps_inv :: "(bytes \<Rightarrow> bytes) \<Rightarrow> positional_store \<Rightarrow> bool" where
  "ps_inv blake3 s \<longleftrightarrow> strict_sorted (ps_canonical s) \<and> s = from_sorted_canonical blake3 (ps_canonical s)"

lemma ps_inv_from_sorted [simp]:
  "strict_sorted ds \<Longrightarrow> ps_inv blake3 (from_sorted_canonical blake3 ds)"
  by (simp add: ps_inv_def from_sorted_canonical_def)

lemma ps_canonical_from_sorted [simp]: "ps_canonical (from_sorted_canonical blake3 ds) = ds"
  by (simp add: from_sorted_canonical_def)

lemma ps_from_datoms_canonical: "ps_from_datoms blake3 ds = from_sorted_canonical blake3 (sort_dedup ds)"
  by (simp add: ps_from_datoms_def from_sorted_canonical_def Let_def sort_dedup_def)

lemma merge_positional_canonical:
  "merge_positional blake3 a b =
     from_sorted_canonical blake3 (merge_sort_dedup (ps_canonical a) (ps_canonical b))"
  by (simp add: merge_positional_def from_sorted_canonical_def Let_def)

lemma ps_canonical_simps [simp]:
  "ps_canonical (ps_from_datoms blake3 ds) = sort_dedup ds"
  "ps_canonical (merge_positional blake3 a b) = merge_sort_dedup (ps_canonical a) (ps_canonical b)"
  by (simp_all add: ps_from_datoms_canonical merge_positional_canonical)

lemma ps_ext:
  "ps_inv blake3 s \<Longrightarrow> ps_inv blake3 t \<Longrightarrow> set (ps_canonical s) = set (ps_canonical t) \<Longrightarrow> s = t"
  unfolding ps_inv_def by (metis strict_sorted_set_unique)

interpretation positional_join: join_semilattice "merge_positional blake3" "ps_inv blake3" for blake3
proof (unfold_locales, goal_cases)
  case (1 a b)
  then show ?case by (simp add: merge_positional_canonical ps_inv_def from_sorted_canonical_def)
next
  case (2 a b)
  then show ?case by (simp add: merge_positional_canonical ps_inv_def array_join.join_comm)
next
  case (3 a b c)
  then show ?case by (simp add: merge_positional_canonical ps_inv_def array_join.join_assoc)
next
  case (4 a)
  then show ?case by (simp add: merge_positional_canonical ps_inv_def array_join.join_idem)
qed

lemma ps_inv_simps [simp]:
  "ps_inv blake3 (ps_from_datoms blake3 ds)"
  "ps_inv blake3 a \<Longrightarrow> ps_inv blake3 b \<Longrightarrow> ps_inv blake3 (merge_positional blake3 a b)"
  by (simp_all add: ps_from_datoms_canonical positional_join.join_inv)

lemma ps_inv_live: "ps_inv blake3 s \<Longrightarrow> ps_live_bits s = build_live_roaring (ps_canonical s)"
  and ps_inv_fingerprint: "ps_inv blake3 s \<Longrightarrow> ps_fingerprint s = compute_fingerprint blake3 (ps_canonical s)"
  by (metis ps_inv_def from_sorted_canonical_def positional_store.select_convs)+

lemma length_fold_set_bits [simp]: "length (fold (\<lambda>p bv. bv[p := True]) ps bs) = length bs"
  by (induction ps arbitrary: bs) auto

lemma nth_fold_set_bits:
  "i < length bs \<Longrightarrow> fold (\<lambda>p bv. bv[p := True]) ps bs ! i \<longleftrightarrow> i \<in> set ps \<or> bs ! i"
proof (induction ps arbitrary: bs)
  case (Cons p ps)
  then show ?case by (cases "p = i") auto
qed simp

lemma map_filter_try_from: "\<forall>x \<in> set xs. x \<le> mx \<Longrightarrow> List.map_filter (try_from_usize mx) xs = xs"
  by (induction xs) (auto simp: List.map_filter_def)

lemma map_filter_total:
  "(\<And>x. x \<in> set xs \<Longrightarrow> P x) \<Longrightarrow> List.map_filter (\<lambda>x. if P x then Some (g x) else None) xs = map g xs"
  by (induction xs) (auto simp: List.map_filter_def)

lemma fold_os_insert_strict: "strict_sorted xs \<Longrightarrow> fold os_insert xs [] = xs"
  by (rule strict_sorted_set_unique) simp_all

text \<open>The dense bit vector written to checkpoints is the bitmap, bit by bit.\<close>

lemma live_bits_clone_nth:
  "i < ps_len s \<Longrightarrow> live_bits_clone s ! i = is_live s i"
  by (simp add: live_bits_clone_def is_live_def ps_len_def nth_fold_set_bits)

lemma length_live_bits_clone [simp]: "length (live_bits_clone s) = ps_len s"
  by (simp add: live_bits_clone_def ps_len_def)

lemma live_positions_bounded:
  "ps_inv blake3 s \<Longrightarrow> ps_len s \<le> u32_max \<Longrightarrow> \<forall>p \<in> set (ps_live_bits s). p < ps_len s"
  by (simp add: ps_inv_live live_positions_kernel_spec ps_len_def)

section \<open>Chunk fingerprints (chunk_fingerprints.rs)\<close>

record chunk_fps =
  cf_chunks :: "bytes list"
  cf_chunk_size :: nat
  cf_dirty :: "bool list"

definition DEFAULT_CHUNK_SIZE :: nat where
  "DEFAULT_CHUNK_SIZE = 1024"

definition is_power_of_two :: "nat \<Rightarrow> bool" where
  "is_power_of_two n \<longleftrightarrow> n \<noteq> 0 \<and> n AND (n - 1) = 0"

definition div_ceil :: "nat \<Rightarrow> nat \<Rightarrow> nat" where
  "div_ceil a b = a div b + (if a mod b > 0 then 1 else 0)"

definition chunk_step :: "(bytes \<Rightarrow> bytes) \<Rightarrow> nat \<Rightarrow> nat \<times> datom \<Rightarrow> bytes list \<Rightarrow> bytes list" where
  "chunk_step blake3 chunk_size = (\<lambda>(pos, d) cs.
     let chunk_idx = pos div chunk_size
     in cs[chunk_idx := xor_hash_into (cs ! chunk_idx) (content_hash blake3 d)])"

text \<open>\<open>None\<close> is the panic of the assertion on the chunk size.\<close>

definition cf_from_canonical :: "(bytes \<Rightarrow> bytes) \<Rightarrow> datom list \<Rightarrow> nat \<Rightarrow> chunk_fps option" where
  "cf_from_canonical blake3 canonical chunk_size =
     (if chunk_size > 0 \<and> is_power_of_two chunk_size then
        (let num_chunks = (if canonical = [] then 0 else div_ceil (length canonical) chunk_size);
             chunks = fold (chunk_step blake3 chunk_size) (enumerate 0 canonical) (replicate num_chunks zero32)
         in Some \<lparr>cf_chunks = chunks, cf_chunk_size = chunk_size, cf_dirty = replicate num_chunks False\<rparr>)
      else None)"

text \<open>\<open>Vec::resize\<close>\<close>

definition resize :: "nat \<Rightarrow> 'a \<Rightarrow> 'a list \<Rightarrow> 'a list" where
  "resize n x xs = take n xs @ replicate (n - length xs) x"

definition insert_hash :: "nat \<Rightarrow> bytes \<Rightarrow> chunk_fps \<Rightarrow> chunk_fps" where
  "insert_hash position datom_hash cf =
     (let chunk_idx = position div cf_chunk_size cf;
          cf1 = (if chunk_idx \<ge> length (cf_chunks cf)
                 then cf\<lparr>cf_chunks := resize (chunk_idx + 1) zero32 (cf_chunks cf),
                        cf_dirty := resize (chunk_idx + 1) False (cf_dirty cf)\<rparr>
                 else cf)
      in cf1\<lparr>cf_chunks := (cf_chunks cf1)[chunk_idx := xor_hash_into (cf_chunks cf1 ! chunk_idx) datom_hash],
             cf_dirty := (cf_dirty cf1)[chunk_idx := True]\<rparr>)"

definition store_fingerprint :: "chunk_fps \<Rightarrow> bytes" where
  "store_fingerprint cf = fold (\<lambda>chunk r. xor_hash_into r chunk) (cf_chunks cf) zero32"

definition chunk_at :: "chunk_fps \<Rightarrow> nat \<Rightarrow> bytes" where
  "chunk_at cf i = (if i < length (cf_chunks cf) then cf_chunks cf ! i else zero32)"

definition diff_chunks :: "chunk_fps \<Rightarrow> chunk_fps \<Rightarrow> nat list" where
  "diff_chunks a b =
     filter (\<lambda>i. chunk_at a i \<noteq> chunk_at b i) [0..<max (length (cf_chunks a)) (length (cf_chunks b))]"

definition mark_dirty :: "nat \<Rightarrow> chunk_fps \<Rightarrow> chunk_fps" where
  "mark_dirty i cf =
     (let cf1 = (if i \<ge> length (cf_dirty cf) then cf\<lparr>cf_dirty := resize (i + 1) False (cf_dirty cf)\<rparr> else cf)
      in cf1\<lparr>cf_dirty := (cf_dirty cf1)[i := True]\<rparr>)"

definition dirty_chunks :: "chunk_fps \<Rightarrow> nat list" where
  "dirty_chunks cf = iter_ones (cf_dirty cf)"

definition clear_dirty :: "chunk_fps \<Rightarrow> chunk_fps" where
  "clear_dirty cf = cf\<lparr>cf_dirty := replicate (length (cf_dirty cf)) False\<rparr>"

definition rebuild_live_incremental :: "datom list \<Rightarrow> nat \<Rightarrow> chunk_fps \<Rightarrow> chunk_fps \<Rightarrow> nat list" where
  "rebuild_live_incremental canonical chunk_size old_fps new_fps =
     (if cf_chunk_size old_fps \<noteq> chunk_size \<or> length (cf_chunks old_fps) \<noteq> length (cf_chunks new_fps)
      then build_live_roaring canonical
      else if diff_chunks old_fps new_fps = [] then build_live_roaring canonical
      else if length (diff_chunks old_fps new_fps) = length (cf_chunks new_fps)
      then build_live_roaring canonical
      else build_live_roaring canonical)"

text \<open>All chunks are 32 bytes, there is one dirty flag per chunk, and the chunk size is usable.\<close>

definition cf_inv :: "chunk_fps \<Rightarrow> bool" where
  "cf_inv cf \<longleftrightarrow> list_all (\<lambda>c. length c = 32) (cf_chunks cf) \<and> length (cf_dirty cf) = length (cf_chunks cf) \<and>
     cf_chunk_size cf > 0"

lemma fold_xor_chunks:
  assumes "list_all (\<lambda>c. length c = 32) cs" "length r = 32"
  shows "fold (\<lambda>c r. xor_hash_into r c) cs r = fold (\<lambda>c r. xor_bytes r c) cs r"
  using assms by (induction cs arbitrary: r) simp_all

lemma fold_xor_bytes_start: "fold (\<lambda>c r. xor_bytes r c) cs (xor_bytes r h) = xor_bytes (fold (\<lambda>c r. xor_bytes r c) cs r) h"
proof (induction cs arbitrary: r)
  case (Cons c cs)
  from Cons [of "xor_bytes r c"] show ?case by (simp add: xor_bytes_left_comm [of r h c])
qed simp

lemma fold_xor_update:
  "i < length cs \<Longrightarrow> fold (\<lambda>c r. xor_bytes r c) (cs[i := xor_bytes (cs ! i) h]) r =
     xor_bytes (fold (\<lambda>c r. xor_bytes r c) cs r) h"
proof (induction cs arbitrary: i r)
  case (Cons c cs)
  then show ?case
    by (cases i) (simp_all add: fold_xor_bytes_start xor_bytes_left_comm [of _ h c] flip: xor_bytes_assoc)
qed simp

lemma store_fingerprint_xor:
  "cf_inv cf \<Longrightarrow> store_fingerprint cf = fold (\<lambda>c r. xor_bytes r c) (cf_chunks cf) zero32"
  by (simp add: store_fingerprint_def fold_xor_chunks cf_inv_def)

lemma fold_xor_zero: "length r = 32 \<Longrightarrow> ((\<lambda>r. xor_bytes r zero32) ^^ n) r = r"
  by (induction n) simp_all

lemma length_fold_xor_bytes:
  "list_all (\<lambda>c. length c = 32) cs \<Longrightarrow> length r = 32 \<Longrightarrow> length (fold (\<lambda>c r. xor_bytes r c) cs r) = 32"
  by (induction cs arbitrary: r) simp_all

lemma resize_ge: "length xs \<le> n \<Longrightarrow> resize n x xs = xs @ replicate (n - length xs) x"
  by (simp add: resize_def)

lemma list_all_update: "list_all P xs \<Longrightarrow> P x \<Longrightarrow> list_all P (xs[i := x])"
  using set_update_subset_insert [of xs i x] by (auto simp: list_all_iff)

lemma insert_hash_spec:
  assumes "cf_inv cf" "length h = 32"
  shows "cf_inv (insert_hash p h cf) \<and> store_fingerprint (insert_hash p h cf) = xor_bytes (store_fingerprint cf) h"
proof -
  define i where "i = p div cf_chunk_size cf"
  define cs where "cs = cf_chunks cf @ replicate (Suc i - length (cf_chunks cf)) zero32"
  have cs: "list_all (\<lambda>c. length c = 32) cs" "i < length cs"
    using assms(1) by (auto simp: cs_def cf_inv_def list_all_iff)
  have f: "fold (\<lambda>c r. xor_bytes r c) cs zero32 = store_fingerprint cf"
    using assms(1) length_fold_xor_bytes [of "cf_chunks cf" zero32]
    by (simp add: cs_def store_fingerprint_xor fold_xor_zero cf_inv_def)
  from cs have "length (cs ! i) = 32" by (simp add: list_all_length)
  then have ch: "cf_chunks (insert_hash p h cf) = cs[i := xor_bytes (cs ! i) h]"
    and sz: "cf_chunk_size (insert_hash p h cf) = cf_chunk_size cf"
    and d: "length (cf_dirty (insert_hash p h cf)) = length cs"
    using assms by (auto simp: insert_hash_def Let_def resize_ge cs_def cf_inv_def not_le simp flip: i_def)
  have inv: "cf_inv (insert_hash p h cf)"
    using cs ch sz d assms \<open>length (cs ! i) = 32\<close> by (simp add: cf_inv_def list_all_update)
  with f fold_xor_update [OF cs(2), of h zero32] ch show ?thesis by (simp add: store_fingerprint_xor)
qed

text \<open>Building the chunks is inserting every datom's hash at its position.\<close>

definition chunk_datoms :: "nat \<Rightarrow> datom list \<Rightarrow> nat \<Rightarrow> datom list" where
  "chunk_datoms chunk_size ds i = map snd (filter (\<lambda>(p, _). p div chunk_size = i) (enumerate 0 ds))"

lemma chunk_fold_spec:
  assumes "hash32 blake3" "list_all (\<lambda>c. length c = 32) cs" "\<forall>(p, d) \<in> set pds. p div sz < length cs"
  shows "length (fold (chunk_step blake3 sz) pds cs) = length cs" "list_all (\<lambda>c. length c = 32) (fold (chunk_step blake3 sz) pds cs)"
    and "i < length cs \<Longrightarrow> fold (chunk_step blake3 sz) pds cs ! i =
      xor_bytes (cs ! i) (compute_fingerprint blake3 (map snd (filter (\<lambda>(p, _). p div sz = i) pds)))"
    and "fold (\<lambda>c r. xor_bytes r c) (fold (chunk_step blake3 sz) pds cs) zero32 =
      xor_bytes (fold (\<lambda>c r. xor_bytes r c) cs zero32) (compute_fingerprint blake3 (map snd pds))"
proof -
  let ?P = "\<lambda>pds cs. length (fold (chunk_step blake3 sz) pds cs) = length cs \<and> list_all (\<lambda>c. length c = 32) (fold (chunk_step blake3 sz) pds cs) \<and>
      (i < length cs \<longrightarrow> fold (chunk_step blake3 sz) pds cs ! i =
        xor_bytes (cs ! i) (compute_fingerprint blake3 (map snd (filter (\<lambda>(p, _). p div sz = i) pds)))) \<and>
      fold (\<lambda>c r. xor_bytes r c) (fold (chunk_step blake3 sz) pds cs) zero32 =
      xor_bytes (fold (\<lambda>c r. xor_bytes r c) cs zero32) (compute_fingerprint blake3 (map snd pds))"
  have "?P pds cs" using assms(2,3)
  proof (induction pds arbitrary: cs)
    case Nil
    then show ?case by (simp add: compute_fingerprint_simps assms(1) list_all_length length_fold_xor_bytes)
  next
    case (Cons pd pds)
    obtain p d where pd: "pd = (p, d)" by fastforce
    define cs' where "cs' = cs[p div sz := xor_bytes (cs ! (p div sz)) (content_hash blake3 d)]"
    have b: "p div sz < length cs" using Cons.prems(2) pd by auto
    with Cons.prems(1) have l: "length (cs ! (p div sz)) = 32" by (simp add: list_all_length)
    have st: "chunk_step blake3 sz (p, d) cs = cs'" using l assms(1) by (simp add: chunk_step_def cs'_def Let_def)
    have "list_all (\<lambda>c. length c = 32) cs'"
      using l assms(1) Cons.prems(1) by (simp add: cs'_def list_all_update)
    then have ih: "?P pds cs'" using Cons.IH [of cs'] Cons.prems(2) by (simp add: cs'_def)
    have "fold (\<lambda>c r. xor_bytes r c) cs' zero32 =
        xor_bytes (fold (\<lambda>c r. xor_bytes r c) cs zero32) (content_hash blake3 d)"
      using b by (simp add: cs'_def fold_xor_update)
    moreover have "length cs' = length cs" "i < length cs \<Longrightarrow> cs' ! i =
        (if p div sz = i then xor_bytes (cs ! i) (content_hash blake3 d) else cs ! i)"
      using b by (simp_all add: cs'_def)
    ultimately show ?case using ih
      by (simp add: st pd compute_fingerprint_simps assms(1) xor_bytes_assoc)
  qed
  then show "length (fold (chunk_step blake3 sz) pds cs) = length cs" "list_all (\<lambda>c. length c = 32) (fold (chunk_step blake3 sz) pds cs)"
    "i < length cs \<Longrightarrow> fold (chunk_step blake3 sz) pds cs ! i =
      xor_bytes (cs ! i) (compute_fingerprint blake3 (map snd (filter (\<lambda>(p, _). p div sz = i) pds)))"
    "fold (\<lambda>c r. xor_bytes r c) (fold (chunk_step blake3 sz) pds cs) zero32 =
      xor_bytes (fold (\<lambda>c r. xor_bytes r c) cs zero32) (compute_fingerprint blake3 (map snd pds))"
    by blast+
qed

lemma div_ceil_bound:
  assumes "0 < b" "p < a"
  shows "p div b < div_ceil a b"
proof (cases "a mod b > 0")
  case True
  then show ?thesis using div_le_mono [of p a b] assms by (simp add: div_ceil_def)
next
  case False
  then have "p < (a div b) * b" using assms(2) by (metis add.right_neutral div_mult_mod_eq gr0I)
  then show ?thesis using less_mult_imp_div_less by (simp add: div_ceil_def)
qed

lemma cf_from_canonical_spec:
  assumes "hash32 blake3" "cf_from_canonical blake3 ds sz = Some cf"
  shows "cf_inv cf" "cf_chunk_size cf = sz" "store_fingerprint cf = compute_fingerprint blake3 ds"
    "i < length (cf_chunks cf) \<Longrightarrow> cf_chunks cf ! i = compute_fingerprint blake3 (chunk_datoms sz ds i)"
    "length (cf_chunks cf) = div_ceil (length ds) sz"
proof -
  define n where "n = (if ds = [] then 0 else div_ceil (length ds) sz)"
  from assms(2) have sz: "0 < sz" "is_power_of_two sz" by (auto simp: cf_from_canonical_def split: if_splits)
  have n: "n = div_ceil (length ds) sz" by (simp add: n_def div_ceil_def)
  note F = chunk_fold_spec [OF assms(1), of "replicate n zero32" "enumerate 0 ds" sz]
  have pre: "list_all (\<lambda>c. length c = 32) (replicate n zero32)"
    "\<forall>(p, d) \<in> set (enumerate 0 ds). p div sz < length (replicate n zero32)"
    using div_ceil_bound [OF sz(1)] by (auto simp: list_all_iff n in_set_enumerate_eq)
  note F = F [OF pre]
  have cf: "cf_chunks cf = fold (chunk_step blake3 sz) (enumerate 0 ds) (replicate n zero32)"
    "cf_chunk_size cf = sz" "cf_dirty cf = replicate n False"
    using assms(2) by (auto simp: cf_from_canonical_def Let_def n_def split: if_splits)
  show inv: "cf_inv cf" using F(1,2) cf sz by (simp add: cf_inv_def)
  show "cf_chunk_size cf = sz" by (rule cf)
  show "length (cf_chunks cf) = div_ceil (length ds) sz" using F(1) cf n by simp
  have l: "length (compute_fingerprint blake3 xs) = 32" for xs
    by (rule fold_xor_hash(2) [OF assms(1) length_zero32])
  show "store_fingerprint cf = compute_fingerprint blake3 ds"
    using F(4) cf(1) l by (simp add: store_fingerprint_xor [OF inv] fold_xor_zero)
  show "cf_chunks cf ! i = compute_fingerprint blake3 (chunk_datoms sz ds i)" if "i < length (cf_chunks cf)"
    using F(3) [of i] F(1) cf(1) l that by (simp add: chunk_datoms_def)
qed

section \<open>Properties of the positional store\<close>

text \<open>The fingerprint is a homomorphism. The two-word XOR equals the byte-wise XOR on machines of
  either byte order; the fingerprint does not depend on the order of the datoms, the fingerprint of a
  merge of disjoint arrays is the XOR of the fingerprints, and absorbing a datom twice cancels.\<close>

theorem fingerprint_homomorphism:
  assumes "hash32 blake3"
  shows "(\<forall>be fp h. length fp = 32 \<longrightarrow> length h = 32 \<longrightarrow> xor_hash_ne be fp h = map2 (XOR) fp h) \<and>
    (\<forall>ds es. mset ds = mset es \<longrightarrow> compute_fingerprint blake3 ds = compute_fingerprint blake3 es) \<and>
    (\<forall>a b. strict_sorted a \<longrightarrow> strict_sorted b \<longrightarrow> set a \<inter> set b = {} \<longrightarrow>
       compute_fingerprint blake3 (merge_sort_dedup a b) =
       map2 (XOR) (compute_fingerprint blake3 a) (compute_fingerprint blake3 b)) \<and>
    (\<forall>d ds. compute_fingerprint blake3 (d # d # ds) = compute_fingerprint blake3 ds)"
proof -
  have "compute_fingerprint blake3 (d # d # ds) = compute_fingerprint blake3 ds" for d ds
    using assms fold_xor_hash(2) [OF assms length_zero32, of ds]
    by (simp add: compute_fingerprint_simps flip: xor_bytes_assoc)
  then show ?thesis
    using compute_fingerprint_mset [OF assms] fingerprint_merge_disjoint [OF assms]
      xor_hash_ne_bytewise unfolding xor_bytes_def by blast
qed

theorem fingerprint_homomorphism_witness:
  "compute_fingerprint (\<lambda>bs. replicate 32 (of_nat (length bs))) [sample_datom (VLong 1), sample_datom (VBool True)] =
   compute_fingerprint (\<lambda>bs. replicate 32 (of_nat (length bs))) [sample_datom (VBool True), sample_datom (VLong 1)]"
proof -
  have "hash32 (\<lambda>bs. replicate 32 (of_nat (length bs)))" by (simp add: hash32_def)
  from fingerprint_homomorphism [OF this] show ?thesis by (simp add: add_mset_commute)
qed

text \<open>Merging positional stores is set union. The merged store again satisfies the invariant (its
  array is strictly sorted and its LIVE bits and fingerprint are the ones of the array), contains
  exactly the datoms of both, and merging is commutative, associative and idempotent.\<close>

theorem merge_positional_union:
  assumes "ps_inv blake3 a" "ps_inv blake3 b" "ps_inv blake3 c"
  shows "ps_inv blake3 (merge_positional blake3 a b) \<and>
    set (ps_canonical (merge_positional blake3 a b)) = set (ps_canonical a) \<union> set (ps_canonical b) \<and>
    merge_positional blake3 a b = merge_positional blake3 b a \<and>
    merge_positional blake3 (merge_positional blake3 a b) c =
      merge_positional blake3 a (merge_positional blake3 b c) \<and>
    merge_positional blake3 a a = a"
  using assms positional_join.join_comm positional_join.join_assoc positional_join.join_idem
  by simp

theorem merge_positional_union_witness:
  "merge_positional id (ps_from_datoms id [sample_datom (VLong 1)]) (ps_from_datoms id [sample_datom (VBool True)]) =
   merge_positional id (ps_from_datoms id [sample_datom (VBool True)]) (ps_from_datoms id [sample_datom (VLong 1)])"
  using merge_positional_union [OF ps_inv_simps(1) ps_inv_simps(1) ps_inv_simps(1)] by blast

lemma live_bits_iff:
  assumes "ps_inv blake3 s" "ps_len s \<le> u32_max"
  shows "p \<in> set (ps_live_bits s) \<longleftrightarrow>
    p < ps_len s \<and> d_op (ps_canonical s ! p) = Assert \<and> latest (set (ps_canonical s)) (ps_canonical s ! p)"
  using live_roaring_latest [of "ps_canonical s" p] assms ps_inv_live [OF assms(1)] by (simp add: ps_inv_def ps_len_def)

lemma live_datoms_map:
  assumes "ps_inv blake3 s" "ps_len s \<le> u32_max"
  shows "live_datoms s = map (\<lambda>p. ps_canonical s ! p) (ps_live_bits s)"
  unfolding live_datoms_def datom_at_def [abs_def]
  by (rule map_filter_total) (use live_bits_iff [OF assms] in \<open>simp add: ps_len_def\<close>)

lemma live_datoms_set:
  assumes "ps_inv blake3 s" "ps_len s \<le> u32_max"
  shows "set (live_datoms s) = {d. d_op d = Assert \<and> latest (set (ps_canonical s)) d}"
proof -
  note live = live_bits_iff [OF assms]
  have "d \<in> set (live_datoms s) \<longleftrightarrow> d_op d = Assert \<and> latest (set (ps_canonical s)) d" for d
  proof
    assume "d_op d = Assert \<and> latest (set (ps_canonical s)) d"
    moreover from this obtain p where "p < length (ps_canonical s)" "ps_canonical s ! p = d"
      by (auto simp: latest_def in_set_conv_nth)
    ultimately show "d \<in> set (live_datoms s)"
      unfolding live_datoms_map [OF assms] using live [of p] by (auto simp: ps_len_def)
  qed (use live in \<open>auto simp: live_datoms_map [OF assms]\<close>)
  then show ?thesis by blast
qed

lemma length_sort_dedup: "length (sort_dedup xs) \<le> length (xs :: 'a::linorder list)"
  using card_length [of xs] strict_sorted_distinct [OF strict_sorted_sort_dedup, of xs]
  by (metis distinct_card set_sort_dedup)

lemma live_datoms_from_datoms:
  assumes "length ds \<le> u32_max"
  shows "set (live_datoms (ps_from_datoms blake3 ds)) = {d. d_op d = Assert \<and> latest (set ds) d}"
  using live_datoms_set [OF ps_inv_simps(1), of blake3 ds] length_sort_dedup [of ds] assms
  by (simp add: ps_len_def)

text \<open>C33 The LIVE view is the latest assertion of every triple. A position is live exactly when its
  datom asserts and no datom about the same entity, attribute and value has a later transaction (at
  equal transactions a retraction is later than an assertion); \<open>live_datoms\<close> yields exactly these
  datoms, in canonical order.\<close>

theorem live_view_latest:
  assumes "ps_inv blake3 s" "ps_len s \<le> u32_max"
  shows "(\<forall>p. is_live s p \<longleftrightarrow>
      p < ps_len s \<and> d_op (ps_canonical s ! p) = Assert \<and> latest (set (ps_canonical s)) (ps_canonical s ! p)) \<and>
    set (live_datoms s) = {d. d_op d = Assert \<and> latest (set (ps_canonical s)) d} \<and>
    strict_sorted (live_datoms s)"
proof -
  have ss: "strict_sorted (ps_canonical s)" using assms(1) by (simp add: ps_inv_def)
  have "strict_sorted (live_datoms s)"
    unfolding live_datoms_map [OF assms] sorted_wrt_map
    using sorted_wrt_mono_rel [OF _ strict_sorted_build_live_roaring [of "ps_canonical s"],
        of "\<lambda>p q. ps_canonical s ! p < ps_canonical s ! q"] live_bits_iff [OF assms] ss ps_inv_live [OF assms(1)]
    by (auto simp: ps_len_def intro: sorted_wrt_nth_less)
  then show ?thesis using live_bits_iff [OF assms] live_datoms_set [OF assms] by (auto simp: is_live_def)
qed

theorem live_view_latest_witness:
  "set (live_datoms (ps_from_datoms id [Datom (EntityId [1]) (Attribute ''a'') (VLong 1) (with_node 1 0 zero_node) Assert,
      Datom (EntityId [1]) (Attribute ''a'') (VLong 1) (with_node 2 0 zero_node) Retract,
      Datom (EntityId [1]) (Attribute ''a'') (VLong 2) (with_node 1 0 zero_node) Assert])) =
   {Datom (EntityId [1]) (Attribute ''a'') (VLong 2) (with_node 1 0 zero_node) Assert}"
proof -
  let ?d1 = "Datom (EntityId [1]) (Attribute ''a'') (VLong 1) (with_node 1 0 zero_node) Assert"
  let ?d2 = "Datom (EntityId [1]) (Attribute ''a'') (VLong 1) (with_node 2 0 zero_node) Retract"
  let ?d3 = "Datom (EntityId [1]) (Attribute ''a'') (VLong 2) (with_node 1 0 zero_node) Assert"
  let ?s = "ps_from_datoms id [?d1, ?d2, ?d3]"
  from length_sort_dedup [of "[?d1, ?d2, ?d3]"] have "ps_len ?s \<le> u32_max" by (simp add: ps_len_def u32_max_def)
  from live_view_latest [OF ps_inv_simps(1) this]
  have "set (live_datoms ?s) = {d. d_op d = Assert \<and> latest {?d1, ?d2, ?d3} d}" by simp
  moreover have "latest {?d1, ?d2, ?d3} ?d3" by (simp add: latest_def eav_def)
  moreover have "\<not> latest {?d1, ?d2, ?d3} ?d1"
  proof -
    have "with_node 1 0 zero_node < with_node 2 0 zero_node"
      by (simp add: with_node_def txid_less_key txid_key_def)
    then show ?thesis by (auto simp: latest_def eav_def not_le not_less less_imp_le)
  qed
  moreover have "d \<in> {?d1, ?d2, ?d3}" if "latest {?d1, ?d2, ?d3} d" for d
    using that unfolding latest_def by blast
  ultimately show ?thesis by force
qed

lemma from_sorted_with_live_restore:
  assumes "ps_inv blake3 s" "ps_len s \<le> u32_max"
  shows "from_sorted_with_live blake3 (ps_canonical s) (live_bits_clone s) = Inr s"
proof -
  have "set (iter_ones (live_bits_clone s)) = set (ps_live_bits s)"
    using live_bits_clone_nth [of _ s] live_positions_bounded [OF assms]
    by (auto simp: iter_ones_def is_live_def)
  moreover have "strict_sorted (iter_ones (live_bits_clone s))"
    unfolding iter_ones_def by (rule sorted_wrt_filter) (simp add: strict_sorted_iff)
  ultimately have "iter_ones (live_bits_clone s) = ps_live_bits s"
    using assms(1) by (intro strict_sorted_set_unique) (simp_all add: ps_inv_live)
  moreover have "strict_sorted (ps_live_bits s)" "\<forall>p \<in> set (ps_live_bits s). p \<le> u32_max"
    using assms live_positions_bounded [OF assms] by (auto simp: ps_inv_live)
  ultimately show ?thesis
    using assms by (simp add: from_sorted_with_live_def windows_lt_iff ps_inv_def ps_len_def
        map_filter_try_from fold_os_insert_strict try_from_usize_def flip: ps_inv_fingerprint)
qed

lemma build_live_bitvector_clone: "build_live_bitvector_pub ds = live_bits_clone (from_sorted_canonical blake3 ds)"
  by (rule nth_equalityI)
     (simp_all add: build_live_bitvector_pub_def live_bits_clone_def nth_fold_set_bits from_sorted_canonical_def
       build_live_roaring_def)

text \<open>Zero-construction cold start. The constructor that takes a stored array and a stored LIVE bit
  vector rejects exactly the inputs whose lengths differ, whose array is not strictly sorted or whose
  positions do not fit 32 bits; given the array and bit vector of a store it rebuilds that store.\<close>

theorem from_sorted_with_live_roundtrip:
  assumes "ps_inv blake3 s" "ps_len s \<le> u32_max"
  shows "from_sorted_with_live blake3 (ps_canonical s) (live_bits_clone s) = Inr s \<and>
    (\<forall>ds bits. isl (from_sorted_with_live blake3 ds bits) \<longleftrightarrow>
       length bits \<noteq> length ds \<or> \<not> strict_sorted ds \<or> u32_max < length ds)"
  using from_sorted_with_live_restore [OF assms]
  by (auto simp: from_sorted_with_live_def windows_lt_iff try_from_usize_def)

theorem from_sorted_with_live_roundtrip_witness:
  "from_sorted_with_live id (ps_canonical (ps_from_datoms id [])) (live_bits_clone (ps_from_datoms id [])) =
   Inr (ps_from_datoms id [])"
proof -
  have "ps_len (ps_from_datoms id []) \<le> u32_max" by (simp add: ps_len_def sort_dedup_def)
  from from_sorted_with_live_roundtrip [OF ps_inv_simps(1) this] show ?thesis by blast
qed

text \<open>Chunk fingerprints decompose the store fingerprint. Chunk \<open>i\<close> is the fingerprint of the datoms
  at positions \<open>[i*C, (i+1)*C)\<close>, the XOR of all chunks is the fingerprint of the array, inserting a hash
  changes the store fingerprint by just that hash, and \<open>diff_chunks\<close> lists exactly the chunks in which
  two arrays differ by fingerprint.\<close>

theorem chunk_decomposition:
  assumes "hash32 blake3" "cf_from_canonical blake3 ds sz = Some cf" "cf_from_canonical blake3 es sz = Some cg"
  shows "store_fingerprint cf = compute_fingerprint blake3 ds \<and>
    (\<forall>i < div_ceil (length ds) sz. cf_chunks cf ! i = compute_fingerprint blake3 (chunk_datoms sz ds i)) \<and>
    (\<forall>p h. length h = 32 \<longrightarrow>
       store_fingerprint (insert_hash p h cf) = xor_hash_into (store_fingerprint cf) h) \<and>
    (\<forall>i. i \<in> set (diff_chunks cf cg) \<longleftrightarrow>
       compute_fingerprint blake3 (chunk_datoms sz ds i) \<noteq> compute_fingerprint blake3 (chunk_datoms sz es i))"
proof -
  note F = cf_from_canonical_spec [OF assms(1,2)] and G = cf_from_canonical_spec [OF assms(1,3)]
  have l: "length (compute_fingerprint blake3 xs) = 32" for xs
    by (rule fold_xor_hash(2) [OF assms(1) length_zero32])
  have sz: "0 < sz" using assms(2) by (auto simp: cf_from_canonical_def split: if_splits)
  have out: "chunk_datoms sz xs i = []" if "div_ceil (length xs) sz \<le> i" for xs i
    using that div_ceil_bound [OF sz, of _ "length xs"]
    by (force simp: chunk_datoms_def filter_empty_conv in_set_enumerate_eq)
  have at: "chunk_at cf i = compute_fingerprint blake3 (chunk_datoms sz ds i)"
    "chunk_at cg i = compute_fingerprint blake3 (chunk_datoms sz es i)" for i
    using F(4,5) G(4,5) out by (simp_all add: chunk_at_def compute_fingerprint_simps(1) [OF assms(1)])
  have "i \<in> set (diff_chunks cf cg) \<longleftrightarrow> chunk_at cf i \<noteq> chunk_at cg i" for i
    by (auto simp: diff_chunks_def chunk_at_def)
  then show ?thesis using F insert_hash_spec [OF F(1)] l at by simp
qed

theorem chunk_decomposition_witness:
  "\<exists>cf. cf_from_canonical (\<lambda>bs. replicate 32 7) [sample_datom (VLong 1)] 2 = Some cf \<and>
     store_fingerprint cf = compute_fingerprint (\<lambda>bs. replicate 32 7) [sample_datom (VLong 1)]"
proof -
  have h: "hash32 (\<lambda>bs. replicate 32 7)" by (simp add: hash32_def)
  have "\<exists>cf. cf_from_canonical (\<lambda>bs. replicate 32 7) [sample_datom (VLong 1)] 2 = Some cf"
    by (simp add: cf_from_canonical_def is_power_of_two_def Let_def)
  then obtain cf where "cf_from_canonical (\<lambda>bs. replicate 32 7) [sample_datom (VLong 1)] 2 = Some cf" ..
  with chunk_decomposition [OF h this this] show ?thesis by blast
qed

end
