(* ===== verification/Search.thy ===== *)
theory Search
  imports Positional
begin

text \<open>
  Lookups of the positional store (crate \<open>ferratomic-positional\<close>): interpolation search and the entity
  lookups (\<open>search.rs\<close>), permutation arrays in Eytzinger layout with their search (\<open>perm.rs\<close>,
  \<open>perm_accessors.rs\<close>), the entity Bloom filter (\<open>bloom.rs\<close>) and the run-length encoded entity column
  (\<open>entity_rle.rs\<close>).

  \<open>usize\<close> is 64 bits wide; where the code adds to a \<open>usize\<close> estimate the sum wraps as in a release
  build. Slices are indexed only within bounds on the inputs of the lemmas.
\<close>

section \<open>Interpolation search (search.rs)\<close>

definition be_u64 :: "bytes \<Rightarrow> u64" where
  "be_u64 bs = from_le_bytes (rev (take 8 bs))"

definition entity_u64 :: "datom \<Rightarrow> u64" where
  "entity_u64 d = be_u64 (entity_bytes (d_entity d))"

definition entity_key_u64 :: "eavt_key \<Rightarrow> u64" where
  "entity_key_u64 key = be_u64 (entity_bytes (fst key))"

definition clamp :: "nat \<Rightarrow> nat \<Rightarrow> nat \<Rightarrow> nat" where
  "clamp lo hi x = (if x < lo then lo else if hi < x then hi else x)"

definition interp_pos :: "datom list \<Rightarrow> eavt_key \<Rightarrow> nat \<Rightarrow> nat \<Rightarrow> nat" where
  "interp_pos canonical key lo hi =
     (let lo_val = entity_u64 (canonical ! lo); hi_val = entity_u64 (canonical ! hi);
          key_val = entity_key_u64 key
      in if hi_val = lo_val then lo + (hi - lo) div 2
         else (let numerator = (unat key_val - unat lo_val) * (hi - lo);
                   denominator = unat (hi_val - lo_val);
                   ratio = numerator div denominator;
                   estimate = (lo + (case try_from_usize u64_max ratio of Some r \<Rightarrow> r | None \<Rightarrow> hi)) mod 2 ^ 64
               in clamp lo hi estimate))"

lemma interp_pos_range: "lo \<le> hi \<Longrightarrow> lo \<le> interp_pos canonical key lo hi \<and> interp_pos canonical key lo hi \<le> hi"
  by (auto simp: interp_pos_def clamp_def Let_def)

function interp_loop :: "datom list \<Rightarrow> eavt_key \<Rightarrow> nat \<Rightarrow> nat \<Rightarrow> datom option" where
  "interp_loop canonical key lo hi =
     (if lo \<le> hi then
        (let pos = interp_pos canonical key lo hi
         in (case reverse_ordering (eavt_cmp_datom key (canonical ! pos)) of
               Equal \<Rightarrow> Some (canonical ! pos)
             | Less \<Rightarrow> interp_loop canonical key (pos + 1) hi
             | Greater \<Rightarrow> if pos = 0 then None else interp_loop canonical key lo (pos - 1)))
      else None)"
  by pat_completeness auto
termination
proof (relation "measure (\<lambda>(_, _, lo, hi). hi + 1 - lo)", goal_cases)
  case (2 canonical key lo hi pos)
  then have "lo \<le> pos" "pos \<le> hi" using interp_pos_range [of lo hi canonical key] by auto
  then show ?case by simp
next
  case (3 canonical key lo hi pos)
  then have "lo \<le> pos" "pos \<le> hi" "pos \<noteq> 0" using interp_pos_range [of lo hi canonical key] by auto
  then show ?case by simp
qed simp

declare interp_loop.simps [simp del]

definition interpolation_search :: "datom list \<Rightarrow> eavt_key \<Rightarrow> datom option" where
  "interpolation_search canonical key =
     (if canonical = [] then None else interp_loop canonical key 0 (length canonical - 1))"

text \<open>The loop keeps every datom below \<open>lo\<close> before the key and every datom above \<open>hi\<close> after it.\<close>

lemma interp_loop_spec:
  assumes "strict_sorted ds" "hi < length ds"
    and "\<forall>i < lo. datom_key (ds ! i) < key" "\<forall>i. hi < i \<longrightarrow> i < length ds \<longrightarrow> key < datom_key (ds ! i)"
  shows "interp_loop ds key lo hi = Some d \<longleftrightarrow> d \<in> set ds \<and> datom_key d = key"
  using assms
proof (induction ds key lo hi rule: interp_loop.induct)
  case (1 ds key lo hi)
  have mono: "datom_key (ds ! i) < datom_key (ds ! j)" if "i < j" "j < length ds" for i j
    using sorted_wrt_nth_less [OF "1.prems"(1)] that by (simp add: less_datom_def)
  show ?case
  proof (cases "lo \<le> hi")
    case False
    have "datom_key (ds ! i) \<noteq> key" if "i < length ds" for i
    proof (cases "i < lo")
      case True
      then show ?thesis using "1.prems"(3) by (metis less_irrefl)
    next
      case ge: False
      with False have "hi < i" by simp
      then show ?thesis using "1.prems"(4) that by (metis less_irrefl)
    qed
    then show ?thesis using False by (subst interp_loop.simps) (auto simp: in_set_conv_nth)
  next
    case True
    define pos where "pos = interp_pos ds key lo hi"
    have pos: "lo \<le> pos" "pos \<le> hi" "pos < length ds"
      using interp_pos_range [OF True, of ds key] "1.prems"(2) by (auto simp: pos_def)
    have unf: "interp_loop ds key lo hi =
        (case cmp (datom_key (ds ! pos)) key of
           Equal \<Rightarrow> Some (ds ! pos) | Less \<Rightarrow> interp_loop ds key (pos + 1) hi
         | Greater \<Rightarrow> if pos = 0 then None else interp_loop ds key lo (pos - 1))"
      using True by (subst interp_loop.simps) (simp add: Let_def pos_def cmp_datom_key eavt_from_datom_key)
    have o: "reverse_ordering (eavt_cmp_datom key (ds ! pos)) = cmp (datom_key (ds ! pos)) key"
      by (simp add: cmp_datom_key eavt_from_datom_key)
    show ?thesis
    proof (cases "cmp (datom_key (ds ! pos)) key")
      case Less
      then have "\<forall>i < pos + 1. datom_key (ds ! i) < key"
        using mono pos by (metis Suc_eq_plus1 cmp_Less less_antisym less_trans)
      with "1.IH"(1) [OF True pos_def] Less o "1.prems" unf show ?thesis by simp
    next
      case Equal
      then have "d = ds ! pos" if "datom_key d = key"
        using that by (metis cmp_Equal datom_key_inject)
      with Equal unf pos show ?thesis by auto
    next
      case Greater
      then have gt: "key < datom_key (ds ! i)" if "pos \<le> i" "i < length ds" for i
        using mono that by (metis cmp_Greater le_neq_implies_less less_trans)
      show ?thesis
      proof (cases "pos = 0")
        case True
        with gt unf Greater show ?thesis by (force simp: in_set_conv_nth)
      next
        case False
        have g: "key < datom_key (ds ! pos)" using Greater by simp
        then have e: "interp_loop ds key lo hi = interp_loop ds key lo (pos - 1)"
          using False by (auto simp: unf dest: less_asym)
        have "\<forall>i. pos - 1 < i \<longrightarrow> i < length ds \<longrightarrow> key < datom_key (ds ! i)"
          using gt False by auto
        with "1.IH"(2) [OF True pos_def _ False] Greater o "1.prems" pos show ?thesis unfolding e by simp
      qed
    qed
  qed
qed

lemma interpolation_search_spec:
  assumes "strict_sorted ds"
  shows "interpolation_search ds key = Some d \<longleftrightarrow> d \<in> set ds \<and> eavt_from_datom d = key"
proof (cases "ds = []")
  case False
  then show ?thesis
    using interp_loop_spec [OF assms, of "length ds - 1" 0 key d]
    by (simp add: interpolation_search_def eavt_from_datom_key) linarith
qed (simp add: interpolation_search_def)

section \<open>Entity positions (search.rs)\<close>

fun unique_loop :: "nat \<Rightarrow> entity_id option \<Rightarrow> datom list \<Rightarrow> (entity_id \<times> nat) list" where
  "unique_loop i prev [] = []"
| "unique_loop i prev (d # ds) =
     (if prev \<noteq> Some (d_entity d)
      then (d_entity d, sat_usize u32_max i) # unique_loop (i + 1) (Some (d_entity d)) ds
      else unique_loop (i + 1) prev ds)"

definition unique_entities_with_positions :: "positional_store \<Rightarrow> entity_id list \<times> nat list" where
  "unique_entities_with_positions s =
     (let ps = unique_loop 0 None (ps_canonical s) in (map fst ps, map snd ps))"

definition unique_entity_ids :: "positional_store \<Rightarrow> entity_id list" where
  "unique_entity_ids s = fst (unique_entities_with_positions s)"

definition first_datom_position_for_entity :: "positional_store \<Rightarrow> entity_id \<Rightarrow> nat option" where
  "first_datom_position_for_entity s eid =
     (let pos = partition_point (\<lambda>d. d_entity d < eid) (ps_canonical s)
      in if pos < length (ps_canonical s) \<and> d_entity (ps_canonical s ! pos) = eid
         then try_from_usize u32_max pos else None)"

lemma entity_mono: "a \<le> b \<Longrightarrow> d_entity a \<le> d_entity b"
  by (auto simp: less_eq_datom_def datom_key_def less_eq_prod_simp intro: less_imp_le)

lemma set_unique_loop:
  "fst ` set (unique_loop i prev ds) \<subseteq> d_entity ` set ds \<and>
     d_entity ` set ds \<subseteq> fst ` set (unique_loop i prev ds) \<union> set_option prev"
  by (induction i prev ds rule: unique_loop.induct) auto

lemma set_unique_entity_ids: "set (unique_entity_ids s) = d_entity ` set (ps_canonical s)"
  using set_unique_loop [of 0 None "ps_canonical s"]
  by (auto simp: unique_entity_ids_def unique_entities_with_positions_def Let_def)

lemma first_datom_position_spec:
  assumes "strict_sorted (ps_canonical s)" "ps_len s \<le> u32_max"
  shows "first_datom_position_for_entity s eid = Some p \<longleftrightarrow>
    p < ps_len s \<and> d_entity (ps_canonical s ! p) = eid \<and> (\<forall>q < p. d_entity (ps_canonical s ! q) \<noteq> eid)"
proof -
  let ?ds = "ps_canonical s"
  define pos where "pos = partition_point (\<lambda>d. d_entity d < eid) ?ds"
  have mono: "d_entity (?ds ! i) \<le> d_entity (?ds ! j)" if "i \<le> j" "j < length ?ds" for i j
    using strict_sorted_sorted [OF assms(1)] that by (intro entity_mono sorted_nth_mono)
  have part: "partitioned (\<lambda>d. d_entity d < eid) ?ds"
    unfolding partitioned_def using mono by (meson le_less_trans)
  note iff = partition_point_iff [OF part, folded pos_def]
  have "p = pos" if "p < length ?ds" "d_entity (?ds ! p) = eid" "\<forall>q < p. d_entity (?ds ! q) \<noteq> eid" for p
  proof (rule antisym)
    show "pos \<le> p" using iff [OF that(1)] that(2) by simp
    show "p \<le> pos"
    proof (rule ccontr)
      assume "\<not> p \<le> pos"
      then have "\<not> d_entity (?ds ! pos) < eid" "d_entity (?ds ! pos) \<le> eid" "pos < p"
        using iff [of pos] mono [of pos p] that by auto
      with that(3) show False by auto
    qed
  qed
  moreover have "\<forall>q < pos. d_entity (?ds ! q) \<noteq> eid" if "pos < length ?ds"
    using iff that by (metis less_irrefl less_trans)
  moreover have "first_datom_position_for_entity s eid =
      (if pos < length ?ds \<and> d_entity (?ds ! pos) = eid then Some pos else None)"
    using assms(2) by (simp add: first_datom_position_for_entity_def Let_def ps_len_def flip: pos_def)
  ultimately show ?thesis unfolding ps_len_def by (metis option.distinct(1) option.inject)
qed

section \<open>Permutations in Eytzinger layout (perm.rs)\<close>

text \<open>\<open>sort_unstable_by\<close> may permute positions with equal keys; the keys of distinct datoms differ, so
  the result is the one of the stable sort.\<close>

definition build_permutation :: "datom list \<Rightarrow> (datom \<Rightarrow> 'k::linorder) \<Rightarrow> nat list" where
  "build_permutation canonical key_fn =
     sort_key (\<lambda>p. key_fn (canonical ! p)) (map (sat_usize u32_max) [0..<length canonical])"

text \<open>The recursions walk the implicit tree from node 1; node 0, which the code never passes, has no
  subtree here.\<close>

function fill_bfs :: "nat list \<Rightarrow> nat \<Rightarrow> nat \<Rightarrow> nat list \<times> nat \<Rightarrow> nat list \<times> nat" where
  "fill_bfs srt len node st =
     (if node = 0 \<or> len \<le> node then st
      else (let (bfs, src) = fill_bfs srt len (2 * node) st;
                st' = (if src < length srt then (bfs[node := srt ! src], src + 1) else (bfs, src))
            in fill_bfs srt len (2 * node + 1) st'))"
  by pat_completeness auto
termination by (relation "measure (\<lambda>(_, len, node, _). len - node)") auto

declare fill_bfs.simps [simp del]

definition layout_permutation :: "nat list \<Rightarrow> nat list" where
  "layout_permutation srt =
     (let n = length srt in fst (fill_bfs srt (n + 1) 1 (replicate (n + 1) u32_max, 0)))"

function layout_loop :: "nat list \<Rightarrow> datom list \<Rightarrow> (datom \<Rightarrow> ordering) \<Rightarrow> nat \<Rightarrow> datom option" where
  "layout_loop bfs canonical cmp_fn node =
     (if node = 0 \<or> length bfs - 1 < node then None
      else (let pos = bfs ! node
            in (case cmp_fn (canonical ! pos) of
                  Equal \<Rightarrow> Some (canonical ! pos)
                | Less \<Rightarrow> layout_loop bfs canonical cmp_fn (2 * node + 1)
                | Greater \<Rightarrow> layout_loop bfs canonical cmp_fn (node * 2))))"
  by pat_completeness auto
termination by (relation "measure (\<lambda>(bfs, _, _, node). length bfs - node)") auto

declare layout_loop.simps [simp del]

definition layout_search :: "nat list \<Rightarrow> datom list \<Rightarrow> (datom \<Rightarrow> ordering) \<Rightarrow> datom option" where
  "layout_search bfs canonical cmp_fn =
     (if length bfs - 1 = 0 then None else layout_loop bfs canonical cmp_fn 1)"

function inorder_collect :: "nat list \<Rightarrow> nat \<Rightarrow> nat list" where
  "inorder_collect bfs node =
     (if node = 0 \<or> length bfs \<le> node then []
      else inorder_collect bfs (2 * node) @ [bfs ! node] @ inorder_collect bfs (2 * node + 1))"
  by pat_completeness auto
termination by (relation "measure (\<lambda>(bfs, node). length bfs - node)") auto

declare inorder_collect.simps [simp del]

definition layout_to_sorted :: "nat list \<Rightarrow> nat list" where
  "layout_to_sorted bfs = inorder_collect bfs 1"

subsection \<open>The in-order walk of the implicit tree\<close>

function inorder_nodes :: "nat \<Rightarrow> nat \<Rightarrow> nat list" where
  "inorder_nodes len node =
     (if node = 0 \<or> len \<le> node then []
      else inorder_nodes len (2 * node) @ [node] @ inorder_nodes len (2 * node + 1))"
  by pat_completeness auto
termination by (relation "measure (\<lambda>(len, node). len - node)") auto

declare inorder_nodes.simps [simp del]

lemma inorder_collect_nodes: "inorder_collect bfs node = map ((!) bfs) (inorder_nodes (length bfs) node)"
proof (induction bfs node rule: inorder_collect.induct)
  case (1 bfs node)
  then show ?case
    by (subst inorder_collect.simps, subst inorder_nodes.simps) (simp del: One_nat_def)
qed

text \<open>The subtree of \<open>node\<close> holds the indices that halve down to it.\<close>

lemma div_pow_Suc: "(k::nat) div 2 ^ Suc i = k div 2 ^ i div 2"
  by (metis div_mult2_eq power_Suc2)

lemma set_inorder_nodes:
  "k \<in> set (inorder_nodes len node) \<longleftrightarrow> 0 < node \<and> k < len \<and> (\<exists>i. k div 2 ^ i = node)"
proof (induction len node rule: inorder_nodes.induct)
  case (1 len node)
  show ?case
  proof (cases "node = 0 \<or> len \<le> node")
    case True
    have "k div 2 ^ i \<le> k" for i by simp
    then have "k div 2 ^ i \<noteq> node" if "k < len" "len \<le> node" for i
      using that by (metis leD le_trans)
    with True show ?thesis by (subst inorder_nodes.simps) auto
  next
    case False
    have "(\<exists>i. k div 2 ^ i = node) \<longleftrightarrow>
        k = node \<or> (\<exists>i. k div 2 ^ i = 2 * node) \<or> (\<exists>i. k div 2 ^ i = 2 * node + 1)"
    proof
      assume "\<exists>i. k div 2 ^ i = node"
      then obtain i where i: "k div 2 ^ i = node" ..
      show "k = node \<or> (\<exists>i. k div 2 ^ i = 2 * node) \<or> (\<exists>i. k div 2 ^ i = 2 * node + 1)"
      proof (cases i)
        case (Suc j)
        then have "k div 2 ^ j div 2 = node" using i div_pow_Suc by simp
        then have "k div 2 ^ j = 2 * node \<or> k div 2 ^ j = 2 * node + 1" by linarith
        then show ?thesis by blast
      qed (use i in simp)
    next
      assume r: "k = node \<or> (\<exists>i. k div 2 ^ i = 2 * node) \<or> (\<exists>i. k div 2 ^ i = 2 * node + 1)"
      have "k div 2 ^ Suc i = node" if "k div 2 ^ i = 2 * node \<or> k div 2 ^ i = 2 * node + 1" for i
        unfolding div_pow_Suc using that by linarith
      with r show "\<exists>i. k div 2 ^ i = node" by (metis div_by_1 power_0)
    qed
    with 1 False show ?thesis by (subst inorder_nodes.simps) auto
  qed
qed

lemma div_pow_compare:
  assumes "k div 2 ^ i = a" "k div 2 ^ j = b" "0 < a" "0 < (b::nat)"
  shows "a = b \<or> 2 * a \<le> b \<or> 2 * b \<le> a"
proof -
  have "2 * (k div 2 ^ j') \<le> k div 2 ^ i'" if "i' < j'" for i' j'
  proof -
    from that obtain m where "j' = i' + Suc m" by (metis add_Suc_right less_iff_Suc_add)
    then have "k div 2 ^ j' = k div 2 ^ i' div 2 ^ Suc m" by (metis div_mult2_eq power_add)
    also have "\<dots> \<le> k div 2 ^ i' div 2" by (intro div_le_mono2) simp_all
    finally show ?thesis by linarith
  qed
  with assms show ?thesis by (metis linorder_neqE_nat)
qed

lemma distinct_inorder_nodes: "distinct (inorder_nodes len node)"
proof (induction len node rule: inorder_nodes.induct)
  case (1 len node)
  have "set (inorder_nodes len (2 * node)) \<inter> set (inorder_nodes len (2 * node + 1)) = {}"
    using div_pow_compare [of _ _ "2 * node" _ "2 * node + 1"] by (fastforce simp: set_inorder_nodes)
  moreover have "node \<notin> set (inorder_nodes len (2 * node))" "node \<notin> set (inorder_nodes len (2 * node + 1))"
    if "0 < node"
    using that by (auto simp: set_inorder_nodes) (metis div_le_dividend leD lessI less_add_same_cancel1 mult_2 trans_less_add1 less_SucI)+
  ultimately show ?case using 1 by (subst inorder_nodes.simps) auto
qed

lemma halves_to_one: "0 < (k::nat) \<Longrightarrow> \<exists>i. k div 2 ^ i = 1"
proof (induction k rule: less_induct)
  case (less k)
  show ?case
  proof (cases "k = 1")
    case True
    then show ?thesis by (intro exI [of _ 0]) simp
  next
    case False
    with less.prems have "k div 2 < k" "0 < k div 2" by auto
    from less.IH [OF this] obtain i where "k div 2 div 2 ^ i = 1" ..
    then have "k div 2 ^ Suc i = 1" by (simp add: div_mult2_eq)
    then show ?thesis by blast
  qed
qed

lemma set_inorder_nodes_root: "set (inorder_nodes (Suc n) 1) = {1..n}"
  using halves_to_one by (auto simp: set_inorder_nodes) (metis div_0 not_less_eq_eq not_one_le_zero zero_neq_one neq0_conv Suc_leI One_nat_def)

lemma length_inorder_nodes_root: "length (inorder_nodes (Suc n) 1) = n"
  using distinct_card [OF distinct_inorder_nodes, of "Suc n" 1] by (simp add: set_inorder_nodes_root del: One_nat_def)

subsection \<open>Filling and reading the layout\<close>

definition fill_step :: "nat list \<Rightarrow> nat \<Rightarrow> nat list \<times> nat \<Rightarrow> nat list \<times> nat" where
  "fill_step srt node = (\<lambda>(bfs, src). if src < length srt then (bfs[node := srt ! src], src + 1) else (bfs, src))"

lemma fill_step_apply:
  "fill_step srt node (bfs, src) = (if src < length srt then (bfs[node := srt ! src], src + 1) else (bfs, src))"
  by (simp add: fill_step_def)

lemma fill_bfs_fold: "fill_bfs srt len node st = fold (fill_step srt) (inorder_nodes len node) st"
proof (induction srt len node st rule: fill_bfs.induct)
  case (1 srt len node st)
  show ?case
  proof (cases "node = 0 \<or> len \<le> node")
    case True
    then show ?thesis by (subst fill_bfs.simps, subst inorder_nodes.simps) auto
  next
    case False
    obtain b1 s1 where f1: "fill_bfs srt len (2 * node) st = (b1, s1)" by fastforce
    have "fill_bfs srt len node st = fill_bfs srt len (2 * node + 1) (fill_step srt node (b1, s1))"
      using False by (subst fill_bfs.simps) (simp add: f1 fill_step_def)
    also have "\<dots> = fold (fill_step srt) (inorder_nodes len (2 * node + 1)) (fill_step srt node (b1, s1))"
      using "1.IH"(2) [OF False f1 [symmetric] refl] by (simp add: fill_step_apply)
    finally show ?thesis using False f1 "1.IH"(1) [OF False]
      by (subst inorder_nodes.simps) simp
  qed
qed

lemma fold_fill_step:
  assumes "distinct ks" "\<forall>k \<in> set ks. k < length bfs" "s + length ks \<le> length srt"
  shows "length (fst (fold (fill_step srt) ks (bfs, s))) = length bfs"
    and "map ((!) (fst (fold (fill_step srt) ks (bfs, s)))) ks = take (length ks) (drop s srt)"
proof -
  have "length (fst (fold (fill_step srt) ks (bfs, s))) = length bfs \<and>
    map ((!) (fst (fold (fill_step srt) ks (bfs, s)))) ks = take (length ks) (drop s srt) \<and>
    (\<forall>j. j \<notin> set ks \<longrightarrow> fst (fold (fill_step srt) ks (bfs, s)) ! j = bfs ! j)"
    using assms
  proof (induction ks arbitrary: bfs s)
    case (Cons k ks)
    have st: "fill_step srt k (bfs, s) = (bfs[k := srt ! s], s + 1)" using Cons.prems(3) by (simp add: fill_step_def)
    have "take (Suc (length ks)) (drop s srt) = srt ! s # take (length ks) (drop (s + 1) srt)"
      using Cons.prems(3) by (metis Cons_nth_drop_Suc Suc_eq_plus1 Suc_le_lessD add_Suc_right le_add1 le_trans
          length_Cons less_le_trans not_less_eq_eq take_Suc_Cons trans_le_add1 less_add_Suc1)
    with Cons.IH [of "bfs[k := srt ! s]" "s + 1"] Cons.prems st show ?case by simp
  qed simp
  then show "length (fst (fold (fill_step srt) ks (bfs, s))) = length bfs"
    "map ((!) (fst (fold (fill_step srt) ks (bfs, s)))) ks = take (length ks) (drop s srt)" by blast+
qed

lemma layout_permutation_spec:
  "length (layout_permutation srt) = Suc (length srt)"
  "map ((!) (layout_permutation srt)) (inorder_nodes (Suc (length srt)) 1) = srt"
proof -
  let ?n = "length srt"
  note F = fold_fill_step [OF distinct_inorder_nodes, of "Suc ?n" 1 "replicate (Suc ?n) u32_max" 0 srt]
  have "layout_permutation srt = fst (fold (fill_step srt) (inorder_nodes (Suc ?n) 1) (replicate (Suc ?n) u32_max, 0))"
    by (simp only: layout_permutation_def Let_def fill_bfs_fold Suc_eq_plus1)
  with F show "length (layout_permutation srt) = Suc ?n"
    "map ((!) (layout_permutation srt)) (inorder_nodes (Suc ?n) 1) = srt"
    by (simp_all add: set_inorder_nodes_root length_inorder_nodes_root del: One_nat_def replicate.simps)
qed

lemma layout_roundtrip: "layout_to_sorted (layout_permutation srt) = srt"
  using layout_permutation_spec [of srt] by (simp add: layout_to_sorted_def inorder_collect_nodes)

text \<open>Descending the tree is a search of the in-order sequence.\<close>

lemma layout_loop_spec:
  fixes key :: "datom \<Rightarrow> 'k::linorder"
  assumes "strict_sorted (map (\<lambda>j. key (ds ! (bfs ! j))) (inorder_nodes (length bfs) node))" "0 < node"
  shows "layout_loop bfs ds (\<lambda>d. cmp (key d) k) node = Some d \<longleftrightarrow>
    (\<exists>j \<in> set (inorder_nodes (length bfs) node). d = ds ! (bfs ! j) \<and> key d = k)"
  using assms
proof (induction "length bfs" node rule: inorder_nodes.induct)
  case (1 node)
  show ?case
  proof (cases "length bfs \<le> node")
    case True
    then show ?thesis by (subst layout_loop.simps, subst inorder_nodes.simps) auto
  next
    case False
    let ?L = "inorder_nodes (length bfs) (2 * node)" and ?R = "inorder_nodes (length bfs) (2 * node + 1)"
    let ?g = "\<lambda>j. key (ds ! (bfs ! j))"
    have nodes: "inorder_nodes (length bfs) node = ?L @ [node] @ ?R"
      using False 1 by (subst inorder_nodes.simps) simp
    have srt: "strict_sorted (map ?g ?L)" "strict_sorted (map ?g ?R)"
      "\<forall>j \<in> set ?L. ?g j < ?g node" "\<forall>j \<in> set ?R. ?g node < ?g j"
      using "1.prems"(1) unfolding nodes by (auto simp: sorted_wrt_append)
    have unf: "layout_loop bfs ds (\<lambda>d. cmp (key d) k) node =
        (case cmp (?g node) k of Equal \<Rightarrow> Some (ds ! (bfs ! node))
         | Less \<Rightarrow> layout_loop bfs ds (\<lambda>d. cmp (key d) k) (2 * node + 1)
         | Greater \<Rightarrow> layout_loop bfs ds (\<lambda>d. cmp (key d) k) (2 * node))"
    proof -
      have "\<not> (node = 0 \<or> length bfs - 1 < node)" using False "1.prems"(2) by linarith
      then show ?thesis by (subst layout_loop.simps) (simp add: Let_def mult.commute)
    qed
    have nz: "\<not> (node = 0 \<or> length bfs \<le> node)" using False "1.prems"(2) by simp
    have split: "(\<exists>j \<in> set (inorder_nodes (length bfs) node). d = ds ! (bfs ! j) \<and> key d = k) \<longleftrightarrow>
        (\<exists>j \<in> set ?L. d = ds ! (bfs ! j) \<and> key d = k) \<or> d = ds ! (bfs ! node) \<and> key d = k \<or>
        (\<exists>j \<in> set ?R. d = ds ! (bfs ! j) \<and> key d = k)"
      unfolding nodes by auto
    have left: "\<not> (\<exists>j \<in> set ?L. d = ds ! (bfs ! j) \<and> key d = k)" if "?g node \<le> k"
      using srt(3) that by (metis leD)
    have right: "\<not> (\<exists>j \<in> set ?R. d = ds ! (bfs ! j) \<and> key d = k)" if "k \<le> ?g node"
      using srt(4) that by (metis leD)
    consider "?g node < k" | "?g node = k" | "k < ?g node" by (meson linorder_cases)
    then show ?thesis
    proof cases
      case 1
      then have "layout_loop bfs ds (\<lambda>d. cmp (key d) k) node = layout_loop bfs ds (\<lambda>d. cmp (key d) k) (2 * node + 1)"
        by (simp add: unf)
      with "1.hyps"(2) [OF nz srt(2)] left [OF less_imp_le [OF 1]] 1 show ?thesis unfolding split by auto
    next
      case 2
      with unf left [OF eq_refl [OF 2]] right [OF eq_refl [OF 2 [symmetric]]] show ?thesis unfolding split by auto
    next
      case 3
      then have "layout_loop bfs ds (\<lambda>d. cmp (key d) k) node = layout_loop bfs ds (\<lambda>d. cmp (key d) k) (2 * node)"
        by (auto simp: unf dest: less_asym)
      with "1.hyps"(1) [OF nz srt(1)] "1.prems"(2) right [OF less_imp_le [OF 3]] 3 show ?thesis unfolding split by auto
    qed
  qed
qed

text \<open>Lookup through a permutation of the canonical array.\<close>

lemma permutation_search:
  fixes key :: "datom \<Rightarrow> 'k::linorder"
  assumes "strict_sorted ds" "length ds \<le> u32_max" "inj key"
  shows "layout_search (layout_permutation (build_permutation ds key)) ds (\<lambda>d. cmp (key d) k) = Some d \<longleftrightarrow>
    d \<in> set ds \<and> key d = k"
proof -
  define perm where "perm = build_permutation ds key"
  have idx: "map (sat_usize u32_max) [0..<length ds] = [0..<length ds]"
    using assms(2) by (intro map_idI) simp
  have perm: "set perm = {0..<length ds}" "length perm = length ds" "distinct perm"
    "sorted (map (\<lambda>p. key (ds ! p)) perm)"
    by (simp_all add: perm_def build_permutation_def idx)
  have inj: "inj_on (\<lambda>p. key (ds ! p)) (set perm)"
    using strict_sorted_distinct [OF assms(1)] injD [OF assms(3)]
    unfolding inj_on_def perm(1) by (metis atLeastLessThan_iff nth_eq_iff_index_eq)
  with perm(3,4) have ss: "strict_sorted (map (\<lambda>p. key (ds ! p)) perm)"
    by (simp add: strict_sorted_iff distinct_map)
  define bfs where "bfs = layout_permutation perm"
  note bfs = layout_permutation_spec [of perm, folded bfs_def]
  have "map (\<lambda>j. key (ds ! (bfs ! j))) (inorder_nodes (length bfs) 1) = map (\<lambda>p. key (ds ! p)) perm"
    using bfs by (metis (mono_tags, lifting) map_map comp_apply map_eq_conv)
  with ss have ss': "strict_sorted (map (\<lambda>j. key (ds ! (bfs ! j))) (inorder_nodes (length bfs) 1))" by simp
  have im: "(!) bfs ` set (inorder_nodes (length bfs) 1) = set perm"
    using bfs by (metis list.set_map)
  have "layout_search bfs ds (\<lambda>d. cmp (key d) k) = layout_loop bfs ds (\<lambda>d. cmp (key d) k) 1"
    using bfs(1) perm(2) by (simp add: layout_search_def, subst layout_loop.simps) simp
  then have "layout_search bfs ds (\<lambda>d. cmp (key d) k) = Some d \<longleftrightarrow>
      (\<exists>p \<in> set perm. d = ds ! p \<and> key d = k)"
    using layout_loop_spec [OF ss', of k d] unfolding im [symmetric] by auto
  then show ?thesis
    unfolding perm(1) bfs_def [symmetric] perm_def [symmetric] by (auto simp: in_set_conv_nth)
qed

section \<open>Index lookups of the positional store (store.rs)\<close>

definition eavt_get :: "positional_store \<Rightarrow> eavt_key \<Rightarrow> datom option" where
  "eavt_get s key = interpolation_search (ps_canonical s) key"

definition perm_aevt :: "positional_store \<Rightarrow> nat list" where
  "perm_aevt s = layout_permutation (build_permutation (ps_canonical s) aevt_from_datom)"

definition perm_vaet :: "positional_store \<Rightarrow> nat list" where
  "perm_vaet s = layout_permutation (build_permutation (ps_canonical s) vaet_from_datom)"

definition perm_avet :: "positional_store \<Rightarrow> nat list" where
  "perm_avet s = layout_permutation (build_permutation (ps_canonical s) avet_from_datom)"

definition perm_txid :: "positional_store \<Rightarrow> nat list" where
  "perm_txid s =
     layout_permutation
       (sort_key (\<lambda>p. (d_tx (ps_canonical s ! p), p))
          [0..<(case try_from_usize u32_max (length (ps_canonical s)) of Some n \<Rightarrow> n | None \<Rightarrow> 0)])"

definition aevt_get :: "positional_store \<Rightarrow> aevt_key \<Rightarrow> datom option" where
  "aevt_get s key =
     layout_search (perm_aevt s) (ps_canonical s) (\<lambda>d. reverse_ordering (aevt_cmp_datom key d))"

definition vaet_get :: "positional_store \<Rightarrow> vaet_key \<Rightarrow> datom option" where
  "vaet_get s key =
     layout_search (perm_vaet s) (ps_canonical s) (\<lambda>d. reverse_ordering (vaet_cmp_datom key d))"

definition avet_get :: "positional_store \<Rightarrow> avet_key \<Rightarrow> datom option" where
  "avet_get s key =
     layout_search (perm_avet s) (ps_canonical s) (\<lambda>d. reverse_ordering (avet_cmp_datom key d))"

definition perm_sorted :: "nat list \<Rightarrow> nat list" where
  "perm_sorted perm = layout_to_sorted perm"

section \<open>The entity Bloom filter (bloom.rs)\<close>

record entity_bloom =
  bl_bits :: "u64 list"
  bl_num_bits :: nat

definition BITS_PER_ELEMENT :: nat where "BITS_PER_ELEMENT = 10"
definition NUM_HASHES :: nat where "NUM_HASHES = 7"

function next_power_from :: "nat \<Rightarrow> nat \<Rightarrow> nat" where
  "next_power_from p n = (if p = 0 \<or> n \<le> p then p else next_power_from (2 * p) n)"
  by pat_completeness auto
termination by (relation "measure (\<lambda>(p, n). n - p)") auto

declare next_power_from.simps [simp del]

definition next_power_of_two :: "nat \<Rightarrow> nat" where
  "next_power_of_two n = next_power_from 1 n"

definition hash_pair :: "entity_id \<Rightarrow> u64 \<times> u64" where
  "hash_pair eid =
     (let bs = entity_bytes eid in (from_le_bytes (take 8 bs), from_le_bytes (take 8 (drop 8 bs)) OR 1))"

definition bit_idx :: "u64 \<times> u64 \<Rightarrow> nat \<Rightarrow> nat \<Rightarrow> nat" where
  "bit_idx h num_bits i = unat (fst h + of_nat i * snd h) mod num_bits"

definition bloom_mark :: "nat \<Rightarrow> u64 list \<Rightarrow> u64 list" where
  "bloom_mark b bits = (let w = b div 64 in bits[w := bits ! w OR push_bit (b mod 64) 1])"

definition bloom_test :: "u64 list \<Rightarrow> nat \<Rightarrow> bool" where
  "bloom_test bits b \<longleftrightarrow> bits ! (b div 64) AND push_bit (b mod 64) 1 \<noteq> 0"

definition bloom_set :: "nat \<Rightarrow> entity_id \<Rightarrow> u64 list \<Rightarrow> u64 list" where
  "bloom_set num_bits eid bits =
     fold (\<lambda>i. bloom_mark (bit_idx (hash_pair eid) num_bits i)) [0..<NUM_HASHES] bits"

definition bloom_build :: "entity_id list \<Rightarrow> entity_bloom" where
  "bloom_build ids =
     (let num_bits = next_power_of_two (max (length ids * BITS_PER_ELEMENT) 64);
          num_words = num_bits div 64
      in \<lparr>bl_bits = fold (bloom_set num_bits) ids (replicate num_words 0), bl_num_bits = num_bits\<rparr>)"

definition maybe_contains :: "entity_bloom \<Rightarrow> entity_id \<Rightarrow> bool" where
  "maybe_contains bl eid =
     list_all (\<lambda>i. bloom_test (bl_bits bl) (bit_idx (hash_pair eid) (bl_num_bits bl) i)) [0..<NUM_HASHES]"

definition entity_exists :: "positional_store \<Rightarrow> entity_id \<Rightarrow> bool" where
  "entity_exists s eid =
     (if \<not> maybe_contains (bloom_build (unique_entity_ids s)) eid then False
      else first_datom_position_for_entity s eid \<noteq> None)"

lemma next_power_from_spec: "0 < p \<Longrightarrow> \<exists>k. next_power_from p n = p * 2 ^ k \<and> n \<le> next_power_from p n"
proof (induction p n rule: next_power_from.induct)
  case (1 p n)
  show ?case
  proof (cases "n \<le> p")
    case True
    then show ?thesis by (intro exI [of _ 0]) (simp add: next_power_from.simps)
  next
    case False
    with 1 obtain k where "next_power_from (2 * p) n = 2 * p * 2 ^ k" "n \<le> next_power_from (2 * p) n" by auto
    moreover have "next_power_from p n = next_power_from (2 * p) n"
      using False 1 by (subst next_power_from.simps) simp
    ultimately show ?thesis by (intro exI [of _ "Suc k"]) simp
  qed
qed

lemma next_power_of_two_64: "64 \<le> n \<Longrightarrow> \<exists>m > 0. next_power_of_two n = 64 * m"
proof -
  assume n: "64 \<le> n"
  obtain k where k: "next_power_of_two n = 2 ^ k" "n \<le> 2 ^ k"
    using next_power_from_spec [of 1 n] by (auto simp: next_power_of_two_def)
  have "6 \<le> k"
  proof (rule ccontr)
    assume "\<not> 6 \<le> k"
    then have "(2::nat) ^ k \<le> 2 ^ 5" by (intro power_increasing) auto
    with k n show False by simp
  qed
  then obtain j where "k = 6 + j" by (metis le_iff_add)
  with k show ?thesis by (intro exI [of _ "2 ^ j"]) (simp add: power_add)
qed

text \<open>A bit once set stays set.\<close>

lemma bloom_test_bit: "bloom_test bits b \<longleftrightarrow> bit (bits ! (b div 64)) (b mod 64)"
  unfolding bloom_test_def by (rule bit_iff_and_push_bit_not_eq_0 [symmetric])

lemma bloom_test_mark:
  assumes "b div 64 < length bits"
  shows "bloom_test (bloom_mark b bits) c \<longleftrightarrow> bloom_test bits c \<or> c = b"
proof -
  have "c = b \<longleftrightarrow> c div 64 = b div 64 \<and> c mod 64 = b mod 64" by (metis div_mult_mod_eq)
  then show ?thesis using assms
    by (cases "c div 64 = b div 64") (auto simp: bloom_test_bit bloom_mark_def Let_def bit_simps)
qed

lemma length_bloom_mark [simp]: "length (bloom_mark b bits) = length bits"
  by (simp add: bloom_mark_def Let_def)

lemma bloom_marks_spec:
  assumes "length bits * 64 = nb" "0 < nb"
  shows "length (fold (\<lambda>i. bloom_mark (bit_idx h nb i)) is bits) = length bits \<and>
    (\<forall>c. bloom_test (fold (\<lambda>i. bloom_mark (bit_idx h nb i)) is bits) c \<longleftrightarrow>
       bloom_test bits c \<or> (\<exists>i \<in> set is. c = bit_idx h nb i))"
  using assms(1)
proof (induction "is" arbitrary: bits)
  case (Cons i "is")
  have "bit_idx h nb i < length bits * 64" using Cons.prems assms(2) by (simp add: bit_idx_def)
  then have "bit_idx h nb i div 64 < length bits" by (rule less_mult_imp_div_less)
  with Cons.IH [of "bloom_mark (bit_idx h nb i) bits"] Cons.prems show ?case
    by (auto simp: bloom_test_mark)
qed simp

lemma bloom_set_spec:
  assumes "length bits * 64 = nb" "0 < nb"
  shows "length (bloom_set nb eid bits) = length bits \<and>
    (\<forall>c. bloom_test (bloom_set nb eid bits) c \<longleftrightarrow>
       bloom_test bits c \<or> (\<exists>i < NUM_HASHES. c = bit_idx (hash_pair eid) nb i))"
  using bloom_marks_spec [OF assms, of "hash_pair eid" "[0..<NUM_HASHES]"]
  by (auto simp: bloom_set_def)

lemma bloom_no_false_negative:
  assumes "eid \<in> set ids"
  shows "maybe_contains (bloom_build ids) eid"
proof -
  define nb where "nb = next_power_of_two (max (length ids * BITS_PER_ELEMENT) 64)"
  obtain m where m: "nb = 64 * m" "0 < m" using next_power_of_two_64 [of "max (length ids * BITS_PER_ELEMENT) 64"]
    by (auto simp: nb_def)
  have "length (fold (bloom_set nb) es bits) = length bits \<and>
      (\<forall>c. bloom_test bits c \<longrightarrow> bloom_test (fold (bloom_set nb) es bits) c) \<and>
      (\<forall>e \<in> set es. \<forall>i < NUM_HASHES. bloom_test (fold (bloom_set nb) es bits) (bit_idx (hash_pair e) nb i))"
    if "length bits * 64 = nb" for es bits
    using that
  proof (induction es arbitrary: bits)
    case (Cons e es)
    have nb: "0 < nb" using m by simp
    from bloom_set_spec [OF Cons.prems nb, of e] Cons.IH [of "bloom_set nb e bits"] Cons.prems
    show ?case by auto
  qed simp
  from this [of "replicate m 0" ids] assms m show ?thesis
    by (simp add: maybe_contains_def list_all_iff bloom_build_def Let_def flip: nb_def)
qed

section \<open>Run-length encoded entities (entity_rle.rs)\<close>

record entity_rle =
  er_runs :: "(entity_id \<times> nat) list"
  er_prefix_sums :: "nat list"

definition saturating_add_u32 :: "nat \<Rightarrow> nat \<Rightarrow> nat" where
  "saturating_add_u32 a b = min u32_max (a + b)"

definition rle_flush :: "entity_id \<Rightarrow> nat \<Rightarrow> entity_rle \<Rightarrow> entity_rle" where
  "rle_flush cur run_len r =
     (let cumulative = saturating_add_u32 (if er_prefix_sums r = [] then 0 else last (er_prefix_sums r)) run_len
      in \<lparr>er_runs = er_runs r @ [(cur, run_len)], er_prefix_sums = er_prefix_sums r @ [cumulative]\<rparr>)"

fun rle_loop :: "entity_id list \<Rightarrow> entity_id \<Rightarrow> nat \<Rightarrow> entity_rle \<Rightarrow> entity_rle" where
  "rle_loop [] cur run_len r = rle_flush cur run_len r"
| "rle_loop (e # es) cur run_len r =
     (if e = cur then rle_loop es cur (saturating_add_u32 run_len 1) r
      else rle_loop es e 1 (rle_flush cur run_len r))"

definition from_entities :: "entity_id list \<Rightarrow> entity_rle" where
  "from_entities es =
     (case es of [] \<Rightarrow> \<lparr>er_runs = [], er_prefix_sums = [0]\<rparr>
      | e # es' \<Rightarrow> rle_loop es' e 1 \<lparr>er_runs = [], er_prefix_sums = [0]\<rparr>)"

definition group_count :: "entity_rle \<Rightarrow> nat" where
  "group_count r = length (er_runs r)"

definition total_datoms :: "entity_rle \<Rightarrow> nat" where
  "total_datoms r = (if er_prefix_sums r = [] then 0 else last (er_prefix_sums r))"

definition group_of :: "entity_rle \<Rightarrow> nat \<Rightarrow> nat option" where
  "group_of r position =
     Option.bind (try_from_usize u32_max position) (\<lambda>pos.
       if total_datoms r \<le> pos then None
       else Some (partition_point (\<lambda>s. s \<le> pos) (er_prefix_sums r) - 1))"

definition group_range :: "entity_rle \<Rightarrow> nat \<Rightarrow> (nat \<times> nat) option" where
  "group_range r g =
     (if length (er_runs r) \<le> g then None
      else Some (er_prefix_sums r ! g, er_prefix_sums r ! (g + 1)))"

definition entity_at_group :: "entity_rle \<Rightarrow> nat \<Rightarrow> entity_id option" where
  "entity_at_group r g = (if g < length (er_runs r) then Some (fst (er_runs r ! g)) else None)"

definition entity_at_position :: "entity_rle \<Rightarrow> nat \<Rightarrow> entity_id option" where
  "entity_at_position r pos = Option.bind (group_of r pos) (entity_at_group r)"

text \<open>The column a run list stands for, and the sums that index it.\<close>

definition rle_decode :: "(entity_id \<times> nat) list \<Rightarrow> entity_id list" where
  "rle_decode runs = concat (map (\<lambda>(e, n). replicate n e) runs)"

definition rle_inv :: "entity_rle \<Rightarrow> bool" where
  "rle_inv r \<longleftrightarrow> (\<forall>(e, n) \<in> set (er_runs r). 0 < n) \<and>
     er_prefix_sums r = map (\<lambda>i. length (rle_decode (take i (er_runs r)))) [0..<Suc (length (er_runs r))]"

lemma rle_decode_append [simp]: "rle_decode (a @ b) = rle_decode a @ rle_decode b"
  by (simp add: rle_decode_def)

lemma rle_decode_Nil [simp]: "rle_decode [] = []"
  by (simp add: rle_decode_def)

lemma rle_flush_inv:
  assumes "rle_inv r" "0 < n" "length (rle_decode (er_runs r)) + n \<le> u32_max"
  shows "rle_inv (rle_flush e n r)" "rle_decode (er_runs (rle_flush e n r)) = rle_decode (er_runs r) @ replicate n e"
proof -
  have l: "last (er_prefix_sums r) = length (rle_decode (er_runs r))" "er_prefix_sums r \<noteq> []"
    using assms(1) by (simp_all add: rle_inv_def)
  show "rle_decode (er_runs (rle_flush e n r)) = rle_decode (er_runs r) @ replicate n e"
    by (simp add: rle_flush_def Let_def rle_decode_def)
  have "map (\<lambda>i. length (rle_decode (take i (er_runs r @ [(e, n)])))) [0..<Suc (length (er_runs r))] =
      er_prefix_sums r"
    using assms(1) unfolding rle_inv_def by (auto intro!: map_cong simp: rle_decode_Nil)
  moreover have "rle_decode [(e, n)] = replicate n e" by (simp add: rle_decode_def)
  ultimately show "rle_inv (rle_flush e n r)"
    using assms l by (auto simp: rle_inv_def rle_flush_def Let_def saturating_add_u32_def simp del: upt_Suc)
       (simp add: upt_Suc)
qed

lemma rle_loop_spec:
  "rle_inv r \<Longrightarrow> 0 < n \<Longrightarrow> length (rle_decode (er_runs r)) + n + length es \<le> u32_max \<Longrightarrow>
     rle_inv (rle_loop es cur n r) \<and>
     rle_decode (er_runs (rle_loop es cur n r)) = rle_decode (er_runs r) @ replicate n cur @ es"
proof (induction es cur n r rule: rle_loop.induct)
  case (1 cur n r)
  then show ?case by (simp add: rle_flush_inv)
next
  case (2 e es cur n r)
  show ?case
  proof (cases "e = cur")
    case True
    with 2 have "saturating_add_u32 n 1 = Suc n" by (simp add: saturating_add_u32_def)
    with True "2.IH"(1) [OF True] "2.prems" show ?thesis by (simp add: replicate_append_same flip: replicate_Suc)
  next
    case False
    with "2.IH"(2) [OF False] "2.prems" rle_flush_inv [of r n cur] show ?thesis by simp
  qed
qed

lemma from_entities_spec:
  "length es \<le> u32_max \<Longrightarrow> rle_inv (from_entities es) \<and> rle_decode (er_runs (from_entities es)) = es"
proof (cases es)
  case (Cons e es')
  moreover assume "length es \<le> u32_max"
  moreover have "rle_inv \<lparr>er_runs = [], er_prefix_sums = [0]\<rparr>" by (simp add: rle_inv_def rle_decode_def)
  ultimately show ?thesis
    using rle_loop_spec [of "\<lparr>er_runs = [], er_prefix_sums = [0]\<rparr>" 1 es' e]
    by (simp add: from_entities_def rle_decode_def)
qed (simp add: from_entities_def rle_inv_def rle_decode_def)

lemma rle_take_Suc:
  "g < length runs \<Longrightarrow>
     rle_decode (take (Suc g) runs) = rle_decode (take g runs) @ replicate (snd (runs ! g)) (fst (runs ! g))"
  by (simp add: take_Suc_conv_app_nth rle_decode_def case_prod_unfold)

lemma rle_group_of:
  assumes "rle_inv r" "length (rle_decode (er_runs r)) \<le> u32_max" "pos < length (rle_decode (er_runs r))"
  obtains g where "group_of r pos = Some g" "g < length (er_runs r)"
    "er_prefix_sums r ! g \<le> pos" "pos < er_prefix_sums r ! Suc g"
proof -
  let ?R = "er_runs r" and ?S = "er_prefix_sums r"
  have S: "?S = map (\<lambda>i. length (rle_decode (take i ?R))) [0..<Suc (length ?R)]" and lS: "length ?S = Suc (length ?R)"
    using assms(1) by (simp_all add: rle_inv_def)
  have nth: "?S ! i = length (rle_decode (take i ?R))" if "i \<le> length ?R" for i
    using that unfolding S by (subst nth_map) (simp_all del: upt_Suc)
  have "length (rle_decode (take i ?R)) \<le> length (rle_decode (take j ?R))" if "i \<le> j" for i j
    using that by (metis le_add1 length_append rle_decode_append take_add le_iff_add)
  then have "sorted ?S" unfolding S by (intro sorted_map_mono mono_onI) (simp_all del: upt_Suc)
  then have part: "partitioned (\<lambda>s. s \<le> pos) ?S" by (rule partitioned_sorted_le)
  define pp where "pp = partition_point (\<lambda>s. s \<le> pos) ?S"
  note iff = partition_point_iff [OF part, folded pp_def]
  have "?S ! 0 \<le> pos" "\<not> ?S ! length ?R \<le> pos" using nth [of 0] nth [of "length ?R"] assms(3) by simp_all
  then have pp: "0 < pp" "pp \<le> length ?R" using iff [of 0] iff [of "length ?R"] lS by auto
  have "total_datoms r = length (rle_decode ?R)" unfolding total_datoms_def S by simp
  then have "group_of r pos = Some (pp - 1)" using assms(2,3) by (simp add: group_of_def pp_def)
  moreover have "?S ! (pp - 1) \<le> pos" "pos < ?S ! Suc (pp - 1)"
    using iff [of "pp - 1"] iff [of pp] pp lS by auto
  ultimately show thesis using pp by (intro that) auto
qed

lemma rle_entity_at_position:
  assumes "rle_inv r" "length (rle_decode (er_runs r)) \<le> u32_max"
  shows "entity_at_position r pos =
    (if pos < length (rle_decode (er_runs r)) then Some (rle_decode (er_runs r) ! pos) else None)"
proof (cases "pos < length (rle_decode (er_runs r))")
  case True
  let ?R = "er_runs r"
  obtain g where g: "group_of r pos = Some g" "g < length ?R"
    "er_prefix_sums r ! g \<le> pos" "pos < er_prefix_sums r ! Suc g"
    using rle_group_of [OF assms True] .
  have nth: "er_prefix_sums r ! i = length (rle_decode (take i ?R))" if "i \<le> length ?R" for i
    using that assms(1) unfolding rle_inv_def by (auto simp del: upt_Suc)
  let ?A = "rle_decode (take g ?R)"
  have dec: "rle_decode ?R = ?A @ replicate (snd (?R ! g)) (fst (?R ! g)) @ rle_decode (drop (Suc g) ?R)"
    using rle_take_Suc [OF g(2)] rle_decode_append [of "take (Suc g) ?R" "drop (Suc g) ?R"] by simp
  have "length ?A \<le> pos" "pos < length ?A + snd (?R ! g)"
    using g nth [of g] nth [of "Suc g"] rle_take_Suc [OF g(2)] by simp_all
  then have "rle_decode ?R ! pos = fst (?R ! g)" unfolding dec by (auto simp: nth_append)
  with g True show ?thesis by (simp add: entity_at_position_def entity_at_group_def)
next
  case False
  have "total_datoms r = length (rle_decode (er_runs r))"
    using assms(1) by (simp add: total_datoms_def rle_inv_def)
  with False show ?thesis by (simp add: entity_at_position_def group_of_def try_from_usize_def)
qed

section \<open>Properties of the lookups\<close>

text \<open>C34 Every index of the positional store finds exactly the stored datoms. The interpolation search
  and the three searches in Eytzinger order return a datom for a key exactly when it is stored and has
  that key; they always return (all four loops terminate), and agree with the indexes of the
  write-active representation on the same datoms.\<close>

theorem positional_lookups:
  assumes "ps_inv blake3 s" "ps_len s \<le> u32_max"
  shows "(\<forall>k d. eavt_get s k = Some d \<longleftrightarrow> d \<in> set (ps_canonical s) \<and> eavt_from_datom d = k) \<and>
    (\<forall>k d. aevt_get s k = Some d \<longleftrightarrow> d \<in> set (ps_canonical s) \<and> aevt_from_datom d = k) \<and>
    (\<forall>k d. vaet_get s k = Some d \<longleftrightarrow> d \<in> set (ps_canonical s) \<and> vaet_from_datom d = k) \<and>
    (\<forall>k d. avet_get s k = Some d \<longleftrightarrow> d \<in> set (ps_canonical s) \<and> avet_from_datom d = k) \<and>
    (\<forall>k. aevt_get s k = sv_get (ix_aevt (sort_all (ix_from_datoms (ps_canonical s)))) k)"
proof -
  have ss: "strict_sorted (ps_canonical s)" and len: "length (ps_canonical s) \<le> u32_max"
    using assms by (simp_all add: ps_inv_def ps_len_def)
  note P = from_datom_inj [THEN permutation_search [OF ss len]]
  have e: "eavt_get s k = Some d \<longleftrightarrow> d \<in> set (ps_canonical s) \<and> eavt_from_datom d = k" for k d
    using interpolation_search_spec [OF ss] by (simp add: eavt_get_def)
  have a: "aevt_get s k = Some d \<longleftrightarrow> d \<in> set (ps_canonical s) \<and> aevt_from_datom d = k" for k d
    using P(2) by (simp add: aevt_get_def perm_aevt_def cmp_datom_key)
  have v: "vaet_get s k = Some d \<longleftrightarrow> d \<in> set (ps_canonical s) \<and> vaet_from_datom d = k" for k d
    using P(3) by (simp add: vaet_get_def perm_vaet_def cmp_datom_key)
  have av: "avet_get s k = Some d \<longleftrightarrow> d \<in> set (ps_canonical s) \<and> avet_from_datom d = k" for k d
    using P(4) by (simp add: avet_get_def perm_avet_def cmp_datom_key)
  have "aevt_get s k = sv_get (ix_aevt (sort_all (ix_from_datoms (ps_canonical s)))) k" for k
    using a [of k] sortedvec.load_get [OF from_datom_inj(2), of "ps_canonical s" k]
    by (intro option_eqI) (simp add: sort_all_def ix_from_datoms_load)
  with e a v av show ?thesis by blast
qed

theorem positional_lookups_witness:
  "aevt_get (ps_from_datoms id [sample_datom (VLong 1), sample_datom (VBool True)])
     (aevt_from_datom (sample_datom (VBool True))) = Some (sample_datom (VBool True))"
proof -
  let ?ds = "[sample_datom (VLong 1), sample_datom (VBool True)]"
  have "card (set ?ds) \<le> 2" using card_length [of ?ds] by simp
  then have "length (sort_dedup ?ds) \<le> u32_max"
    using distinct_card [OF strict_sorted_distinct [OF strict_sorted_sort_dedup], of ?ds]
    by (simp add: u32_max_def)
  then have "ps_len (ps_from_datoms id ?ds) \<le> u32_max" by (simp add: ps_len_def)
  from positional_lookups [OF ps_inv_simps(1) this]
  have "\<forall>k d. aevt_get (ps_from_datoms id ?ds) k = Some d \<longleftrightarrow>
      d \<in> set (ps_canonical (ps_from_datoms id ?ds)) \<and> aevt_from_datom d = k" by blast
  from this [rule_format, of "aevt_from_datom (sample_datom (VBool True))" "sample_datom (VBool True)"]
  show ?thesis by simp
qed

text \<open>The Eytzinger layout loses nothing: reading the breadth-first array in order gives back the
  sorted permutation it was built from, for every length.\<close>

theorem eytzinger_roundtrip:
  "layout_to_sorted (layout_permutation srt) = srt \<and> length (layout_permutation srt) = length srt + 1"
  using layout_roundtrip layout_permutation_spec(1) by simp

text \<open>Entity lookups are exact. The Bloom filter never denies a stored entity, so \<open>entity_exists\<close>
  holds exactly for the entities of stored datoms; the position lookup returns the first position of
  the entity, and the run-length encoded column gives the entity of every position.\<close>

theorem entity_lookups_exact:
  assumes "ps_inv blake3 s" "ps_len s \<le> u32_max"
  shows "(\<forall>eid. entity_exists s eid \<longleftrightarrow> (\<exists>d \<in> set (ps_canonical s). d_entity d = eid)) \<and>
    (\<forall>eid p. first_datom_position_for_entity s eid = Some p \<longleftrightarrow>
       p < ps_len s \<and> d_entity (ps_canonical s ! p) = eid \<and>
       (\<forall>q < p. d_entity (ps_canonical s ! q) \<noteq> eid)) \<and>
    (\<forall>p. entity_at_position (from_entities (col_entities s)) p = map_option d_entity (datom_at s p))"
proof -
  have ss: "strict_sorted (ps_canonical s)" using assms(1) by (simp add: ps_inv_def)
  note first = first_datom_position_spec [OF ss assms(2)]
  have ex: "first_datom_position_for_entity s eid \<noteq> None \<longleftrightarrow> (\<exists>d \<in> set (ps_canonical s). d_entity d = eid)" for eid
  proof
    assume "\<exists>d \<in> set (ps_canonical s). d_entity d = eid"
    then have "\<exists>p. p < ps_len s \<and> d_entity (ps_canonical s ! p) = eid"
      by (auto simp: in_set_conv_nth ps_len_def)
    then obtain p where "p < ps_len s \<and> d_entity (ps_canonical s ! p) = eid"
      "\<forall>q < p. \<not> (q < ps_len s \<and> d_entity (ps_canonical s ! q) = eid)"
      using exists_least_iff [of "\<lambda>p. p < ps_len s \<and> d_entity (ps_canonical s ! p) = eid"] by blast
    then have "first_datom_position_for_entity s eid = Some p" unfolding first by auto
    then show "first_datom_position_for_entity s eid \<noteq> None" by simp
  qed (use first in \<open>auto simp: ps_len_def\<close>)
  have bl: "maybe_contains (bloom_build (unique_entity_ids s)) eid"
    if "\<exists>d \<in> set (ps_canonical s). d_entity d = eid" for eid
    using that by (intro bloom_no_false_negative) (auto simp: set_unique_entity_ids)
  have "length (col_entities s) \<le> u32_max" using assms(2) by (simp add: col_entities_def ps_len_def)
  then have rle: "entity_at_position (from_entities (col_entities s)) p = map_option d_entity (datom_at s p)" for p
    using from_entities_spec [of "col_entities s"] rle_entity_at_position [of "from_entities (col_entities s)" p]
    by (simp add: datom_at_def col_entities_def)
  have "entity_exists s eid \<longleftrightarrow> (\<exists>d \<in> set (ps_canonical s). d_entity d = eid)" for eid
    using ex [of eid] bl [of eid] by (simp only: entity_exists_def) presburger
  with first rle show ?thesis by blast
qed

theorem entity_lookups_exact_witness:
  "\<not> entity_exists (ps_from_datoms id []) (EntityId [1])"
proof -
  have "ps_len (ps_from_datoms id []) \<le> u32_max" by (simp add: ps_len_def sort_dedup_def)
  from entity_lookups_exact [OF ps_inv_simps(1) this] show ?thesis by (simp add: sort_dedup_def)
qed

end
