(* ===== verification/Wal.thy ===== *)
theory Wal
  imports Search
begin

text \<open>
  The write-ahead log (crate \<open>ferratomic-wal\<close>: \<open>wal/mod.rs\<close>, \<open>wal/writer.rs\<close>, \<open>wal/recover.rs\<close>,
  \<open>wal/dedup_bloom.rs\<close>).

  The log file is its byte contents, the position of the open handle, and the contents the last
  \<open>sync_all\<close> made durable. The operating system is a parameter of each system call: a \<open>write_all\<close> may
  stop after some bytes with an error, a \<open>sync_all\<close> may fail. After a crash the file holds the
  durable contents followed by anything (or, for a torn append, by a prefix of what was appended).
\<close>

section \<open>Frames (mod.rs)\<close>

definition WAL_MAGIC :: bytes where
  "WAL_MAGIC = [0x46, 0x45, 0x52, 0x52]"

definition WAL_VERSION :: u16 where "WAL_VERSION = 1"
definition HEADER_SIZE :: nat where "HEADER_SIZE = 18"
definition CRC_SIZE :: nat where "CRC_SIZE = 4"
definition MIN_FRAME_SIZE :: nat where "MIN_FRAME_SIZE = HEADER_SIZE + CRC_SIZE"
definition MAX_PAYLOAD_SIZE :: nat where "MAX_PAYLOAD_SIZE = 268435456"

record wal_entry =
  we_epoch :: u64
  we_payload :: bytes

fun crc32_bits :: "nat \<Rightarrow> u32 \<Rightarrow> u32" where
  "crc32_bits 0 crc = crc"
| "crc32_bits (Suc n) crc =
     crc32_bits n (if crc AND 1 \<noteq> 0 then drop_bit 1 crc XOR 0xEDB88320 else drop_bit 1 crc)"

definition crc32_ieee :: "bytes \<Rightarrow> u32" where
  "crc32_ieee data = NOT (fold (\<lambda>byte crc. crc32_bits 8 (crc XOR ucast byte)) data 0xFFFFFFFF)"

section \<open>The dedup Bloom filter (dedup_bloom.rs)\<close>

definition BLOOM_BITS :: nat where "BLOOM_BITS = 524288"
definition BLOOM_WORDS :: nat where "BLOOM_WORDS = BLOOM_BITS div 64"
definition BLOOM_K :: nat where "BLOOM_K = 4"

record wal_dedup_bloom =
  db_bits :: "u64 list"
  db_count :: u64

definition dedup_new :: wal_dedup_bloom where
  "dedup_new = \<lparr>db_bits = replicate BLOOM_WORDS 0, db_count = 0\<rparr>"

definition get_bit :: "u64 list \<Rightarrow> nat \<Rightarrow> bool" where
  "get_bit bits idx \<longleftrightarrow> drop_bit (idx mod 64) (bits ! (idx div 64)) AND 1 = 1"

definition set_bit :: "nat \<Rightarrow> u64 list \<Rightarrow> u64 list" where
  "set_bit idx bits = bits[idx div 64 := bits ! (idx div 64) OR push_bit (idx mod 64) 1]"

definition hash_indices :: "bytes \<Rightarrow> nat list" where
  "hash_indices hash =
     (let h1 = from_le_bytes (take 8 hash) :: u64; h2 = from_le_bytes (take 8 (drop 8 hash)) :: u64
      in map (\<lambda>i. unat (h1 + of_nat i * h2) mod BLOOM_BITS) [0..<BLOOM_K])"

definition probably_contains :: "wal_dedup_bloom \<Rightarrow> bytes \<Rightarrow> bool" where
  "probably_contains bl hash = list_all (get_bit (db_bits bl)) (hash_indices hash)"

definition saturating_inc :: "u64 \<Rightarrow> u64" where
  "saturating_inc c = (if c = - 1 then c else c + 1)"

definition dedup_insert :: "bytes \<Rightarrow> wal_dedup_bloom \<Rightarrow> wal_dedup_bloom" where
  "dedup_insert hash bl =
     \<lparr>db_bits = fold set_bit (hash_indices hash) (db_bits bl), db_count = saturating_inc (db_count bl)\<rparr>"

definition dedup_clear :: "wal_dedup_bloom \<Rightarrow> wal_dedup_bloom" where
  "dedup_clear bl = \<lparr>db_bits = map (\<lambda>_. 0) (db_bits bl), db_count = 0\<rparr>"

section \<open>The log (mod.rs, writer.rs)\<close>

record wal =
  w_file :: bytes
  w_pos :: nat
  w_durable :: bytes
  last_synced_epoch :: u64
  pending_epoch :: u64
  w_bloom :: wal_dedup_bloom

definition wal_create :: wal where
  "wal_create =
     \<lparr>w_file = [], w_pos = 0, w_durable = [], last_synced_epoch = 0, pending_epoch = 0, w_bloom = dedup_new\<rparr>"

text \<open>Opening an existing file leaves the handle at the start.\<close>

definition wal_open :: "bytes \<Rightarrow> wal" where
  "wal_open contents =
     \<lparr>w_file = contents, w_pos = 0, w_durable = contents, last_synced_epoch = 0, pending_epoch = 0,
      w_bloom = dedup_new\<rparr>"

text \<open>Writing at the handle's position overwrites what is there and extends the file.\<close>

definition write_at :: "bytes \<Rightarrow> wal \<Rightarrow> wal" where
  "write_at bs w =
     w\<lparr>w_file := take (w_pos w) (w_file w) @ bs @ drop (w_pos w + length bs) (w_file w),
       w_pos := w_pos w + length bs\<rparr>"

text \<open>\<open>write_all\<close>: \<open>None\<close> from the operating system is success, \<open>Some n\<close> an error after \<open>n\<close> bytes.\<close>

definition write_all :: "nat option \<Rightarrow> bytes \<Rightarrow> wal \<Rightarrow> wal \<times> (ferra_error + unit)" where
  "write_all os bs w =
     (case os of
        None \<Rightarrow> (write_at bs w, Inr ())
      | Some n \<Rightarrow> (write_at (take n bs) w, Inl (WalWrite ''write'')))"

definition encode_frame :: "u64 \<Rightarrow> bytes \<Rightarrow> bytes" where
  "encode_frame epoch payload =
     (let frame = WAL_MAGIC @ to_le_bytes 2 WAL_VERSION @ to_le_bytes 8 epoch
                  @ to_le_bytes 4 (of_nat (length payload) :: u32) @ payload
      in frame @ to_le_bytes 4 (crc32_ieee frame))"

definition write_frame :: "nat option \<Rightarrow> u64 \<Rightarrow> bytes \<Rightarrow> wal \<Rightarrow> wal \<times> (ferra_error + unit)" where
  "write_frame os epoch payload w =
     (if epoch \<le> pending_epoch w \<and> pending_epoch w > 0
      then (w, Inl (InvariantViolation ''INV-FERR-007''))
      else if length payload > 256 * 1024 * 1024 then (w, Inl (WalWrite ''payload too large''))
      else if try_from_usize u32_max (length payload) = None then (w, Inl (WalWrite ''payload too large''))
      else (case write_all os (encode_frame epoch payload) w of
              (w', Inl e) \<Rightarrow> (w', Inl e)
            | (w', Inr _) \<Rightarrow> (w'\<lparr>pending_epoch := max (pending_epoch w') epoch\<rparr>, Inr ())))"

definition append_raw :: "nat option \<Rightarrow> u64 \<Rightarrow> bytes \<Rightarrow> wal \<Rightarrow> wal \<times> (ferra_error + unit)" where
  "append_raw os epoch payload w = write_frame os epoch payload w"

definition fsync :: "bool \<Rightarrow> wal \<Rightarrow> wal \<times> (ferra_error + unit)" where
  "fsync ok w =
     (if ok
      then (w\<lparr>w_durable := w_file w, last_synced_epoch := max (last_synced_epoch w) (pending_epoch w)\<rparr>, Inr ())
      else (w, Inl (WalWrite ''fsync'')))"

section \<open>Recovery (recover.rs)\<close>

definition try_parse_frame :: "bytes \<Rightarrow> nat \<Rightarrow> (wal_entry \<times> nat) option" where
  "try_parse_frame buf pos =
     (if take 4 (drop pos buf) \<noteq> WAL_MAGIC then None
      else if (from_le_bytes [buf ! (pos + 4), buf ! (pos + 5)] :: u16) \<noteq> WAL_VERSION then None
      else (let epoch = from_le_bytes (take 8 (drop (pos + 6) buf)) :: u64;
                payload_len = unat (from_le_bytes (take 4 (drop (pos + 14) buf)) :: u32)
            in if payload_len > MAX_PAYLOAD_SIZE then None
               else (let frame_end = pos + HEADER_SIZE + payload_len + CRC_SIZE
                     in if frame_end > length buf then None
                        else (let frame_data = take (HEADER_SIZE + payload_len) (drop pos buf);
                                  stored_crc = from_le_bytes (take 4 (drop (pos + HEADER_SIZE + payload_len) buf)) :: u32
                              in if stored_crc \<noteq> crc32_ieee frame_data then None
                                 else Some (\<lparr>we_epoch = epoch,
                                             we_payload = take payload_len (drop (pos + HEADER_SIZE) buf)\<rparr>,
                                            frame_end)))))"

function parse_frames_loop :: "bytes \<Rightarrow> nat \<Rightarrow> wal_entry list \<times> nat" where
  "parse_frames_loop buf pos =
     (if pos + MIN_FRAME_SIZE \<le> length buf then
        (case try_parse_frame buf pos of
           Some (entry, frame_end) \<Rightarrow>
             (let (entries, last) = parse_frames_loop buf frame_end in (entry # entries, last))
         | None \<Rightarrow> ([], pos))
      else ([], pos))"
  by pat_completeness auto
termination
proof (relation "measure (\<lambda>(buf, pos). length buf - pos)", goal_cases)
  case (2 buf pos x y z)
  then have "pos < z" "pos < length buf"
    by (auto simp: try_parse_frame_def Let_def HEADER_SIZE_def CRC_SIZE_def MIN_FRAME_SIZE_def split: if_splits)
  then show ?case by simp
qed simp

declare parse_frames_loop.simps [simp del]

definition parse_wal_frames_with_pos :: "bytes \<Rightarrow> wal_entry list \<times> nat" where
  "parse_wal_frames_with_pos buf = parse_frames_loop buf 0"

text \<open>\<open>set_len\<close> and the \<open>sync_all\<close> after it may fail; the reads are taken to succeed.\<close>

definition recover :: "bool \<Rightarrow> wal \<Rightarrow> wal \<times> (ferra_error + wal_entry list)" where
  "recover ok w =
     (let (entries, last_valid_pos) = parse_wal_frames_with_pos (w_file w);
          w1 = (if entries \<noteq> [] then w\<lparr>last_synced_epoch := we_epoch (last entries)\<rparr> else w)
      in if last_valid_pos < length (w_file w) then
           (if \<not> ok then (w1, Inl (WalWrite ''truncate''))
            else (let f = take last_valid_pos (w_file w)
                  in (w1\<lparr>w_file := f, w_durable := f, pending_epoch := last_synced_epoch w1, w_pos := length f\<rparr>,
                      Inr entries)))
         else (w1\<lparr>pending_epoch := last_synced_epoch w1, w_pos := length (w_file w)\<rparr>, Inr entries))"

definition recover_wal_from_reader :: "bytes \<Rightarrow> wal_entry list" where
  "recover_wal_from_reader buf = fst (parse_wal_frames_with_pos buf)"

section \<open>Parsing what was written\<close>

definition entry_frame :: "wal_entry \<Rightarrow> bytes" where
  "entry_frame e = encode_frame (we_epoch e) (we_payload e)"

definition entry_wf :: "wal_entry \<Rightarrow> bool" where
  "entry_wf e \<longleftrightarrow> length (we_payload e) \<le> MAX_PAYLOAD_SIZE"

lemma length_entry_frame: "length (entry_frame e) = 22 + length (we_payload e)"
  by (simp add: entry_frame_def encode_frame_def WAL_MAGIC_def Let_def)

lemma unat_of_len: "n \<le> MAX_PAYLOAD_SIZE \<Longrightarrow> unat (of_nat n :: u32) = n"
  by (simp add: MAX_PAYLOAD_SIZE_def unat_of_nat)

lemma entry_frame_split:
  obtains h c where "entry_frame e = h @ we_payload e @ c" "length h = 18" "length c = 4"
    "take 4 h = WAL_MAGIC" "from_le_bytes [h ! 4, h ! 5] = WAL_VERSION" "from_le_bytes (take 8 (drop 6 h)) = we_epoch e"
    "from_le_bytes (take 4 (drop 14 h)) = (of_nat (length (we_payload e)) :: u32)"
    "from_le_bytes c = crc32_ieee (h @ we_payload e)"
proof -
  define v where "v = to_le_bytes 2 WAL_VERSION"
  define ep where "ep = to_le_bytes 8 (we_epoch e)"
  define ln where "ln = to_le_bytes 4 (of_nat (length (we_payload e)) :: u32)"
  define h where "h = WAL_MAGIC @ v @ ep @ ln"
  define c where "c = to_le_bytes 4 (crc32_ieee (h @ we_payload e))"
  have l: "length WAL_MAGIC = 4" "length v = 2" "length ep = 8" "length ln = 4" "length c = 4"
    by (simp_all add: WAL_MAGIC_def v_def ep_def ln_def c_def)
  have "[h ! 4, h ! 5] = v"
  proof -
    obtain a b where "v = [a, b]" using l(2) by (metis (no_types, opaque_lifting) length_0_conv length_Suc_conv numeral_2_eq_2)
    then show ?thesis using l(1) by (simp add: h_def nth_append)
  qed
  then have "from_le_bytes [h ! 4, h ! 5] = WAL_VERSION" by (simp add: v_def)
  moreover have "from_le_bytes (take 8 (drop 6 h)) = we_epoch e" using l by (simp add: h_def) (simp add: ep_def)
  moreover have "from_le_bytes (take 4 (drop 14 h)) = (of_nat (length (we_payload e)) :: u32)"
    using l by (simp add: h_def) (simp add: ln_def)
  moreover have "from_le_bytes c = crc32_ieee (h @ we_payload e)" by (simp add: c_def)
  moreover have "entry_frame e = h @ we_payload e @ c"
    by (simp add: entry_frame_def encode_frame_def h_def c_def v_def ep_def ln_def Let_def)
  moreover have "length h = 18" "take 4 h = WAL_MAGIC" using l by (simp_all add: h_def)
  ultimately show thesis using l(5) that by blast
qed

text \<open>Parsing looks only at the bytes from the position on.\<close>

lemma try_parse_append:
  "18 \<le> length r \<Longrightarrow> try_parse_frame (pre @ r) (length pre) = map_option (map_prod id ((+) (length pre))) (try_parse_frame r 0)"
  by (auto simp: try_parse_frame_def Let_def nth_append)

lemma parse_written_frame:
  assumes "entry_wf e"
  shows "try_parse_frame (entry_frame e @ rest) 0 = Some (e, length (entry_frame e))"
proof -
  obtain h c where f: "entry_frame e = h @ we_payload e @ c" "length h = 18" "length c = 4"
    "take 4 h = WAL_MAGIC" "from_le_bytes [h ! 4, h ! 5] = WAL_VERSION" "from_le_bytes (take 8 (drop 6 h)) = we_epoch e"
    "from_le_bytes (take 4 (drop 14 h)) = (of_nat (length (we_payload e)) :: u32)"
    "from_le_bytes c = crc32_ieee (h @ we_payload e)" by (rule entry_frame_split)
  have n: "unat (of_nat (length (we_payload e)) :: u32) = length (we_payload e)"
    using assms by (intro unat_of_len) (simp add: entry_wf_def)
  show ?thesis
    using f assms n by (simp add: try_parse_frame_def Let_def nth_append HEADER_SIZE_def CRC_SIZE_def entry_wf_def)
qed

lemma parse_torn_frame:
  assumes "entry_wf e" "k < length (entry_frame e)"
  shows "parse_frames_loop (take k (entry_frame e)) 0 = ([], 0)"
proof (cases "22 \<le> k")
  case False
  then show ?thesis by (subst parse_frames_loop.simps) (simp add: MIN_FRAME_SIZE_def HEADER_SIZE_def CRC_SIZE_def)
next
  case True
  obtain h c where f: "entry_frame e = h @ we_payload e @ c" "length h = 18" "length c = 4"
    "from_le_bytes (take 4 (drop 14 h)) = (of_nat (length (we_payload e)) :: u32)" by (rule entry_frame_split)
  have n: "unat (of_nat (length (we_payload e)) :: u32) = length (we_payload e)"
    using assms by (intro unat_of_len) (simp add: entry_wf_def)
  have "take 4 (drop 14 (take k (entry_frame e))) = take 4 (drop 14 h)" using True f by (simp add: min_def)
  then have "try_parse_frame (take k (entry_frame e)) 0 = None"
    using f n assms(2) by (auto simp: try_parse_frame_def Let_def HEADER_SIZE_def CRC_SIZE_def)
  then show ?thesis by (subst parse_frames_loop.simps) simp
qed

abbreviation frames :: "wal_entry list \<Rightarrow> bytes" where
  "frames es \<equiv> concat (map entry_frame es)"

lemma parse_loop_shift:
  "parse_frames_loop (pre @ r) (length pre) = map_prod id ((+) (length pre)) (parse_frames_loop r 0)"
proof (induction "length r" arbitrary: pre r rule: less_induct)
  case less
  show ?case
  proof (cases "MIN_FRAME_SIZE \<le> length r \<and> try_parse_frame r 0 \<noteq> None")
    case False
    then show ?thesis
      using try_parse_append [of r pre]
      by (subst (1 2) parse_frames_loop.simps)
         (auto simp: MIN_FRAME_SIZE_def HEADER_SIZE_def CRC_SIZE_def split: option.splits)
  next
    case True
    then obtain e n where p: "try_parse_frame r 0 = Some (e, n)" by auto
    then have n: "0 < n" "n \<le> length r"
      by (auto simp: try_parse_frame_def Let_def HEADER_SIZE_def CRC_SIZE_def split: if_splits)
    have split: "pre @ r = (pre @ take n r) @ drop n r" "length pre + n = length (pre @ take n r)" using n by simp_all
    have 1: "parse_frames_loop (pre @ r) (length pre + n) =
        map_prod id ((+) (length pre + n)) (parse_frames_loop (drop n r) 0)"
      using less [of "drop n r" "pre @ take n r"] n unfolding split by simp
    have 2: "parse_frames_loop r n = map_prod id ((+) n) (parse_frames_loop (drop n r) 0)"
      using less [of "drop n r" "take n r"] n by simp
    have "try_parse_frame (pre @ r) (length pre) = Some (e, length pre + n)"
      using try_parse_append [of r pre] True p by (simp add: MIN_FRAME_SIZE_def HEADER_SIZE_def CRC_SIZE_def)
    with True p 1 2 show ?thesis
      by (subst (1 2) parse_frames_loop.simps) (simp add: case_prod_unfold prod_eq_iff)
  qed
qed

lemma parse_frames_append:
  "\<forall>e \<in> set es. entry_wf e \<Longrightarrow>
     parse_frames_loop (frames es @ rest) 0 =
       map_prod ((@) es) ((+) (length (frames es))) (parse_frames_loop rest 0)"
proof (induction es)
  case (Cons e es)
  let ?r = "frames es @ rest"
  have p: "try_parse_frame (entry_frame e @ ?r) 0 = Some (e, length (entry_frame e))"
    using Cons.prems by (intro parse_written_frame) simp
  have "parse_frames_loop (entry_frame e @ ?r) (length (entry_frame e)) =
      map_prod id ((+) (length (entry_frame e))) (parse_frames_loop ?r 0)" by (rule parse_loop_shift)
  with p Cons show ?case
    by (subst parse_frames_loop.simps)
       (simp add: length_entry_frame MIN_FRAME_SIZE_def HEADER_SIZE_def CRC_SIZE_def case_prod_unfold prod_eq_iff)
qed (simp add: prod_eq_iff)

lemma parse_frames_exact: "\<forall>e \<in> set es. entry_wf e \<Longrightarrow> parse_wal_frames_with_pos (frames es) = (es, length (frames es))"
proof -
  have "parse_frames_loop [] 0 = ([], 0)"
    by (subst parse_frames_loop.simps) (simp add: MIN_FRAME_SIZE_def HEADER_SIZE_def CRC_SIZE_def)
  then show "\<forall>e \<in> set es. entry_wf e \<Longrightarrow> ?thesis"
    using parse_frames_append [of es "[]"] by (simp add: parse_wal_frames_with_pos_def)
qed

lemma parse_loop_bound: "pos \<le> length buf \<Longrightarrow> snd (parse_frames_loop buf pos) \<le> length buf"
proof (induction buf pos rule: parse_frames_loop.induct)
  case (1 buf pos)
  show ?case
  proof (cases "pos + MIN_FRAME_SIZE \<le> length buf \<and> try_parse_frame buf pos \<noteq> None")
    case False
    with 1(2) show ?thesis by (subst parse_frames_loop.simps) (auto split: option.splits)
  next
    case True
    then obtain e q where p: "try_parse_frame buf pos = Some (e, q)" by auto
    then have "q \<le> length buf" by (auto simp: try_parse_frame_def Let_def split: if_splits)
    with 1(1) True p show ?thesis by (subst parse_frames_loop.simps) (auto split: prod.splits)
  qed
qed

text \<open>A torn log: the complete frames are recovered, the partial one is cut.\<close>

lemma parse_torn_log:
  assumes "\<forall>e \<in> set es. entry_wf e"
  obtains n where "n \<le> length es" "parse_wal_frames_with_pos (take k (frames es)) = (take n es, length (frames (take n es)))"
    "\<And>m. m \<le> length es \<Longrightarrow> length (frames (take m es)) \<le> k \<Longrightarrow> m \<le> n"
proof -
  have "\<exists>n \<le> length es. parse_wal_frames_with_pos (take k (frames es)) = (take n es, length (frames (take n es))) \<and>
      (\<forall>m \<le> length es. length (frames (take m es)) \<le> k \<longrightarrow> m \<le> n)"
    using assms
  proof (induction es arbitrary: k)
    case Nil
    then show ?case using parse_frames_exact [of "[]"] by simp
  next
    case (Cons e es)
    show ?case
    proof (cases "k < length (entry_frame e)")
      case True
      have "m = 0" if "length (frames (take m (e # es))) \<le> k" for m using that True by (cases m) auto
      with True parse_torn_frame [of e k] Cons.prems show ?thesis
        by (intro exI [of _ 0]) (simp add: parse_wal_frames_with_pos_def)
    next
      case False
      then obtain j where j: "k = length (entry_frame e) + j" by (metis le_add_diff_inverse not_less)
      obtain n where n: "n \<le> length es" "parse_wal_frames_with_pos (take j (frames es)) = (take n es, length (frames (take n es)))"
        "\<forall>m \<le> length es. length (frames (take m es)) \<le> j \<longrightarrow> m \<le> n"
        using Cons.IH [of j] Cons.prems by auto
      have "parse_wal_frames_with_pos (take k (frames (e # es))) = (take (Suc n) (e # es), length (frames (take (Suc n) (e # es))))"
        using parse_frames_append [of "[e]" "take j (frames es)"] Cons.prems n(2) j
        by (simp add: parse_wal_frames_with_pos_def)
      moreover have "m \<le> Suc n" if "m \<le> length (e # es)" "length (frames (take m (e # es))) \<le> k" for m
        using that n(3) j by (cases m) auto
      ultimately show ?thesis using n(1) by (intro exI [of _ "Suc n"]) auto
    qed
  qed
  with that show thesis by blast
qed

section \<open>Runs of the log\<close>

text \<open>Consecutive epochs strictly increase, except that the guard lets epoch 0 repeat.\<close>

definition epoch_follows :: "u64 \<Rightarrow> u64 \<Rightarrow> bool" where
  "epoch_follows a b \<longleftrightarrow> a < b \<or> a = 0 \<and> b = 0"

definition wal_inv :: "wal \<Rightarrow> wal_entry list \<Rightarrow> nat \<Rightarrow> bool" where
  "wal_inv w es n \<longleftrightarrow>
     w_file w = frames es \<and> w_pos w = length (w_file w) \<and> n \<le> length es \<and> w_durable w = frames (take n es) \<and>
     (\<forall>e \<in> set es. entry_wf e) \<and> sorted_wrt epoch_follows (map we_epoch es) \<and>
     pending_epoch w = last (0 # map we_epoch es) \<and> last_synced_epoch w = last (0 # map we_epoch (take n es))"

text \<open>The file a crash leaves: the log's file, or the file of a log whose last write stopped inside its frame, torn
  at some byte behind the durable part. (\<open>write_all\<close> fails only before its last byte is written.)\<close>

definition crash_file :: "wal \<Rightarrow> bytes \<Rightarrow> bool" where
  "crash_file w bs \<longleftrightarrow>
     (\<exists>k \<ge> length (w_durable w). bs = take k (w_file w) \<or>
        (\<exists>j ep p w' e. append_raw (Some j) ep p w = (w', Inl e) \<and> j < length (encode_frame ep p) \<and> bs = take k (w_file w')))"

text \<open>A run: entries are appended (the guard may refuse them) and synced, and the process may crash, in the middle
  of a write too, and recover the log. A write that stops inside a frame is followed by no other write before
  the log is recovered. The indices are the log, the entries it holds and the number of entries that are
  durable.\<close>

inductive wal_run :: "wal \<Rightarrow> wal_entry list \<Rightarrow> nat \<Rightarrow> bool" where
  run_create: "wal_run wal_create [] 0"
| run_append:
    "wal_run w es n \<Longrightarrow> append_raw None ep p w = (w', Inr ()) \<Longrightarrow>
       wal_run w' (es @ [\<lparr>we_epoch = ep, we_payload = p\<rparr>]) n"
| run_refused: "wal_run w es n \<Longrightarrow> append_raw None ep p w = (w', Inl e) \<Longrightarrow> wal_run w' es n"
| run_fsync: "wal_run w es n \<Longrightarrow> fsync True w = (w', Inr ()) \<Longrightarrow> wal_run w' es (length es)"
| run_fsync_failed: "wal_run w es n \<Longrightarrow> fsync False w = (w', Inl e) \<Longrightarrow> wal_run w' es n"
| run_recover:
    "wal_run w es n \<Longrightarrow> crash_file w bs \<Longrightarrow> recover True (wal_open bs) = (w', Inr es') \<Longrightarrow>
       wal_run w' es' (length es')"

lemma write_at_end: "w_pos w = length (w_file w) \<Longrightarrow> write_at bs w = w\<lparr>w_file := w_file w @ bs, w_pos := length (w_file w @ bs)\<rparr>"
  by (simp add: write_at_def)

lemma append_raw_ok:
  "append_raw None ep p w = (w', Inr ()) \<longleftrightarrow>
     (pending_epoch w < ep \<or> pending_epoch w = 0) \<and> length p \<le> MAX_PAYLOAD_SIZE \<and>
     w' = (write_at (entry_frame \<lparr>we_epoch = ep, we_payload = p\<rparr>) w)\<lparr>pending_epoch := max (pending_epoch w) ep\<rparr>"
proof -
  have "pending_epoch (write_at bs w) = pending_epoch w" for bs by (simp add: write_at_def)
  moreover have "length p \<le> MAX_PAYLOAD_SIZE \<Longrightarrow> length p \<le> u32_max" by (simp add: MAX_PAYLOAD_SIZE_def u32_max_def)
  ultimately show ?thesis
    by (auto simp: append_raw_def write_frame_def write_all_def entry_frame_def MAX_PAYLOAD_SIZE_def
        word_gt_0 not_le try_from_usize_def Let_def)
qed

lemma append_raw_refused: "append_raw None ep p w = (w', Inl e) \<Longrightarrow> w' = w"
  by (auto simp: append_raw_def write_frame_def write_all_def split: if_splits)

lemma epoch_follows_trans: "epoch_follows a b \<Longrightarrow> epoch_follows b c \<Longrightarrow> epoch_follows a c"
  by (auto simp: epoch_follows_def)

lemma sorted_wrt_snoc_last:
  assumes "\<And>a b c. R a b \<Longrightarrow> R b c \<Longrightarrow> R a c" "sorted_wrt R xs" "xs = [] \<or> R (last xs) y"
  shows "sorted_wrt R (xs @ [y])"
  using assms(2,3)
proof (induction xs)
  case (Cons x xs)
  show ?case
  proof (cases "xs = []")
    case False
    with Cons have "R x (last xs)" "R (last xs) y" by auto
    then have "R x y" by (rule assms(1))
    with Cons False show ?thesis by auto
  qed (use Cons in auto)
qed simp

lemma append_raw_torn:
  assumes "append_raw (Some j) ep p w = (w', Inl e)" "j < length (encode_frame ep p)" "w_pos w = length (w_file w)"
  shows "w' = w \<or> length p \<le> MAX_PAYLOAD_SIZE \<and> w_file w' = w_file w @ take j (entry_frame \<lparr>we_epoch = ep, we_payload = p\<rparr>)"
  using assms
  by (auto simp: append_raw_def write_frame_def write_all_def write_at_end entry_frame_def MAX_PAYLOAD_SIZE_def split: if_splits)

text \<open>A crash leaves a proper prefix of the log's frames and one more frame.\<close>

lemma crash_file_prefix:
  assumes "wal_inv w es n" "crash_file w bs"
  obtains x k where "entry_wf x" "bs = take k (frames (es @ [x]))" "k < length (frames (es @ [x]))" "length (w_durable w) \<le> length bs"
proof -
  note i = assms(1) [unfolded wal_inv_def]
  have dur: "length (w_durable w) \<le> length (frames es)"
  proof -
    have "frames es = frames (take n es) @ frames (drop n es)" by (simp flip: concat_append map_append)
    then show ?thesis using i by simp
  qed
  obtain k f where k: "length (w_durable w) \<le> k" "bs = take k f"
    "f = frames es \<or> (\<exists>j ep p w' e. append_raw (Some j) ep p w = (w', Inl e) \<and> j < length (encode_frame ep p) \<and> f = w_file w')"
    using assms(2) conjunct1 [OF i] unfolding crash_file_def by metis
  obtain x j where x: "entry_wf x" "j < length (entry_frame x)" "f = frames es @ take j (entry_frame x)"
  proof (cases "f = frames es")
    case True
    then show thesis using that [of "\<lparr>we_epoch = 0, we_payload = []\<rparr>" 0] by (simp add: entry_wf_def length_entry_frame)
  next
    case False
    then obtain j ep p w' e where a: "append_raw (Some j) ep p w = (w', Inl e)" "j < length (encode_frame ep p)" "f = w_file w'"
      using k(3) by blast
    with append_raw_torn [OF a(1,2)] i False show thesis
      by (intro that [of "\<lparr>we_epoch = ep, we_payload = p\<rparr>" j]) (auto simp: entry_wf_def entry_frame_def)
  qed
  show thesis
  proof (rule that [OF x(1), of "min k (length (frames es) + j)"])
    show "bs = take (min k (length (frames es) + j)) (frames (es @ [x]))" using k(2) x(3) by (auto simp: min_def)
    show "min k (length (frames es) + j) < length (frames (es @ [x]))" using x(2) by simp
    show "length (w_durable w) \<le> length bs" using k(1,2) x(3) dur by simp
  qed
qed

text \<open>The complete frames of such a file, and what recovery makes of it.\<close>

lemma parse_crash_file:
  assumes "wal_inv w es n" "crash_file w bs"
  obtains m where "n \<le> m" "m \<le> length es" "parse_wal_frames_with_pos bs = (take m es, length (frames (take m es)))"
    "\<And>j. j \<le> length es \<Longrightarrow> length (frames (take j es)) \<le> length bs \<Longrightarrow> j \<le> m"
    "bs = frames (take m es) @ drop (length (frames (take m es))) bs"
proof -
  note i = assms(1) [unfolded wal_inv_def]
  obtain x k where x: "entry_wf x" "bs = take k (frames (es @ [x]))" "k < length (frames (es @ [x]))" "length (w_durable w) \<le> length bs"
    by (rule crash_file_prefix [OF assms])
  have wf: "\<forall>e \<in> set (es @ [x]). entry_wf e" using i x(1) by auto
  from wf obtain m where m: "m \<le> length (es @ [x])"
    "parse_wal_frames_with_pos bs = (take m (es @ [x]), length (frames (take m (es @ [x]))))"
    "\<And>j. j \<le> length (es @ [x]) \<Longrightarrow> length (frames (take j (es @ [x]))) \<le> k \<Longrightarrow> j \<le> m"
    unfolding x(2) by (rule parse_torn_log [where k = k]) blast
  have len: "length bs = k" using x(2,3) by simp
  have le: "length (frames (take m (es @ [x]))) \<le> k"
    using parse_loop_bound [of 0 bs] m(2) len by (simp add: parse_wal_frames_with_pos_def)
  have "m \<noteq> length (es @ [x])" using le x(3) by auto
  then have mle: "m \<le> length es" using m(1) by simp
  have all: "j \<le> m" if "j \<le> length es" "length (frames (take j es)) \<le> length bs" for j
    using m(3) [of j] that len by simp
  have "take (length (frames (take m es))) bs = frames (take m es)"
  proof -
    have "frames (es @ [x]) = frames (take m es) @ frames (drop m (es @ [x]))"
      using mle unfolding concat_append [symmetric] map_append [symmetric]
      by (metis append_take_drop_id butlast_snoc length_append take_butlast take_append diff_is_0_eq take_0 append_Nil2)
    then show ?thesis using le mle unfolding x(2) by (simp add: take_take min_absorb1)
  qed
  then have "bs = frames (take m es) @ drop (length (frames (take m es))) bs" by (metis append_take_drop_id)
  moreover have "n \<le> m" using i x(4) by (intro all) auto
  ultimately show thesis using that [of m] mle m(2) all by simp
qed

lemma recover_torn:
  assumes "wal_inv w es n" "crash_file w bs"
  obtains m w' where "n \<le> m" "m \<le> length es" "recover True (wal_open bs) = (w', Inr (take m es))"
    "wal_inv w' (take m es) m"
proof -
  note i = assms(1) [unfolded wal_inv_def]
  obtain m where m: "n \<le> m" "m \<le> length es" "parse_wal_frames_with_pos bs = (take m es, length (frames (take m es)))"
    "bs = frames (take m es) @ drop (length (frames (take m es))) bs" by (rule parse_crash_file [OF assms])
  define F where "F = frames (take m es)"
  note P = m(3) [folded F_def]
  have pre: "take (length F) bs = F" using m(4) unfolding F_def by (metis append_eq_conv_conj)
  obtain w' r where w': "recover True (wal_open bs) = (w', r)" by fastforce
  have f: "r = Inr (take m es) \<and> w_file w' = F \<and> w_durable w' = F \<and> w_pos w' = length F \<and>
      pending_epoch w' = last (0 # map we_epoch (take m es)) \<and> last_synced_epoch w' = last (0 # map we_epoch (take m es))"
  proof (cases "length F < length bs")
    case True
    with w' P pre show ?thesis by (auto simp: recover_def wal_open_def last_map)
  next
    case False
    then have "bs = F" using pre by simp
    with w' P show ?thesis by (auto simp: recover_def wal_open_def last_map)
  qed
  have "sorted_wrt epoch_follows (map we_epoch (take m es))" using i by (simp add: sorted_wrt_take flip: take_map)
  then have "wal_inv w' (take m es) m" using f i m(2) by (auto simp: wal_inv_def F_def dest: in_set_takeD)
  with f w' m(1,2) show thesis using that by blast
qed

lemma wal_run_inv: "wal_run w es n \<Longrightarrow> wal_inv w es n"
proof (induction rule: wal_run.induct)
  case run_create
  then show ?case by (simp add: wal_inv_def wal_create_def)
next
  case (run_append w es n ep p w')
  note i = run_append.IH [unfolded wal_inv_def]
  from run_append(2) have a: "pending_epoch w < ep \<or> pending_epoch w = 0" "length p \<le> MAX_PAYLOAD_SIZE"
    "w' = (write_at (entry_frame \<lparr>we_epoch = ep, we_payload = p\<rparr>) w)\<lparr>pending_epoch := max (pending_epoch w) ep\<rparr>"
    by (auto simp: append_raw_ok)
  have "map we_epoch es = [] \<or> epoch_follows (last (map we_epoch es)) ep"
    using i a(1) by (auto simp: epoch_follows_def word_gt_0 split: if_splits)
  then have "sorted_wrt epoch_follows (map we_epoch es @ [ep])"
    using i sorted_wrt_snoc_last [of epoch_follows "map we_epoch es" ep] epoch_follows_trans by blast
  moreover have "max (pending_epoch w) ep = ep" using a(1) by (auto simp: max_def)
  ultimately show ?case using i a(2,3) by (simp add: wal_inv_def write_at_end entry_wf_def)
next
  case (run_refused w es n ep p w' e)
  then show ?case using append_raw_refused by blast
next
  case (run_fsync w es n w')
  note i = run_fsync.IH [unfolded wal_inv_def]
  have "last (0 # map we_epoch (take n es)) \<le> last (0 # map we_epoch es)"
  proof (cases "take n es = []")
    case False
    have "sorted (map we_epoch es)"
      using i by (intro sorted_wrt_mono_rel [OF _ conjunct1 [OF conjunct2 [OF conjunct2 [OF conjunct2 [OF conjunct2 [OF conjunct2 [OF i]]]]]]])
        (auto simp: epoch_follows_def)
    moreover have "0 < n" "es \<noteq> []" "n \<le> length es" using False i by (auto intro: ccontr)
    ultimately show ?thesis
      using False sorted_nth_mono [of "map we_epoch es" "n - 1" "length es - 1"] by (simp add: last_map last_conv_nth min_def)
  qed simp
  with run_fsync i show ?case by (auto simp: wal_inv_def fsync_def max_def)
next
  case (run_fsync_failed w es n w' e)
  then show ?case by (auto simp: fsync_def)
next
  case (run_recover w es n bs w' es')
  obtain m w'' where "recover True (wal_open bs) = (w'', Inr (take m es))" "wal_inv w'' (take m es) m" "m \<le> length es"
    using recover_torn [OF run_recover.IH run_recover(2)] by blast
  with run_recover(3) show ?case by auto
qed

section \<open>The dedup filter\<close>

lemma get_bit_iff: "get_bit bits i \<longleftrightarrow> bit (bits ! (i div 64)) (i mod 64)"
  unfolding get_bit_def by (simp add: and_one_eq bit_iff_odd_drop_bit odd_iff_mod_2_eq_one)

lemma get_set_bit:
  "i div 64 < length bits \<Longrightarrow> get_bit (set_bit i bits) c \<longleftrightarrow> get_bit bits c \<or> c = i"
  using bloom_test_mark [of i bits c] by (simp add: get_bit_iff bloom_test_bit set_bit_def bloom_mark_def Let_def)

lemma set_bits_spec:
  "\<forall>i \<in> set is. i div 64 < length bits \<Longrightarrow>
     length (fold set_bit is bits) = length bits \<and>
     (\<forall>c. get_bit (fold set_bit is bits) c \<longleftrightarrow> get_bit bits c \<or> c \<in> set is)"
proof (induction "is" arbitrary: bits)
  case (Cons i "is")
  then have "length (set_bit i bits) = length bits" by (simp add: set_bit_def)
  with Cons show ?case by (auto simp: get_set_bit)
qed simp

lemma hash_indices_bound: "i \<in> set (hash_indices h) \<Longrightarrow> i div 64 < BLOOM_WORDS"
  by (auto simp: hash_indices_def Let_def BLOOM_WORDS_def BLOOM_BITS_def)

lemma dedup_insert_fold:
  assumes "length (db_bits bl) = BLOOM_WORDS"
  shows "length (db_bits (fold dedup_insert hs bl)) = BLOOM_WORDS \<and>
    (\<forall>c. get_bit (db_bits (fold dedup_insert hs bl)) c \<longleftrightarrow>
       get_bit (db_bits bl) c \<or> (\<exists>h \<in> set hs. c \<in> set (hash_indices h)))"
  using assms
proof (induction hs arbitrary: bl)
  case (Cons h hs)
  have "\<forall>i \<in> set (hash_indices h). i div 64 < length (db_bits bl)" using hash_indices_bound Cons.prems by simp
  from set_bits_spec [OF this] Cons.prems
  have "length (db_bits (dedup_insert h bl)) = BLOOM_WORDS"
    "\<And>c. get_bit (db_bits (dedup_insert h bl)) c \<longleftrightarrow> get_bit (db_bits bl) c \<or> c \<in> set (hash_indices h)"
    by (simp_all add: dedup_insert_def)
  with Cons.IH [of "dedup_insert h bl"] show ?case by auto
qed simp

lemma get_bit_zero: "c div 64 < n \<Longrightarrow> \<not> get_bit (replicate n 0) c"
  by (simp add: get_bit_iff)

section \<open>Properties\<close>

text \<open>C5 Durability across crashes. In any run of appends, syncs, crashes and recoveries that starts from an empty
  log, in which a write that stops inside a frame is followed by no other write before the log is recovered,
  with \<open>n\<close> entries synced: whatever follows the durable bytes in the file after a crash, recovery returns the
  synced entries, in order, first; and when the crash tears the file at some byte after the durable part, in
  the middle of a failing write too, recovery returns exactly the entries whose frames are complete in what is
  left of the file, among them all the synced ones.\<close>

theorem wal_crash_durability:
  assumes "wal_run w es n"
  shows "(\<forall>junk. take n (recover_wal_from_reader (w_durable w @ junk)) = take n es \<and>
      n \<le> length (recover_wal_from_reader (w_durable w @ junk))) \<and>
    (\<forall>bs. crash_file w bs \<longrightarrow> (\<exists>m. n \<le> m \<and> m \<le> length es \<and>
       recover_wal_from_reader bs = take m es \<and>
       (\<forall>j \<le> length es. j \<le> m \<longleftrightarrow> length (concat (map entry_frame (take j es))) \<le> length bs) \<and>
       take (length (concat (map entry_frame (take m es)))) bs = concat (map entry_frame (take m es))))"
proof -
  note inv = wal_run_inv [OF assms] note i = inv [unfolded wal_inv_def]
  have wf: "\<forall>e \<in> set (take n es). entry_wf e" using i by (meson in_set_takeD)
  have "take n (recover_wal_from_reader (w_durable w @ junk)) = take n es \<and>
      n \<le> length (recover_wal_from_reader (w_durable w @ junk))" for junk
    using i parse_frames_append [OF wf, of junk] by (simp add: recover_wal_from_reader_def parse_wal_frames_with_pos_def)
  moreover have "\<exists>m. n \<le> m \<and> m \<le> length es \<and> recover_wal_from_reader bs = take m es \<and>
      (\<forall>j \<le> length es. j \<le> m \<longleftrightarrow> length (frames (take j es)) \<le> length bs) \<and>
      take (length (frames (take m es))) bs = frames (take m es)"
    if c: "crash_file w bs" for bs
  proof -
    obtain m where m: "n \<le> m" "m \<le> length es" "parse_wal_frames_with_pos bs = (take m es, length (frames (take m es)))"
      "\<And>j. j \<le> length es \<Longrightarrow> length (frames (take j es)) \<le> length bs \<Longrightarrow> j \<le> m"
      "bs = frames (take m es) @ drop (length (frames (take m es))) bs" by (rule parse_crash_file [OF inv c]) blast
    have "length (frames (take m es)) \<le> length bs" using arg_cong [OF m(5), of length] by simp
    moreover have "length (frames (take j es)) \<le> length (frames (take m es))" if "j \<le> m" for j
    proof -
      have "take m es = take j es @ take (m - j) (drop j es)" using that by (metis le_add_diff_inverse take_add)
      then show ?thesis by simp
    qed
    ultimately have "j \<le> m \<longleftrightarrow> length (frames (take j es)) \<le> length bs" if "j \<le> length es" for j
      using m(4) that by (meson le_trans)
    moreover have "take (length (frames (take m es))) bs = frames (take m es)" using m(5) by (metis append_eq_conv_conj)
    ultimately show ?thesis using m(1-3) by (intro exI [of _ m]) (simp add: recover_wal_from_reader_def)
  qed
  ultimately show ?thesis by blast
qed

text \<open>One synced entry, one entry that is written and not synced, and a third write that stops after five bytes:
  the file holds two complete frames, and both are recovered.\<close>

theorem wal_crash_durability_witness:
  "\<exists>w w' e. wal_run w [\<lparr>we_epoch = 1, we_payload = [7]\<rparr>, \<lparr>we_epoch = 2, we_payload = []\<rparr>] 1 \<and>
     append_raw (Some 5) 3 [] w = (w', Inl e) \<and> length (w_file w') = 50 \<and>
     recover_wal_from_reader (w_file w') = [\<lparr>we_epoch = 1, we_payload = [7]\<rparr>, \<lparr>we_epoch = 2, we_payload = []\<rparr>] \<and>
     take 1 (recover_wal_from_reader (w_durable w @ [0xFF])) = [\<lparr>we_epoch = 1, we_payload = [7]\<rparr>]"
proof -
  let ?x = "\<lparr>we_epoch = 1, we_payload = [7]\<rparr>" and ?y = "\<lparr>we_epoch = 2, we_payload = []\<rparr>"
  obtain w1 where "append_raw None 1 [7] wal_create = (w1, Inr ())"
    by (simp add: append_raw_ok wal_create_def MAX_PAYLOAD_SIZE_def)
  then have r1: "wal_run w1 [?x] 0" using run_append [OF run_create, of 1 "[7]" w1] by simp
  obtain w2 where "fsync True w1 = (w2, Inr ())" by (simp add: fsync_def)
  from run_fsync [OF r1 this] have r2: "wal_run w2 [?x] 1" by simp
  note i2 = wal_run_inv [OF r2, unfolded wal_inv_def]
  obtain w where "append_raw None 2 [] w2 = (w, Inr ())" using i2 by (simp add: append_raw_ok MAX_PAYLOAD_SIZE_def)
  from run_append [OF r2 this] have r: "wal_run w [?x, ?y] 1" by simp
  note i = wal_run_inv [OF r, unfolded wal_inv_def]
  have p: "pending_epoch w = 2" "w_pos w = length (w_file w)" "length (w_file w) = 45" "length (w_durable w) \<le> 45"
    using i by (simp_all add: length_entry_frame)
  obtain w' e where w': "append_raw (Some 5) 3 [] w = (w', Inl e)" "w_file w' = w_file w @ take 5 (encode_frame 3 [])"
    using p by (simp add: append_raw_def write_frame_def write_all_def write_at_end u32_max_def)
  have fl: "length (encode_frame 3 []) = 22" using length_entry_frame [of "\<lparr>we_epoch = 3, we_payload = []\<rparr>"] by (simp add: entry_frame_def)
  have len: "length (w_file w') = 50" using w'(2) p(3) fl by simp
  have c: "crash_file w (w_file w')"
    unfolding crash_file_def using w'(1) fl p(4) len
    by (intro exI [of _ 50] conjI disjI2 exI [of _ 5] exI [of _ 3] exI [of _ "[]"] exI [of _ w'] exI [of _ e]) simp_all
  obtain m where m: "m \<le> length [?x, ?y]" "recover_wal_from_reader (w_file w') = take m [?x, ?y]"
    "\<forall>j \<le> length [?x, ?y]. j \<le> m \<longleftrightarrow> length (concat (map entry_frame (take j [?x, ?y]))) \<le> length (w_file w')"
    using mp [OF spec [OF conjunct2 [OF wal_crash_durability [OF r]]] c] by blast
  have "2 \<le> m" using m(3) len by (auto simp: length_entry_frame)
  then have "recover_wal_from_reader (w_file w') = [?x, ?y]" using m(2) by simp
  moreover have "take 1 (recover_wal_from_reader (w_durable w @ [0xFF])) = [?x]" using wal_crash_durability [OF r] by simp
  ultimately show ?thesis using r w'(1) len by blast
qed

text \<open>The log's epochs. In any run, the epochs of the entries strictly increase, epoch 0 apart, which
  the guard lets repeat; \<open>pending_epoch\<close> is the last epoch written and \<open>last_synced_epoch\<close> the last one
  that is durable; and an append is accepted exactly when its epoch exceeds the last nonzero one and
  its payload has at most 256 MiB.\<close>

theorem wal_epochs:
  assumes "wal_run w es n"
  shows "sorted_wrt (\<lambda>a b. a < b \<or> a = 0 \<and> b = 0) (map we_epoch es) \<and>
    pending_epoch w = last (0 # map we_epoch es) \<and>
    last_synced_epoch w = last (0 # map we_epoch (take n es)) \<and>
    (\<forall>ep p. \<not> isl (snd (append_raw None ep p w)) \<longleftrightarrow>
       (last (0 # map we_epoch es) < ep \<or> last (0 # map we_epoch es) = 0) \<and> length p \<le> MAX_PAYLOAD_SIZE)"
proof -
  note i = wal_run_inv [OF assms, unfolded wal_inv_def epoch_follows_def [abs_def]]
  have "\<not> isl r \<longleftrightarrow> r = Inr ()" for r :: "ferra_error + unit" by (cases r) auto
  then have "\<not> isl (snd (append_raw None ep p w)) \<longleftrightarrow> (\<exists>w'. append_raw None ep p w = (w', Inr ()))" for ep p
    by (metis prod.collapse snd_conv)
  then show ?thesis using i by (simp add: append_raw_ok)
qed

theorem wal_epochs_witness: "pending_epoch wal_create = last (0 # map we_epoch ([] :: wal_entry list))"
  using wal_epochs [OF run_create] by blast

text \<open>Recovery resumes the log. Recovering a reopened file that holds complete frames followed by a
  torn frame returns exactly the complete entries, cuts the file after them, makes that durable, and
  leaves a log on which a later append is recovered after them.\<close>

theorem wal_recover_resumes:
  assumes "\<forall>e \<in> set es. entry_wf e" "entry_wf x" "k < length (entry_frame x)"
    "recover True (wal_open (concat (map entry_frame es) @ take k (entry_frame x))) = (w, r)"
    "append_raw None ep p w = (w', Inr ())"
  shows "r = Inr es \<and> w_file w = concat (map entry_frame es) \<and> w_durable w = w_file w \<and>
    pending_epoch w = last (0 # map we_epoch es) \<and>
    recover_wal_from_reader (w_file w') = es @ [\<lparr>we_epoch = ep, we_payload = p\<rparr>]"
proof -
  let ?f = "frames es @ take k (entry_frame x)"
  have p: "parse_wal_frames_with_pos ?f = (es, length (frames es))"
    using parse_frames_append [OF assms(1), of "take k (entry_frame x)"] parse_torn_frame [OF assms(2,3)]
    by (simp add: parse_wal_frames_with_pos_def)
  have w: "r = Inr es" "w_file w = frames es" "w_durable w = frames es" "w_pos w = length (frames es)"
    "pending_epoch w = last (0 # map we_epoch es)"
    using assms(4) p by (auto simp: recover_def wal_open_def Let_def last_map split: if_splits)
  from assms(5) w have "w_file w' = frames (es @ [\<lparr>we_epoch = ep, we_payload = p\<rparr>])" "length p \<le> MAX_PAYLOAD_SIZE"
    by (auto simp: append_raw_ok write_at_end)
  with assms(1) w parse_frames_exact [of "es @ [\<lparr>we_epoch = ep, we_payload = p\<rparr>]"] show ?thesis
    by (auto simp: recover_wal_from_reader_def entry_wf_def)
qed

theorem wal_recover_resumes_witness:
  "\<exists>w r. recover True (wal_open (concat (map entry_frame []) @ take 5 (entry_frame \<lparr>we_epoch = 1, we_payload = []\<rparr>))) = (w, r) \<and>
     r = Inr []"
proof -
  let ?x = "\<lparr>we_epoch = 1, we_payload = []\<rparr>"
  obtain w r where w: "recover True (wal_open (concat (map entry_frame []) @ take 5 (entry_frame ?x))) = (w, r)" by fastforce
  have x: "entry_wf ?x" "5 < length (entry_frame ?x)" by (simp_all add: entry_wf_def length_entry_frame)
  have pe: "pending_epoch w = 0"
    using w parse_torn_frame [OF x] by (auto simp: recover_def wal_open_def parse_wal_frames_with_pos_def Let_def split: if_splits)
  obtain w' where "append_raw None 1 [] w = (w', Inr ())" using pe by (simp add: append_raw_ok MAX_PAYLOAD_SIZE_def)
  from wal_recover_resumes [OF _ x w this] w show ?thesis by auto
qed

text \<open>The dedup filter has no false negatives. After inserting any content hashes into a fresh or
  cleared filter, the filter answers true for a hash exactly when all its bit positions are positions
  of inserted hashes; so for every inserted hash.\<close>

theorem dedup_no_false_negatives:
  assumes "bl = dedup_new \<or> (\<exists>b. length (db_bits b) = BLOOM_WORDS \<and> bl = dedup_clear b)"
  shows "(\<forall>h. probably_contains (fold dedup_insert hs bl) h \<longleftrightarrow>
      (\<forall>i \<in> set (hash_indices h). \<exists>h' \<in> set hs. i \<in> set (hash_indices h'))) \<and>
    (\<forall>h \<in> set hs. probably_contains (fold dedup_insert hs bl) h)"
proof -
  have "db_bits bl = replicate BLOOM_WORDS 0"
    using assms by (auto simp: dedup_new_def dedup_clear_def map_replicate_const)
  then have "length (db_bits bl) = BLOOM_WORDS" "\<And>c. c div 64 < BLOOM_WORDS \<Longrightarrow> \<not> get_bit (db_bits bl) c"
    by (simp_all add: get_bit_zero)
  with dedup_insert_fold [of bl hs] hash_indices_bound
  have "probably_contains (fold dedup_insert hs bl) h \<longleftrightarrow>
      (\<forall>i \<in> set (hash_indices h). \<exists>h' \<in> set hs. i \<in> set (hash_indices h'))" for h
    by (auto simp: probably_contains_def list_all_iff)
  then show ?thesis by blast
qed

theorem dedup_no_false_negatives_witness:
  "probably_contains (fold dedup_insert [replicate 32 7, replicate 32 9] dedup_new) (replicate 32 9)"
  using dedup_no_false_negatives [of dedup_new "[replicate 32 7, replicate 32 9]"] by simp

text \<open>A failed write is not cut off the log. When \<open>write_all\<close> stops in the middle of a frame, the bytes it
  wrote stay in the file and the handle stays behind them, so an entry appended and synced after the
  failure is not recovered.\<close>

theorem failed_write_hides_later_entries:
  assumes "append_raw (Some 5) 1 [] wal_create = (w1, r1)" "append_raw None 1 [] w1 = (w2, r2)"
    "fsync True w2 = (w3, r3)"
  shows "isl r1 \<and> r2 = Inr () \<and> r3 = Inr () \<and> recover_wal_from_reader (w_durable w3) = []"
proof -
  let ?x = "\<lparr>we_epoch = 1, we_payload = []\<rparr>"
  have w1: "w1 = write_at (take 5 (entry_frame ?x)) wal_create" "isl r1"
    using assms(1) by (auto simp: append_raw_def write_frame_def write_all_def wal_create_def entry_frame_def u32_max_def)
  have "w_file w1 = take 5 (entry_frame ?x)" "w_pos w1 = 5" "pending_epoch w1 = 0"
    using w1(1) by (simp_all add: write_at_def wal_create_def length_entry_frame)
  then have "\<exists>w. append_raw None 1 [] w1 = (w, Inr ()) \<and> w_file w = take 5 (entry_frame ?x) @ entry_frame ?x"
    by (simp add: append_raw_ok MAX_PAYLOAD_SIZE_def write_at_def length_entry_frame)
  with assms(2) have w2: "r2 = Inr ()" "w_file w2 = take 5 (entry_frame ?x) @ entry_frame ?x" by auto
  then have w3: "w_durable w3 = take 5 (entry_frame ?x) @ entry_frame ?x" "r3 = Inr ()" using assms(3) by (auto simp: fsync_def)
  have "take 5 (entry_frame ?x) ! 4 = 1" "entry_frame ?x ! 0 = 0x46" "length (take 5 (entry_frame ?x)) = 5"
    by (simp_all add: entry_frame_def encode_frame_def WAL_MAGIC_def WAL_VERSION_def length_entry_frame Let_def
        numeral_2_eq_2 nth_append)
  then have "try_parse_frame (w_durable w3) 0 = None"
    unfolding w3 by (simp add: try_parse_frame_def nth_append WAL_VERSION_def)
  then have "recover_wal_from_reader (w_durable w3) = []"
    by (simp add: recover_wal_from_reader_def parse_wal_frames_with_pos_def parse_frames_loop.simps [of "w_durable w3" 0])
  with w1 w2 w3 show ?thesis by simp
qed

end
