(* ===== verification/Schema.thy ===== *)
theory Schema
  imports Datom
begin

text \<open>
  Schema and transactions: the attribute definitions and the schema map (\<open>ferratom/schema.rs\<close>), the
  transaction typestate with its commit-time validation (crate \<open>ferratomic-tx\<close>), the genesis
  meta-schema, the schema evolution that a transaction may trigger
  (\<open>ferratomic-store/schema_evolution.rs\<close>) and the schema merge (\<open>ferratomic-store/merge.rs\<close>).

  \<open>evolve_schema\<close> groups the datoms of a transaction in a \<open>HashMap\<close> and iterates over its values; the
  iteration order of the hash map is the parameter \<open>order\<close>, of which only \<open>iteration_order\<close> is known:
  it enumerates the keys, each once. The schema is mutated in place, so the function returns the
  schema also when it fails.
\<close>

section \<open>Attribute definitions (schema.rs)\<close>

datatype value_type =
    TKeyword | TString | TLong | TDouble | TBoolean | TInstant | TUuid | TBytes | TRef | TBigInt | TBigDec

datatype cardinality = One | Many

datatype resolution_mode = Lww | MultiValue

datatype attribute_def =
  AttributeDef (def_value_type: value_type) (def_cardinality: cardinality)
    (def_resolution_mode: resolution_mode) (def_doc: "string option")

text \<open>The derived order: the position of the variant, then field by field.\<close>

fun value_type_rank :: "value_type \<Rightarrow> nat" where
  "value_type_rank TKeyword = 0" | "value_type_rank TString = 1" | "value_type_rank TLong = 2"
| "value_type_rank TDouble = 3" | "value_type_rank TBoolean = 4" | "value_type_rank TInstant = 5"
| "value_type_rank TUuid = 6" | "value_type_rank TBytes = 7" | "value_type_rank TRef = 8"
| "value_type_rank TBigInt = 9" | "value_type_rank TBigDec = 10"

lemma value_type_rank_inject [simp]: "value_type_rank a = value_type_rank b \<longleftrightarrow> a = b"
  by (cases a; cases b) simp_all

definition def_key :: "attribute_def \<Rightarrow> nat \<times> bool \<times> bool \<times> string option" where
  "def_key d = (value_type_rank (def_value_type d), def_cardinality d = Many,
     def_resolution_mode d = MultiValue, def_doc d)"

lemma def_key_inject [simp]: "def_key a = def_key b \<longleftrightarrow> a = b"
proof -
  have "(c = Many \<longleftrightarrow> c' = Many) \<longleftrightarrow> c = c'" for c c' by (cases c; cases c') simp_all
  moreover have "(c = MultiValue \<longleftrightarrow> c' = MultiValue) \<longleftrightarrow> c = c'" for c c' by (cases c; cases c') simp_all
  ultimately show ?thesis by (auto simp: def_key_def attribute_def.expand)
qed

instantiation attribute_def :: linorder
begin

definition less_eq_attribute_def :: "attribute_def \<Rightarrow> attribute_def \<Rightarrow> bool" where
  "a \<le> b \<longleftrightarrow> def_key a \<le> def_key b"

definition less_attribute_def :: "attribute_def \<Rightarrow> attribute_def \<Rightarrow> bool" where
  "a < b \<longleftrightarrow> def_key a < def_key b"

instance
  by standard (auto simp: less_eq_attribute_def_def less_attribute_def_def intro: le_neq_trans)

end

section \<open>The schema\<close>

type_synonym schema = "(attribute, attribute_def) omap"

definition schema_empty :: schema where
  "schema_empty = []"

definition schema_get :: "schema \<Rightarrow> attribute \<Rightarrow> attribute_def option" where
  "schema_get s a = om_get s a"

definition schema_contains :: "schema \<Rightarrow> attribute \<Rightarrow> bool" where
  "schema_contains s a \<longleftrightarrow> schema_get s a \<noteq> None"

definition define_attr :: "attribute \<Rightarrow> attribute_def \<Rightarrow> schema \<Rightarrow> schema" where
  "define_attr a d s =
     (case schema_get s a of
        Some existing \<Rightarrow> if existing = d then s else om_insert a d s
      | None \<Rightarrow> om_insert a d s)"

definition from_attrs :: "(attribute \<times> attribute_def) list \<Rightarrow> schema" where
  "from_attrs ads = fold (\<lambda>(a, d). om_insert a d) ads []"

definition schema_inv :: "schema \<Rightarrow> bool" where
  "schema_inv s \<longleftrightarrow> om_inv s"

lemma schema_inv_om_inv: "schema_inv = om_inv"
  by (rule ext) (simp add: schema_inv_def)

lemma schema_inv_empty [simp]: "schema_inv schema_empty"
  by (simp add: schema_inv_def schema_empty_def)

lemma schema_inv_define [simp]: "schema_inv s \<Longrightarrow> schema_inv (define_attr a d s)"
  by (simp add: schema_inv_def define_attr_def split: option.splits)

lemma schema_get_define [simp]: "schema_get (define_attr a d s) b = (if b = a then Some d else schema_get s b)"
  by (simp add: define_attr_def schema_get_def split: option.splits)

lemma schema_get_empty [simp]: "schema_get schema_empty a = None"
  by (simp add: schema_get_def schema_empty_def)

lemma schema_ext:
  "schema_inv s \<Longrightarrow> schema_inv t \<Longrightarrow> (\<And>a. schema_get s a = schema_get t a) \<Longrightarrow> s = t"
  by (rule om_ext) (simp_all add: schema_inv_def schema_get_def)

section \<open>Transactions (crate ferratomic-tx)\<close>

record transaction =
  t_node :: node_id
  t_datoms :: "datom list"

text \<open>The typestate: only a building transaction accepts datoms, only a committed one yields them.\<close>

datatype building = Building transaction

datatype committed = Committed transaction

definition placeholder_tx :: txid where
  "placeholder_tx = with_node 0 0 zero_node"

definition tx_new :: "node_id \<Rightarrow> building" where
  "tx_new n = Building \<lparr>t_node = n, t_datoms = []\<rparr>"

fun assert_datom :: "building \<Rightarrow> entity_id \<Rightarrow> attribute \<Rightarrow> val \<Rightarrow> building" where
  "assert_datom (Building t) e a v =
     Building (t\<lparr>t_datoms := t_datoms t @ [Datom e a v placeholder_tx Assert]\<rparr>)"

fun retract_datom :: "building \<Rightarrow> entity_id \<Rightarrow> attribute \<Rightarrow> val \<Rightarrow> building" where
  "retract_datom (Building t) e a v =
     Building (t\<lparr>t_datoms := t_datoms t @ [Datom e a v placeholder_tx Retract]\<rparr>)"

fun into_datoms :: "committed \<Rightarrow> datom list" where
  "into_datoms (Committed t) = t_datoms t"

fun committed_node :: "committed \<Rightarrow> node_id" where
  "committed_node (Committed t) = t_node t"

datatype tx_validation_error =
    TxUnknownAttribute string
  | TxSchemaViolation string
  | TxCardinalityViolation string

fun from_validation_error :: "tx_validation_error \<Rightarrow> ferra_error" where
  "from_validation_error (TxUnknownAttribute a) = UnknownAttribute a"
| "from_validation_error (TxSchemaViolation a) = SchemaViolation a"
| "from_validation_error (TxCardinalityViolation a) = SchemaViolation a"

fun value_matches_type :: "val \<Rightarrow> value_type \<Rightarrow> bool" where
  "value_matches_type (VKeyword _) t \<longleftrightarrow> t = TKeyword"
| "value_matches_type (VString _) t \<longleftrightarrow> t = TString"
| "value_matches_type (VLong _) t \<longleftrightarrow> t = TLong"
| "value_matches_type (VDouble _) t \<longleftrightarrow> t = TDouble"
| "value_matches_type (VBool _) t \<longleftrightarrow> t = TBoolean"
| "value_matches_type (VInstant _) t \<longleftrightarrow> t = TInstant"
| "value_matches_type (VUuid _) t \<longleftrightarrow> t = TUuid"
| "value_matches_type (VBytes _) t \<longleftrightarrow> t = TBytes"
| "value_matches_type (VRef _) t \<longleftrightarrow> t = TRef"
| "value_matches_type (VBigInt _) t \<longleftrightarrow> t = TBigInt"
| "value_matches_type (VBigDec _) t \<longleftrightarrow> t = TBigDec"

fun validate_datoms :: "datom list \<Rightarrow> schema \<Rightarrow> tx_validation_error + unit" where
  "validate_datoms [] s = Inr ()"
| "validate_datoms (d # ds) s =
     (case schema_get s (d_attribute d) of
        None \<Rightarrow> Inl (TxUnknownAttribute (as_str (d_attribute d)))
      | Some def \<Rightarrow>
          if \<not> value_matches_type (d_value d) (def_value_type def)
          then Inl (TxSchemaViolation (as_str (d_attribute d)))
          else validate_datoms ds s)"

fun commit :: "building \<Rightarrow> schema \<Rightarrow> tx_validation_error + committed" where
  "commit (Building t) s =
     bind_result (validate_datoms (t_datoms t) s) (\<lambda>_. Inr (Committed t))"

text \<open>A datom is admissible when its attribute is defined with the type of its value.\<close>

definition admissible :: "schema \<Rightarrow> datom \<Rightarrow> bool" where
  "admissible s d \<longleftrightarrow>
     (case schema_get s (d_attribute d) of
        None \<Rightarrow> False | Some def \<Rightarrow> value_matches_type (d_value d) (def_value_type def))"

definition datom_error :: "schema \<Rightarrow> datom \<Rightarrow> tx_validation_error" where
  "datom_error s d =
     (if schema_contains s (d_attribute d) then TxSchemaViolation (as_str (d_attribute d))
      else TxUnknownAttribute (as_str (d_attribute d)))"

lemma validate_datoms_spec:
  "validate_datoms ds s =
     (case filter (\<lambda>d. \<not> admissible s d) ds of [] \<Rightarrow> Inr () | d # _ \<Rightarrow> Inl (datom_error s d))"
  by (induction ds)
     (auto simp: admissible_def datom_error_def schema_contains_def split: option.splits list.splits)

lemma value_type_unique: "value_matches_type v t \<Longrightarrow> value_matches_type v t' \<Longrightarrow> t = t'"
  by (cases v) simp_all

section \<open>The genesis meta-schema (schema_evolution.rs)\<close>

definition lww_kw :: "string \<Rightarrow> attribute_def" where
  "lww_kw doc = AttributeDef TKeyword One Lww (Some doc)"

definition lww_str :: "string \<Rightarrow> attribute_def" where
  "lww_str doc = AttributeDef TString One Lww (Some doc)"

definition lww_bool :: "string \<Rightarrow> attribute_def" where
  "lww_bool doc = AttributeDef TBoolean One Lww (Some doc)"

definition lww_ref :: "string \<Rightarrow> attribute_def" where
  "lww_ref doc = AttributeDef TRef One Lww (Some doc)"

definition lww_instant :: "string \<Rightarrow> attribute_def" where
  "lww_instant doc = AttributeDef TInstant One Lww (Some doc)"

definition lww_bytes :: "string \<Rightarrow> attribute_def" where
  "lww_bytes doc = AttributeDef TBytes One Lww (Some doc)"

definition mv_ref_many :: "string \<Rightarrow> attribute_def" where
  "mv_ref_many doc = AttributeDef TRef Many MultiValue (Some doc)"

lemmas genesis_helpers =
  lww_kw_def lww_str_def lww_bool_def lww_ref_def lww_instant_def lww_bytes_def mv_ref_many_def

definition meta_schema_attrs :: "(string \<times> attribute_def) list" where
  "meta_schema_attrs =
    [(''db/ident'', lww_kw ''Attribute identity keyword''),
     (''db/valueType'', lww_kw ''Declared value type''),
     (''db/cardinality'', lww_kw ''Cardinality: one or many''),
     (''db/doc'', lww_str ''Documentation string''),
     (''db/unique'', lww_kw ''Uniqueness constraint''),
     (''db/isComponent'', lww_bool ''Component ownership''),
     (''db/resolutionMode'', lww_kw ''CRDT conflict resolution mode''),
     (''db/latticeOrder'', lww_ref ''Reference to lattice definition''),
     (''db/lwwClock'', lww_kw ''LWW clock source''),
     (''lattice/ident'', lww_kw ''Lattice name''),
     (''lattice/elements'', lww_str ''Ordered element list''),
     (''lattice/comparator'', lww_str ''Comparison function''),
     (''lattice/bottom'', lww_kw ''Least element''),
     (''lattice/top'', lww_kw ''Greatest element'')]"

definition tx_schema_attrs :: "(string \<times> attribute_def) list" where
  "tx_schema_attrs =
    [(''tx/derivation-input'', mv_ref_many ''Input datoms for derivation (D20, Phase 4d)''),
     (''tx/derivation-rule'', lww_kw ''Rule that produced derivation (D20, Phase 4d)''),
     (''tx/derivation-source'', lww_kw ''Source of derived datoms (D20)''),
     (''tx/origin'', lww_ref ''Node that originated transaction''),
     (''tx/predecessor'', mv_ref_many ''Causal predecessor entity refs (INV-FERR-061)''),
     (''tx/provenance'', lww_kw ''Epistemic confidence level (INV-FERR-063)''),
     (''tx/rationale'', lww_str ''Why this transaction exists''),
     (''tx/signature'', lww_bytes ''Ed25519 signature bytes (INV-FERR-051)''),
     (''tx/signer'', lww_bytes ''Ed25519 verifying key bytes (INV-FERR-051)''),
     (''tx/time'', lww_instant ''Transaction wall-clock time''),
     (''tx/validation-override'', lww_str ''Manual validation exemption'')]"

definition define_all :: "(string \<times> attribute_def) list \<Rightarrow> schema \<Rightarrow> schema" where
  "define_all ads s = fold (\<lambda>(n, d). define_attr (Attribute n) d) ads s"

definition define_meta_schema :: "schema \<Rightarrow> schema" where
  "define_meta_schema = define_all meta_schema_attrs"

definition define_tx_schema :: "schema \<Rightarrow> schema" where
  "define_tx_schema = define_all tx_schema_attrs"

definition genesis_schema :: schema where
  "genesis_schema = define_tx_schema (define_meta_schema schema_empty)"

lemma schema_inv_define_all [simp]: "schema_inv s \<Longrightarrow> schema_inv (define_all ads s)"
  by (induction ads arbitrary: s) (auto simp: define_all_def)

lemma schema_get_define_all:
  "distinct (map fst ads) \<Longrightarrow>
     schema_get (define_all ads s) (Attribute n) =
       (case map_of ads n of Some d \<Rightarrow> Some d | None \<Rightarrow> schema_get s (Attribute n))"
proof (induction ads arbitrary: s)
  case (Cons p ads)
  obtain m d where p: "p = (m, d)" by fastforce
  with Cons.prems have "map_of ads m = None" by (auto simp: map_of_eq_None_iff)
  with Cons p show ?case by (simp add: define_all_def split: option.splits)
qed (simp add: define_all_def)

lemma schema_inv_genesis [simp]: "schema_inv genesis_schema"
  by (simp add: genesis_schema_def define_tx_schema_def define_meta_schema_def)

section \<open>Schema evolution (schema_evolution.rs)\<close>

definition parse_value_type :: "string \<Rightarrow> value_type option" where
  "parse_value_type keyword = map_of
     [(''db.type/keyword'', TKeyword), (''db.type/string'', TString), (''db.type/long'', TLong),
      (''db.type/double'', TDouble), (''db.type/boolean'', TBoolean), (''db.type/instant'', TInstant),
      (''db.type/uuid'', TUuid), (''db.type/bytes'', TBytes), (''db.type/ref'', TRef),
      (''db.type/bigint'', TBigInt), (''db.type/bigdec'', TBigDec)] keyword"

definition parse_cardinality :: "string \<Rightarrow> cardinality option" where
  "parse_cardinality keyword =
     map_of [(''db.cardinality/one'', One), (''db.cardinality/many'', Many)] keyword"

definition as_keyword :: "val \<Rightarrow> string option" where
  "as_keyword v = (case v of VKeyword kw \<Rightarrow> Some kw | _ \<Rightarrow> None)"

definition db_ident :: attribute where "db_ident = Attribute ''db/ident''"
definition db_value_type :: attribute where "db_value_type = Attribute ''db/valueType''"
definition db_cardinality :: attribute where "db_cardinality = Attribute ''db/cardinality''"

lemma db_attrs_distinct [simp]:
  "db_ident \<noteq> db_value_type" "db_ident \<noteq> db_cardinality" "db_value_type \<noteq> db_cardinality"
  "db_value_type \<noteq> db_ident" "db_cardinality \<noteq> db_ident" "db_cardinality \<noteq> db_value_type"
  by (simp_all add: db_ident_def db_value_type_def db_cardinality_def)

text \<open>\<open>if let Some(prev) = acc { if prev != x { return Err } } acc = Some(x)\<close>\<close>

definition set_once :: "string \<Rightarrow> 'a \<Rightarrow> 'a option \<Rightarrow> ferra_error + 'a option" where
  "set_once field x acc =
     (case acc of Some prev \<Rightarrow> if prev \<noteq> x then Inl (SchemaViolation field) else Inr (Some x)
                | None \<Rightarrow> Inr (Some x))"

type_synonym def_acc = "string option \<times> value_type option \<times> cardinality option"

fun extract_loop :: "datom list \<Rightarrow> def_acc \<Rightarrow> ferra_error + def_acc" where
  "extract_loop [] acc = Inr acc"
| "extract_loop (d # ds) (ident, vtype, crd) =
     (case as_keyword (d_value d) of
        None \<Rightarrow> extract_loop ds (ident, vtype, crd)
      | Some kw \<Rightarrow>
          if d_attribute d = db_ident then
            bind_result (set_once ''db/ident'' kw ident) (\<lambda>i. extract_loop ds (i, vtype, crd))
          else if d_attribute d = db_value_type then
            (case parse_value_type kw of
               None \<Rightarrow> Inl (SchemaViolation ''db/valueType'')
             | Some vt \<Rightarrow>
                 bind_result (set_once ''db/valueType'' vt vtype) (\<lambda>v. extract_loop ds (ident, v, crd)))
          else if d_attribute d = db_cardinality then
            (case parse_cardinality kw of
               None \<Rightarrow> Inl (SchemaViolation ''db/cardinality'')
             | Some c \<Rightarrow>
                 bind_result (set_once ''db/cardinality'' c crd) (\<lambda>c'. extract_loop ds (ident, vtype, c')))
          else extract_loop ds (ident, vtype, crd))"

definition extract_attribute_def :: "datom list \<Rightarrow> ferra_error + (attribute \<times> attribute_def) option" where
  "extract_attribute_def ds =
     bind_result (extract_loop ds (None, None, None)) (\<lambda>(ident, vtype, crd).
       case (ident, vtype, crd) of
         (Some name, Some vt, Some c) \<Rightarrow> Inr (Some (Attribute name, AttributeDef vt c Lww None))
       | _ \<Rightarrow> Inr None)"

definition entity_group :: "datom list \<Rightarrow> entity_id \<Rightarrow> datom list" where
  "entity_group ds e = filter (\<lambda>d. d_entity d = e) ds"

fun evolve_groups :: "datom list list \<Rightarrow> schema \<Rightarrow> schema \<times> (ferra_error + unit)" where
  "evolve_groups [] s = (s, Inr ())"
| "evolve_groups (g # gs) s =
     (case extract_attribute_def g of
        Inl e \<Rightarrow> (s, Inl e)
      | Inr None \<Rightarrow> evolve_groups gs s
      | Inr (Some (a, d)) \<Rightarrow> evolve_groups gs (define_attr a d s))"

definition evolve_schema ::
  "(entity_id list \<Rightarrow> entity_id list) \<Rightarrow> schema \<Rightarrow> datom list \<Rightarrow> schema \<times> (ferra_error + unit)" where
  "evolve_schema order s ds =
     evolve_groups (map (entity_group ds) (order (remdups (map d_entity ds)))) s"

text \<open>What is known of a hash map's iteration order.\<close>

definition iteration_order :: "('a list \<Rightarrow> 'a list) \<Rightarrow> bool" where
  "iteration_order order \<longleftrightarrow> (\<forall>ks. distinct ks \<longrightarrow> distinct (order ks) \<and> set (order ks) = set ks)"

lemma iteration_order_id: "iteration_order (\<lambda>ks. ks)" and iteration_order_rev: "iteration_order rev"
  by (simp_all add: iteration_order_def)

subsection \<open>What a group of datoms defines\<close>

definition keywords_at :: "datom list \<Rightarrow> attribute \<Rightarrow> string set" where
  "keywords_at ds a = {kw. \<exists>d \<in> set ds. d_attribute d = a \<and> d_value d = VKeyword kw}"

lemma as_keyword_Some [simp]: "as_keyword v = Some kw \<longleftrightarrow> v = VKeyword kw"
  by (cases v) (simp_all add: as_keyword_def)

lemma as_keyword_VKeyword [simp]: "as_keyword (VKeyword kw) = Some kw"
  by simp

lemma keywords_at_simps [simp]:
  "keywords_at [] a = {}"
  "keywords_at (d # ds) a =
     (case as_keyword (d_value d) of
        Some kw \<Rightarrow> if d_attribute d = a then insert kw (keywords_at ds a) else keywords_at ds a
      | None \<Rightarrow> keywords_at ds a)"
  by (auto simp: keywords_at_def split: option.splits)

lemma set_once_Inr: "set_once f x acc = Inr y \<longleftrightarrow> insert x (set_option acc) = set_option y"
  by (cases acc; cases y) (auto simp: set_once_def)

lemma insert_None_image: "insert None A \<noteq> Some ` B" "Some ` B \<noteq> insert None A"
  by auto

lemma set_once_step:
  "(\<exists>y. set_once f x acc = Inr y \<and> K \<union> g ` set_option y = g ` set_option r \<and> Q) \<longleftrightarrow>
     insert (g x) K \<union> g ` set_option acc = g ` set_option r \<and> Q"
  "(\<exists>y. set_once f x acc = Inr y \<and> P \<and> K \<union> g ` set_option y = g ` set_option r \<and> Q) \<longleftrightarrow>
     P \<and> insert (g x) K \<union> g ` set_option acc = g ` set_option r \<and> Q"
  "(\<exists>y. set_once f x acc = Inr y \<and> P \<and> Q \<and> K \<union> g ` set_option y = g ` set_option r) \<longleftrightarrow>
     P \<and> Q \<and> insert (g x) K \<union> g ` set_option acc = g ` set_option r" if "inj g"
  using injD [OF that] by (cases acc; cases r; auto simp: set_once_def)+

text \<open>The loop succeeds exactly when each meta-attribute has at most one (recognised) value, and
  returns these values.\<close>

lemma extract_loop_spec:
  "extract_loop ds (i, v, c) = Inr (i', v', c') \<longleftrightarrow>
     id ` keywords_at ds db_ident \<union> id ` set_option i = id ` set_option i' \<and>
     parse_value_type ` keywords_at ds db_value_type \<union> Some ` set_option v = Some ` set_option v' \<and>
     parse_cardinality ` keywords_at ds db_cardinality \<union> Some ` set_option c = Some ` set_option c'"
proof (induction ds arbitrary: i v c)
  case Nil
  show ?case by (cases i; cases i'; cases v; cases v'; cases c; cases c') auto
next
  case (Cons d ds)
  note st = set_once_step [of id] set_once_step [of Some]
  show ?case
  proof (cases "as_keyword (d_value d)")
    case (Some kw)
    consider "d_attribute d = db_ident" | "d_attribute d = db_value_type" | "d_attribute d = db_cardinality"
      | "d_attribute d \<notin> {db_ident, db_value_type, db_cardinality}" by blast
    then show ?thesis
    proof cases
      case 1
      with Some st(1) show ?thesis by (simp add: Cons bind_result_Inr)
    next
      case 2
      with Some show ?thesis
        by (cases "parse_value_type kw") (simp_all add: Cons bind_result_Inr st(5) insert_None_image)
    next
      case 3
      with Some show ?thesis
        by (cases "parse_cardinality kw") (simp_all add: Cons bind_result_Inr st(6) insert_None_image)
    next
      case 4
      with Some show ?thesis by (simp add: Cons)
    qed
  qed (simp add: Cons)
qed

definition schema_defs :: "datom list \<Rightarrow> (attribute \<times> attribute_def) set" where
  "schema_defs ds =
     {p. \<exists>e \<in> d_entity ` set ds. extract_attribute_def (entity_group ds e) = Inr (Some p)}"

definition groups_ok :: "datom list \<Rightarrow> bool" where
  "groups_ok ds \<longleftrightarrow>
     list_all (\<lambda>e. \<not> isl (extract_attribute_def (entity_group ds e))) (map d_entity ds)"

definition group_defs :: "datom list list \<Rightarrow> (attribute \<times> attribute_def) list" where
  "group_defs gs =
     concat (map (\<lambda>g. case extract_attribute_def g of Inr (Some p) \<Rightarrow> [p] | _ \<Rightarrow> []) gs)"

lemma schema_inv_evolve_groups [simp]: "schema_inv s \<Longrightarrow> schema_inv (fst (evolve_groups gs s))"
  by (induction gs s rule: evolve_groups.induct)
     (simp_all split: sum.splits option.splits prod.splits)

lemma schema_inv_evolve [simp]: "schema_inv s \<Longrightarrow> schema_inv (fst (evolve_schema order s ds))"
  by (simp add: evolve_schema_def)

lemma evolve_groups_error:
  "isl (snd (evolve_groups gs s)) \<longleftrightarrow> (\<exists>g \<in> set gs. isl (extract_attribute_def g))"
proof (induction gs arbitrary: s)
  case (Cons g gs)
  then show ?case by (cases "extract_attribute_def g") (auto split: option.splits)
qed simp

lemma evolve_groups_success:
  "\<forall>g \<in> set gs. \<not> isl (extract_attribute_def g) \<Longrightarrow>
     evolve_groups gs s = (fold (\<lambda>(a, d). define_attr a d) (group_defs gs) s, Inr ())"
proof (induction gs arbitrary: s)
  case (Cons g gs)
  then obtain r where "extract_attribute_def g = Inr r" by (cases "extract_attribute_def g") auto
  with Cons show ?case by (cases r) (auto simp: group_defs_def)
qed (simp add: group_defs_def)

lemma schema_get_fold_define:
  assumes "single_valued (set ps)"
  shows "schema_get (fold (\<lambda>(a, d). define_attr a d) ps s) a =
     (case map_of ps a of Some d \<Rightarrow> Some d | None \<Rightarrow> schema_get s a)"
  using assms
proof (induction ps arbitrary: s)
  case (Cons p ps)
  obtain b d where p: "p = (b, d)" by fastforce
  with Cons.prems have "map_of ps b = None \<or> map_of ps b = Some d"
    by (metis list.set_intros(1,2) map_of_SomeD not_Some_eq single_valuedD)
  moreover have "single_valued (set ps)" using Cons.prems by (auto simp: single_valued_def)
  ultimately show ?case using Cons.IH p by (auto split: option.splits)
qed simp

lemma set_group_defs:
  assumes "iteration_order order"
  shows "set (group_defs (map (entity_group ds) (order (remdups (map d_entity ds))))) = schema_defs ds"
  using assms unfolding iteration_order_def group_defs_def schema_defs_def
  by (auto split: sum.splits option.splits)

lemma evolve_schema_error:
  "iteration_order order \<Longrightarrow> isl (snd (evolve_schema order s ds)) \<longleftrightarrow> \<not> groups_ok ds"
  unfolding iteration_order_def evolve_schema_def groups_ok_def
  by (simp add: evolve_groups_error list_all_iff)

lemma map_of_single_valued:
  "single_valued (set ps) \<Longrightarrow> map_of ps a = Some d \<longleftrightarrow> (a, d) \<in> set ps"
  by (induction ps) (auto simp: single_valued_def)

text \<open>On success the schema gains exactly the definitions of the transaction, whatever the order.\<close>

lemma evolve_schema_get:
  assumes "iteration_order order" "single_valued (schema_defs ds)" "groups_ok ds"
  shows "snd (evolve_schema order s ds) = Inr ()"
    and "schema_get (fst (evolve_schema order s ds)) a = Some d \<longleftrightarrow>
      (a, d) \<in> schema_defs ds \<or> a \<notin> fst ` schema_defs ds \<and> schema_get s a = Some d"
proof -
  let ?gs = "map (entity_group ds) (order (remdups (map d_entity ds)))"
  have "\<not> isl (snd (evolve_groups ?gs s))" "\<forall>g \<in> set ?gs. \<not> isl (extract_attribute_def g)"
    using evolve_schema_error [OF assms(1)] evolve_groups_error assms(3)
    unfolding evolve_schema_def by blast+
  from evolve_groups_success [OF this(2)]
  have e: "evolve_schema order s ds = (fold (\<lambda>(a, d). define_attr a d) (group_defs ?gs) s, Inr ())"
    by (simp add: evolve_schema_def)
  then show "snd (evolve_schema order s ds) = Inr ()" by simp
  have sv: "single_valued (set (group_defs ?gs))" using set_group_defs [OF assms(1)] assms(2) by simp
  show "schema_get (fst (evolve_schema order s ds)) a = Some d \<longleftrightarrow>
      (a, d) \<in> schema_defs ds \<or> a \<notin> fst ` schema_defs ds \<and> schema_get s a = Some d"
  proof (cases "map_of (group_defs ?gs) a")
    case None
    then have "a \<notin> fst ` schema_defs ds"
      using set_group_defs [OF assms(1), of ds] by (simp add: map_of_eq_None_iff)
    with None e show ?thesis by (force simp: schema_get_fold_define [OF sv])
  next
    case (Some d')
    then have "(a, d') \<in> schema_defs ds"
      using map_of_single_valued [OF sv] set_group_defs [OF assms(1), of ds] by simp
    with assms(2) have "(a, d) \<in> schema_defs ds \<longleftrightarrow> d' = d" "a \<in> fst ` schema_defs ds"
      by (force dest: single_valuedD)+
    with Some e show ?thesis by (simp add: schema_get_fold_define [OF sv])
  qed
qed

lemma evolve_schema_order_free:
  assumes "iteration_order o1" "iteration_order o2" "schema_inv s" "single_valued (schema_defs ds)"
    "snd (evolve_schema o1 s ds) = Inr ()"
  shows "evolve_schema o1 s ds = evolve_schema o2 s ds"
proof -
  have ok: "groups_ok ds" using evolve_schema_error [OF assms(1), of s ds] assms(5) by simp
  note g = evolve_schema_get [OF _ assms(4) ok]
  have "fst (evolve_schema o1 s ds) = fst (evolve_schema o2 s ds)"
    using g(2) [OF assms(1)] g(2) [OF assms(2)] assms(3)
    by (intro schema_ext) (simp_all add: option_eqI)
  then show ?thesis using g(1) [OF assms(1)] g(1) [OF assms(2)] by (simp add: prod_eq_iff)
qed

section \<open>Schema merge (merge.rs)\<close>

record schema_conflict =
  sc_attribute :: attribute
  sc_kept :: attribute_def
  sc_discarded :: attribute_def

definition merge_schema_step ::
  "attribute \<times> attribute_def \<Rightarrow> schema \<times> schema_conflict list \<Rightarrow> schema \<times> schema_conflict list" where
  "merge_schema_step = (\<lambda>(attr, def) (schema, conflicts).
     case schema_get schema attr of
       None \<Rightarrow> (define_attr attr def schema, conflicts)
     | Some existing \<Rightarrow>
         if def = existing then (schema, conflicts)
         else if def < existing
         then (define_attr attr def schema,
               conflicts @ [\<lparr>sc_attribute = attr, sc_kept = def, sc_discarded = existing\<rparr>])
         else (schema, conflicts @ [\<lparr>sc_attribute = attr, sc_kept = existing, sc_discarded = def\<rparr>]))"

definition merge_schemas :: "schema \<Rightarrow> schema \<Rightarrow> schema \<times> schema_conflict list" where
  "merge_schemas a b = fold merge_schema_step (a @ b) (schema_empty, [])"

definition conflict_of :: "schema \<Rightarrow> attribute \<times> attribute_def \<Rightarrow> schema_conflict list" where
  "conflict_of s = (\<lambda>(attr, def).
     case schema_get s attr of
       None \<Rightarrow> []
     | Some e \<Rightarrow> if def = e then []
         else [\<lparr>sc_attribute = attr, sc_kept = min def e, sc_discarded = max def e\<rparr>])"

lemma merge_schema_step_spec:
  "merge_schema_step (k, d) (s, cs) =
     (define_attr k (case schema_get s k of None \<Rightarrow> d | Some e \<Rightarrow> min d e) s, cs @ conflict_of s (k, d))"
  by (auto simp: merge_schema_step_def conflict_of_def min_def max_def define_attr_def
      split: option.splits)

lemma merge_schema_fold:
  assumes "distinct (map fst xs)" "schema_inv s"
  shows "schema_inv (fst (fold merge_schema_step xs (s, cs)))"
    and "schema_get (fst (fold merge_schema_step xs (s, cs))) k =
      combine_option min (schema_get s k) (map_of xs k)"
    and "snd (fold merge_schema_step xs (s, cs)) = cs @ concat (map (conflict_of s) xs)"
proof -
  have "schema_inv (fst (fold merge_schema_step xs (s, cs))) \<and>
    schema_get (fst (fold merge_schema_step xs (s, cs))) k =
      combine_option min (schema_get s k) (map_of xs k) \<and>
    snd (fold merge_schema_step xs (s, cs)) = cs @ concat (map (conflict_of s) xs)"
    using assms
  proof (induction xs arbitrary: s cs)
    case (Cons p xs)
    obtain a d where p: "p = (a, d)" by fastforce
    let ?s = "define_attr a (case schema_get s a of None \<Rightarrow> d | Some e \<Rightarrow> min d e) s"
    have "map (conflict_of ?s) xs = map (conflict_of s) xs"
      using Cons.prems(1) p by (intro map_cong) (auto simp: conflict_of_def image_iff)
    then have cc: "concat (map (conflict_of ?s) xs) = concat (map (conflict_of s) xs)"
      by (rule arg_cong)
    have n: "map_of xs a = None" using Cons.prems(1) p by (simp add: map_of_eq_None_iff)
    from Cons.IH [of ?s "cs @ conflict_of s (a, d)"] Cons.prems p cc
    have ih: "schema_inv (fst (fold merge_schema_step (p # xs) (s, cs)))"
      "schema_get (fst (fold merge_schema_step (p # xs) (s, cs))) k =
         combine_option min (schema_get ?s k) (map_of xs k)"
      "snd (fold merge_schema_step (p # xs) (s, cs)) = cs @ concat (map (conflict_of s) (p # xs))"
      by (simp_all only: fold_Cons comp_apply merge_schema_step_spec, simp_all)
    have "combine_option min (schema_get ?s k) (map_of xs k) =
          combine_option min (schema_get s k) (map_of (p # xs) k)"
      using n p by (simp add: min.commute split: option.splits)
    with ih show ?case by simp
  qed simp
  then show "schema_inv (fst (fold merge_schema_step xs (s, cs)))"
    "schema_get (fst (fold merge_schema_step xs (s, cs))) k =
      combine_option min (schema_get s k) (map_of xs k)"
    "snd (fold merge_schema_step xs (s, cs)) = cs @ concat (map (conflict_of s) xs)" by blast+
qed

text \<open>The first schema passes through unchanged; the second is met definition by definition.\<close>

lemma merge_schemas_spec:
  assumes "schema_inv a" "schema_inv b"
  shows "merge_schemas a b = (om_union_with min a b, concat (map (conflict_of a) b))"
proof -
  note inv = assms [unfolded schema_inv_def]
  let ?f = "fold merge_schema_step a (schema_empty, [])"
  note fa = merge_schema_fold [OF om_inv_distinct [OF inv(1)] schema_inv_empty, of "[]"]
  have 1: "fst ?f = a"
    using fa(1,2) assms(1) by (intro schema_ext) (simp_all, simp add: schema_get_def)
  have 2: "snd ?f = []" using fa(3) by (simp add: conflict_of_def case_prod_unfold)
  have e: "merge_schemas a b = fold merge_schema_step b (a, [])"
    using 1 2 by (simp add: merge_schemas_def) (metis prod.collapse)
  note fb = merge_schema_fold [OF om_inv_distinct [OF inv(2)] assms(1), of "[]"]
  have "fst (fold merge_schema_step b (a, [])) = om_union_with min a b"
    using fb(1,2) inv by (intro om_ext) (simp_all add: schema_inv_def schema_get_def om_get_union_with)
  then show ?thesis using e fb(3) by (simp add: prod_eq_iff)
qed

interpretation schema_join: join_semilattice "om_union_with (min :: attribute_def \<Rightarrow> _)" schema_inv
proof -
  have "join_semilattice (min :: attribute_def \<Rightarrow> _) (\<lambda>_. True)"
    by unfold_locales (rule TrueI, rule min.commute, rule min.assoc, rule min.idem)
  from join_semilattice_omap [OF this]
  show "join_semilattice (om_union_with (min :: attribute_def \<Rightarrow> _)) schema_inv"
    by (simp add: schema_inv_om_inv)
qed

lemma conflict_of_cases:
  "conflict_of a (k, d) = [] \<or> (\<exists>c. conflict_of a (k, d) = [c] \<and> sc_attribute c = k)"
  by (auto simp: conflict_of_def split: option.splits)

lemma set_conflict_of:
  "c \<in> set (conflict_of a (k, d)) \<longleftrightarrow>
     (\<exists>e. schema_get a k = Some e \<and> d \<noteq> e \<and>
        c = \<lparr>sc_attribute = k, sc_kept = min d e, sc_discarded = max d e\<rparr>)"
proof (cases "schema_get a k")
  case (Some e)
  then show ?thesis by (cases "d = e") (simp_all add: conflict_of_def)
qed (simp add: conflict_of_def)

text \<open>The audit trail lists each disagreeing attribute once, in attribute order.\<close>

lemma conflicts_sorted:
  "schema_inv b \<Longrightarrow> strict_sorted (map sc_attribute (concat (map (conflict_of a) b))) \<and>
     sc_attribute ` set (concat (map (conflict_of a) b)) \<subseteq> fst ` set b"
proof (induction b)
  case (Cons p b)
  obtain k d where p: "p = (k, d)" by fastforce
  with Cons.prems have b: "\<forall>x \<in> fst ` set b. k < x" "schema_inv b"
    by (auto simp: schema_inv_def om_inv_Cons)
  with Cons.IH have ih: "strict_sorted (map sc_attribute (concat (map (conflict_of a) b)))"
    "sc_attribute ` set (concat (map (conflict_of a) b)) \<subseteq> fst ` set b" by simp_all
  from ih(2) b(1) have "\<forall>x \<in> set (concat (map (conflict_of a) b)). k < sc_attribute x" by blast
  with ih p show ?case using conflict_of_cases [of a k d] by auto
qed simp

lemma set_conflicts:
  assumes "schema_inv a" "schema_inv b"
  shows "c \<in> set (concat (map (conflict_of a) b)) \<longleftrightarrow>
    (\<exists>k d e. schema_get a k = Some e \<and> schema_get b k = Some d \<and> d \<noteq> e \<and>
       c = \<lparr>sc_attribute = k, sc_kept = min d e, sc_discarded = max d e\<rparr>)"
proof -
  have "c \<in> set (concat (map (conflict_of a) b)) \<longleftrightarrow> (\<exists>k d. (k, d) \<in> set b \<and> c \<in> set (conflict_of a (k, d)))"
    by auto
  also have "\<dots> \<longleftrightarrow> (\<exists>k d. schema_get b k = Some d \<and> c \<in> set (conflict_of a (k, d)))"
    using assms(2) by (simp add: schema_inv_def schema_get_def om_get_in_set)
  finally show ?thesis unfolding set_conflict_of by blast
qed

lemma conflicts_commute:
  assumes "schema_inv a" "schema_inv b"
  shows "concat (map (conflict_of a) b) = concat (map (conflict_of b) a)" (is "?l = ?r")
proof (rule map_sorted_distinct_set_unique)
  have "c \<in> set ?l \<longleftrightarrow> c \<in> set ?r" for c
    unfolding set_conflicts [OF assms] set_conflicts [OF assms(2,1)]
    by (metis max.commute min.commute)
  then show "set ?l = set ?r" by blast
  have l: "strict_sorted (map sc_attribute ?l)" "strict_sorted (map sc_attribute ?r)"
    using conflicts_sorted assms by blast+
  then show "sorted (map sc_attribute ?l)" "distinct (map sc_attribute ?l)"
    "sorted (map sc_attribute ?r)" "distinct (map sc_attribute ?r)"
    by (simp_all add: strict_sorted_iff)
  then show "inj_on sc_attribute (set ?l \<union> set ?r)"
    using \<open>set ?l = set ?r\<close> by (simp add: distinct_map)
qed

section \<open>Properties of schemas and transactions\<close>

text \<open>C29 Commit validates every datom. A transaction commits exactly when each of its datoms has a
  defined attribute of the declared value type, and it then carries the same node and datoms;
  otherwise the error is the one of the first offending datom, an unknown attribute being told apart
  from a type mismatch.\<close>

theorem commit_validates:
  "commit (Building t) s =
     (case filter (\<lambda>d. \<not> admissible s d) (t_datoms t) of
        [] \<Rightarrow> Inr (Committed t) | d # _ \<Rightarrow> Inl (datom_error s d))"
  by (simp add: validate_datoms_spec split: list.splits)

text \<open>A transaction defines an attribute exactly by a consistent triple. The datoms of one entity
  define attribute \<open>a\<close> with type \<open>vt\<close> and cardinality \<open>c\<close> exactly when their \<open>db/ident\<close> keywords are
  just the name of \<open>a\<close> and all their \<open>db/valueType\<close> (\<open>db/cardinality\<close>) keywords parse to \<open>vt\<close> (\<open>c\<close>).\<close>

theorem attribute_definition_triple:
  "extract_attribute_def ds = Inr (Some (a, def)) \<longleftrightarrow>
     (\<exists>vt c. def = AttributeDef vt c Lww None \<and> keywords_at ds db_ident = {as_str a} \<and>
        parse_value_type ` keywords_at ds db_value_type = {Some vt} \<and>
        parse_cardinality ` keywords_at ds db_cardinality = {Some c})"
proof -
  have "extract_attribute_def ds = Inr (Some (a, def)) \<longleftrightarrow>
     (\<exists>vt c. extract_loop ds (None, None, None) = Inr (Some (as_str a), Some vt, Some c) \<and>
        def = AttributeDef vt c Lww None)"
  proof (cases "extract_loop ds (None, None, None)")
    case (Inr r)
    then show ?thesis
      by (cases a; cases r) (auto simp: extract_attribute_def_def split: option.splits)
  qed (simp add: extract_attribute_def_def)
  then show ?thesis by (auto simp: extract_loop_spec)
qed

text \<open>Schema evolution is deterministic. When no two entities of a transaction define the same
  attribute differently, the iteration order of the hash map is irrelevant: both orders fail or both
  succeed, and on success with the same schema, in which exactly the defined attributes are changed.\<close>

theorem evolve_schema_deterministic:
  assumes "iteration_order o1" "iteration_order o2" "schema_inv s" "single_valued (schema_defs ds)"
  shows "isl (snd (evolve_schema o1 s ds)) = isl (snd (evolve_schema o2 s ds)) \<and>
    (snd (evolve_schema o1 s ds) = Inr () \<longrightarrow>
       evolve_schema o1 s ds = evolve_schema o2 s ds \<and>
       (\<forall>a d. schema_get (fst (evolve_schema o1 s ds)) a = Some d \<longleftrightarrow>
          (a, d) \<in> schema_defs ds \<or> a \<notin> fst ` schema_defs ds \<and> schema_get s a = Some d))"
proof (intro conjI impI)
  show "isl (snd (evolve_schema o1 s ds)) = isl (snd (evolve_schema o2 s ds))"
    by (simp add: evolve_schema_error assms(1,2))
  assume ok: "snd (evolve_schema o1 s ds) = Inr ()"
  show "evolve_schema o1 s ds = evolve_schema o2 s ds" by (rule evolve_schema_order_free [OF assms ok])
  from ok have "groups_ok ds" using evolve_schema_error [OF assms(1), of s ds] by simp
  then show "\<forall>a d. schema_get (fst (evolve_schema o1 s ds)) a = Some d \<longleftrightarrow>
          (a, d) \<in> schema_defs ds \<or> a \<notin> fst ` schema_defs ds \<and> schema_get s a = Some d"
    using evolve_schema_get(2) [OF assms(1,4)] by blast
qed

text \<open>Two entities of one transaction, one defining an attribute as a string, one as a long.\<close>

definition def_datoms :: "entity_id \<Rightarrow> string \<Rightarrow> string \<Rightarrow> datom list" where
  "def_datoms e name vt =
     [Datom e db_ident (VKeyword name) placeholder_tx Assert,
      Datom e db_value_type (VKeyword vt) placeholder_tx Assert,
      Datom e db_cardinality (VKeyword ''db.cardinality/one'') placeholder_tx Assert]"

lemma extract_def_datoms:
  "parse_value_type vt = Some t \<Longrightarrow>
     extract_attribute_def (def_datoms e name vt) = Inr (Some (Attribute name, AttributeDef t One Lww None))"
  by (simp add: extract_attribute_def_def def_datoms_def set_once_def parse_cardinality_def)

lemma entity_group_def_datoms:
  "entity_group (def_datoms e n vt @ ds) e' = (if e = e' then def_datoms e n vt else []) @ entity_group ds e'"
  by (simp add: entity_group_def def_datoms_def)

theorem evolve_schema_deterministic_witness:
  "evolve_schema rev genesis_schema (def_datoms (EntityId [1]) ''user/name'' ''db.type/string'') =
   evolve_schema (\<lambda>ks. ks) genesis_schema (def_datoms (EntityId [1]) ''user/name'' ''db.type/string'')"
proof -
  let ?ds = "def_datoms (EntityId [1]) ''user/name'' ''db.type/string''"
  have g: "entity_group ?ds (EntityId [1]) = ?ds" by (simp add: entity_group_def def_datoms_def)
  have x: "extract_attribute_def ?ds = Inr (Some (Attribute ''user/name'', AttributeDef TString One Lww None))"
    by (rule extract_def_datoms) (simp add: parse_value_type_def)
  have e: "d_entity ` set ?ds = {EntityId [1]}" by (simp add: def_datoms_def)
  have sv: "single_valued (schema_defs ?ds)"
    by (simp add: schema_defs_def e g x single_valued_def)
  have "groups_ok ?ds" by (simp add: groups_ok_def def_datoms_def [of _ _ "''db.type/string''"]
        list_all_iff g [unfolded def_datoms_def] x [unfolded def_datoms_def])
  then have "snd (evolve_schema rev genesis_schema ?ds) = Inr ()"
    by (rule evolve_schema_get(1) [OF iteration_order_rev sv])
  then show ?thesis
    using evolve_schema_deterministic [OF iteration_order_rev iteration_order_id schema_inv_genesis sv]
    by blast
qed

text \<open>The hash order shows when two entities of one transaction define the same attribute
  differently: two iteration orders of the same transaction leave different schemas.\<close>

theorem evolve_schema_order_dependent:
  "\<exists>o1 o2 ds. iteration_order o1 \<and> iteration_order o2 \<and>
     snd (evolve_schema o1 genesis_schema ds) = Inr () \<and> snd (evolve_schema o2 genesis_schema ds) = Inr () \<and>
     fst (evolve_schema o1 genesis_schema ds) \<noteq> fst (evolve_schema o2 genesis_schema ds)"
proof -
  let ?a = "Attribute ''x''"
  define A B where "A = def_datoms (EntityId [1]) ''x'' ''db.type/string''"
    and "B = def_datoms (EntityId [2]) ''x'' ''db.type/long''"
  have r: "remdups (map d_entity (A @ B)) = [EntityId [1], EntityId [2]]"
    by (simp add: A_def B_def def_datoms_def)
  have g: "entity_group (A @ B) (EntityId [1]) = A" "entity_group (A @ B) (EntityId [2]) = B"
    by (simp_all add: A_def B_def entity_group_def def_datoms_def)
  have x: "extract_attribute_def A = Inr (Some (?a, AttributeDef TString One Lww None))"
    "extract_attribute_def B = Inr (Some (?a, AttributeDef TLong One Lww None))"
    unfolding A_def B_def by (rule extract_def_datoms, simp add: parse_value_type_def)+
  have "schema_get (fst (evolve_schema (\<lambda>ks. ks) genesis_schema (A @ B))) ?a = Some (AttributeDef TLong One Lww None)"
    "schema_get (fst (evolve_schema rev genesis_schema (A @ B))) ?a = Some (AttributeDef TString One Lww None)"
    by (simp_all add: evolve_schema_def r g x del: map_append)
  then have "fst (evolve_schema (\<lambda>ks. ks) genesis_schema (A @ B)) \<noteq> fst (evolve_schema rev genesis_schema (A @ B))"
    by auto
  moreover have "snd (evolve_schema (\<lambda>ks. ks) genesis_schema (A @ B)) = Inr ()"
    "snd (evolve_schema rev genesis_schema (A @ B)) = Inr ()"
    by (simp_all add: evolve_schema_def r g x del: map_append)
  ultimately show ?thesis using iteration_order_id iteration_order_rev by blast
qed

text \<open>Merging schemas is deterministic and order-free: the merged schema and its conflict report
  do not depend on the side, merging is associative and idempotent on the schema, every attribute of
  either side is kept, and where both define it the smaller definition wins.\<close>

theorem merge_schemas_laws:
  assumes "schema_inv a" "schema_inv b" "schema_inv c"
  shows "merge_schemas a b = merge_schemas b a \<and>
    fst (merge_schemas (fst (merge_schemas a b)) c) = fst (merge_schemas a (fst (merge_schemas b c))) \<and>
    merge_schemas a a = (a, []) \<and>
    (\<forall>k. schema_get (fst (merge_schemas a b)) k = combine_option min (schema_get a k) (schema_get b k))"
proof (intro conjI)
  note inv = assms schema_join.join_inv
  show "merge_schemas a b = merge_schemas b a"
    using assms conflicts_commute by (simp add: merge_schemas_spec schema_join.join_comm)
  show "fst (merge_schemas (fst (merge_schemas a b)) c) = fst (merge_schemas a (fst (merge_schemas b c)))"
    using inv by (simp add: merge_schemas_spec schema_join.join_assoc)
  have "conflict_of a (k, d) = []" if "(k, d) \<in> set a" for k d
    using that assms(1) om_get_in_set [of a k d]
    by (simp add: conflict_of_def schema_inv_def schema_get_def)
  then have "concat (map (conflict_of a) a) = []" by auto
  then show "merge_schemas a a = (a, [])"
    using assms(1) by (simp add: merge_schemas_spec schema_join.join_idem)
  show "\<forall>k. schema_get (fst (merge_schemas a b)) k = combine_option min (schema_get a k) (schema_get b k)"
    using assms by (simp add: merge_schemas_spec schema_inv_def schema_get_def om_get_union_with)
qed

theorem merge_schemas_laws_witness:
  "merge_schemas genesis_schema [(Attribute ''tx/time'', lww_str ''other'')] =
   merge_schemas [(Attribute ''tx/time'', lww_str ''other'')] genesis_schema"
proof -
  have "schema_inv [(Attribute ''tx/time'', lww_str ''other'')]" by (simp add: schema_inv_def om_inv_def)
  from merge_schemas_laws [OF schema_inv_genesis this schema_inv_empty] show ?thesis by blast
qed

end
