(* ===== verification/Live.thy ===== *)
theory Live
  imports Positional
begin

text \<open>
  The causal LIVE lattice of the store (\<open>ferratomic-store\<close>, \<open>query.rs\<close>, \<open>Store::live_apply\<close> of \<open>store.rs\<close>
  and \<open>merge_causal\<close> of \<open>merge.rs\<close>): for every entity and attribute, the values ever stated, each with
  the transaction and operation of its latest statement.

  \<open>causal_of c D\<close> is the specification: \<open>c\<close> records, for each triple some datom of \<open>D\<close> speaks about, the
  operation of a datom with the greatest transaction. Rebuilding, incremental update and merge all
  meet it. It determines \<open>c\<close> when no two datoms of \<open>D\<close> differ only in the operation
  (\<open>op_consistent D\<close>).
\<close>

section \<open>The lattice\<close>

type_synonym ea = "entity_id \<times> attribute"
type_synonym live_entries = "(val, txid \<times> op) omap"
type_synonym live_causal = "(ea, live_entries) omap"
type_synonym live_set = "(ea, val list) omap"

definition ea_key :: "datom \<Rightarrow> ea" where
  "ea_key d = (d_entity d, d_attribute d)"

text \<open>\<open>entry(key).or_default()\<close>\<close>

definition or_default :: "('k, 'v list) omap \<Rightarrow> 'k \<Rightarrow> 'v list" where
  "or_default m k = (case om_get m k of None \<Rightarrow> [] | Some v \<Rightarrow> v)"

definition build_live_step :: "datom \<Rightarrow> live_causal \<Rightarrow> live_causal" where
  "build_live_step d causal =
     (let key = ea_key d; entries = or_default causal key
      in om_insert key
           (case om_get entries (d_value d) of
              Some (existing_tx, _) \<Rightarrow>
                if existing_tx \<ge> d_tx d then entries else om_insert (d_value d) (d_tx d, d_op d) entries
            | None \<Rightarrow> om_insert (d_value d) (d_tx d, d_op d) entries)
           causal)"

definition build_live_causal :: "datom list \<Rightarrow> live_causal" where
  "build_live_causal ds = fold build_live_step ds []"

definition live_values_of :: "live_entries \<Rightarrow> val list" where
  "live_values_of entries =
     fold (\<lambda>(v, _, p) values. if p = Assert then os_insert v values else values) entries []"

definition derive_live_set :: "live_causal \<Rightarrow> live_set" where
  "derive_live_set causal =
     fold (\<lambda>(key, entries) live.
       let values = live_values_of entries
       in if values = [] then live else om_insert key values live) causal []"

definition live_apply :: "datom \<Rightarrow> live_causal \<times> live_set \<Rightarrow> live_causal \<times> live_set" where
  "live_apply d = (\<lambda>(causal, live).
     let key = ea_key d;
         (was_live, should_update) =
           (case Option.bind (om_get causal key) (\<lambda>entries. om_get entries (d_value d)) of
              Some (existing_tx, p) \<Rightarrow> (p = Assert, d_tx d > existing_tx)
            | None \<Rightarrow> (False, True))
     in if should_update then
          (let causal' = om_insert key (om_insert (d_value d) (d_tx d, d_op d) (or_default causal key)) causal;
               is_live = (d_op d = Assert);
               live' =
                 (if is_live \<and> \<not> was_live
                  then om_insert key (os_insert (d_value d) (or_default live key)) live
                  else if \<not> is_live \<and> was_live
                  then (case om_get live key of
                          None \<Rightarrow> live
                        | Some vals \<Rightarrow>
                            (let vals' = os_remove (d_value d) vals
                             in if vals' = [] then om_remove key live else om_insert key vals' live))
                  else live)
           in (causal', live'))
        else (causal, live))"

definition merge_causal :: "live_causal \<Rightarrow> live_causal \<Rightarrow> live_causal" where
  "merge_causal a b = om_union_with (om_union_with max) a b"

text \<open>\<open>max_by\<close> keeps the last of the greatest; the comparison is total on distinct values.\<close>

definition latest_entry :: "(val \<times> txid \<times> op) \<Rightarrow> (val \<times> txid \<times> op) option \<Rightarrow> (val \<times> txid \<times> op) option" where
  "latest_entry r best =
     (case best of
        None \<Rightarrow> Some r
      | Some l \<Rightarrow>
          if then_with (cmp (fst (snd l)) (fst (snd r))) (cmp (fst l) (fst r)) = Greater then Some l else Some r)"

definition select_latest_live_value :: "live_entries \<Rightarrow> val option" where
  "select_latest_live_value entries =
     map_option fst (fold latest_entry (filter (\<lambda>(_, _, p). p = Assert) entries) None)"

section \<open>The specification\<close>

definition causal_get :: "live_causal \<Rightarrow> entity_id \<times> attribute \<times> val \<Rightarrow> (txid \<times> op) option" where
  "causal_get c = (\<lambda>(e, a, v). Option.bind (om_get c (e, a)) (\<lambda>m. om_get m v))"

definition causal_inv :: "live_causal \<Rightarrow> bool" where
  "causal_inv c \<longleftrightarrow> om_inv c \<and> (\<forall>m \<in> snd ` set c. om_inv m \<and> m \<noteq> [])"

definition stated :: "datom set \<Rightarrow> entity_id \<times> attribute \<times> val \<Rightarrow> (txid \<times> op) set" where
  "stated D t = {(d_tx d, d_op d) | d. d \<in> D \<and> eav d = t}"

definition causal_of :: "live_causal \<Rightarrow> datom set \<Rightarrow> bool" where
  "causal_of c D \<longleftrightarrow> causal_inv c \<and>
     (\<forall>t. (causal_get c t = None \<longrightarrow> stated D t = {}) \<and>
          (\<forall>x p. causal_get c t = Some (x, p) \<longrightarrow>
             (x, p) \<in> stated D t \<and> (\<forall>y q. (y, q) \<in> stated D t \<longrightarrow> y \<le> x)))"

definition op_consistent :: "datom set \<Rightarrow> bool" where
  "op_consistent D \<longleftrightarrow> (\<forall>d \<in> D. \<forall>d' \<in> D. eav d = eav d' \<longrightarrow> d_tx d = d_tx d' \<longrightarrow> d_op d = d_op d')"

lemma causal_inv_get: "causal_inv c \<Longrightarrow> om_get c k = Some m \<Longrightarrow> om_inv m \<and> m \<noteq> []"
  unfolding causal_inv_def using om_get_value [of c k m "\<lambda>m. om_inv m \<and> m \<noteq> []"] by blast

lemma causal_inv_Nil [simp]: "causal_inv []"
  by (simp add: causal_inv_def)

lemma causal_inv_insert [simp]:
  assumes "causal_inv c" "om_inv m" "m \<noteq> []"
  shows "causal_inv (om_insert k m c)"
proof -
  have "\<forall>v \<in> snd ` set (om_insert k m c). om_inv v \<and> v \<noteq> []"
    using assms causal_inv_get [OF assms(1)]
    by (intro om_value_get) (auto simp: causal_inv_def split: if_splits)
  with assms(1) show ?thesis by (simp add: causal_inv_def)
qed

lemma or_default_inv: "causal_inv c \<Longrightarrow> om_inv (or_default c k)"
  using causal_inv_get by (fastforce simp: or_default_def split: option.splits)

text \<open>The lattice is determined by its lookups of triples.\<close>

lemma om_nonempty_get: "m \<noteq> [] \<Longrightarrow> \<exists>v x. om_get m v = Some x"
  by (cases m) auto

lemma causal_ext:
  assumes "causal_inv c" "causal_inv c'" "\<And>t. causal_get c t = causal_get c' t"
  shows "c = c'"
proof (rule om_ext)
  show "om_inv c" "om_inv c'" using assms(1,2) by (simp_all add: causal_inv_def)
  have half: "om_get c1 k = Some m \<Longrightarrow> om_get c2 k = Some m"
    if i: "causal_inv c1" "causal_inv c2" "\<And>t. causal_get c1 t = causal_get c2 t" for c1 c2 k m
  proof -
    assume m: "om_get c1 k = Some m"
    have eq: "om_get m v = Option.bind (om_get c2 k) (\<lambda>m. om_get m v)" for v
      using i(3) [of "(fst k, snd k, v)"] m by (simp add: causal_get_def)
    obtain v x where "om_get m v = Some x" using om_nonempty_get causal_inv_get [OF i(1) m] by blast
    with eq [of v] obtain m' where m': "om_get c2 k = Some m'" by (cases "om_get c2 k") auto
    then have "om_get m v = om_get m' v" for v using eq by simp
    then have "m = m'" using causal_inv_get [OF i(1) m] causal_inv_get [OF i(2) m'] om_ext by blast
    with m' show ?thesis by simp
  qed
  show "om_get c k = om_get c' k" for k
    using half [OF assms(1,2,3)] half [OF assms(2,1) assms(3) [symmetric]] by (metis option.exhaust)
qed

lemma causal_ofD:
  assumes "causal_of c D"
  shows "causal_inv c" "causal_get c t = None \<Longrightarrow> stated D t = {}"
    "causal_get c t = Some (x, p) \<Longrightarrow> (x, p) \<in> stated D t"
    "causal_get c t = Some (x, p) \<Longrightarrow> (y, q) \<in> stated D t \<Longrightarrow> y \<le> x"
  using assms unfolding causal_of_def by blast+

lemma causal_ofI:
  assumes "causal_inv c" "\<And>t. causal_get c t = None \<Longrightarrow> stated D t = {}"
    "\<And>t x p. causal_get c t = Some (x, p) \<Longrightarrow> (x, p) \<in> stated D t"
    "\<And>t x p y q. causal_get c t = Some (x, p) \<Longrightarrow> (y, q) \<in> stated D t \<Longrightarrow> y \<le> x"
  shows "causal_of c D"
  using assms unfolding causal_of_def by blast

lemma causal_of_unique:
  assumes "causal_of c D" "causal_of c' D" "op_consistent D"
  shows "c = c'"
proof (rule causal_ext)
  show "causal_inv c" "causal_inv c'" using assms by (simp_all add: causal_of_def)
  fix t
  have u: "p = q" if "(x, p) \<in> stated D t" "(x, q) \<in> stated D t" for x p q
    using that assms(3) unfolding stated_def op_consistent_def by fastforce
  note c = causal_ofD(2-) [OF assms(1), where t = t] and c' = causal_ofD(2-) [OF assms(2), where t = t]
  show "causal_get c t = causal_get c' t"
  proof (cases "causal_get c t")
    case None
    with c(1) c'(2) show ?thesis by (cases "causal_get c' t") fastforce+
  next
    case (Some r)
    obtain x p where r: "causal_get c t = Some (x, p)" using Some by (cases r) simp
    then obtain y q where r': "causal_get c' t = Some (y, q)"
      using c(2) c'(1) by (cases "causal_get c' t") fastforce+
    have "x = y" using c(3) [OF r c'(2) [OF r']] c'(3) [OF r' c(2) [OF r]] by (rule antisym [rotated])
    with u [of x p q] c(2) [OF r] c'(2) [OF r'] r r' show ?thesis by simp
  qed
qed

text \<open>Recording one datom: the common step of the rebuild and of the incremental update.\<close>

definition record_datom :: "datom \<Rightarrow> live_causal \<Rightarrow> live_causal" where
  "record_datom d c =
     (case causal_get c (eav d) of
        Some (x, _) \<Rightarrow>
          if x < d_tx d
          then om_insert (ea_key d) (om_insert (d_value d) (d_tx d, d_op d) (or_default c (ea_key d))) c else c
      | None \<Rightarrow> om_insert (ea_key d) (om_insert (d_value d) (d_tx d, d_op d) (or_default c (ea_key d))) c)"

lemma om_insert_nonempty [simp]: "om_insert k v m \<noteq> []"
  using fst_set_om_insert [of k v m] by (metis empty_iff image_empty insertI1 list.set(1))

lemma causal_get_insert:
  "causal_get (om_insert (ea_key d) (om_insert (d_value d) r (or_default c (ea_key d))) c) t =
     (if t = eav d then Some r else causal_get c t)"
  by (cases t) (auto simp: causal_get_def ea_key_def eav_def or_default_def split: option.splits)

lemma causal_get_eav: "causal_get c (eav d) = Option.bind (om_get c (ea_key d)) (\<lambda>m. om_get m (d_value d))"
  by (simp add: causal_get_def eav_def ea_key_def)

lemma causal_inv_record [simp]: "causal_inv c \<Longrightarrow> causal_inv (record_datom d c)"
  by (auto simp: record_datom_def or_default_inv split: option.splits)

lemma stated_insert: "stated (insert d D) t = (if t = eav d then insert (d_tx d, d_op d) (stated D t) else stated D t)"
  by (auto simp: stated_def)

lemma causal_of_record:
  assumes "causal_of c D"
  shows "causal_of (record_datom d c) (insert d D)"
proof -
  note c = causal_ofD [OF assms]
  have get: "causal_get (record_datom d c) t =
      (if t = eav d then (case causal_get c t of Some (x, p) \<Rightarrow> if x < d_tx d then Some (d_tx d, d_op d) else Some (x, p)
         | None \<Rightarrow> Some (d_tx d, d_op d)) else causal_get c t)" for t
    by (auto simp: record_datom_def causal_get_insert split: option.splits)
  show ?thesis
  proof (rule causal_ofI)
    show "causal_inv (record_datom d c)" using c(1) by simp
    fix t
    show "stated (insert d D) t = {}" if "causal_get (record_datom d c) t = None"
      using that c(2) by (auto simp: get stated_insert split: if_splits option.splits prod.splits)
    fix x p assume g: "causal_get (record_datom d c) t = Some (x, p)"
    show "(x, p) \<in> stated (insert d D) t"
      using g c(3) [of t] by (auto simp: get stated_insert split: if_splits option.splits prod.splits)
    fix y q assume y: "(y, q) \<in> stated (insert d D) t"
    show "y \<le> x"
    proof (cases "t = eav d")
      case False
      with g y c(4) show ?thesis by (simp add: get stated_insert)
    next
      case True
      show ?thesis
      proof (cases "causal_get c t")
        case None
        with g y True c(2) show ?thesis by (simp add: get stated_insert)
      next
        case (Some r)
        obtain x0 p0 where r: "r = (x0, p0)" by fastforce
        have "y \<le> x0 \<or> y = d_tx d" using y c(4) [of t x0 p0 y q] Some r True by (auto simp: stated_insert)
        moreover have "x = (if x0 < d_tx d then d_tx d else x0)" using g Some r True by (simp add: get split: if_splits)
        ultimately show ?thesis by auto
      qed
    qed
  qed
qed

lemma causal_of_empty [simp]: "causal_of [] {}"
  by (rule causal_ofI) (auto simp: causal_get_def stated_def)

lemma causal_of_fold: "causal_of c D \<Longrightarrow> causal_of (fold record_datom ds c) (set ds \<union> D)"
proof (induction ds arbitrary: c D)
  case (Cons d ds)
  from Cons.IH [OF causal_of_record [OF Cons.prems]] show ?case by simp
qed simp

lemma om_insert_same: "om_inv m \<Longrightarrow> om_get m k = Some v \<Longrightarrow> om_insert k v m = m"
  by (rule om_ext) (auto simp: fun_upd_idem)

lemma build_live_step_record: "causal_inv c \<Longrightarrow> build_live_step d c = record_datom d c"
proof -
  assume c: "causal_inv c"
  show ?thesis
  proof (cases "om_get c (ea_key d)")
    case None
    then show ?thesis by (simp add: build_live_step_def record_datom_def causal_get_eav or_default_def Let_def)
  next
    case (Some m)
    with c have "om_insert (ea_key d) m c = c" by (simp add: om_insert_same causal_inv_def)
    with Some show ?thesis
      by (auto simp: build_live_step_def record_datom_def causal_get_eav or_default_def Let_def not_le split: option.splits)
  qed
qed

lemma build_live_causal_record: "build_live_causal ds = fold record_datom ds []"
proof -
  have "fold build_live_step ds c = fold record_datom ds c" if "causal_inv c" for c
    using that by (induction ds arbitrary: c) (simp_all add: build_live_step_record)
  then show ?thesis by (simp add: build_live_causal_def)
qed

lemma causal_of_build [simp]: "causal_of (build_live_causal ds) (set ds)"
  using causal_of_fold [of "[]" "{}" ds] by (simp add: build_live_causal_record)

lemma fst_live_apply: "fst (live_apply d (c, l)) = record_datom d c"
  by (auto simp: live_apply_def record_datom_def causal_get_eav Let_def split: option.splits prod.splits)

section \<open>The materialised LIVE set\<close>

lemma live_values_of_spec:
  assumes "om_inv m"
  shows "strict_sorted (live_values_of m)" "v \<in> set (live_values_of m) \<longleftrightarrow> (\<exists>x. om_get m v = Some (x, Assert))"
proof -
  have "strict_sorted (fold (\<lambda>(v, _, p) vs. if p = Assert then os_insert v vs else vs) m vs) \<and>
      set (fold (\<lambda>(v, _, p) vs. if p = Assert then os_insert v vs else vs) m vs) =
      set vs \<union> {v. \<exists>x. (v, x, Assert) \<in> set m}" if "strict_sorted vs" for vs and m :: live_entries
    using that
  proof (induction m arbitrary: vs)
    case (Cons e m)
    obtain w x p where e: "e = (w, x, p)" by (cases e) auto
    show ?case
    proof (cases "p = Assert")
      case True
      with Cons.IH [of "os_insert w vs"] Cons.prems e show ?thesis by auto
    next
      case False
      with Cons.IH [of vs] Cons.prems e show ?thesis by auto
    qed
  qed simp
  from this [of "[]" m] show "strict_sorted (live_values_of m)"
    "v \<in> set (live_values_of m) \<longleftrightarrow> (\<exists>x. om_get m v = Some (x, Assert))"
    using om_get_in_set [OF assms] by (simp_all add: live_values_of_def)
qed

lemma derive_live_set_get:
  assumes "om_inv c"
  shows "om_inv (derive_live_set c)" "om_get (derive_live_set c) k =
    (case om_get c k of None \<Rightarrow> None | Some m \<Rightarrow> if live_values_of m = [] then None else Some (live_values_of m))"
proof -
  let ?f = "\<lambda>(key, entries) live. let values = live_values_of entries
       in if values = [] then live else om_insert key values live"
  have "om_inv (fold ?f c l) \<and> om_get (fold ?f c l) k =
      (case om_get c k of None \<Rightarrow> om_get l k
       | Some m \<Rightarrow> if live_values_of m = [] then om_get l k else Some (live_values_of m))"
    if "om_inv c" "om_inv l" for l c
    using that
  proof (induction c arbitrary: l)
    case (Cons p c)
    obtain k' m where p: "p = (k', m)" by fastforce
    have "om_get c k' = None" using Cons.prems p by (simp add: om_inv_Cons om_get_below)
    with Cons p show ?case by (auto simp: om_inv_Cons Let_def split: option.splits)
  qed simp
  from this [OF assms om_inv_Nil] show "om_inv (derive_live_set c)" "om_get (derive_live_set c) k =
    (case om_get c k of None \<Rightarrow> None | Some m \<Rightarrow> if live_values_of m = [] then None else Some (live_values_of m))"
    unfolding derive_live_set_def by (simp, auto split: option.splits)
qed

text \<open>What a reader of the LIVE set sees.\<close>

definition live_at :: "live_set \<Rightarrow> ea \<Rightarrow> val set" where
  "live_at l k = (case om_get l k of None \<Rightarrow> {} | Some vs \<Rightarrow> set vs)"

definition live_inv :: "live_set \<Rightarrow> bool" where
  "live_inv l \<longleftrightarrow> om_inv l \<and> (\<forall>vs \<in> snd ` set l. strict_sorted vs \<and> vs \<noteq> [])"

lemma live_inv_get: "live_inv l \<Longrightarrow> om_get l k = Some vs \<Longrightarrow> strict_sorted vs \<and> vs \<noteq> []"
  unfolding live_inv_def using om_get_value [of l k vs "\<lambda>vs. strict_sorted vs \<and> vs \<noteq> []"] by blast

lemma live_invI:
  "om_inv l \<Longrightarrow> (\<And>k vs. om_get l k = Some vs \<Longrightarrow> strict_sorted vs \<and> vs \<noteq> []) \<Longrightarrow> live_inv l"
  using om_value_get [of l "\<lambda>vs. strict_sorted vs \<and> vs \<noteq> []"] unfolding live_inv_def by blast

lemma live_ext:
  assumes "live_inv l" "live_inv l'" "\<And>k. live_at l k = live_at l' k"
  shows "l = l'"
proof (rule om_ext)
  show "om_inv l" "om_inv l'" using assms by (simp_all add: live_inv_def)
  fix k
  show "om_get l k = om_get l' k"
  proof (cases "om_get l k"; cases "om_get l' k")
    fix vs vs' assume o: "om_get l k = Some vs" "om_get l' k = Some vs'"
    then have "set vs = set vs'" using assms(3) [of k] by (simp add: live_at_def)
    with o live_inv_get [OF assms(1) o(1)] live_inv_get [OF assms(2) o(2)] show ?thesis
      using strict_sorted_set_unique by auto
  qed (use assms(3) [of k] live_inv_get [OF assms(1), of k] live_inv_get [OF assms(2), of k]
       in \<open>simp_all add: live_at_def\<close>)
qed

lemma live_inv_derive:
  assumes "causal_inv c"
  shows "live_inv (derive_live_set c)"
proof (rule live_invI)
  have "om_inv c" using assms by (simp add: causal_inv_def)
  note d = derive_live_set_get [OF this]
  show "om_inv (derive_live_set c)" by (rule d)
  fix k vs assume "om_get (derive_live_set c) k = Some vs"
  then obtain m where "om_get c k = Some m" "vs = live_values_of m" "vs \<noteq> []"
    unfolding d(2) by (cases "om_get c k") (auto split: if_splits)
  with causal_inv_get [OF assms] live_values_of_spec(1) show "strict_sorted vs \<and> vs \<noteq> []" by blast
qed

lemma live_at_derive:
  assumes "causal_inv c"
  shows "v \<in> live_at (derive_live_set c) k \<longleftrightarrow> (\<exists>x. causal_get c (fst k, snd k, v) = Some (x, Assert))"
proof -
  have "om_inv c" using assms by (simp add: causal_inv_def)
  note d = derive_live_set_get(2) [OF this, of k]
  show ?thesis
  proof (cases "om_get c k")
    case (Some m)
    then have "v \<in> set (live_values_of m) \<longleftrightarrow> (\<exists>x. om_get m v = Some (x, Assert))"
      using causal_inv_get [OF assms Some] by (simp add: live_values_of_spec)
    with Some d show ?thesis by (cases "live_values_of m = []") (simp_all add: live_at_def causal_get_def)
  qed (use d in \<open>simp add: live_at_def causal_get_def\<close>)
qed

text \<open>The incremental update keeps the projection.\<close>

lemma live_inv_insert: "live_inv l \<Longrightarrow> strict_sorted vs \<Longrightarrow> vs \<noteq> [] \<Longrightarrow> live_inv (om_insert k vs l)"
  by (rule live_invI, simp add: live_inv_def, simp split: if_splits, metis live_inv_get)

lemma live_inv_remove: "live_inv l \<Longrightarrow> live_inv (om_remove k l)"
  by (rule live_invI, simp add: live_inv_def, simp add: om_get_remove split: if_splits, metis live_inv_get)

lemma os_insert_nonempty [simp]: "os_insert x xs \<noteq> []"
  using set_os_insert [of x xs] by (metis empty_iff insertI1 list.set(1))

lemma live_apply_live:
  assumes "causal_inv c" "live_inv l" "\<And>k v. v \<in> live_at l k \<longleftrightarrow> (\<exists>x. causal_get c (fst k, snd k, v) = Some (x, Assert))"
  shows "live_inv (snd (live_apply d (c, l))) \<and>
    (\<forall>k v. v \<in> live_at (snd (live_apply d (c, l))) k \<longleftrightarrow>
       (\<exists>x. causal_get (record_datom d c) (fst k, snd k, v) = Some (x, Assert)))"
proof -
  let ?k = "ea_key d" and ?v = "d_value d"
  define was where "was = (\<exists>x. causal_get c (eav d) = Some (x, Assert))"
  have was: "was \<longleftrightarrow> ?v \<in> live_at l ?k"
    using assms(3) [of ?v ?k] by (simp add: was_def ea_key_def eav_def)
  define upd where "upd = (case causal_get c (eav d) of None \<Rightarrow> True | Some (x, _) \<Rightarrow> x < d_tx d)"
  have t: "(fst k, snd k, v) = eav d \<longleftrightarrow> k = ?k \<and> v = ?v" for k v
    by (cases k) (auto simp: eav_def ea_key_def)
  have c': "causal_get (record_datom d c) (fst k, snd k, v) =
      (if upd \<and> k = ?k \<and> v = ?v then Some (d_tx d, d_op d) else causal_get c (fst k, snd k, v))" for k v
    by (auto simp: upd_def record_datom_def causal_get_insert t split: option.splits)
  define l' where "l' = snd (live_apply d (c, l))"
  have l': "l' = (if \<not> upd then l else if d_op d = Assert \<and> \<not> was
      then om_insert ?k (os_insert ?v (or_default l ?k)) l
      else if d_op d \<noteq> Assert \<and> was
      then (case om_get l ?k of None \<Rightarrow> l
            | Some vs \<Rightarrow> if os_remove ?v vs = [] then om_remove ?k l else om_insert ?k (os_remove ?v vs) l)
      else l)"
    by (auto simp: l'_def live_apply_def upd_def was_def causal_get_eav Let_def split: option.splits prod.splits)
  have rm: "vs' = [] \<longleftrightarrow> set vs' = {}" for vs' :: "val list" by simp
  have od: "strict_sorted (or_default l ?k)" "set (or_default l ?k) = live_at l ?k"
    using live_inv_get [OF assms(2), of ?k] by (auto simp: or_default_def live_at_def split: option.splits)
  have "live_inv l'"
    using assms(2) od(1) live_inv_get [OF assms(2), of ?k]
    by (auto simp: l' live_inv_insert live_inv_remove split: option.splits)
  moreover have at: "live_at l' k = (if k = ?k \<and> upd then
      (if d_op d = Assert then insert ?v (live_at l k) else live_at l k - {?v}) else live_at l k)" for k
  proof (cases "k = ?k \<and> upd")
    case False
    then show ?thesis
      by (auto simp: l' live_at_def om_get_remove split: option.splits)
  next
    case True
    have e: "live_at (om_insert ?k vs l) ?k = set vs" "live_at (om_remove ?k l) ?k = {}" for vs
      by (simp_all add: live_at_def om_get_remove)
    show ?thesis
    proof (cases "d_op d = Assert")
      case True
      with \<open>k = ?k \<and> upd\<close> was e(1) [of "os_insert ?v (or_default l ?k)"] od show ?thesis by (auto simp: l')
    next
      case False
      show ?thesis
      proof (cases was)
        case True
        then obtain vs where vs: "om_get l ?k = Some vs" "live_at l ?k = set vs"
          using was by (auto simp: live_at_def split: option.splits)
        with True False \<open>k = ?k \<and> upd\<close> e(1) [of "os_remove ?v vs"] e(2) rm [of "os_remove ?v vs"]
        show ?thesis by (auto simp: l')
      qed (use False was \<open>k = ?k \<and> upd\<close> in \<open>auto simp: l'\<close>)
    qed
  qed
  have "v \<in> live_at l' k \<longleftrightarrow> (\<exists>x. causal_get (record_datom d c) (fst k, snd k, v) = Some (x, Assert))" for k v
    unfolding at c' using assms(3) [of v k] by auto
  ultimately show ?thesis by (simp add: l'_def)
qed

lemma fold_live_apply:
  "causal_inv c \<Longrightarrow>
     fold live_apply ds (c, derive_live_set c) = (fold record_datom ds c, derive_live_set (fold record_datom ds c))"
proof (induction ds arbitrary: c)
  case (Cons d ds)
  have i: "causal_inv (record_datom d c)" using Cons.prems by simp
  obtain l where l: "live_apply d (c, derive_live_set c) = (record_datom d c, l)"
    using fst_live_apply [of d c "derive_live_set c"] by (cases "live_apply d (c, derive_live_set c)") auto
  have a: "live_inv l" "v \<in> live_at l k \<longleftrightarrow> (\<exists>x. causal_get (record_datom d c) (fst k, snd k, v) = Some (x, Assert))" for k v
    using live_apply_live [OF Cons.prems live_inv_derive [OF Cons.prems] live_at_derive [OF Cons.prems], of d]
    unfolding l snd_conv by blast+
  have "l = derive_live_set (record_datom d c)"
    by (rule live_ext [OF a(1) live_inv_derive [OF i]]) (auto simp: a(2) live_at_derive [OF i])
  with Cons.IH [OF i] l show ?case by simp
qed simp

section \<open>Merging\<close>

lemma join_semilattice_max: "join_semilattice (max :: 'a::linorder \<Rightarrow> 'a \<Rightarrow> 'a) (\<lambda>_. True)"
  by unfold_locales (simp_all add: max.commute max.left_commute)

lemma join_semilattice_restrict:
  assumes "join_semilattice f P" "\<And>a b. P a \<Longrightarrow> P b \<Longrightarrow> Q a \<Longrightarrow> Q b \<Longrightarrow> Q (f a b)"
  shows "join_semilattice f (\<lambda>x. P x \<and> Q x)"
proof -
  note l = join_semilattice.join_inv [OF assms(1)] join_semilattice.join_comm [OF assms(1)]
    join_semilattice.join_assoc [OF assms(1)] join_semilattice.join_idem [OF assms(1)]
  show ?thesis by unfold_locales (blast intro: l assms(2))+
qed

lemma om_union_with_nonempty: "a \<noteq> [] \<Longrightarrow> om_union_with f a b \<noteq> []"
  using fst_set_om_union_with [of f a b] by (metis Un_empty image_is_empty set_empty)

interpretation entries_join: join_semilattice "om_union_with max" "\<lambda>m :: live_entries. om_inv m \<and> m \<noteq> []"
proof -
  have "join_semilattice (om_union_with max) (\<lambda>m :: live_entries. om_inv m)"
    using join_semilattice_omap [OF join_semilattice_max] by simp
  then show "join_semilattice (om_union_with max) (\<lambda>m :: live_entries. om_inv m \<and> m \<noteq> [])"
    by (rule join_semilattice_restrict) (rule om_union_with_nonempty)
qed

interpretation causal_join: join_semilattice merge_causal causal_inv
  using join_semilattice_omap [OF entries_join.join_semilattice_axioms]
  by (simp add: merge_causal_def [abs_def] causal_inv_def [abs_def])

lemma causal_get_merge:
  assumes "causal_inv a" "causal_inv b"
  shows "causal_get (merge_causal a b) t = combine_option max (causal_get a t) (causal_get b t)"
proof -
  obtain e x v where t: "t = (e, x, v)" by (cases t) auto
  have "om_inv a" "om_inv b" using assms by (simp_all add: causal_inv_def)
  then show ?thesis
    using causal_inv_get [OF assms(1), of "(e, x)"] causal_inv_get [OF assms(2), of "(e, x)"]
    by (auto simp: t causal_get_def merge_causal_def om_get_union_with combine_option_def split: option.splits)
qed

lemma stated_Un: "stated (A \<union> B) t = stated A t \<union> stated B t"
  by (auto simp: stated_def)

lemma combine_max_le:
  fixes z :: "'a::linorder"
  shows "combine_option max r s = Some z \<Longrightarrow> r = Some y \<Longrightarrow> y \<le> z"
    "combine_option max r s = Some z \<Longrightarrow> s = Some y \<Longrightarrow> y \<le> z"
  by (auto simp: combine_option_def split: option.splits)

lemma causal_of_merge:
  assumes "causal_of a A" "causal_of b B"
  shows "causal_of (merge_causal a b) (A \<union> B)"
proof -
  note a = causal_ofD [OF assms(1)] and b = causal_ofD [OF assms(2)]
  note g = causal_get_merge [OF a(1) b(1)]
  show ?thesis
  proof (rule causal_ofI)
    show "causal_inv (merge_causal a b)" by (rule causal_join.join_inv [OF a(1) b(1)])
    fix t
    show "stated (A \<union> B) t = {}" if "causal_get (merge_causal a b) t = None"
      using that a(2) b(2) by (auto simp: g stated_Un combine_option_def split: option.splits)
    fix x p assume m: "causal_get (merge_causal a b) t = Some (x, p)"
    show "(x, p) \<in> stated (A \<union> B) t"
      using m a(3) b(3) by (auto simp: g stated_Un combine_option_def max_def split: option.splits if_splits)
    fix y q assume "(y, q) \<in> stated (A \<union> B) t"
    then consider "(y, q) \<in> stated A t" | "(y, q) \<in> stated B t" by (auto simp: stated_Un)
    then show "y \<le> x"
    proof cases
      case 1
      then obtain x1 p1 where g1: "causal_get a t = Some (x1, p1)" using a(2) by (cases "causal_get a t") fastforce+
      with m have "(x1, p1) \<le> (x, p)" by (simp only: g combine_max_le)
      with a(4) [OF g1 1] show ?thesis by (auto simp: less_eq_prod_simp)
    next
      case 2
      then obtain x1 p1 where g1: "causal_get b t = Some (x1, p1)" using b(2) by (cases "causal_get b t") fastforce+
      with m have "(x1, p1) \<le> (x, p)" by (simp only: g combine_max_le)
      with b(4) [OF g1 2] show ?thesis by (auto simp: less_eq_prod_simp)
    qed
  qed
qed

lemma causal_of_cases:
  assumes "causal_of c D"
  shows "(\<exists>x. causal_get c t = Some (x, p)) \<longleftrightarrow> (\<exists>x. causal_get c t = Some (x, p) \<and> (x, p) \<in> stated D t)"
  using causal_ofD(3) [OF assms] by blast

section \<open>Resolution of a single-valued attribute\<close>

lemma latest_entry_max:
  assumes "fold latest_entry es b = Some (v, x, p)"
  shows "(Some (v, x, p) = b \<or> (v, x, p) \<in> set es) \<and>
    (\<forall>(w, y, q) \<in> set es. (y, w) \<le> (x, v)) \<and> (\<forall>w y q. b = Some (w, y, q) \<longrightarrow> (y, w) \<le> (x, v))"
  using assms
proof (induction es arbitrary: b)
  case (Cons e es)
  obtain w y q where e: "e = (w, y, q)" by (cases e) auto
  have IH: "(Some (v, x, p) = latest_entry e b \<or> (v, x, p) \<in> set es) \<and>
      (\<forall>(w, y, q) \<in> set es. (y, w) \<le> (x, v)) \<and>
      (\<forall>w y q. latest_entry e b = Some (w, y, q) \<longrightarrow> (y, w) \<le> (x, v))"
    using Cons.prems by (intro Cons.IH) auto
  show ?case
  proof (cases b)
    case None
    with IH e show ?thesis by (auto simp: latest_entry_def)
  next
    case (Some r)
    obtain w0 y0 q0 where r: "r = (w0, y0, q0)" by (cases r) auto
    have l: "latest_entry e b = (if (y, w) < (y0, w0) then Some r else Some e)"
      by (simp add: latest_entry_def Some r e flip: cmp_pair)
    show ?thesis
    proof (cases "(y, w) < (y0, w0)")
      case True
      then have l': "latest_entry e b = b" using l Some by simp
      have "(y0, w0) \<le> (x, v)" using IH unfolding l' by (auto simp: Some r)
      with True have "(y, w) \<le> (x, v)" by (meson less_imp_le order_trans)
      with IH show ?thesis unfolding l' by (auto simp: e)
    next
      case False
      then have l': "latest_entry e b = Some (w, y, q)" by (intro trans [OF l]) (simp only: e if_False)
      have "(y, w) \<le> (x, v)" using IH unfolding l' by auto
      moreover from this False have "(y0, w0) \<le> (x, v)" by (meson not_less order_trans)
      ultimately show ?thesis using IH unfolding l' by (auto simp: e Some r)
    qed
  qed
qed auto

lemma latest_entry_None: "fold latest_entry es b = None \<longleftrightarrow> es = [] \<and> b = None"
proof (induction es arbitrary: b)
  case (Cons e es)
  have "latest_entry e b \<noteq> None" 
    unfolding latest_entry_def by (cases b) (simp_all only: option.case option.distinct if_distrib not_False_eq_True, simp)
  with Cons show ?case by simp
qed simp

lemma select_latest_spec:
  assumes "om_inv m"
  shows "select_latest_live_value m = None \<longleftrightarrow> (\<forall>v x. om_get m v \<noteq> Some (x, Assert))"
    "select_latest_live_value m = Some v \<longleftrightarrow>
       (\<exists>x. om_get m v = Some (x, Assert) \<and> (\<forall>w y. om_get m w = Some (y, Assert) \<longrightarrow> (y, w) \<le> (x, v)))"
proof -
  let ?es = "filter (\<lambda>(_, _, p). p = Assert) m"
  have mem: "(w, y, q) \<in> set ?es \<longleftrightarrow> om_get m w = Some (y, q) \<and> q = Assert" for w y q
    using om_get_in_set [OF assms] by auto
  show none: "select_latest_live_value m = None \<longleftrightarrow> (\<forall>v x. om_get m v \<noteq> Some (x, Assert))"
    using om_get_in_set [OF assms]
    by (auto simp: select_latest_live_value_def latest_entry_None filter_empty_conv split: prod.splits)
  have max: "\<exists>x. om_get m u = Some (x, Assert) \<and> (\<forall>w y. om_get m w = Some (y, Assert) \<longrightarrow> (y, w) \<le> (x, u))"
    if "select_latest_live_value m = Some u" for u
  proof -
    from that obtain x p where f: "fold latest_entry ?es None = Some (u, x, p)"
      by (auto simp: select_latest_live_value_def)
    have g: "(u, x, p) \<in> set ?es" "\<forall>(w, y, q) \<in> set ?es. (y, w) \<le> (x, u)"
      using latest_entry_max [OF f] by blast+
    have "(y, w) \<le> (x, u)" if "om_get m w = Some (y, Assert)" for w y
      using bspec [OF g(2), of "(w, y, Assert)"] mem [of w y Assert] that by blast
    moreover have "om_get m u = Some (x, Assert)" using mem [of u x p] g(1) by blast
    ultimately show ?thesis by blast
  qed
  show "select_latest_live_value m = Some v \<longleftrightarrow>
       (\<exists>x. om_get m v = Some (x, Assert) \<and> (\<forall>w y. om_get m w = Some (y, Assert) \<longrightarrow> (y, w) \<le> (x, v)))"
  proof
    assume "\<exists>x. om_get m v = Some (x, Assert) \<and> (\<forall>w y. om_get m w = Some (y, Assert) \<longrightarrow> (y, w) \<le> (x, v))"
    then obtain x where x: "om_get m v = Some (x, Assert)"
      "\<And>w y. om_get m w = Some (y, Assert) \<Longrightarrow> (y, w) \<le> (x, v)" by blast
    then have "select_latest_live_value m \<noteq> None" unfolding none by blast
    then obtain u where u: "select_latest_live_value m = Some u" by blast
    from max [OF u] obtain y where y: "om_get m u = Some (y, Assert)" "(x, v) \<le> (y, u)" using x(1) by blast
    have "(x, v) = (y, u)" by (rule antisym [OF y(2) x(2) [OF y(1)]])
    with u show "select_latest_live_value m = Some v" by simp
  qed (rule max)
qed

section \<open>Properties\<close>

abbreviation fact :: "nat \<Rightarrow> u64 \<Rightarrow> op \<Rightarrow> datom" where
  "fact n t p \<equiv> Datom (EntityId [1]) (Attribute ''a'') (VBool (n = 1)) (with_node t 0 zero_node) p"

text \<open>The LIVE lattice is a homomorphic image of the datom set: merging the lattices of two datom sets
  gives the lattice rebuilt from their union, whatever the order of the datoms, as long as no two
  datoms differ in nothing but the operation.\<close>

theorem live_homomorphism:
  assumes "op_consistent (set xs \<union> set ys)" "set zs = set xs \<union> set ys"
  shows "merge_causal (build_live_causal xs) (build_live_causal ys) = build_live_causal zs"
  using causal_of_unique [OF causal_of_merge [OF causal_of_build causal_of_build] _ assms(1)]
    causal_of_build [of zs] assms(2) by simp

theorem live_homomorphism_witness:
  "merge_causal (build_live_causal [fact 1 1 Assert]) (build_live_causal [fact 1 2 Retract]) =
   build_live_causal [fact 1 2 Retract, fact 1 1 Assert]"
  by (rule live_homomorphism) (auto simp: op_consistent_def with_node_def)

text \<open>The condition is needed. A replica that saw only the assertion and one that saw only the
  retraction of the same fact in the same transaction merge to a lattice in which the fact is
  retracted, while rebuilding from the merged datoms in canonical order keeps it asserted.\<close>

theorem live_homomorphism_fails:
  "derive_live_set (merge_causal (build_live_causal [fact 1 1 Assert]) (build_live_causal [fact 1 1 Retract])) = []
   \<and> derive_live_set (build_live_causal (sort_dedup [fact 1 1 Assert, fact 1 1 Retract])) \<noteq> []"
proof -
  have lt: "fact 1 1 Assert < fact 1 1 Retract" by (simp add: less_datom_def datom_key_def)
  then have sd: "sort_dedup [fact 1 1 Assert, fact 1 1 Retract] = [fact 1 1 Assert, fact 1 1 Retract]"
    by (intro sort_dedup_id) simp
  show ?thesis unfolding sd
    by (simp add: merge_causal_def build_live_causal_def build_live_step_def ea_key_def or_default_def
        derive_live_set_def live_values_of_def max_def less_eq_op_def less_eq_prod_simp)
qed

text \<open>Incremental maintenance is exact. Feeding datoms one at a time to \<open>live_apply\<close>, from the state
  of any earlier datoms, leaves the lattice a rebuild from all the datoms gives, and a
  materialised LIVE set equal to the projection of that lattice.\<close>

theorem live_incremental:
  "fold live_apply ds (build_live_causal es, derive_live_set (build_live_causal es)) =
     (build_live_causal (es @ ds), derive_live_set (build_live_causal (es @ ds)))"
  using fold_live_apply [of "build_live_causal es" ds] causal_ofD(1) [OF causal_of_build [of es]]
  by (simp add: build_live_causal_record)

lemma live_at_latest:
  assumes "op_consistent (set ds)"
  shows "v \<in> live_at (derive_live_set (build_live_causal ds)) (e, a) \<longleftrightarrow>
    (\<exists>d. d_op d = Assert \<and> latest (set ds) d \<and> eav d = (e, a, v))"
proof -
  let ?c = "build_live_causal ds"
  note c = causal_ofD [OF causal_of_build [of ds]]
  have "(\<exists>x. causal_get ?c (e, a, v) = Some (x, Assert)) \<longleftrightarrow>
      (\<exists>d. d_op d = Assert \<and> latest (set ds) d \<and> eav d = (e, a, v))"
  proof
    assume "\<exists>x. causal_get ?c (e, a, v) = Some (x, Assert)"
    then obtain x where x: "causal_get ?c (e, a, v) = Some (x, Assert)" ..
    from c(3) [OF x] obtain d where d: "d \<in> set ds" "eav d = (e, a, v)" "d_tx d = x" "d_op d = Assert"
      by (auto simp: stated_def)
    have "(d_tx d', d_op d') \<le> (d_tx d, d_op d)" if d': "d' \<in> set ds" "eav d' = eav d" for d'
    proof -
      have "d_tx d' \<le> x" using c(4) [OF x, of "d_tx d'" "d_op d'"] d' d by (auto simp: stated_def)
      moreover have "d_tx d' = x \<Longrightarrow> d_op d' = d_op d" using assms d d' unfolding op_consistent_def by metis
      ultimately show ?thesis using d(3,4) by (cases "d_tx d' = x") (simp_all add: le_neq_trans)
    qed
    with d show "\<exists>d. d_op d = Assert \<and> latest (set ds) d \<and> eav d = (e, a, v)" unfolding latest_def by blast
  next
    assume "\<exists>d. d_op d = Assert \<and> latest (set ds) d \<and> eav d = (e, a, v)"
    then obtain d where d: "d_op d = Assert" "latest (set ds) d" "eav d = (e, a, v)" by blast
    have s: "(d_tx d, d_op d) \<in> stated (set ds) (e, a, v)" using d by (auto simp: stated_def latest_def)
    with c(2) obtain x p where x: "causal_get ?c (e, a, v) = Some (x, p)"
      by (cases "causal_get ?c (e, a, v)") fastforce+
    from c(3) [OF x] obtain d' where d': "d' \<in> set ds" "eav d' = (e, a, v)" "d_tx d' = x" "d_op d' = p"
      by (auto simp: stated_def)
    have "x = d_tx d" using c(4) [OF x s] d d' unfolding latest_def less_eq_prod_simp by (metis antisym less_imp_le)
    moreover from this have "p = Assert" using assms d d' unfolding op_consistent_def latest_def by metis
    ultimately show "\<exists>x. causal_get ?c (e, a, v) = Some (x, Assert)" using x by blast
  qed
  then show ?thesis using live_at_derive [OF c(1), of v "(e, a)"] by auto
qed

text \<open>The two LIVE views agree: a value is in the LIVE set of the causal lattice exactly when the
  positional array has a live datom with that entity, attribute and value.\<close>

theorem live_views_agree:
  assumes "op_consistent (set ds)" "length ds \<le> u32_max"
  shows "v \<in> live_at (derive_live_set (build_live_causal ds)) (e, a) \<longleftrightarrow>
    (\<exists>d \<in> set (live_datoms (ps_from_datoms blake3 ds)). eav d = (e, a, v))"
  using live_at_latest [OF assms(1)] live_datoms_from_datoms [OF assms(2)] by auto

theorem live_views_agree_witness:
  "VBool True \<in> live_at (derive_live_set (build_live_causal [fact 1 1 Assert])) (EntityId [1], Attribute ''a'') \<longleftrightarrow>
     (\<exists>d \<in> set (live_datoms (ps_from_datoms id [fact 1 1 Assert])). eav d = (EntityId [1], Attribute ''a'', VBool True))"
  by (rule live_views_agree) (simp_all add: op_consistent_def u32_max_def)

text \<open>A single-valued attribute resolves to its last writer. Resolving the entries that a datom set
  gives an entity and attribute returns the value whose latest statement is an assertion and has the
  greatest transaction among such values (ties broken by the value order), and nothing exactly when
  every value's latest statement is a retraction.\<close>

theorem lww_resolution:
  assumes "om_get (build_live_causal ds) (e, a) = Some m"
  shows "(select_latest_live_value m = None \<longleftrightarrow> (\<forall>v x. causal_get (build_live_causal ds) (e, a, v) \<noteq> Some (x, Assert))) \<and>
    (\<forall>v. select_latest_live_value m = Some v \<longleftrightarrow>
       (\<exists>x. causal_get (build_live_causal ds) (e, a, v) = Some (x, Assert) \<and>
          (\<forall>w y. causal_get (build_live_causal ds) (e, a, w) = Some (y, Assert) \<longrightarrow> (y, w) \<le> (x, v))))"
proof -
  have "om_inv m" using causal_inv_get [OF causal_ofD(1) [OF causal_of_build] assms] by blast
  then show ?thesis using assms by (simp only: causal_get_def prod.case select_latest_spec) simp
qed

theorem lww_resolution_witness:
  "\<exists>m. om_get (build_live_causal [fact 1 1 Assert, fact 0 2 Assert]) (EntityId [1], Attribute ''a'') = Some m \<and>
     select_latest_live_value m = Some (VBool False)"
proof -
  let ?ds = "[fact 1 1 Assert, fact 0 2 Assert]"
  have lt: "with_node 1 0 zero_node < with_node 2 0 zero_node" by (simp add: with_node_def txid_less_key txid_key_def)
  have v: "VBool False < VBool True" by (simp add: less_val_def)
  obtain m where m: "om_get (build_live_causal ?ds) (EntityId [1], Attribute ''a'') = Some m"
    by (simp add: build_live_causal_def build_live_step_def ea_key_def or_default_def Let_def)
  have "causal_get (build_live_causal ?ds) (EntityId [1], Attribute ''a'', w) =
      (if w = VBool True then Some (with_node 1 0 zero_node, Assert)
       else if w = VBool False then Some (with_node 2 0 zero_node, Assert) else None)" for w
    using v by (auto simp: causal_get_def build_live_causal_def build_live_step_def ea_key_def or_default_def)
  then have "select_latest_live_value m = Some (VBool False)"
    using lww_resolution [OF m] lt by (auto simp: less_eq_prod_simp)
  with m show ?thesis by blast
qed

end
