(* ===== verification/Store.thy ===== *)
theory Store
  imports Schema Live
begin

text \<open>
  The store (crate \<open>ferratomic-store\<close>: \<open>repr.rs\<close>, \<open>store.rs\<close>, \<open>apply.rs\<close>, \<open>query.rs\<close>, \<open>merge.rs\<close>,
  \<open>checkpoint.rs\<close>) with the provenance lattice of \<open>ferratom/src/provenance.rs\<close>.

  A store is a record of its representation (a positional array, or an ordered set with four
  sorted-vector indexes), its schema, its epoch counter, its genesis node, the causal LIVE lattice
  and the materialised LIVE set. A mutating operation that can fail returns the store it leaves
  behind together with its result, because the source assigns fields before it can fail.

  Two parameters stand for code outside the repository: \<open>blake3\<close>, the hash function, and \<open>order\<close>, the
  iteration order of the hash map in \<open>evolve_schema\<close>.
\<close>

section \<open>Provenance (provenance.rs)\<close>

datatype provenance_type = Hypothesized | Inferred | Derived | Observed

fun provenance_rank :: "provenance_type \<Rightarrow> nat" where
  "provenance_rank Hypothesized = 0"
| "provenance_rank Inferred = 1"
| "provenance_rank Derived = 2"
| "provenance_rank Observed = 3"

fun provenance_as_keyword :: "provenance_type \<Rightarrow> string" where
  "provenance_as_keyword Hypothesized = ''provenance/hypothesized''"
| "provenance_as_keyword Inferred = ''provenance/inferred''"
| "provenance_as_keyword Derived = ''provenance/derived''"
| "provenance_as_keyword Observed = ''provenance/observed''"

definition provenance_from_keyword :: "string \<Rightarrow> provenance_type option" where
  "provenance_from_keyword kw = map_of
     [(''provenance/hypothesized'', Hypothesized), (''provenance/inferred'', Inferred),
      (''provenance/derived'', Derived), (''provenance/observed'', Observed)] kw"

definition provenance_cmp :: "provenance_type \<Rightarrow> provenance_type \<Rightarrow> ordering" where
  "provenance_cmp a b = cmp (provenance_rank a) (provenance_rank b)"

section \<open>The store record (repr.rs, store.rs)\<close>

datatype store_repr = RPositional positional_store | ROrdMap "datom list" indexes

record store =
  repr :: store_repr
  st_schema :: schema
  epoch :: u64
  genesis_node :: node_id
  st_causal :: live_causal
  st_live :: live_set
  schema_conflicts :: "schema_conflict list"

record tx_receipt =
  r_epoch :: u64
  r_datoms :: "datom list"

definition datoms :: "store \<Rightarrow> datom list" where
  "datoms s = (case repr s of RPositional ps \<Rightarrow> ps_canonical ps | ROrdMap ds _ \<Rightarrow> ds)"

definition store_len :: "store \<Rightarrow> nat" where
  "store_len s = (case repr s of RPositional ps \<Rightarrow> ps_len ps | ROrdMap ds _ \<Rightarrow> length ds)"

definition store_indexes :: "store \<Rightarrow> indexes option" where
  "store_indexes s = (case repr s of RPositional _ \<Rightarrow> None | ROrdMap _ ix \<Rightarrow> Some ix)"

definition fingerprint :: "store \<Rightarrow> bytes option" where
  "fingerprint s = (case repr s of RPositional ps \<Rightarrow> Some (ps_fingerprint ps) | ROrdMap _ _ \<Rightarrow> None)"

definition promote :: "store \<Rightarrow> store" where
  "promote s =
     (case repr s of
        RPositional ps \<Rightarrow>
          (let ord_set = fold os_insert (ps_canonical ps) []
           in s\<lparr>repr := ROrdMap ord_set (sort_all (ix_from_datoms ord_set))\<rparr>)
      | ROrdMap _ _ \<Rightarrow> s)"

definition demote :: "(bytes \<Rightarrow> bytes) \<Rightarrow> store \<Rightarrow> store" where
  "demote blake3 s =
     (case repr s of
        ROrdMap ds _ \<Rightarrow> s\<lparr>repr := RPositional (ps_from_datoms blake3 ds)\<rparr>
      | RPositional _ \<Rightarrow> s)"

definition ensure_indexes_sorted :: "store \<Rightarrow> store" where
  "ensure_indexes_sorted s =
     (case repr s of ROrdMap ds ix \<Rightarrow> s\<lparr>repr := ROrdMap ds (sort_all ix)\<rparr> | RPositional _ \<Rightarrow> s)"

definition store_from_datoms :: "(bytes \<Rightarrow> bytes) \<Rightarrow> datom list \<Rightarrow> store" where
  "store_from_datoms blake3 ds =
     (let positional = ps_from_datoms blake3 ds;
          causal = build_live_causal (ps_canonical positional)
      in \<lparr>repr = RPositional positional, st_schema = schema_empty, epoch = 0, genesis_node = zero_node,
          st_causal = causal, st_live = derive_live_set causal, schema_conflicts = []\<rparr>)"

definition define_named :: "(string \<times> attribute_def) list \<Rightarrow> schema" where
  "define_named ads = fold (\<lambda>(name, def). define_attr (Attribute name) def) ads schema_empty"

definition from_checkpoint ::
  "(bytes \<Rightarrow> bytes) \<Rightarrow> u64 \<Rightarrow> node_id \<Rightarrow> (string \<times> attribute_def) list \<Rightarrow> datom list \<Rightarrow> store" where
  "from_checkpoint blake3 ep node attrs ds =
     (let positional = ps_from_datoms blake3 ds;
          causal = build_live_causal (ps_canonical positional)
      in \<lparr>repr = RPositional positional, st_schema = define_named attrs, epoch = ep, genesis_node = node,
          st_causal = causal, st_live = derive_live_set causal, schema_conflicts = []\<rparr>)"

definition from_checkpoint_v3 ::
  "(bytes \<Rightarrow> bytes) \<Rightarrow> u64 \<Rightarrow> node_id \<Rightarrow> (string \<times> attribute_def) list \<Rightarrow> datom list \<Rightarrow> bool list \<Rightarrow>
     ferra_error + store" where
  "from_checkpoint_v3 blake3 ep node attrs sorted_datoms live_bits =
     bind_result (from_sorted_with_live blake3 sorted_datoms live_bits) (\<lambda>positional.
       let causal = build_live_causal (ps_canonical positional)
       in Inr \<lparr>repr = RPositional positional, st_schema = define_named attrs, epoch = ep, genesis_node = node,
               st_causal = causal, st_live = derive_live_set causal, schema_conflicts = []\<rparr>)"

definition genesis :: "(bytes \<Rightarrow> bytes) \<Rightarrow> store" where
  "genesis blake3 =
     \<lparr>repr = RPositional (ps_from_datoms blake3 []), st_schema = genesis_schema, epoch = 0,
      genesis_node = zero_node, st_causal = [], st_live = [], schema_conflicts = []\<rparr>"

definition store_live_apply :: "datom \<Rightarrow> store \<Rightarrow> store" where
  "store_live_apply d s =
     (let (causal, live) = live_apply d (st_causal s, st_live s) in s\<lparr>st_causal := causal, st_live := live\<rparr>)"

section \<open>Views (query.rs, iter.rs)\<close>

record snapshot =
  sn_datoms :: "datom list"
  sn_epoch :: u64

definition datom_set_contains :: "store \<Rightarrow> datom \<Rightarrow> bool" where
  "datom_set_contains s d =
     (case repr s of
        RPositional ps \<Rightarrow> binary_search_by (\<lambda>x. cmp x d) (ps_canonical ps) \<noteq> None
      | ROrdMap ds _ \<Rightarrow> List.member ds d)"

definition live_values :: "store \<Rightarrow> entity_id \<Rightarrow> attribute \<Rightarrow> val list option" where
  "live_values s e a = om_get (st_live s) (e, a)"

definition live_resolve :: "store \<Rightarrow> entity_id \<Rightarrow> attribute \<Rightarrow> val option" where
  "live_resolve s e a = Option.bind (om_get (st_causal s) (e, a)) select_latest_live_value"

definition snapshot :: "store \<Rightarrow> snapshot" where
  "snapshot s =
     \<lparr>sn_datoms = (case repr s of RPositional ps \<Rightarrow> ps_canonical ps | ROrdMap ds _ \<Rightarrow> ds), sn_epoch = epoch s\<rparr>"

section \<open>Writing (apply.rs)\<close>

record transact_context =
  tc_tx_id :: txid
  tc_frontier :: "frontier option"
  tc_signing :: "(bytes \<times> bytes) option"
  tc_provenance :: provenance_type
  tc_store_fingerprint :: bytes

definition minimal_context :: "txid \<Rightarrow> transact_context" where
  "minimal_context x =
     \<lparr>tc_tx_id = x, tc_frontier = None, tc_signing = None, tc_provenance = Observed,
      tc_store_fingerprint = replicate 32 0\<rparr>"

text \<open>Primary set first, then the indexes, then LIVE; the pattern does nothing on a positional store.\<close>

definition insert_primary :: "datom \<Rightarrow> store \<Rightarrow> store" where
  "insert_primary d s =
     (case repr s of
        ROrdMap ds ix \<Rightarrow> s\<lparr>repr := ROrdMap (os_insert d ds) (ix_insert d ix)\<rparr>
      | RPositional _ \<Rightarrow> s)"

definition insert_all :: "datom list \<Rightarrow> store \<Rightarrow> store" where
  "insert_all ds s = fold (\<lambda>d s. store_live_apply d (insert_primary d s)) ds s"

definition store_insert :: "datom \<Rightarrow> store \<Rightarrow> store" where
  "store_insert d s = store_live_apply d (insert_primary d (promote s))"

type_synonym entity_order = "entity_id list \<Rightarrow> entity_id list"

definition store_evolve :: "entity_order \<Rightarrow> datom list \<Rightarrow> store \<Rightarrow> store \<times> (ferra_error + unit)" where
  "store_evolve order ds s =
     (let (sch, r) = evolve_schema order (st_schema s) ds in (s\<lparr>st_schema := sch\<rparr>, r))"

definition replay_entry ::
  "entity_order \<Rightarrow> u64 \<Rightarrow> datom list \<Rightarrow> store \<Rightarrow> store \<times> (ferra_error + unit)" where
  "replay_entry order ep ds s = store_evolve order ds ((fold store_insert ds s)\<lparr>epoch := ep\<rparr>)"

fun batch_replay_loop ::
  "entity_order \<Rightarrow> (u64 \<times> datom list) list \<Rightarrow> store \<Rightarrow> store \<times> (ferra_error + unit)" where
  "batch_replay_loop order [] s = (s, Inr ())"
| "batch_replay_loop order ((ep, ds) # es) s =
     (case store_evolve order ds ((insert_all ds s)\<lparr>epoch := ep\<rparr>) of
        (s', Inl e) \<Rightarrow> (s', Inl e)
      | (s', Inr _) \<Rightarrow> batch_replay_loop order es s')"

definition batch_replay ::
  "(bytes \<Rightarrow> bytes) \<Rightarrow> entity_order \<Rightarrow> (u64 \<times> datom list) list \<Rightarrow> store \<Rightarrow> store \<times> (ferra_error + unit)" where
  "batch_replay blake3 order es s =
     (if es = [] then (s, Inr ())
      else (case batch_replay_loop order es (promote s) of
              (s', Inl e) \<Rightarrow> (s', Inl e)
            | (s', Inr _) \<Rightarrow> (demote blake3 s', Inr ())))"

definition stamp_datoms :: "datom list \<Rightarrow> txid \<Rightarrow> datom list" where
  "stamp_datoms ds x = map (\<lambda>d. Datom (d_entity d) (d_attribute d) (d_value d) x (d_op d)) ds"

definition tx_entity_from_txid :: "(bytes \<Rightarrow> bytes) \<Rightarrow> txid \<Rightarrow> entity_id" where
  "tx_entity_from_txid blake3 x = from_content blake3 (tx_id_canonical_bytes x)"

text \<open>\<open>i64::try_from(u64).unwrap_or(i64::MAX)\<close>, as the bits of the \<open>i64\<close>.\<close>

definition saturate_i64 :: "u64 \<Rightarrow> u64" where
  "saturate_i64 p = (if p \<le> 0x7FFFFFFFFFFFFFFF then p else 0x7FFFFFFFFFFFFFFF)"

definition create_tx_metadata :: "(bytes \<Rightarrow> bytes) \<Rightarrow> entity_id \<Rightarrow> node_id \<Rightarrow> txid \<Rightarrow> datom list" where
  "create_tx_metadata blake3 tx_entity node x =
     [Datom tx_entity (Attribute ''tx/time'') (VInstant (saturate_i64 (tx_physical x))) x Assert,
      Datom tx_entity (Attribute ''tx/origin'') (VRef (from_content blake3 (node_bytes node))) x Assert]"

definition create_federation_metadata ::
  "(bytes \<Rightarrow> bytes) \<Rightarrow> entity_id \<Rightarrow> txid \<Rightarrow> frontier option \<Rightarrow> (bytes \<times> bytes) option \<Rightarrow> provenance_type \<Rightarrow> datom list" where
  "create_federation_metadata blake3 tx_entity x frontier signing provenance =
     (case frontier of
        None \<Rightarrow> []
      | Some f \<Rightarrow> map (\<lambda>(_, pred).
          Datom tx_entity (Attribute ''tx/predecessor'') (VRef (tx_entity_from_txid blake3 pred)) x Assert) (fr_map f))
     @ [Datom tx_entity (Attribute ''tx/provenance'') (VKeyword (provenance_as_keyword provenance)) x Assert]
     @ (case signing of
          None \<Rightarrow> []
        | Some (sig, signer) \<Rightarrow>
            [Datom tx_entity (Attribute ''tx/signature'') (VBytes sig) x Assert,
             Datom tx_entity (Attribute ''tx/signer'') (VBytes signer) x Assert])"

definition splice_transact_batch :: "(bytes \<Rightarrow> bytes) \<Rightarrow> datom list \<Rightarrow> store \<Rightarrow> store" where
  "splice_transact_batch blake3 new s =
     (case repr s of
        RPositional ps \<Rightarrow>
          (let merged = merge_sort_dedup (ps_canonical ps) (dedup (sort new))
           in fold store_live_apply new (s\<lparr>repr := RPositional (from_sorted_canonical blake3 merged)\<rparr>))
      | ROrdMap _ _ \<Rightarrow> s)"

text \<open>The dispatch on the representation at the end of \<open>transact\<close> and of \<open>batch_splice_transact\<close>.\<close>

definition apply_datoms :: "(bytes \<Rightarrow> bytes) \<Rightarrow> datom list \<Rightarrow> store \<Rightarrow> store" where
  "apply_datoms blake3 new s =
     (case repr s of
        RPositional _ \<Rightarrow> splice_transact_batch blake3 new s
      | ROrdMap _ _ \<Rightarrow> demote blake3 (insert_all new s))"

definition checked_epoch :: "u64 \<Rightarrow> u64 option" where
  "checked_epoch e = (if e = - 1 then None else Some (e + 1))"

definition tx_datoms :: "(bytes \<Rightarrow> bytes) \<Rightarrow> datom list \<Rightarrow> node_id \<Rightarrow> transact_context \<Rightarrow> datom list" where
  "tx_datoms blake3 ds node ctx =
     (let tx_entity = tx_entity_from_txid blake3 (tc_tx_id ctx)
      in stamp_datoms ds (tc_tx_id ctx) @ create_tx_metadata blake3 tx_entity node (tc_tx_id ctx)
         @ create_federation_metadata blake3 tx_entity (tc_tx_id ctx) (tc_frontier ctx) (tc_signing ctx) (tc_provenance ctx))"

definition transact ::
  "(bytes \<Rightarrow> bytes) \<Rightarrow> entity_order \<Rightarrow> committed \<Rightarrow> transact_context \<Rightarrow> store \<Rightarrow> store \<times> (ferra_error + tx_receipt)" where
  "transact blake3 order t ctx s =
     (let node = committed_node t; ds = into_datoms t
      in if ds = [] then (s, Inl EmptyTransaction)
         else (case checked_epoch (epoch s) of
                 None \<Rightarrow> (s, Inl (InvariantViolation ''INV-FERR-007''))
               | Some ep \<Rightarrow>
                   (let all_datoms = tx_datoms blake3 ds node ctx
                    in case store_evolve order all_datoms (s\<lparr>epoch := ep\<rparr>) of
                         (s', Inl e) \<Rightarrow> (s', Inl e)
                       | (s', Inr _) \<Rightarrow>
                           (let s'' = apply_datoms blake3 all_datoms s'
                            in (s'', Inr \<lparr>r_epoch = epoch s'', r_datoms = all_datoms\<rparr>)))))"

definition stamp_and_append_metadata :: "(bytes \<Rightarrow> bytes) \<Rightarrow> datom list \<Rightarrow> txid \<Rightarrow> datom list" where
  "stamp_and_append_metadata blake3 ds x =
     (let tx_entity = tx_entity_from_txid blake3 x
      in stamp_datoms ds x @ create_tx_metadata blake3 tx_entity (tx_node x) x
         @ create_federation_metadata blake3 tx_entity x None None Observed)"

fun batch_splice_loop ::
  "(bytes \<Rightarrow> bytes) \<Rightarrow> entity_order \<Rightarrow> (datom list \<times> txid) list \<Rightarrow> store \<Rightarrow> store \<times> (ferra_error + tx_receipt list)" where
  "batch_splice_loop blake3 order [] s = (s, Inr [])"
| "batch_splice_loop blake3 order ((ds, x) # bs) s =
     (if ds = [] then (s, Inl EmptyTransaction)
      else (case checked_epoch (epoch s) of
              None \<Rightarrow> (s, Inl (InvariantViolation ''INV-FERR-007''))
            | Some ep \<Rightarrow>
                (let new = stamp_and_append_metadata blake3 ds x
                 in case store_evolve order new (s\<lparr>epoch := ep\<rparr>) of
                      (s', Inl e) \<Rightarrow> (s', Inl e)
                    | (s', Inr _) \<Rightarrow>
                        (case batch_splice_loop blake3 order bs s' of
                           (s'', Inl e) \<Rightarrow> (s'', Inl e)
                         | (s'', Inr rs) \<Rightarrow> (s'', Inr (\<lparr>r_epoch = epoch s', r_datoms = new\<rparr> # rs))))))"

definition batch_splice_transact ::
  "(bytes \<Rightarrow> bytes) \<Rightarrow> entity_order \<Rightarrow> (datom list \<times> txid) list \<Rightarrow> store \<Rightarrow> store \<times> (ferra_error + tx_receipt list)" where
  "batch_splice_transact blake3 order batches s =
     (if batches = [] then (s, Inr [])
      else (case batch_splice_loop blake3 order batches s of
              (s', Inl e) \<Rightarrow> (s', Inl e)
            | (s', Inr receipts) \<Rightarrow>
                (apply_datoms blake3 (concat (map r_datoms receipts)) s', Inr receipts)))"

section \<open>Merging (merge.rs)\<close>

definition merge_repr :: "(bytes \<Rightarrow> bytes) \<Rightarrow> store_repr \<Rightarrow> store_repr \<Rightarrow> positional_store" where
  "merge_repr blake3 a b =
     (case (a, b) of
        (RPositional pa, RPositional pb) \<Rightarrow> merge_positional blake3 pa pb
      | (RPositional pa, ROrdMap db _) \<Rightarrow> from_sorted_canonical blake3 (merge_sort_dedup (ps_canonical pa) db)
      | (ROrdMap da _, RPositional pb) \<Rightarrow> from_sorted_canonical blake3 (merge_sort_dedup da (ps_canonical pb))
      | (ROrdMap da _, ROrdMap db _) \<Rightarrow> from_sorted_canonical blake3 (merge_sort_dedup da db))"

definition from_merge :: "(bytes \<Rightarrow> bytes) \<Rightarrow> store \<Rightarrow> store \<Rightarrow> store" where
  "from_merge blake3 a b =
     (let positional = merge_repr blake3 (repr a) (repr b);
          (sch, conflicts) = merge_schemas (st_schema a) (st_schema b);
          causal = merge_causal (st_causal a) (st_causal b)
      in \<lparr>repr = RPositional positional, st_schema = sch, epoch = max (epoch a) (epoch b),
          genesis_node = min (genesis_node a) (genesis_node b), st_causal = causal,
          st_live = derive_live_set causal, schema_conflicts = conflicts\<rparr>)"

definition merge :: "(bytes \<Rightarrow> bytes) \<Rightarrow> store \<Rightarrow> store \<Rightarrow> ferra_error + store" where
  "merge blake3 a b = Inr (from_merge blake3 a b)"

text \<open>The closure of \<open>filter\<close> counts as it filters: accepted datoms, transferred, filtered out, present.\<close>

definition filter_remote :: "store \<Rightarrow> store \<Rightarrow> datom_filter \<Rightarrow> datom list \<times> nat \<times> nat \<times> nat" where
  "filter_remote local remote flt =
     (let local_set = datoms local
      in fold (\<lambda>d (accepted, transferred, filtered_out, already_present).
           if filter_matches flt d then
             (if List.member local_set d then (accepted @ [d], transferred, filtered_out, Suc already_present)
              else (accepted @ [d], Suc transferred, filtered_out, already_present))
           else (accepted, transferred, Suc filtered_out, already_present))
         (datoms remote) ([], 0, 0, 0))"

record merge_receipt =
  mr_source :: string
  mr_filter_description :: string
  mr_transferred :: nat
  mr_filtered_out :: nat
  mr_already_present :: nat

definition selective_merge ::
  "(bytes \<Rightarrow> bytes) \<Rightarrow> store \<Rightarrow> store \<Rightarrow> datom_filter \<Rightarrow> string \<Rightarrow> ferra_error + (store \<times> merge_receipt)" where
  "selective_merge blake3 local remote flt source =
     (let (accepted, transferred, filtered_out, already_present) = filter_remote local remote flt;
          positional = from_sorted_canonical blake3 (merge_sort_dedup (datoms local) (dedup (sort accepted)));
          (sch, conflicts) = merge_schemas (st_schema local) (st_schema remote);
          causal = build_live_causal (ps_canonical positional)
      in Inr (\<lparr>repr = RPositional positional, st_schema = sch, epoch = max (epoch local) (epoch remote),
               genesis_node = min (genesis_node local) (genesis_node remote), st_causal = causal,
               st_live = derive_live_set causal, schema_conflicts = conflicts\<rparr>,
              \<lparr>mr_source = source, mr_filter_description = filter_serialize flt, mr_transferred = transferred,
               mr_filtered_out = filtered_out, mr_already_present = already_present\<rparr>))"

section \<open>Checkpoint data (checkpoint.rs)\<close>

record checkpoint_data =
  cd_epoch :: u64
  cd_genesis_node :: node_id
  cd_schema_pairs :: "(string \<times> attribute_def) list"
  cd_datoms :: "datom list"
  cd_live_bits :: "bool list option"

definition extract_checkpoint_data :: "store \<Rightarrow> checkpoint_data" where
  "extract_checkpoint_data s =
     \<lparr>cd_epoch = epoch s, cd_genesis_node = genesis_node s,
      cd_schema_pairs = fold (\<lambda>(a, def) m. om_insert (as_str a) def m) (st_schema s) [],
      cd_datoms = datoms s,
      cd_live_bits = Some (case repr s of
                             RPositional ps \<Rightarrow> live_bits_clone ps
                           | ROrdMap _ _ \<Rightarrow> build_live_bitvector_pub (datoms s))\<rparr>"

definition store_from_checkpoint_data :: "(bytes \<Rightarrow> bytes) \<Rightarrow> checkpoint_data \<Rightarrow> ferra_error + store" where
  "store_from_checkpoint_data blake3 data =
     (case cd_live_bits data of
        Some live_bits \<Rightarrow>
          from_checkpoint_v3 blake3 (cd_epoch data) (cd_genesis_node data) (cd_schema_pairs data)
            (cd_datoms data) live_bits
      | None \<Rightarrow>
          Inr (from_checkpoint blake3 (cd_epoch data) (cd_genesis_node data) (cd_schema_pairs data) (cd_datoms data)))"

section \<open>The store invariant\<close>

fun repr_inv :: "(bytes \<Rightarrow> bytes) \<Rightarrow> store_repr \<Rightarrow> bool" where
  "repr_inv blake3 (RPositional ps) \<longleftrightarrow> ps_inv blake3 ps"
| "repr_inv blake3 (ROrdMap ds ix) \<longleftrightarrow> strict_sorted ds \<and> ix_covers ix (set ds)"

definition store_inv :: "(bytes \<Rightarrow> bytes) \<Rightarrow> store \<Rightarrow> bool" where
  "store_inv blake3 s \<longleftrightarrow>
     repr_inv blake3 (repr s) \<and> schema_inv (st_schema s) \<and> causal_of (st_causal s) (set (datoms s)) \<and>
     st_live s = derive_live_set (st_causal s)"

lemma strict_sorted_datoms: "store_inv blake3 s \<Longrightarrow> strict_sorted (datoms s)"
  by (cases "repr s") (simp_all add: store_inv_def datoms_def ps_inv_def)

lemma datoms_simps [simp]:
  "datoms (s\<lparr>st_schema := sch\<rparr>) = datoms s" "datoms (s\<lparr>epoch := e\<rparr>) = datoms s"
  "datoms (s\<lparr>st_causal := c, st_live := l\<rparr>) = datoms s" "datoms (s\<lparr>schema_conflicts := cs\<rparr>) = datoms s"
  "datoms (s\<lparr>repr := RPositional ps\<rparr>) = ps_canonical ps" "datoms (s\<lparr>repr := ROrdMap ds ix\<rparr>) = ds"
  by (simp_all add: datoms_def)

lemma store_inv_updates [simp]:
  "store_inv blake3 (s\<lparr>epoch := e\<rparr>) = store_inv blake3 s"
  "store_inv blake3 (s\<lparr>schema_conflicts := cs\<rparr>) = store_inv blake3 s"
  "store_inv blake3 s \<Longrightarrow> schema_inv sch \<Longrightarrow> store_inv blake3 (s\<lparr>st_schema := sch\<rparr>)"
  by (simp_all add: store_inv_def)

subsection \<open>Changing representation\<close>

lemma promote_cases:
  "repr s = RPositional ps \<Longrightarrow> strict_sorted (ps_canonical ps) \<Longrightarrow>
     promote s = s\<lparr>repr := ROrdMap (ps_canonical ps) (sort_all (ix_from_datoms (ps_canonical ps)))\<rparr>"
proof -
  assume a: "repr s = RPositional ps" "strict_sorted (ps_canonical ps)"
  have "fold os_insert (ps_canonical ps) [] = ps_canonical ps"
    using a(2) by (intro strict_sorted_set_unique) simp_all
  with a(1) show ?thesis by (simp add: promote_def Let_def)
qed

lemma ix_covers_promoted: "ix_covers (sort_all (ix_from_datoms ds)) (set ds)"
  using ix_covers_fold [OF ix_covers_empty, of ds] by (simp add: ix_from_datoms_def)

lemma store_inv_promote [simp]: "store_inv blake3 s \<Longrightarrow> store_inv blake3 (promote s)"
proof -
  assume i: "store_inv blake3 s"
  show ?thesis
  proof (cases "repr s")
    case (RPositional ps)
    with i show ?thesis
      by (simp add: promote_cases store_inv_def ps_inv_def ix_covers_promoted datoms_def)
  qed (use i in \<open>simp add: promote_def\<close>)
qed

lemma promote_fields [simp]:
  "st_schema (promote s) = st_schema s" "epoch (promote s) = epoch s"
  "genesis_node (promote s) = genesis_node s" "st_causal (promote s) = st_causal s"
  "st_live (promote s) = st_live s" "schema_conflicts (promote s) = schema_conflicts s"
  by (simp_all add: promote_def Let_def split: store_repr.splits)

lemma datoms_promote [simp]: "store_inv blake3 s \<Longrightarrow> datoms (promote s) = datoms s"
proof (cases "repr s")
  case (RPositional ps)
  assume "store_inv blake3 s"
  with RPositional have "strict_sorted (ps_canonical ps)" by (simp add: store_inv_def ps_inv_def)
  with RPositional show ?thesis by (simp add: promote_cases datoms_def)
qed (simp add: promote_def)

lemma store_inv_demote [simp]: "store_inv blake3 s \<Longrightarrow> store_inv blake3 (demote blake3 s)"
  by (cases "repr s") (auto simp: demote_def store_inv_def datoms_def)

lemma datoms_demote [simp]: "store_inv blake3 s \<Longrightarrow> datoms (demote blake3 s) = datoms s"
  by (cases "repr s") (auto simp: demote_def store_inv_def datoms_def)

lemma demote_fields [simp]:
  "st_schema (demote b s) = st_schema s" "epoch (demote b s) = epoch s"
  "genesis_node (demote b s) = genesis_node s" "st_causal (demote b s) = st_causal s"
  "st_live (demote b s) = st_live s" "schema_conflicts (demote b s) = schema_conflicts s"
  by (simp_all add: demote_def split: store_repr.splits)

text \<open>A demoted store is the positional store of its datoms.\<close>

lemma repr_demote:
  "store_inv blake3 s \<Longrightarrow> repr (demote blake3 s) = RPositional (from_sorted_canonical blake3 (datoms s))"
  by (cases "repr s") (auto simp: demote_def store_inv_def datoms_def ps_inv_def ps_from_datoms_canonical)

lemma demote_promote [simp]: "store_inv blake3 s \<Longrightarrow> demote blake3 (promote s) = demote blake3 s"
  by (rule store.equality) (simp_all add: repr_demote)

lemma store_inv_ensure_sorted [simp]: "store_inv blake3 s \<Longrightarrow> store_inv blake3 (ensure_indexes_sorted s)"
  by (cases "repr s") (auto simp: ensure_indexes_sorted_def store_inv_def datoms_def)

subsection \<open>Absorbing datoms\<close>

lemma store_inv_causal: "store_inv blake3 s \<Longrightarrow> causal_inv (st_causal s)"
  using causal_ofD(1) by (auto simp: store_inv_def)

lemma fold_store_live_apply:
  assumes "causal_inv (st_causal s)" "st_live s = derive_live_set (st_causal s)"
  shows "fold store_live_apply ds s =
    s\<lparr>st_causal := fold record_datom ds (st_causal s),
      st_live := derive_live_set (fold record_datom ds (st_causal s))\<rparr>"
proof -
  have "fold store_live_apply ds s =
      (let (c, l) = fold live_apply ds (st_causal s, st_live s) in s\<lparr>st_causal := c, st_live := l\<rparr>)" for s
    by (induction ds arbitrary: s) (simp_all add: store_live_apply_def case_prod_unfold Let_def)
  then show ?thesis using fold_live_apply [OF assms(1)] assms(2) by simp
qed

lemma store_live_apply_repr: "store_live_apply d (t\<lparr>repr := x\<rparr>) = (store_live_apply d t)\<lparr>repr := x\<rparr>"
  by (simp add: store_live_apply_def case_prod_unfold Let_def)

lemma fold_store_live_apply_repr:
  "fold store_live_apply ds (t\<lparr>repr := x\<rparr>) = (fold store_live_apply ds t)\<lparr>repr := x\<rparr>"
  by (induction ds arbitrary: t) (simp_all add: store_live_apply_repr)

lemma insert_all_ordmap:
  assumes "repr s = ROrdMap d0 ix" "causal_inv (st_causal s)" "st_live s = derive_live_set (st_causal s)"
  shows "insert_all ds s =
    s\<lparr>repr := ROrdMap (fold os_insert ds d0) (fold ix_insert ds ix),
      st_causal := fold record_datom ds (st_causal s),
      st_live := derive_live_set (fold record_datom ds (st_causal s))\<rparr>"
proof -
  have "insert_all ds s =
      (fold store_live_apply ds s)\<lparr>repr := ROrdMap (fold os_insert ds d0) (fold ix_insert ds ix)\<rparr>"
    using assms(1)
  proof (induction ds arbitrary: s d0 ix)
    case (Cons d ds)
    let ?s = "store_live_apply d (insert_primary d s)"
    have r: "repr ?s = ROrdMap (os_insert d d0) (ix_insert d ix)"
      by (simp add: store_live_apply_def insert_primary_def Cons.prems case_prod_unfold Let_def)
    have i: "?s = (store_live_apply d s)\<lparr>repr := ROrdMap (os_insert d d0) (ix_insert d ix)\<rparr>"
      by (simp add: store_live_apply_def insert_primary_def Cons.prems case_prod_unfold Let_def)
    have "insert_all (d # ds) s = insert_all ds ?s" by (simp add: insert_all_def)
    also have "\<dots> = (fold store_live_apply ds ?s)\<lparr>repr := ROrdMap (fold os_insert ds (os_insert d d0)) (fold ix_insert ds (ix_insert d ix))\<rparr>"
      using Cons.IH [OF r] .
    finally show ?case by (simp add: i fold_store_live_apply_repr)
  qed (simp add: insert_all_def)
  then show ?thesis by (simp add: fold_store_live_apply [OF assms(2,3)])
qed

lemma store_inv_insert_all:
  assumes "store_inv blake3 s" "repr s = ROrdMap d0 ix"
  shows "store_inv blake3 (insert_all ds s)" "set (datoms (insert_all ds s)) = set (datoms s) \<union> set ds"
proof -
  note e = insert_all_ordmap [OF assms(2) store_inv_causal [OF assms(1)]]
  have live: "st_live s = derive_live_set (st_causal s)" using assms(1) by (simp add: store_inv_def)
  have "strict_sorted d0" "ix_covers ix (set d0)" using assms by (simp_all add: store_inv_def)
  with ix_covers_fold [of ix "set d0" ds]
  have "repr_inv blake3 (ROrdMap (fold os_insert ds d0) (fold ix_insert ds ix))" by (simp add: Un_commute)
  moreover have "causal_of (fold record_datom ds (st_causal s)) (set ds \<union> set d0)"
    using assms by (intro causal_of_fold) (simp add: store_inv_def datoms_def)
  ultimately show "store_inv blake3 (insert_all ds s)"
    using assms(1) by (simp add: e [OF live] store_inv_def datoms_def)
  show "set (datoms (insert_all ds s)) = set (datoms s) \<union> set ds"
    using assms(2) by (simp add: e [OF live] datoms_def Un_commute)
qed

text \<open>What the dispatch at the end of a transaction does, whatever the representation.\<close>

definition absorb :: "(bytes \<Rightarrow> bytes) \<Rightarrow> datom list \<Rightarrow> store \<Rightarrow> store" where
  "absorb blake3 new s =
     s\<lparr>repr := RPositional (from_sorted_canonical blake3 (sort_dedup (datoms s @ new))),
       st_causal := fold record_datom new (st_causal s),
       st_live := derive_live_set (fold record_datom new (st_causal s))\<rparr>"

lemma demote_insert_all:
  assumes "store_inv blake3 s" "repr s = ROrdMap d0 ix"
  shows "demote blake3 (insert_all new s) = absorb blake3 new s"
proof -
  have l: "st_live s = derive_live_set (st_causal s)" using assms(1) by (simp add: store_inv_def)
  have "fold os_insert new d0 = sort_dedup (d0 @ new)"
    using assms by (intro strict_sorted_set_unique) (auto simp: store_inv_def)
  with assms(2) show ?thesis
    by (simp add: insert_all_ordmap [OF assms(2) store_inv_causal [OF assms(1)] l] demote_def absorb_def
        datoms_def ps_from_datoms_canonical)
qed

lemma apply_datoms_absorb:
  assumes "store_inv blake3 s"
  shows "apply_datoms blake3 new s = absorb blake3 new s"
proof (cases "repr s")
  case (ROrdMap d0 ix)
  with demote_insert_all [OF assms ROrdMap] show ?thesis by (simp add: apply_datoms_def)
next
  case (RPositional ps)
  then have "strict_sorted (ps_canonical ps)" using assms by (simp add: store_inv_def ps_inv_def)
  then have m: "merge_sort_dedup (ps_canonical ps) (dedup (sort new)) = sort_dedup (ps_canonical ps @ new)"
    by (intro strict_sorted_set_unique) (simp_all flip: sort_dedup_def)
  have l: "st_live s = derive_live_set (st_causal s)" using assms by (simp add: store_inv_def)
  show ?thesis
    using RPositional l store_inv_causal [OF assms]
    by (simp add: apply_datoms_def splice_transact_batch_def m absorb_def fold_store_live_apply Let_def datoms_def)
qed

lemma datoms_absorb [simp]: "datoms (absorb blake3 new s) = sort_dedup (datoms s @ new)"
  by (simp add: absorb_def datoms_def)

lemma absorb_fields [simp]:
  "st_schema (absorb b new s) = st_schema s" "epoch (absorb b new s) = epoch s"
  "genesis_node (absorb b new s) = genesis_node s" "schema_conflicts (absorb b new s) = schema_conflicts s"
  "absorb b new (s\<lparr>epoch := e\<rparr>) = (absorb b new s)\<lparr>epoch := e\<rparr>"
  "absorb b new (s\<lparr>st_schema := sch\<rparr>) = (absorb b new s)\<lparr>st_schema := sch\<rparr>"
  by (simp_all add: absorb_def)

lemma store_inv_absorb [simp]:
  assumes "store_inv blake3 s"
  shows "store_inv blake3 (absorb blake3 new s)"
proof -
  have "causal_of (fold record_datom new (st_causal s)) (set new \<union> set (datoms s))"
    using assms by (intro causal_of_fold) (simp add: store_inv_def)
  with assms show ?thesis by (simp add: store_inv_def absorb_def datoms_def Un_commute)
qed

lemma absorb_absorb: "absorb b ys (absorb b xs s) = absorb b (xs @ ys) s"
proof -
  have "sort_dedup (sort_dedup (datoms s @ xs) @ ys) = sort_dedup (datoms s @ xs @ ys)"
    by (rule sort_dedup_cong) (simp add: Un_assoc)
  then show ?thesis by (simp add: absorb_def)
qed

lemma absorb_promote [simp]: "store_inv b s \<Longrightarrow> absorb b new (promote s) = absorb b new s"
  by (rule store.equality) (simp_all add: absorb_def)

lemma absorb_Nil: "store_inv b s \<Longrightarrow> absorb b [] s = demote b s"
  by (rule store.equality) (simp_all add: absorb_def repr_demote strict_sorted_datoms, simp_all add: store_inv_def)

subsection \<open>Schema evolution inside the store\<close>

lemma store_evolve_eq:
  "store_evolve order ds s = (s\<lparr>st_schema := fst (evolve_schema order (st_schema s) ds)\<rparr>,
     snd (evolve_schema order (st_schema s) ds))"
  by (simp add: store_evolve_def case_prod_unfold Let_def)

lemma store_inv_schema: "store_inv blake3 s \<Longrightarrow> schema_inv (st_schema s)"
  by (simp add: store_inv_def)

subsection \<open>Transactions\<close>

text \<open>\<open>transact\<close> in closed form.\<close>

lemma transact_eq:
  assumes "store_inv blake3 s"
  shows "transact blake3 order t ctx s =
    (let new = tx_datoms blake3 (into_datoms t) (committed_node t) ctx;
         (sch, r) = evolve_schema order (st_schema s) new
     in if into_datoms t = [] then (s, Inl EmptyTransaction)
        else if epoch s = - 1 then (s, Inl (InvariantViolation ''INV-FERR-007''))
        else (case r of
                Inl e \<Rightarrow> (s\<lparr>epoch := epoch s + 1, st_schema := sch\<rparr>, Inl e)
              | Inr _ \<Rightarrow> ((absorb blake3 new s)\<lparr>epoch := epoch s + 1, st_schema := sch\<rparr>,
                          Inr \<lparr>r_epoch = epoch s + 1, r_datoms = new\<rparr>)))"
proof -
  have "store_inv blake3 (s\<lparr>epoch := e, st_schema := fst (evolve_schema order (st_schema s) ds)\<rparr>)" for e ds
    using assms store_inv_schema [OF assms] by simp
  then show ?thesis
    by (simp add: transact_def store_evolve_eq checked_epoch_def Let_def case_prod_unfold
        apply_datoms_absorb split: sum.splits)
qed

lemma store_inv_transact:
  assumes "store_inv blake3 s"
  shows "store_inv blake3 (fst (transact blake3 order t ctx s))"
  using assms store_inv_schema [OF assms]
  by (simp add: transact_eq [OF assms] Let_def case_prod_unfold split: sum.splits)

lemma batch_splice_step:
  "batch_splice_loop blake3 order ((ds, x) # bs) s =
     (let new = stamp_and_append_metadata blake3 ds x;
          s1 = s\<lparr>epoch := epoch s + 1, st_schema := fst (evolve_schema order (st_schema s) new)\<rparr>
      in if ds = [] then (s, Inl EmptyTransaction)
         else if epoch s = - 1 then (s, Inl (InvariantViolation ''INV-FERR-007''))
         else (case snd (evolve_schema order (st_schema s) new) of
                 Inl e \<Rightarrow> (s1, Inl e)
               | Inr _ \<Rightarrow> (fst (batch_splice_loop blake3 order bs s1),
                   map_sum id ((#) \<lparr>r_epoch = epoch s + 1, r_datoms = new\<rparr>)
                     (snd (batch_splice_loop blake3 order bs s1)))))"
  by (auto simp: checked_epoch_def store_evolve_eq Let_def split: sum.splits prod.splits)

declare batch_splice_loop.simps(2) [simp del]

lemma epoch_less: "e \<noteq> - 1 \<Longrightarrow> e < (e :: u64) + 1"
  by (metis inc_less_eq_self_iff_eq linorder_not_le)

lemma batch_splice_loop_fields:
  assumes "schema_inv (st_schema s)"
  shows "\<exists>sch ep. fst (batch_splice_loop blake3 order bs s) = s\<lparr>st_schema := sch, epoch := ep\<rparr> \<and>
    schema_inv sch \<and> epoch s \<le> ep"
  using assms
proof (induction bs arbitrary: s)
  case Nil
  then have "fst (batch_splice_loop blake3 order [] s) = s\<lparr>st_schema := st_schema s, epoch := epoch s\<rparr>" by simp
  with Nil show ?case by blast
next
  case (Cons b bs)
  obtain ds x where b: "b = (ds, x)" by fastforce
  let ?new = "stamp_and_append_metadata blake3 ds x"
  let ?sch = "fst (evolve_schema order (st_schema s) ?new)"
  let ?s = "s\<lparr>epoch := epoch s + 1, st_schema := ?sch\<rparr>"
  have same: "s = s\<lparr>st_schema := st_schema s, epoch := epoch s\<rparr>"
    "?s = s\<lparr>st_schema := ?sch, epoch := epoch s + 1\<rparr>" by simp_all
  show ?case
  proof (cases "ds = [] \<or> epoch s = - 1")
    case True
    then have "fst (batch_splice_loop blake3 order (b # bs) s) = s" by (auto simp: b batch_splice_step Let_def)
    with same(1) Cons.prems show ?thesis by (intro exI [of _ "st_schema s"] exI [of _ "epoch s"]) simp
  next
    case False
    then have le: "epoch s \<le> epoch s + 1" using epoch_less [of "epoch s"] by simp
    show ?thesis
    proof (cases "snd (evolve_schema order (st_schema s) ?new)")
      case (Inl e)
      with False have "fst (batch_splice_loop blake3 order (b # bs) s) = ?s" by (simp add: b batch_splice_step Let_def)
      with same(2) le Cons.prems show ?thesis
        by (intro exI [of _ ?sch] exI [of _ "epoch s + 1"]) simp
    next
      case (Inr u)
      with False have "fst (batch_splice_loop blake3 order (b # bs) s) = fst (batch_splice_loop blake3 order bs ?s)"
        by (simp add: b batch_splice_step Let_def)
      moreover from Cons.IH [of ?s] Cons.prems obtain sch ep where
        "fst (batch_splice_loop blake3 order bs ?s) = ?s\<lparr>st_schema := sch, epoch := ep\<rparr>" "schema_inv sch" "epoch s + 1 \<le> ep"
        by auto
      ultimately show ?thesis using le by (intro exI [of _ sch] exI [of _ ep]) auto
    qed
  qed
qed

text \<open>Transactions one after the other, stopping at the first error; and the single transactions a
  batch stands for.\<close>

fun transact_all ::
  "(bytes \<Rightarrow> bytes) \<Rightarrow> entity_order \<Rightarrow> (committed \<times> transact_context) list \<Rightarrow> store \<Rightarrow> store \<times> (ferra_error + tx_receipt list)" where
  "transact_all blake3 order [] s = (s, Inr [])"
| "transact_all blake3 order ((t, ctx) # ts) s =
     (case transact blake3 order t ctx s of
        (s', Inl e) \<Rightarrow> (s', Inl e)
      | (s', Inr rc) \<Rightarrow>
          (case transact_all blake3 order ts s' of
             (s'', Inl e) \<Rightarrow> (s'', Inl e)
           | (s'', Inr rs) \<Rightarrow> (s'', Inr (rc # rs))))"

definition batch_tx :: "datom list \<times> txid \<Rightarrow> committed \<times> transact_context" where
  "batch_tx = (\<lambda>(ds, x). (Committed \<lparr>t_node = tx_node x, t_datoms = ds\<rparr>, minimal_context x))"

lemma tx_datoms_minimal: "tx_datoms blake3 ds (tx_node x) (minimal_context x) = stamp_and_append_metadata blake3 ds x"
  by (simp add: tx_datoms_def stamp_and_append_metadata_def minimal_context_def)

lemma transact_all_batch:
  assumes "store_inv blake3 s0" "s = s1\<lparr>epoch := ep, st_schema := sch\<rparr>" "s' = s0\<lparr>epoch := ep, st_schema := sch\<rparr>"
    "s1 = absorb blake3 done s0" "schema_inv sch"
  shows "snd (transact_all blake3 order (map batch_tx bs) s) = snd (batch_splice_loop blake3 order bs s') \<and>
    (\<forall>rs. snd (batch_splice_loop blake3 order bs s') = Inr rs \<longrightarrow>
       fst (transact_all blake3 order (map batch_tx bs) s) =
       absorb blake3 (done @ concat (map r_datoms rs)) (fst (batch_splice_loop blake3 order bs s')))"
  using assms
proof (induction bs arbitrary: s s' s1 ep sch "done")
  case (Cons b bs)
  obtain ds x where b: "b = (ds, x)" by fastforce
  define new where "new = stamp_and_append_metadata blake3 ds x"
  define sch' where "sch' = fst (evolve_schema order sch new)"
  define c where "c = Committed \<lparr>t_node = tx_node x, t_datoms = ds\<rparr>"
  have inv: "store_inv blake3 s" using Cons.prems by simp
  note t = transact_eq [OF inv, of order c "minimal_context x"]
  have cs: "into_datoms c = ds" "committed_node c = tx_node x" by (simp_all add: c_def)
  show ?case
  proof (cases "ds = [] \<or> ep = - 1")
    case True
    then show ?thesis
      using t cs Cons.prems by (auto simp: b batch_tx_def c_def [symmetric] batch_splice_step Let_def case_prod_unfold)
  next
    case False
    show ?thesis
    proof (cases "snd (evolve_schema order sch new)")
      case (Inl e)
      with False show ?thesis
        using t cs Cons.prems by (simp add: b batch_tx_def c_def [symmetric] batch_splice_step Let_def case_prod_unfold tx_datoms_minimal flip: new_def)
    next
      case (Inr u)
      let ?s = "(absorb blake3 (done @ new) s0)\<lparr>epoch := ep + 1, st_schema := sch'\<rparr>"
      let ?s' = "s0\<lparr>epoch := ep + 1, st_schema := sch'\<rparr>"
      have step: "transact blake3 order c (minimal_context x) s = (?s, Inr \<lparr>r_epoch = ep + 1, r_datoms = new\<rparr>)"
        using t cs Cons.prems Inr False
        by (simp add: Let_def case_prod_unfold tx_datoms_minimal absorb_absorb sch'_def flip: new_def)
      have bstep: "batch_splice_loop blake3 order (b # bs) s' =
          (fst (batch_splice_loop blake3 order bs ?s'),
           map_sum id ((#) \<lparr>r_epoch = ep + 1, r_datoms = new\<rparr>) (snd (batch_splice_loop blake3 order bs ?s')))"
        using False Inr Cons.prems(3) by (simp add: b batch_splice_step Let_def sch'_def flip: new_def)
      note IH = Cons.IH [OF Cons.prems(1) refl refl refl, of sch' "ep + 1" "done @ new"]
      have sch': "schema_inv sch'" using Cons.prems(5) by (simp add: sch'_def)
      obtain s2 r2 where r2: "batch_splice_loop blake3 order bs ?s' = (s2, r2)" by fastforce
      show ?thesis
        using IH [OF sch'] unfolding bstep r2
        by (cases r2) (auto simp: b batch_tx_def step c_def [symmetric] split: prod.splits)
    qed
  qed
qed (auto simp: absorb_def)

end
