(* ===== verification/Replication.thy ===== *)
theory Replication
  imports Store
begin

text \<open>
  What the store promises: transactions, batches and WAL replay reach the same store, replicas converge
  under merge, checkpoints restore the store, and along every sequence of operations the invariant
  holds and datoms are never lost; the epoch never goes back unless log entries are replayed.

  The abstract view of a store is its replica state: the sorted datoms, the schema, the epoch, the
  genesis node and the causal lattice. \<open>from_merge\<close> refines the join of replica states, which is a
  semilattice, so the convergence lemma of \<open>join_semilattice\<close> applies.
\<close>

section \<open>Replay\<close>

lemma insert_all_fields:
  assumes "repr s = ROrdMap d0 ix"
  shows "\<exists>d1 ix1. repr (insert_all ds s) = ROrdMap d1 ix1"
proof -
  have "\<exists>d1 ix1. repr (fold (\<lambda>d s. store_live_apply d (insert_primary d s)) ds s) = ROrdMap d1 ix1"
    if "\<exists>d0 ix. repr s = ROrdMap d0 ix" for s
    using that
  proof (induction ds arbitrary: s)
    case (Cons d ds)
    have "\<exists>d1 ix1. repr (store_live_apply d (insert_primary d s)) = ROrdMap d1 ix1"
      using Cons.prems by (auto simp: store_live_apply_def insert_primary_def case_prod_unfold Let_def)
    from Cons.IH [OF this] show ?case by simp
  qed simp
  with assms show ?thesis by (simp add: insert_all_def)
qed

lemma repr_promote: "\<exists>d0 ix. repr (promote s) = ROrdMap d0 ix"
  by (cases "repr s") (simp_all add: promote_def Let_def)

lemma promote_ordmap: "repr s = ROrdMap d0 ix \<Longrightarrow> promote s = s"
  by (simp add: promote_def)

lemma fold_store_insert: "ds \<noteq> [] \<Longrightarrow> fold store_insert ds s = insert_all ds (promote s)"
proof (induction ds arbitrary: s)
  case (Cons d ds)
  have i: "store_insert d s = insert_all [d] (promote s)" by (simp add: store_insert_def insert_all_def)
  show ?case
  proof (cases "ds = []")
    case False
    have "promote (store_insert d s) = store_insert d s"
      using repr_promote [of s] insert_all_fields [of "promote s" _ _ "[d]"] promote_ordmap i by metis
    with Cons.IH [OF False, of "store_insert d s"] i show ?thesis by (simp add: insert_all_def)
  qed (use i in simp)
qed simp

lemma demote_update [simp]:
  "demote b (s\<lparr>epoch := e\<rparr>) = (demote b s)\<lparr>epoch := e\<rparr>"
  "demote b (s\<lparr>st_schema := sch\<rparr>) = (demote b s)\<lparr>st_schema := sch\<rparr>"
  by (simp_all add: demote_def split: store_repr.splits)

lemma demote_fold_insert:
  assumes "store_inv b s"
  shows "demote b (fold store_insert ds s) = absorb b ds s" "store_inv b (fold store_insert ds s)"
proof -
  obtain d0 ix where r: "repr (promote s) = ROrdMap d0 ix" using repr_promote by blast
  have i: "store_inv b (promote s)" using assms by simp
  show "demote b (fold store_insert ds s) = absorb b ds s"
    using demote_insert_all [OF i r, of ds] assms
    by (cases "ds = []") (simp_all add: fold_store_insert absorb_Nil)
  show "store_inv b (fold store_insert ds s)"
    using store_inv_insert_all(1) [OF i r] assms by (cases "ds = []") (simp_all add: fold_store_insert)
qed

text \<open>The state a replay of log entries reaches: the datoms absorbed, the last epoch, the schema
  evolved entry by entry.\<close>

fun evolve_entries :: "entity_order \<Rightarrow> (u64 \<times> datom list) list \<Rightarrow> schema \<Rightarrow> (ferra_error + unit) \<times> schema" where
  "evolve_entries order [] sch = (Inr (), sch)"
| "evolve_entries order ((ep, ds) # es) sch =
     (case evolve_schema order sch ds of
        (sch', Inl e) \<Rightarrow> (Inl e, sch')
      | (sch', Inr _) \<Rightarrow> evolve_entries order es sch')"

definition replayed :: "(bytes \<Rightarrow> bytes) \<Rightarrow> entity_order \<Rightarrow> (u64 \<times> datom list) list \<Rightarrow> store \<Rightarrow> store" where
  "replayed b order es s =
     (absorb b (concat (map snd es)) s)
       \<lparr>epoch := last (epoch s # map fst es), st_schema := snd (evolve_entries order es (st_schema s))\<rparr>"

lemma batch_replay_loop_spec:
  assumes "store_inv b s" "repr s = ROrdMap d0 ix"
  shows "snd (batch_replay_loop order es s) = fst (evolve_entries order es (st_schema s)) \<and>
    store_inv b (fst (batch_replay_loop order es s)) \<and>
    (snd (batch_replay_loop order es s) = Inr () \<longrightarrow>
       demote b (fst (batch_replay_loop order es s)) = replayed b order es s)"
  using assms
proof (induction es arbitrary: s d0 ix)
  case Nil
  then show ?case by (simp add: replayed_def absorb_Nil)
next
  case (Cons en es)
  obtain ep ds where en: "en = (ep, ds)" by fastforce
  obtain sch r where ev: "evolve_schema order (st_schema s) ds = (sch, r)" by fastforce
  let ?s = "(insert_all ds s)\<lparr>epoch := ep, st_schema := sch\<rparr>"
  have l: "st_live s = derive_live_set (st_causal s)" using Cons.prems by (simp add: store_inv_def)
  note f = insert_all_ordmap [OF Cons.prems(2) store_inv_causal [OF Cons.prems(1)] l]
  have sch: "schema_inv sch" using schema_inv_evolve [OF store_inv_schema [OF Cons.prems(1)], of order ds] ev by simp
  have inv: "store_inv b ?s" using store_inv_insert_all(1) [OF Cons.prems] sch by simp
  have fs: "st_schema (insert_all ds s) = st_schema s" by (simp add: f)
  obtain d1 ix1 where r1: "repr ?s = ROrdMap d1 ix1" using insert_all_fields [OF Cons.prems(2), of ds] by auto
  show ?case
  proof (cases r)
    case (Inl e)
    with ev fs inv en show ?thesis by (simp add: store_evolve_def)
  next
    case (Inr u)
    have ab: "absorb b (concat (map snd es)) (insert_all ds s) = absorb b (ds @ concat (map snd es)) s"
    proof -
      have "absorb b (concat (map snd es)) (insert_all ds s) = absorb b (concat (map snd es)) (demote b (insert_all ds s))"
        using store_inv_insert_all(1) [OF Cons.prems, of ds] by (intro store.equality) (simp_all add: absorb_def)
      also have "\<dots> = absorb b (ds @ concat (map snd es)) s"
        by (simp add: demote_insert_all [OF Cons.prems] absorb_absorb)
      finally show ?thesis .
    qed
    have "batch_replay_loop order (en # es) s = batch_replay_loop order es ?s"
      using Inr ev fs en by (simp add: store_evolve_def)
    with Cons.IH [OF inv r1] ev Inr en ab show ?thesis by (auto simp: replayed_def)
  qed
qed

lemma batch_replay_spec:
  assumes "store_inv b s" "es \<noteq> []"
  shows "snd (batch_replay b order es s) = fst (evolve_entries order es (st_schema s))"
    "store_inv b (fst (batch_replay b order es s))"
    "snd (batch_replay b order es s) = Inr () \<Longrightarrow> fst (batch_replay b order es s) = replayed b order es s"
proof -
  obtain d0 ix where r: "repr (promote s) = ROrdMap d0 ix" using repr_promote by blast
  have i: "store_inv b (promote s)" using assms by simp
  have p: "replayed b order es (promote s) = replayed b order es s" using assms(1) by (simp add: replayed_def)
  obtain s' r' where l: "batch_replay_loop order es (promote s) = (s', r')" by fastforce
  note L = batch_replay_loop_spec [OF i r, of order es, unfolded p l]
  have br: "batch_replay b order es s = (case r' of Inl e \<Rightarrow> (s', Inl e) | Inr u \<Rightarrow> (demote b s', Inr u))"
    using assms(2) l by (auto simp: batch_replay_def split: sum.splits)
  have i': "store_inv b s'" using L by simp
  then show "store_inv b (fst (batch_replay b order es s))" by (cases r') (simp_all add: br)
  from L show "snd (batch_replay b order es s) = fst (evolve_entries order es (st_schema s))"
    "snd (batch_replay b order es s) = Inr () \<Longrightarrow> fst (batch_replay b order es s) = replayed b order es s"
    unfolding br by (auto split: sum.splits)
qed

text \<open>A run of transactions reaches the state that replaying its receipts reaches, if no transaction
  defines one attribute twice.\<close>

lemma transact_all_replayed:
  assumes "store_inv b s" "transact_all b order ts s = (s', Inr rs)" "ts \<noteq> []"
    "iteration_order order" "iteration_order order'" "\<forall>r \<in> set rs. single_valued (schema_defs (r_datoms r))"
  shows "s' = replayed b order' (map (\<lambda>r. (r_epoch r, r_datoms r)) rs) s \<and>
    fst (evolve_entries order' (map (\<lambda>r. (r_epoch r, r_datoms r)) rs) (st_schema s)) = Inr () \<and> rs \<noteq> []"
  using assms(1-3,6)
proof (induction ts arbitrary: s rs)
  case (Cons t ts)
  obtain c ctx where t: "t = (c, ctx)" by fastforce
  obtain s1 r1 where tr: "transact b order c ctx s = (s1, r1)" by fastforce
  from Cons.prems(2) t tr obtain rc where rc: "r1 = Inr rc" by (cases r1) auto
  define new where "new = tx_datoms b (into_datoms c) (committed_node c) ctx"
  define sch where "sch = fst (evolve_schema order (st_schema s) new)"
  from tr rc have
    s1: "s1 = (absorb b new s)\<lparr>epoch := epoch s + 1, st_schema := sch\<rparr>" and
    rcv: "rc = \<lparr>r_epoch = epoch s + 1, r_datoms = new\<rparr>" and
    ok: "snd (evolve_schema order (st_schema s) new) = Inr ()"
    by (auto simp: transact_eq [OF Cons.prems(1)] Let_def case_prod_unfold new_def sch_def split: sum.splits if_splits)
  have inv1: "store_inv b s1" using store_inv_transact [OF Cons.prems(1), of order c ctx] tr by simp
  obtain s2 r2 where ta: "transact_all b order ts s1 = (s2, r2)" by fastforce
  from Cons.prems(2) t tr rc ta obtain rs' where rs': "r2 = Inr rs'" "rs = rc # rs'" "s' = s2"
    by (auto split: sum.splits)
  have ev: "evolve_schema order' (st_schema s) new = (sch, Inr ())"
    using evolve_schema_order_free [OF assms(4,5) store_inv_schema [OF Cons.prems(1)], of new] ok
      Cons.prems(4) rs'(2) rcv by (simp add: sch_def prod_eq_iff)
  show ?case
  proof (cases "ts = []")
    case True
    with ta rs' s1 rcv ev show ?thesis by (simp add: replayed_def)
  next
    case False
    have IH: "s' = replayed b order' (map (\<lambda>r. (r_epoch r, r_datoms r)) rs') s1 \<and>
        fst (evolve_entries order' (map (\<lambda>r. (r_epoch r, r_datoms r)) rs') (st_schema s1)) = Inr () \<and> rs' \<noteq> []"
      using Cons.IH [OF inv1 _ False, of rs'] ta rs' Cons.prems(4) by simp
    with s1 rs'(2) rcv ev show ?thesis by (simp add: replayed_def absorb_absorb)
  qed
qed simp

section \<open>Merge as a join of replica states\<close>

lemma join_semilattice_prod:
  assumes "join_semilattice f P" "join_semilattice g Q"
  shows "join_semilattice (\<lambda>(a, b) (c, d). (f a c, g b d)) (\<lambda>(a, b). P a \<and> Q b)"
proof -
  note f = join_semilattice.join_inv [OF assms(1)] join_semilattice.join_comm [OF assms(1)]
    join_semilattice.join_assoc [OF assms(1)] join_semilattice.join_idem [OF assms(1)]
  note g = join_semilattice.join_inv [OF assms(2)] join_semilattice.join_comm [OF assms(2)]
    join_semilattice.join_assoc [OF assms(2)] join_semilattice.join_idem [OF assms(2)]
  show ?thesis by unfold_locales (auto intro: f g)
qed

lemma join_semilattice_min: "join_semilattice (min :: 'a::linorder \<Rightarrow> 'a \<Rightarrow> 'a) (\<lambda>_. True)"
  by unfold_locales (simp_all add: min.commute min.left_commute)

type_synonym replica = "datom list \<times> schema \<times> u64 \<times> node_id \<times> live_causal"

definition replica :: "store \<Rightarrow> replica" where
  "replica s = (datoms s, st_schema s, epoch s, genesis_node s, st_causal s)"

definition replica_join :: "replica \<Rightarrow> replica \<Rightarrow> replica" where
  "replica_join = (\<lambda>(d, sch, e, n, c) (d', sch', e', n', c').
     (merge_sort_dedup d d', om_union_with min sch sch', max e e', min n n', merge_causal c c'))"

definition replica_inv :: "replica \<Rightarrow> bool" where
  "replica_inv = (\<lambda>(d, sch, e, n, c). strict_sorted d \<and> schema_inv sch \<and> causal_inv c)"

interpretation replica_join: join_semilattice replica_join replica_inv
proof -
  note p = join_semilattice_prod [OF array_join.join_semilattice_axioms
      join_semilattice_prod [OF schema_join.join_semilattice_axioms
      join_semilattice_prod [OF join_semilattice_max
      join_semilattice_prod [OF join_semilattice_min causal_join.join_semilattice_axioms]]]]
  have j: "replica_join = (\<lambda>(a, b) (c, d). (merge_sort_dedup a c,
      (\<lambda>(a, b) (c, d). (om_union_with min a c, (\<lambda>(a, b) (c, d). (max a c,
        (\<lambda>(a, b) (c, d). (min a c, merge_causal b d)) b d)) b d)) b d))"
    by (simp add: replica_join_def fun_eq_iff)
  have i: "replica_inv = (\<lambda>(a, b). strict_sorted a \<and> (\<lambda>(a, b). schema_inv a \<and>
      (\<lambda>(a, b). True \<and> (\<lambda>(a, b). True \<and> causal_inv b) b) b) b)"
    by (simp add: replica_inv_def fun_eq_iff)
  show "join_semilattice replica_join replica_inv" unfolding i j by (rule p)
qed

lemma merge_repr_eq:
  "merge_repr blake3 (repr a) (repr b) = from_sorted_canonical blake3 (merge_sort_dedup (datoms a) (datoms b))"
  by (simp add: merge_repr_def datoms_def merge_positional_canonical split: store_repr.splits)

lemma from_merge_eq:
  assumes "schema_inv (st_schema a)" "schema_inv (st_schema b)"
  shows "from_merge blake3 a b =
    \<lparr>repr = RPositional (from_sorted_canonical blake3 (merge_sort_dedup (datoms a) (datoms b))),
     st_schema = om_union_with min (st_schema a) (st_schema b), epoch = max (epoch a) (epoch b),
     genesis_node = min (genesis_node a) (genesis_node b), st_causal = merge_causal (st_causal a) (st_causal b),
     st_live = derive_live_set (merge_causal (st_causal a) (st_causal b)),
     schema_conflicts = snd (merge_schemas (st_schema a) (st_schema b))\<rparr>"
  using merge_schemas_spec [OF assms] by (simp add: from_merge_def merge_repr_eq Let_def case_prod_unfold)

lemma replica_from_merge:
  "store_inv blake3 a \<Longrightarrow> store_inv blake3 b \<Longrightarrow>
     replica (from_merge blake3 a b) = replica_join (replica a) (replica b)"
  by (simp add: from_merge_eq [OF store_inv_schema store_inv_schema] replica_def replica_join_def datoms_def)

lemma replica_inv_store: "store_inv blake3 s \<Longrightarrow> replica_inv (replica s)"
  by (simp add: replica_inv_def replica_def strict_sorted_datoms store_inv_schema store_inv_causal)

lemma store_inv_from_merge [simp]:
  assumes "store_inv blake3 a" "store_inv blake3 b"
  shows "store_inv blake3 (from_merge blake3 a b)"
proof -
  note s = strict_sorted_datoms [OF assms(1)] strict_sorted_datoms [OF assms(2)]
  have "causal_of (merge_causal (st_causal a) (st_causal b)) (set (datoms a) \<union> set (datoms b))"
    using assms by (intro causal_of_merge) (simp_all add: store_inv_def)
  with s show ?thesis
    by (simp add: from_merge_eq [OF store_inv_schema [OF assms(1)] store_inv_schema [OF assms(2)]] store_inv_def
        schema_join.join_inv store_inv_schema [OF assms(1)] store_inv_schema [OF assms(2)] datoms_def)
qed

lemma fold_from_merge:
  assumes "store_inv b a" "\<forall>x \<in> set xs. store_inv b x"
  shows "store_inv b (fold (\<lambda>x s. from_merge b s x) xs a) \<and>
    replica (fold (\<lambda>x s. from_merge b s x) xs a) = fold (\<lambda>x s. replica_join s x) (map replica xs) (replica a)"
  using assms by (induction xs arbitrary: a) (simp_all add: replica_from_merge)

text \<open>A merged store is determined by its replica state, up to the conflict report.\<close>

lemma positional_ext:
  assumes "store_inv b s" "store_inv b t" "replica s = replica t" "repr s = RPositional ps" "repr t = RPositional qs"
  shows "s\<lparr>schema_conflicts := []\<rparr> = t\<lparr>schema_conflicts := []\<rparr>"
proof (rule store.equality)
  have "ps = qs"
    using assms ps_ext [of b ps qs] by (simp add: replica_def store_inv_def datoms_def)
  with assms show "repr (s\<lparr>schema_conflicts := []\<rparr>) = repr (t\<lparr>schema_conflicts := []\<rparr>)" by simp
qed (use assms in \<open>simp_all add: replica_def store_inv_def\<close>)

lemma fold_from_merge_positional:
  "xs \<noteq> [] \<Longrightarrow> \<exists>ps. repr (fold (\<lambda>x s. from_merge b s x) xs a) = RPositional ps"
  by (induction xs arbitrary: a) (auto simp: from_merge_def Let_def case_prod_unfold,
      metis (no_types, lifting) fold_simps(1) from_merge_def store.select_convs(1))

section \<open>Selective merge\<close>

lemma filter_remote_spec:
  "filter_remote local remote flt =
     (filter (filter_matches flt) (datoms remote),
      length (filter (\<lambda>d. filter_matches flt d \<and> d \<notin> set (datoms local)) (datoms remote)),
      length (filter (\<lambda>d. \<not> filter_matches flt d) (datoms remote)),
      length (filter (\<lambda>d. filter_matches flt d \<and> d \<in> set (datoms local)) (datoms remote)))"
proof -
  let ?step = "\<lambda>d (accepted, transferred, filtered_out, already_present).
           if filter_matches flt d then
             (if List.member (datoms local) d then (accepted @ [d], transferred, filtered_out, Suc already_present)
              else (accepted @ [d], Suc transferred, filtered_out, already_present))
           else (accepted, transferred, Suc filtered_out, already_present)"
  have "fold ?step ds (acc, n, m, k) =
     (acc @ filter (filter_matches flt) ds,
      n + length (filter (\<lambda>d. filter_matches flt d \<and> d \<notin> set (datoms local)) ds),
      m + length (filter (\<lambda>d. \<not> filter_matches flt d) ds),
      k + length (filter (\<lambda>d. filter_matches flt d \<and> d \<in> set (datoms local)) ds))" for ds acc n m k
    by (induction ds arbitrary: acc n m k) auto
  from this [of "datoms remote" "[]" 0 0 0] show ?thesis by (simp add: filter_remote_def Let_def)
qed

lemma selective_merge_store:
  assumes "store_inv b local" "store_inv b remote" "selective_merge b local remote flt src = Inr (m, rc)"
  shows "store_inv b m" "set (datoms m) = set (datoms local) \<union> {d \<in> set (datoms remote). filter_matches flt d}"
    "st_schema m = om_union_with min (st_schema local) (st_schema remote)"
    "epoch m = max (epoch local) (epoch remote)" "genesis_node m = min (genesis_node local) (genesis_node remote)"
    "schema_conflicts m = schema_conflicts (from_merge b local remote)" "\<exists>ps. repr m = RPositional ps"
proof -
  note i = store_inv_schema [OF assms(1)] store_inv_schema [OF assms(2)]
  define ds where "ds = merge_sort_dedup (datoms local) (sort_dedup (filter (filter_matches flt) (datoms remote)))"
  have ds: "strict_sorted ds" "set ds = set (datoms local) \<union> {d \<in> set (datoms remote). filter_matches flt d}"
    using strict_sorted_datoms [OF assms(1)] by (auto simp: ds_def)
  from assms(3) have m: "m = \<lparr>repr = RPositional (from_sorted_canonical b ds),
      st_schema = om_union_with min (st_schema local) (st_schema remote), epoch = max (epoch local) (epoch remote),
      genesis_node = min (genesis_node local) (genesis_node remote), st_causal = build_live_causal ds,
      st_live = derive_live_set (build_live_causal ds),
      schema_conflicts = snd (merge_schemas (st_schema local) (st_schema remote))\<rparr>"
    by (auto simp: selective_merge_def filter_remote_spec Let_def case_prod_unfold merge_schemas_spec [OF i]
        ds_def sort_dedup_def)
  then show "store_inv b m" "set (datoms m) = set (datoms local) \<union> {d \<in> set (datoms remote). filter_matches flt d}"
    using ds schema_join.join_inv [OF i] causal_of_build [of ds] by (simp_all add: store_inv_def datoms_def)
  from m show "st_schema m = om_union_with min (st_schema local) (st_schema remote)"
    "epoch m = max (epoch local) (epoch remote)" "genesis_node m = min (genesis_node local) (genesis_node remote)"
    "schema_conflicts m = schema_conflicts (from_merge b local remote)" "\<exists>ps. repr m = RPositional ps"
    by (simp_all add: from_merge_eq [OF i])
qed

section \<open>Checkpoint data\<close>

lemma schema_pairs_define:
  assumes "schema_inv s"
  shows "define_named (fold (\<lambda>(a, def) m. om_insert (as_str a) def m) s []) = s"
proof -
  let ?m = "fold (\<lambda>(a, def) m. om_insert (as_str a) def m) s ([] :: (string, attribute_def) omap)"
  have fm: "om_inv (fold (\<lambda>(a, def) m. om_insert (as_str a) def m) t m) \<and>
      om_get (fold (\<lambda>(a, def) m. om_insert (as_str a) def m) t m) n =
        (case om_get t (Attribute n) of None \<Rightarrow> om_get m n | Some d \<Rightarrow> Some d)"
    if "om_inv m" "om_inv t" for t and m :: "(string, attribute_def) omap" and n
    using that
  proof (induction t arbitrary: m)
    case (Cons p t)
    obtain a d where p: "p = (a, d)" by fastforce
    have "om_get t a = None" using Cons.prems p by (simp add: om_inv_Cons om_get_below)
    with Cons p show ?case by (cases a) (auto simp: om_inv_Cons split: option.splits)
  qed simp
  have m: "om_inv ?m" "om_get ?m n = schema_get s (Attribute n)" for n
    using fm [OF om_inv_Nil, of s n] assms by (auto simp: schema_inv_def schema_get_def split: option.splits)
  have "define_named ?m = define_all ?m schema_empty" by (simp add: define_named_def define_all_def)
  moreover have "schema_get (define_all ?m schema_empty) a = schema_get s a" for a
    using schema_get_define_all [OF om_inv_distinct [OF m(1)], of schema_empty "as_str a"] m(2) [of "as_str a"]
    by (cases a) (auto split: option.splits)
  ultimately show ?thesis using assms by (intro schema_ext) simp_all
qed

lemma restore_extracted:
  assumes "store_inv b s" "store_len s \<le> u32_max"
  shows "store_from_checkpoint_data b (extract_checkpoint_data s) =
    Inr ((demote b s)\<lparr>schema_conflicts := [], st_causal := build_live_causal (datoms s),
           st_live := derive_live_set (build_live_causal (datoms s))\<rparr>)"
proof -
  let ?ps = "from_sorted_canonical b (datoms s)"
  have ps: "ps_inv b ?ps" "ps_len ?ps \<le> u32_max"
    using strict_sorted_datoms [OF assms(1)] assms(2)
    by (simp_all add: ps_len_def store_len_def datoms_def split: store_repr.splits)
  have bits: "(case repr s of RPositional ps \<Rightarrow> live_bits_clone ps | ROrdMap _ _ \<Rightarrow> build_live_bitvector_pub (datoms s))
      = live_bits_clone ?ps"
    using assms(1) build_live_bitvector_clone [of "datoms s" b]
    by (cases "repr s") (auto simp: store_inv_def ps_inv_def datoms_def)
  have "from_sorted_with_live b (datoms s) (live_bits_clone ?ps) = Inr ?ps"
    using from_sorted_with_live_restore [OF ps] by simp
  then show ?thesis
    using assms(1) bits schema_pairs_define [OF store_inv_schema [OF assms(1)]]
    by (simp add: store_from_checkpoint_data_def extract_checkpoint_data_def from_checkpoint_v3_def Let_def)
       (intro store.equality; simp add: repr_demote)
qed

section \<open>Reachable stores\<close>

text \<open>One operation of a running store, successful or not. The other side of a merge is any store that
  satisfies the invariant. A recovering process also replays log entries, which sets the epoch to the one of
  the entry; \<open>store_step\<close> is every operation that changes a store.\<close>

inductive running_step :: "(bytes \<Rightarrow> bytes) \<Rightarrow> store \<Rightarrow> store \<Rightarrow> bool" for b where
  step_insert: "running_step b s (store_insert d s)"
| step_promote: "running_step b s (promote s)"
| step_sort: "running_step b s (ensure_indexes_sorted s)"
| step_transact: "transact b order t ctx s = (s', r) \<Longrightarrow> running_step b s s'"
| step_batch: "batch_splice_transact b order batches s = (s', r) \<Longrightarrow> running_step b s s'"
| step_merge: "store_inv b other \<Longrightarrow> merge b s other = Inr s' \<Longrightarrow> running_step b s s'"
| step_selective:
    "store_inv b other \<Longrightarrow> selective_merge b s other flt src = Inr (s', rc) \<Longrightarrow> running_step b s s'"

inductive store_step :: "(bytes \<Rightarrow> bytes) \<Rightarrow> store \<Rightarrow> store \<Rightarrow> bool" for b where
  step_running: "running_step b s s' \<Longrightarrow> store_step b s s'"
| step_replay_entry: "replay_entry order ep ds s = (s', r) \<Longrightarrow> store_step b s s'"
| step_replay: "batch_replay b order es s = (s', r) \<Longrightarrow> store_step b s s'"

inductive reachable :: "(bytes \<Rightarrow> bytes) \<Rightarrow> store \<Rightarrow> bool" for b where
  r_genesis: "reachable b (genesis b)"
| r_from_datoms: "reachable b (store_from_datoms b ds)"
| r_checkpoint: "reachable b (from_checkpoint b ep n attrs ds)"
| r_checkpoint_v3:
    "from_checkpoint_v3 b ep n attrs ds (build_live_bitvector_pub ds) = Inr s \<Longrightarrow> reachable b s"
| r_step: "reachable b s \<Longrightarrow> store_step b s s' \<Longrightarrow> reachable b s'"

lemma store_inv_genesis [simp]: "store_inv b (genesis b)"
  by (simp add: store_inv_def genesis_def datoms_def sort_dedup_def derive_live_set_def)

lemma store_inv_from_datoms [simp]: "store_inv b (store_from_datoms b ds)"
  using causal_of_build [of "sort_dedup ds"] by (simp add: store_inv_def store_from_datoms_def datoms_def Let_def)

lemma schema_inv_define_named [simp]: "schema_inv (define_named attrs)"
  using schema_inv_define_all [of schema_empty attrs] by (simp add: define_named_def define_all_def)

lemma store_inv_from_checkpoint [simp]: "store_inv b (from_checkpoint b ep n attrs ds)"
  using causal_of_build [of "sort_dedup ds"] by (simp add: store_inv_def from_checkpoint_def datoms_def Let_def)

lemma store_inv_from_checkpoint_v3:
  assumes "from_checkpoint_v3 b ep n attrs ds (build_live_bitvector_pub ds) = Inr s"
  shows "store_inv b s"
proof -
  from assms obtain ps where ps: "from_sorted_with_live b ds (build_live_bitvector_pub ds) = Inr ps"
    by (auto simp: from_checkpoint_v3_def bind_result_Inr)
  then have ok: "strict_sorted ds" "length ds \<le> u32_max"
    by (auto simp: from_sorted_with_live_def windows_lt_iff try_from_usize_def split: if_splits)
  have "from_sorted_with_live b ds (build_live_bitvector_pub ds) = Inr (from_sorted_canonical b ds)"
    using from_sorted_with_live_restore [of b "from_sorted_canonical b ds"] ok
    by (simp add: build_live_bitvector_clone [of ds b] ps_len_def)
  with ps have "ps = from_sorted_canonical b ds" by simp
  with assms ps ok show ?thesis
    using causal_of_build [of ds] by (auto simp: from_checkpoint_v3_def store_inv_def datoms_def Let_def)
qed

lemma store_inv_replay_entry:
  assumes "store_inv b s"
  shows "store_inv b (fst (replay_entry order ep ds s))"
  using demote_fold_insert(2) [OF assms, of ds] store_inv_schema [OF demote_fold_insert(2) [OF assms, of ds]]
  by (simp add: replay_entry_def store_evolve_eq)

lemma batch_splice_transact_result:
  assumes "store_inv b s"
  obtains sch ep new where "schema_inv sch" "epoch s \<le> ep"
    "fst (batch_splice_transact b order bs s) = s\<lparr>st_schema := sch, epoch := ep\<rparr> \<or>
     fst (batch_splice_transact b order bs s) = absorb b new (s\<lparr>st_schema := sch, epoch := ep\<rparr>)"
proof -
  obtain sch ep where f: "fst (batch_splice_loop b order bs s) = s\<lparr>st_schema := sch, epoch := ep\<rparr>"
    "schema_inv sch" "epoch s \<le> ep"
    using batch_splice_loop_fields [OF store_inv_schema [OF assms]] by blast
  have inv: "store_inv b (s\<lparr>st_schema := sch, epoch := ep\<rparr>)" using assms f(2) by simp
  obtain r where r: "batch_splice_loop b order bs s = (s\<lparr>st_schema := sch, epoch := ep\<rparr>, r)"
    using f(1) by (metis prod.collapse)
  show thesis
  proof (cases "bs = []")
    case True
    then show thesis
      by (intro that [of "st_schema s" "epoch s"]) (simp_all add: batch_splice_transact_def store_inv_schema [OF assms])
  next
    case False
    with r apply_datoms_absorb [OF inv] f(2,3) show thesis
      by (cases r) (auto simp: batch_splice_transact_def intro: that)
  qed
qed

lemma running_step_mono:
  assumes "running_step b s s'" "store_inv b s"
  shows "store_inv b s' \<and> set (datoms s) \<subseteq> set (datoms s') \<and> epoch s \<le> epoch s'"
  using assms
proof (induction rule: running_step.induct)
  case (step_insert s d)
  from demote_fold_insert [OF step_insert, of "[d]"]
  have inv: "store_inv b (store_insert d s)" and d: "demote b (store_insert d s) = absorb b [d] s" by simp_all
  have "datoms (store_insert d s) = datoms (absorb b [d] s)"
    by (rule trans [OF datoms_demote [OF inv, symmetric]]) (simp only: d)
  moreover have "epoch (store_insert d s) = epoch (absorb b [d] s)"
    by (rule trans [OF demote_fields(2) [of b, symmetric]]) (simp only: d)
  ultimately show ?case using inv by auto
next
  case (step_sort s)
  then have "store_inv b (ensure_indexes_sorted s)" by simp
  then show ?case by (auto simp: ensure_indexes_sorted_def datoms_def split: store_repr.splits)
next
  case (step_transact order t ctx s s' r)
  have "epoch s \<noteq> - 1 \<Longrightarrow> epoch s \<le> epoch s + 1" using epoch_less [of "epoch s"] by simp
  with step_transact store_inv_transact [OF step_transact(2), of order t ctx] show ?case
    by (auto simp: transact_eq Let_def case_prod_unfold split: sum.splits if_splits)
next
  case (step_batch order batches s s' r)
  obtain sch ep new where f: "schema_inv sch" "epoch s \<le> ep"
    "s' = s\<lparr>st_schema := sch, epoch := ep\<rparr> \<or> s' = absorb b new (s\<lparr>st_schema := sch, epoch := ep\<rparr>)"
    using batch_splice_transact_result [OF step_batch(2), of order batches] step_batch(1) by auto
  with step_batch(2) show ?case by auto
next
  case (step_merge other s s')
  then have m: "s' = from_merge b s other" "store_inv b s'" by (simp_all add: merge_def, metis store_inv_from_merge)
  have "datoms s' = merge_sort_dedup (datoms s) (datoms other)" "epoch s' = max (epoch s) (epoch other)"
    using replica_from_merge [OF step_merge(3,1)] m(1) by (simp_all add: replica_def replica_join_def)
  with m(2) show ?case by simp
next
  case (step_selective other s flt src s' rc)
  with selective_merge_store [OF step_selective(3,1,2)] show ?case by auto
qed auto

text \<open>Replay keeps the invariant and every datom, also when it fails on the way.\<close>

lemma datoms_of_demote:
  "store_inv b s \<Longrightarrow> demote b s = absorb b ds t \<Longrightarrow> set (datoms s) = set (datoms t) \<union> set ds"
  by (metis datoms_absorb datoms_demote set_append set_sort_dedup)

lemma batch_replay_loop_keeps:
  assumes "store_inv b s" "repr s = ROrdMap d0 ix"
  shows "set (datoms s) \<subseteq> set (datoms (fst (batch_replay_loop order es s)))"
  using assms
proof (induction es arbitrary: s d0 ix)
  case (Cons en es)
  obtain ep ds where en: "en = (ep, ds)" by fastforce
  define sch where "sch = fst (evolve_schema order (st_schema (insert_all ds s)) ds)"
  obtain r where ev: "store_evolve order ds ((insert_all ds s)\<lparr>epoch := ep\<rparr>) = (insert_all ds s\<lparr>epoch := ep, st_schema := sch\<rparr>, r)"
    by (simp add: store_evolve_eq sch_def)
  have inv: "store_inv b (insert_all ds s)" by (rule store_inv_insert_all(1) [OF Cons.prems])
  have sub: "set (datoms s) \<subseteq> set (datoms (insert_all ds s))"
    using datoms_of_demote [OF inv demote_insert_all [OF Cons.prems]] by blast
  let ?s = "insert_all ds s\<lparr>epoch := ep, st_schema := sch\<rparr>"
  have sch: "schema_inv sch" using schema_inv_evolve [OF store_inv_schema [OF inv]] by (simp add: sch_def)
  obtain d1 ix1 where r1: "repr ?s = ROrdMap d1 ix1" using insert_all_fields [OF Cons.prems(2), of ds] by auto
  have "store_inv b ?s" using inv sch by simp
  from Cons.IH [OF this r1] sub show ?case using ev en by (cases r) auto
qed simp

lemma store_step_keeps:
  assumes "store_step b s s'" "store_inv b s"
  shows "store_inv b s' \<and> set (datoms s) \<subseteq> set (datoms s')"
  using assms
proof (induction rule: store_step.induct)
  case (step_running s s')
  then show ?case using running_step_mono by blast
next
  case (step_replay_entry order ep ds s s' r)
  have "set (datoms s) \<subseteq> set (datoms (fold store_insert ds s))"
    using datoms_of_demote [OF demote_fold_insert(2,1) [OF step_replay_entry(2)]] by blast
  with store_inv_replay_entry [OF step_replay_entry(2), of order ep ds] step_replay_entry(1)
  show ?case by (auto simp: replay_entry_def store_evolve_eq)
next
  case (step_replay order es s s' r)
  show ?case
  proof (cases "es = []")
    case False
    obtain d0 ix where r0: "repr (promote s) = ROrdMap d0 ix" using repr_promote by blast
    have i: "store_inv b (promote s)" using step_replay(2) by simp
    obtain t q where t: "batch_replay_loop order es (promote s) = (t, q)" by fastforce
    have sub: "set (datoms s) \<subseteq> set (datoms t)"
      using batch_replay_loop_keeps [OF i r0, of order es] t datoms_promote [OF step_replay(2)] by simp
    have "store_inv b t" using batch_replay_loop_spec [OF i r0, of order es] t by simp
    with sub t False step_replay(1) have "set (datoms s) \<subseteq> set (datoms s')"
      by (auto simp: batch_replay_def split: sum.splits)
    with batch_replay_spec(2) [OF step_replay(2) False, of order] step_replay(1) show ?thesis by simp
  qed (use step_replay in \<open>simp add: batch_replay_def\<close>)
qed

lemma absorb_demote [simp]: "store_inv b s \<Longrightarrow> absorb b new (demote b s) = absorb b new s"
  by (rule store.equality) (simp_all add: absorb_def)

lemma transact_repr_free:
  assumes "store_inv b s" "store_inv b t" "\<And>new. absorb b new t = absorb b new s"
    "epoch t = epoch s" "st_schema t = st_schema s"
  shows "snd (transact b order c ctx t) = snd (transact b order c ctx s) \<and>
    (\<not> isl (snd (transact b order c ctx s)) \<longrightarrow> transact b order c ctx t = transact b order c ctx s)"
  using assms(3-5)
  by (simp add: transact_eq [OF assms(1)] transact_eq [OF assms(2)] Let_def case_prod_unfold split: sum.splits)

lemma transact_all_demote:
  assumes "store_inv b s" "ts \<noteq> []"
  shows "snd (transact_all b order ts (demote b s)) = snd (transact_all b order ts s) \<and>
    (\<not> isl (snd (transact_all b order ts s)) \<longrightarrow> transact_all b order ts (demote b s) = transact_all b order ts s)"
proof -
  obtain c ctx ts' where ts: "ts = (c, ctx) # ts'" using assms(2) by (metis list.exhaust prod.exhaust)
  have f: "snd (transact b order c ctx (demote b s)) = snd (transact b order c ctx s) \<and>
    (\<not> isl (snd (transact b order c ctx s)) \<longrightarrow> transact b order c ctx (demote b s) = transact b order c ctx s)"
    using assms(1) by (intro transact_repr_free) simp_all
  obtain s1 r1 where t: "transact b order c ctx s = (s1, r1)" by fastforce
  show ?thesis
  proof (cases r1)
    case (Inl e)
    with f t have "snd (transact b order c ctx (demote b s)) = Inl e" by simp
    then obtain s2 where "transact b order c ctx (demote b s) = (s2, Inl e)" by (metis prod.collapse)
    with Inl t ts show ?thesis by simp
  next
    case (Inr rc)
    with f t have "transact b order c ctx (demote b s) = (s1, r1)" by simp
    with t ts show ?thesis by simp
  qed
qed

section \<open>Properties\<close>

text \<open>C3 What a transaction does. On a store that satisfies its invariant, a successful \<open>transact\<close>
  advances the epoch by exactly one (without wrap-around), makes the datom set the union of the old
  set with the stamped datoms and the metadata, leaves the invariant, and returns a receipt with the
  new epoch and exactly those datoms. If no stored datom has the transaction's id, none of the new
  datoms was there before, so the store strictly grows.\<close>

theorem transact_effect:
  assumes "store_inv blake3 s" "transact blake3 order t ctx s = (s', Inr rc)"
  shows "store_inv blake3 s' \<and> epoch s < epoch s' \<and> epoch s' = epoch s + 1 \<and>
    rc = \<lparr>r_epoch = epoch s', r_datoms = tx_datoms blake3 (into_datoms t) (committed_node t) ctx\<rparr> \<and>
    set (datoms s') = set (datoms s) \<union> set (r_datoms rc) \<and>
    (\<exists>ps. repr s' = RPositional ps) \<and> genesis_node s' = genesis_node s \<and>
    ((\<forall>d \<in> set (datoms s). d_tx d \<noteq> tc_tx_id ctx) \<longrightarrow>
       set (datoms s) \<inter> set (r_datoms rc) = {} \<and> store_len s < store_len s')"
proof -
  define new where "new = tx_datoms blake3 (into_datoms t) (committed_node t) ctx"
  from assms(2) have
    s': "s' = (absorb blake3 new s)\<lparr>epoch := epoch s + 1, st_schema := fst (evolve_schema order (st_schema s) new)\<rparr>" and
    rc: "rc = \<lparr>r_epoch = epoch s + 1, r_datoms = new\<rparr>" and ep: "epoch s \<noteq> - 1"
    by (auto simp: transact_eq [OF assms(1)] Let_def case_prod_unfold new_def split: sum.splits if_splits)
  have inv: "store_inv blake3 s'" using store_inv_transact [OF assms(1), of order t ctx] assms(2) by simp
  have len: "store_len x = card (set (datoms x))" if "store_inv blake3 x" for x
    using strict_sorted_distinct [OF strict_sorted_datoms [OF that]]
    by (simp add: store_len_def datoms_def ps_len_def distinct_card split: store_repr.splits)
  have tx: "d_tx d = tc_tx_id ctx" if "d \<in> set new" for d
    using that by (auto simp: new_def tx_datoms_def stamp_datoms_def create_tx_metadata_def
        create_federation_metadata_def Let_def split: option.splits prod.splits)
  have ne: "new \<noteq> []" by (simp add: new_def tx_datoms_def create_tx_metadata_def Let_def)
  have "set (datoms s) \<inter> set new = {} \<and> store_len s < store_len s'" if "\<forall>d \<in> set (datoms s). d_tx d \<noteq> tc_tx_id ctx"
  proof -
    have dis: "set (datoms s) \<inter> set new = {}" using that tx by blast
    moreover have "card (set (datoms s)) < card (set (datoms s) \<union> set new)"
    proof (rule psubset_card_mono)
      obtain d where "d \<in> set new" using ne by (cases new) auto
      with dis show "set (datoms s) \<subset> set (datoms s) \<union> set new" by blast
    qed simp
    ultimately show ?thesis using len [OF assms(1)] len [OF inv] s' by simp
  qed
  with inv rc s' epoch_less [OF ep] show ?thesis by (auto simp: absorb_def simp flip: new_def)
qed

definition no_schema :: "datom list \<Rightarrow> bool" where
  "no_schema ds \<longleftrightarrow>
     (\<forall>d \<in> set ds. d_attribute d \<noteq> db_ident \<and> d_attribute d \<noteq> db_value_type \<and> d_attribute d \<noteq> db_cardinality)"

lemma extract_no_schema:
  assumes "no_schema ds"
  shows "extract_attribute_def (entity_group ds e) = Inr None"
proof -
  have "extract_loop g acc = Inr acc" if "set g \<subseteq> set ds" for g acc
    using that assms by (induction g) (cases acc, auto simp: no_schema_def split: option.splits)+
  then show ?thesis by (simp add: extract_attribute_def_def entity_group_def)
qed

lemma evolve_no_schema:
  assumes "no_schema ds"
  shows "evolve_schema order sch ds = (sch, Inr ())" "schema_defs ds = {}"
proof -
  have "evolve_groups gs sch = (sch, Inr ())" if "\<forall>g \<in> set gs. extract_attribute_def g = Inr None" for gs
    using that by (induction gs) simp_all
  then show "evolve_schema order sch ds = (sch, Inr ())" using extract_no_schema [OF assms] by (simp add: evolve_schema_def)
  show "schema_defs ds = {}" using extract_no_schema [OF assms] by (simp add: schema_defs_def)
qed

definition demo_tx :: committed where
  "demo_tx = Committed \<lparr>t_node = zero_node, t_datoms = [Datom (EntityId [1]) (Attribute ''a'') (VBool True) placeholder_tx Assert]\<rparr>"

lemma demo_no_schema: "no_schema (tx_datoms b (into_datoms demo_tx) n ctx)"
  by (auto simp: no_schema_def demo_tx_def tx_datoms_def stamp_datoms_def create_tx_metadata_def
      create_federation_metadata_def db_ident_def db_value_type_def db_cardinality_def Let_def split: option.splits)

lemmas demo_tx_datoms = evolve_no_schema(1) [OF demo_no_schema]
  and demo_schema_defs = evolve_no_schema(2) [OF demo_no_schema]

lemma demo_transact:
  assumes "store_inv b s" "epoch s = 0"
  obtains s' rc where "transact b (\<lambda>es. es) demo_tx ctx s = (s', Inr rc)"
    "r_datoms rc = tx_datoms b (into_datoms demo_tx) (committed_node demo_tx) ctx"
  using assms that by (simp add: transact_eq [OF assms(1)] demo_tx_datoms Let_def) (simp add: demo_tx_def)

theorem transact_effect_witness:
  "\<exists>s' rc. transact id (\<lambda>es. es) demo_tx (minimal_context (with_node 1 0 zero_node)) (genesis id) = (s', Inr rc) \<and>
     epoch s' = 1 \<and> store_len (genesis id) < store_len s'"
proof -
  have e: "epoch (genesis id) = 0" "datoms (genesis id) = []" by (simp_all add: genesis_def datoms_def sort_dedup_def)
  obtain s' rc where t: "transact id (\<lambda>es. es) demo_tx (minimal_context (with_node 1 0 zero_node)) (genesis id) = (s', Inr rc)"
    using demo_transact [OF store_inv_genesis e(1)] by blast
  from transact_effect [OF store_inv_genesis t] e t show ?thesis by auto
qed

text \<open>C4 When a transaction fails, and what it leaves behind. \<open>transact\<close> fails exactly on an empty
  transaction, on an exhausted epoch counter, or when a schema-defining entity of the transaction is
  malformed; datoms, indexes and LIVE views are then untouched. In the last case, though, the epoch
  has already been advanced and the attributes defined before the malformed one are installed.\<close>

theorem transact_failure:
  assumes "store_inv blake3 s" "transact blake3 order t ctx s = (s', r)"
  shows "(\<forall>e. r = Inl e \<longleftrightarrow>
      (into_datoms t = [] \<and> e = EmptyTransaction) \<or>
      (into_datoms t \<noteq> [] \<and> epoch s = - 1 \<and> e = InvariantViolation ''INV-FERR-007'') \<or>
      (into_datoms t \<noteq> [] \<and> epoch s \<noteq> - 1 \<and>
         snd (evolve_schema order (st_schema s) (tx_datoms blake3 (into_datoms t) (committed_node t) ctx)) = Inl e)) \<and>
    (isl r \<longrightarrow> repr s' = repr s \<and> st_causal s' = st_causal s \<and> st_live s' = st_live s \<and> store_inv blake3 s' \<and>
       (into_datoms t = [] \<or> epoch s = - 1 \<longrightarrow> s' = s) \<and>
       (into_datoms t \<noteq> [] \<and> epoch s \<noteq> - 1 \<longrightarrow> epoch s' = epoch s + 1 \<and>
          st_schema s' = fst (evolve_schema order (st_schema s) (tx_datoms blake3 (into_datoms t) (committed_node t) ctx))))"
  using assms(2) store_inv_transact [OF assms(1), of order t ctx]
  by (auto simp: transact_eq [OF assms(1)] Let_def case_prod_unfold split: sum.splits if_splits)

theorem transact_failure_witness:
  "transact id (\<lambda>es. es) (Committed \<lparr>t_node = zero_node, t_datoms = []\<rparr>) (minimal_context placeholder_tx) (genesis id) =
     (genesis id, Inl EmptyTransaction)"
proof -
  obtain s' r where t: "transact id (\<lambda>es. es) (Committed \<lparr>t_node = zero_node, t_datoms = []\<rparr>)
      (minimal_context placeholder_tx) (genesis id) = (s', r)" by fastforce
  from transact_failure [OF store_inv_genesis t] have "r = Inl EmptyTransaction \<and> (isl r \<longrightarrow> s' = genesis id)"
    by simp
  then show ?thesis using t by simp
qed

text \<open>The representation does not show. A transaction on the write-active representation returns
  the same result as on the positional one, and on success leaves the very same store.\<close>

theorem transact_representation:
  assumes "store_inv blake3 s"
  shows "snd (transact blake3 order t ctx (promote s)) = snd (transact blake3 order t ctx s) \<and>
    (\<not> isl (snd (transact blake3 order t ctx s)) \<longrightarrow>
       transact blake3 order t ctx (promote s) = transact blake3 order t ctx s)"
  using assms by (intro transact_repr_free) simp_all

theorem transact_representation_witness:
  "transact id (\<lambda>es. es) demo_tx (minimal_context placeholder_tx) (promote (genesis id)) =
   transact id (\<lambda>es. es) demo_tx (minimal_context placeholder_tx) (genesis id)"
proof -
  have "epoch (genesis id) = 0" by (simp add: genesis_def)
  then obtain s' rc where "transact id (\<lambda>es. es) demo_tx (minimal_context placeholder_tx) (genesis id) = (s', Inr rc)"
    using demo_transact [OF store_inv_genesis] by blast
  with transact_representation [OF store_inv_genesis, of id "\<lambda>es. es" demo_tx "minimal_context placeholder_tx"]
  show ?thesis by simp
qed

lemma batch_splice_all:
  assumes "store_inv blake3 s" "batches \<noteq> []"
  shows "snd (batch_splice_transact blake3 order batches s) = snd (transact_all blake3 order (map batch_tx batches) s) \<and>
    (\<not> isl (snd (batch_splice_transact blake3 order batches s)) \<longrightarrow>
       batch_splice_transact blake3 order batches s = transact_all blake3 order (map batch_tx batches) s)"
proof -
  obtain s1 r where l: "batch_splice_loop blake3 order batches s = (s1, r)" by fastforce
  have inv1: "store_inv blake3 s1"
    using batch_splice_loop_fields [OF store_inv_schema [OF assms(1)], of blake3 order batches] l assms(1) by auto
  have same: "s = s\<lparr>epoch := epoch s, st_schema := st_schema s\<rparr>"
    "demote blake3 s = (demote blake3 s)\<lparr>epoch := epoch s, st_schema := st_schema s\<rparr>" by simp_all
  note B = transact_all_batch [OF assms(1) same(2,1) absorb_Nil [OF assms(1), symmetric]
      store_inv_schema [OF assms(1)], of order batches, unfolded l]
  have ne: "map batch_tx batches \<noteq> []" using assms(2) by simp
  note D = transact_all_demote [OF assms(1) ne, of order]
  show ?thesis
  proof (cases r)
    case (Inl e)
    with B D assms(2) l show ?thesis by (simp add: batch_splice_transact_def)
  next
    case (Inr rs)
    then have "batch_splice_transact blake3 order batches s = (absorb blake3 (concat (map r_datoms rs)) s1, Inr rs)"
      using assms(2) l by (simp add: batch_splice_transact_def apply_datoms_absorb [OF inv1])
    also have "\<dots> = transact_all blake3 order (map batch_tx batches) (demote blake3 s)"
      using B Inr by (simp add: prod_eq_iff)
    finally show ?thesis using D B Inr by (metis isl_def snd_conv sum.disc(2))
  qed
qed

text \<open>C16 Batch equivalence. A batch returns the receipts, or the error, that its transactions return
  when they are applied one after the other, and when it succeeds it leaves the same store.\<close>

theorem batch_equivalence:
  assumes "store_inv blake3 s" "batches \<noteq> []"
  shows "snd (batch_splice_transact blake3 order batches s) = snd (transact_all blake3 order (map batch_tx batches) s) \<and>
    (\<not> isl (snd (batch_splice_transact blake3 order batches s)) \<longrightarrow>
       batch_splice_transact blake3 order batches s = transact_all blake3 order (map batch_tx batches) s)"
  by (rule batch_splice_all [OF assms])

theorem batch_equivalence_witness:
  "snd (batch_splice_transact id (\<lambda>es. es) [([], placeholder_tx)] (genesis id)) =
   snd (transact_all id (\<lambda>es. es) (map batch_tx [([], placeholder_tx)]) (genesis id))"
  using batch_equivalence [OF store_inv_genesis, of "[([], placeholder_tx)]" id "\<lambda>es. es"] by blast

text \<open>Crash recovery restores the committed state. Replaying the receipts of a run of transactions
  onto the store the run started from succeeds and yields the store the run left, also when the hash
  map of the recovering process iterates in another order, provided no single transaction defines
  one attribute in two ways.\<close>

theorem replay_restores:
  assumes "store_inv blake3 s" "transact_all blake3 order ts s = (s', Inr rs)" "ts \<noteq> []"
    "iteration_order order" "iteration_order order'" "\<forall>r \<in> set rs. single_valued (schema_defs (r_datoms r))"
  shows "batch_replay blake3 order' (map (\<lambda>r. (r_epoch r, r_datoms r)) rs) s = (s', Inr ())"
proof -
  note R = transact_all_replayed [OF assms]
  have ne: "map (\<lambda>r. (r_epoch r, r_datoms r)) rs \<noteq> []" using R by simp
  note P = batch_replay_spec [OF assms(1) ne, of order']
  have ok: "snd (batch_replay blake3 order' (map (\<lambda>r. (r_epoch r, r_datoms r)) rs) s) = Inr ()" using P(1) R by simp
  with P(3) [OF ok] R show ?thesis by (simp add: prod_eq_iff)
qed

theorem replay_restores_witness:
  "\<exists>s' rc. transact id (\<lambda>es. es) demo_tx (minimal_context placeholder_tx) (genesis id) = (s', Inr rc) \<and>
     batch_replay id rev [(r_epoch rc, r_datoms rc)] (genesis id) = (s', Inr ())"
proof -
  have "epoch (genesis id) = 0" by (simp add: genesis_def)
  then obtain s' rc where t: "transact id (\<lambda>es. es) demo_tx (minimal_context placeholder_tx) (genesis id) = (s', Inr rc)"
    and d: "r_datoms rc = tx_datoms id (into_datoms demo_tx) (committed_node demo_tx) (minimal_context placeholder_tx)"
    using demo_transact [OF store_inv_genesis] by blast
  have "schema_defs (r_datoms rc) = {}" unfolding d by (rule demo_schema_defs)
  then have "batch_replay id rev (map (\<lambda>r. (r_epoch r, r_datoms r)) [rc]) (genesis id) = (s', Inr ())"
    using replay_restores [OF store_inv_genesis, of id "\<lambda>es. es" "[(demo_tx, minimal_context placeholder_tx)]" s' "[rc]" rev]
      t iteration_order_id iteration_order_rev by simp
  with t show ?thesis by auto
qed

text \<open>C6 Merge is a join. Merging two stores gives the union of the datoms, the met schemas, the larger
  epoch and the smaller genesis node; it is commutative to the last field, idempotent and associative
  on the replica state, and loses no datom of either side.\<close>

theorem merge_join:
  assumes "store_inv blake3 a" "store_inv blake3 b" "store_inv blake3 c"
  shows "merge blake3 a b = merge blake3 b a \<and>
    replica (from_merge blake3 (from_merge blake3 a b) c) = replica (from_merge blake3 a (from_merge blake3 b c)) \<and>
    replica (from_merge blake3 a a) = replica a \<and>
    store_inv blake3 (from_merge blake3 a b) \<and>
    set (datoms (from_merge blake3 a b)) = set (datoms a) \<union> set (datoms b) \<and>
    epoch (from_merge blake3 a b) = max (epoch a) (epoch b)"
proof -
  note i = store_inv_schema [OF assms(1)] store_inv_schema [OF assms(2)]
  note r = replica_inv_store [OF assms(1)] replica_inv_store [OF assms(2)] replica_inv_store [OF assms(3)]
  have "merge_causal (st_causal a) (st_causal b) = merge_causal (st_causal b) (st_causal a)"
    by (rule causal_join.join_comm) (rule store_inv_causal [OF assms(1)], rule store_inv_causal [OF assms(2)])
  moreover have "merge_sort_dedup (datoms a) (datoms b) = merge_sort_dedup (datoms b) (datoms a)"
    by (rule array_join.join_comm) (rule strict_sorted_datoms [OF assms(1)], rule strict_sorted_datoms [OF assms(2)])
  moreover have "snd (merge_schemas (st_schema a) (st_schema b)) = snd (merge_schemas (st_schema b) (st_schema a))"
    using conflicts_commute [OF i] by (simp add: merge_schemas_spec i)
  ultimately have comm: "merge blake3 a b = merge blake3 b a"
    unfolding merge_def from_merge_eq [OF i] from_merge_eq [OF i(2,1)]
    by (simp add: schema_join.join_comm [OF i] max.commute min.commute)
  have rep: "replica (from_merge blake3 a b) = replica_join (replica a) (replica b)"
    by (rule replica_from_merge [OF assms(1,2)])
  show ?thesis
    using comm rep assms replica_join.join_assoc [OF r] replica_join.join_idem [OF r(1)]
    by (simp add: replica_from_merge, simp add: replica_def replica_join_def)
qed

theorem merge_join_witness:
  "merge id (genesis id) (store_from_datoms id [sample_datom (VBool True)]) =
   merge id (store_from_datoms id [sample_datom (VBool True)]) (genesis id)"
  using merge_join [OF store_inv_genesis store_inv_from_datoms store_inv_genesis] by blast

text \<open>C15 Strong eventual consistency. Two replicas that start equal and merge in the same set of stores,
  in whatever order and with whatever repetitions, end in the same store (the conflict report of the
  last merge apart): same datoms, representation, schema, epoch, LIVE lattice and LIVE set.\<close>

theorem merge_convergence:
  assumes "store_inv blake3 a" "\<forall>x \<in> set xs. store_inv blake3 x" "set xs = set ys" "xs \<noteq> []"
  shows "(fold (\<lambda>x s. from_merge blake3 s x) xs a)\<lparr>schema_conflicts := []\<rparr> =
         (fold (\<lambda>x s. from_merge blake3 s x) ys a)\<lparr>schema_conflicts := []\<rparr>"
proof -
  let ?f = "\<lambda>zs. fold (\<lambda>x s. from_merge blake3 s x) zs a"
  have ys: "\<forall>x \<in> set ys. store_inv blake3 x" "ys \<noteq> []" using assms by auto
  note X = fold_from_merge [OF assms(1,2)] and Y = fold_from_merge [OF assms(1) ys(1)]
  have "\<forall>x \<in> set (map replica xs). replica_inv x" using assms(2) replica_inv_store by auto
  then have "replica (?f xs) = replica (?f ys)"
    using X Y replica_join.convergence [OF replica_inv_store [OF assms(1)], of "map replica xs" "map replica ys"] assms(3)
    by simp
  moreover obtain ps qs where "repr (?f xs) = RPositional ps" "repr (?f ys) = RPositional qs"
    using fold_from_merge_positional assms(4) ys(2) by metis
  ultimately show ?thesis using X Y by (intro positional_ext) auto
qed

theorem merge_convergence_witness:
  "(fold (\<lambda>x s. from_merge id s x) [genesis id, store_from_datoms id []] (genesis id))\<lparr>schema_conflicts := []\<rparr> =
   (fold (\<lambda>x s. from_merge id s x) [store_from_datoms id [], genesis id, genesis id] (genesis id))\<lparr>schema_conflicts := []\<rparr>"
  by (rule merge_convergence) auto

text \<open>Selective merge transfers exactly the accepted datoms. The result satisfies the store invariant,
  keeps every local datom and adds exactly the remote datoms the filter accepts; the receipt counts
  partition the remote store; with the filter that accepts everything, and no two datoms that differ
  in nothing but the operation, it is the full merge.\<close>

theorem selective_merge_exact:
  assumes "store_inv blake3 local" "store_inv blake3 remote"
    "selective_merge blake3 local remote flt src = Inr (m, rc)"
  shows "store_inv blake3 m \<and>
    set (datoms m) = set (datoms local) \<union> {d \<in> set (datoms remote). filter_matches flt d} \<and>
    mr_transferred rc + mr_filtered_out rc + mr_already_present rc = store_len remote \<and>
    store_len m = store_len local + mr_transferred rc \<and>
    (flt = FAll \<longrightarrow> op_consistent (set (datoms local) \<union> set (datoms remote)) \<longrightarrow> m = from_merge blake3 local remote)"
proof (intro conjI impI)
  note S = selective_merge_store [OF assms]
  note M = store_inv_from_merge [OF assms(1,2)]
  show "store_inv blake3 m"
    and dm: "set (datoms m) = set (datoms local) \<union> {d \<in> set (datoms remote). filter_matches flt d}" by (fact S)+
  have len: "store_len x = card (set (datoms x))" if "store_inv blake3 x" for x
    using strict_sorted_distinct [OF strict_sorted_datoms [OF that]]
    by (simp add: store_len_def datoms_def ps_len_def distinct_card split: store_repr.splits)
  have dist: "distinct (datoms remote)" using strict_sorted_distinct [OF strict_sorted_datoms [OF assms(2)]] .
  from assms(3) have rc:
    "mr_transferred rc = length (filter (\<lambda>d. filter_matches flt d \<and> d \<notin> set (datoms local)) (datoms remote))"
    "mr_filtered_out rc = length (filter (\<lambda>d. \<not> filter_matches flt d) (datoms remote))"
    "mr_already_present rc = length (filter (\<lambda>d. filter_matches flt d \<and> d \<in> set (datoms local)) (datoms remote))"
    by (auto simp: selective_merge_def filter_remote_spec Let_def case_prod_unfold)
  have "length (filter (\<lambda>d. p d \<and> q d) xs) + length (filter (\<lambda>d. \<not> p d) xs) + length (filter (\<lambda>d. p d \<and> \<not> q d) xs)
      = length xs" for p q and xs :: "datom list"
    by (induction xs) auto
  from this [of "filter_matches flt" "\<lambda>d. d \<notin> set (datoms local)" "datoms remote"]
  show "mr_transferred rc + mr_filtered_out rc + mr_already_present rc = store_len remote"
    using rc by (simp add: store_len_def datoms_def ps_len_def split: store_repr.splits)
  have "card (set (filter (\<lambda>d. filter_matches flt d \<and> d \<notin> set (datoms local)) (datoms remote))) = mr_transferred rc"
    unfolding rc(1) by (rule distinct_card) (simp add: dist)
  then have t: "mr_transferred rc = card {d \<in> set (datoms remote). filter_matches flt d \<and> d \<notin> set (datoms local)}" by simp
  have u: "set (datoms m) = set (datoms local) \<union> {d \<in> set (datoms remote). filter_matches flt d \<and> d \<notin> set (datoms local)}"
    using dm by blast
  show "store_len m = store_len local + mr_transferred rc"
    unfolding len [OF S(1)] len [OF assms(1)] t u by (rule card_Un_disjoint) auto
  assume all: "flt = FAll" "op_consistent (set (datoms local) \<union> set (datoms remote))"
  have eq: "datoms m = datoms (from_merge blake3 local remote)"
    using dm all(1) strict_sorted_datoms [OF S(1)] strict_sorted_datoms [OF M]
    by (intro strict_sorted_set_unique) (auto simp: from_merge_def merge_repr_eq Let_def case_prod_unfold datoms_def)
  have "st_causal m = st_causal (from_merge blake3 local remote)"
    using S(1) M all by (intro causal_of_unique [of _ "set (datoms m)"]) (simp_all add: store_inv_def dm eq, simp add: dm flip: eq)
  then have "replica m = replica (from_merge blake3 local remote)"
    using S(3-5) eq by (simp add: replica_def from_merge_eq store_inv_schema [OF assms(1)] store_inv_schema [OF assms(2)])
  moreover obtain ps qs where "repr m = RPositional ps" "repr (from_merge blake3 local remote) = RPositional qs"
    using S(7) by (auto simp: from_merge_def Let_def case_prod_unfold)
  ultimately have "m\<lparr>schema_conflicts := []\<rparr> = (from_merge blake3 local remote)\<lparr>schema_conflicts := []\<rparr>"
    by (intro positional_ext [OF S(1) M])
  with S(6) show "m = from_merge blake3 local remote" by (metis store.surjective store.update_convs(7) store.select_convs)
qed

theorem selective_merge_exact_witness:
  "\<exists>m rc. selective_merge id (genesis id) (store_from_datoms id [sample_datom (VBool True)]) FAll ''peer'' = Inr (m, rc) \<and>
     store_len m = store_len (genesis id) + mr_transferred rc"
proof -
  obtain m rc where m: "selective_merge id (genesis id) (store_from_datoms id [sample_datom (VBool True)]) FAll ''peer'' = Inr (m, rc)"
    by (simp add: selective_merge_def Let_def case_prod_unfold)
  with selective_merge_exact [OF store_inv_genesis store_inv_from_datoms m] show ?thesis by blast
qed

text \<open>A checkpoint restores the store. Rebuilding a store from the data extracted for a checkpoint
  succeeds and gives the store back in positional form, with the conflict report cleared, whenever no
  two datoms differ in nothing but the operation and the positions fit 32 bits.\<close>

theorem checkpoint_data_roundtrip:
  assumes "store_inv blake3 s" "store_len s \<le> u32_max" "op_consistent (set (datoms s))"
  shows "store_from_checkpoint_data blake3 (extract_checkpoint_data s) =
    Inr ((demote blake3 s)\<lparr>schema_conflicts := []\<rparr>)"
proof -
  have "st_causal s = build_live_causal (datoms s)"
    using assms(1) by (intro causal_of_unique [OF _ causal_of_build assms(3)]) (simp add: store_inv_def)
  then have "(demote blake3 s)\<lparr>schema_conflicts := [], st_causal := build_live_causal (datoms s),
      st_live := derive_live_set (build_live_causal (datoms s))\<rparr> = (demote blake3 s)\<lparr>schema_conflicts := []\<rparr>"
    using assms(1) by (intro store.equality) (simp_all add: store_inv_def)
  with restore_extracted [OF assms(1,2)] show ?thesis by simp
qed

theorem checkpoint_data_roundtrip_witness:
  "store_from_checkpoint_data id (extract_checkpoint_data (promote (genesis id))) =
     Inr ((demote id (promote (genesis id)))\<lparr>schema_conflicts := []\<rparr>)"
proof -
  have d: "datoms (promote (genesis id)) = []"
    using datoms_promote [OF store_inv_genesis, of id] by (simp add: genesis_def datoms_def sort_dedup_def)
  then have "store_len (promote (genesis id)) \<le> u32_max"
    by (simp add: store_len_def datoms_def ps_len_def split: store_repr.splits)
  with d show ?thesis by (intro checkpoint_data_roundtrip) (simp_all add: op_consistent_def)
qed

text \<open>C7 The store invariant holds in every reachable store: sorted datoms, a positional array with the
  fingerprint and LIVE bits of its datoms or indexes that hold exactly the datoms, an ordered schema,
  a causal lattice that records the latest statement of every triple, and its exact projection.\<close>

theorem reachable_invariant:
  assumes "reachable blake3 s"
  shows "store_inv blake3 s"
  using assms by (induction rule: reachable.induct) (auto dest: store_step_keeps store_inv_from_checkpoint_v3)

theorem reachable_invariant_witness: "store_inv id (promote (store_insert (sample_datom (VBool True)) (genesis id)))"
  by (rule reachable_invariant)
     (intro r_step [OF r_step [OF r_genesis step_running [OF step_insert]] step_running [OF step_promote]])

text \<open>C10 The store is append-only. Along any sequence of operations, inserts, transactions, batches, merges,
  selective merges and replays of log entries, successful or failed, the store invariant is kept and no datom
  is ever lost. Along a sequence without replays the epoch never decreases. A replay sets the epoch: to the
  epoch of the entry, and for a successful batch of entries to that of the last one, whatever it was before.\<close>

theorem store_append_only:
  assumes "(store_step blake3)\<^sup>*\<^sup>* s s'" "store_inv blake3 s"
  shows "store_inv blake3 s' \<and> set (datoms s) \<subseteq> set (datoms s') \<and>
    ((running_step blake3)\<^sup>*\<^sup>* s s' \<longrightarrow> epoch s \<le> epoch s') \<and>
    (\<forall>order ep ds. epoch (fst (replay_entry order ep ds s')) = ep) \<and>
    (\<forall>order es. snd (batch_replay blake3 order es s') = Inr () \<longrightarrow>
       epoch (fst (batch_replay blake3 order es s')) = last (epoch s' # map fst es))"
proof -
  have keeps: "store_inv blake3 s' \<and> set (datoms s) \<subseteq> set (datoms s')"
    using assms
  proof (induction rule: rtranclp_induct)
    case (step t u)
    from store_step_keeps [OF step(2)] step(3) [OF step(4)] show ?case by (meson order_trans)
  qed simp
  moreover have "store_inv blake3 s' \<and> epoch s \<le> epoch s'" if "(running_step blake3)\<^sup>*\<^sup>* s s'"
    using that assms(2)
  proof (induction rule: rtranclp_induct)
    case (step t u)
    from running_step_mono [OF step(2)] step(3) [OF step(4)] show ?case by (meson order_trans)
  qed simp
  moreover have "epoch (fst (replay_entry order ep ds s')) = ep" for order ep ds
    by (simp add: replay_entry_def store_evolve_eq)
  moreover have "epoch (fst (batch_replay blake3 order es s')) = last (epoch s' # map fst es)"
    if "snd (batch_replay blake3 order es s') = Inr ()" for order es
  proof (cases "es = []")
    case False
    then show ?thesis using batch_replay_spec(3) [OF conjunct1 [OF keeps] False that] by (simp add: replayed_def)
  qed (simp add: batch_replay_def)
  ultimately show ?thesis by blast
qed

text \<open>A store at epoch 0 with one datom; an insert, then the replay of an entry of epoch 7 with another datom. No
  datom is lost, and the replay of an older entry behind it lowers the epoch to 3.\<close>

theorem store_append_only_witness:
  "set (datoms (store_from_datoms id [sample_datom (VBool True)])) \<subseteq>
     set (datoms (fst (replay_entry (\<lambda>es. es) 7 [sample_datom (VLong 1)]
       (store_insert (sample_datom (VLong 2)) (store_from_datoms id [sample_datom (VBool True)]))))) \<and>
   epoch (store_from_datoms id [sample_datom (VBool True)]) \<le>
     epoch (store_insert (sample_datom (VLong 2)) (store_from_datoms id [sample_datom (VBool True)])) \<and>
   epoch (fst (replay_entry (\<lambda>es. es) 3 [] (fst (replay_entry (\<lambda>es. es) 7 [sample_datom (VLong 1)]
       (store_insert (sample_datom (VLong 2)) (store_from_datoms id [sample_datom (VBool True)])))))) = 3"
proof -
  let ?s = "store_from_datoms id [sample_datom (VBool True)]"
  let ?t = "store_insert (sample_datom (VLong 2)) ?s"
  let ?u = "fst (replay_entry (\<lambda>es. es) 7 [sample_datom (VLong 1)] ?t)"
  have run: "(running_step id)\<^sup>*\<^sup>* ?s ?t" by (rule r_into_rtranclp [of "running_step id", OF step_insert])
  have st: "(store_step id)\<^sup>*\<^sup>* ?s ?t" by (rule r_into_rtranclp [of "store_step id", OF step_running [OF step_insert]])
  have "store_step id ?t ?u" by (rule step_replay_entry [OF surjective_pairing])
  with st have su: "(store_step id)\<^sup>*\<^sup>* ?s ?u" by (rule rtranclp.rtrancl_into_rtrancl)
  show ?thesis
    using store_append_only [OF st store_inv_from_datoms] store_append_only [OF su store_inv_from_datoms] run by blast
qed

section \<open>Typing\<close>

text \<open>A store is typed when every datom is admissible under its schema and the schema extends the
  genesis schema.\<close>

definition store_typed :: "store \<Rightarrow> bool" where
  "store_typed s \<longleftrightarrow>
     (\<forall>d \<in> set (datoms s). admissible (st_schema s) d) \<and>
     (\<forall>a def. schema_get genesis_schema a = Some def \<longrightarrow> schema_get (st_schema s) a = Some def)"

definition conservative :: "schema \<Rightarrow> schema \<Rightarrow> bool" where
  "conservative s s' \<longleftrightarrow> (\<forall>a def. schema_get s a = Some def \<longrightarrow> schema_get s' a = Some def)"

lemma admissible_mono: "conservative s s' \<Longrightarrow> admissible s d \<Longrightarrow> admissible s' d"
  by (auto simp: conservative_def admissible_def split: option.splits)

lemma genesis_get:
  "schema_get genesis_schema (Attribute n) =
     (case map_of tx_schema_attrs n of Some d \<Rightarrow> Some d | None \<Rightarrow> map_of meta_schema_attrs n)"
proof -
  have "distinct (map fst tx_schema_attrs)" "distinct (map fst meta_schema_attrs)"
    by (simp_all add: tx_schema_attrs_def meta_schema_attrs_def)
  then show ?thesis
    unfolding genesis_schema_def define_tx_schema_def define_meta_schema_def
    by (simp add: schema_get_define_all split: option.splits)
qed

lemma metadata_admissible:
  "d \<in> set (tx_datoms blake3 [] node ctx) \<Longrightarrow> admissible genesis_schema d"
  by (auto simp: tx_datoms_def stamp_datoms_def create_tx_metadata_def create_federation_metadata_def Let_def
      admissible_def genesis_get tx_schema_attrs_def genesis_helpers split: option.splits)

lemma tx_datoms_split: "tx_datoms blake3 ds node ctx = stamp_datoms ds (tc_tx_id ctx) @ tx_datoms blake3 [] node ctx"
  by (simp add: tx_datoms_def stamp_datoms_def Let_def)

lemma commit_admissible: "commit (Building t) s = Inr c \<Longrightarrow> c = Committed t \<and> (\<forall>d \<in> set (t_datoms t). admissible s d)"
  by (auto simp: validate_datoms_spec filter_empty_conv split: list.splits)

text \<open>C17 Typing is preserved. When a transaction is validated against the schema of a typed store and
  does not redefine a defined attribute, the store it leaves is typed again: every datom, the stamped
  ones and the generated metadata included, has a defined attribute of the declared value type.\<close>

theorem typing_preserved:
  assumes "store_inv blake3 s" "store_typed s" "commit (Building t) (st_schema s) = Inr c"
    "transact blake3 order c ctx s = (s', Inr rc)" "conservative (st_schema s) (st_schema s')"
  shows "store_typed s'"
proof -
  from assms(4) have d: "set (datoms s') = set (datoms s) \<union> set (tx_datoms blake3 (into_datoms c) (committed_node c) ctx)"
    by (auto simp: transact_eq [OF assms(1)] Let_def case_prod_unfold split: sum.splits if_splits)
  note C = commit_admissible [OF assms(3)]
  have gen: "conservative genesis_schema (st_schema s)" using assms(2) by (simp add: store_typed_def conservative_def)
  have "admissible (st_schema s) e" if e: "e \<in> set (datoms s')" for e
  proof -
    consider "e \<in> set (datoms s)" | "e \<in> set (stamp_datoms (t_datoms t) (tc_tx_id ctx))"
      | "e \<in> set (tx_datoms blake3 [] (committed_node c) ctx)"
      using e C d tx_datoms_split [of blake3 "into_datoms c" "committed_node c" ctx] by (simp only: set_append) auto
    then show ?thesis
    proof cases
      case 2
      then show ?thesis using C by (auto simp: stamp_datoms_def admissible_def split: option.splits)
    qed (use assms(2) metadata_admissible admissible_mono [OF gen] in \<open>auto simp: store_typed_def\<close>)
  qed
  with assms(5) gen show ?thesis using admissible_mono [OF assms(5)] by (auto simp: store_typed_def conservative_def)
qed

definition typed_tx :: transaction where
  "typed_tx = \<lparr>t_node = zero_node, t_datoms = [Datom (EntityId [1]) (Attribute ''db/doc'') (VString ''x'') placeholder_tx Assert]\<rparr>"

theorem typing_preserved_witness:
  "\<exists>s' rc. transact id (\<lambda>es. es) (Committed typed_tx) (minimal_context placeholder_tx) (genesis id) = (s', Inr rc) \<and>
     store_typed s'"
proof -
  have ns: "no_schema (tx_datoms id (into_datoms (Committed typed_tx)) zero_node (minimal_context placeholder_tx))"
    by (auto simp: no_schema_def typed_tx_def tx_datoms_def minimal_context_def stamp_datoms_def create_tx_metadata_def
        create_federation_metadata_def db_ident_def db_value_type_def db_cardinality_def Let_def)
  have g: "st_schema (genesis id) = genesis_schema" "epoch (genesis id) = 0" by (simp_all add: genesis_def)
  have n: "committed_node (Committed typed_tx) = zero_node" "into_datoms (Committed typed_tx) \<noteq> []" by (simp_all add: typed_tx_def)
  obtain s' rc where t: "transact id (\<lambda>es. es) (Committed typed_tx) (minimal_context placeholder_tx) (genesis id) = (s', Inr rc)"
    and sch: "st_schema s' = genesis_schema"
    using g n evolve_no_schema(1) [OF ns] by (simp add: transact_eq [OF store_inv_genesis] Let_def del: into_datoms.simps committed_node.simps)
  have "store_typed (genesis id)" by (simp add: store_typed_def g) (simp add: genesis_def datoms_def sort_dedup_def)
  moreover have "commit (Building typed_tx) (st_schema (genesis id)) = Inr (Committed typed_tx)"
    by (simp add: g typed_tx_def genesis_get tx_schema_attrs_def meta_schema_attrs_def genesis_helpers)
  ultimately show ?thesis
    using typing_preserved [OF store_inv_genesis _ _ t] t sch g by (auto simp: conservative_def)
qed

end
