(* ===== verification/Federation.thy ===== *)
theory Federation
  imports Replication
begin

text \<open>
  Signed transactions and their exchange (\<open>ferratom/src/signing.rs\<close>, \<open>ferratom/src/bundle.rs\<close>,
  \<open>ferratomic-core/src/signing.rs\<close>, \<open>transport.rs\<close>, \<open>topology.rs\<close>, \<open>anti_entropy.rs\<close>).

  Ed25519 is a parameter: a record of the key derivation, the signing and the verification function.
  What the code relies on is that a signature made with a key verifies under the key's public half, and,
  for what a signature binds, that under one key a signature verifies for at most one message.
\<close>

section \<open>Signature newtypes (ferratom/src/signing.rs)\<close>

datatype tx_signature = TxSignature (signature_bytes: bytes)
datatype tx_signer = TxSigner (signer_bytes: bytes)

definition value_of_signature :: "tx_signature \<Rightarrow> val" where
  "value_of_signature s = VBytes (signature_bytes s)"

definition value_of_signer :: "tx_signer \<Rightarrow> val" where
  "value_of_signer s = VBytes (signer_bytes s)"

definition try_signature :: "val \<Rightarrow> ferra_error + tx_signature" where
  "try_signature v =
     (case v of
        VBytes b \<Rightarrow> if length b = 64 then Inr (TxSignature b) else Inl (InvariantViolation ''INV-FERR-051'')
      | _ \<Rightarrow> Inl (InvariantViolation ''INV-FERR-051''))"

definition try_signer :: "val \<Rightarrow> ferra_error + tx_signer" where
  "try_signer v =
     (case v of
        VBytes b \<Rightarrow> if length b = 32 then Inr (TxSigner b) else Inl (InvariantViolation ''INV-FERR-051'')
      | _ \<Rightarrow> Inl (InvariantViolation ''INV-FERR-051''))"

section \<open>Bundles (bundle.rs)\<close>

record signed_bundle =
  b_tx_id :: txid
  b_datoms :: "datom list"
  b_signing :: "(tx_signature \<times> tx_signer) option"
  b_predecessors :: "entity_id list"
  b_provenance :: "provenance_type option"

definition is_tx_metadata :: "attribute \<Rightarrow> bool" where
  "is_tx_metadata a = starts_with (as_str a) ''tx/''"

record bundle_slots =
  sl_signature :: "tx_signature option"
  sl_signer :: "tx_signer option"
  sl_provenance :: "provenance_type option"
  sl_predecessors :: "entity_id list"

definition extract_metadata :: "datom \<Rightarrow> bundle_slots \<Rightarrow> bundle_slots" where
  "extract_metadata d sl =
     (let a = as_str (d_attribute d)
      in if a = ''tx/signature'' then
           (case d_value d of
              VBytes b \<Rightarrow> if length b = 64 then sl\<lparr>sl_signature := Some (TxSignature b)\<rparr> else sl
            | _ \<Rightarrow> sl)
         else if a = ''tx/signer'' then
           (case d_value d of
              VBytes b \<Rightarrow> if length b = 32 then sl\<lparr>sl_signer := Some (TxSigner b)\<rparr> else sl
            | _ \<Rightarrow> sl)
         else if a = ''tx/provenance'' then
           (case d_value d of VKeyword kw \<Rightarrow> sl\<lparr>sl_provenance := provenance_from_keyword kw\<rparr> | _ \<Rightarrow> sl)
         else if a = ''tx/predecessor'' then
           (case d_value d of VRef e \<Rightarrow> sl\<lparr>sl_predecessors := sl_predecessors sl @ [e]\<rparr> | _ \<Rightarrow> sl)
         else sl)"

definition zip_option :: "'a option \<Rightarrow> 'b option \<Rightarrow> ('a \<times> 'b) option" where
  "zip_option x y = (case (x, y) of (Some a, Some b) \<Rightarrow> Some (a, b) | _ \<Rightarrow> None)"

definition empty_slots :: bundle_slots where
  "empty_slots = \<lparr>sl_signature = None, sl_signer = None, sl_provenance = None, sl_predecessors = []\<rparr>"

definition from_store_datoms :: "datom list \<Rightarrow> txid \<Rightarrow> signed_bundle" where
  "from_store_datoms ds x =
     (let (user, sl) = fold (\<lambda>d (user, sl).
            if is_tx_metadata (d_attribute d) then (user, extract_metadata d sl) else (user @ [d], sl))
          ds ([], empty_slots)
      in \<lparr>b_tx_id = x, b_datoms = user, b_signing = zip_option (sl_signature sl) (sl_signer sl),
          b_predecessors = sl_predecessors sl, b_provenance = sl_provenance sl\<rparr>)"

definition is_signed :: "signed_bundle \<Rightarrow> bool" where
  "is_signed b \<longleftrightarrow> b_signing b \<noteq> None"

section \<open>Signing and verification (core signing.rs)\<close>

record signing_components =
  sc_datoms :: "datom list"
  sc_tx_id :: txid
  sc_predecessors :: "entity_id list"
  sc_fingerprint :: bytes

record ed25519 =
  ed_public :: "bytes \<Rightarrow> bytes"
  ed_sign :: "bytes \<Rightarrow> bytes \<Rightarrow> bytes"
  ed_key_valid :: "bytes \<Rightarrow> bool"
  ed_verify :: "bytes \<Rightarrow> bytes \<Rightarrow> bytes \<Rightarrow> bool"

definition signing_message :: "(bytes \<Rightarrow> bytes) \<Rightarrow> signing_components \<Rightarrow> bytes \<Rightarrow> bytes" where
  "signing_message blake3 c signer_pk =
     (let user = sort (filter (\<lambda>d. \<not> starts_with (as_str (d_attribute d)) ''tx/'') (sc_datoms c));
          h = fold hash_signing_fields user [];
          h = hasher_update (tx_id_canonical_bytes (sc_tx_id c)) h;
          sorted_preds = sort (sc_predecessors c);
          h = fold (\<lambda>e. hasher_update (entity_bytes e)) sorted_preds h;
          h = hasher_update (sc_fingerprint c) h;
          h = hasher_update signer_pk h
      in blake3 h)"

definition sign_transaction ::
  "ed25519 \<Rightarrow> (bytes \<Rightarrow> bytes) \<Rightarrow> signing_components \<Rightarrow> bytes \<Rightarrow> tx_signature \<times> tx_signer" where
  "sign_transaction ed blake3 c sk =
     (let pk = ed_public ed sk; msg = signing_message blake3 c pk
      in (TxSignature (ed_sign ed sk msg), TxSigner pk))"

definition verify_signature ::
  "ed25519 \<Rightarrow> (bytes \<Rightarrow> bytes) \<Rightarrow> signing_components \<Rightarrow> tx_signature \<Rightarrow> tx_signer \<Rightarrow> ferra_error + unit" where
  "verify_signature ed blake3 c sig signer =
     (if \<not> ed_key_valid ed (signer_bytes signer) then Inl (SignatureInvalid ''invalid signer public key'')
      else (let msg = signing_message blake3 c (signer_bytes signer)
            in if ed_verify ed (signer_bytes signer) msg (signature_bytes sig) then Inr ()
               else Inl (SignatureInvalid ''Ed25519 verification failed'')))"

section \<open>Transport, topology, anti-entropy\<close>

definition fetch_datoms :: "snapshot \<Rightarrow> datom_filter \<Rightarrow> datom list" where
  "fetch_datoms snap flt = filter (filter_matches flt) (sn_datoms snap)"

definition push_group :: "datom \<Rightarrow> (txid, datom list) omap \<Rightarrow> (txid, datom list) omap" where
  "push_group d groups = om_insert (d_tx d) (or_default groups (d_tx d) @ [d]) groups"

definition group_into_bundles :: "snapshot \<Rightarrow> datom_filter \<Rightarrow> signed_bundle list" where
  "group_into_bundles snap flt =
     (let (accepted, groups) = fold (\<lambda>d (acc, g).
            if \<not> starts_with (as_str (d_attribute d)) ''tx/'' \<and> filter_matches flt d
            then (os_insert (d_tx d) acc, push_group d g) else (acc, g)) (sn_datoms snap) ([], []);
          groups = fold (\<lambda>d g.
            if List.member accepted (d_tx d) \<and> starts_with (as_str (d_attribute d)) ''tx/''
            then push_group d g else g) (sn_datoms snap) groups
      in map (\<lambda>(x, ds). from_store_datoms ds x) groups)"

definition accept_all :: "datom \<Rightarrow> bool" where
  "accept_all d = True"

definition filter_accepts :: "datom_filter \<Rightarrow> datom \<Rightarrow> bool" where
  "filter_accepts flt d = filter_matches flt d"

definition null_diff :: "store \<Rightarrow> ferra_error + bytes" where
  "null_diff local = Inr []"

definition null_apply_diff :: "bytes \<Rightarrow> store \<Rightarrow> store \<times> (ferra_error + unit)" where
  "null_apply_diff diff s = (s, Inr ())"


section \<open>The signed message\<close>

definition signing_fields :: "datom \<Rightarrow> bytes" where
  "signing_fields d =
     entity_bytes (d_entity d) @ canonical_attr_bytes (d_attribute d) @ canonical_value_bytes (d_value d) @ [op_byte (d_op d)]"

definition user_datoms :: "datom list \<Rightarrow> datom list" where
  "user_datoms ds = filter (\<lambda>d. \<not> is_tx_metadata (d_attribute d)) ds"

text \<open>The bytes under the hash: nothing in them says how many datoms and how many predecessors they hold.\<close>

definition signing_preimage :: "signing_components \<Rightarrow> bytes \<Rightarrow> bytes" where
  "signing_preimage c pk =
     concat (map signing_fields (sort (user_datoms (sc_datoms c)))) @ tx_id_canonical_bytes (sc_tx_id c) @
     concat (map entity_bytes (sort (sc_predecessors c))) @ sc_fingerprint c @ pk"

lemma hash_signing_fields_append: "hash_signing_fields d h = h @ signing_fields d"
  by (simp add: hash_signing_fields_def signing_fields_def canonical_attr_bytes_def canonical_value_hash_append
      hasher_update_def Let_def)

lemma fold_hash_fields:
  "fold hash_signing_fields ds h = h @ concat (map signing_fields ds)"
  "fold (\<lambda>e. hasher_update (entity_bytes e)) es h = h @ concat (map entity_bytes es)"
  by (induction ds arbitrary: h) (simp_all add: hash_signing_fields_append,
      induction es arbitrary: h, simp_all add: hasher_update_def)

lemma signing_message_preimage: "signing_message blake3 c pk = blake3 (signing_preimage c pk)"
  by (simp add: signing_message_def signing_preimage_def fold_hash_fields hasher_update_def user_datoms_def
      is_tx_metadata_def Let_def)





text \<open>A datom without its transaction: what a signature speaks about.\<close>

definition statement :: "datom \<Rightarrow> entity_id \<times> attribute \<times> val \<times> op" where
  "statement d = (d_entity d, d_attribute d, d_value d, d_op d)"




text \<open>The message depends only on the statements of the user datoms and on the predecessors, each as a
  multiset.\<close>

lemma sort_mset_cong: "mset xs = mset ys \<Longrightarrow> sort xs = sort (ys :: 'a::linorder list)"
  by (intro properties_for_sort) simp_all

lemma sort_map_mono:
  assumes "\<And>x y. x \<in> set xs \<Longrightarrow> y \<in> set xs \<Longrightarrow> x \<le> y \<Longrightarrow> f x \<le> f y"
  shows "sort (map f xs) = map f (sort xs)"
proof (rule properties_for_sort)
  have "sorted_wrt (\<lambda>x y. f x \<le> f y) (sort xs)"
    by (rule sorted_wrt_mono_rel [OF _ sorted_sort]) (simp add: assms)
  then show "sorted (map f (sort xs))" by (simp add: sorted_wrt_map)
qed simp

lemma stamp_mono:
  "d_tx d = p \<Longrightarrow> d_tx d' = p \<Longrightarrow> d \<le> d' \<Longrightarrow>
     Datom (d_entity d) (d_attribute d) (d_value d) x (d_op d) \<le> Datom (d_entity d') (d_attribute d') (d_value d') x (d_op d')"
  by (auto simp: less_eq_datom_def datom_key_def less_eq_prod_simp)

lemma signing_fields_stamped:
  assumes "\<forall>d \<in> set ds. d_tx d = p"
  shows "map signing_fields (sort (stamp_datoms ds x)) = map signing_fields (sort ds)"
proof -
  have "sort (stamp_datoms ds x) = stamp_datoms (sort ds) x"
    unfolding stamp_datoms_def using assms by (intro sort_map_mono stamp_mono [where p = p]) simp_all
  then show ?thesis by (simp add: stamp_datoms_def signing_fields_def)
qed

section \<open>Reassembling a transaction\<close>

lemma from_store_datoms_eq:
  "from_store_datoms ds x =
     (let sl = fold extract_metadata (filter (\<lambda>d. is_tx_metadata (d_attribute d)) ds) empty_slots
      in \<lparr>b_tx_id = x, b_datoms = user_datoms ds, b_signing = zip_option (sl_signature sl) (sl_signer sl),
          b_predecessors = sl_predecessors sl, b_provenance = sl_provenance sl\<rparr>)"
proof -
  have "fold (\<lambda>d (user, sl). if is_tx_metadata (d_attribute d) then (user, extract_metadata d sl) else (user @ [d], sl)) ds (u, sl) =
      (u @ user_datoms ds, fold extract_metadata (filter (\<lambda>d. is_tx_metadata (d_attribute d)) ds) sl)" for u sl
    by (induction ds arbitrary: u sl) (simp_all add: user_datoms_def)
  then show ?thesis by (simp add: from_store_datoms_def Let_def)
qed

definition predecessors_in :: "datom list \<Rightarrow> entity_id list" where
  "predecessors_in ds = concat (map (\<lambda>d. case d_value d of VRef e \<Rightarrow> [e] | _ \<Rightarrow> [])
     (filter (\<lambda>d. as_str (d_attribute d) = ''tx/predecessor'') ds))"

lemma slots_spec:
  "(\<And>d. d \<in> set ds \<Longrightarrow> as_str (d_attribute d) = ''tx/signature'' \<Longrightarrow> d_value d = VBytes sg) \<Longrightarrow> length sg = 64 \<Longrightarrow>
     sl_signature (fold extract_metadata ds sl) =
       (if \<exists>d \<in> set ds. as_str (d_attribute d) = ''tx/signature'' then Some (TxSignature sg) else sl_signature sl)"
  "(\<And>d. d \<in> set ds \<Longrightarrow> as_str (d_attribute d) = ''tx/signer'' \<Longrightarrow> d_value d = VBytes pk) \<Longrightarrow> length pk = 32 \<Longrightarrow>
     sl_signer (fold extract_metadata ds sl) =
       (if \<exists>d \<in> set ds. as_str (d_attribute d) = ''tx/signer'' then Some (TxSigner pk) else sl_signer sl)"
  "(\<And>d. d \<in> set ds \<Longrightarrow> as_str (d_attribute d) = ''tx/provenance'' \<Longrightarrow> d_value d = VKeyword kw) \<Longrightarrow>
     sl_provenance (fold extract_metadata ds sl) =
       (if \<exists>d \<in> set ds. as_str (d_attribute d) = ''tx/provenance'' then provenance_from_keyword kw else sl_provenance sl)"
  "sl_predecessors (fold extract_metadata ds sl) = sl_predecessors sl @ predecessors_in ds"
proof -
  note d = extract_metadata_def predecessors_in_def Let_def
  show "(\<And>d. d \<in> set ds \<Longrightarrow> as_str (d_attribute d) = ''tx/signature'' \<Longrightarrow> d_value d = VBytes sg) \<Longrightarrow> length sg = 64 \<Longrightarrow>
     sl_signature (fold extract_metadata ds sl) =
       (if \<exists>d \<in> set ds. as_str (d_attribute d) = ''tx/signature'' then Some (TxSignature sg) else sl_signature sl)"
    by (induction ds arbitrary: sl) (auto simp: d split: val.splits)
  show "(\<And>d. d \<in> set ds \<Longrightarrow> as_str (d_attribute d) = ''tx/signer'' \<Longrightarrow> d_value d = VBytes pk) \<Longrightarrow> length pk = 32 \<Longrightarrow>
     sl_signer (fold extract_metadata ds sl) =
       (if \<exists>d \<in> set ds. as_str (d_attribute d) = ''tx/signer'' then Some (TxSigner pk) else sl_signer sl)"
    by (induction ds arbitrary: sl) (auto simp: d split: val.splits)
  show "(\<And>d. d \<in> set ds \<Longrightarrow> as_str (d_attribute d) = ''tx/provenance'' \<Longrightarrow> d_value d = VKeyword kw) \<Longrightarrow>
     sl_provenance (fold extract_metadata ds sl) =
       (if \<exists>d \<in> set ds. as_str (d_attribute d) = ''tx/provenance'' then provenance_from_keyword kw else sl_provenance sl)"
    by (induction ds arbitrary: sl) (auto simp: d split: val.splits)
  show "sl_predecessors (fold extract_metadata ds sl) = sl_predecessors sl @ predecessors_in ds"
    by (induction ds arbitrary: sl) (auto simp: d split: val.splits)
qed


lemma push_groups_spec:
  "om_inv g \<Longrightarrow> om_inv (fold push_group ds g) \<and>
     (\<forall>x. om_get (fold push_group ds g) x =
       (if om_get g x = None \<and> (\<forall>d \<in> set ds. d_tx d \<noteq> x) then None
        else Some (or_default g x @ filter (\<lambda>d. d_tx d = x) ds)))"
proof (induction ds arbitrary: g)
  case (Cons d ds)
  have i: "om_inv (push_group d g)" using Cons.prems by (simp add: push_group_def)
  have "om_get (push_group d g) x = (if x = d_tx d then Some (or_default g x @ [d]) else om_get g x)" for x
    by (simp add: push_group_def)
  moreover from this have "or_default (push_group d g) x = (if x = d_tx d then or_default g x @ [d] else or_default g x)" for x
    by (simp add: or_default_def)
  ultimately show ?case using Cons.IH [OF i] by auto
qed (simp_all add: or_default_def split: option.splits)

lemma group_into_bundles_eq:
  "group_into_bundles snap flt =
     (let us = filter (\<lambda>d. \<not> is_tx_metadata (d_attribute d) \<and> filter_matches flt d) (sn_datoms snap);
          ms = filter (\<lambda>d. d_tx d \<in> d_tx ` set us \<and> is_tx_metadata (d_attribute d)) (sn_datoms snap)
      in map (\<lambda>(x, ds). from_store_datoms ds x) (fold push_group (us @ ms) []))"
proof -
  let ?P = "\<lambda>d. \<not> is_tx_metadata (d_attribute d) \<and> filter_matches flt d"
  have 1: "fold (\<lambda>d (acc, g). if \<not> starts_with (as_str (d_attribute d)) ''tx/'' \<and> filter_matches flt d
        then (os_insert (d_tx d) acc, push_group d g) else (acc, g)) ds (acc, g) =
      (fold os_insert (map d_tx (filter ?P ds)) acc, fold push_group (filter ?P ds) g)" for ds acc g
    by (induction ds arbitrary: acc g) (simp_all add: is_tx_metadata_def)
  have 2: "fold (\<lambda>d g. if List.member acc (d_tx d) \<and> starts_with (as_str (d_attribute d)) ''tx/'' then push_group d g else g) ds g =
      fold push_group (filter (\<lambda>d. d_tx d \<in> set acc \<and> is_tx_metadata (d_attribute d)) ds) g" for ds acc g
    by (induction ds arbitrary: g) (simp_all add: is_tx_metadata_def)
  show ?thesis unfolding group_into_bundles_def 1 Let_def prod.case 2 by simp
qed

text \<open>The bundle of a transaction with an accepted datom holds its accepted user datoms and all its
  metadata.\<close>

lemma bundle_of_tx:
  assumes "\<exists>d \<in> set (sn_datoms snap). d_tx d = x \<and> \<not> is_tx_metadata (d_attribute d) \<and> filter_matches flt d"
  defines "ds \<equiv> filter (\<lambda>d. d_tx d = x) (sn_datoms snap)"
  defines "bd \<equiv> from_store_datoms
    (filter (\<lambda>d. \<not> is_tx_metadata (d_attribute d) \<and> filter_matches flt d) ds @ filter (\<lambda>d. is_tx_metadata (d_attribute d)) ds) x"
  shows "b \<in> set (group_into_bundles snap flt) \<and> b_tx_id b = x \<longleftrightarrow> b = bd"
proof -
  define us where "us = filter (\<lambda>d. \<not> is_tx_metadata (d_attribute d) \<and> filter_matches flt d) (sn_datoms snap)"
  define ms where "ms = filter (\<lambda>d. d_tx d \<in> d_tx ` set us \<and> is_tx_metadata (d_attribute d)) (sn_datoms snap)"
  define g where "g = fold push_group (us @ ms) []"
  have bs: "group_into_bundles snap flt = map (\<lambda>(x, ds). from_store_datoms ds x) g"
    unfolding group_into_bundles_eq Let_def us_def [symmetric] ms_def [symmetric] g_def [symmetric] by (rule refl)
  have g: "om_inv g" "\<And>y. om_get g y = (if \<forall>d \<in> set (us @ ms). d_tx d \<noteq> y then None
      else Some (filter (\<lambda>d. d_tx d = y) (us @ ms)))"
    using push_groups_spec [of "[]" "us @ ms"] by (simp_all add: or_default_def om_inv_def g_def)
  have x: "x \<in> d_tx ` set us" using assms(1) by (auto simp: us_def)
  have e: "filter (\<lambda>d. d_tx d = x) (us @ ms) =
      filter (\<lambda>d. \<not> is_tx_metadata (d_attribute d) \<and> filter_matches flt d) ds @ filter (\<lambda>d. is_tx_metadata (d_attribute d)) ds"
    using x by (simp add: ms_def ds_def conj_ac cong: conj_cong) (simp add: us_def conj_ac)
  have gx: "(x, zs) \<in> set g \<longleftrightarrow> filter (\<lambda>d. d_tx d = x) (us @ ms) = zs" for zs
    unfolding om_get_in_set [OF g(1), symmetric] g(2) using x by auto
  have tx: "b_tx_id (from_store_datoms zs y) = y" for zs y by (simp add: from_store_datoms_eq Let_def)
  have "b \<in> set (group_into_bundles snap flt) \<longleftrightarrow> (\<exists>y zs. (y, zs) \<in> set g \<and> b = from_store_datoms zs y)"
    unfolding bs by auto
  then have "b \<in> set (group_into_bundles snap flt) \<and> b_tx_id b = x \<longleftrightarrow> (\<exists>zs. (x, zs) \<in> set g \<and> b = from_store_datoms zs x)"
    using tx by metis
  then show ?thesis unfolding gx e bd_def by blast
qed


section \<open>A signed transaction in the store\<close>

abbreviation predecessor_ids :: "(bytes \<Rightarrow> bytes) \<Rightarrow> frontier \<Rightarrow> entity_id list" where
  "predecessor_ids b f \<equiv> map (\<lambda>(_, pred). tx_entity_from_txid b pred) (fr_map f)"

definition signed_context :: "txid \<Rightarrow> frontier \<Rightarrow> tx_signature \<times> tx_signer \<Rightarrow> bytes \<Rightarrow> transact_context" where
  "signed_context x f ss fp =
     \<lparr>tc_tx_id = x, tc_frontier = Some f, tc_signing = Some (signature_bytes (fst ss), signer_bytes (snd ss)),
      tc_provenance = Observed, tc_store_fingerprint = fp\<rparr>"

definition signed_metadata :: "(bytes \<Rightarrow> bytes) \<Rightarrow> node_id \<Rightarrow> txid \<Rightarrow> frontier \<Rightarrow> tx_signature \<times> tx_signer \<Rightarrow> datom list" where
  "signed_metadata b n x f ss =
     create_tx_metadata b (tx_entity_from_txid b x) n x @
     create_federation_metadata b (tx_entity_from_txid b x) x (Some f)
       (Some (signature_bytes (fst ss), signer_bytes (snd ss))) Observed"

lemma tx_datoms_signed:
  "tx_datoms b ds n (signed_context x f ss fp) = stamp_datoms ds x @ signed_metadata b n x f ss"
  by (simp add: tx_datoms_def signed_context_def signed_metadata_def Let_def)

lemma signed_metadata_attrs: "d \<in> set (signed_metadata b n x f ss) \<Longrightarrow> is_tx_metadata (d_attribute d) \<and> d_tx d = x"
  by (auto simp: signed_metadata_def create_tx_metadata_def create_federation_metadata_def is_tx_metadata_def
      starts_with_def)

lemma stored_transaction:
  assumes "\<forall>d \<in> set old. d_tx d \<noteq> x" "\<forall>d \<in> set new. d_tx d = x"
  shows "filter (\<lambda>d. d_tx d = x) (sort_dedup (old @ new)) = sort_dedup new"
  using assms by (intro strict_sorted_set_unique) (auto intro: sorted_wrt_filter)

lemma mset_filter_sort_dedup:
  assumes "distinct xs" "\<And>d. d \<in> set new \<Longrightarrow> P d \<longleftrightarrow> d \<in> set xs" "set xs \<subseteq> set new"
  shows "mset (filter P (sort_dedup new)) = mset (xs :: 'a::linorder list)"
proof -
  have "distinct (filter P (sort_dedup new))" using strict_sorted_distinct [of "sort_dedup new"] by simp
  moreover have "set (filter P (sort_dedup new)) = set xs" using assms(2,3) by auto
  ultimately show ?thesis using assms(1) set_eq_iff_mset_eq_distinct by blast
qed

lemma distinct_stamp:
  assumes "distinct ds" "\<forall>d \<in> set ds. d_tx d = p"
  shows "distinct (stamp_datoms ds x)"
  unfolding stamp_datoms_def distinct_map using assms by (auto intro!: inj_onI datom.expand)

lemma predecessors_in_mset: "mset ds = mset ds' \<Longrightarrow> mset (predecessors_in ds) = mset (predecessors_in ds')"
proof -
  have "mset (predecessors_in ds) = (\<Sum>d \<in># filter_mset (\<lambda>d. as_str (d_attribute d) = ''tx/predecessor'') (mset ds).
      (case d_value d of VRef e \<Rightarrow> {#e#} | _ \<Rightarrow> {#}))" for ds
    by (induction ds) (auto simp: predecessors_in_def split: val.splits)
  then show "mset ds = mset ds' \<Longrightarrow> ?thesis" by simp
qed

lemma predecessors_in_signed: "predecessors_in (signed_metadata b n x f ss) = predecessor_ids b f"
proof -
  have "predecessors_in (map (\<lambda>(_, pred). Datom e (Attribute ''tx/predecessor'') (VRef (tx_entity_from_txid b pred)) x Assert) ps) =
      map (\<lambda>(_, pred). tx_entity_from_txid b pred) ps" for e ps
    by (induction ps) (auto simp: predecessors_in_def)
  then show ?thesis
    by (simp add: signed_metadata_def create_tx_metadata_def create_federation_metadata_def predecessors_in_def)
qed

lemma distinct_signed_metadata:
  "distinct (predecessor_ids b f) \<Longrightarrow> distinct (signed_metadata b n x f ss)"
  by (auto simp: signed_metadata_def create_tx_metadata_def create_federation_metadata_def distinct_map inj_on_def)


text \<open>The bundle reassembled from the stored datoms of a signed transaction.\<close>

lemma signed_bundle_stored:
  fixes x :: txid and n :: node_id
  assumes ds: "\<forall>d \<in> set ds. d_tx d = p \<and> \<not> is_tx_metadata (d_attribute d)" "distinct ds"
    and preds: "distinct (predecessor_ids b f)" and len: "length sg = 64" "length pk = 32"
  defines "new \<equiv> stamp_datoms ds x @ signed_metadata b n x f (TxSignature sg, TxSigner pk)"
  defines "D \<equiv> sort_dedup new"
  defines "bd \<equiv> from_store_datoms (filter (\<lambda>d. \<not> is_tx_metadata (d_attribute d)) D @
      filter (\<lambda>d. is_tx_metadata (d_attribute d)) D) x"
  shows "mset (b_datoms bd) = mset (stamp_datoms ds x)" "b_signing bd = Some (TxSignature sg, TxSigner pk)"
    "mset (b_predecessors bd) = mset (predecessor_ids b f)" "b_provenance bd = Some Observed" "b_tx_id bd = x"
    "user_datoms (b_datoms bd) = b_datoms bd"
proof -
  let ?M = "signed_metadata b n x f (TxSignature sg, TxSigner pk)"
  let ?m = "filter (\<lambda>d. is_tx_metadata (d_attribute d)) D"
  have st: "\<not> is_tx_metadata (d_attribute d)" if "d \<in> set (stamp_datoms ds x)" for d
    using that ds(1) by (auto simp: stamp_datoms_def)
  have M: "mset ?m = mset ?M" unfolding D_def
    using distinct_signed_metadata [OF preds] signed_metadata_attrs st by (intro mset_filter_sort_dedup) (auto simp: new_def)
  then have set_m: "set ?m = set ?M" by (metis set_mset_mset)
  have U: "mset (filter (\<lambda>d. \<not> is_tx_metadata (d_attribute d)) D) = mset (stamp_datoms ds x)"
    unfolding D_def
  proof (rule mset_filter_sort_dedup)
    show "distinct (stamp_datoms ds x)" using distinct_stamp [OF ds(2), of p x] ds(1) by blast
    show "(\<not> is_tx_metadata (d_attribute d)) = (d \<in> set (stamp_datoms ds x))" if "d \<in> set new" for d
      using that st [of d] signed_metadata_attrs [of d b n x f "(TxSignature sg, TxSigner pk)"] by (auto simp: new_def)
  qed (simp add: new_def)
  have bd: "bd = (let sl = fold extract_metadata ?m empty_slots
      in \<lparr>b_tx_id = x, b_datoms = filter (\<lambda>d. \<not> is_tx_metadata (d_attribute d)) D,
          b_signing = zip_option (sl_signature sl) (sl_signer sl),
          b_predecessors = sl_predecessors sl, b_provenance = sl_provenance sl\<rparr>)"
    by (simp add: bd_def from_store_datoms_eq user_datoms_def)
  have vals: "(\<exists>d \<in> set ?M. as_str (d_attribute d) = a) \<and> (\<forall>d \<in> set ?M. as_str (d_attribute d) = a \<longrightarrow> d_value d = v)"
    if "(a, v) \<in> {(''tx/signature'', VBytes sg), (''tx/signer'', VBytes pk), (''tx/provenance'', VKeyword ''provenance/observed'')}" for a v
    using that by (auto simp: signed_metadata_def create_tx_metadata_def create_federation_metadata_def)
  have "sl_signature (fold extract_metadata ?m empty_slots) = Some (TxSignature sg)"
    using slots_spec(1) [of ?m sg empty_slots] len(1) vals [of "''tx/signature''" "VBytes sg"] unfolding set_m by simp
  moreover have "sl_signer (fold extract_metadata ?m empty_slots) = Some (TxSigner pk)"
    using slots_spec(2) [of ?m pk empty_slots] len(2) vals [of "''tx/signer''" "VBytes pk"] unfolding set_m by simp
  moreover have "sl_provenance (fold extract_metadata ?m empty_slots) = Some Observed"
    using slots_spec(3) [of ?m "''provenance/observed''" empty_slots] vals [of "''tx/provenance''" "VKeyword ''provenance/observed''"]
    unfolding set_m by (simp add: provenance_from_keyword_def)
  ultimately show "b_signing bd = Some (TxSignature sg, TxSigner pk)" "b_provenance bd = Some Observed" "b_tx_id bd = x"
    by (simp_all add: bd Let_def zip_option_def)
  show "mset (b_predecessors bd) = mset (predecessor_ids b f)"
    using predecessors_in_mset [OF M] by (simp add: bd Let_def slots_spec(4) predecessors_in_signed empty_slots_def)
  show "mset (b_datoms bd) = mset (stamp_datoms ds x)" using U by (simp add: bd Let_def)
  show "user_datoms (b_datoms bd) = b_datoms bd" by (simp add: bd Let_def user_datoms_def)
qed

lemma signed_preimage_stored:
  assumes "mset us = mset (stamp_datoms ds x)" "user_datoms us = us" "mset ps = mset qs"
    "\<forall>d \<in> set ds. d_tx d = p \<and> \<not> is_tx_metadata (d_attribute d)"
  shows "signing_preimage \<lparr>sc_datoms = us, sc_tx_id = x, sc_predecessors = ps, sc_fingerprint = fp\<rparr> pk =
    signing_preimage \<lparr>sc_datoms = ds, sc_tx_id = x, sc_predecessors = qs, sc_fingerprint = fp\<rparr> pk"
proof -
  have "map signing_fields (sort us) = map signing_fields (sort ds)"
    using sort_mset_cong [OF assms(1)] signing_fields_stamped [of ds p x] assms(4) by simp
  moreover have "user_datoms ds = ds" using assms(4) by (simp add: user_datoms_def filter_id_conv)
  ultimately show ?thesis using assms(2) sort_mset_cong [OF assms(3)] by (simp add: signing_preimage_def)
qed

section \<open>Properties\<close>

text \<open>C18 A signed transaction can be verified from the store. When a transaction signed over its datoms,
  its transaction id, the frontier's predecessors and the store fingerprint is applied, the transport
  returns for its transaction id exactly one bundle; the bundle holds the transaction's stamped datoms,
  the signature and signer, the predecessors and the provenance, and its signature verifies against the
  fingerprint the store had before. The hypotheses on Ed25519 are that a signature verifies under its own
  key and has 64 bytes (a key 32); the transaction has pairwise different datoms, none in the \<open>tx/\<close>
  namespace, the transaction id is new, and the predecessors' entity ids are pairwise different.\<close>

theorem signed_transaction_verifies:
  assumes "store_inv b s" "\<forall>d \<in> set (datoms s). d_tx d \<noteq> x"
    and ds: "\<forall>d \<in> set (into_datoms t). d_tx d = placeholder_tx \<and> \<not> is_tx_metadata (d_attribute d)" "distinct (into_datoms t)"
    and preds: "distinct (map (\<lambda>(_, pred). tx_entity_from_txid b pred) (fr_map f))"
    and ed: "ed_key_valid ed (ed_public ed sk)" "\<And>m. ed_verify ed (ed_public ed sk) m (ed_sign ed sk m)"
      "\<And>m. length (ed_sign ed sk m) = 64" "length (ed_public ed sk) = 32"
    and sign: "sign_transaction ed b \<lparr>sc_datoms = into_datoms t, sc_tx_id = x,
        sc_predecessors = map (\<lambda>(_, pred). tx_entity_from_txid b pred) (fr_map f), sc_fingerprint = fp\<rparr> sk = (sig, signer)"
    and tr: "transact b order t (signed_context x f (sig, signer) fp) s = (s', Inr rc)"
  shows "\<exists>bd. (\<forall>c. c \<in> set (group_into_bundles (snapshot s') FAll) \<and> b_tx_id c = x \<longleftrightarrow> c = bd) \<and>
    mset (b_datoms bd) = mset (stamp_datoms (into_datoms t) x) \<and> b_signing bd = Some (sig, signer) \<and>
    mset (b_predecessors bd) = mset (map (\<lambda>(_, pred). tx_entity_from_txid b pred) (fr_map f)) \<and>
    b_provenance bd = Some Observed \<and>
    verify_signature ed b \<lparr>sc_datoms = b_datoms bd, sc_tx_id = x, sc_predecessors = b_predecessors bd,
      sc_fingerprint = fp\<rparr> sig signer = Inr ()"
proof -
  define sg where "sg = signature_bytes sig"
  define pk where "pk = signer_bytes signer"
  have ss: "sig = TxSignature sg" "signer = TxSigner pk" by (simp_all add: sg_def pk_def)
  have pk: "pk = ed_public ed sk" using sign ss by (auto simp: sign_transaction_def Let_def)
  have sg: "sg = ed_sign ed sk (signing_message b \<lparr>sc_datoms = into_datoms t, sc_tx_id = x,
      sc_predecessors = predecessor_ids b f, sc_fingerprint = fp\<rparr> pk)"
    using sign ss pk by (auto simp: sign_transaction_def Let_def)
  have len: "length sg = 64" "length pk = 32" using ed sg pk by simp_all
  define new where "new = stamp_datoms (into_datoms t) x @ signed_metadata b (committed_node t) x f (TxSignature sg, TxSigner pk)"
  have s': "into_datoms t \<noteq> []" "datoms s' = sort_dedup (datoms s @ new)"
    using tr by (auto simp: transact_eq [OF assms(1)] tx_datoms_signed Let_def case_prod_unfold new_def ss split: if_splits sum.splits)
  have tx: "\<forall>d \<in> set new. d_tx d = x" using signed_metadata_attrs by (auto simp: new_def stamp_datoms_def)
  have sn: "filter (\<lambda>d. d_tx d = x) (sn_datoms (snapshot s')) = sort_dedup new"
    using stored_transaction [OF assms(2) tx] s'(2) by (simp add: snapshot_def datoms_def)
  obtain d where "d \<in> set (into_datoms t)" using s'(1) by (cases "into_datoms t") auto
  then have "\<exists>d \<in> set new. d_tx d = x \<and> \<not> is_tx_metadata (d_attribute d) \<and> filter_matches FAll d"
    using ds(1) by (intro bexI [of _ "Datom (d_entity d) (d_attribute d) (d_value d) x (d_op d)"]) (auto simp: new_def stamp_datoms_def)
  then have ex: "\<exists>d \<in> set (sn_datoms (snapshot s')). d_tx d = x \<and> \<not> is_tx_metadata (d_attribute d) \<and> filter_matches FAll d"
    using s'(2) by (auto simp: snapshot_def datoms_def)
  define bd where "bd = from_store_datoms (filter (\<lambda>d. \<not> is_tx_metadata (d_attribute d)) (sort_dedup new) @
      filter (\<lambda>d. is_tx_metadata (d_attribute d)) (sort_dedup new)) x"
  note B = signed_bundle_stored [OF ds preds len, of x "committed_node t", folded new_def, folded bd_def]
  have "c \<in> set (group_into_bundles (snapshot s') FAll) \<and> b_tx_id c = x \<longleftrightarrow> c = bd" for c
    using bundle_of_tx [OF ex, of c] by (simp add: sn bd_def)
  moreover have "verify_signature ed b \<lparr>sc_datoms = b_datoms bd, sc_tx_id = x, sc_predecessors = b_predecessors bd,
      sc_fingerprint = fp\<rparr> sig signer = Inr ()"
    using signed_preimage_stored [OF B(1) B(6) B(3) ds(1), of fp pk] ed(1,2) sg pk
    by (simp add: verify_signature_def signing_message_preimage Let_def ss)
  ultimately show ?thesis using B ss by blast
qed


theorem signed_transaction_verifies_witness:
  "\<exists>ed s' rc bd sig signer. sign_transaction ed id \<lparr>sc_datoms = into_datoms demo_tx, sc_tx_id = with_node 1 0 zero_node,
       sc_predecessors = [], sc_fingerprint = []\<rparr> [] = (sig, signer) \<and>
     transact id (\<lambda>es. es) demo_tx (signed_context (with_node 1 0 zero_node) frontier_new (sig, signer) []) (genesis id) = (s', Inr rc) \<and>
     bd \<in> set (group_into_bundles (snapshot s') FAll) \<and> b_signing bd = Some (sig, signer)"
proof -
  let ?x = "with_node 1 0 zero_node"
  let ?ed = "\<lparr>ed_public = \<lambda>_. replicate 32 1, ed_sign = \<lambda>_ _. replicate 64 2, ed_key_valid = \<lambda>_. True,
    ed_verify = \<lambda>_ _ sg. sg = replicate 64 2\<rparr>"
  have e: "epoch (genesis id) = 0" "datoms (genesis id) = []" by (simp_all add: genesis_def datoms_def sort_dedup_def)
  have f: "fr_map frontier_new = []" by (simp add: frontier_new_def)
  obtain sig signer where ss: "sign_transaction ?ed id \<lparr>sc_datoms = into_datoms demo_tx, sc_tx_id = ?x,
       sc_predecessors = [], sc_fingerprint = []\<rparr> [] = (sig, signer)" by fastforce
  obtain s' rc where t: "transact id (\<lambda>es. es) demo_tx (signed_context ?x frontier_new (sig, signer) []) (genesis id) = (s', Inr rc)"
    using demo_transact [OF store_inv_genesis e(1)] by blast
  have ds: "\<forall>d \<in> set (into_datoms demo_tx). d_tx d = placeholder_tx \<and> \<not> is_tx_metadata (d_attribute d)" "distinct (into_datoms demo_tx)"
    by (simp_all add: demo_tx_def is_tx_metadata_def starts_with_def)
  from signed_transaction_verifies [OF store_inv_genesis _ ds _ _ _ _ _ _ t, of ?ed "[]"] e f ss
  obtain bd where "bd \<in> set (group_into_bundles (snapshot s') FAll)" "b_signing bd = Some (sig, signer)" by auto
  with ss t show ?thesis by blast
qed







lemma le_consts:
  "to_le_bytes 8 (1 :: u64) = [1, 0, 0, 0, 0, 0, 0, 0]" "to_le_bytes 8 (0 :: u64) = [0, 0, 0, 0, 0, 0, 0, 0]"
  "to_le_bytes 4 (0 :: u32) = [0, 0, 0, 0]" "to_le_bytes 4 (18 :: u32) = [18, 0, 0, 0]" "to_le_bytes 2 (6 :: u16) = [6, 0]"
  by code_simp+

text \<open>Two transactions with one signed message. The bytes of the last datom of the first transaction and
  its transaction id are the transaction id and two predecessors of the second.\<close>

definition doc_datom :: "bytes \<Rightarrow> datom" where
  "doc_datom e = Datom (EntityId e) (Attribute ''db/doc'') (VString (replicate 18 CHR ''a'')) placeholder_tx Assert"

definition long_components :: "bytes \<Rightarrow> signing_components" where
  "long_components fp =
     \<lparr>sc_datoms = [doc_datom (replicate 32 0), doc_datom (replicate 31 0 @ [1])], sc_tx_id = with_node 1 0 zero_node,
      sc_predecessors = [], sc_fingerprint = fp\<rparr>"

definition short_components :: "bytes \<Rightarrow> signing_components" where
  "short_components fp =
     \<lparr>sc_datoms = [doc_datom (replicate 32 0)], sc_tx_id = with_node 0 0 zero_node,
      sc_predecessors = [EntityId ([0, 0, 0, 1, 6, 0] @ as_bytes ''db/doc'' @ [2, 18, 0, 0, 0] @ replicate 15 97),
                         EntityId ([97, 97, 97, 0] @ tx_id_canonical_bytes (with_node 1 0 zero_node))],
      sc_fingerprint = fp\<rparr>"

text \<open>A signature does not bind the number of datoms: there are two different transactions, of two datoms
  and of one, with well-formed datoms and entity ids, such that every signature that verifies for one
  verifies for the other, whatever the hash, the keys and the fingerprint.\<close>

theorem signing_message_ambiguous:
  "verify_signature ed b (long_components fp) sig signer = verify_signature ed b (short_components fp) sig signer \<and>
   map statement (user_datoms (sc_datoms (long_components fp))) \<noteq> map statement (user_datoms (sc_datoms (short_components fp))) \<and>
   list_all datom_wf (sc_datoms (long_components fp) @ sc_datoms (short_components fp)) \<and>
   list_all entity_wf (sc_predecessors (short_components fp))"
proof -
  note d = long_components_def short_components_def doc_datom_def
  have u: "user_datoms [doc_datom e] = [doc_datom e]" "user_datoms [doc_datom e, doc_datom e'] = [doc_datom e, doc_datom e']" for e e'
    by (simp_all add: doc_datom_def user_datoms_def is_tx_metadata_def starts_with_def)
  have sort1: "sort [y] = [y]" for y :: datom by simp
  have s1: "sort [doc_datom (replicate 32 0), doc_datom (replicate 31 0 @ [1])] = [doc_datom (replicate 32 0), doc_datom (replicate 31 0 @ [1])]"
    by code_simp
  have s2: "sort (sc_predecessors (short_components fp)) = sc_predecessors (short_components fp)"
  proof -
    have "sort [EntityId ([0, 0, 0, 1, 6, 0] @ as_bytes ''db/doc'' @ [2, 18, 0, 0, 0] @ replicate 15 97),
        EntityId ([97, 97, 97, 0] @ tx_id_canonical_bytes (with_node 1 0 zero_node))] =
      [EntityId ([0, 0, 0, 1, 6, 0] @ as_bytes ''db/doc'' @ [2, 18, 0, 0, 0] @ replicate 15 97),
        EntityId ([97, 97, 97, 0] @ tx_id_canonical_bytes (with_node 1 0 zero_node))]" by code_simp
    then show ?thesis by (simp add: short_components_def)
  qed
  have f: "signing_fields (doc_datom (replicate 31 0 @ [1])) @ tx_id_canonical_bytes (with_node 1 0 zero_node) =
      tx_id_canonical_bytes (with_node 0 0 zero_node) @ concat (map entity_bytes
       [EntityId ([0, 0, 0, 1, 6, 0] @ as_bytes ''db/doc'' @ [2, 18, 0, 0, 0] @ replicate 15 97),
        EntityId ([97, 97, 97, 0] @ tx_id_canonical_bytes (with_node 1 0 zero_node))])"
    by (simp add: signing_fields_def doc_datom_def tx_id_canonical_bytes_def with_node_def zero_node_def
        canonical_attr_bytes_def attr_byte_len_u16_def push_tag_u32_bytes_def op_byte_def sat_usize_min u16_max_def u32_max_def
        as_bytes_def le_consts Let_def) (simp add: numeral_eq_Suc of_char_def)
  have "signing_preimage (long_components fp) pk = signing_preimage (short_components fp) pk" for pk
    unfolding signing_preimage_def s2 using f by (simp add: long_components_def short_components_def u s1 sort1 del: sort_key_simps)
  then have "verify_signature ed b (long_components fp) sig signer = verify_signature ed b (short_components fp) sig signer"
    by (simp add: verify_signature_def signing_message_preimage)
  moreover have "list_all datom_wf (sc_datoms (long_components fp) @ sc_datoms (short_components fp))"
    by (simp add: d datom_wf_def entity_wf_def attr_wf_def txid_wf_def node_wf_def placeholder_tx_def with_node_def zero_node_def
        str_wf_def u16_max_def u32_max_def) code_simp
  ultimately show ?thesis
    by (simp add: d user_datoms_def is_tx_metadata_def starts_with_def entity_wf_def tx_id_canonical_bytes_def with_node_def zero_node_def)
qed

text \<open>A transaction with a repeated datom cannot be verified from the store: the signature covers the
  repetition, the store keeps one copy, and the message over one copy is a different byte string.\<close>

theorem repeated_datom_unverifiable:
  assumes "\<not> is_tx_metadata (d_attribute d)"
  shows "signing_preimage \<lparr>sc_datoms = [d, d], sc_tx_id = x, sc_predecessors = ps, sc_fingerprint = fp\<rparr> pk \<noteq>
      signing_preimage \<lparr>sc_datoms = stamp_datoms [d] x, sc_tx_id = x, sc_predecessors = ps, sc_fingerprint = fp\<rparr> pk \<and>
    set (stamp_datoms [d, d] x) = set (stamp_datoms [d] x)"
proof -
  have "length (signing_preimage \<lparr>sc_datoms = [d, d], sc_tx_id = x, sc_predecessors = ps, sc_fingerprint = fp\<rparr> pk) >
      length (signing_preimage \<lparr>sc_datoms = stamp_datoms [d] x, sc_tx_id = x, sc_predecessors = ps, sc_fingerprint = fp\<rparr> pk)"
    using assms by (simp add: signing_preimage_def user_datoms_def stamp_datoms_def signing_fields_def)
  then show ?thesis by (auto simp: stamp_datoms_def)
qed

end
