(* ===== verification/Observers.thy ===== *)
theory Observers
  imports Replication
begin

text \<open>
  Observers of committed transactions and the write limiter (\<open>ferratomic-core/src/observer.rs\<close>,
  \<open>backpressure.rs\<close>).

  An observer is foreign code behind a trait object. The model keeps, for each registered observer, the
  calls the broadcast made on it, in order; the broadcast reads nothing back from an observer. Observers are notified after the write lock is
  released, so a run keeps a queue of commits that are still to be notified, and a notification may be skipped.
\<close>

section \<open>Broadcast (observer.rs)\<close>

definition DEFAULT_OBSERVER_BUFFER :: nat where "DEFAULT_OBSERVER_BUFFER = 1024"

datatype observer_call = OnCommit u64 "datom list" | OnCatchup u64 "datom list"

record broadcast_entry =
  be_epoch :: u64
  be_datoms :: "datom list"

record registered_observer =
  ro_calls :: "observer_call list"
  last_seen_epoch :: u64
  ro_filter :: "datom_filter option"

record observer_broadcast =
  ob_observers :: "registered_observer list"
  recent :: "broadcast_entry list"
  max_buffer :: nat

definition broadcast_new :: "nat \<Rightarrow> observer_broadcast" where
  "broadcast_new mb = \<lparr>ob_observers = [], recent = [], max_buffer = max mb 1\<rparr>"

definition apply_filter :: "datom_filter option \<Rightarrow> datom list \<Rightarrow> datom list" where
  "apply_filter flt ds = (case flt of None \<Rightarrow> ds | Some f \<Rightarrow> filter (filter_matches f) ds)"

definition register_impl :: "datom_filter option \<Rightarrow> store \<Rightarrow> observer_broadcast \<Rightarrow> observer_broadcast" where
  "register_impl flt s ob =
     (let current_epoch = epoch s;
          calls = (if current_epoch > 0 then [OnCatchup 0 (apply_filter flt (datoms s))] else [])
      in ob\<lparr>ob_observers := ob_observers ob @
             [\<lparr>ro_calls = calls, last_seen_epoch = current_epoch, ro_filter = flt\<rparr>]\<rparr>)"

definition register :: "store \<Rightarrow> observer_broadcast \<Rightarrow> observer_broadcast" where
  "register s ob = register_impl None s ob"

definition register_filtered :: "datom_filter \<Rightarrow> store \<Rightarrow> observer_broadcast \<Rightarrow> observer_broadcast" where
  "register_filtered f s ob = register_impl (Some f) s ob"

definition saturating_succ :: "u64 \<Rightarrow> u64" where
  "saturating_succ e = (if e = - 1 then e else e + 1)"

definition buffered_delta_since :: "broadcast_entry list \<Rightarrow> u64 \<Rightarrow> datom list option" where
  "buffered_delta_since rs from_epoch =
     (case rs of
        [] \<Rightarrow> None
      | r # _ \<Rightarrow>
          (if be_epoch r > saturating_succ from_epoch then None
           else Some (concat (map be_datoms (filter (\<lambda>e. be_epoch e > from_epoch) rs)))))"

definition full_store_catchup :: "store \<Rightarrow> datom list" where
  "full_store_catchup s = datoms s"

text \<open>One observer of the delivery loop. The source adds one to \<open>last_seen_epoch\<close> unchecked; an observer at the
  maximal epoch was skipped by the test before, so the sum cannot overflow in any build.\<close>

definition deliver :: "broadcast_entry list \<Rightarrow> u64 \<Rightarrow> datom list \<Rightarrow> store \<Rightarrow> registered_observer \<Rightarrow> registered_observer" where
  "deliver rs ep ds s ro =
     (if ep \<le> last_seen_epoch ro then ro
      else (let call =
              (if last_seen_epoch ro + 1 < ep then
                 (let catchup = (case buffered_delta_since rs (last_seen_epoch ro) of
                                   Some delta \<Rightarrow> delta
                                 | None \<Rightarrow> full_store_catchup s)
                  in OnCatchup (last_seen_epoch ro) (apply_filter (ro_filter ro) catchup))
               else OnCommit ep (apply_filter (ro_filter ro) ds))
            in ro\<lparr>ro_calls := ro_calls ro @ [call], last_seen_epoch := ep\<rparr>))"

definition publish :: "u64 \<Rightarrow> datom list \<Rightarrow> store \<Rightarrow> observer_broadcast \<Rightarrow> observer_broadcast" where
  "publish ep ds s ob =
     (let rs = recent ob @ [\<lparr>be_epoch = ep, be_datoms = ds\<rparr>];
          rs = drop (length rs - max_buffer ob) rs
      in ob\<lparr>recent := rs, ob_observers := map (deliver rs ep ds s) (ob_observers ob)\<rparr>)"

text \<open>The pull-based observer: it remembers the largest epoch it has seen.\<close>

record epoch_observer =
  eo_node :: node_id
  last_epoch :: u64

definition observer_new :: "node_id \<Rightarrow> epoch_observer" where
  "observer_new n = \<lparr>eo_node = n, last_epoch = 0\<rparr>"

definition observe :: "store \<Rightarrow> epoch_observer \<Rightarrow> epoch_observer \<times> snapshot" where
  "observe s eo = (let snap = snapshot s in (eo\<lparr>last_epoch := max (last_epoch eo) (sn_epoch snap)\<rparr>, snap))"

section \<open>The write limiter (backpressure.rs)\<close>

record write_limiter =
  wl_active :: nat
  wl_max :: nat

definition DEFAULT_MAX_CONCURRENT_WRITES :: nat where "DEFAULT_MAX_CONCURRENT_WRITES = 64"

definition limiter_new :: "nat \<Rightarrow> write_limiter" where
  "limiter_new mx = \<lparr>wl_active = 0, wl_max = mx\<rparr>"

text \<open>\<open>fetch_add\<close> and \<open>fetch_sub\<close> are single atomic steps; other threads may run between the two halves of
  \<open>try_acquire\<close>.\<close>

definition acquire_add :: "write_limiter \<Rightarrow> write_limiter \<times> nat" where
  "acquire_add wl = (wl\<lparr>wl_active := wl_active wl + 1\<rparr>, wl_active wl)"

definition release_sub :: "write_limiter \<Rightarrow> write_limiter" where
  "release_sub wl = wl\<lparr>wl_active := wl_active wl - 1\<rparr>"

definition try_acquire :: "write_limiter \<Rightarrow> write_limiter \<times> bool" where
  "try_acquire wl =
     (let (wl', prev) = acquire_add wl
      in if prev \<ge> wl_max wl' then (release_sub wl', False) else (wl', True))"


section \<open>In-order delivery\<close>

fun call_epoch :: "observer_call \<Rightarrow> u64" where
  "call_epoch (OnCommit ep _) = ep"
| "call_epoch (OnCatchup from _) = from"

fun call_datoms :: "observer_call \<Rightarrow> datom list" where
  "call_datoms (OnCommit _ ds) = ds"
| "call_datoms (OnCatchup _ ds) = ds"

definition delivered :: "registered_observer \<Rightarrow> datom set" where
  "delivered ro = (\<Union>c \<in> set (ro_calls ro). set (call_datoms c))"

definition accepts :: "datom_filter option \<Rightarrow> datom \<Rightarrow> bool" where
  "accepts flt d = (case flt of None \<Rightarrow> True | Some f \<Rightarrow> filter_matches f d)"

lemma set_apply_filter [simp]: "set (apply_filter flt ds) = {d \<in> set ds. accepts flt d}"
  by (auto simp: apply_filter_def accepts_def split: option.splits)

text \<open>A run of the broadcast. A commit changes the store and is notified later, after the write lock is released; a
  batch is one commit, with its last epoch. The notification loads the store before it takes the observers
  mutex, so the store it passes is one between its own commit and the current one. A notification may not
  happen at all: a transaction that fails after its publication sends none, nor does one that finds the
  observers mutex poisoned. Notifications are taken here in the order of the commits. The indices are the
  broadcast, the epoch and datoms of the current store, the commits not yet notified, each with the datoms of
  the store it published, and the datoms of the commits that were never notified. A store at epoch 0 starts
  without datoms.\<close>

record pending_commit =
  pn_epoch :: u64
  pn_datoms :: "datom list"
  pn_store :: "datom set"

inductive broadcast_run ::
  "observer_broadcast \<Rightarrow> u64 \<Rightarrow> datom set \<Rightarrow> pending_commit list \<Rightarrow> datom set \<Rightarrow> bool" where
  run_new: "(ep = 0 \<Longrightarrow> D = {}) \<Longrightarrow> broadcast_run (broadcast_new mb) ep D [] {}"
| run_register: "broadcast_run ob (epoch s) (set (datoms s)) q M \<Longrightarrow>
     broadcast_run (register_impl flt s ob) (epoch s) (set (datoms s)) q M"
| run_commit: "broadcast_run ob ep D q M \<Longrightarrow> ep < ep' \<Longrightarrow>
     broadcast_run ob ep' (D \<union> set ds) (q @ [\<lparr>pn_epoch = ep', pn_datoms = ds, pn_store = D \<union> set ds\<rparr>]) M"
| run_publish: "broadcast_run ob ep D (n # q) M \<Longrightarrow> pn_store n \<subseteq> set (datoms s) \<Longrightarrow> set (datoms s) \<subseteq> D \<Longrightarrow>
     broadcast_run (publish (pn_epoch n) (pn_datoms n) s ob) ep D q M"
| run_skip: "broadcast_run ob ep D (n # q) M \<Longrightarrow> broadcast_run ob ep D q (M \<union> set (pn_datoms n))"

definition observer_inv ::
  "u64 \<Rightarrow> datom set \<Rightarrow> pending_commit list \<Rightarrow> datom set \<Rightarrow> registered_observer \<Rightarrow> bool" where
  "observer_inv ep D q M ro \<longleftrightarrow>
     last_seen_epoch ro \<le> ep \<and> delivered ro \<subseteq> {d \<in> D. accepts (ro_filter ro) d} \<and>
     {d \<in> D. accepts (ro_filter ro) d} \<subseteq> delivered ro \<union> M \<union> (\<Union>n \<in> set q. set (pn_datoms n)) \<and>
     (\<forall>n \<in> set q. pn_epoch n \<le> last_seen_epoch ro \<longrightarrow> {d \<in> set (pn_datoms n). accepts (ro_filter ro) d} \<subseteq> delivered ro) \<and>
     sorted (map call_epoch (ro_calls ro)) \<and> (\<forall>c \<in> set (ro_calls ro). call_epoch c \<le> last_seen_epoch ro)"

definition queue_inv :: "u64 \<Rightarrow> datom set \<Rightarrow> pending_commit list \<Rightarrow> bool" where
  "queue_inv ep D q \<longleftrightarrow>
     sorted_wrt (<) (map pn_epoch q) \<and>
     (\<forall>n \<in> set q. 0 < pn_epoch n \<and> pn_epoch n \<le> ep \<and> set (pn_datoms n) \<subseteq> pn_store n \<and> pn_store n \<subseteq> D)"

text \<open>One delivery: the datoms of the commit arrive, nothing that is not in the store does, and the whole store
  does when the observer is behind and the buffer does not reach back to it.\<close>

lemma deliver_call:
  assumes "last_seen_epoch ro < e" "\<lparr>be_epoch = e, be_datoms = ds\<rparr> \<in> set rs" "\<forall>r \<in> set rs. set (be_datoms r) \<subseteq> D"
    "set ds \<subseteq> set (datoms s)" "set (datoms s) \<subseteq> D"
  obtains c where "deliver rs e ds s ro = ro\<lparr>ro_calls := ro_calls ro @ [c], last_seen_epoch := e\<rparr>"
    "call_epoch c \<in> {last_seen_epoch ro, e}" "set (call_datoms c) \<subseteq> {d \<in> D. accepts (ro_filter ro) d}"
    "{d \<in> set ds. accepts (ro_filter ro) d} \<subseteq> set (call_datoms c)"
    "last_seen_epoch ro + 1 < e \<Longrightarrow> buffered_delta_since rs (last_seen_epoch ro) = None \<Longrightarrow>
       set (call_datoms c) = {d \<in> set (datoms s). accepts (ro_filter ro) d}"
proof -
  let ?catchup = "case buffered_delta_since rs (last_seen_epoch ro) of Some delta \<Rightarrow> delta | None \<Rightarrow> full_store_catchup s"
  let ?c = "if last_seen_epoch ro + 1 < e then OnCatchup (last_seen_epoch ro) (apply_filter (ro_filter ro) ?catchup)
    else OnCommit e (apply_filter (ro_filter ro) ds)"
  have delta: "set ds \<subseteq> set ?catchup \<and> set ?catchup \<subseteq> D"
  proof (cases "buffered_delta_since rs (last_seen_epoch ro)")
    case (Some delta)
    then have "set delta = (\<Union>r \<in> {r \<in> set rs. be_epoch r > last_seen_epoch ro}. set (be_datoms r))"
      by (auto simp: buffered_delta_since_def split: list.splits if_splits)
    then show ?thesis using Some assms(1-3) by fastforce
  qed (use assms(4,5) in \<open>simp add: full_store_catchup_def\<close>)
  show thesis
  proof (rule that [of ?c])
    show "deliver rs e ds s ro = ro\<lparr>ro_calls := ro_calls ro @ [?c], last_seen_epoch := e\<rparr>"
      using assms(1) by (simp add: deliver_def Let_def)
    show "set (call_datoms ?c) \<subseteq> {d \<in> D. accepts (ro_filter ro) d}" using delta assms(4,5) by auto
    show "{d \<in> set ds. accepts (ro_filter ro) d} \<subseteq> set (call_datoms ?c)" using delta by auto
  qed (simp_all add: full_store_catchup_def)
qed

lemma deliver_inv:
  assumes inv: "observer_inv ep D (n # q) M ro" "queue_inv ep D (n # q)"
    and rs: "\<lparr>be_epoch = pn_epoch n, be_datoms = pn_datoms n\<rparr> \<in> set rs" "\<forall>r \<in> set rs. set (be_datoms r) \<subseteq> D"
    and s: "pn_store n \<subseteq> set (datoms s)" "set (datoms s) \<subseteq> D"
  shows "observer_inv ep D q M (deliver rs (pn_epoch n) (pn_datoms n) s ro)"
proof (cases "pn_epoch n \<le> last_seen_epoch ro")
  case True
  then have "deliver rs (pn_epoch n) (pn_datoms n) s ro = ro" by (simp add: deliver_def)
  moreover have "{d \<in> set (pn_datoms n). accepts (ro_filter ro) d} \<subseteq> delivered ro"
    using inv(1) True by (simp add: observer_inv_def)
  ultimately show ?thesis using inv(1) by (auto simp: observer_inv_def)
next
  case False
  define e ds where n: "e = pn_epoch n" "ds = pn_datoms n"
  define ro' where "ro' = deliver rs e ds s ro"
  note Q = inv(2) [unfolded queue_inv_def] and I = inv(1) [unfolded observer_inv_def]
  have ds: "set ds \<subseteq> set (datoms s)" "e \<le> ep" using Q s n by auto
  have lt: "last_seen_epoch ro < e" using False n by simp
  obtain c where c: "ro' = ro\<lparr>ro_calls := ro_calls ro @ [c], last_seen_epoch := e\<rparr>"
    "call_epoch c \<in> {last_seen_epoch ro, e}" "set (call_datoms c) \<subseteq> {d \<in> D. accepts (ro_filter ro) d}"
    "{d \<in> set ds. accepts (ro_filter ro) d} \<subseteq> set (call_datoms c)"
    unfolding ro'_def by (rule deliver_call [OF lt rs [folded n] ds(1) s(2)]) blast
  have ce: "\<forall>k \<in> set (ro_calls ro). call_epoch k \<le> call_epoch c" "call_epoch c \<le> e" "\<forall>k \<in> set (ro_calls ro). call_epoch k \<le> e"
    using I c(2) lt by (auto intro: order_trans less_imp_le)
  have dl: "delivered ro' = delivered ro \<union> set (call_datoms c)" unfolding c(1) by (auto simp: delivered_def)
  have fl: "ro_filter ro' = ro_filter ro" "last_seen_epoch ro' = e" by (simp_all add: c(1))
  have "\<forall>m \<in> set q. \<not> pn_epoch m \<le> e" using Q n by (auto simp: not_le)
  moreover have "{d \<in> D. accepts (ro_filter ro) d} \<subseteq> delivered ro' \<union> M \<union> (\<Union>n \<in> set q. set (pn_datoms n))"
    using I c(4) n unfolding dl by auto
  moreover have "delivered ro' \<subseteq> {d \<in> D. accepts (ro_filter ro) d}" using I c(3) unfolding dl by blast
  moreover have "sorted (map call_epoch (ro_calls ro'))" "\<forall>c \<in> set (ro_calls ro'). call_epoch c \<le> e"
    using I ce by (simp_all add: c(1) sorted_append)
  ultimately show ?thesis unfolding n [symmetric] ro'_def [symmetric] using ds(2) by (simp add: observer_inv_def fl)
qed

lemma broadcast_run_inv:
  "broadcast_run ob ep D q M \<Longrightarrow>
     (ep = 0 \<longrightarrow> D = {}) \<and> 1 \<le> max_buffer ob \<and> length (recent ob) \<le> max_buffer ob \<and> queue_inv ep D q \<and>
     (\<forall>r \<in> set (recent ob). set (be_datoms r) \<subseteq> D) \<and> (\<forall>ro \<in> set (ob_observers ob). observer_inv ep D q M ro)"
proof (induction rule: broadcast_run.induct)
  case (run_new ep D mb)
  then show ?case by (simp add: broadcast_new_def queue_inv_def)
next
  case (run_register ob s q M flt)
  let ?ro = "\<lparr>ro_calls = (if epoch s > 0 then [OnCatchup 0 (apply_filter flt (datoms s))] else []),
    last_seen_epoch = epoch s, ro_filter = flt\<rparr>"
  have dl: "delivered ?ro = {d \<in> set (datoms s). accepts flt d}" using run_register.IH by (auto simp: delivered_def word_gt_0)
  have "set (pn_datoms n) \<subseteq> set (datoms s)" if "n \<in> set q" for n
    using run_register.IH that unfolding queue_inv_def by blast
  then have "observer_inv (epoch s) (set (datoms s)) q M ?ro" unfolding observer_inv_def dl by auto
  with run_register.IH show ?case by (auto simp: register_impl_def Let_def)
next
  case (run_commit ob ep D q M ep' ds)
  let ?n = "\<lparr>pn_epoch = ep', pn_datoms = ds, pn_store = D \<union> set ds\<rparr>"
  have Q: "queue_inv ep D q" using run_commit.IH by blast
  have "pn_epoch m < ep' \<and> 0 < pn_epoch m \<and> set (pn_datoms m) \<subseteq> pn_store m \<and> pn_store m \<subseteq> D \<union> set ds" if "m \<in> set q" for m
    using Q that run_commit.hyps(2) unfolding queue_inv_def by (meson le_less_trans le_supI1)
  moreover have "0 < ep'" using run_commit.hyps(2) by (auto simp: word_gt_0)
  ultimately have "queue_inv ep' (D \<union> set ds) (q @ [?n])"
    using Q unfolding queue_inv_def by (auto simp: sorted_wrt_append less_imp_le)
  moreover have "observer_inv ep' (D \<union> set ds) (q @ [?n]) M ro" if "ro \<in> set (ob_observers ob)" for ro
  proof -
    have I: "observer_inv ep D q M ro" using run_commit.IH that by blast
    then have "last_seen_epoch ro < ep'" using run_commit.hyps(2) by (auto simp: observer_inv_def)
    with I show ?thesis by (auto simp: observer_inv_def)
  qed
  ultimately show ?case using run_commit.IH run_commit.hyps(2) by auto
next
  case (run_publish ob ep D n q M s)
  let ?r = "\<lparr>be_epoch = pn_epoch n, be_datoms = pn_datoms n\<rparr>"
  let ?rs = "drop (length (recent ob @ [?r]) - max_buffer ob) (recent ob @ [?r])"
  have mb: "1 \<le> max_buffer ob" and qi: "queue_inv ep D (n # q)" using run_publish.IH by simp_all
  have in_rs: "?r \<in> set ?rs" using mb by (simp add: drop_append)
  have "set ?rs \<subseteq> insert ?r (set (recent ob))"
    using set_drop_subset [of "length (recent ob @ [?r]) - max_buffer ob" "recent ob @ [?r]"] by auto
  moreover have "set (be_datoms ?r) \<subseteq> D" using qi by (auto simp: queue_inv_def)
  ultimately have sub: "\<forall>r \<in> set ?rs. set (be_datoms r) \<subseteq> D" using run_publish.IH by blast
  have "observer_inv ep D q M (deliver ?rs (pn_epoch n) (pn_datoms n) s ro)" if "ro \<in> set (ob_observers ob)" for ro
    using that run_publish.IH by (intro deliver_inv [OF _ qi in_rs sub run_publish.hyps(2,3)]) blast
  moreover have "publish (pn_epoch n) (pn_datoms n) s ob =
      ob\<lparr>recent := ?rs, ob_observers := map (deliver ?rs (pn_epoch n) (pn_datoms n) s) (ob_observers ob)\<rparr>"
    unfolding publish_def Let_def by (rule refl)
  moreover have "queue_inv ep D q" using qi by (simp add: queue_inv_def)
  moreover have "length ?rs \<le> max_buffer ob" using mb unfolding length_drop by arith
  ultimately show ?case using mb sub run_publish.IH by simp
next
  case (run_skip ob ep D n q M)
  then have "queue_inv ep D q" by (simp add: queue_inv_def)
  moreover have "observer_inv ep D q (M \<union> set (pn_datoms n)) ro" if "ro \<in> set (ob_observers ob)" for ro
  proof -
    have "observer_inv ep D (n # q) M ro" using run_skip.IH that by blast
    then show ?thesis unfolding observer_inv_def by auto
  qed
  ultimately show ?case using run_skip.IH by blast
qed

section \<open>The limiter under interleaving\<close>

text \<open>Threads interleave at the atomic steps: a refused thread gives its increment back later. The indices
  are the limiter, the number of guards held and the number of refused threads that have not yet
  subtracted.\<close>

inductive limiter_run :: "nat \<Rightarrow> write_limiter \<Rightarrow> nat \<Rightarrow> nat \<Rightarrow> bool" for mx where
  lim_new: "limiter_run mx (limiter_new mx) 0 0"
| lim_acquired: "limiter_run mx wl held refused \<Longrightarrow> acquire_add wl = (wl', prev) \<Longrightarrow> \<not> prev \<ge> wl_max wl' \<Longrightarrow>
     limiter_run mx wl' (Suc held) refused"
| lim_refused: "limiter_run mx wl held refused \<Longrightarrow> acquire_add wl = (wl', prev) \<Longrightarrow> prev \<ge> wl_max wl' \<Longrightarrow>
     limiter_run mx wl' held (Suc refused)"
| lim_back_off: "limiter_run mx wl held (Suc refused) \<Longrightarrow> limiter_run mx (release_sub wl) held refused"
| lim_drop: "limiter_run mx wl (Suc held) refused \<Longrightarrow> limiter_run mx (release_sub wl) held refused"

lemma limiter_run_inv:
  "limiter_run mx wl held refused \<Longrightarrow> wl_max wl = mx \<and> wl_active wl = held + refused \<and> held \<le> mx"
  by (induction rule: limiter_run.induct) (auto simp: limiter_new_def acquire_add_def release_sub_def)

section \<open>Properties\<close>

text \<open>C20 Observers see every notified commit, in order. When commits are notified in their order, possibly late,
  every registered observer has received only datoms of the store that pass its filter, and all of them but
  those of commits not yet notified or never notified; with none of these it has received exactly the datoms
  of the store. The epochs of the calls it received never decrease and do not pass the store's, and the replay
  buffer stays within its bound. A commit that was never notified is made up for by the next one when the
  buffer does not reach back to the epoch the observer has seen: the observer is then given the store, and
  with it everything up to that commit. (When the buffer reaches back, the missed datoms stay missed, as
  \<open>skipped_commit_stays_missed\<close> shows.)\<close>

theorem observers_complete_in_order:
  assumes "broadcast_run ob ep D q M"
  shows "(\<forall>ro \<in> set (ob_observers ob).
      delivered ro \<subseteq> {d \<in> D. accepts (ro_filter ro) d} \<and>
      {d \<in> D. accepts (ro_filter ro) d} \<subseteq> delivered ro \<union> M \<union> (\<Union>n \<in> set q. set (pn_datoms n)) \<and>
      (q = [] \<and> M = {} \<longrightarrow> delivered ro = {d \<in> D. accepts (ro_filter ro) d}) \<and>
      sorted (map call_epoch (ro_calls ro)) \<and> (\<forall>c \<in> set (ro_calls ro). call_epoch c \<le> ep)) \<and>
    length (recent ob) \<le> max_buffer ob \<and>
    (\<forall>n q' s ob'. q = n # q' \<and> pn_store n \<subseteq> set (datoms s) \<and> set (datoms s) \<subseteq> D \<and>
       ob' = publish (pn_epoch n) (pn_datoms n) s ob \<longrightarrow>
       (\<forall>i < length (ob_observers ob). last_seen_epoch (ob_observers ob ! i) < pn_epoch n - 1 \<and>
          buffered_delta_since (recent ob') (last_seen_epoch (ob_observers ob ! i)) = None \<longrightarrow>
          {d \<in> pn_store n. accepts (ro_filter (ob_observers ob ! i)) d} \<subseteq> delivered (ob_observers ob' ! i)))"
proof -
  note inv = broadcast_run_inv [OF assms]
  have heal: "{d \<in> pn_store n. accepts (ro_filter (ob_observers ob ! i)) d} \<subseteq> delivered (ob_observers ob' ! i)"
    if n: "q = n # q'" and s: "pn_store n \<subseteq> set (datoms s)" "set (datoms s) \<subseteq> D"
      and ob': "ob' = publish (pn_epoch n) (pn_datoms n) s ob" and i: "i < length (ob_observers ob)"
      and gap: "last_seen_epoch (ob_observers ob ! i) < pn_epoch n - 1"
        "buffered_delta_since (recent ob') (last_seen_epoch (ob_observers ob ! i)) = None" for n q' s ob' i
  proof -
    let ?ro = "ob_observers ob ! i"
    have "0 < pn_epoch n" using inv n by (auto simp: queue_inv_def)
    then have lt: "last_seen_epoch ?ro < pn_epoch n" "last_seen_epoch ?ro + 1 < pn_epoch n" using gap(1) by unat_arith+
    have "ob_observers ob' ! i = deliver (recent ob') (pn_epoch n) (pn_datoms n) s ?ro"
      using i by (simp add: ob' publish_def Let_def)
    then have "ob_observers ob' ! i = ?ro\<lparr>ro_calls := ro_calls ?ro @
        [OnCatchup (last_seen_epoch ?ro) (apply_filter (ro_filter ?ro) (datoms s))], last_seen_epoch := pn_epoch n\<rparr>"
      using lt gap(2) by (simp add: deliver_def full_store_catchup_def)
    then have "delivered (ob_observers ob' ! i) = delivered ?ro \<union> {d \<in> set (datoms s). accepts (ro_filter ?ro) d}"
      by (auto simp: delivered_def)
    then show ?thesis using s(1) by blast
  qed
  have obs: "observer_inv ep D q M ro" if "ro \<in> set (ob_observers ob)" for ro using inv that by blast
  have "delivered ro \<subseteq> {d \<in> D. accepts (ro_filter ro) d} \<and>
      {d \<in> D. accepts (ro_filter ro) d} \<subseteq> delivered ro \<union> M \<union> (\<Union>n \<in> set q. set (pn_datoms n)) \<and>
      (q = [] \<and> M = {} \<longrightarrow> delivered ro = {d \<in> D. accepts (ro_filter ro) d}) \<and>
      sorted (map call_epoch (ro_calls ro)) \<and> (\<forall>c \<in> set (ro_calls ro). call_epoch c \<le> ep)"
    if "ro \<in> set (ob_observers ob)" for ro
    using obs [OF that] unfolding observer_inv_def by (auto intro: order_trans)
  then show ?thesis using inv heal by blast
qed

text \<open>An observer registered at genesis; the commit of epoch 1 is notified, that of epoch 2 is not, that of epoch 3
  is. With a buffer of one entry the observer is given the store when the third commit is notified.\<close>

definition store_at :: "u64 \<Rightarrow> datom list \<Rightarrow> store" where
  "store_at ep ds = (store_from_datoms id ds)\<lparr>epoch := ep\<rparr>"

theorem observers_complete_in_order_witness:
  "\<exists>d1 d2 d3 ob1 ob3. distinct [d1, d2, d3] \<and>
     ob1 = publish 1 [d1] (store_at 1 [d1]) (register_impl None (genesis id) (broadcast_new 1)) \<and>
     delivered (hd (ob_observers ob1)) = {d1} \<and>
     broadcast_run ob1 3 {d1, d2, d3} [\<lparr>pn_epoch = 3, pn_datoms = [d3], pn_store = {d1, d2, d3}\<rparr>] {d2} \<and>
     ob3 = publish 3 [d3] (store_at 3 [d1, d2, d3]) ob1 \<and> delivered (hd (ob_observers ob3)) = {d1, d2, d3}"
proof -
  define d1 d2 d3 where d: "d1 = sample_datom (VLong 1)" "d2 = sample_datom (VLong 2)" "d3 = sample_datom (VLong 3)"
  have dist: "distinct [d1, d2, d3]" by (simp add: d sample_datom_def)
  have st: "epoch (store_at ep ds) = ep" "set (datoms (store_at ep ds)) = set ds" for ep ds
    by (simp_all add: store_at_def store_from_datoms_def datoms_def Let_def)
  have g: "epoch (genesis id) = 0" "set (datoms (genesis id)) = {}" by (simp_all add: genesis_def datoms_def sort_dedup_def)
  let ?ob0 = "register_impl None (genesis id) (broadcast_new 1)"
  define ob1 where "ob1 = publish 1 [d1] (store_at 1 [d1]) ?ob0"
  define ob3 where "ob3 = publish 3 [d3] (store_at 3 [d1, d2, d3]) ob1"
  have lt: "(0 :: u64) < 1" "(1 :: u64) < 2" "(2 :: u64) < 3" "(1 :: u64) < 3 - 1" by (simp_all add: word_less_nat_alt)
  have r0: "broadcast_run ?ob0 0 {} [] {}"
    using run_register [OF run_new [of "epoch (genesis id)" "set (datoms (genesis id))" 1], of None] g by simp
  have r1: "broadcast_run ob1 1 {d1} [] {}"
    using run_publish [OF run_commit [OF r0 lt(1), of "[d1]", simplified], of "store_at 1 [d1]"] st by (simp add: ob1_def)
  have r3: "broadcast_run ob1 3 {d1, d2, d3} [\<lparr>pn_epoch = 3, pn_datoms = [d3], pn_store = {d1, d2, d3}\<rparr>] {d2}"
    using run_commit [OF run_skip [OF run_commit [OF r1 lt(2), of "[d2]", simplified]] lt(3), of "[d3]"]
    by (simp add: insert_commute)
  have o1: "length (ob_observers ob1) = 1" "ro_filter (ob_observers ob1 ! 0) = None" "last_seen_epoch (ob_observers ob1 ! 0) = 1"
    "recent ob3 = [\<lparr>be_epoch = 3, be_datoms = [d3]\<rparr>]" "length (ob_observers ob3) = 1" "ro_filter (ob_observers ob3 ! 0) = None"
    by (simp_all add: ob1_def ob3_def register_impl_def broadcast_new_def publish_def deliver_def g Let_def)
  have hd: "hd (ob_observers ob) = ob_observers ob ! 0" if "length (ob_observers ob) = 1" for ob
    using that by (cases "ob_observers ob") auto
  have one: "delivered (ob_observers ob1 ! 0) = {d1}"
    using observers_complete_in_order [OF r1] o1(1,2) by (simp add: accepts_def)
  have none: "buffered_delta_since (recent ob3) 1 = None"
    by (simp add: o1(4) buffered_delta_since_def saturating_succ_def word_less_nat_alt)
  have ge: "{d1, d2, d3} \<subseteq> delivered (ob_observers ob3 ! 0)"
    using observers_complete_in_order [OF r3] o1(1-3) none lt(4) st(2) [of 3 "[d1, d2, d3]"] by (auto simp: accepts_def ob3_def)
  have "broadcast_run ob3 3 {d1, d2, d3} [] {d2}"
    using run_publish [OF r3, of "store_at 3 [d1, d2, d3]"] st(2) [of 3 "[d1, d2, d3]"] by (simp add: ob3_def)
  from observers_complete_in_order [OF this] have le: "delivered (ob_observers ob3 ! 0) \<subseteq> {d1, d2, d3}"
    using o1(5,6) by (auto simp: accepts_def)
  have "delivered (hd (ob_observers ob3)) = {d1, d2, d3}"
    unfolding hd [OF o1(5)] using le ge by (rule subset_antisym)
  moreover have "delivered (hd (ob_observers ob1)) = {d1}" using one hd [OF o1(1)] by simp
  ultimately show ?thesis using dist r3 ob1_def ob3_def
    by (intro exI [of _ d1] exI [of _ d2] exI [of _ d3] exI [of _ ob1] exI [of _ ob3] conjI)
qed

text \<open>A commit that was never notified can stay missed. When the buffer still holds an entry of the epoch the
  observer has seen or of the next one, the gap is filled from the buffer, which does not hold the commit
  that was never notified; the observer is at the current epoch and never gets its datoms.\<close>

theorem skipped_commit_stays_missed:
  assumes "ob = register_impl None (genesis b) (broadcast_new DEFAULT_OBSERVER_BUFFER)"
    "ob' = publish 3 [d3] s3 (publish 1 [d1] s1 ob)" "d2 \<notin> {d1, d3}"
  shows "\<forall>ro \<in> set (ob_observers ob'). last_seen_epoch ro = 3 \<and> d2 \<notin> delivered ro"
proof -
  have n: "\<not> (3 :: u64) \<le> 1" "(2 :: u64) < 3" "(1 :: u64) < 3" "\<not> (1 :: u64) > 2" "(1 :: u64) \<noteq> - 1"
    by (simp_all add: word_le_nat_alt word_less_nat_alt)
  show ?thesis
    using assms
    by (simp add: n register_impl_def broadcast_new_def publish_def deliver_def genesis_def buffered_delta_since_def
        saturating_succ_def DEFAULT_OBSERVER_BUFFER_def delivered_def apply_filter_def Let_def)
qed

text \<open>Commits published out of order can be lost. Delivery happens after the write lock is released, so
  the commit of epoch 3 may be published before that of epoch 2. An observer that has seen epoch 1 then
  gets the buffered entries after epoch 1, which do not hold epoch 2, and when epoch 2 is published it
  is skipped: no call carries its datoms.\<close>

theorem out_of_order_publish_loses:
  assumes "ob = register_impl None (genesis b) (broadcast_new DEFAULT_OBSERVER_BUFFER)"
    "ob' = publish 2 [d2] s3 (publish 3 [d3] s3 (publish 1 [d1] s1 ob))" "d2 \<notin> {d1, d3}"
  shows "\<forall>ro \<in> set (ob_observers ob'). last_seen_epoch ro = 3 \<and> d2 \<notin> delivered ro"
proof -
  have n: "\<not> (2 :: u64) \<le> 1" "\<not> (3 :: u64) \<le> 1" "\<not> (3 :: u64) \<le> 2" "(2 :: u64) \<le> 3" "(2 :: u64) < 3" "(1 :: u64) < 3"
    "\<not> (1 :: u64) > 2" "(1 :: u64) \<noteq> - 1"
    by (simp_all add: word_le_nat_alt word_less_nat_alt)
  show ?thesis
    using assms
    by (simp add: n register_impl_def broadcast_new_def publish_def deliver_def genesis_def buffered_delta_since_def
        saturating_succ_def DEFAULT_OBSERVER_BUFFER_def delivered_def apply_filter_def Let_def)
qed

text \<open>C40 The write limiter admits at most its maximum. Under every interleaving of the atomic steps of
  acquisitions, refusals and releases, the number of guards held never exceeds the maximum; the counter is the
  number of guards held plus the refused attempts that have not yet backed off, so it may exceed the maximum
  for a moment; a writer is admitted exactly when that sum is below the maximum, which with no refused attempt
  pending means that a slot is free; and a refused acquisition leaves the counter as it was.\<close>

theorem limiter_bound:
  assumes "limiter_run mx wl held refused"
  shows "held \<le> mx \<and> wl_active wl = held + refused \<and>
    (snd (try_acquire wl) \<longleftrightarrow> held + refused < mx) \<and> (\<not> snd (try_acquire wl) \<longrightarrow> fst (try_acquire wl) = wl)"
  using limiter_run_inv [OF assms] by (auto simp: try_acquire_def acquire_add_def release_sub_def Let_def)

text \<open>One slot: a first writer holds it and a second one is refused; until the second one backs off the counter is
  2, above the maximum, and after the first one has left a third writer is refused although the slot is free.\<close>

theorem limiter_bound_witness:
  "\<exists>wl. limiter_run 1 wl 0 1 \<and> wl_active wl = 1 \<and> \<not> snd (try_acquire wl) \<and> snd (try_acquire (release_sub wl))"
proof -
  let ?l1 = "fst (acquire_add (limiter_new 1))" let ?l2 = "fst (acquire_add ?l1)"
  have "limiter_run 1 ?l1 (Suc 0) 0"
    by (rule lim_acquired [OF lim_new, where prev = 0]) (simp_all add: acquire_add_def limiter_new_def)
  then have "limiter_run 1 ?l2 (Suc 0) (Suc 0)"
    by (rule lim_refused [where prev = 1]) (simp_all add: acquire_add_def limiter_new_def)
  then have r: "limiter_run 1 (release_sub ?l2) 0 (Suc 0)" by (rule lim_drop)
  then have r': "limiter_run 1 (release_sub (release_sub ?l2)) 0 0" by (rule lim_back_off)
  show ?thesis using limiter_bound [OF r] limiter_bound [OF r'] r by (intro exI [of _ "release_sub ?l2"]) simp
qed

end
