(* ===== verification/Wire.thy ===== *)
theory Wire
  imports Store
begin

text \<open>
  The wire types of the deserialisation boundary (\<open>ferratom/src/wire.rs\<close>): what \<open>bincode\<close> yields, and the
  conversions into the core types after the bytes have passed an integrity check.

  \<open>bincode\<close> is outside the repository. It is a parameter, a record of one serialiser and one deserialiser
  per payload type the sources use; a serialiser may fail, a deserialiser may reject its input. What the
  code relies on is that bytes written from a core value are read back as the same value in wire types.
\<close>

section \<open>Wire types\<close>

datatype wire_entity_id = WireEntityId (wire_entity_bytes: bytes)

datatype wire_value =
    WKeyword string
  | WString string
  | WLong u64
  | WDouble non_nan_float
  | WBool bool
  | WInstant u64
  | WUuid bytes
  | WBytes bytes
  | WRef wire_entity_id
  | WBigInt u128
  | WBigDec u128

record wire_datom =
  wd_entity :: wire_entity_id
  wd_attribute :: attribute
  wd_value :: wire_value
  wd_tx :: txid
  wd_op :: op

definition wire_entity_into_trusted :: "wire_entity_id \<Rightarrow> entity_id" where
  "wire_entity_into_trusted w = EntityId (wire_entity_bytes w)"

fun wire_value_into_trusted :: "wire_value \<Rightarrow> val" where
  "wire_value_into_trusted (WKeyword s) = VKeyword s"
| "wire_value_into_trusted (WString s) = VString s"
| "wire_value_into_trusted (WLong n) = VLong n"
| "wire_value_into_trusted (WDouble f) = VDouble f"
| "wire_value_into_trusted (WBool b) = VBool b"
| "wire_value_into_trusted (WInstant ms) = VInstant ms"
| "wire_value_into_trusted (WUuid u) = VUuid u"
| "wire_value_into_trusted (WBytes b) = VBytes b"
| "wire_value_into_trusted (WRef e) = VRef (wire_entity_into_trusted e)"
| "wire_value_into_trusted (WBigInt n) = VBigInt n"
| "wire_value_into_trusted (WBigDec n) = VBigDec n"

definition into_trusted :: "wire_datom \<Rightarrow> datom" where
  "into_trusted w =
     Datom (wire_entity_into_trusted (wd_entity w)) (wd_attribute w) (wire_value_into_trusted (wd_value w)) (wd_tx w) (wd_op w)"

record wire_checkpoint_payload =
  wp_schema :: "(string \<times> attribute_def) list"
  wp_genesis_node :: node_id
  wp_datoms :: "wire_datom list"

definition into_parts ::
  "wire_checkpoint_payload \<Rightarrow> (string \<times> attribute_def) list \<times> node_id \<times> wire_datom list" where
  "into_parts p = (wp_schema p, wp_genesis_node p, wp_datoms p)"

section \<open>The wire image of a core value\<close>

definition entity_to_wire :: "entity_id \<Rightarrow> wire_entity_id" where
  "entity_to_wire e = WireEntityId (entity_bytes e)"

fun value_to_wire :: "val \<Rightarrow> wire_value" where
  "value_to_wire (VKeyword s) = WKeyword s"
| "value_to_wire (VString s) = WString s"
| "value_to_wire (VLong n) = WLong n"
| "value_to_wire (VDouble f) = WDouble f"
| "value_to_wire (VBool b) = WBool b"
| "value_to_wire (VInstant ms) = WInstant ms"
| "value_to_wire (VUuid u) = WUuid u"
| "value_to_wire (VBytes b) = WBytes b"
| "value_to_wire (VRef e) = WRef (entity_to_wire e)"
| "value_to_wire (VBigInt n) = WBigInt n"
| "value_to_wire (VBigDec n) = WBigDec n"

definition to_wire :: "datom \<Rightarrow> wire_datom" where
  "to_wire d = \<lparr>wd_entity = entity_to_wire (d_entity d), wd_attribute = d_attribute d, wd_value = value_to_wire (d_value d),
     wd_tx = d_tx d, wd_op = d_op d\<rparr>"

lemma entity_trusted_to_wire [simp]: "wire_entity_into_trusted (entity_to_wire e) = e"
  by (simp add: wire_entity_into_trusted_def entity_to_wire_def)

lemma value_trusted_to_wire [simp]: "wire_value_into_trusted (value_to_wire v) = v"
  by (cases v) simp_all

lemma into_trusted_to_wire [simp]: "into_trusted (to_wire d) = d"
  by (simp add: into_trusted_def to_wire_def)

lemma map_into_trusted_to_wire [simp]: "map (into_trusted \<circ> to_wire) ds = ds"
  by (simp add: map_idI)

section \<open>The payloads handed to bincode\<close>

record v3_payload =
  p3_schema :: "(string \<times> attribute_def) list"
  p3_datoms :: "datom list"
  p3_live :: "bool list"

record v3_payload_read =
  r3_schema :: "(string \<times> attribute_def) list"
  r3_datoms :: "wire_datom list"
  r3_live :: "bool list"

record live_first_payload =
  plf_schema :: "(string \<times> attribute_def) list"
  plf_live :: "datom list"
  plf_hist :: "datom list"

record live_first_payload_read =
  rlf_schema :: "(string \<times> attribute_def) list"
  rlf_live :: "wire_datom list"
  rlf_hist :: "wire_datom list"

record v4_payload =
  p4_schema :: "(string \<times> attribute_def) list"
  p4_entities :: "entity_id list"
  p4_attributes :: "string list"
  p4_values :: "val list"
  p4_tx_ids :: "txid list"
  p4_ops :: "bool list"
  p4_live :: "bool list"

record v4_payload_read =
  r4_schema :: "(string \<times> attribute_def) list"
  r4_entities :: "wire_entity_id list"
  r4_attributes :: "string list"
  r4_values :: "wire_value list"
  r4_tx_ids :: "txid list"
  r4_ops :: "bool list"
  r4_live :: "bool list"

record bincode =
  ser_datoms :: "datom list \<Rightarrow> bytes option"
  de_datoms :: "bytes \<Rightarrow> wire_datom list option"
  ser_v3 :: "v3_payload \<Rightarrow> bytes option"
  de_v3 :: "bytes \<Rightarrow> v3_payload_read option"
  ser_lf :: "live_first_payload \<Rightarrow> bytes option"
  de_lf :: "bytes \<Rightarrow> live_first_payload_read option"
  ser_v4 :: "v4_payload \<Rightarrow> bytes option"
  de_v4 :: "bytes \<Rightarrow> v4_payload_read option"
  de_v2 :: "bytes \<Rightarrow> wire_checkpoint_payload option"

definition v3_image :: "v3_payload \<Rightarrow> v3_payload_read" where
  "v3_image p = \<lparr>r3_schema = p3_schema p, r3_datoms = map to_wire (p3_datoms p), r3_live = p3_live p\<rparr>"

definition lf_image :: "live_first_payload \<Rightarrow> live_first_payload_read" where
  "lf_image p = \<lparr>rlf_schema = plf_schema p, rlf_live = map to_wire (plf_live p), rlf_hist = map to_wire (plf_hist p)\<rparr>"

definition v4_image :: "v4_payload \<Rightarrow> v4_payload_read" where
  "v4_image p = \<lparr>r4_schema = p4_schema p, r4_entities = map entity_to_wire (p4_entities p), r4_attributes = p4_attributes p,
     r4_values = map value_to_wire (p4_values p), r4_tx_ids = p4_tx_ids p, r4_ops = p4_ops p, r4_live = p4_live p\<rparr>"

text \<open>What the code relies on: reading back what was written.\<close>

definition bincode_reads_back :: "bincode \<Rightarrow> bool" where
  "bincode_reads_back bc \<longleftrightarrow>
     (\<forall>ds bs. ser_datoms bc ds = Some bs \<longrightarrow> de_datoms bc bs = Some (map to_wire ds)) \<and>
     (\<forall>p bs. ser_v3 bc p = Some bs \<longrightarrow> de_v3 bc bs = Some (v3_image p)) \<and>
     (\<forall>p bs. ser_lf bc p = Some bs \<longrightarrow> de_lf bc bs = Some (lf_image p)) \<and>
     (\<forall>p bs. ser_v4 bc p = Some bs \<longrightarrow> de_v4 bc bs = Some (v4_image p))"

text \<open>A serialiser that accepts one value of each type shows that the hypothesis can hold.\<close>

definition one_value_bincode :: "datom list \<Rightarrow> v3_payload \<Rightarrow> live_first_payload \<Rightarrow> v4_payload \<Rightarrow> bincode" where
  "one_value_bincode ds p3 plf p4 =
     \<lparr>ser_datoms = (\<lambda>x. if x = ds then Some [] else None), de_datoms = (\<lambda>_. Some (map to_wire ds)),
      ser_v3 = (\<lambda>x. if x = p3 then Some [] else None), de_v3 = (\<lambda>_. Some (v3_image p3)),
      ser_lf = (\<lambda>x. if x = plf then Some [] else None), de_lf = (\<lambda>_. Some (lf_image plf)),
      ser_v4 = (\<lambda>x. if x = p4 then Some [] else None), de_v4 = (\<lambda>_. Some (v4_image p4)), de_v2 = (\<lambda>_. None)\<rparr>"

lemma one_value_bincode_reads_back: "bincode_reads_back (one_value_bincode ds p3 plf p4)"
  by (simp add: bincode_reads_back_def one_value_bincode_def)

end
