(* ===== verification/Checkpoint.thy ===== *)
theory Checkpoint
  imports Replication Wire
begin

text \<open>
  Checkpoints (crate \<open>ferratomic-checkpoint\<close>: \<open>lib.rs\<close>, \<open>v3.rs\<close>, \<open>v4.rs\<close>, \<open>v4_read.rs\<close>, \<open>io.rs\<close>, the
  checksum of \<open>mmap.rs\<close>; and \<open>ferratomic-core/src/checkpoint.rs\<close>): the four byte formats, the dispatch on
  the magic bytes, the LIVE-first partial load, and the two writers.

  A writer goes through a temporary file and a rename. Its calls act on a small file system: a directory as it is
  read and as it was last synced, and files with their contents, synced or not. Each call succeeds, fails or is the last before the process dies; the record of outcomes
  is an argument.
\<close>

section \<open>Framing\<close>

definition CHECKPOINT_MAGIC :: bytes where "CHECKPOINT_MAGIC = [0x43, 0x48, 0x4B, 0x50]"
definition V3_MAGIC :: bytes where "V3_MAGIC = [0x43, 0x48, 0x4B, 0x33]"
definition V4_MAGIC :: bytes where "V4_MAGIC = [0x43, 0x48, 0x4B, 0x34]"
definition CHECKPOINT_VERSION :: u16 where "CHECKPOINT_VERSION = 2"
definition V3_VERSION :: u16 where "V3_VERSION = 3"
definition V3_LIVE_FIRST_VERSION :: u16 where "V3_LIVE_FIRST_VERSION = 0x0103"
definition V4_VERSION :: u16 where "V4_VERSION = 4"
definition V2_HEADER_SIZE :: nat where "V2_HEADER_SIZE = 22"
definition V3_HEADER_SIZE :: nat where "V3_HEADER_SIZE = 4 + 2 + 8 + 16"
definition HASH_SIZE :: nat where "HASH_SIZE = 32"

definition verify_blake3 :: "(bytes \<Rightarrow> bytes) \<Rightarrow> bytes \<Rightarrow> nat \<Rightarrow> ferra_error + bytes" where
  "verify_blake3 blake3 bs min_content =
     (if length bs < HASH_SIZE + min_content then Inl CheckpointCorrupted
      else (let content = take (length bs - HASH_SIZE) bs; stored_hash = drop (length bs - HASH_SIZE) bs
            in if blake3 content \<noteq> stored_hash then Inl CheckpointCorrupted else Inr content))"

text \<open>Header, payload and the hash of both: the buffer the three writers build.\<close>

definition seal :: "(bytes \<Rightarrow> bytes) \<Rightarrow> bytes \<Rightarrow> u16 \<Rightarrow> u64 \<Rightarrow> node_id \<Rightarrow> bytes \<Rightarrow> bytes" where
  "seal blake3 magic version ep node payload =
     (let buf = magic @ to_le_bytes 2 version @ to_le_bytes 8 ep @ node_bytes node @ payload
      in buf @ blake3 buf)"

definition parse_versioned :: "bytes \<Rightarrow> bytes \<Rightarrow> ferra_error + (u64 \<times> node_id \<times> u16)" where
  "parse_versioned magic content =
     (if take 4 content \<noteq> magic then Inl CheckpointCorrupted
      else Inr (from_le_bytes (take 8 (drop 6 content)), NodeId (take 16 (drop 14 content)),
                from_le_bytes (take 2 (drop 4 content))))"

section \<open>Version 3 (v3.rs)\<close>

definition serialize_v3_bytes ::
  "(bytes \<Rightarrow> bytes) \<Rightarrow> bincode \<Rightarrow> datom list \<Rightarrow> (string \<times> attribute_def) list \<Rightarrow> u64 \<Rightarrow> node_id \<Rightarrow> bool list \<Rightarrow> ferra_error + bytes" where
  "serialize_v3_bytes blake3 bc ds schema_pairs ep node live_bits =
     (case ser_v3 bc \<lparr>p3_schema = schema_pairs, p3_datoms = ds, p3_live = live_bits\<rparr> of
        None \<Rightarrow> Inl (CheckpointWrite ''bincode'')
      | Some payload \<Rightarrow> Inr (seal blake3 V3_MAGIC V3_VERSION ep node payload))"

definition parse_v3_header_versioned :: "bytes \<Rightarrow> ferra_error + (u64 \<times> node_id \<times> u16)" where
  "parse_v3_header_versioned content = parse_versioned V3_MAGIC content"

definition parse_v3_header :: "bytes \<Rightarrow> ferra_error + (u64 \<times> node_id)" where
  "parse_v3_header content =
     (if take 4 content \<noteq> V3_MAGIC then Inl CheckpointCorrupted
      else if (from_le_bytes (take 2 (drop 4 content)) :: u16) \<noteq> V3_VERSION then Inl CheckpointCorrupted
      else Inr (from_le_bytes (take 8 (drop 6 content)), NodeId (take 16 (drop 14 content))))"

definition deserialize_v3_bytes :: "(bytes \<Rightarrow> bytes) \<Rightarrow> bincode \<Rightarrow> bytes \<Rightarrow> ferra_error + checkpoint_data" where
  "deserialize_v3_bytes blake3 bc data =
     bind_result (verify_blake3 blake3 data V3_HEADER_SIZE) (\<lambda>content.
     bind_result (parse_v3_header content) (\<lambda>(ep, node).
       case de_v3 bc (drop V3_HEADER_SIZE content) of
         None \<Rightarrow> Inl CheckpointCorrupted
       | Some p \<Rightarrow>
           (if length (r3_live p) \<noteq> length (r3_datoms p) then Inl CheckpointCorrupted
            else Inr \<lparr>cd_epoch = ep, cd_genesis_node = node, cd_schema_pairs = r3_schema p,
                      cd_datoms = map into_trusted (r3_datoms p), cd_live_bits = Some (r3_live p)\<rparr>)))"

record partial_checkpoint_data =
  pc_epoch :: u64
  pc_genesis_node :: node_id
  pc_schema_pairs :: "(string \<times> attribute_def) list"
  pc_live_datoms :: "datom list"
  pc_hist_datoms :: "datom list"

definition partition_live :: "datom list \<Rightarrow> bool list \<Rightarrow> datom list \<times> datom list" where
  "partition_live ds live_bits =
     fold (\<lambda>(i, d) (live, hist).
         if (if i < length live_bits then Some (live_bits ! i) else None) = Some True then (live @ [d], hist) else (live, hist @ [d]))
       (enumerate 0 ds) ([], [])"

definition serialize_v3_live_first ::
  "(bytes \<Rightarrow> bytes) \<Rightarrow> bincode \<Rightarrow> datom list \<Rightarrow> (string \<times> attribute_def) list \<Rightarrow> u64 \<Rightarrow> node_id \<Rightarrow> bool list \<Rightarrow> ferra_error + bytes" where
  "serialize_v3_live_first blake3 bc ds schema_pairs ep node live_bits =
     (let (live, hist) = partition_live ds live_bits
      in case ser_lf bc \<lparr>plf_schema = schema_pairs, plf_live = live, plf_hist = hist\<rparr> of
           None \<Rightarrow> Inl (CheckpointWrite ''bincode'')
         | Some payload \<Rightarrow> Inr (seal blake3 V3_MAGIC V3_LIVE_FIRST_VERSION ep node payload))"

definition deserialize_v3_live_first_partial ::
  "(bytes \<Rightarrow> bytes) \<Rightarrow> bincode \<Rightarrow> bytes \<Rightarrow> ferra_error + partial_checkpoint_data" where
  "deserialize_v3_live_first_partial blake3 bc data =
     bind_result (verify_blake3 blake3 data V3_HEADER_SIZE) (\<lambda>content.
     bind_result (parse_v3_header_versioned content) (\<lambda>(ep, node, version).
       if version \<noteq> V3_LIVE_FIRST_VERSION then Inl CheckpointCorrupted
       else (case de_lf bc (drop V3_HEADER_SIZE content) of
               None \<Rightarrow> Inl CheckpointCorrupted
             | Some p \<Rightarrow> Inr \<lparr>pc_epoch = ep, pc_genesis_node = node, pc_schema_pairs = rlf_schema p,
                 pc_live_datoms = map into_trusted (rlf_live p), pc_hist_datoms = map into_trusted (rlf_hist p)\<rparr>)))"

definition deserialize_v3_live_first_full :: "(bytes \<Rightarrow> bytes) \<Rightarrow> bincode \<Rightarrow> bytes \<Rightarrow> ferra_error + checkpoint_data" where
  "deserialize_v3_live_first_full blake3 bc data =
     bind_result (deserialize_v3_live_first_partial blake3 bc data) (\<lambda>p.
       let merged = merge_sort_dedup (pc_live_datoms p) (pc_hist_datoms p)
       in Inr \<lparr>cd_epoch = pc_epoch p, cd_genesis_node = pc_genesis_node p, cd_schema_pairs = pc_schema_pairs p,
               cd_datoms = merged, cd_live_bits = Some (build_live_bitvector_pub merged)\<rparr>)"

section \<open>Version 4 (v4.rs, v4_read.rs)\<close>

definition serialize_v4_bytes ::
  "(bytes \<Rightarrow> bytes) \<Rightarrow> bincode \<Rightarrow> datom list \<Rightarrow> (string \<times> attribute_def) list \<Rightarrow> u64 \<Rightarrow> node_id \<Rightarrow> bool list \<Rightarrow> ferra_error + bytes" where
  "serialize_v4_bytes blake3 bc ds schema_pairs ep node live_bits =
     (case ser_v4 bc \<lparr>p4_schema = schema_pairs, p4_entities = map d_entity ds, p4_attributes = map (as_str \<circ> d_attribute) ds,
         p4_values = map d_value ds, p4_tx_ids = map d_tx ds, p4_ops = map (\<lambda>d. d_op d = Assert) ds, p4_live = live_bits\<rparr> of
        None \<Rightarrow> Inl (CheckpointWrite ''bincode'')
      | Some payload \<Rightarrow> Inr (seal blake3 V4_MAGIC V4_VERSION ep node payload))"

definition parse_v4_header :: "bytes \<Rightarrow> ferra_error + (u64 \<times> node_id)" where
  "parse_v4_header content =
     (if take 4 content \<noteq> V4_MAGIC then Inl CheckpointCorrupted
      else if (from_le_bytes (take 2 (drop 4 content)) :: u16) \<noteq> V4_VERSION then Inl CheckpointCorrupted
      else Inr (from_le_bytes (take 8 (drop 6 content)), NodeId (take 16 (drop 14 content))))"

definition validate_column_lengths :: "v4_payload_read \<Rightarrow> ferra_error + nat" where
  "validate_column_lengths p =
     (let n = length (r4_entities p)
      in if length (r4_attributes p) \<noteq> n then Inl CheckpointCorrupted
         else if length (r4_values p) \<noteq> n then Inl CheckpointCorrupted
         else if length (r4_tx_ids p) \<noteq> n then Inl CheckpointCorrupted
         else if length (r4_ops p) \<noteq> n then Inl CheckpointCorrupted
         else if length (r4_live p) \<noteq> n then Inl CheckpointCorrupted
         else Inr n)"

definition deserialize_v4_bytes :: "(bytes \<Rightarrow> bytes) \<Rightarrow> bincode \<Rightarrow> bytes \<Rightarrow> ferra_error + checkpoint_data" where
  "deserialize_v4_bytes blake3 bc data =
     bind_result (verify_blake3 blake3 data V3_HEADER_SIZE) (\<lambda>content.
     bind_result (parse_v4_header content) (\<lambda>(ep, node).
       case de_v4 bc (drop V3_HEADER_SIZE content) of
         None \<Rightarrow> Inl CheckpointCorrupted
       | Some p \<Rightarrow>
           bind_result (validate_column_lengths p) (\<lambda>n.
             Inr \<lparr>cd_epoch = ep, cd_genesis_node = node, cd_schema_pairs = r4_schema p,
                  cd_datoms = map (\<lambda>((((e, a), v), x), b).
                      Datom (wire_entity_into_trusted e) (Attribute a) (wire_value_into_trusted v) x (if b then Assert else Retract))
                    (zip (zip (zip (zip (r4_entities p) (r4_attributes p)) (r4_values p)) (r4_tx_ids p)) (r4_ops p)),
                  cd_live_bits = Some (r4_live p)\<rparr>)))"

section \<open>Version 2 and the dispatch (lib.rs)\<close>

definition parse_header :: "bytes \<Rightarrow> ferra_error + (u64 \<times> bytes)" where
  "parse_header content =
     (if length content < V2_HEADER_SIZE then Inl CheckpointCorrupted
      else if take 4 content \<noteq> CHECKPOINT_MAGIC then Inl CheckpointCorrupted
      else if (from_le_bytes (take 2 (drop 4 content)) :: u16) \<noteq> CHECKPOINT_VERSION then Inl CheckpointCorrupted
      else (let ep = from_le_bytes (take 8 (drop 6 content)); payload_len = unat (from_le_bytes (take 8 (drop 14 content)) :: u64)
            in if length content - V2_HEADER_SIZE < payload_len then Inl CheckpointCorrupted
               else Inr (ep, take payload_len (drop V2_HEADER_SIZE content))))"

definition deserialize_v2_bytes :: "(bytes \<Rightarrow> bytes) \<Rightarrow> bincode \<Rightarrow> bytes \<Rightarrow> ferra_error + checkpoint_data" where
  "deserialize_v2_bytes blake3 bc data =
     (if length data < V2_HEADER_SIZE + HASH_SIZE then Inl CheckpointCorrupted
      else (let content = take (length data - HASH_SIZE) data; hash_bytes = drop (length data - HASH_SIZE) data
            in if blake3 content \<noteq> hash_bytes then Inl CheckpointCorrupted
               else bind_result (parse_header content) (\<lambda>(ep, payload_bytes).
                 case de_v2 bc payload_bytes of
                   None \<Rightarrow> Inl CheckpointCorrupted
                 | Some w \<Rightarrow> (let (sch, node, wire_datoms) = into_parts w
                     in Inr \<lparr>cd_epoch = ep, cd_genesis_node = node, cd_schema_pairs = sch,
                             cd_datoms = map into_trusted wire_datoms, cd_live_bits = None\<rparr>))))"

definition deserialize_checkpoint_bytes :: "(bytes \<Rightarrow> bytes) \<Rightarrow> bincode \<Rightarrow> bytes \<Rightarrow> ferra_error + checkpoint_data" where
  "deserialize_checkpoint_bytes blake3 bc data =
     (if length data < 4 then Inl CheckpointCorrupted
      else (let magic = take 4 data
            in if magic = CHECKPOINT_MAGIC then deserialize_v2_bytes blake3 bc data
               else if magic = V3_MAGIC then
                 (if length data < 6 then Inl CheckpointCorrupted
                  else (let version = from_le_bytes [data ! 4, data ! 5] :: u16
                        in if version = 3 then deserialize_v3_bytes blake3 bc data
                           else if version = V3_LIVE_FIRST_VERSION then deserialize_v3_live_first_full blake3 bc data
                           else Inl CheckpointCorrupted))
               else if magic = V4_MAGIC then deserialize_v4_bytes blake3 bc data
               else Inl CheckpointCorrupted))"

definition require_live_bits :: "checkpoint_data \<Rightarrow> ferra_error + bool list" where
  "require_live_bits data =
     (case cd_live_bits data of None \<Rightarrow> Inl (CheckpointWrite ''live_bits required'') | Some bits \<Rightarrow> Inr bits)"

definition serialize_checkpoint_bytes :: "(bytes \<Rightarrow> bytes) \<Rightarrow> bincode \<Rightarrow> checkpoint_data \<Rightarrow> ferra_error + bytes" where
  "serialize_checkpoint_bytes blake3 bc data =
     bind_result (require_live_bits data) (\<lambda>live_bits.
       serialize_v3_bytes blake3 bc (cd_datoms data) (cd_schema_pairs data) (cd_epoch data) (cd_genesis_node data) live_bits)"

definition serialize_live_first_bytes :: "(bytes \<Rightarrow> bytes) \<Rightarrow> bincode \<Rightarrow> checkpoint_data \<Rightarrow> ferra_error + bytes" where
  "serialize_live_first_bytes blake3 bc data =
     bind_result (require_live_bits data) (\<lambda>live_bits.
       serialize_v3_live_first blake3 bc (cd_datoms data) (cd_schema_pairs data) (cd_epoch data) (cd_genesis_node data) live_bits)"

definition serialize_v4_checkpoint_bytes :: "(bytes \<Rightarrow> bytes) \<Rightarrow> bincode \<Rightarrow> checkpoint_data \<Rightarrow> ferra_error + bytes" where
  "serialize_v4_checkpoint_bytes blake3 bc data =
     bind_result (require_live_bits data) (\<lambda>live_bits.
       serialize_v4_bytes blake3 bc (cd_datoms data) (cd_schema_pairs data) (cd_epoch data) (cd_genesis_node data) live_bits)"

section \<open>Files (io.rs)\<close>

text \<open>The file system below the checkpoint directory. A name stands for a file by an entry of the directory; the
  entries the process sees and those on the disk differ between a change and the sync of the directory. A file
  has contents and is durable once it was synced after its last change.\<close>

record disk_file =
  f_bytes :: bytes
  f_synced :: bool

record filesystem =
  fs_file :: "nat \<Rightarrow> disk_file"
  fs_dir :: "string \<Rightarrow> nat option"
  fs_disk :: "string \<Rightarrow> nat option"
  fs_next :: nat

definition read_file :: "filesystem \<Rightarrow> string \<Rightarrow> bytes option" where
  "read_file fs name = map_option (\<lambda>i. f_bytes (fs_file fs i)) (fs_dir fs name)"

text \<open>\<open>File::create\<close> truncates a file that exists and makes a new one otherwise.\<close>

definition fs_create :: "string \<Rightarrow> filesystem \<Rightarrow> filesystem" where
  "fs_create name fs =
     (case fs_dir fs name of
        Some i \<Rightarrow> fs\<lparr>fs_file := (fs_file fs)(i := \<lparr>f_bytes = [], f_synced = False\<rparr>)\<rparr>
      | None \<Rightarrow> fs\<lparr>fs_file := (fs_file fs)(fs_next fs := \<lparr>f_bytes = [], f_synced = False\<rparr>),
                  fs_dir := (fs_dir fs)(name \<mapsto> fs_next fs), fs_next := Suc (fs_next fs)\<rparr>)"

definition fs_put :: "string \<Rightarrow> bytes \<Rightarrow> filesystem \<Rightarrow> filesystem" where
  "fs_put name bs fs =
     (case fs_dir fs name of
        Some i \<Rightarrow> fs\<lparr>fs_file := (fs_file fs)(i := \<lparr>f_bytes = bs, f_synced = False\<rparr>)\<rparr>
      | None \<Rightarrow> fs)"

definition fs_sync :: "string \<Rightarrow> filesystem \<Rightarrow> filesystem" where
  "fs_sync name fs =
     (case fs_dir fs name of
        Some i \<Rightarrow> fs\<lparr>fs_file := (fs_file fs)(i := (fs_file fs i)\<lparr>f_synced := True\<rparr>)\<rparr>
      | None \<Rightarrow> fs)"

definition fs_rename :: "string \<Rightarrow> string \<Rightarrow> filesystem \<Rightarrow> filesystem" where
  "fs_rename old new fs = fs\<lparr>fs_dir := (fs_dir fs)(new := fs_dir fs old, old := None)\<rparr>"

definition fs_sync_dir :: "filesystem \<Rightarrow> filesystem" where
  "fs_sync_dir fs = fs\<lparr>fs_disk := fs_dir fs\<rparr>"

text \<open>What may be read under a name after a power failure: the entry of the directory is the one on the disk or
  the one not yet synced (a rename is atomic), and a file that was not synced may hold anything.\<close>

definition crash_reads :: "filesystem \<Rightarrow> string \<Rightarrow> bytes option \<Rightarrow> bool" where
  "crash_reads fs name r \<longleftrightarrow>
     (\<exists>e \<in> {fs_dir fs name, fs_disk fs name}.
        case e of None \<Rightarrow> r = None
        | Some i \<Rightarrow> r \<noteq> None \<and> (f_synced (fs_file fs i) \<longrightarrow> r = Some (f_bytes (fs_file fs i))))"

text \<open>Each call of the operating system is done, fails, or does not return because the process dies there. The
  bytes of a buffered write reach the file in parts, so the file holds some prefix until the flush. A result
  \<open>None\<close> means that the process died.\<close>

datatype io_outcome = Done | Failed | Died

record checkpoint_env =
  ce_parent :: bool
  ce_create :: io_outcome
  ce_write :: io_outcome
  ce_written :: nat
  ce_flush :: io_outcome
  ce_flushed :: nat
  ce_sync :: io_outcome
  ce_rename :: io_outcome
  ce_open_dir :: io_outcome
  ce_sync_dir :: io_outcome

type_synonym write_outcome = "filesystem \<times> (ferra_error + unit) option"

definition os_call ::
  "io_outcome \<Rightarrow> string \<Rightarrow> filesystem \<Rightarrow> filesystem \<Rightarrow> (filesystem \<Rightarrow> write_outcome) \<Rightarrow> write_outcome" where
  "os_call oc what stopped finished k =
     (case oc of
        Done \<Rightarrow> k finished
      | Failed \<Rightarrow> (stopped, Some (Inl (CheckpointWrite what)))
      | Died \<Rightarrow> (stopped, None))"

definition fsync_parent_dir :: "checkpoint_env \<Rightarrow> filesystem \<Rightarrow> write_outcome" where
  "fsync_parent_dir en fs =
     os_call (ce_open_dir en) ''open directory'' fs fs (\<lambda>fs.
     os_call (ce_sync_dir en) ''sync directory'' fs (fs_sync_dir fs) (\<lambda>fs. (fs, Some (Inr ()))))"

text \<open>The part the two writers share: the temporary file is written and synced, renamed over the checkpoint, and
  the directory is synced.\<close>

definition write_atomically :: "checkpoint_env \<Rightarrow> string \<Rightarrow> string \<Rightarrow> bytes \<Rightarrow> filesystem \<Rightarrow> write_outcome" where
  "write_atomically en tmp path buf fs =
     (if \<not> ce_parent en then (fs, Some (Inl (CheckpointWrite ''path has no parent directory'')))
      else
        os_call (ce_create en) ''create'' fs (fs_create tmp fs) (\<lambda>fs.
        os_call (ce_write en) ''write'' (fs_put tmp (take (ce_written en) buf) fs) (fs_put tmp (take (ce_written en) buf) fs) (\<lambda>fs.
        os_call (ce_flush en) ''flush'' (fs_put tmp (take (ce_flushed en) buf) fs) (fs_put tmp buf fs) (\<lambda>fs.
        os_call (ce_sync en) ''sync'' fs (fs_sync tmp fs) (\<lambda>fs.
        os_call (ce_rename en) ''rename'' fs (fs_rename tmp path fs) (fsync_parent_dir en))))))"

definition checkpoint_tmp :: "string \<Rightarrow> string" where
  "checkpoint_tmp pid = ''.checkpoint.'' @ pid @ ''.tmp''"

definition checkpoint_lf_tmp :: "string \<Rightarrow> string" where
  "checkpoint_lf_tmp pid = ''.checkpoint_lf.'' @ pid @ ''.tmp''"

definition write_checkpoint ::
  "(bytes \<Rightarrow> bytes) \<Rightarrow> bincode \<Rightarrow> checkpoint_env \<Rightarrow> string \<Rightarrow> string \<Rightarrow> checkpoint_data \<Rightarrow> filesystem \<Rightarrow> write_outcome" where
  "write_checkpoint blake3 bc en pid path data fs =
     (case serialize_checkpoint_bytes blake3 bc data of
        Inl e \<Rightarrow> (fs, Some (Inl e))
      | Inr buf \<Rightarrow> write_atomically en (checkpoint_tmp pid) path buf fs)"

definition write_checkpoint_live_first ::
  "(bytes \<Rightarrow> bytes) \<Rightarrow> bincode \<Rightarrow> checkpoint_env \<Rightarrow> string \<Rightarrow> string \<Rightarrow> checkpoint_data \<Rightarrow> filesystem \<Rightarrow> write_outcome" where
  "write_checkpoint_live_first blake3 bc en pid path data fs =
     (case serialize_live_first_bytes blake3 bc data of
        Inl e \<Rightarrow> (fs, Some (Inl e))
      | Inr buf \<Rightarrow> write_atomically en (checkpoint_lf_tmp pid) path buf fs)"

definition load_checkpoint_data :: "(bytes \<Rightarrow> bytes) \<Rightarrow> bincode \<Rightarrow> bytes option \<Rightarrow> ferra_error + checkpoint_data" where
  "load_checkpoint_data blake3 bc contents =
     (case contents of
        None \<Rightarrow> Inl (Io ''NotFound'' ''read'')
      | Some data \<Rightarrow> deserialize_checkpoint_bytes blake3 bc data)"

section \<open>Stores (core checkpoint.rs)\<close>

definition checkpoint_store :: "(bytes \<Rightarrow> bytes) \<Rightarrow> bincode \<Rightarrow> store \<Rightarrow> ferra_error + bytes" where
  "checkpoint_store blake3 bc s = serialize_checkpoint_bytes blake3 bc (extract_checkpoint_data s)"

definition checkpoint_store_live_first :: "(bytes \<Rightarrow> bytes) \<Rightarrow> bincode \<Rightarrow> store \<Rightarrow> ferra_error + bytes" where
  "checkpoint_store_live_first blake3 bc s = serialize_live_first_bytes blake3 bc (extract_checkpoint_data s)"

definition load_store :: "(bytes \<Rightarrow> bytes) \<Rightarrow> bincode \<Rightarrow> bytes \<Rightarrow> ferra_error + store" where
  "load_store blake3 bc data =
     bind_result (deserialize_checkpoint_bytes blake3 bc data) (store_from_checkpoint_data blake3)"

record partial_store =
  ps_store :: store
  ps_hist_datoms :: "datom list"
  ps_schema_pairs :: "(string \<times> attribute_def) list"

definition load_live_first_partial :: "(bytes \<Rightarrow> bytes) \<Rightarrow> bincode \<Rightarrow> bytes \<Rightarrow> ferra_error + partial_store" where
  "load_live_first_partial blake3 bc data =
     bind_result (deserialize_v3_live_first_partial blake3 bc data) (\<lambda>p.
     bind_result (from_checkpoint_v3 blake3 (pc_epoch p) (pc_genesis_node p) (pc_schema_pairs p) (pc_live_datoms p)
         (replicate (length (pc_live_datoms p)) True)) (\<lambda>s.
       Inr \<lparr>ps_store = s, ps_hist_datoms = pc_hist_datoms p, ps_schema_pairs = pc_schema_pairs p\<rparr>))"

definition load_historical :: "(bytes \<Rightarrow> bytes) \<Rightarrow> partial_store \<Rightarrow> ferra_error + store" where
  "load_historical blake3 p =
     (let merged = merge_sort_dedup (datoms (ps_store p)) (ps_hist_datoms p)
      in from_checkpoint_v3 blake3 (epoch (ps_store p)) (genesis_node (ps_store p)) (ps_schema_pairs p) merged
           (build_live_bitvector_pub merged))"


section \<open>Reading back what was written\<close>

text \<open>BLAKE3 has 32-byte digests.\<close>

definition digest32 :: "(bytes \<Rightarrow> bytes) \<Rightarrow> bool" where
  "digest32 b \<longleftrightarrow> (\<forall>x. length (b x) = 32)"

definition header :: "bytes \<Rightarrow> u16 \<Rightarrow> u64 \<Rightarrow> node_id \<Rightarrow> bytes" where
  "header magic version ep node = magic @ to_le_bytes 2 version @ to_le_bytes 8 ep @ node_bytes node"

lemma header_fields:
  assumes "length magic = 4" "node_wf node"
  shows "length (header magic version ep node) = 30" "take 4 (header magic version ep node @ r) = magic"
    "from_le_bytes (take 2 (drop 4 (header magic version ep node @ r))) = version"
    "from_le_bytes (take 8 (drop 6 (header magic version ep node @ r))) = ep"
    "NodeId (take 16 (drop 14 (header magic version ep node @ r))) = node"
  using assms by (simp_all add: header_def node_wf_def)

lemma verify_seal:
  assumes "digest32 b" "length magic = 4" "node_wf node"
  shows "verify_blake3 b (seal b magic version ep node payload) V3_HEADER_SIZE = Inr (header magic version ep node @ payload)"
proof -
  let ?c = "header magic version ep node @ payload"
  have s: "seal b magic version ep node payload = ?c @ b ?c" by (simp add: seal_def header_def Let_def)
  have "length (b ?c) = 32" using assms(1) by (simp add: digest32_def)
  then show ?thesis using header_fields(1) [OF assms(2,3), of version ep]
    unfolding s by (simp add: verify_blake3_def HASH_SIZE_def V3_HEADER_SIZE_def Let_def)
qed

lemma seal_dispatch:
  assumes "length magic = 4" "node_wf node"
  shows "take 4 (seal b magic version ep node payload) = magic" "\<not> length (seal b magic version ep node payload) < 6"
    "from_le_bytes [seal b magic version ep node payload ! 4, seal b magic version ep node payload ! 5] = version"
proof -
  let ?c = "header magic version ep node" and ?d = "seal b magic version ep node payload"
  have s: "?d = ?c @ payload @ b (?c @ payload)" by (simp add: seal_def header_def Let_def)
  note h = header_fields [OF assms, of version ep]
  show "take 4 ?d = magic" unfolding s by (rule h(2))
  show l: "\<not> length ?d < 6" unfolding s using h(1) by simp
  have "[?d ! 4, ?d ! 5] = take 2 (drop 4 ?d)"
  proof (rule nth_equalityI)
    show "length [?d ! 4, ?d ! 5] = length (take 2 (drop 4 ?d))" using l by simp
    fix i assume "i < length [?d ! 4, ?d ! 5]"
    then have "i = 0 \<or> i = 1" by auto
    then show "[?d ! 4, ?d ! 5] ! i = take 2 (drop 4 ?d) ! i" using l by auto
  qed
  moreover have "from_le_bytes (take 2 (drop 4 ?d)) = version" unfolding s by (rule h(3))
  ultimately show "from_le_bytes [?d ! 4, ?d ! 5] = version" by simp
qed


lemma v3_bytes_roundtrip:
  assumes "bincode_reads_back bc" "digest32 b" "node_wf node" "length live = length ds"
    "serialize_v3_bytes b bc ds sch ep node live = Inr bs"
  shows "deserialize_checkpoint_bytes b bc bs =
    Inr \<lparr>cd_epoch = ep, cd_genesis_node = node, cd_schema_pairs = sch, cd_datoms = ds, cd_live_bits = Some live\<rparr>"
proof -
  let ?p = "\<lparr>p3_schema = sch, p3_datoms = ds, p3_live = live\<rparr>"
  obtain payload where p: "ser_v3 bc ?p = Some payload" and bs: "bs = seal b V3_MAGIC V3_VERSION ep node payload"
    using assms(5) by (auto simp: serialize_v3_bytes_def split: option.splits)
  have m: "length V3_MAGIC = 4" by (simp add: V3_MAGIC_def)
  note h = header_fields [OF m assms(3), where version = V3_VERSION and ep = ep]
  have de: "de_v3 bc payload = Some (v3_image ?p)" using assms(1) p by (simp add: bincode_reads_back_def)
  have "deserialize_v3_bytes b bc bs =
      Inr \<lparr>cd_epoch = ep, cd_genesis_node = node, cd_schema_pairs = sch, cd_datoms = ds, cd_live_bits = Some live\<rparr>"
    using h de assms(4) unfolding bs deserialize_v3_bytes_def verify_seal [OF assms(2) m assms(3)]
    by (simp add: parse_v3_header_def V3_HEADER_SIZE_def v3_image_def)
  then show ?thesis
    using seal_dispatch [OF m assms(3), where b = b and version = V3_VERSION and ep = ep and payload = payload] unfolding bs
    by (simp add: deserialize_checkpoint_bytes_def Let_def V3_MAGIC_def CHECKPOINT_MAGIC_def V3_VERSION_def)
qed

lemma v4_bytes_roundtrip:
  assumes "bincode_reads_back bc" "digest32 b" "node_wf node" "length live = length ds"
    "serialize_v4_bytes b bc ds sch ep node live = Inr bs"
  shows "deserialize_checkpoint_bytes b bc bs =
    Inr \<lparr>cd_epoch = ep, cd_genesis_node = node, cd_schema_pairs = sch, cd_datoms = ds, cd_live_bits = Some live\<rparr>"
proof -
  let ?p = "\<lparr>p4_schema = sch, p4_entities = map d_entity ds, p4_attributes = map (as_str \<circ> d_attribute) ds,
         p4_values = map d_value ds, p4_tx_ids = map d_tx ds, p4_ops = map (\<lambda>d. d_op d = Assert) ds, p4_live = live\<rparr>"
  obtain payload where p: "ser_v4 bc ?p = Some payload" and bs: "bs = seal b V4_MAGIC V4_VERSION ep node payload"
    using assms(5) by (auto simp: serialize_v4_bytes_def split: option.splits)
  have m: "length V4_MAGIC = 4" by (simp add: V4_MAGIC_def)
  note h = header_fields [OF m assms(3), where version = V4_VERSION and ep = ep]
  have de: "de_v4 bc payload = Some (v4_image ?p)" using assms(1) p by (simp add: bincode_reads_back_def)
  have col: "map (\<lambda>((((e, a), v), x), b). Datom (wire_entity_into_trusted e) (Attribute a) (wire_value_into_trusted v) x (if b then Assert else Retract))
      (zip (zip (zip (zip (map (entity_to_wire \<circ> d_entity) ds) (map (as_str \<circ> d_attribute) ds)) (map (value_to_wire \<circ> d_value) ds)) (map d_tx ds))
        (map (\<lambda>d. d_op d = Assert) ds)) = ds"
  proof (induction ds)
    case (Cons d ds)
    have "(if d_op d = Assert then Assert else Retract) = d_op d" by (cases "d_op d") simp_all
    with Cons show ?case by simp
  qed simp
  have "deserialize_v4_bytes b bc bs =
      Inr \<lparr>cd_epoch = ep, cd_genesis_node = node, cd_schema_pairs = sch, cd_datoms = ds, cd_live_bits = Some live\<rparr>"
    using h de assms(4) col unfolding bs deserialize_v4_bytes_def verify_seal [OF assms(2) m assms(3)]
    by (simp add: parse_v4_header_def V3_HEADER_SIZE_def v4_image_def validate_column_lengths_def)
  then show ?thesis
    using seal_dispatch [OF m assms(3), where b = b and version = V4_VERSION and ep = ep and payload = payload] unfolding bs
    by (simp add: deserialize_checkpoint_bytes_def Let_def V3_MAGIC_def V4_MAGIC_def CHECKPOINT_MAGIC_def)
qed

lemma partition_live_spec:
  assumes "length live = length ds"
  shows "partition_live ds live = (map fst (filter snd (zip ds live)), map fst (filter (\<lambda>(_, l). \<not> l) (zip ds live)))"
proof -
  have "fold (\<lambda>(i, d) (xs, ys). if (if i < length live then Some (live ! i) else None) = Some True then (xs @ [d], ys) else (xs, ys @ [d]))
      (enumerate k zs) (xs, ys) =
      (xs @ map fst (filter snd (zip zs (drop k live))), ys @ map fst (filter (\<lambda>(_, l). \<not> l) (zip zs (drop k live))))"
    if "k + length zs = length live" for k zs xs ys
    using that
  proof (induction zs arbitrary: k xs ys)
    case (Cons z zs)
    then have k: "k < length live" by simp
    then have "drop k live = live ! k # drop (Suc k) live" by (simp add: Cons_nth_drop_Suc)
    with Cons.IH [of "Suc k"] Cons.prems k show ?case by simp
  qed simp
  from this [of 0 ds] assms show ?thesis by (simp add: partition_live_def)
qed

lemma partition_live_sorted:
  assumes "length live = length ds" "strict_sorted ds" "partition_live ds live = (xs, ys)"
  shows "strict_sorted xs" "strict_sorted ys" "set xs \<union> set ys = set ds" "set xs = {ds ! i | i. i < length ds \<and> live ! i}"
proof -
  have z: "map fst (zip ds live) = ds" using assms(1) by simp
  have "sorted_wrt (\<lambda>a b. fst a < fst b) (zip ds live)" using assms(2) z by (metis sorted_wrt_map)
  then have "sorted_wrt (\<lambda>a b. fst a < fst b) (filter P (zip ds live))" for P by (rule sorted_wrt_filter)
  then show "strict_sorted xs" "strict_sorted ys"
    using assms(3) unfolding partition_live_spec [OF assms(1)] by (auto simp: sorted_wrt_map)
  have "set (map fst (filter snd (zip ds live))) \<union> set (map fst (filter (\<lambda>(_, l). \<not> l) (zip ds live))) = set ds"
    using assms(1) [symmetric] by (induction ds live rule: list_induct2) auto
  then show "set xs \<union> set ys = set ds" using assms(3) unfolding partition_live_spec [OF assms(1)] prod.inject by blast
  show "set xs = {ds ! i | i. i < length ds \<and> live ! i}"
    using assms(1,3) unfolding partition_live_spec [OF assms(1)] by (force simp: set_zip)
qed


text \<open>The LIVE bits a checkpoint stores are those of the datoms, whatever the representation.\<close>

lemma extract_live_bits:
  assumes "store_inv b s"
  shows "cd_live_bits (extract_checkpoint_data s) = Some (build_live_bitvector_pub (datoms s))"
  using assms build_live_bitvector_clone [of "datoms s" b]
  by (cases "repr s") (auto simp: extract_checkpoint_data_def store_inv_def ps_inv_def datoms_def)

lemma length_build_live [simp]: "length (build_live_bitvector_pub ds) = length ds"
  by (simp add: build_live_bitvector_pub_def)

lemma live_first_partial_roundtrip:
  assumes "bincode_reads_back bc" "digest32 b" "node_wf node"
    "serialize_v3_live_first b bc ds sch ep node live = Inr bs" "partition_live ds live = (xs, ys)"
  shows "deserialize_v3_live_first_partial b bc bs =
    Inr \<lparr>pc_epoch = ep, pc_genesis_node = node, pc_schema_pairs = sch, pc_live_datoms = xs, pc_hist_datoms = ys\<rparr>"
    "deserialize_checkpoint_bytes b bc bs = deserialize_v3_live_first_full b bc bs"
proof -
  let ?p = "\<lparr>plf_schema = sch, plf_live = xs, plf_hist = ys\<rparr>"
  obtain payload where p: "ser_lf bc ?p = Some payload" and bs: "bs = seal b V3_MAGIC V3_LIVE_FIRST_VERSION ep node payload"
    using assms(4,5) by (auto simp: serialize_v3_live_first_def split: option.splits)
  have m: "length V3_MAGIC = 4" by (simp add: V3_MAGIC_def)
  note h = header_fields [OF m assms(3), where version = V3_LIVE_FIRST_VERSION and ep = ep]
  have de: "de_lf bc payload = Some (lf_image ?p)" using assms(1) p by (simp add: bincode_reads_back_def)
  show "deserialize_v3_live_first_partial b bc bs =
      Inr \<lparr>pc_epoch = ep, pc_genesis_node = node, pc_schema_pairs = sch, pc_live_datoms = xs, pc_hist_datoms = ys\<rparr>"
    using h de unfolding bs deserialize_v3_live_first_partial_def verify_seal [OF assms(2) m assms(3)]
    by (simp add: parse_v3_header_versioned_def parse_versioned_def V3_HEADER_SIZE_def lf_image_def)
  show "deserialize_checkpoint_bytes b bc bs = deserialize_v3_live_first_full b bc bs"
    using seal_dispatch [OF m assms(3), where b = b and version = V3_LIVE_FIRST_VERSION and ep = ep and payload = payload] unfolding bs
    by (simp add: deserialize_checkpoint_bytes_def Let_def V3_MAGIC_def CHECKPOINT_MAGIC_def V3_LIVE_FIRST_VERSION_def)
qed

lemma live_first_full_roundtrip:
  assumes "bincode_reads_back bc" "digest32 b" "node_wf node" "strict_sorted ds"
    "serialize_v3_live_first b bc ds sch ep node (build_live_bitvector_pub ds) = Inr bs"
  shows "deserialize_checkpoint_bytes b bc bs =
    Inr \<lparr>cd_epoch = ep, cd_genesis_node = node, cd_schema_pairs = sch, cd_datoms = ds, cd_live_bits = Some (build_live_bitvector_pub ds)\<rparr>"
proof -
  obtain xs ys where xy: "partition_live ds (build_live_bitvector_pub ds) = (xs, ys)" by fastforce
  note p = partition_live_sorted [OF length_build_live assms(4) xy]
  have "merge_sort_dedup xs ys = ds" using p assms(4) by (intro strict_sorted_set_unique) simp_all
  with live_first_partial_roundtrip [OF assms(1-3,5) xy] show ?thesis
    by (simp add: deserialize_v3_live_first_full_def Let_def)
qed

lemma extract_fields:
  "cd_epoch (extract_checkpoint_data s) = epoch s" "cd_genesis_node (extract_checkpoint_data s) = genesis_node s"
  "cd_datoms (extract_checkpoint_data s) = datoms s"
  by (simp_all add: extract_checkpoint_data_def)

text \<open>All three writers restore the extracted data.\<close>

lemma checkpoint_bytes_roundtrip:
  assumes "bincode_reads_back bc" "digest32 b" "node_wf (genesis_node s)" "store_inv b s"
    "Inr bs \<in> {serialize_checkpoint_bytes b bc (extract_checkpoint_data s), serialize_live_first_bytes b bc (extract_checkpoint_data s),
      serialize_v4_checkpoint_bytes b bc (extract_checkpoint_data s)}"
  shows "deserialize_checkpoint_bytes b bc bs = Inr (extract_checkpoint_data s)"
proof -
  let ?data = "extract_checkpoint_data s"
  note live = extract_live_bits [OF assms(4)]
  have data: "\<lparr>cd_epoch = epoch s, cd_genesis_node = genesis_node s, cd_schema_pairs = cd_schema_pairs ?data,
      cd_datoms = datoms s, cd_live_bits = Some (build_live_bitvector_pub (datoms s))\<rparr> = ?data"
    by (rule checkpoint_data.equality) (simp_all add: live extract_fields)
  have req: "require_live_bits ?data = Inr (build_live_bitvector_pub (datoms s))" by (simp add: require_live_bits_def live)
  consider "serialize_v3_bytes b bc (datoms s) (cd_schema_pairs ?data) (epoch s) (genesis_node s) (build_live_bitvector_pub (datoms s)) = Inr bs"
    | "serialize_v3_live_first b bc (datoms s) (cd_schema_pairs ?data) (epoch s) (genesis_node s) (build_live_bitvector_pub (datoms s)) = Inr bs"
    | "serialize_v4_bytes b bc (datoms s) (cd_schema_pairs ?data) (epoch s) (genesis_node s) (build_live_bitvector_pub (datoms s)) = Inr bs"
    using assms(5) by (auto simp: serialize_checkpoint_bytes_def serialize_live_first_bytes_def serialize_v4_checkpoint_bytes_def req extract_fields)
  then show ?thesis
  proof cases
    case 1
    show ?thesis using v3_bytes_roundtrip [OF assms(1-3) length_build_live 1] unfolding data .
  next
    case 2
    show ?thesis using live_first_full_roundtrip [OF assms(1-3) strict_sorted_datoms [OF assms(4)] 2] unfolding data .
  next
    case 3
    show ?thesis using v4_bytes_roundtrip [OF assms(1-3) length_build_live 3] unfolding data .
  qed
qed


text \<open>The live part of a store: the same LIVE view, every datom live.\<close>

lemma live_bits_latest:
  assumes "strict_sorted ds" "length ds \<le> u32_max" "i < length ds"
  shows "build_live_bitvector_pub ds ! i \<longleftrightarrow> d_op (ds ! i) = Assert \<and> latest (set ds) (ds ! i)"
proof -
  have "\<forall>p \<in> set (live_positions_kernel ds). p < length ds"
    using live_roaring_latest [OF assms(1,2)] by simp
  then have "build_live_bitvector_pub ds ! i \<longleftrightarrow> i \<in> set (live_positions_kernel ds)"
    using assms(3) by (simp add: build_live_bitvector_pub_def nth_fold_set_bits)
  then show ?thesis using live_roaring_latest [OF assms(1,2), of i] assms(3) by simp
qed

lemma live_part:
  assumes "strict_sorted ds" "length ds \<le> u32_max" "partition_live ds (build_live_bitvector_pub ds) = (xs, ys)"
  shows "set xs = {d. d_op d = Assert \<and> latest (set ds) d}" "\<And>d. d \<in> set xs \<Longrightarrow> latest (set xs) d"
    "op_consistent (set xs)"
proof -
  show x: "set xs = {d. d_op d = Assert \<and> latest (set ds) d}"
  proof -
    have "latest (set ds) d \<Longrightarrow> \<exists>i < length ds. d = ds ! i" for d by (auto simp: latest_def in_set_conv_nth)
    then show ?thesis
      unfolding partition_live_sorted(4) [OF length_build_live assms(1,3)] using live_bits_latest [OF assms(1,2)] by blast
  qed
  show "latest (set xs) d" if "d \<in> set xs" for d using that unfolding x latest_def by blast
  show "op_consistent (set xs)" unfolding x op_consistent_def by auto
qed

lemma live_part_view:
  assumes "strict_sorted ds" "length ds \<le> u32_max" "partition_live ds (build_live_bitvector_pub ds) = (xs, ys)"
    "op_consistent (set ds)"
  shows "derive_live_set (build_live_causal xs) = derive_live_set (build_live_causal ds)"
proof (rule live_ext)
  show "live_inv (derive_live_set (build_live_causal xs))" "live_inv (derive_live_set (build_live_causal ds))"
    using causal_ofD(1) [OF causal_of_build] by (blast intro: live_inv_derive)+
  note p = live_part [OF assms(1-3)]
  have "v \<in> live_at (derive_live_set (build_live_causal xs)) (e, a) \<longleftrightarrow> v \<in> live_at (derive_live_set (build_live_causal ds)) (e, a)" for v e a
    unfolding live_at_latest [OF p(3)] live_at_latest [OF assms(4)] using p(1,2) by (auto simp: latest_def)
  then show "live_at (derive_live_set (build_live_causal xs)) k = live_at (derive_live_set (build_live_causal ds)) k" for k
    by (cases k) blast
qed

lemma live_part_store:
  assumes "strict_sorted ds" "length ds \<le> u32_max" "partition_live ds (build_live_bitvector_pub ds) = (xs, ys)"
  shows "from_sorted_with_live b xs (replicate (length xs) True) = Inr (from_sorted_canonical b xs)"
proof -
  note p = live_part [OF assms] and q = partition_live_sorted [OF length_build_live assms(1,3)]
  have "length xs \<le> length ds" using partition_live_spec [OF length_build_live, of ds] assms(3)
    by (auto intro: order_trans [OF length_filter_le])
  then have l: "length xs \<le> u32_max" using assms(2) by simp
  have "build_live_bitvector_pub xs = replicate (length xs) True"
  proof (rule nth_equalityI)
    fix i assume "i < length (build_live_bitvector_pub xs)"
    then have i: "i < length xs" by simp
    then have "xs ! i \<in> set xs" by simp
    with p(1) have "d_op (xs ! i) = Assert" by blast
    with p(2) [OF \<open>xs ! i \<in> set xs\<close>] live_bits_latest [OF q(1) l i] i
    show "build_live_bitvector_pub xs ! i = replicate (length xs) True ! i" by simp
  qed simp
  moreover have "ps_inv b (from_sorted_canonical b xs)" "ps_len (from_sorted_canonical b xs) \<le> u32_max"
    using q(1) l by (simp_all add: ps_len_def)
  ultimately show ?thesis
    using from_sorted_with_live_restore [of b "from_sorted_canonical b xs"] build_live_bitvector_clone [of xs b] by simp
qed

section \<open>Properties\<close>

text \<open>C8 Checkpoint round trip. Whatever of the three formats a store is written in, loading the bytes gives
  back the store in positional form, with its schema, epoch, genesis node, datoms, LIVE state and
  fingerprint. The hypotheses are that \<open>bincode\<close> reads back what it wrote, that digests have 32 bytes and
  node ids 16, that the store satisfies its invariant, that its positions fit 32 bits and that no triple
  is asserted and retracted by one transaction.\<close>

theorem checkpoint_roundtrip:
  assumes "bincode_reads_back bc" "digest32 b" "node_wf (genesis_node s)" "store_inv b s" "store_len s \<le> u32_max"
    "op_consistent (set (datoms s))"
    "Inr bs \<in> {checkpoint_store b bc s, checkpoint_store_live_first b bc s, serialize_v4_checkpoint_bytes b bc (extract_checkpoint_data s)}"
  shows "load_store b bc bs = Inr ((demote b s)\<lparr>schema_conflicts := []\<rparr>)"
  using checkpoint_bytes_roundtrip [OF assms(1-4)] checkpoint_data_roundtrip [OF assms(4-6)] assms(7)
  by (simp add: load_store_def checkpoint_store_def checkpoint_store_live_first_def)

definition zero_digest :: "bytes \<Rightarrow> bytes" where
  "zero_digest = (\<lambda>_. replicate 32 0)"

lemma zero_digest: "digest32 zero_digest" "node_wf (genesis_node (genesis b))" "datoms (genesis b) = []"
  "store_len (genesis b) \<le> u32_max" "epoch (genesis b) = 0" "op_consistent (set (datoms (genesis b)))"
  by (simp_all add: digest32_def zero_digest_def genesis_def datoms_def sort_dedup_def node_wf_def zero_node_def store_len_def
      ps_len_def op_consistent_def)

lemma genesis_written:
  obtains bc bs where "bincode_reads_back bc" "checkpoint_store zero_digest bc (genesis zero_digest) = Inr bs"
proof -
  let ?s = "genesis zero_digest"
  let ?bc = "one_value_bincode [] \<lparr>p3_schema = cd_schema_pairs (extract_checkpoint_data ?s), p3_datoms = datoms ?s,
      p3_live = build_live_bitvector_pub (datoms ?s)\<rparr> undefined undefined"
  have "\<exists>bs. checkpoint_store zero_digest ?bc ?s = Inr bs"
    using extract_live_bits [OF store_inv_genesis, of zero_digest]
    by (simp add: checkpoint_store_def serialize_checkpoint_bytes_def require_live_bits_def serialize_v3_bytes_def
        one_value_bincode_def extract_fields)
  with one_value_bincode_reads_back show thesis using that by blast
qed

theorem checkpoint_roundtrip_witness:
  "\<exists>bc bs. checkpoint_store zero_digest bc (genesis zero_digest) = Inr bs \<and>
     load_store zero_digest bc bs = Inr ((demote zero_digest (genesis zero_digest))\<lparr>schema_conflicts := []\<rparr>)"
proof -
  obtain bc bs where bs: "bincode_reads_back bc" "checkpoint_store zero_digest bc (genesis zero_digest) = Inr bs"
    by (rule genesis_written)
  with checkpoint_roundtrip [OF bs(1) zero_digest(1,2) store_inv_genesis zero_digest(4,6), where bs = bs] show ?thesis by auto
qed

lemma loader_outcome:
  "deserialize_checkpoint_bytes b bc bs = Inl CheckpointCorrupted \<or>
   (\<exists>cd. deserialize_checkpoint_bytes b bc bs = Inr cd \<and> 54 \<le> length bs \<and>
      take 4 bs \<in> {CHECKPOINT_MAGIC, V3_MAGIC, V4_MAGIC} \<and>
      drop (length bs - 32) bs = b (take (length bs - 32) bs) \<and> cd_epoch cd = from_le_bytes (take 8 (drop 6 bs)))"
proof -
  have slices: "take 8 (drop 6 (take (length bs - 32) bs)) = take 8 (drop 6 bs)" if "54 \<le> length bs"
    using that by (simp add: drop_take)
  note d = V3_HEADER_SIZE_def V2_HEADER_SIZE_def HASH_SIZE_def verify_blake3_def
  have v2: "deserialize_v2_bytes b bc bs = Inl CheckpointCorrupted \<or> (\<exists>cd. deserialize_v2_bytes b bc bs = Inr cd \<and> 54 \<le> length bs \<and>
      drop (length bs - 32) bs = b (take (length bs - 32) bs) \<and> cd_epoch cd = from_le_bytes (take 8 (drop 6 bs)))"
    using slices by (auto simp: deserialize_v2_bytes_def parse_header_def d into_parts_def Let_def split: option.splits)
  have v3: "deserialize_v3_bytes b bc bs = Inl CheckpointCorrupted \<or> (\<exists>cd. deserialize_v3_bytes b bc bs = Inr cd \<and> 54 \<le> length bs \<and>
      drop (length bs - 32) bs = b (take (length bs - 32) bs) \<and> cd_epoch cd = from_le_bytes (take 8 (drop 6 bs)))"
    using slices by (auto simp: deserialize_v3_bytes_def parse_v3_header_def d Let_def split: option.splits)
  have lf: "deserialize_v3_live_first_full b bc bs = Inl CheckpointCorrupted \<or> (\<exists>cd. deserialize_v3_live_first_full b bc bs = Inr cd \<and>
      54 \<le> length bs \<and> drop (length bs - 32) bs = b (take (length bs - 32) bs) \<and> cd_epoch cd = from_le_bytes (take 8 (drop 6 bs)))"
    using slices by (auto simp: deserialize_v3_live_first_full_def deserialize_v3_live_first_partial_def
        parse_v3_header_versioned_def parse_versioned_def d Let_def split: option.splits)
  have v4: "deserialize_v4_bytes b bc bs = Inl CheckpointCorrupted \<or> (\<exists>cd. deserialize_v4_bytes b bc bs = Inr cd \<and> 54 \<le> length bs \<and>
      drop (length bs - 32) bs = b (take (length bs - 32) bs) \<and> cd_epoch cd = from_le_bytes (take 8 (drop 6 bs)))"
    using slices by (auto simp: deserialize_v4_bytes_def parse_v4_header_def validate_column_lengths_def d Let_def split: option.splits)
  show ?thesis
    using v2 v3 lf v4 by (simp add: deserialize_checkpoint_bytes_def Let_def)
qed

text \<open>C9 Only sealed bytes are accepted. The loader either reports a corrupted checkpoint or accepts bytes
  of at least 54 bytes that begin with a known magic and end with the hash of everything before, and then
  the epoch is the one in the header. So a change of any byte of the content is rejected unless it
  collides under the hash, and a change of the stored hash is always rejected.\<close>

theorem checkpoint_integrity:
  "deserialize_checkpoint_bytes b bc bs = Inl CheckpointCorrupted \<or>
   (\<exists>cd. deserialize_checkpoint_bytes b bc bs = Inr cd \<and> 54 \<le> length bs \<and>
      take 4 bs \<in> {CHECKPOINT_MAGIC, V3_MAGIC, V4_MAGIC} \<and>
      drop (length bs - 32) bs = b (take (length bs - 32) bs) \<and> cd_epoch cd = from_le_bytes (take 8 (drop 6 bs)))"
  by (rule loader_outcome)

text \<open>The temporary file is not the checkpoint under another name; new files get numbers not in use.\<close>

definition tmp_apart :: "filesystem \<Rightarrow> string \<Rightarrow> string \<Rightarrow> bool" where
  "tmp_apart fs tmp path \<longleftrightarrow>
     tmp \<noteq> path \<and> (\<forall>i. fs_dir fs tmp = Some i \<longrightarrow> fs_dir fs path \<noteq> Some i \<and> fs_disk fs path \<noteq> Some i) \<and>
     (\<forall>i. fs_dir fs path = Some i \<or> fs_disk fs path = Some i \<longrightarrow> i < fs_next fs)"

text \<open>Before the rename the checkpoint's entries and their files are what they were.\<close>

definition untouched :: "string \<Rightarrow> filesystem \<Rightarrow> filesystem \<Rightarrow> bool" where
  "untouched path fs fs' \<longleftrightarrow>
     fs_dir fs' path = fs_dir fs path \<and> fs_disk fs' path = fs_disk fs path \<and>
     (\<forall>i. fs_dir fs path = Some i \<or> fs_disk fs path = Some i \<longrightarrow> fs_file fs' i = fs_file fs i)"

lemma untouched_reads:
  assumes "untouched path fs fs'"
  shows "read_file fs' path = read_file fs path" "crash_reads fs' path c \<longleftrightarrow> crash_reads fs path c"
proof -
  note u = assms [unfolded untouched_def]
  show "read_file fs' path = read_file fs path" using u by (cases "fs_dir fs path") (simp_all add: read_file_def)
  show "crash_reads fs' path c \<longleftrightarrow> crash_reads fs path c"
    using u by (cases "fs_dir fs path"; cases "fs_disk fs path") (simp_all add: crash_reads_def)
qed

lemma fs_create_tmp:
  assumes "tmp_apart fs tmp path"
  obtains i where "fs_dir (fs_create tmp fs) tmp = Some i" "untouched path fs (fs_create tmp fs)"
    "fs_dir fs path \<noteq> Some i" "fs_disk fs path \<noteq> Some i"
proof (cases "fs_dir fs tmp")
  case None
  then show thesis using assms by (intro that [of "fs_next fs"]) (auto simp: fs_create_def tmp_apart_def untouched_def)
next
  case (Some i)
  then show thesis using assms by (intro that [of i]) (auto simp: fs_create_def tmp_apart_def untouched_def)
qed

lemma write_atomically_outcome:
  assumes apart: "tmp_apart fs tmp path" and w: "write_atomically en tmp path buf fs = (fs', r)"
  shows "(\<forall>c. crash_reads fs' path c \<longrightarrow> crash_reads fs path c \<or> c = Some buf) \<and>
    read_file fs' path \<in> {read_file fs path, Some buf} \<and>
    (r = Some (Inr ()) \<longrightarrow> read_file fs' path = Some buf \<and> (\<forall>c. crash_reads fs' path c \<longrightarrow> c = Some buf)) \<and>
    (ce_rename en \<noteq> Done \<longrightarrow> read_file fs' path = read_file fs path) \<and>
    (\<not> ce_parent en \<longrightarrow> fs' = fs \<and> r = Some (Inl (CheckpointWrite ''path has no parent directory'')))"
proof -
  obtain i where i: "fs_dir (fs_create tmp fs) tmp = Some i" "untouched path fs (fs_create tmp fs)"
    "fs_dir fs path \<noteq> Some i" "fs_disk fs path \<noteq> Some i" by (rule fs_create_tmp [OF apart])
  have tp: "tmp \<noteq> path" using apart by (simp add: tmp_apart_def)
  have put: "fs_dir (fs_put tmp bs g) tmp = Some i \<and> untouched path fs (fs_put tmp bs g)"
    if "fs_dir g tmp = Some i" "untouched path fs g" for bs g
    using that i(3,4) by (auto simp: fs_put_def untouched_def)
  define f1 f2 f3 f4 f5 where f: "f1 = fs_create tmp fs" "f2 = fs_put tmp (take (ce_written en) buf) f1"
    "f3 = fs_put tmp buf f2" "f4 = fs_sync tmp f3" "f5 = fs_rename tmp path f4"
  have u1: "fs_dir f1 tmp = Some i" "untouched path fs f1" using i f by simp_all
  have u2: "fs_dir f2 tmp = Some i" "untouched path fs f2" using put [OF u1] f by simp_all
  have u2': "untouched path fs (fs_put tmp (take (ce_flushed en) buf) f2)" using put [OF u2] by simp
  have u3: "fs_dir f3 tmp = Some i" "untouched path fs f3" using put [OF u2] f by simp_all
  have u4: "fs_dir f4 tmp = Some i" "untouched path fs f4" "fs_file f4 i = \<lparr>f_bytes = buf, f_synced = True\<rparr>"
    using u3 u2 i(3,4) f by (auto simp: fs_sync_def fs_put_def untouched_def)
  have u5: "fs_dir f5 path = Some i" "fs_disk f5 path = fs_disk fs path" "fs_file f5 = fs_file f4"
    using u4 tp f by (auto simp: fs_rename_def untouched_def)
  have r5: "read_file f5 path = Some buf" "\<And>c. crash_reads f5 path c \<Longrightarrow> crash_reads fs path c \<or> c = Some buf"
  proof -
    show "read_file f5 path = Some buf" using u4(3) u5 by (simp add: read_file_def)
    fix c assume "crash_reads f5 path c"
    then show "crash_reads fs path c \<or> c = Some buf"
      using u4(2,3) unfolding crash_reads_def u5 untouched_def by (auto split: option.splits)
  qed
  have r6: "read_file (fs_sync_dir f5) path = Some buf" "\<And>c. crash_reads (fs_sync_dir f5) path c \<Longrightarrow> c = Some buf"
    using u4(3) u5 by (auto simp: fs_sync_dir_def read_file_def crash_reads_def)
  note U = untouched_reads [OF u1(2)] untouched_reads [OF u2(2)] untouched_reads [OF u2'] untouched_reads [OF u3(2)] untouched_reads [OF u4(2)]
  consider "\<not> ce_parent en" "fs' = fs" "r = Some (Inl (CheckpointWrite ''path has no parent directory''))"
    | "ce_parent en" "fs' = fs" "r \<noteq> Some (Inr ())"
    | "ce_parent en" "fs' \<in> {f2, fs_put tmp (take (ce_flushed en) buf) f2, f3, f4}" "r \<noteq> Some (Inr ())"
    | "ce_parent en" "fs' = f5" "r \<noteq> Some (Inr ())" "ce_rename en = Done"
    | "ce_parent en" "fs' = fs_sync_dir f5" "r = Some (Inr ())" "ce_rename en = Done"
    using w by (auto simp: write_atomically_def os_call_def fsync_parent_dir_def f split: if_splits io_outcome.splits)
  then show ?thesis
  proof cases
    case 3
    then show ?thesis using U by auto
  qed (use r5 r6 in auto)
qed

text \<open>C22 Writing a checkpoint is atomic, for the plain and the LIVE-first writer. Wherever the write stops, with an
  error of any call, by the death of the process at any call, or at its end, the checkpoint file then read is
  the old one or the complete new one, and so it is after a power failure, provided that the old one was safe:
  what can then be read could have been read before, or loads as the checkpointed data. After a successful
  write the file loads as the checkpointed data, also after a power failure. As long as the rename has not
  happened the old file is read; a path without parent directory is refused with nothing changed. (The
  temporary file must not be the checkpoint under another name.)\<close>

theorem checkpoint_write_atomic:
  assumes "bincode_reads_back bc" "digest32 b" "node_wf (genesis_node s)" "store_inv b s"
    "(tmp, write) \<in> {(checkpoint_tmp pid, write_checkpoint), (checkpoint_lf_tmp pid, write_checkpoint_live_first)}"
    "tmp_apart fs tmp path" "write b bc en pid path (extract_checkpoint_data s) fs = (fs', r)"
  shows "(\<forall>c. crash_reads fs' path c \<longrightarrow> crash_reads fs path c \<or> load_checkpoint_data b bc c = Inr (extract_checkpoint_data s)) \<and>
    (read_file fs' path = read_file fs path \<or> load_checkpoint_data b bc (read_file fs' path) = Inr (extract_checkpoint_data s)) \<and>
    (r = Some (Inr ()) \<longrightarrow> load_checkpoint_data b bc (read_file fs' path) = Inr (extract_checkpoint_data s) \<and>
       (\<forall>c. crash_reads fs' path c \<longrightarrow> load_checkpoint_data b bc c = Inr (extract_checkpoint_data s))) \<and>
    (ce_rename en \<noteq> Done \<longrightarrow> read_file fs' path = read_file fs path) \<and>
    (\<not> ce_parent en \<longrightarrow> fs' = fs \<and> (\<exists>e. r = Some (Inl e)))"
proof -
  let ?data = "extract_checkpoint_data s"
  obtain ser where ser: "write b bc en pid path ?data fs =
      (case ser of Inl e \<Rightarrow> (fs, Some (Inl e)) | Inr buf \<Rightarrow> write_atomically en tmp path buf fs)"
    "ser \<in> {serialize_checkpoint_bytes b bc ?data, serialize_live_first_bytes b bc ?data}"
    using assms(5) by (auto simp: write_checkpoint_def write_checkpoint_live_first_def)
  show ?thesis
  proof (cases ser)
    case (Inl e)
    with ser(1) assms(7) show ?thesis by auto
  next
    case (Inr buf)
    have "load_checkpoint_data b bc (Some buf) = Inr ?data"
      using checkpoint_bytes_roundtrip [OF assms(1-4), of buf] ser(2) Inr by (auto simp: load_checkpoint_data_def)
    with write_atomically_outcome [OF assms(6), of en buf fs' r] ser(1) assms(7) Inr show ?thesis by auto
  qed
qed

definition demo_fs :: filesystem where
  "demo_fs = \<lparr>fs_file = (\<lambda>_. \<lparr>f_bytes = [7], f_synced = True\<rparr>), fs_dir = [''ckpt'' \<mapsto> 0], fs_disk = [''ckpt'' \<mapsto> 0], fs_next = 1\<rparr>"

definition demo_calls :: checkpoint_env where
  "demo_calls = \<lparr>ce_parent = True, ce_create = Done, ce_write = Done, ce_written = 0, ce_flush = Done, ce_flushed = 0,
     ce_sync = Done, ce_rename = Done, ce_open_dir = Done, ce_sync_dir = Done\<rparr>"

text \<open>A checkpoint file with one byte is replaced; the process that dies at the sync leaves it as it was.\<close>

theorem checkpoint_write_atomic_witness:
  "\<exists>bc fs' fs''. write_checkpoint zero_digest bc demo_calls ''1'' ''ckpt'' (extract_checkpoint_data (genesis zero_digest)) demo_fs = (fs', Some (Inr ())) \<and>
     load_checkpoint_data zero_digest bc (read_file fs' ''ckpt'') = Inr (extract_checkpoint_data (genesis zero_digest)) \<and>
     write_checkpoint zero_digest bc (demo_calls\<lparr>ce_sync := Died, ce_rename := Died\<rparr>) ''1'' ''ckpt'' (extract_checkpoint_data (genesis zero_digest)) demo_fs
       = (fs'', None) \<and> read_file fs'' ''ckpt'' = Some [7]"
proof -
  obtain bc bs where bs: "bincode_reads_back bc" "checkpoint_store zero_digest bc (genesis zero_digest) = Inr bs"
    by (rule genesis_written)
  let ?w = "\<lambda>en. write_checkpoint zero_digest bc en ''1'' ''ckpt'' (extract_checkpoint_data (genesis zero_digest)) demo_fs"
  let ?en = "demo_calls\<lparr>ce_sync := Died, ce_rename := Died\<rparr>"
  have apart: "tmp_apart demo_fs (checkpoint_tmp ''1'') ''ckpt''" by (simp add: tmp_apart_def demo_fs_def checkpoint_tmp_def)
  note atomic = checkpoint_write_atomic [OF bs(1) zero_digest(1,2) store_inv_genesis insertI1 apart]
  obtain fs' where w1: "?w demo_calls = (fs', Some (Inr ()))"
    using bs(2) by (simp add: write_checkpoint_def checkpoint_store_def write_atomically_def os_call_def fsync_parent_dir_def demo_calls_def)
  obtain fs'' where w2: "?w ?en = (fs'', None)"
    using bs(2) by (simp add: write_checkpoint_def checkpoint_store_def write_atomically_def os_call_def demo_calls_def)
  have "read_file demo_fs ''ckpt'' = Some [7]" by (simp add: read_file_def demo_fs_def)
  with atomic [OF w1] atomic [OF w2] w1 w2 show ?thesis by (intro exI [of _ bc] exI [of _ fs'] exI [of _ fs'']) simp
qed

text \<open>The LIVE-first partial load. From a LIVE-first checkpoint the partial loader builds a store that
  holds exactly the live datoms, with the epoch, schema and LIVE view of the checkpointed store; loading
  the history afterwards gives the whole store.\<close>

theorem live_first_partial_load:
  assumes "bincode_reads_back bc" "digest32 b" "node_wf (genesis_node s)" "store_inv b s" "store_len s \<le> u32_max"
    "op_consistent (set (datoms s))" "checkpoint_store_live_first b bc s = Inr bs"
  shows "\<exists>p. load_live_first_partial b bc bs = Inr p \<and>
    set (datoms (ps_store p)) = {d. d_op d = Assert \<and> latest (set (datoms s)) d} \<and>
    st_live (ps_store p) = st_live s \<and> epoch (ps_store p) = epoch s \<and> st_schema (ps_store p) = st_schema s \<and>
    load_historical b p = Inr ((demote b s)\<lparr>schema_conflicts := []\<rparr>)"
proof -
  let ?data = "extract_checkpoint_data s" and ?ds = "datoms s"
  have l: "length ?ds \<le> u32_max" using assms(5) by (simp add: store_len_def datoms_def ps_len_def split: store_repr.splits)
  note srt = strict_sorted_datoms [OF assms(4)]
  obtain xs ys where xy: "partition_live ?ds (build_live_bitvector_pub ?ds) = (xs, ys)" by fastforce
  note q = partition_live_sorted [OF length_build_live srt xy]
  have ser: "serialize_v3_live_first b bc ?ds (cd_schema_pairs ?data) (epoch s) (genesis_node s) (build_live_bitvector_pub ?ds) = Inr bs"
    using assms(7) extract_live_bits [OF assms(4)]
    by (simp add: checkpoint_store_live_first_def serialize_live_first_bytes_def require_live_bits_def extract_fields)
  note part = live_first_partial_roundtrip(1) [OF assms(1-3) ser xy]
  let ?ps = "\<lparr>repr = RPositional (from_sorted_canonical b xs), st_schema = define_named (cd_schema_pairs ?data), epoch = epoch s,
      genesis_node = genesis_node s, st_causal = build_live_causal xs, st_live = derive_live_set (build_live_causal xs), schema_conflicts = []\<rparr>"
  let ?p = "\<lparr>ps_store = ?ps, ps_hist_datoms = ys, ps_schema_pairs = cd_schema_pairs ?data\<rparr>"
  have "load_live_first_partial b bc bs = Inr ?p"
    by (simp add: load_live_first_partial_def part from_checkpoint_v3_def live_part_store [OF srt l xy] Let_def)
  moreover have "datoms ?ps = xs" by (simp add: datoms_def)
  moreover have m: "merge_sort_dedup xs ys = ?ds" using q srt by (intro strict_sorted_set_unique) simp_all
  have causal: "st_causal s = build_live_causal ?ds"
    using assms(4) by (intro causal_of_unique [OF _ causal_of_build assms(6)]) (simp add: store_inv_def)
  have "st_live s = derive_live_set (build_live_causal xs)"
    using live_part_view [OF srt l xy assms(6)] assms(4) causal by (simp add: store_inv_def)
  moreover have "define_named (cd_schema_pairs ?data) = st_schema s"
    using schema_pairs_define [OF store_inv_schema [OF assms(4)]] by (simp add: extract_checkpoint_data_def)
  moreover have "load_historical b ?p = store_from_checkpoint_data b ?data"
    using m \<open>datoms ?ps = xs\<close> extract_live_bits [OF assms(4)]
    by (simp add: load_historical_def store_from_checkpoint_data_def extract_fields Let_def)
  ultimately show ?thesis
    using live_part(1) [OF srt l xy] checkpoint_data_roundtrip [OF assms(4-6)] by (intro exI [of _ ?p]) simp
qed

theorem live_first_partial_load_witness:
  "\<exists>bc bs p. checkpoint_store_live_first zero_digest bc (genesis zero_digest) = Inr bs \<and>
     load_live_first_partial zero_digest bc bs = Inr p \<and> epoch (ps_store p) = 0"
proof -
  let ?s = "genesis zero_digest"
  let ?bc = "one_value_bincode [] undefined \<lparr>plf_schema = cd_schema_pairs (extract_checkpoint_data ?s), plf_live = [], plf_hist = []\<rparr> undefined"
  have "\<exists>bs. checkpoint_store_live_first zero_digest ?bc ?s = Inr bs"
    using extract_live_bits [OF store_inv_genesis, of zero_digest] zero_digest(3)
    by (simp add: checkpoint_store_live_first_def serialize_live_first_bytes_def require_live_bits_def serialize_v3_live_first_def
        one_value_bincode_def extract_fields partition_live_def)
  then obtain bs where bs: "checkpoint_store_live_first zero_digest ?bc ?s = Inr bs" ..
  from live_first_partial_load [OF one_value_bincode_reads_back zero_digest(1,2) store_inv_genesis zero_digest(4,6) bs] zero_digest(5) bs
  show ?thesis by metis
qed

end
