(* ===== verification/Db.thy ===== *)
theory Db
  imports Wal Federation Observers Checkpoint
begin

text \<open>
  The database (\<open>ferratomic-core/src/db/\<close>: \<open>mod.rs\<close>, \<open>transact.rs\<close>, \<open>recover.rs\<close>, \<open>observe.rs\<close>; and the
  cold-start cascade of \<open>storage/recovery.rs\<close>).

  A database is a record of the published store, the write-ahead log if there is one, the observer
  broadcast, the write limiter, the transaction counter, the clock and the frontier. The code around it
  is gathered in two records: the platform (hash, iteration order of hash maps, clock source, \<open>bincode\<close>,
  Ed25519, the compile-time canary feature) and, for one call, the outcomes the environment decides: the
  \<open>try_lock\<close> on the write lock, poisoned mutexes, and the write and sync of each log entry. The frontier mutex
  is taken twice in a transaction, before the store is changed and after the new one is published; each
  acquisition has its own outcome (\<open>en_frontier_ok\<close>, \<open>en_advance_ok\<close>).
\<close>

section \<open>State and environment\<close>

record 'c platform =
  pf_hash :: "bytes \<Rightarrow> bytes"
  pf_order :: entity_order
  pf_now :: "'c \<Rightarrow> u64 \<times> 'c"
  pf_bincode :: bincode
  pf_ed25519 :: ed25519
  pf_canary :: bool

datatype try_lock = Locked | WouldBlock | Poisoned

record call_env =
  en_write_lock :: try_lock
  en_clock_ok :: bool
  en_frontier_ok :: bool
  en_advance_ok :: bool
  en_wal_ok :: bool
  en_observers_ok :: bool
  en_write :: "nat \<Rightarrow> nat option"
  en_sync :: "nat \<Rightarrow> bool"

record 'c database =
  current :: store
  db_wal :: "wal option"
  db_observers :: observer_broadcast
  db_limiter :: write_limiter
  transaction_count :: u64
  db_clock :: "'c hybrid_clock"
  db_frontier :: frontier

section \<open>Construction (mod.rs)\<close>

definition build_opening :: "'c \<Rightarrow> store \<Rightarrow> wal option \<Rightarrow> 'c database" where
  "build_opening c s w =
     \<lparr>current = s, db_wal = w, db_observers = broadcast_new DEFAULT_OBSERVER_BUFFER,
      db_limiter = limiter_new DEFAULT_MAX_CONCURRENT_WRITES, transaction_count = 0,
      db_clock = with_clock (genesis_node s) c, db_frontier = frontier_new\<rparr>"

text \<open>\<open>finish\<close> moves every field; the typestate marker has no run-time content.\<close>

definition db_build :: "'c \<Rightarrow> store \<Rightarrow> wal option \<Rightarrow> 'c database" where
  "db_build c s w = build_opening c s w"

definition db_genesis :: "'c platform \<Rightarrow> 'c \<Rightarrow> 'c database" where
  "db_genesis p c = db_build c (genesis (pf_hash p)) None"

definition db_from_store :: "'c \<Rightarrow> store \<Rightarrow> 'c database" where
  "db_from_store c s = db_build c s None"

definition db_snapshot :: "'c database \<Rightarrow> snapshot" where
  "db_snapshot db = snapshot (current db)"

definition db_schema :: "'c database \<Rightarrow> schema" where
  "db_schema db = st_schema (current db)"

definition frontier_locked :: "call_env \<Rightarrow> 'c database \<Rightarrow> ferra_error + frontier" where
  "frontier_locked en db =
     (if en_frontier_ok en then Inr (db_frontier db) else Inl (InvariantViolation ''INV-FERR-061''))"

section \<open>Transactions (transact.rs)\<close>

definition lock_error :: "try_lock \<Rightarrow> ferra_error + unit" where
  "lock_error l =
     (case l of
        Locked \<Rightarrow> Inr ()
      | WouldBlock \<Rightarrow> Inl Backpressure
      | Poisoned \<Rightarrow> Inl (InvariantViolation ''INV-FERR-007''))"

definition from_clock_error :: "clock_error \<Rightarrow> ferra_error" where
  "from_clock_error e = InvariantViolation ''INV-FERR-021''"

definition acquire_write_lock_and_tick ::
  "'c platform \<Rightarrow> call_env \<Rightarrow> 'c database \<Rightarrow> 'c database \<times> (ferra_error + txid)" where
  "acquire_write_lock_and_tick p en db =
     (case lock_error (en_write_lock en) of
        Inl e \<Rightarrow> (db, Inl e)
      | Inr _ \<Rightarrow>
          (if \<not> en_clock_ok en then (db, Inl (InvariantViolation ''INV-FERR-015''))
           else (case tick (pf_now p) (db_clock db) of
                   (hc, Inl e) \<Rightarrow> (db\<lparr>db_clock := hc\<rparr>, Inl (from_clock_error e))
                 | (hc, Inr x) \<Rightarrow> (db\<lparr>db_clock := hc\<rparr>, Inr x))))"

definition write_wal ::
  "'c platform \<Rightarrow> call_env \<Rightarrow> nat \<Rightarrow> u64 \<Rightarrow> datom list \<Rightarrow> 'c database \<Rightarrow> 'c database \<times> (ferra_error + unit)" where
  "write_wal p en i ep ds db =
     (if \<not> en_wal_ok en then (db, Inl (InvariantViolation ''INV-FERR-008''))
      else (case db_wal db of
              None \<Rightarrow> (db, Inr ())
            | Some w \<Rightarrow>
                (case ser_datoms (pf_bincode p) ds of
                   None \<Rightarrow> (db, Inl (WalWrite ''bincode''))
                 | Some payload \<Rightarrow>
                     (case append_raw (en_write en i) ep payload w of
                        (w', Inl e) \<Rightarrow> (db\<lparr>db_wal := Some w'\<rparr>, Inl e)
                      | (w', Inr _) \<Rightarrow>
                          (case fsync (en_sync en i) w' of
                             (w'', r) \<Rightarrow> (db\<lparr>db_wal := Some w''\<rparr>, r))))))"

definition publish_and_check :: "store \<Rightarrow> 'c database \<Rightarrow> 'c database" where
  "publish_and_check s db = db\<lparr>current := s, transaction_count := transaction_count db + 1\<rparr>"

definition advance_frontier :: "call_env \<Rightarrow> txid \<Rightarrow> 'c database \<Rightarrow> 'c database \<times> (ferra_error + unit)" where
  "advance_frontier en x db =
     (if en_advance_ok en then (db\<lparr>db_frontier := advance (tx_node x) x (db_frontier db)\<rparr>, Inr ())
      else (db, Inl (InvariantViolation ''INV-FERR-061'')))"

definition verify_bijection_canary :: "'c platform \<Rightarrow> 'c database \<Rightarrow> ferra_error + unit" where
  "verify_bijection_canary p db =
     (if pf_canary p \<and> transaction_count db mod 100 = 0 then
        (case store_indexes (current db) of
           None \<Rightarrow> Inr ()
         | Some ix \<Rightarrow> if verify_bijection ix then Inr () else Inl (InvariantViolation ''INV-FERR-005''))
      else Inr ())"

definition notify_observers :: "call_env \<Rightarrow> u64 \<Rightarrow> datom list \<Rightarrow> 'c database \<Rightarrow> 'c database" where
  "notify_observers en ep ds db =
     (if en_observers_ok en then db\<lparr>db_observers := publish ep ds (current db) (db_observers db)\<rparr> else db)"

text \<open>The context of a transaction. \<open>signing_key\<close> is \<open>None\<close> in \<open>transact\<close>; in \<open>transact_signed\<close> the context
  carries the signature of the transaction's datoms, id, predecessors and fingerprint.\<close>

definition transact_ctx ::
  "'c platform \<Rightarrow> bytes option \<Rightarrow> committed \<Rightarrow> txid \<Rightarrow> frontier \<Rightarrow> store \<Rightarrow> transact_context" where
  "transact_ctx p signing_key t x f s =
     (let fp = (case fingerprint s of Some h \<Rightarrow> h | None \<Rightarrow> replicate 32 0);
          preds = map (\<lambda>(_, pred). from_content (pf_hash p) (tx_id_canonical_bytes pred)) (fr_map f);
          signing = map_option (\<lambda>sk.
            let (sig, signer) = sign_transaction (pf_ed25519 p) (pf_hash p)
                  \<lparr>sc_datoms = into_datoms t, sc_tx_id = x, sc_predecessors = preds, sc_fingerprint = fp\<rparr> sk
            in (signature_bytes sig, signer_bytes signer)) signing_key
      in \<lparr>tc_tx_id = x, tc_frontier = Some f, tc_signing = signing, tc_provenance = Observed, tc_store_fingerprint = fp\<rparr>)"

text \<open>Everything under the write slot, from the write lock to its release.\<close>

definition transact_locked ::
  "'c platform \<Rightarrow> call_env \<Rightarrow> bytes option \<Rightarrow> committed \<Rightarrow> 'c database \<Rightarrow> 'c database \<times> (ferra_error + tx_receipt)" where
  "transact_locked p en signing_key t db =
     (case acquire_write_lock_and_tick p en db of
        (db, Inl e) \<Rightarrow> (db, Inl e)
      | (db, Inr x) \<Rightarrow>
          (case frontier_locked en db of
             Inl e \<Rightarrow> (db, Inl e)
           | Inr f \<Rightarrow>
               (case transact (pf_hash p) (pf_order p) t (transact_ctx p signing_key t x f (current db)) (current db) of
                  (_, Inl e) \<Rightarrow> (db, Inl e)
                | (new_store, Inr receipt) \<Rightarrow>
                    (case write_wal p en 0 (r_epoch receipt) (r_datoms receipt) db of
                       (db, Inl e) \<Rightarrow> (db, Inl e)
                     | (db, Inr _) \<Rightarrow>
                         (case advance_frontier en x (publish_and_check new_store db) of
                            (db, Inl e) \<Rightarrow> (db, Inl e)
                          | (db, Inr _) \<Rightarrow>
                              (case verify_bijection_canary p db of
                                 Inl e \<Rightarrow> (db, Inl e)
                               | Inr _ \<Rightarrow> (db, Inr receipt)))))))"

definition with_write_slot ::
  "('c database \<Rightarrow> 'c database \<times> (ferra_error + 'r)) \<Rightarrow> 'c database \<Rightarrow> 'c database \<times> (ferra_error + 'r)" where
  "with_write_slot body db =
     (case try_acquire (db_limiter db) of
        (wl, False) \<Rightarrow> (db\<lparr>db_limiter := wl\<rparr>, Inl Backpressure)
      | (wl, True) \<Rightarrow>
          (case body (db\<lparr>db_limiter := wl\<rparr>) of
             (db, r) \<Rightarrow> (db\<lparr>db_limiter := release_sub (db_limiter db)\<rparr>, r)))"

definition transact_any ::
  "'c platform \<Rightarrow> call_env \<Rightarrow> bytes option \<Rightarrow> committed \<Rightarrow> 'c database \<Rightarrow> 'c database \<times> (ferra_error + tx_receipt)" where
  "transact_any p en signing_key t db =
     (case with_write_slot (transact_locked p en signing_key t) db of
        (db, Inl e) \<Rightarrow> (db, Inl e)
      | (db, Inr receipt) \<Rightarrow> (notify_observers en (r_epoch receipt) (r_datoms receipt) db, Inr receipt))"

definition db_transact ::
  "'c platform \<Rightarrow> call_env \<Rightarrow> committed \<Rightarrow> 'c database \<Rightarrow> 'c database \<times> (ferra_error + tx_receipt)" where
  "db_transact p en t db = transact_any p en None t db"

definition transact_signed ::
  "'c platform \<Rightarrow> call_env \<Rightarrow> committed \<Rightarrow> bytes \<Rightarrow> 'c database \<Rightarrow> 'c database \<times> (ferra_error + tx_receipt)" where
  "transact_signed p en t sk db = transact_any p en (Some sk) t db"

text \<open>The clock ticks once per transaction of a batch; a failed tick keeps the earlier ones.\<close>

fun tick_batch ::
  "('c \<Rightarrow> u64 \<times> 'c) \<Rightarrow> committed list \<Rightarrow> 'c hybrid_clock \<Rightarrow> 'c hybrid_clock \<times> (ferra_error + (datom list \<times> txid) list)" where
  "tick_batch now [] hc = (hc, Inr [])"
| "tick_batch now (t # ts) hc =
     (case tick now hc of
        (hc, Inl e) \<Rightarrow> (hc, Inl (from_clock_error e))
      | (hc, Inr x) \<Rightarrow>
          (case tick_batch now ts hc of
             (hc, Inl e) \<Rightarrow> (hc, Inl e)
           | (hc, Inr bs) \<Rightarrow> (hc, Inr ((into_datoms t, x) # bs))))"

fun write_wal_all ::
  "'c platform \<Rightarrow> call_env \<Rightarrow> nat \<Rightarrow> tx_receipt list \<Rightarrow> 'c database \<Rightarrow> 'c database \<times> (ferra_error + unit)" where
  "write_wal_all p en i [] db = (db, Inr ())"
| "write_wal_all p en i (r # rs) db =
     (case write_wal p en i (r_epoch r) (r_datoms r) db of
        (db, Inl e) \<Rightarrow> (db, Inl e)
      | (db, Inr _) \<Rightarrow> write_wal_all p en (Suc i) rs db)"

definition batch_locked ::
  "'c platform \<Rightarrow> call_env \<Rightarrow> committed list \<Rightarrow> 'c database \<Rightarrow> 'c database \<times> (ferra_error + tx_receipt list)" where
  "batch_locked p en ts db =
     (case lock_error (en_write_lock en) of
        Inl e \<Rightarrow> (db, Inl e)
      | Inr _ \<Rightarrow>
          (if \<not> en_clock_ok en then (db, Inl (InvariantViolation ''INV-FERR-015''))
           else (case tick_batch (pf_now p) ts (db_clock db) of
                   (hc, Inl e) \<Rightarrow> (db\<lparr>db_clock := hc\<rparr>, Inl e)
                 | (hc, Inr batches) \<Rightarrow>
                     (let db = db\<lparr>db_clock := hc\<rparr>
                      in case batch_splice_transact (pf_hash p) (pf_order p) batches (current db) of
                           (_, Inl e) \<Rightarrow> (db, Inl e)
                         | (new_store, Inr receipts) \<Rightarrow>
                             (case write_wal_all p en 0 receipts db of
                                (db, Inl e) \<Rightarrow> (db, Inl e)
                              | (db, Inr _) \<Rightarrow>
                                  (let db = publish_and_check new_store db
                                   in case verify_bijection_canary p db of
                                        Inl e \<Rightarrow> (db, Inl e)
                                      | Inr _ \<Rightarrow> (db, Inr receipts)))))))"

definition batch_transact ::
  "'c platform \<Rightarrow> call_env \<Rightarrow> committed list \<Rightarrow> 'c database \<Rightarrow> 'c database \<times> (ferra_error + tx_receipt list)" where
  "batch_transact p en ts db =
     (if ts = [] then (db, Inr [])
      else (case with_write_slot (batch_locked p en ts) db of
              (db, Inl e) \<Rightarrow> (db, Inl e)
            | (db, Inr receipts) \<Rightarrow>
                (if receipts = [] then (db, Inr receipts)
                 else (notify_observers en (r_epoch (last receipts)) (concat (map r_datoms receipts)) db, Inr receipts))))"

section \<open>Observers (observe.rs)\<close>

definition register_observer :: "call_env \<Rightarrow> 'c database \<Rightarrow> 'c database \<times> (ferra_error + unit)" where
  "register_observer en db =
     (if en_observers_ok en then (db\<lparr>db_observers := register (current db) (db_observers db)\<rparr>, Inr ())
      else (db, Inl (InvariantViolation ''INV-FERR-011'')))"

definition register_filtered_observer :: "call_env \<Rightarrow> datom_filter \<Rightarrow> 'c database \<Rightarrow> 'c database \<times> (ferra_error + unit)" where
  "register_filtered_observer en f db =
     (if en_observers_ok en then (db\<lparr>db_observers := register_filtered f (current db) (db_observers db)\<rparr>, Inr ())
      else (db, Inl (InvariantViolation ''INV-FERR-011'')))"


section \<open>Identity (mod.rs)\<close>

definition define_schema_attr :: "(bytes \<Rightarrow> bytes) \<Rightarrow> building \<Rightarrow> string \<Rightarrow> string \<Rightarrow> building" where
  "define_schema_attr b tx ident vt =
     (let entity = from_content b (as_bytes ident)
      in assert_datom (assert_datom (assert_datom tx entity (Attribute ''db/ident'') (VKeyword ident))
             entity (Attribute ''db/valueType'') (VKeyword vt))
           entity (Attribute ''db/cardinality'') (VKeyword ''db.cardinality/one''))"

definition build_identity_schema_tx :: "(bytes \<Rightarrow> bytes) \<Rightarrow> node_id \<Rightarrow> schema \<Rightarrow> ferra_error + committed" where
  "build_identity_schema_tx b node sch =
     (let tx = tx_new node;
          tx = define_schema_attr b tx ''store/public-key'' ''db.type/bytes'';
          tx = define_schema_attr b tx ''store/created'' ''db.type/instant''
      in case commit tx sch of Inl e \<Rightarrow> Inl (from_validation_error e) | Inr c \<Rightarrow> Inr c)"

definition build_identity_value_tx :: "(bytes \<Rightarrow> bytes) \<Rightarrow> node_id \<Rightarrow> bytes \<Rightarrow> u64 \<Rightarrow> schema \<Rightarrow> ferra_error + committed" where
  "build_identity_value_tx b node pubkey now_ms sch =
     (let store_eid = from_content b pubkey;
          tx = assert_datom (assert_datom (tx_new node) store_eid (Attribute ''store/public-key'') (VBytes pubkey))
                 store_eid (Attribute ''store/created'') (VInstant (saturate_i64 now_ms))
      in case commit tx sch of Inl e \<Rightarrow> Inl (from_validation_error e) | Inr c \<Rightarrow> Inr c)"

definition genesis_with_identity ::
  "'c platform \<Rightarrow> call_env \<Rightarrow> call_env \<Rightarrow> 'c \<Rightarrow> bytes \<Rightarrow> u64 \<Rightarrow> ferra_error + 'c database" where
  "genesis_with_identity p en1 en2 c sk now_ms =
     (let db = db_genesis p c; pubkey = ed_public (pf_ed25519 p) sk; node = NodeId (take 16 (pf_hash p pubkey))
      in case build_identity_schema_tx (pf_hash p) node (db_schema db) of
           Inl e \<Rightarrow> Inl e
         | Inr schema_tx \<Rightarrow>
             (case transact_signed p en1 schema_tx sk db of
                (_, Inl e) \<Rightarrow> Inl e
              | (db, Inr _) \<Rightarrow>
                  (case build_identity_value_tx (pf_hash p) node pubkey now_ms (db_schema db) of
                     Inl e \<Rightarrow> Inl e
                   | Inr value_tx \<Rightarrow>
                       (case transact_signed p en2 value_tx sk db of
                          (_, Inl e) \<Rightarrow> Inl e
                        | (db, Inr _) \<Rightarrow> Inr db))))"

section \<open>What a transaction does to the database\<close>

lemma try_acquire_fields:
  "snd (try_acquire wl) \<Longrightarrow> release_sub (fst (try_acquire wl)) = wl"
  "\<not> snd (try_acquire wl) \<Longrightarrow> fst (try_acquire wl) = wl"
  by (auto simp: try_acquire_def acquire_add_def release_sub_def Let_def split: if_splits)

text \<open>The database without the fields a call may change on its way to an error.\<close>

definition same_published :: "'c database \<Rightarrow> 'c database \<Rightarrow> bool" where
  "same_published db db' \<longleftrightarrow>
     current db' = current db \<and> db_observers db' = db_observers db \<and> db_frontier db' = db_frontier db \<and>
     transaction_count db' = transaction_count db"

lemma same_published_refl [simp]: "same_published db db"
  by (simp add: same_published_def)

lemma write_wal_frame:
  assumes "write_wal p en i ep ds db = (db', r)"
  shows "\<exists>w'. db' = db\<lparr>db_wal := w'\<rparr> \<and> (db_wal db = None \<longleftrightarrow> w' = None)"
proof -
  have same: "\<exists>w'. db = db\<lparr>db_wal := w'\<rparr> \<and> (db_wal db = None \<longleftrightarrow> w' = None)" by (rule exI [of _ "db_wal db"]) simp
  show ?thesis using assms same
    by (auto simp: write_wal_def split: if_splits option.splits prod.splits sum.splits)
qed

lemma write_wal_durable:
  assumes "write_wal p en i ep ds db = (db', Inr ())" "db_wal db = Some w"
  shows "\<exists>w' payload. db_wal db' = Some w' \<and> ser_datoms (pf_bincode p) ds = Some payload \<and>
    en_write en i = None \<and> w_file w' = w_file (write_at (entry_frame \<lparr>we_epoch = ep, we_payload = payload\<rparr>) w) \<and> w_durable w' = w_file w'"
proof -
  obtain payload where payload: "ser_datoms (pf_bincode p) ds = Some payload"
    using assms by (auto simp: write_wal_def split: if_splits option.splits)
  obtain w1 r1 where a: "append_raw (en_write en i) ep payload w = (w1, r1)" by fastforce
  obtain w2 r2 where s: "fsync (en_sync en i) w1 = (w2, r2)" by fastforce
  have ok: "r1 = Inr ()" "r2 = Inr ()" "db_wal db' = Some w2"
    using assms payload a s by (auto simp: write_wal_def split: if_splits sum.splits)
  have "en_write en i = None"
    using a ok(1) by (auto simp: append_raw_def write_frame_def write_all_def split: if_splits option.splits)
  with a ok(1) have "w_file w1 = w_file (write_at (entry_frame \<lparr>we_epoch = ep, we_payload = payload\<rparr>) w)"
    by (simp add: append_raw_ok)
  with s ok payload \<open>en_write en i = None\<close> show ?thesis by (auto simp: fsync_def split: if_splits)
qed

lemma canary_positional: "repr (current db) = RPositional ps \<Longrightarrow> verify_bijection_canary p db = Inr ()"
  by (simp add: verify_bijection_canary_def store_indexes_def)


lemma transact_positional:
  assumes "store_inv b s" "transact b order t ctx s = (s', Inr rc)"
  shows "\<exists>ps. repr s' = RPositional ps" "r_epoch rc = epoch s + 1" "epoch s' = epoch s + 1" "epoch s \<noteq> - 1"
  using assms(2) by (auto simp: transact_eq [OF assms(1)] absorb_def Let_def case_prod_unfold split: if_splits sum.splits)

text \<open>The four ways out of the locked part: an error before the log, an error of the log, success, and an error
  after the new store was published, when the frontier mutex is poisoned at its second acquisition.\<close>

lemma transact_locked_cases:
  assumes inv: "store_inv (pf_hash p) (current db)" and tl: "transact_locked p en sk t db = (db', r)"
  obtains
    (early) hc e where "db' = db\<lparr>db_clock := hc\<rparr>" "r = Inl e"
  | (log_failed) hc x s' rc e where "tick (pf_now p) (db_clock db) = (hc, Inr x)"
      "transact (pf_hash p) (pf_order p) t (transact_ctx p sk t x (db_frontier db) (current db)) (current db) = (s', Inr rc)"
      "write_wal p en 0 (r_epoch rc) (r_datoms rc) (db\<lparr>db_clock := hc\<rparr>) = (db', Inl e)" "r = Inl e"
  | (published) hc x s' rc db1 where "tick (pf_now p) (db_clock db) = (hc, Inr x)"
      "transact (pf_hash p) (pf_order p) t (transact_ctx p sk t x (db_frontier db) (current db)) (current db) = (s', Inr rc)"
      "write_wal p en 0 (r_epoch rc) (r_datoms rc) (db\<lparr>db_clock := hc\<rparr>) = (db1, Inr ())"
      "db' = db1\<lparr>current := s', transaction_count := transaction_count db + 1,
         db_frontier := advance (tx_node x) x (db_frontier db)\<rparr>" "r = Inr rc"
  | (late) hc x s' rc db1 where "tick (pf_now p) (db_clock db) = (hc, Inr x)"
      "transact (pf_hash p) (pf_order p) t (transact_ctx p sk t x (db_frontier db) (current db)) (current db) = (s', Inr rc)"
      "write_wal p en 0 (r_epoch rc) (r_datoms rc) (db\<lparr>db_clock := hc\<rparr>) = (db1, Inr ())"
      "db' = db1\<lparr>current := s', transaction_count := transaction_count db + 1\<rparr>"
      "\<not> en_advance_ok en" "r = Inl (InvariantViolation ''INV-FERR-061'')"
proof -
  obtain db0 r0 where a: "acquire_write_lock_and_tick p en db = (db0, r0)" by fastforce
  have same: "\<exists>hc. db = db\<lparr>db_clock := hc\<rparr>" by (rule exI [of _ "db_clock db"]) simp
  show thesis
  proof (cases r0)
    case (Inl e)
    then have "\<exists>hc. db0 = db\<lparr>db_clock := hc\<rparr>"
      using a same by (auto simp: acquire_write_lock_and_tick_def split: sum.splits if_splits prod.splits)
    moreover have "db' = db0" "r = Inl e" using tl a Inl by (auto simp: transact_locked_def)
    ultimately show thesis using early by blast
  next
    case (Inr x)
    obtain hc where hc: "tick (pf_now p) (db_clock db) = (hc, Inr x)" "db0 = db\<lparr>db_clock := hc\<rparr>"
      using a Inr by (auto simp: acquire_write_lock_and_tick_def split: sum.splits if_splits prod.splits)
    show thesis
    proof (cases "en_frontier_ok en")
      case False
      then have "db' = db0" "\<exists>e. r = Inl e" using tl a Inr by (auto simp: transact_locked_def frontier_locked_def)
      with hc show thesis using early by blast
    next
      case fr: True
      let ?ctx = "transact_ctx p sk t x (db_frontier db) (current db)"
      obtain s' r1 where tr: "transact (pf_hash p) (pf_order p) t ?ctx (current db) = (s', r1)" by fastforce
      show thesis
      proof (cases r1)
        case (Inl e)
        then have "db' = db0" "r = Inl e" using tl a Inr fr hc tr by (auto simp: transact_locked_def frontier_locked_def)
        with hc show thesis using early by blast
      next
        case (Inr rc)
        obtain db1 r2 where w: "write_wal p en 0 (r_epoch rc) (r_datoms rc) db0 = (db1, r2)" by fastforce
        have fields: "db_frontier db1 = db_frontier db" "transaction_count db1 = transaction_count db"
          using write_wal_frame [OF w] hc(2) by auto
        show thesis
        proof (cases r2)
          case wl: (Inl e)
          then have "db' = db1" "r = Inl e"
            using tl a \<open>r0 = Inr x\<close> fr hc tr Inr w by (auto simp: transact_locked_def frontier_locked_def)
          with hc tr Inr w wl show thesis using log_failed by blast
        next
          case wr: (Inr u)
          note run = tl a \<open>r0 = Inr x\<close> fr hc tr Inr w wr fields
          show thesis
          proof (cases "en_advance_ok en")
            case False
            then have "db' = db1\<lparr>current := s', transaction_count := transaction_count db + 1\<rparr>"
              "r = Inl (InvariantViolation ''INV-FERR-061'')"
              using run by (auto simp: transact_locked_def frontier_locked_def publish_and_check_def advance_frontier_def)
            with hc tr Inr w wr False show thesis using late by simp
          next
            case True
            let ?db = "db1\<lparr>current := s', transaction_count := transaction_count db + 1, db_frontier := advance (tx_node x) x (db_frontier db)\<rparr>"
            obtain ps where "repr s' = RPositional ps" using transact_positional(1) [OF inv tr [unfolded Inr]] by blast
            then have "verify_bijection_canary p ?db = Inr ()" by (intro canary_positional) simp
            then have "db' = ?db" "r = Inr rc"
              using run True
              by (auto simp: transact_locked_def frontier_locked_def publish_and_check_def advance_frontier_def)
            with hc tr Inr w wr show thesis using published by simp
          qed
        qed
      qed
    qed
  qed
qed

lemma transact_any_cases:
  assumes inv: "store_inv (pf_hash p) (current db)" and ta: "transact_any p en sk t db = (db', r)"
  obtains
    (early) hc e where "db' = db\<lparr>db_clock := hc\<rparr>" "r = Inl e"
  | (log_failed) hc x s' rc e db1 where "tick (pf_now p) (db_clock db) = (hc, Inr x)"
      "transact (pf_hash p) (pf_order p) t (transact_ctx p sk t x (db_frontier db) (current db)) (current db) = (s', Inr rc)"
      "write_wal p en 0 (r_epoch rc) (r_datoms rc) db = (db1, Inl e)" "r = Inl e"
      "db' = db\<lparr>db_wal := db_wal db1, db_clock := hc\<rparr>"
  | (published) hc x s' rc db1 where "tick (pf_now p) (db_clock db) = (hc, Inr x)"
      "transact (pf_hash p) (pf_order p) t (transact_ctx p sk t x (db_frontier db) (current db)) (current db) = (s', Inr rc)"
      "write_wal p en 0 (r_epoch rc) (r_datoms rc) db = (db1, Inr ())" "r = Inr rc"
      "db' = db\<lparr>current := s', db_wal := db_wal db1, transaction_count := transaction_count db + 1, db_clock := hc,
         db_frontier := advance (tx_node x) x (db_frontier db),
         db_observers := if en_observers_ok en then publish (r_epoch rc) (r_datoms rc) s' (db_observers db) else db_observers db\<rparr>"
  | (late) hc x s' rc db1 where "tick (pf_now p) (db_clock db) = (hc, Inr x)"
      "transact (pf_hash p) (pf_order p) t (transact_ctx p sk t x (db_frontier db) (current db)) (current db) = (s', Inr rc)"
      "write_wal p en 0 (r_epoch rc) (r_datoms rc) db = (db1, Inr ())"
      "r = Inl (InvariantViolation ''INV-FERR-061'')" "\<not> en_advance_ok en"
      "db' = db\<lparr>current := s', db_wal := db_wal db1, transaction_count := transaction_count db + 1, db_clock := hc\<rparr>"
proof -
  obtain wl got where acq: "try_acquire (db_limiter db) = (wl, got)" by fastforce
  have ww: "write_wal p en 0 ep ds (db\<lparr>db_limiter := l, db_clock := h\<rparr>) =
      (let (d, q) = write_wal p en 0 ep ds db in (d\<lparr>db_limiter := l, db_clock := h\<rparr>, q))" for ep ds l h
    by (simp add: write_wal_def Let_def split: if_splits option.splits prod.splits sum.splits)
  show thesis
  proof (cases got)
    case False
    then have "wl = db_limiter db" using try_acquire_fields(2) [of "db_limiter db"] acq by simp
    then have "db' = db\<lparr>db_clock := db_clock db\<rparr>" "r = Inl Backpressure"
      using ta acq False by (auto simp: transact_any_def with_write_slot_def)
    then show thesis using early by blast
  next
    case True
    then have rel: "release_sub wl = db_limiter db" using try_acquire_fields(1) [of "db_limiter db"] acq by simp
    let ?db = "db\<lparr>db_limiter := wl\<rparr>"
    obtain d2 r2 where tl: "transact_locked p en sk t ?db = (d2, r2)" by fastforce
    have inv': "store_inv (pf_hash p) (current ?db)" using inv by simp
    from inv' tl show thesis
    proof (cases rule: transact_locked_cases)
      case (early hc e)
      then have "db' = db\<lparr>db_clock := hc\<rparr>" "r = Inl e"
        using ta acq True tl rel by (auto simp: transact_any_def with_write_slot_def)
      then show thesis by (rule that(1))
    next
      case (log_failed hc x s' rc e)
      obtain db1 q where w: "write_wal p en 0 (r_epoch rc) (r_datoms rc) db = (db1, q)" by fastforce
      have d2: "d2 = db1\<lparr>db_limiter := wl, db_clock := hc\<rparr>" "q = Inl e"
        using log_failed(3) ww [where l = wl and h = hc] w by auto
      have f: "\<exists>w'. db1 = db\<lparr>db_wal := w'\<rparr>" using write_wal_frame [OF w] by auto
      have "db' = db\<lparr>db_wal := db_wal db1, db_clock := hc\<rparr>" "r = Inl e"
        using ta acq True tl rel log_failed(4) d2 f by (auto simp: transact_any_def with_write_slot_def)
      with log_failed w d2 show thesis by (intro that(2)) auto
    next
      case (published hc x s' rc d1)
      obtain db1 q where w: "write_wal p en 0 (r_epoch rc) (r_datoms rc) db = (db1, q)" by fastforce
      have d1: "d1 = db1\<lparr>db_limiter := wl, db_clock := hc\<rparr>" "q = Inr ()"
        using published(3) ww [where l = wl and h = hc] w by auto
      have f: "\<exists>w'. db1 = db\<lparr>db_wal := w'\<rparr>" using write_wal_frame [OF w] by auto
      have "r = Inr rc" "db' = db\<lparr>current := s', db_wal := db_wal db1, transaction_count := transaction_count db + 1, db_clock := hc,
         db_frontier := advance (tx_node x) x (db_frontier db),
         db_observers := if en_observers_ok en then publish (r_epoch rc) (r_datoms rc) s' (db_observers db) else db_observers db\<rparr>"
        using ta acq True tl rel published(4,5) d1 f by (auto simp: transact_any_def with_write_slot_def notify_observers_def)
      with published w d1 show thesis by (intro that(3)) auto
    next
      case (late hc x s' rc d1)
      obtain db1 q where w: "write_wal p en 0 (r_epoch rc) (r_datoms rc) db = (db1, q)" by fastforce
      have d1: "d1 = db1\<lparr>db_limiter := wl, db_clock := hc\<rparr>" "q = Inr ()"
        using late(3) ww [where l = wl and h = hc] w by auto
      have f: "\<exists>w'. db1 = db\<lparr>db_wal := w'\<rparr>" using write_wal_frame [OF w] by auto
      have "r = Inl (InvariantViolation ''INV-FERR-061'')"
        "db' = db\<lparr>current := s', db_wal := db_wal db1, transaction_count := transaction_count db + 1, db_clock := hc\<rparr>"
        using ta acq True tl rel late(4,6) d1 f by (auto simp: transact_any_def with_write_slot_def)
      with late w d1 show thesis by (intro that(4)) auto
    qed
  qed
qed

lemma transact_receipt:
  assumes "store_inv b s" "transact b order t ctx s = (s', Inr rc)"
  shows "r_datoms rc = tx_datoms b (into_datoms t) (committed_node t) ctx" "store_inv b s'"
    "set (datoms s') = set (datoms s) \<union> set (r_datoms rc)"
proof -
  show "store_inv b s'" using store_inv_transact [OF assms(1), of order t ctx] assms(2) by simp
  show "r_datoms rc = tx_datoms b (into_datoms t) (committed_node t) ctx"
    "set (datoms s') = set (datoms s) \<union> set (r_datoms rc)"
    using assms(2) by (auto simp: transact_eq [OF assms(1)] Let_def case_prod_unfold split: if_splits sum.splits)
qed

section \<open>Properties\<close>

text \<open>A concrete platform and environment: a constant digest, a clock that always reads 1, nothing fails.\<close>

definition demo_platform :: "unit platform" where
  "demo_platform = \<lparr>pf_hash = zero_digest, pf_order = (\<lambda>es. es), pf_now = (\<lambda>c. (1, c)),
     pf_bincode = \<lparr>ser_datoms = (\<lambda>_. None), de_datoms = (\<lambda>_. None), ser_v3 = (\<lambda>_. None), de_v3 = (\<lambda>_. None),
       ser_lf = (\<lambda>_. None), de_lf = (\<lambda>_. None), ser_v4 = (\<lambda>_. None), de_v4 = (\<lambda>_. None), de_v2 = (\<lambda>_. None)\<rparr>,
     pf_ed25519 = \<lparr>ed_public = id, ed_sign = (\<lambda>_ m. m), ed_key_valid = (\<lambda>_. True), ed_verify = (\<lambda>_ m s. m = s)\<rparr>, pf_canary = True\<rparr>"

definition demo_env :: call_env where
  "demo_env = \<lparr>en_write_lock = Locked, en_clock_ok = True, en_frontier_ok = True, en_advance_ok = True, en_wal_ok = True,
     en_observers_ok = True, en_write = (\<lambda>_. None), en_sync = (\<lambda>_. True)\<rparr>"

text \<open>A transaction that is in the database: the clock issued its id, the epoch has advanced by exactly one, the
  published datoms are the old ones and the stamped datoms and metadata of that id, the counter has advanced;
  and, with a log attached, its frame was written at the log's position and the log's contents are durable.\<close>

definition tx_in_database ::
  "'c platform \<Rightarrow> bytes option \<Rightarrow> committed \<Rightarrow> 'c database \<Rightarrow> 'c database \<Rightarrow> txid \<Rightarrow> tx_receipt \<Rightarrow> bool" where
  "tx_in_database p sk t db db' x rc \<longleftrightarrow>
     snd (tick (pf_now p) (db_clock db)) = Inr x \<and>
     epoch (current db) \<noteq> - 1 \<and> r_epoch rc = epoch (current db) + 1 \<and> epoch (current db') = r_epoch rc \<and>
     r_datoms rc = tx_datoms (pf_hash p) (into_datoms t) (committed_node t)
       (transact_ctx p sk t x (db_frontier db) (current db)) \<and>
     set (datoms (current db')) = set (datoms (current db)) \<union> set (r_datoms rc) \<and>
     transaction_count db' = transaction_count db + 1 \<and>
     (\<forall>w. db_wal db = Some w \<longrightarrow> (\<exists>w' payload. db_wal db' = Some w' \<and>
        ser_datoms (pf_bincode p) (r_datoms rc) = Some payload \<and> w_durable w' = w_file w' \<and>
        w_file w' = w_file (write_at (encode_frame (r_epoch rc) payload) w)))"

lemma tx_in_databaseI:
  assumes "store_inv (pf_hash p) (current db)" "tick (pf_now p) (db_clock db) = (hc, Inr x)"
    "transact (pf_hash p) (pf_order p) t (transact_ctx p sk t x (db_frontier db) (current db)) (current db) = (s', Inr rc)"
    "write_wal p en 0 (r_epoch rc) (r_datoms rc) db = (db1, Inr ())"
    "current db' = s'" "db_wal db' = db_wal db1" "transaction_count db' = transaction_count db + 1"
  shows "tx_in_database p sk t db db' x rc" "store_inv (pf_hash p) (current db')"
proof -
  note pos = transact_positional [OF assms(1,3)] and rcp = transact_receipt [OF assms(1,3)]
  have "\<exists>w' payload. db_wal db' = Some w' \<and> ser_datoms (pf_bincode p) (r_datoms rc) = Some payload \<and>
      w_durable w' = w_file w' \<and> w_file w' = w_file (write_at (encode_frame (r_epoch rc) payload) w)"
    if "db_wal db = Some w" for w
    using write_wal_durable [OF assms(4) that] assms(6) by (auto simp: entry_frame_def)
  with assms pos rcp show "tx_in_database p sk t db db' x rc" by (auto simp: tx_in_database_def)
  show "store_inv (pf_hash p) (current db')" using rcp(2) assms(5) by simp
qed

text \<open>C1 Every outcome of a transaction on the database. \<open>transact\<close> and \<open>transact_signed\<close> keep the store
  invariant and give the write slot back on every path. When they return a receipt, the transaction is in the
  database: the epoch has advanced by exactly one, the published datoms are the old ones and those of the
  receipt, which are the stamped datoms and the metadata of the transaction id the clock issued; with a log
  attached, the frame of the receipt was written at the log's position and the log's contents were made durable
  before; the frontier has advanced to that id and the observers have been given the receipt, unless their mutex
  is poisoned. When they return an error, the published store, the observers, the frontier and the transaction
  counter are what they were, with one exception: the frontier mutex is taken again after the new store is
  published, and when that second acquisition finds it poisoned the caller gets the error of invariant 061
  although the transaction is in the database and durable; the frontier and the observers then know nothing
  of it.\<close>

theorem db_transact_outcome:
  assumes "store_inv (pf_hash p) (current db)" "transact_any p en sk t db = (db', r)"
  shows "store_inv (pf_hash p) (current db') \<and> db_limiter db' = db_limiter db \<and>
    (\<forall>rc. r = Inr rc \<longrightarrow> (\<exists>x. tx_in_database p sk t db db' x rc \<and>
       db_frontier db' = advance (tx_node x) x (db_frontier db)) \<and>
       db_observers db' = (if en_observers_ok en then publish (r_epoch rc) (r_datoms rc) (current db') (db_observers db)
                           else db_observers db)) \<and>
    (\<forall>e. r = Inl e \<longrightarrow> same_published db db' \<or>
       (\<not> en_advance_ok en \<and> e = InvariantViolation ''INV-FERR-061'' \<and>
        (\<exists>x rc. tx_in_database p sk t db db' x rc) \<and>
        db_frontier db' = db_frontier db \<and> db_observers db' = db_observers db))"
  using assms
proof (cases rule: transact_any_cases)
  case (early hc e)
  then show ?thesis using assms(1) by (simp add: same_published_def)
next
  case (log_failed hc x s' rc e db1)
  then show ?thesis using assms(1) by (simp add: same_published_def)
next
  case (published hc x s' rc db1)
  with tx_in_databaseI [OF assms(1) published(1-3), of db'] show ?thesis by auto
next
  case (late hc x s' rc db1)
  with tx_in_databaseI [OF assms(1) late(1-3), of db'] show ?thesis by auto
qed

theorem db_transact_outcome_witness:
  "(\<exists>db' rc. transact_any demo_platform demo_env (Some [1]) demo_tx (db_genesis demo_platform ()) = (db', Inr rc) \<and>
      r_epoch rc = 1 \<and> transaction_count db' = 1 \<and> store_inv zero_digest (current db')) \<and>
   (\<exists>db' e. transact_any demo_platform (demo_env\<lparr>en_advance_ok := False\<rparr>) (Some [1]) demo_tx (db_genesis demo_platform ()) = (db', Inl e) \<and>
      epoch (current db') = 1 \<and> db_frontier db' = frontier_new)"
proof -
  let ?db = "db_genesis demo_platform ()" and ?p = demo_platform and ?late = "demo_env\<lparr>en_advance_ok := False\<rparr>"
  have c: "current ?db = genesis zero_digest" "db_wal ?db = None" "epoch (current ?db) = 0" "transaction_count ?db = 0"
    "db_frontier ?db = frontier_new"
    by (simp_all add: db_genesis_def db_build_def build_opening_def demo_platform_def zero_digest)
  have inv: "store_inv (pf_hash ?p) (current ?db)" using c by (simp add: demo_platform_def)
  obtain hc x where tk: "tick (pf_now ?p) (db_clock ?db) = (hc, Inr x)"
    by (simp add: tick_def tick_bounded_def demo_platform_def db_genesis_def db_build_def build_opening_def with_clock_def Let_def)
  obtain s' rc0 where tr: "transact zero_digest (\<lambda>es. es) demo_tx (transact_ctx ?p (Some [1]) demo_tx x (db_frontier ?db) (genesis zero_digest))
     (genesis zero_digest) = (s', Inr rc0)" using demo_transact [OF store_inv_genesis zero_digest(5)] by blast
  note run = transact_any_def with_write_slot_def try_acquire_def acquire_add_def db_genesis_def db_build_def
    build_opening_def limiter_new_def DEFAULT_MAX_CONCURRENT_WRITES_def transact_locked_def acquire_write_lock_and_tick_def
    demo_env_def lock_error_def frontier_locked_def write_wal_def publish_and_check_def advance_frontier_def
    verify_bijection_canary_def demo_platform_def
  obtain db1 r1 where t1: "transact_any ?p demo_env (Some [1]) demo_tx ?db = (db1, r1)" by fastforce
  have "\<not> isl r1" using t1 tk c tr by (auto simp: run Let_def split: prod.splits sum.splits if_splits)
  then obtain rc where "r1 = Inr rc" by (cases r1) auto
  then have "\<exists>db' rc. transact_any ?p demo_env (Some [1]) demo_tx ?db = (db', Inr rc) \<and>
      r_epoch rc = 1 \<and> transaction_count db' = 1 \<and> store_inv zero_digest (current db')"
    using db_transact_outcome [OF inv t1] t1 c by (auto simp: demo_platform_def tx_in_database_def)
  moreover
  obtain db2 r2 where t2: "transact_any ?p ?late (Some [1]) demo_tx ?db = (db2, r2)" by fastforce
  have e2: "r2 = Inl (InvariantViolation ''INV-FERR-061'')" "transaction_count db2 = 1"
    using t2 tk c tr by (auto simp: run Let_def split: prod.splits sum.splits if_splits)
  then have "\<exists>db' e. transact_any ?p ?late (Some [1]) demo_tx ?db = (db', Inl e) \<and>
      epoch (current db') = 1 \<and> db_frontier db' = frontier_new"
    using db_transact_outcome [OF inv t2] t2 c by (auto simp: same_published_def tx_in_database_def)
  ultimately show ?thesis ..
qed

end
