(* ===== verification/Recovery.thy ===== *)
theory Recovery
  imports Db
begin

text \<open>
  Recovery (\<open>ferratomic-core/src/db/recover.rs\<close>, \<open>storage/recovery.rs\<close>, \<open>storage/mod.rs\<close>): the constructors
  that attach a log, replay it, or load a checkpoint and replay the log behind it, and the two cold-start
  cascades.

  The data directory is the pair of the checkpoint file and the log file. What the operating system
  decides is gathered in one record: which of the calls fail. Replay keeps the hash map order of the
  recovering process as a parameter of its own, since it need not be the one of the process that crashed.
  A run of a database is a sequence of its operations, crashes and cold starts; a crash tears the log anywhere
  behind its durable part.
\<close>

section \<open>The data directory\<close>

record disk =
  dk_checkpoint :: "bytes option"
  dk_wal :: "bytes option"

record disk_env =
  de_dirs_ok :: bool
  de_read_ok :: bool
  de_open_ok :: bool
  de_truncate_ok :: bool
  de_create_ok :: bool

datatype recovery_level = CheckpointPlusWal | CheckpointOnly | WalOnly | GenesisLevel

record 'c cold_start_result =
  cs_database :: "'c database"
  cs_level :: recovery_level

section \<open>Constructors (db/recover.rs)\<close>

definition wal_create_file :: "disk_env \<Rightarrow> disk \<Rightarrow> disk \<times> (ferra_error + wal)" where
  "wal_create_file en dk =
     (if dk_wal dk \<noteq> None then (dk, Inl (Io ''AlreadyExists'' ''create''))
      else if \<not> de_create_ok en then (dk, Inl (Io ''Other'' ''create''))
      else (dk\<lparr>dk_wal := Some []\<rparr>, Inr wal_create))"

definition wal_open_file :: "disk_env \<Rightarrow> disk \<Rightarrow> ferra_error + wal" where
  "wal_open_file en dk =
     (case dk_wal dk of
        None \<Rightarrow> Inl (Io ''NotFound'' ''open'')
      | Some bs \<Rightarrow> if de_open_ok en then Inr (wal_open bs) else Inl (Io ''Other'' ''open''))"

text \<open>\<open>Wal::open\<close> and \<open>recover\<close>: the log file is cut behind its last complete frame.\<close>

definition open_and_recover :: "disk_env \<Rightarrow> disk \<Rightarrow> disk \<times> (ferra_error + wal \<times> wal_entry list)" where
  "open_and_recover en dk =
     (case wal_open_file en dk of
        Inl e \<Rightarrow> (dk, Inl e)
      | Inr w \<Rightarrow>
          (case recover (de_truncate_ok en) w of
             (w', Inl e) \<Rightarrow> (dk\<lparr>dk_wal := Some (w_file w')\<rparr>, Inl e)
           | (w', Inr entries) \<Rightarrow> (dk\<lparr>dk_wal := Some (w_file w')\<rparr>, Inr (w', entries))))"

text \<open>The replay loop; \<open>keep\<close> selects the entries to replay by their epoch.\<close>

fun replay_wal ::
  "bincode \<Rightarrow> entity_order \<Rightarrow> (u64 \<Rightarrow> bool) \<Rightarrow> wal_entry list \<Rightarrow> store \<Rightarrow> ferra_error + store" where
  "replay_wal bc order keep [] s = Inr s"
| "replay_wal bc order keep (entry # entries) s =
     (if keep (we_epoch entry) then
        (case de_datoms bc (we_payload entry) of
           None \<Rightarrow> Inl (WalRead ''bincode'')
         | Some wire_datoms \<Rightarrow>
             (case replay_entry order (we_epoch entry) (map into_trusted wire_datoms) s of
                (_, Inl e) \<Rightarrow> Inl e
              | (s', Inr _) \<Rightarrow> replay_wal bc order keep entries s'))
      else replay_wal bc order keep entries s)"

definition genesis_with_wal :: "'c platform \<Rightarrow> disk_env \<Rightarrow> 'c \<Rightarrow> disk \<Rightarrow> disk \<times> (ferra_error + 'c database)" where
  "genesis_with_wal p en c dk =
     (case wal_create_file en dk of
        (dk', Inl e) \<Rightarrow> (dk', Inl e)
      | (dk', Inr w) \<Rightarrow> (dk', Inr (db_build c (genesis (pf_hash p)) (Some w))))"

definition from_store_with_wal :: "disk_env \<Rightarrow> 'c \<Rightarrow> store \<Rightarrow> disk \<Rightarrow> disk \<times> (ferra_error + 'c database)" where
  "from_store_with_wal en c s dk =
     (case wal_create_file en dk of
        (dk', Inl e) \<Rightarrow> (dk', Inl e)
      | (dk', Inr w) \<Rightarrow> (dk', Inr (db_build c s (Some w))))"

definition recover_from_wal :: "'c platform \<Rightarrow> disk_env \<Rightarrow> 'c \<Rightarrow> disk \<Rightarrow> disk \<times> (ferra_error + 'c database)" where
  "recover_from_wal p en c dk =
     (case open_and_recover en dk of
        (dk', Inl e) \<Rightarrow> (dk', Inl e)
      | (dk', Inr (w, entries)) \<Rightarrow>
          (dk', map_sum id (\<lambda>s. db_build c s (Some w))
             (replay_wal (pf_bincode p) (pf_order p) (\<lambda>_. True) entries (genesis (pf_hash p)))))"

definition load_checkpoint :: "'c platform \<Rightarrow> disk_env \<Rightarrow> disk \<Rightarrow> ferra_error + store" where
  "load_checkpoint p en dk =
     (case dk_checkpoint dk of
        None \<Rightarrow> Inl (Io ''NotFound'' ''read'')
      | Some bs \<Rightarrow> if de_read_ok en then load_store (pf_hash p) (pf_bincode p) bs else Inl (Io ''Other'' ''read''))"

definition db_recover :: "'c platform \<Rightarrow> disk_env \<Rightarrow> 'c \<Rightarrow> disk \<Rightarrow> disk \<times> (ferra_error + 'c database)" where
  "db_recover p en c dk =
     (case load_checkpoint p en dk of
        Inl e \<Rightarrow> (dk, Inl e)
      | Inr s \<Rightarrow>
          (case open_and_recover en dk of
             (dk', Inl e) \<Rightarrow> (dk', Inl e)
           | (dk', Inr (w, entries)) \<Rightarrow>
               (dk', map_sum id (\<lambda>s'. db_build c s' (Some w))
                  (replay_wal (pf_bincode p) (pf_order p) (\<lambda>ep. ep > epoch s) entries s))))"

section \<open>Cold start on a directory (storage/recovery.rs)\<close>

definition ok_level :: "recovery_level \<Rightarrow> ferra_error + 'c database \<Rightarrow> 'c cold_start_result option" where
  "ok_level level r =
     (case r of Inl _ \<Rightarrow> None | Inr db \<Rightarrow> Some \<lparr>cs_database = db, cs_level = level\<rparr>)"

definition try_checkpoint_plus_wal ::
  "'c platform \<Rightarrow> disk_env \<Rightarrow> 'c \<Rightarrow> disk \<Rightarrow> disk \<times> 'c cold_start_result option" where
  "try_checkpoint_plus_wal p en c dk =
     (case db_recover p en c dk of (dk', r) \<Rightarrow> (dk', ok_level CheckpointPlusWal r))"

definition try_checkpoint_only ::
  "'c platform \<Rightarrow> disk_env \<Rightarrow> 'c \<Rightarrow> disk \<Rightarrow> disk \<times> 'c cold_start_result option" where
  "try_checkpoint_only p en c dk =
     (case load_checkpoint p en dk of
        Inl _ \<Rightarrow> (dk, None)
      | Inr s \<Rightarrow>
          (case from_store_with_wal en c s dk of
             (dk', Inr db) \<Rightarrow> (dk', Some \<lparr>cs_database = db, cs_level = CheckpointOnly\<rparr>)
           | (dk', Inl _) \<Rightarrow> (dk', Some \<lparr>cs_database = db_from_store c s, cs_level = CheckpointOnly\<rparr>)))"

definition try_wal_only ::
  "'c platform \<Rightarrow> disk_env \<Rightarrow> 'c \<Rightarrow> disk \<Rightarrow> disk \<times> 'c cold_start_result option" where
  "try_wal_only p en c dk = (case recover_from_wal p en c dk of (dk', r) \<Rightarrow> (dk', ok_level WalOnly r))"

text \<open>The existence checks are made once, before the first attempt.\<close>

definition cold_start ::
  "'c platform \<Rightarrow> disk_env \<Rightarrow> 'c \<Rightarrow> disk \<Rightarrow> disk \<times> (ferra_error + 'c cold_start_result)" where
  "cold_start p en c dk =
     (if \<not> de_dirs_ok en then (dk, Inl (Io ''Other'' ''cannot create data dir''))
      else
        (let has_checkpoint = dk_checkpoint dk \<noteq> None; has_wal = dk_wal dk \<noteq> None;
             (dk, r) = (if has_checkpoint \<and> has_wal then try_checkpoint_plus_wal p en c dk else (dk, None));
             (dk, r) = (if r = None \<and> has_checkpoint \<and> \<not> has_wal then try_checkpoint_only p en c dk else (dk, r));
             (dk, r) = (if r = None \<and> has_wal then try_wal_only p en c dk else (dk, r))
         in case r of
              Some res \<Rightarrow> (dk, Inr res)
            | None \<Rightarrow>
                (case genesis_with_wal p en c dk of
                   (dk, Inl e) \<Rightarrow> (dk, Inl e)
                 | (dk, Inr db) \<Rightarrow> (dk, Inr \<lparr>cs_database = db, cs_level = GenesisLevel\<rparr>))))"

section \<open>Replay\<close>

abbreviation entry_of :: "tx_receipt \<Rightarrow> u64 \<times> datom list" where
  "entry_of r \<equiv> (r_epoch r, r_datoms r)"

text \<open>A log entry and what it records.\<close>

definition decodes :: "bincode \<Rightarrow> wal_entry \<Rightarrow> u64 \<times> datom list \<Rightarrow> bool" where
  "decodes bc e en \<longleftrightarrow> we_epoch e = fst en \<and> de_datoms bc (we_payload e) = Some (map to_wire (snd en))"

lemma evolve_entries_append:
  "fst (evolve_entries order (es @ fs) sch) = Inr () \<longleftrightarrow>
     fst (evolve_entries order es sch) = Inr () \<and> fst (evolve_entries order fs (snd (evolve_entries order es sch))) = Inr ()"
  "fst (evolve_entries order es sch) = Inr () \<Longrightarrow>
     evolve_entries order (es @ fs) sch = evolve_entries order fs (snd (evolve_entries order es sch))"
  by (induction es arbitrary: sch) (auto split: prod.splits sum.splits)

lemma demote_absorb [simp]: "store_inv b s \<Longrightarrow> demote b (absorb b xs s) = absorb b xs s"
  using absorb_Nil [of b "absorb b xs s"] by (simp add: absorb_absorb)

lemma replayed_demote [simp]:
  "store_inv b s \<Longrightarrow> replayed b order es (demote b s) = replayed b order es s"
  "store_inv b s \<Longrightarrow> demote b (replayed b order es s) = replayed b order es s"
  by (simp_all add: replayed_def)

lemma last_append_Cons: "last (x # map f (xs @ ys)) = last (last (x # map f xs) # map f ys)"
  by (induction xs arbitrary: x) auto

lemma replayed_append:
  assumes "fst (evolve_entries order es (st_schema s)) = Inr ()"
  shows "replayed b order (es @ fs) s = replayed b order fs (replayed b order es s)"
  unfolding replayed_def last_append_Cons
  using evolve_entries_append(2) [OF assms, of fs] by (simp add: absorb_absorb del: last.simps)

lemma replay_wal_spec:
  assumes "list_all2 (decodes bc) es ens" "store_inv b s"
    "fst (evolve_entries order (filter (\<lambda>en. keep (fst en)) ens) (st_schema s)) = Inr ()"
  shows "\<exists>s'. replay_wal bc order keep es s = Inr s' \<and> store_inv b s' \<and>
    demote b s' = replayed b order (filter (\<lambda>en. keep (fst en)) ens) s"
  using assms
proof (induction es ens arbitrary: s rule: list_all2_induct)
  case Nil
  then show ?case by (simp add: replayed_def absorb_Nil)
next
  case (Cons e es en ens)
  obtain ep ds where en: "en = (ep, ds)" by fastforce
  from Cons.hyps(1) en have e: "we_epoch e = ep" "de_datoms bc (we_payload e) = Some (map to_wire ds)" by (simp_all add: decodes_def)
  show ?case
  proof (cases "keep ep")
    case False
    with Cons.IH [of s] Cons.prems e en show ?thesis by simp
  next
    case True
    let ?f = "fold store_insert ds s"
    note F = demote_fold_insert [OF Cons.prems(1), of ds]
    have sch: "st_schema ?f = st_schema s" using arg_cong [OF F(1), of st_schema] by simp
    obtain sch' where ev: "evolve_schema order (st_schema s) ds = (sch', Inr ())"
      using Cons.prems(2) True en by (auto split: prod.splits sum.splits)
    let ?s = "?f\<lparr>epoch := ep, st_schema := sch'\<rparr>"
    have "schema_inv sch'" using schema_inv_evolve [OF store_inv_schema [OF Cons.prems(1)], of order ds] ev by simp
    then have inv: "store_inv b ?s" using F(2) by simp
    have step: "replay_entry order ep ds s = (?s, Inr ())"
      using ev sch by (simp add: replay_entry_def store_evolve_def)
    have "fst (evolve_entries order (filter (\<lambda>en. keep (fst en)) ens) (st_schema ?s)) = Inr ()"
      using Cons.prems(2) True en ev by simp
    from Cons.IH [OF inv this] obtain s' where s': "replay_wal bc order keep es ?s = Inr s'" "store_inv b s'"
      "demote b s' = replayed b order (filter (\<lambda>en. keep (fst en)) ens) ?s" by blast
    have "absorb b xs ?s = (absorb b (ds @ xs) s)\<lparr>epoch := ep, st_schema := sch'\<rparr>" for xs
    proof -
      have "absorb b xs ?s = absorb b xs (demote b ?s)" by (rule absorb_demote [OF inv, symmetric])
      also have "\<dots> = (absorb b (ds @ xs) s)\<lparr>epoch := ep, st_schema := sch'\<rparr>" by (simp add: F(1) absorb_absorb)
      finally show ?thesis .
    qed
    then have "replayed b order (filter (\<lambda>en. keep (fst en)) ens) ?s = replayed b order (filter (\<lambda>en. keep (fst en)) (en # ens)) s"
      using True en ev by (simp add: replayed_def)
    with s' step e True show ?thesis by simp
  qed
qed

section \<open>What the log holds\<close>

lemma write_wal_log:
  assumes "write_wal p en i ep ds db = (db', r)" "db_wal db = Some w" "wal_run w es n" "en_write en i = None"
    "bincode_reads_back (pf_bincode p)"
  obtains (unchanged) e where "db' = db" "r = Inl e"
  | (unsynced) w' x e where "db' = db\<lparr>db_wal := Some w'\<rparr>" "r = Inl e" "wal_run w' (es @ [x]) n"
      "decodes (pf_bincode p) x (ep, ds)" "pending_epoch w < ep \<or> pending_epoch w = 0"
  | (synced) w' x where "db' = db\<lparr>db_wal := Some w'\<rparr>" "r = Inr ()" "wal_run w' (es @ [x]) (length es + 1)"
      "decodes (pf_bincode p) x (ep, ds)" "pending_epoch w < ep \<or> pending_epoch w = 0"
proof (cases "en_wal_ok en \<and> ser_datoms (pf_bincode p) ds \<noteq> None")
  case False
  then have "db' = db" "\<exists>e. r = Inl e" using assms(1,2) by (auto simp: write_wal_def split: if_splits)
  with unchanged show thesis by blast
next
  case True
  then obtain pl where pl: "ser_datoms (pf_bincode p) ds = Some pl" by auto
  obtain w1 r1 where a: "append_raw None ep pl w = (w1, r1)" by fastforce
  let ?x = "\<lparr>we_epoch = ep, we_payload = pl\<rparr>"
  have dec: "decodes (pf_bincode p) ?x (ep, ds)" using assms(5) pl by (simp add: decodes_def bincode_reads_back_def)
  show thesis
  proof (cases r1)
    case (Inl e)
    then have "w1 = w" using append_raw_refused a by blast
    then have "db' = db" "r = Inl e" using assms(1,2,4) True pl a Inl by (auto simp: write_wal_def)
    then show thesis by (rule unchanged)
  next
    case (Inr u)
    have run1: "wal_run w1 (es @ [?x]) n" using run_append [OF assms(3)] a Inr by simp
    have guard: "pending_epoch w < ep \<or> pending_epoch w = 0" using a Inr append_raw_ok by simp
    obtain w2 r2 where f: "fsync (en_sync en i) w1 = (w2, r2)" by fastforce
    have out: "db' = db\<lparr>db_wal := Some w2\<rparr>" "r = r2" using assms(1,2,4) True pl a Inr f by (auto simp: write_wal_def)
    show thesis
    proof (cases "en_sync en i")
      case True
      then have "r2 = Inr ()" using f by (auto simp: fsync_def)
      moreover have "wal_run w2 (es @ [?x]) (length (es @ [?x]))" using run_fsync [OF run1] f True calculation by simp
      ultimately show thesis using synced out dec guard by simp
    next
      case False
      then obtain e where "r2 = Inl e" using f by (auto simp: fsync_def)
      moreover have "wal_run w2 (es @ [?x]) n" using run_fsync_failed [OF run1] f False calculation by simp
      ultimately show thesis using unsynced out dec guard by blast
    qed
  qed
qed

lemma write_wal_all_log:
  assumes "write_wal_all p en i rs db = (db', r)" "db_wal db = Some w" "wal_run w es n"
    "\<forall>j < length rs. en_write en (i + j) = None" "bincode_reads_back (pf_bincode p)"
  shows "\<exists>w' es' n'. db' = db\<lparr>db_wal := Some w'\<rparr> \<and> wal_run w' (es @ es') n' \<and> n \<le> n' \<and> length es' \<le> length rs \<and>
    list_all2 (decodes (pf_bincode p)) es' (map entry_of (take (length es') rs)) \<and>
    (es' \<noteq> [] \<longrightarrow> pending_epoch w < r_epoch (hd rs) \<or> pending_epoch w = 0) \<and>
    (r = Inr () \<longrightarrow> length es' = length rs \<and> (rs \<noteq> [] \<longrightarrow> n' = length (es @ es')))"
  using assms(1-4)
proof (induction rs arbitrary: i db w es n)
  case Nil
  then show ?case by (intro exI [of _ w] exI [of _ "[]"] exI [of _ n]) auto
next
  case (Cons rc rs)
  have n: "n \<le> length es" using wal_run_inv [OF Cons.prems(3)] by (simp add: wal_inv_def)
  obtain db1 r1 where w1: "write_wal p en i (r_epoch rc) (r_datoms rc) db = (db1, r1)" by fastforce
  have 0: "en_write en i = None" using Cons.prems(4) by auto
  from w1 Cons.prems(2,3) 0 assms(5) show ?case
  proof (cases rule: write_wal_log)
    case (unchanged e)
    then show ?thesis using Cons.prems(1-3) w1 by (intro exI [of _ w] exI [of _ "[]"] exI [of _ n]) auto
  next
    case (unsynced w' x e)
    then show ?thesis using Cons.prems(1) w1 by (intro exI [of _ w'] exI [of _ "[x]"] exI [of _ n]) auto
  next
    case (synced w' x)
    have rest: "write_wal_all p en (Suc i) rs db1 = (db', r)" using Cons.prems(1) w1 synced by simp
    have "\<forall>j < length rs. en_write en (Suc i + j) = None"
    proof safe
      fix j assume "j < length rs"
      then show "en_write en (Suc i + j) = None" using Cons.prems(4) [rule_format, of "Suc j"] by simp
    qed
    from Cons.IH [OF rest _ synced(3) this] synced(1) obtain w2 es2 n2 where I:
      "db' = db1\<lparr>db_wal := Some w2\<rparr>" "wal_run w2 ((es @ [x]) @ es2) n2" "length es + 1 \<le> n2" "length es2 \<le> length rs"
      "list_all2 (decodes (pf_bincode p)) es2 (map entry_of (take (length es2) rs))"
      "r = Inr () \<longrightarrow> length es2 = length rs \<and> (rs \<noteq> [] \<longrightarrow> n2 = length ((es @ [x]) @ es2))" by auto
    have "n2 = length (es @ x # es2)" if "r = Inr ()"
    proof (cases "rs = []")
      case True
      then have "es2 = []" "n2 \<le> length ((es @ [x]) @ es2)" using I(4) wal_run_inv [OF I(2)] by (simp_all add: wal_inv_def)
      then show ?thesis using I(3) by simp
    qed (use I(6) that in simp)
    with I synced n show ?thesis by (intro exI [of _ w2] exI [of _ "x # es2"] exI [of _ n2]) auto
  qed
qed

text \<open>The log of a database: the entries \<open>acked\<close> of the transactions it has published, all durable, and
  behind them the entries \<open>xs\<close> of transactions that failed after they were written. Replaying \<open>acked\<close> gives
  the published store.\<close>

definition logged ::
  "(bytes \<Rightarrow> bytes) \<Rightarrow> bincode \<Rightarrow> entity_order \<Rightarrow> store \<Rightarrow> wal \<Rightarrow> wal_entry list \<Rightarrow> nat \<Rightarrow>
   (u64 \<times> datom list) list \<Rightarrow> (u64 \<times> datom list) list \<Rightarrow> bool" where
  "logged b bc order s w es n acked xs \<longleftrightarrow>
     wal_run w es n \<and> list_all2 (decodes bc) es (acked @ xs) \<and> length acked \<le> n \<and>
     0 \<notin> fst ` set (acked @ xs) \<and> store_inv b s \<and> demote b s = replayed b order acked (genesis b) \<and>
     fst (evolve_entries order (acked @ xs) (st_schema (genesis b))) = Inr () \<and>
     (\<forall>en \<in> set (acked @ xs). single_valued (schema_defs (snd en)))"

lemma logged_epochs:
  assumes "logged b bc order s w es n acked xs"
  shows "sorted_wrt (<) (map fst (acked @ xs))" "pending_epoch w = last (0 # map fst (acked @ xs))"
    "epoch s = last (0 # map fst acked)" "xs \<noteq> [] \<Longrightarrow> epoch s < pending_epoch w"
proof -
  note l = assms [unfolded logged_def]
  have m: "map we_epoch es = map fst (acked @ xs)"
    using l by (intro nth_equalityI) (auto simp: list_all2_conv_all_nth decodes_def simp flip: map_append)
  note i = wal_run_inv [of w es n, unfolded wal_inv_def m]
  have nz: "\<forall>x \<in> set (map fst (acked @ xs)). x \<noteq> 0" using l by (metis list.set_map)
  have "sorted_wrt epoch_follows (map fst (acked @ xs))" using i l by blast
  then show sorted: "sorted_wrt (<) (map fst (acked @ xs))"
    by (rule sorted_wrt_mono_rel [rotated]) (use nz in \<open>auto simp: epoch_follows_def\<close>)
  show p: "pending_epoch w = last (0 # map fst (acked @ xs))" using i l by blast
  have "epoch (demote b s) = last (0 # map fst acked)" using l by (simp add: replayed_def genesis_def)
  then show e: "epoch s = last (0 # map fst acked)" by simp
  assume "xs \<noteq> []"
  then obtain y ys where ys: "xs = ys @ [y]" by (metis rev_exhaust)
  have "fst y \<noteq> 0" using nz ys by simp
  then have "last (0 # map fst acked) < fst y" using sorted ys by (auto simp: sorted_wrt_append word_gt_0 last_map)
  with p e ys show "epoch s < pending_epoch w" by simp
qed

text \<open>Writing the entries of further transactions. When the log refuses the first one, nothing changes; when
  it accepts it, there was no failed entry, because the epoch of a failed entry blocks the ones behind.\<close>

lemma logged_write:
  assumes l: "logged b bc order s w es n acked xs" and bc: "bc = pf_bincode p" "bincode_reads_back (pf_bincode p)"
    and wr: "write_wal_all p en 0 rs db = (db', r)" "db_wal db = Some w" "\<forall>j < length rs. en_write en j = None"
    and tx: "rs \<noteq> []" "s' = replayed b order (map entry_of rs) s" "fst (evolve_entries order (map entry_of rs) (st_schema s)) = Inr ()"
      "0 \<notin> r_epoch ` set rs" "r_epoch (hd rs) = epoch s + 1" "store_inv b s'"
      "\<forall>r \<in> set rs. single_valued (schema_defs (r_datoms r))"
  shows "\<exists>w' es' n'. db_wal db' = Some w' \<and>
    (r = Inr () \<longrightarrow> logged b bc order s' w' es' n' (acked @ map entry_of rs) []) \<and>
    (\<exists>xs'. isl r \<longrightarrow> logged b bc order s w' es' n' acked xs')"
proof -
  note L = l [unfolded logged_def]
  have run: "wal_run w es n" and inv: "store_inv b s" and dem: "demote b s = replayed b order acked (genesis b)" using L by auto
  have w0: "\<forall>j < length rs. en_write en (0 + j) = None" using wr(3) by simp
  obtain w' es' n' where W: "db' = db\<lparr>db_wal := Some w'\<rparr>" "wal_run w' (es @ es') n'" "n \<le> n'" "length es' \<le> length rs"
    "list_all2 (decodes bc) es' (map entry_of (take (length es') rs))"
    "es' \<noteq> [] \<longrightarrow> pending_epoch w < r_epoch (hd rs) \<or> pending_epoch w = 0"
    "r = Inr () \<longrightarrow> length es' = length rs \<and> (rs \<noteq> [] \<longrightarrow> n' = length (es @ es'))"
    using write_wal_all_log [OF wr(1,2) run w0 bc(2)] unfolding bc(1) by blast
  show ?thesis
  proof (cases "es' = []")
    case True
    then have "logged b bc order s w' (es @ es') n' acked xs" "isl r \<or> r \<noteq> Inr ()"
      using L W tx(1) by (auto simp: logged_def)
    then show ?thesis using W(1) by (intro exI [of _ w'] exI [of _ "es @ es'"] exI [of _ n']) auto
  next
    case False
    have hd: "r_epoch (hd rs) \<noteq> 0" using tx(1,4) by (cases rs) auto
    have xs: "xs = []"
    proof (rule ccontr)
      assume "xs \<noteq> []"
      then have "epoch s < pending_epoch w" by (rule logged_epochs(4) [OF l])
      moreover then have "epoch s + 1 \<le> pending_epoch w" by (simp add: inc_le)
      ultimately show False using W(6) False tx(5) by auto
    qed
    let ?j = "length es'"
    have sg: "st_schema s = snd (evolve_entries order acked (st_schema (genesis b)))"
      using arg_cong [of _ _ st_schema, OF dem] by (simp add: replayed_def)
    have ok: "fst (evolve_entries order acked (st_schema (genesis b))) = Inr ()" using L xs by simp
    have ev: "fst (evolve_entries order (acked @ map entry_of rs) (st_schema (genesis b))) = Inr ()"
      using ok tx(3) sg by (simp add: evolve_entries_append)
    have evj: "fst (evolve_entries order (acked @ map entry_of (take ?j rs)) (st_schema (genesis b))) = Inr ()"
      using ev evolve_entries_append(1) [of order "acked @ map entry_of (take ?j rs)" "map entry_of (drop ?j rs)"]
      by (simp flip: map_append)
    have dec: "list_all2 (decodes bc) (es @ es') (acked @ map entry_of (take ?j rs))"
      using L W(5) xs by (auto intro: list_all2_appendI)
    have nz: "0 \<notin> fst ` set (acked @ map entry_of (take ?j rs))"
      using L tx(4) xs by (auto simp: image_iff dest: in_set_takeD)
    have len: "length acked \<le> n'" using L W(3) by simp
    have sv: "\<forall>en \<in> set (acked @ map entry_of rs). single_valued (schema_defs (snd en))" using L tx(7) xs by auto
    then have svj: "\<forall>en \<in> set (acked @ map entry_of (take ?j rs)). single_valued (schema_defs (snd en))"
      by (auto dest: in_set_takeD)
    have "logged b bc order s w' (es @ es') n' acked (map entry_of (take ?j rs))"
      using L W(2) dec nz evj len svj by (simp add: logged_def)
    moreover have "logged b bc order s' w' (es @ es') n' (acked @ map entry_of rs) []" if "r = Inr ()"
    proof -
      have j: "take ?j rs = rs" "n' = length (es @ es')" using W(7) that tx(1) by auto
      have "demote b s' = s'" using tx(2) L by simp
      moreover have "replayed b order (acked @ map entry_of rs) (genesis b) = s'"
        unfolding replayed_append [OF ok] tx(2) replayed_demote(1) [OF inv, symmetric] by (simp add: dem)
      moreover have "length (acked @ map entry_of rs) \<le> n'" using list_all2_lengthD [OF dec] j by simp
      ultimately show ?thesis using L W(2) dec nz ev j tx(2,6) sv by (simp add: logged_def)
    qed
    ultimately show ?thesis using W(1) by (intro exI [of _ w'] exI [of _ "es @ es'"] exI [of _ n']) auto
  qed
qed

section \<open>Runs of a database with a log\<close>

text \<open>No transaction defines one attribute in two ways, whatever its stamp.\<close>

definition unambiguous :: "(bytes \<Rightarrow> bytes) \<Rightarrow> committed \<Rightarrow> bool" where
  "unambiguous b t \<longleftrightarrow> (\<forall>node ctx. single_valued (schema_defs (tx_datoms b (into_datoms t) node ctx)))"

text \<open>The data directory after a crash: the log file, behind which a last write may have stopped inside its frame,
  is torn at any byte behind its durable part; the checkpoint file is missing, or holds a checkpoint (of the
  format the database writes, of at most \<open>u32::MAX\<close> datoms, no statement both asserted and retracted in
  one transaction) of a store that was published, or bytes that the loader rejects.\<close>

definition crashed :: "'c platform \<Rightarrow> 'c database \<Rightarrow> store list \<Rightarrow> disk \<Rightarrow> bool" where
  "crashed p db ss dk \<longleftrightarrow>
     (\<exists>w bs. db_wal db = Some w \<and> crash_file w bs \<and> dk_wal dk = Some bs) \<and>
     (\<forall>bs. dk_checkpoint dk = Some bs \<longrightarrow>
        (\<exists>s \<in> set ss. checkpoint_store (pf_hash p) (pf_bincode p) s = Inr bs \<and> store_len s \<le> u32_max \<and>
           op_consistent (set (datoms s))) \<or>
        isl (load_store (pf_hash p) (pf_bincode p) bs))"

text \<open>The directory can be made, the log file opened and cut.\<close>

definition readable :: "disk_env \<Rightarrow> bool" where
  "readable en \<longleftrightarrow> de_dirs_ok en \<and> de_open_ok en \<and> de_truncate_ok en"

text \<open>A run starts from a fresh log and consists of transactions, signed or not, batches, observer
  registrations and crashes with a cold start, each with any outcome of its locks, syncs and reads, as
  long as a write that stops inside a frame is the last one before a crash. The hash map order may differ from step to step. The list holds
  the stores that were published.\<close>

inductive db_run :: "'c platform \<Rightarrow> 'c database \<Rightarrow> store list \<Rightarrow> bool" for p where
  run_start: "db_run p (db_build c (genesis (pf_hash p)) (Some wal_create)) [genesis (pf_hash p)]"
| run_transact: "db_run p db ss \<Longrightarrow> iteration_order order \<Longrightarrow> unambiguous (pf_hash p) t \<Longrightarrow> en_write en 0 = None \<Longrightarrow>
    transact_any (p\<lparr>pf_order := order\<rparr>) en sk t db = (db', r) \<Longrightarrow> db_run p db' (ss @ [current db'])"
| run_batch: "db_run p db ss \<Longrightarrow> iteration_order order \<Longrightarrow> \<forall>t \<in> set ts. unambiguous (pf_hash p) t \<Longrightarrow>
    \<forall>i. en_write en i = None \<Longrightarrow> batch_transact (p\<lparr>pf_order := order\<rparr>) en ts db = (db', r) \<Longrightarrow> db_run p db' (ss @ [current db'])"
| run_register: "db_run p db ss \<Longrightarrow> register_observer en db = (db', r) \<Longrightarrow> db_run p db' (ss @ [current db'])"
| run_crash: "db_run p db ss \<Longrightarrow> crashed p db ss dk \<Longrightarrow> readable en \<Longrightarrow> iteration_order order \<Longrightarrow>
    cold_start (p\<lparr>pf_order := order\<rparr>) en c dk = (dk', Inr res) \<Longrightarrow>
    db_run p (cs_database res) (ss @ [current (cs_database res)])"

lemma transact_all_receipts:
  assumes "store_inv b s" "transact_all b order ts s = (s', Inr rs)"
  shows "length rs = length ts \<and> 0 \<notin> r_epoch ` set rs \<and> (rs \<noteq> [] \<longrightarrow> r_epoch (hd rs) = epoch s + 1) \<and> store_inv b s' \<and>
    (\<forall>rc \<in> set rs. \<exists>(t, ctx) \<in> set ts. r_datoms rc = tx_datoms b (into_datoms t) (committed_node t) ctx)"
  using assms
proof (induction ts arbitrary: s rs)
  case (Cons tc ts)
  obtain t ctx where tc: "tc = (t, ctx)" by fastforce
  obtain s1 r1 where tr: "transact b order t ctx s = (s1, r1)" by fastforce
  from Cons.prems(2) tc tr obtain rc where rc: "r1 = Inr rc" by (cases r1) auto
  from Cons.prems(2) tc tr rc obtain rs' where rs': "transact_all b order ts s1 = (s', Inr rs')" "rs = rc # rs'"
    by (auto split: prod.splits sum.splits)
  note pos = transact_positional [OF Cons.prems(1) tr [unfolded rc]] and rcp = transact_receipt [OF Cons.prems(1) tr [unfolded rc]]
  have "r_epoch rc \<noteq> 0" using pos(2,4) by (metis add.commute add_eq_0_iff minus_equation_iff)
  with Cons.IH [OF rcp(2) rs'(1)] pos rcp(1) rs'(2) tc show ?case by auto
qed simp

lemma write_wal_all_frame:
  "write_wal_all p en i rs db = (db', r) \<Longrightarrow> \<exists>w'. db' = db\<lparr>db_wal := w'\<rparr>"
proof (induction rs arbitrary: i db)
  case Nil
  then show ?case by (auto intro: exI [of _ "db_wal db"])
next
  case (Cons rc rs)
  obtain d1 r1 where w: "write_wal p en i (r_epoch rc) (r_datoms rc) db = (d1, r1)" by fastforce
  obtain w1 where d1: "d1 = db\<lparr>db_wal := w1\<rparr>" using write_wal_frame [OF w] by blast
  show ?case
  proof (cases r1)
    case (Inl e)
    with Cons.prems w d1 show ?thesis by auto
  next
    case (Inr u)
    with Cons.prems w have "write_wal_all p en (Suc i) rs d1 = (db', r)" by simp
    from Cons.IH [OF this] d1 show ?thesis by auto
  qed
qed

lemma batch_locked_cases:
  assumes "batch_locked p en ts db = (db', r)"
  obtains (early) "current db' = current db" "db_wal db' = db_wal db"
  | (written) hc batches s' rs d d' wr where "tick_batch (pf_now p) ts (db_clock db) = (hc, Inr batches)"
      "batch_splice_transact (pf_hash p) (pf_order p) batches (current db) = (s', Inr rs)"
      "db_wal d = db_wal db" "write_wal_all p en 0 rs d = (d', wr)" "db_wal db' = db_wal d'"
      "current db' = (if isl wr then current db else s')"
proof (cases "lock_error (en_write_lock en) = Inr () \<and> en_clock_ok en \<and> \<not> isl (snd (tick_batch (pf_now p) ts (db_clock db)))
    \<and> \<not> isl (snd (batch_splice_transact (pf_hash p) (pf_order p) (projr (snd (tick_batch (pf_now p) ts (db_clock db)))) (current db)))")
  case False
  with assms have "current db' = current db" "db_wal db' = db_wal db"
    by (auto simp: batch_locked_def Let_def split: sum.splits if_splits prod.splits)
  then show thesis by (rule early)
next
  case True
  then obtain hc batches where tb: "tick_batch (pf_now p) ts (db_clock db) = (hc, Inr batches)"
    by (metis isl_def prod.collapse sum.collapse(2))
  with True obtain s' rs where sp: "batch_splice_transact (pf_hash p) (pf_order p) batches (current db) = (s', Inr rs)"
    by (metis prod.collapse sum.collapse(2) snd_conv sum.sel(2))
  let ?d = "db\<lparr>db_clock := hc\<rparr>"
  obtain d' wr where w: "write_wal_all p en 0 rs ?d = (d', wr)" by fastforce
  obtain w' where d': "d' = ?d\<lparr>db_wal := w'\<rparr>" using write_wal_all_frame [OF w] by blast
  have "db_wal db' = db_wal d' \<and> current db' = (if isl wr then current db else s')"
    using assms True tb sp w d'
    by (auto simp: batch_locked_def publish_and_check_def Let_def split: sum.splits if_splits)
  with tb sp w show thesis using written [of hc batches s' rs ?d d' wr] by simp
qed

lemma batch_transact_cases:
  assumes "batch_transact p en ts db = (db', r)"
  obtains (early) "current db' = current db" "db_wal db' = db_wal db"
  | (written) hc batches s' rs d d' wr where "tick_batch (pf_now p) ts (db_clock db) = (hc, Inr batches)" "ts \<noteq> []"
      "batch_splice_transact (pf_hash p) (pf_order p) batches (current db) = (s', Inr rs)"
      "db_wal d = db_wal db" "write_wal_all p en 0 rs d = (d', wr)" "db_wal db' = db_wal d'"
      "current db' = (if isl wr then current db else s')"
proof (cases "ts \<noteq> [] \<and> snd (try_acquire (db_limiter db))")
  case False
  with assms have "current db' = current db" "db_wal db' = db_wal db"
    by (auto simp: batch_transact_def with_write_slot_def split: prod.splits bool.splits if_splits)
  then show thesis by (rule early)
next
  case True
  then obtain wl where wl: "try_acquire (db_limiter db) = (wl, True)" by (metis prod.collapse)
  obtain d1 r1 where bl: "batch_locked p en ts (db\<lparr>db_limiter := wl\<rparr>) = (d1, r1)" by fastforce
  have same: "current db' = current d1" "db_wal db' = db_wal d1"
    using assms True wl bl by (auto simp: batch_transact_def with_write_slot_def notify_observers_def split: sum.splits if_splits)
  from bl show thesis
  proof (cases rule: batch_locked_cases)
    case e: early
    with same show thesis using early by simp
  next
    case (written hc batches s' rs d d' wr)
    with same True show thesis using that(2) [of hc batches s' rs d d' wr] by simp
  qed
qed

lemma tick_batch_datoms:
  "tick_batch now ts hc = (hc', Inr bs) \<Longrightarrow> map fst bs = map into_datoms ts"
  by (induction ts arbitrary: hc bs) (auto split: prod.splits sum.splits)

text \<open>A store that replaying the first entries gives.\<close>

definition prefix_store :: "(bytes \<Rightarrow> bytes) \<Rightarrow> entity_order \<Rightarrow> (u64 \<times> datom list) list \<Rightarrow> store \<Rightarrow> bool" where
  "prefix_store b order acked s \<longleftrightarrow> store_inv b s \<and> (\<exists>k. demote b s = replayed b order (take k acked) (genesis b))"

lemma prefix_store_append: "prefix_store b order acked s \<Longrightarrow> prefix_store b order (acked @ ys) s"
proof -
  have "take k acked = take (min k (length acked)) (acked @ ys)" for k by (simp add: min_def)
  then show "prefix_store b order acked s \<Longrightarrow> prefix_store b order (acked @ ys) s" unfolding prefix_store_def by metis
qed

lemma logged_prefix_store: "logged b bc order s w es n acked xs \<Longrightarrow> prefix_store b order acked s"
  by (auto simp: logged_def prefix_store_def intro: exI [of _ "length acked"])

definition run_inv :: "'c platform \<Rightarrow> entity_order \<Rightarrow> 'c database \<Rightarrow> store list \<Rightarrow> bool" where
  "run_inv p order db ss \<longleftrightarrow> (\<exists>w es n acked xs. db_wal db = Some w \<and>
     logged (pf_hash p) (pf_bincode p) order (current db) w es n acked xs \<and>
     (\<forall>s \<in> set ss. prefix_store (pf_hash p) order acked s))"

lemma run_invI:
  assumes "db_wal db = Some w" "logged (pf_hash p) (pf_bincode p) order (current db) w es n acked xs"
    "\<forall>s \<in> set ss. prefix_store (pf_hash p) order acked s"
  shows "run_inv p order db (ss @ [current db])"
  using assms logged_prefix_store [OF assms(2)] unfolding run_inv_def by fastforce

lemma run_inv_same:
  "run_inv p order db ss \<Longrightarrow> current db' = current db \<Longrightarrow> db_wal db' = db_wal db \<Longrightarrow> run_inv p order db' (ss @ [current db'])"
  using run_invI [of db' _ p order] unfolding run_inv_def by metis

lemma run_inv_write:
  assumes "run_inv p order db ss" "bincode_reads_back (pf_bincode p)" "iteration_order o1" "iteration_order order"
    and tx: "transact_all (pf_hash p) o1 ts (current db) = (s', Inr rs)" "ts \<noteq> []" "\<forall>(t, ctx) \<in> set ts. unambiguous (pf_hash p) t"
    and wr: "db_wal d = db_wal db" "write_wal_all (p\<lparr>pf_order := o1\<rparr>) en 0 rs d = (d', r)" "\<forall>j < length rs. en_write en j = None"
    and db': "db_wal db' = db_wal d'" "current db' = (if isl r then current db else s')"
  shows "run_inv p order db' (ss @ [current db'])"
proof -
  let ?b = "pf_hash p" and ?bc = "pf_bincode p"
  obtain w es n acked xs where i: "db_wal db = Some w" "logged ?b ?bc order (current db) w es n acked xs"
    "\<forall>s \<in> set ss. prefix_store ?b order acked s"
    using assms(1) unfolding run_inv_def by blast
  have inv: "store_inv ?b (current db)" using i(2) by (simp add: logged_def)
  note R = transact_all_receipts [OF inv tx(1)]
  have sv: "\<forall>r \<in> set rs. single_valued (schema_defs (r_datoms r))" using R tx(3) by (fastforce simp: unambiguous_def)
  note P = transact_all_replayed [OF inv tx(1,2) assms(3,4) sv]
  have "\<exists>w' es' n'. db_wal d' = Some w' \<and>
    (r = Inr () \<longrightarrow> logged ?b ?bc order s' w' es' n' (acked @ map entry_of rs) []) \<and>
    (\<exists>xs'. isl r \<longrightarrow> logged ?b ?bc order (current db) w' es' n' acked xs')"
    using P R wr i(1) sv by (intro logged_write [OF i(2), of "p\<lparr>pf_order := o1\<rparr>"]) (use assms(2) in auto)
  then obtain w' es' n' xs' where L: "db_wal d' = Some w'"
    "r = Inr () \<Longrightarrow> logged ?b ?bc order s' w' es' n' (acked @ map entry_of rs) []"
    "isl r \<Longrightarrow> logged ?b ?bc order (current db) w' es' n' acked xs'" by blast
  show ?thesis
  proof (cases "isl r")
    case True
    with L db' i(3) show ?thesis by (intro run_invI [of _ w' _ _ es' n' acked xs']) auto
  next
    case False
    then have "r = Inr ()" by (cases r) auto
    with L db' i(3) show ?thesis
      by (intro run_invI [of _ w' _ _ es' n' "acked @ map entry_of rs" "[]"]) (auto intro: prefix_store_append)
  qed
qed


section \<open>Recovery of a torn log\<close>

lemma evolve_entries_order_free:
  assumes "iteration_order o1" "iteration_order o2" "schema_inv sch" "\<forall>en \<in> set es. single_valued (schema_defs (snd en))"
    "fst (evolve_entries o1 es sch) = Inr ()"
  shows "evolve_entries o2 es sch = evolve_entries o1 es sch"
  using assms(3-5)
proof (induction es arbitrary: sch)
  case (Cons en es)
  obtain ep ds where en: "en = (ep, ds)" by fastforce
  obtain sch' r where ev: "evolve_schema o1 sch ds = (sch', r)" by fastforce
  with Cons.prems en have r: "r = Inr ()" by (cases r) auto
  have "evolve_schema o2 sch ds = (sch', r)"
    using evolve_schema_order_free [OF assms(1,2) Cons.prems(1)] Cons.prems(2) ev r en by (metis list.set_intros(1) snd_conv)
  moreover have "schema_inv sch'" using schema_inv_evolve [OF Cons.prems(1), of o1 ds] ev by simp
  ultimately show ?case using Cons ev r en by simp
qed simp

lemma replayed_order_free:
  assumes "iteration_order o1" "iteration_order o2" "store_inv b s" "\<forall>en \<in> set es. single_valued (schema_defs (snd en))"
    "fst (evolve_entries o1 es (st_schema s)) = Inr ()"
  shows "replayed b o2 es s = replayed b o1 es s"
  using evolve_entries_order_free [OF assms(1,2) store_inv_schema [OF assms(3)] assms(4,5)] by (simp add: replayed_def)

text \<open>Replaying the entries \<open>fs\<close> behind a store that the entries before them give.\<close>

lemma replay_suffix:
  assumes l: "logged b bc order s w es n acked xs" and run: "wal_run w' (take m es) m" "m \<le> length es"
    and base: "store_inv b s0" "demote b s0 = replayed b order as (genesis b)" "take m (acked @ xs) = as @ fs"
      "filter (\<lambda>en. keep (fst en)) (as @ fs) = fs"
    and ord: "iteration_order order" "iteration_order o1"
  shows "\<exists>s'. replay_wal bc o1 keep (take m es) s0 = Inr s' \<and> logged b bc order s' w' (take m es) m (as @ fs) []"
proof -
  note L = l [unfolded logged_def]
  have m: "length (as @ fs) = m" using run(2) L base(3) by (metis length_append length_take list_all2_lengthD min.absorb2)
  have sub: "set (as @ fs) \<subseteq> set (acked @ xs)" unfolding base(3) [symmetric] by (rule set_take_subset)
  have dec: "list_all2 (decodes bc) (take m es) (as @ fs)" using L base(3) by (metis list_all2_takeI)
  have ev: "fst (evolve_entries order (as @ fs) (st_schema (genesis b))) = Inr ()"
    using L evolve_entries_append(1) [of order "as @ fs" "drop m (acked @ xs)"] unfolding base(3) [symmetric] append_take_drop_id by blast
  then have eva: "fst (evolve_entries order as (st_schema (genesis b))) = Inr ()" by (simp add: evolve_entries_append)
  have sg: "st_schema s0 = snd (evolve_entries order as (st_schema (genesis b)))"
    using arg_cong [OF base(2), of st_schema] by (simp add: replayed_def)
  have evf: "fst (evolve_entries order fs (st_schema s0)) = Inr ()" using ev sg by (simp add: evolve_entries_append)
  have sv: "\<forall>en \<in> set fs. single_valued (schema_defs (snd en))" using L sub by auto
  have "fst (evolve_entries o1 fs (st_schema s0)) = Inr ()"
    using evolve_entries_order_free [OF ord store_inv_schema [OF base(1)] sv evf] evf by simp
  then obtain s' where s': "replay_wal bc o1 keep (take m es) s0 = Inr s'" "store_inv b s'" "demote b s' = replayed b o1 fs s0"
    using replay_wal_spec [OF dec base(1), of o1 keep] unfolding base(4) by blast
  have "demote b s' = replayed b order (as @ fs) (genesis b)"
    using s'(3) replayed_order_free [OF ord base(1) sv evf] replayed_append [OF eva, of b fs]
      replayed_demote(1) [OF base(1), of order fs] base(2) by simp
  moreover have "0 \<notin> fst ` set (as @ fs)" using L sub by (meson image_mono subsetD)
  ultimately show ?thesis using s' run(1) dec ev m L sub by (auto simp: logged_def)
qed

lemma filter_behind:
  assumes "sorted_wrt (<) (map fst (as @ fs))" "0 \<notin> fst ` set (as @ fs)"
  shows "filter (\<lambda>en. (last (0 # map fst as) :: u64) < fst en) (as @ fs) = fs"
proof -
  have "\<not> last (0 # map fst as) < fst en" if "en \<in> set as" for en
  proof (cases as rule: rev_cases)
    case (snoc ys y)
    with that assms(1) show ?thesis by (auto simp: sorted_wrt_append)
  qed (use that in simp)
  moreover have "last (0 # map fst as) < fst en" if "en \<in> set fs" for en
  proof (cases as rule: rev_cases)
    case Nil
    with that assms(2) show ?thesis by (auto simp: image_iff word_gt_0)
  next
    case (snoc ys y)
    with that assms(1) show ?thesis by (auto simp: sorted_wrt_append)
  qed
  ultimately show ?thesis by (simp add: filter_id_conv filter_empty_conv)
qed

lemma prefix_store_conflicts: "prefix_store b order acked s \<Longrightarrow> (demote b s)\<lparr>schema_conflicts := []\<rparr> = demote b s"
  by (auto simp: prefix_store_def replayed_def genesis_def)

text \<open>What the cascade finds: the log gives back its entries, and both the replay from genesis and the replay
  behind a checkpoint succeed with the same entries.\<close>

lemma recovered:
  assumes l: "logged b bc order s w es n acked xs" and k: "crash_file w bs"
    and dk: "dk_wal dk = Some bs" "de_open_ok en" "de_truncate_ok en"
    and ord: "iteration_order order" "iteration_order o1"
  obtains m w' where "open_and_recover en dk = (dk\<lparr>dk_wal := Some (w_file w')\<rparr>, Inr (w', take m es))" "length acked \<le> m"
    "\<exists>s'. replay_wal bc o1 (\<lambda>_. True) (take m es) (genesis b) = Inr s' \<and>
       logged b bc order s' w' (take m es) m (acked @ take (m - length acked) xs) []"
    "\<And>s0. prefix_store b order acked s0 \<Longrightarrow>
       \<exists>s'. replay_wal bc o1 (\<lambda>ep. epoch s0 < ep) (take m es) (demote b s0) = Inr s' \<and>
         logged b bc order s' w' (take m es) m (acked @ take (m - length acked) xs) []"
proof -
  note L = l [unfolded logged_def]
  have run: "wal_run w es n" and len: "length acked \<le> n" using L by auto
  obtain m w' where m: "n \<le> m" "m \<le> length es" "recover True (wal_open bs) = (w', Inr (take m es))"
    using recover_torn [OF wal_run_inv [OF run] k] by blast
  have run': "wal_run w' (take m es) m" using run_recover [OF run k m(3)] m(2) by simp
  have am: "length acked \<le> m" using m(1) len by simp
  then have t: "take m (acked @ xs) = acked @ take (m - length acked) xs" by simp
  have srt: "sorted_wrt (<) (map fst (take m (acked @ xs)))" "0 \<notin> fst ` set (take m (acked @ xs))"
    using logged_epochs(1) [OF l] sorted_wrt_take set_take_subset L by (metis take_map, meson image_mono subsetD)
  show thesis
  proof (rule that [of w' m])
    show "open_and_recover en dk = (dk\<lparr>dk_wal := Some (w_file w')\<rparr>, Inr (w', take m es))"
      using dk m(3) by (simp add: open_and_recover_def wal_open_file_def)
    show "length acked \<le> m" by (rule am)
    show "\<exists>s'. replay_wal bc o1 (\<lambda>_. True) (take m es) (genesis b) = Inr s' \<and>
       logged b bc order s' w' (take m es) m (acked @ take (m - length acked) xs) []"
      using replay_suffix [OF l run' m(2) store_inv_genesis _ _ _ ord, of "[]" "acked @ take (m - length acked) xs" "\<lambda>_. True"] t
      by (simp add: replayed_def absorb_Nil)
    fix s0 assume "prefix_store b order acked s0"
    then obtain j where s0: "store_inv b s0" "demote b s0 = replayed b order (take j acked) (genesis b)" by (auto simp: prefix_store_def)
    let ?fs = "drop j acked @ take (m - length acked) xs"
    have sp: "take m (acked @ xs) = take j acked @ ?fs" using t by simp
    have "epoch (demote b s0) = last (0 # map fst (take j acked))" using s0(2) by (simp add: replayed_def genesis_def)
    then have ep: "epoch s0 = last (0 # map fst (take j acked))" by simp
    have "filter (\<lambda>en. epoch s0 < fst en) (take j acked @ ?fs) = ?fs"
      unfolding ep using srt unfolding sp by (rule filter_behind)
    note S = replay_suffix [OF l run' m(2) _ _ sp this ord, of "demote b s0"]
    have "take j acked @ ?fs = acked @ take (m - length acked) xs" by simp
    with S s0
    show "\<exists>s'. replay_wal bc o1 (\<lambda>ep. epoch s0 < ep) (take m es) (demote b s0) = Inr s' \<and>
         logged b bc order s' w' (take m es) m (acked @ take (m - length acked) xs) []" using replayed_demote(2) [OF store_inv_genesis] store_inv_demote [OF s0(1)] by metis
  qed
qed

lemma load_prefix_store:
  assumes "bincode_reads_back bc" "digest32 b" "prefix_store b order acked s" "store_len s \<le> u32_max"
    "op_consistent (set (datoms s))" "checkpoint_store b bc s = Inr bs"
  shows "load_store b bc bs = Inr (demote b s)"
proof -
  have inv: "store_inv b s" using assms(3) by (simp add: prefix_store_def)
  obtain k where "demote b s = replayed b order (take k acked) (genesis b)" using assms(3) by (auto simp: prefix_store_def)
  from arg_cong [OF this, of genesis_node] have "genesis_node s = zero_node" by (simp add: replayed_def genesis_def)
  then have "node_wf (genesis_node s)" by (simp add: node_wf_def zero_node_def)
  from checkpoint_bytes_roundtrip [OF assms(1,2) this inv] checkpoint_data_roundtrip [OF inv assms(4,5)] assms(6)
  show ?thesis using prefix_store_conflicts [OF assms(3)] by (simp add: load_store_def checkpoint_store_def)
qed

lemma cold_start_logged:
  assumes "logged (pf_hash p) (pf_bincode p) order (current db) w es n acked xs" "db_wal db = Some w"
    "\<forall>s \<in> set ss. prefix_store (pf_hash p) order acked s"
    "bincode_reads_back (pf_bincode p)" "digest32 (pf_hash p)" "crashed p db ss dk" "readable en"
    "iteration_order order" "iteration_order o1"
  obtains dk' db' level w' m where "cold_start (p\<lparr>pf_order := o1\<rparr>) en c dk = (dk', Inr \<lparr>cs_database = db', cs_level = level\<rparr>)"
    "level \<in> {CheckpointPlusWal, WalOnly}" "db_wal db' = Some w'" "dk_wal dk' = Some (w_file w')" "length acked \<le> m"
    "logged (pf_hash p) (pf_bincode p) order (current db') w' (take m es) m (acked @ take (m - length acked) xs) []"
proof -
  let ?b = "pf_hash p" and ?bc = "pf_bincode p" and ?p = "p\<lparr>pf_order := o1\<rparr>"
  obtain bs0 where k: "crash_file w bs0" "dk_wal dk = Some bs0"
    and ck: "\<And>bs. dk_checkpoint dk = Some bs \<Longrightarrow>
        (\<exists>s \<in> set ss. checkpoint_store ?b ?bc s = Inr bs \<and> store_len s \<le> u32_max \<and> op_consistent (set (datoms s))) \<or>
        isl (load_store ?b ?bc bs)"
    using assms(2,6) by (auto simp: crashed_def)
  have env: "de_open_ok en" "de_truncate_ok en" "de_dirs_ok en" using assms(7) by (simp_all add: readable_def)
  obtain m w' s1 where R: "open_and_recover en dk = (dk\<lparr>dk_wal := Some (w_file w')\<rparr>, Inr (w', take m es))" "length acked \<le> m"
    "replay_wal ?bc o1 (\<lambda>_. True) (take m es) (genesis ?b) = Inr s1"
    "logged ?b ?bc order s1 w' (take m es) m (acked @ take (m - length acked) xs) []"
    "\<And>s0. prefix_store ?b order acked s0 \<Longrightarrow>
       \<exists>s'. replay_wal ?bc o1 (\<lambda>ep. epoch s0 < ep) (take m es) (demote ?b s0) = Inr s' \<and>
         logged ?b ?bc order s' w' (take m es) m (acked @ take (m - length acked) xs) []"
    by (rule recovered [OF assms(1) k env(1,2) assms(8,9)]) blast
  have wal_only: "recover_from_wal ?p en c dk = (dk\<lparr>dk_wal := Some (w_file w')\<rparr>, Inr (db_build c s1 (Some w')))"
    using R(1,3) by (simp add: recover_from_wal_def)
  show thesis
  proof (cases "\<exists>s0. load_checkpoint ?p en dk = Inr s0")
    case False
    then obtain e where e: "load_checkpoint ?p en dk = Inl e" by (cases "load_checkpoint ?p en dk") auto
    then have "cold_start ?p en c dk = (dk\<lparr>dk_wal := Some (w_file w')\<rparr>, Inr \<lparr>cs_database = db_build c s1 (Some w'), cs_level = WalOnly\<rparr>)"
      using k(2) env wal_only
      by (simp add: cold_start_def try_checkpoint_plus_wal_def db_recover_def try_wal_only_def ok_level_def)
    then show thesis by (rule that) (use R in \<open>simp_all add: db_build_def build_opening_def\<close>)
  next
    case True
    then obtain s0 bs where s0: "load_checkpoint ?p en dk = Inr s0" and bs: "dk_checkpoint dk = Some bs" "load_store ?b ?bc bs = Inr s0"
      by (auto simp: load_checkpoint_def split: option.splits if_splits)
    then obtain s where s: "s \<in> set ss" "checkpoint_store ?b ?bc s = Inr bs" "store_len s \<le> u32_max" "op_consistent (set (datoms s))"
      using ck [of bs] by auto
    have pre: "prefix_store ?b order acked s" using assms(3) s(1) by blast
    have d: "s0 = demote ?b s" using load_prefix_store [OF assms(4,5) pre s(3,4,2)] bs(2) by simp
    obtain s' where s': "replay_wal ?bc o1 (\<lambda>ep. epoch s < ep) (take m es) (demote ?b s) = Inr s'"
      "logged ?b ?bc order s' w' (take m es) m (acked @ take (m - length acked) xs) []" using R(5) [OF pre] by blast
    have "cold_start ?p en c dk = (dk\<lparr>dk_wal := Some (w_file w')\<rparr>, Inr \<lparr>cs_database = db_build c s' (Some w'), cs_level = CheckpointPlusWal\<rparr>)"
      using k(2) env s0 bs d R(1) s'(1)
      by (simp add: cold_start_def try_checkpoint_plus_wal_def db_recover_def ok_level_def)
    then show thesis by (rule that) (use R s' in \<open>simp_all add: db_build_def build_opening_def\<close>)
  qed
qed

lemma db_run_inv:
  assumes "db_run p db ss" "bincode_reads_back (pf_bincode p)" "digest32 (pf_hash p)" "iteration_order ord"
  shows "run_inv p ord db ss"
  using assms(1)
proof (induction rule: db_run.induct)
  case (run_start c)
  have "logged (pf_hash p) (pf_bincode p) ord (genesis (pf_hash p)) wal_create [] 0 [] []"
    using run_create by (simp add: logged_def replayed_def absorb_Nil)
  then show ?case using run_invI [of "db_build c (genesis (pf_hash p)) (Some wal_create)" wal_create p ord "[]" 0 "[]" "[]" "[]"]
    by (simp add: db_build_def build_opening_def)
next
  case (run_transact db ss order t en sk db' r)
  have inv: "store_inv (pf_hash p) (current db)" using run_transact.IH by (auto simp: run_inv_def logged_def)
  let ?p = "p\<lparr>pf_order := order\<rparr>"
  have inv': "store_inv (pf_hash ?p) (current db)" using inv by simp
  from inv' run_transact(5) show ?case
  proof (cases rule: transact_any_cases)
    case (early hc e)
    then show ?thesis using run_inv_same [OF run_transact.IH] by simp
  next
    case (log_failed hc x s' rc e db1)
    then show ?thesis using run_transact(3,4)
      by (intro run_inv_write [OF run_transact.IH assms(2) run_transact(2) assms(4), where d = db and d' = db1 and r = "Inl e" and rs = "[rc]" and s' = s' and en = en and
          ts = "[(t, transact_ctx ?p sk t x (db_frontier db) (current db))]"]) auto
  next
    case (published hc x s' rc db1)
    then show ?thesis using run_transact(3,4)
      by (intro run_inv_write [OF run_transact.IH assms(2) run_transact(2) assms(4), where d = db and d' = db1 and r = "Inr ()" and rs = "[rc]" and s' = s' and en = en and
          ts = "[(t, transact_ctx ?p sk t x (db_frontier db) (current db))]"]) auto
  next
    case (late hc x s' rc db1)
    then show ?thesis using run_transact(3,4)
      by (intro run_inv_write [OF run_transact.IH assms(2) run_transact(2) assms(4), where d = db and d' = db1 and r = "Inr ()" and rs = "[rc]" and s' = s' and en = en and
          ts = "[(t, transact_ctx ?p sk t x (db_frontier db) (current db))]"]) auto
  qed
next
  case (run_batch db ss order ts en db' r)
  have inv: "store_inv (pf_hash p) (current db)" using run_batch.IH by (auto simp: run_inv_def logged_def)
  from run_batch(5) show ?case
  proof (cases rule: batch_transact_cases)
    case early
    then show ?thesis using run_inv_same [OF run_batch.IH] by simp
  next
    case (written hc batches s' rs d d' wr)
    have m: "map fst batches = map into_datoms ts" by (rule tick_batch_datoms [OF written(1)])
    then have ne: "batches \<noteq> []" using written(2) by auto
    have "transact_all (pf_hash p) order (map batch_tx batches) (current db) = (s', Inr rs)"
    proof -
      have w: "batch_splice_transact (pf_hash p) order batches (current db) = (s', Inr rs)" using written(3) by simp
      show ?thesis using batch_splice_all [OF inv ne, of order] unfolding w by auto
    qed
    moreover have "\<forall>(t, ctx) \<in> set (map batch_tx batches). unambiguous (pf_hash p) t"
    proof safe
      fix t ctx assume "(t, ctx) \<in> set (map batch_tx batches)"
      then obtain ds x where "(ds, x) \<in> set batches" "into_datoms t = ds" by (auto simp: batch_tx_def)
      then have "into_datoms t \<in> set (map into_datoms ts)" by (metis fst_conv image_eqI list.set_map m)
      then show "unambiguous (pf_hash p) t" using run_batch(3) by (auto simp: unambiguous_def)
    qed
    ultimately show ?thesis using ne written run_batch(4)
      by (intro run_inv_write [OF run_batch.IH assms(2) run_batch(2) assms(4), where ts = "map batch_tx batches"]) auto
  qed
next
  case (run_register db ss en db' r)
  from run_register(2) have "current db' = current db" "db_wal db' = db_wal db"
    by (auto simp: register_observer_def split: if_splits)
  then show ?case by (rule run_inv_same [OF run_register.IH])
next
  case (run_crash db ss dk en order c dk' res)
  obtain w es n acked xs where i: "db_wal db = Some w" "logged (pf_hash p) (pf_bincode p) ord (current db) w es n acked xs"
    "\<forall>s \<in> set ss. prefix_store (pf_hash p) ord acked s" using run_crash.IH unfolding run_inv_def by blast
  obtain dk'' db' level w' m where C: "cold_start (p\<lparr>pf_order := order\<rparr>) en c dk = (dk'', Inr \<lparr>cs_database = db', cs_level = level\<rparr>)"
    "db_wal db' = Some w'" "logged (pf_hash p) (pf_bincode p) ord (current db') w' (take m es) m (acked @ take (m - length acked) xs) []"
    by (rule cold_start_logged [OF i(2,1,3) assms(2,3) run_crash(2,3) assms(4) run_crash(4), where c = c]) blast
  with run_crash(5) have "db' = cs_database res" by auto
  with C i(3) show ?case by (intro run_invI [of _ w' _ _ "take m es" m "acked @ take (m - length acked) xs" "[]"]) (auto intro: prefix_store_append)
qed

text \<open>A store recovered from the entries of a log that its owner had published, and some of the failed ones behind
  them, has everything the owner had published.\<close>

lemma logged_restores:
  assumes l: "logged b bc order s w es n acked xs" and l': "logged b bc order s' w' es' m (acked @ take j xs) []"
  shows "store_inv b s'" "set (datoms s) \<subseteq> set (datoms s')" "epoch s \<le> epoch s'" "pending_epoch w' = epoch s'"
    "pending_epoch w = epoch s \<Longrightarrow> demote b s' = demote b s"
proof -
  have dem: "demote b s' = replayed b order (acked @ take j xs) (genesis b)"
    "demote b s = replayed b order acked (genesis b)"
    and inv: "store_inv b s'" "store_inv b s" using l l' by (simp_all add: logged_def)
  show "store_inv b s'" by (rule inv)
  have "datoms (demote b s') = sort_dedup (datoms (genesis b) @ concat (map snd (acked @ take j xs)))"
    "datoms (demote b s) = sort_dedup (datoms (genesis b) @ concat (map snd acked))"
    unfolding dem by (simp_all add: replayed_def)
  then show "set (datoms s) \<subseteq> set (datoms s')" using inv by auto
  note E = logged_epochs [OF l'] and E0 = logged_epochs [OF l]
  show "pending_epoch w' = epoch s'" using E(2,3) by simp
  have "last (0 # map fst acked) \<le> last (0 # map fst (acked @ take j xs))"
  proof (cases "take j xs" rule: rev_cases)
    case (snoc ys y)
    then show ?thesis using E(1) by (cases "acked = []") (auto simp: sorted_wrt_append last_map intro: less_imp_le)
  qed simp
  then show "epoch s \<le> epoch s'" using E(3) E0(3) by simp
  assume "pending_epoch w = epoch s"
  then have "xs = []" using E0(4) by force
  then show "demote b s' = demote b s" unfolding dem by simp
qed

section \<open>Properties\<close>

text \<open>C2 Crash recovery. Take a run of a database with a log: transactions, signed or not, and batches, none of
  which defines an attribute in two ways; registrations, failed locks and failed syncs; earlier crashes and cold
  starts. A write that stops inside a frame may only be the last thing before a crash (the log hides what is
  appended behind such a frame, as \<open>failed_write_hides_later_entries\<close> shows). After a crash that tears the log at
  any byte behind its durable part, with the checkpoint file missing, or a checkpoint of any store published
  during the run (of at most \<open>u32::MAX\<close> datoms, no statement both asserted and retracted in one transaction), or
  bytes the loader rejects, with a readable directory, any hash map order, a \<open>bincode\<close> that reads back what it
  wrote and 32-byte digests, a cold start succeeds. The database it returns holds every published datom and at
  least the published epoch; it is exactly the published store when no log entry failed after it was written;
  and its log file is consistent with the store: it accepts the next epoch.\<close>

theorem cold_start_restores:
  assumes "db_run p db ss" "crashed p db ss dk" "db_wal db = Some w" "readable en" "iteration_order order"
    "bincode_reads_back (pf_bincode p)" "digest32 (pf_hash p)"
  shows "\<exists>dk' db' level w'. cold_start (p\<lparr>pf_order := order\<rparr>) en c dk = (dk', Inr \<lparr>cs_database = db', cs_level = level\<rparr>) \<and>
    level \<in> {CheckpointPlusWal, WalOnly} \<and> store_inv (pf_hash p) (current db') \<and>
    set (datoms (current db)) \<subseteq> set (datoms (current db')) \<and> epoch (current db) \<le> epoch (current db') \<and>
    (pending_epoch w = epoch (current db) \<longrightarrow> demote (pf_hash p) (current db') = demote (pf_hash p) (current db)) \<and>
    db_wal db' = Some w' \<and> dk_wal dk' = Some (w_file w') \<and> pending_epoch w' = epoch (current db')"
proof -
  let ?b = "pf_hash p" and ?bc = "pf_bincode p"
  obtain es n acked xs where i: "logged ?b ?bc order (current db) w es n acked xs" "\<forall>s \<in> set ss. prefix_store ?b order acked s"
    using db_run_inv [OF assms(1,6,7,5)] assms(3) unfolding run_inv_def by auto
  obtain dk' db' level w' m where C: "cold_start (p\<lparr>pf_order := order\<rparr>) en c dk = (dk', Inr \<lparr>cs_database = db', cs_level = level\<rparr>)"
    "level \<in> {CheckpointPlusWal, WalOnly}" "db_wal db' = Some w'" "dk_wal dk' = Some (w_file w')" "length acked \<le> m"
    "logged ?b ?bc order (current db') w' (take m es) m (acked @ take (m - length acked) xs) []"
    by (rule cold_start_logged [OF i(1) assms(3) i(2) assms(6,7,2,4,5,5), where c = c])
  with logged_restores [OF i(1) C(6)] show ?thesis by blast
qed

lemma demo_logged_transact:
  obtains p db' rc w where "pf_hash p = zero_digest" "bincode_reads_back (pf_bincode p)" "pf_order p = (\<lambda>es. es)"
    "transact_any p demo_env None demo_tx (db_build () (genesis zero_digest) (Some wal_create)) = (db', Inr rc)"
    "db_wal db' = Some w" "pending_epoch w = 1" "epoch (current db') = 1"
proof -
  let ?db = "db_build () (genesis zero_digest) (Some wal_create)"
  let ?x = "with_node 1 0 zero_node"
  let ?ctx = "transact_ctx demo_platform None demo_tx ?x frontier_new (genesis zero_digest)"
  obtain s' rc where t: "transact zero_digest (\<lambda>es. es) demo_tx ?ctx (genesis zero_digest) = (s', Inr rc)"
    using demo_transact [OF store_inv_genesis zero_digest(5)] by blast
  let ?p = "demo_platform\<lparr>pf_bincode := one_value_bincode (r_datoms rc) undefined undefined undefined\<rparr>"
  have ctx: "transact_ctx ?p None demo_tx ?x frontier_new (genesis zero_digest) = ?ctx" by (simp add: transact_ctx_def Let_def)
  note pos = transact_positional [OF store_inv_genesis t]
  then obtain ps where ps: "repr s' = RPositional ps" by blast
  have e: "r_epoch rc = 1" "epoch s' = 1" using pos(2,3) zero_digest(5) by simp_all
  obtain w1 where w1: "append_raw None 1 [] wal_create = (w1, Inr ())" "pending_epoch w1 = 1"
    by (simp add: append_raw_ok wal_create_def MAX_PAYLOAD_SIZE_def write_at_def)
  obtain w2 where w2: "fsync True w1 = (w2, Inr ())" "pending_epoch w2 = 1" using w1(2) by (simp add: fsync_def)
  have tk: "tick (pf_now ?p) (db_clock ?db) = ((db_clock ?db)\<lparr>hc_physical := 1, hc_logical := 0\<rparr>, Inr ?x)"
    by (simp add: tick_def tick_bounded_def demo_platform_def db_build_def build_opening_def with_clock_def Let_def genesis_def zero_node_def)
  obtain db' where "transact_any ?p demo_env None demo_tx ?db = (db', Inr rc)" "db_wal db' = Some w2" "current db' = s'"
  proof -
    have can: "verify_bijection_canary ?p (d\<lparr>current := s'\<rparr>) = Inr ()" for d by (rule canary_positional) (simp add: ps)
    have "\<exists>db'. transact_any ?p demo_env None demo_tx ?db = (db', Inr rc) \<and> db_wal db' = Some w2 \<and> current db' = s'"
      using tk ctx t w1(1) w2(1) e ps
      by (simp add: transact_any_def with_write_slot_def try_acquire_def acquire_add_def db_build_def
        build_opening_def limiter_new_def DEFAULT_MAX_CONCURRENT_WRITES_def transact_locked_def acquire_write_lock_and_tick_def
        demo_env_def lock_error_def frontier_locked_def write_wal_def publish_and_check_def advance_frontier_def
        verify_bijection_canary_def store_indexes_def notify_observers_def demo_platform_def one_value_bincode_def Let_def)
    then show thesis using that by blast
  qed
  with w2 e show thesis
    by (intro that [of ?p db' rc w2]) (simp_all add: one_value_bincode_reads_back demo_platform_def)
qed

lemma demo_unambiguous: "unambiguous b demo_tx"
  by (simp add: unambiguous_def demo_schema_defs single_valued_def)

lemma demo_run:
  assumes "pf_hash p = zero_digest" "pf_order p = (\<lambda>es. es)"
    "transact_any p demo_env None demo_tx (db_build () (genesis zero_digest) (Some wal_create)) = (db, Inr rc)"
  shows "db_run p db ([genesis zero_digest] @ [current db])"
proof -
  have "p\<lparr>pf_order := \<lambda>ks. ks\<rparr> = p" using assms(2) by simp
  with run_transact [OF run_start [of p "()"] iteration_order_id demo_unambiguous, of demo_env None db "Inr rc"] assms(1,3)
  show ?thesis by (simp add: demo_env_def)
qed

lemma durable_prefix:
  assumes "db_run p db ss" "bincode_reads_back (pf_bincode p)" "digest32 (pf_hash p)" "db_wal db = Some w"
  shows "take (length (w_durable w)) (w_file w) = w_durable w"
proof -
  obtain es n where "wal_run w es n"
    using db_run_inv [OF assms(1-3) iteration_order_id] assms(4) by (auto simp: run_inv_def logged_def)
  from wal_run_inv [OF this] have "w_file w = frames (take n es) @ frames (drop n es)" "w_durable w = frames (take n es)"
    by (simp_all add: wal_inv_def flip: concat_append map_append)
  then show ?thesis by simp
qed

theorem cold_start_restores_witness:
  "\<exists>p db ss w dk en c dk' db' level. db_run p db ss \<and> db_wal db = Some w \<and> crashed p db ss dk \<and> epoch (current db) = 1 \<and>
     cold_start (p\<lparr>pf_order := rev\<rparr>) en c dk = (dk', Inr \<lparr>cs_database = db', cs_level = level\<rparr>) \<and>
     demote (pf_hash p) (current (db' :: unit database)) = demote (pf_hash p) (current db)"
proof -
  obtain p db rc w where d: "pf_hash p = zero_digest" "bincode_reads_back (pf_bincode p)" "pf_order p = (\<lambda>es. es)"
    "transact_any p demo_env None demo_tx (db_build () (genesis zero_digest) (Some wal_create)) = (db, Inr rc)"
    "db_wal db = Some w" "pending_epoch w = 1" "epoch (current db) = 1" by (rule demo_logged_transact)
  let ?ss = "[genesis zero_digest] @ [current db]" and ?en = "\<lparr>de_dirs_ok = True, de_read_ok = False, de_open_ok = True, de_truncate_ok = True, de_create_ok = False\<rparr>"
  have run: "db_run p db ?ss" by (rule demo_run [OF d(1,3,4)])
  let ?dk = "\<lparr>dk_checkpoint = None, dk_wal = Some (take (length (w_durable w)) (w_file w))\<rparr>"
  have "crash_file w (take (length (w_durable w)) (w_file w))" by (auto simp: crash_file_def)
  then have cr: "crashed p db ?ss ?dk" using d(5) by (auto simp: crashed_def)
  have "readable ?en" "digest32 (pf_hash p)" using d(1) zero_digest(1) by (simp_all add: readable_def)
  from cold_start_restores [OF run cr d(5) this(1) iteration_order_rev d(2) this(2), where c = "()"] run cr d show ?thesis by metis
qed

lemma log_refuses_next:
  assumes "store_inv b (current db)" "epoch (current db) < pending_epoch w" "transact b order t ctx (current db) = (s', Inr rc)"
  shows "append_raw os (r_epoch rc) payload w \<noteq> (w1, Inr ())"
proof -
  have e: "r_epoch rc = epoch (current db) + 1" by (rule transact_positional(2) [OF assms(1,3)])
  have "r_epoch rc \<le> pending_epoch w \<and> pending_epoch w > 0"
    unfolding e using assms(2) inc_le by (metis word_gt_0 word_not_simps(1))
  then show ?thesis by (simp add: append_raw_def write_frame_def)
qed

lemma write_wal_appended:
  "write_wal p en i ep ds db = (db', Inr ()) \<Longrightarrow> db_wal db = Some w \<Longrightarrow>
     \<exists>payload w1. append_raw (en_write en i) ep payload w = (w1, Inr ())"
  by (auto simp: write_wal_def split: if_splits option.splits prod.splits sum.splits)

text \<open>A failed sync blocks the database. Once the log holds an entry whose transaction failed, its epoch is at
  least the next one of the store, so the log refuses every later transaction; the published store stays
  what it is until a restart, which then replays the failed entry.\<close>

theorem failed_sync_blocks_writes:
  assumes "store_inv (pf_hash p) (current db)" "db_wal db = Some w" "epoch (current db) < pending_epoch w"
    "transact_any p en sk t db = (db', r)"
  shows "isl r \<and> current db' = current db"
  using assms(1,4)
proof (cases rule: transact_any_cases)
  case (published hc x s' rc db1)
  then show ?thesis using write_wal_appended [OF published(3) assms(2)] log_refuses_next [OF assms(1,3) published(2)] by blast
next
  case (late hc x s' rc db1)
  then show ?thesis using write_wal_appended [OF late(3) assms(2)] log_refuses_next [OF assms(1,3) late(2)] by blast
qed auto

end
