(* ===== verification/Storage.thy ===== *)
theory Storage
  imports Recovery
begin

text \<open>
  Storage backends (\<open>ferratomic-storage/src/backend.rs\<close>) and the backend-agnostic cold start
  (\<open>cold_start_with_backend\<close> of \<open>ferratomic-core/src/storage/recovery.rs\<close>).

  The file backend acts on the data directory of \<open>Recovery\<close>. The in-memory backend is two shared
  buffers; its writers work on a buffer of their own and hand it over when they are flushed or dropped.
  What recovery sees of a backend is a record of its answers. The contract of the trait is stated as two
  locales: both backends satisfy the checkpoint half, only the in-memory one the log half. A cold start through
  either backend restores what a database had published before a crash.
\<close>

section \<open>The in-memory backend\<close>

record memory_backend =
  mb_checkpoint :: bytes
  mb_wal :: bytes

definition memory_new :: memory_backend where
  "memory_new = \<lparr>mb_checkpoint = [], mb_wal = []\<rparr>"

text \<open>\<open>SharedBufferWriter\<close>: the local buffer; the target is the checkpoint buffer.\<close>

definition buffer_write :: "bytes \<Rightarrow> bytes \<Rightarrow> bytes" where
  "buffer_write buf local_buf = local_buf @ buf"

definition buffer_flush :: "memory_backend \<times> bytes \<Rightarrow> memory_backend \<times> bytes" where
  "buffer_flush = (\<lambda>(mb, local_buf). (mb\<lparr>mb_checkpoint := local_buf\<rparr>, []))"

definition buffer_drop :: "memory_backend \<times> bytes \<Rightarrow> memory_backend" where
  "buffer_drop = (\<lambda>(mb, local_buf). if local_buf \<noteq> [] then mb\<lparr>mb_checkpoint := local_buf\<rparr> else mb)"

text \<open>\<open>SharedBufferSeekWriter\<close>: a cursor over a copy. Writing past the end pads with zeros.\<close>

record cursor =
  cu_bytes :: bytes
  cu_pos :: nat

definition cursor_write :: "bytes \<Rightarrow> cursor \<Rightarrow> cursor" where
  "cursor_write buf cu =
     (let padded = cu_bytes cu @ replicate (cu_pos cu - length (cu_bytes cu)) 0
      in \<lparr>cu_bytes = take (cu_pos cu) padded @ buf @ drop (cu_pos cu + length buf) padded,
          cu_pos = cu_pos cu + length buf\<rparr>)"

definition seek_flush :: "memory_backend \<times> cursor \<Rightarrow> memory_backend \<times> cursor" where
  "seek_flush = (\<lambda>(mb, cu). (mb\<lparr>mb_wal := cu_bytes cu\<rparr>, cu\<lparr>cu_bytes := []\<rparr>))"

definition seek_drop :: "memory_backend \<times> cursor \<Rightarrow> memory_backend" where
  "seek_drop = (\<lambda>(mb, cu). if cu_bytes cu \<noteq> [] then mb\<lparr>mb_wal := cu_bytes cu\<rparr> else mb)"

definition memory_open_checkpoint_writer :: bytes where
  "memory_open_checkpoint_writer = []"

definition memory_open_wal_writer :: "memory_backend \<Rightarrow> cursor" where
  "memory_open_wal_writer mb = \<lparr>cu_bytes = mb_wal mb, cu_pos = length (mb_wal mb)\<rparr>"

text \<open>One use of a writer: open, write the buffer, flush, drop.\<close>

definition memory_save_checkpoint :: "bytes \<Rightarrow> memory_backend \<Rightarrow> memory_backend" where
  "memory_save_checkpoint buf mb = buffer_drop (buffer_flush (mb, buffer_write buf memory_open_checkpoint_writer))"

definition memory_append_wal :: "bytes \<Rightarrow> memory_backend \<Rightarrow> memory_backend" where
  "memory_append_wal buf mb = seek_drop (seek_flush (mb, cursor_write buf (memory_open_wal_writer mb)))"

section \<open>The file backend\<close>

text \<open>\<open>File::create\<close> truncates; the log is opened for writing without truncation, at its start.\<close>

definition fs_save_checkpoint :: "bytes \<Rightarrow> disk \<Rightarrow> disk" where
  "fs_save_checkpoint buf dk = dk\<lparr>dk_checkpoint := Some buf\<rparr>"

definition fs_open_wal_writer :: "disk \<Rightarrow> cursor" where
  "fs_open_wal_writer dk = \<lparr>cu_bytes = (case dk_wal dk of None \<Rightarrow> [] | Some bs \<Rightarrow> bs), cu_pos = 0\<rparr>"

definition fs_append_wal :: "bytes \<Rightarrow> disk \<Rightarrow> disk" where
  "fs_append_wal buf dk = dk\<lparr>dk_wal := Some (cu_bytes (cursor_write buf (fs_open_wal_writer dk)))\<rparr>"

section \<open>What recovery sees of a backend\<close>

text \<open>A reader either cannot be opened, or yields its bytes, or fails while reading.\<close>

record backend =
  bk_create_dirs :: "ferra_error + unit"
  bk_checkpoint_exists :: bool
  bk_wal_exists :: bool
  bk_checkpoint_reader :: "ferra_error + bytes option"
  bk_wal_reader :: "ferra_error + bytes option"

definition fs_reader :: "bool \<Rightarrow> bool \<Rightarrow> bytes option \<Rightarrow> ferra_error + bytes option" where
  "fs_reader open_ok read_ok f =
     (case f of
        None \<Rightarrow> Inl (Io ''NotFound'' ''open'')
      | Some bs \<Rightarrow> if \<not> open_ok then Inl (Io ''Other'' ''open'') else Inr (if read_ok then Some bs else None))"

definition fs_backend :: "disk_env \<Rightarrow> disk \<Rightarrow> backend" where
  "fs_backend en dk =
     \<lparr>bk_create_dirs = (if de_dirs_ok en then Inr () else Inl (Io ''Other'' ''cannot create data dir'')),
      bk_checkpoint_exists = (dk_checkpoint dk \<noteq> None), bk_wal_exists = (dk_wal dk \<noteq> None),
      bk_checkpoint_reader = fs_reader (de_open_ok en) (de_read_ok en) (dk_checkpoint dk),
      bk_wal_reader = fs_reader (de_open_ok en) (de_read_ok en) (dk_wal dk)\<rparr>"

text \<open>\<open>poisoned\<close> tells which of the two mutexes are.\<close>

definition memory_backend_view :: "bool \<Rightarrow> bool \<Rightarrow> memory_backend \<Rightarrow> backend" where
  "memory_backend_view ck_poisoned wal_poisoned mb =
     \<lparr>bk_create_dirs = Inr (),
      bk_checkpoint_exists = (\<not> ck_poisoned \<and> mb_checkpoint mb \<noteq> []),
      bk_wal_exists = (\<not> wal_poisoned \<and> mb_wal mb \<noteq> []),
      bk_checkpoint_reader = (if ck_poisoned then Inl (Io ''Other'' ''checkpoint mutex poisoned'') else Inr (Some (mb_checkpoint mb))),
      bk_wal_reader = (if wal_poisoned then Inl (Io ''Other'' ''WAL mutex poisoned'') else Inr (Some (mb_wal mb)))\<rparr>"

section \<open>Cold start on a backend (storage/recovery.rs)\<close>

definition load_checkpoint_from_reader :: "'c platform \<Rightarrow> bytes option \<Rightarrow> ferra_error + store" where
  "load_checkpoint_from_reader p reader =
     (case reader of
        None \<Rightarrow> Inl (Io ''Other'' ''read'')
      | Some bs \<Rightarrow> load_store (pf_hash p) (pf_bincode p) bs)"

definition read_wal_entries :: "backend \<Rightarrow> ferra_error + wal_entry list" where
  "read_wal_entries bk =
     bind_result (bk_wal_reader bk) (\<lambda>reader.
       case reader of None \<Rightarrow> Inl (WalRead ''read'') | Some bs \<Rightarrow> Inr (recover_wal_from_reader bs))"

definition recover_checkpoint_plus_wal :: "'c platform \<Rightarrow> 'c \<Rightarrow> backend \<Rightarrow> ferra_error + 'c cold_start_result" where
  "recover_checkpoint_plus_wal p c bk =
     bind_result (bk_checkpoint_reader bk) (\<lambda>reader.
     bind_result (load_checkpoint_from_reader p reader) (\<lambda>s.
     bind_result (read_wal_entries bk) (\<lambda>entries.
     bind_result (replay_wal (pf_bincode p) (pf_order p) (\<lambda>ep. ep > epoch s) entries s) (\<lambda>s'.
       Inr \<lparr>cs_database = db_from_store c s', cs_level = CheckpointPlusWal\<rparr>))))"

definition recover_checkpoint_only :: "'c platform \<Rightarrow> 'c \<Rightarrow> backend \<Rightarrow> ferra_error + 'c cold_start_result" where
  "recover_checkpoint_only p c bk =
     bind_result (bk_checkpoint_reader bk) (\<lambda>reader.
     bind_result (load_checkpoint_from_reader p reader) (\<lambda>s.
       Inr \<lparr>cs_database = db_from_store c s, cs_level = CheckpointOnly\<rparr>))"

definition recover_wal_only :: "'c platform \<Rightarrow> 'c \<Rightarrow> backend \<Rightarrow> ferra_error + 'c cold_start_result" where
  "recover_wal_only p c bk =
     bind_result (read_wal_entries bk) (\<lambda>entries.
     bind_result (replay_wal (pf_bincode p) (pf_order p) (\<lambda>_. True) entries (genesis (pf_hash p))) (\<lambda>s'.
       Inr \<lparr>cs_database = db_from_store c s', cs_level = WalOnly\<rparr>))"

fun is_wal_read :: "ferra_error \<Rightarrow> bool" where
  "is_wal_read (WalRead _) = True"
| "is_wal_read _ = False"

text \<open>One level of the cascade: a result or an error that is not tolerated ends it.\<close>

definition attempt ::
  "bool \<Rightarrow> (ferra_error \<Rightarrow> bool) \<Rightarrow> ferra_error + 'r \<Rightarrow> (ferra_error + 'r) \<Rightarrow> ferra_error + 'r" where
  "attempt cond tolerated r rest =
     (if cond then (case r of Inr res \<Rightarrow> Inr res | Inl e \<Rightarrow> if tolerated e then rest else Inl e) else rest)"

definition cold_start_with_backend :: "'c platform \<Rightarrow> 'c \<Rightarrow> backend \<Rightarrow> ferra_error + 'c cold_start_result" where
  "cold_start_with_backend p c bk =
     bind_result (bk_create_dirs bk) (\<lambda>_.
       let has_checkpoint = bk_checkpoint_exists bk; has_wal = bk_wal_exists bk in
       attempt (has_checkpoint \<and> has_wal) (\<lambda>e. e = CheckpointCorrupted \<or> is_wal_read e) (recover_checkpoint_plus_wal p c bk)
         (attempt (has_checkpoint \<and> \<not> has_wal) (\<lambda>e. e = CheckpointCorrupted) (recover_checkpoint_only p c bk)
           (attempt has_wal is_wal_read (recover_wal_only p c bk)
             (Inr \<lparr>cs_database = db_genesis p c, cs_level = GenesisLevel\<rparr>))))"

section \<open>The contract of a backend\<close>

text \<open>The checkpoint half: a saved checkpoint is what the reader yields, and the log is not touched.\<close>

locale checkpoint_backend =
  fixes view :: "'b \<Rightarrow> backend" and save :: "bytes \<Rightarrow> 'b \<Rightarrow> 'b"
  assumes dirs: "bk_create_dirs (view b) = Inr ()"
    and save_exists: "bs \<noteq> [] \<Longrightarrow> bk_checkpoint_exists (view (save bs b))"
    and save_reads: "bk_checkpoint_reader (view (save bs b)) = Inr (Some bs)"
    and save_keeps_wal: "bk_wal_exists (view (save bs b)) = bk_wal_exists (view b)"
      "bk_wal_reader (view (save bs b)) = bk_wal_reader (view b)"
begin

lemma cold_start_saved:
  assumes "load_store (pf_hash p) (pf_bincode p) bs = Inr s" "bs \<noteq> []" "\<not> bk_wal_exists (view b)"
  shows "cold_start_with_backend p c (view (save bs b)) = Inr \<lparr>cs_database = db_from_store c s, cs_level = CheckpointOnly\<rparr>"
  using assms
  by (simp add: cold_start_with_backend_def dirs save_exists save_keeps_wal attempt_def recover_checkpoint_only_def save_reads
      load_checkpoint_from_reader_def)

lemma cold_start_saved_over_log:
  assumes "load_store (pf_hash p) (pf_bincode p) bs = Inr s" "bs \<noteq> []" "bk_wal_exists (view b)" "bk_wal_reader (view b) = Inr (Some log)"
    "replay_wal (pf_bincode p) (pf_order p) (\<lambda>ep. ep > epoch s) (recover_wal_from_reader log) s = Inr s'"
  shows "cold_start_with_backend p c (view (save bs b)) = Inr \<lparr>cs_database = db_from_store c s', cs_level = CheckpointPlusWal\<rparr>"
  using assms
  by (simp add: cold_start_with_backend_def dirs save_exists save_keeps_wal attempt_def recover_checkpoint_plus_wal_def save_reads
      load_checkpoint_from_reader_def read_wal_entries_def)

end

text \<open>The log half: what is appended is read behind what was there.\<close>

locale log_backend = checkpoint_backend view save for view :: "'b \<Rightarrow> backend" and save :: "bytes \<Rightarrow> 'b \<Rightarrow> 'b" +
  fixes append :: "bytes \<Rightarrow> 'b \<Rightarrow> 'b"
  assumes append_reads: "bk_wal_reader (view b) = Inr (Some log) \<Longrightarrow> bk_wal_reader (view (append bs b)) = Inr (Some (log @ bs))"
    and append_exists: "bs \<noteq> [] \<Longrightarrow> bk_wal_exists (view (append bs b))"
    and append_keeps_checkpoint: "bk_checkpoint_exists (view (append bs b)) = bk_checkpoint_exists (view b)"
      "bk_checkpoint_reader (view (append bs b)) = bk_checkpoint_reader (view b)"
begin

lemma appends_read:
  assumes "bk_wal_reader (view b) = Inr (Some log)"
  shows "bk_wal_reader (view (fold append bss b)) = Inr (Some (log @ concat bss))"
  using assms
proof (induction bss arbitrary: b log)
  case (Cons bs bss)
  from Cons.IH [OF append_reads [OF Cons.prems, of bs]] show ?case by simp
qed simp

lemma appends_frame:
  "bk_checkpoint_exists (view (fold append bss b)) = bk_checkpoint_exists (view b)"
  "bss \<noteq> [] \<Longrightarrow> last bss \<noteq> [] \<Longrightarrow> bk_wal_exists (view (fold append bss b))"
proof -
  show "bk_checkpoint_exists (view (fold append bss b)) = bk_checkpoint_exists (view b)"
    by (induction bss arbitrary: b) (simp_all add: append_keeps_checkpoint)
  assume "bss \<noteq> []" "last bss \<noteq> []"
  then show "bk_wal_exists (view (fold append bss b))"
    by (cases bss rule: rev_cases) (simp_all add: append_exists)
qed

lemma cold_start_appended:
  assumes "bk_wal_reader (view b) = Inr (Some [])" "\<not> bk_checkpoint_exists (view b)" "\<forall>e \<in> set es. entry_wf e" "es \<noteq> []"
    "replay_wal (pf_bincode p) (pf_order p) (\<lambda>_. True) es (genesis (pf_hash p)) = Inr s"
  shows "cold_start_with_backend p c (view (fold append (map entry_frame es) b)) =
    Inr \<lparr>cs_database = db_from_store c s, cs_level = WalOnly\<rparr>"
proof -
  have "last (map entry_frame es) \<noteq> []" using assms(4) length_entry_frame [of "last es"] by (auto simp: last_map)
  then have "bk_wal_exists (view (fold append (map entry_frame es) b))" using assms(4) by (intro appends_frame(2)) auto
  moreover have "recover_wal_from_reader (frames es) = es"
    using parse_frames_exact [OF assms(3)] by (simp add: recover_wal_from_reader_def)
  ultimately show ?thesis
    using assms by (simp add: cold_start_with_backend_def dirs appends_frame(1) attempt_def recover_wal_only_def read_wal_entries_def
        appends_read [OF assms(1)])
qed

end

lemma memory_writers:
  "memory_save_checkpoint bs mb = mb\<lparr>mb_checkpoint := bs\<rparr>"
  "memory_append_wal bs mb = mb\<lparr>mb_wal := mb_wal mb @ bs\<rparr>"
  by (simp_all add: memory_save_checkpoint_def buffer_flush_def buffer_drop_def buffer_write_def memory_open_checkpoint_writer_def
      memory_append_wal_def seek_flush_def seek_drop_def cursor_write_def memory_open_wal_writer_def Let_def)

interpretation memory: log_backend "memory_backend_view False False" memory_save_checkpoint memory_append_wal
  by unfold_locales (auto simp: memory_backend_view_def memory_writers)

definition all_ok :: disk_env where
  "all_ok = \<lparr>de_dirs_ok = True, de_read_ok = True, de_open_ok = True, de_truncate_ok = True, de_create_ok = True\<rparr>"

interpretation files: checkpoint_backend "fs_backend all_ok" fs_save_checkpoint
  by unfold_locales (auto simp: fs_backend_def all_ok_def fs_save_checkpoint_def fs_reader_def)

section \<open>Properties\<close>

text \<open>The same contents; an in-memory buffer cannot tell an absent file from an empty one.\<close>

definition same_contents :: "disk \<Rightarrow> memory_backend \<Rightarrow> bool" where
  "same_contents dk mb \<longleftrightarrow>
     mb_checkpoint mb = (case dk_checkpoint dk of None \<Rightarrow> [] | Some bs \<Rightarrow> bs) \<and>
     mb_wal mb = (case dk_wal dk of None \<Rightarrow> [] | Some bs \<Rightarrow> bs)"

lemma empty_files [simp]:
  "load_store b bc [] = Inl CheckpointCorrupted" "recover_wal_from_reader [] = []"
  using parse_frames_exact [of "[]"]
  by (simp_all add: load_store_def deserialize_checkpoint_bytes_def recover_wal_from_reader_def)

lemma load_store_error: "load_store b bc bs = Inl e \<Longrightarrow> \<not> is_wal_read e"
  using loader_outcome [of b bc bs]
  by (auto simp: load_store_def store_from_checkpoint_data_def from_checkpoint_v3_def from_sorted_with_live_def Let_def
      split: option.splits if_splits)

text \<open>Cold start through the two backends, on the same contents, gives the same error or the same database; only the
  reported level may differ, when a file exists and is empty.\<close>

lemma same_contents_cold_start:
  assumes "same_contents dk mb"
  shows "map_sum id cs_database (cold_start_with_backend p c (fs_backend all_ok dk)) =
    map_sum id cs_database (cold_start_with_backend p c (memory_backend_view False False mb))"
proof -
  obtain ck w where dk: "dk = \<lparr>dk_checkpoint = ck, dk_wal = w\<rparr>" by (cases dk) auto
  have g: "db_genesis p c = db_from_store c (genesis (pf_hash p))" by (simp add: db_genesis_def db_from_store_def)
  note E = load_store_error [of "pf_hash p" "pf_bincode p" "mb_checkpoint mb"]
  show ?thesis
    using assms E unfolding dk
    by (cases ck; cases w; cases "load_store (pf_hash p) (pf_bincode p) (mb_checkpoint mb)")
      (auto simp: same_contents_def cold_start_with_backend_def fs_backend_def memory_backend_view_def all_ok_def fs_reader_def
        attempt_def recover_checkpoint_plus_wal_def recover_checkpoint_only_def recover_wal_only_def read_wal_entries_def
        load_checkpoint_from_reader_def g Let_def split: sum.splits)
qed

text \<open>What the file backend's cold start makes of a crashed directory: the reader of the log gives back the same
  entries that opening and cutting the log file does.\<close>

lemma fs_cold_start_logged:
  assumes "logged (pf_hash p) (pf_bincode p) order (current db) w es n acked xs" "db_wal db = Some w"
    "\<forall>s \<in> set ss. prefix_store (pf_hash p) order acked s"
    "bincode_reads_back (pf_bincode p)" "digest32 (pf_hash p)" "crashed p db ss dk"
    "iteration_order order" "iteration_order o1"
    "\<forall>bs e. dk_checkpoint dk = Some bs \<longrightarrow> load_store (pf_hash p) (pf_bincode p) bs = Inl e \<longrightarrow> e = CheckpointCorrupted"
  obtains db' level w' m where
    "cold_start_with_backend (p\<lparr>pf_order := o1\<rparr>) c (fs_backend all_ok dk) = Inr \<lparr>cs_database = db', cs_level = level\<rparr>"
    "logged (pf_hash p) (pf_bincode p) order (current db') w' (take m es) m (acked @ take (m - length acked) xs) []"
proof -
  note finish = that
  let ?b = "pf_hash p" and ?bc = "pf_bincode p" and ?p = "p\<lparr>pf_order := o1\<rparr>"
  obtain bs0 where k: "crash_file w bs0" "dk_wal dk = Some bs0"
    and ck: "\<And>bs. dk_checkpoint dk = Some bs \<Longrightarrow>
        (\<exists>s \<in> set ss. checkpoint_store ?b ?bc s = Inr bs \<and> store_len s \<le> u32_max \<and> op_consistent (set (datoms s))) \<or>
        isl (load_store ?b ?bc bs)"
    using assms(2,6) by (auto simp: crashed_def)
  have env: "de_open_ok all_ok" "de_truncate_ok all_ok" by (simp_all add: all_ok_def)
  obtain m w' s1 where R: "open_and_recover all_ok dk = (dk\<lparr>dk_wal := Some (w_file w')\<rparr>, Inr (w', take m es))"
    "replay_wal ?bc o1 (\<lambda>_. True) (take m es) (genesis ?b) = Inr s1"
    "logged ?b ?bc order s1 w' (take m es) m (acked @ take (m - length acked) xs) []"
    "\<And>s0. prefix_store ?b order acked s0 \<Longrightarrow>
       \<exists>s'. replay_wal ?bc o1 (\<lambda>ep. epoch s0 < ep) (take m es) (demote ?b s0) = Inr s' \<and>
         logged ?b ?bc order s' w' (take m es) m (acked @ take (m - length acked) xs) []"
    by (rule recovered [OF assms(1) k env assms(7,8)]) blast
  have "recover True (wal_open bs0) = (w', Inr (take m es))"
    using R(1) k(2) env by (auto simp: open_and_recover_def wal_open_file_def split: prod.splits sum.splits)
  then have log: "recover_wal_from_reader bs0 = take m es"
    by (auto simp: recover_def wal_open_def recover_wal_from_reader_def Let_def split: prod.splits if_splits)
  note view = cold_start_with_backend_def fs_backend_def all_ok_def fs_reader_def attempt_def recover_checkpoint_plus_wal_def
    recover_wal_only_def read_wal_entries_def load_checkpoint_from_reader_def
  have from_log: thesis if "\<forall>bs. dk_checkpoint dk = Some bs \<longrightarrow> (\<exists>e. load_store ?b ?bc bs = Inl e)"
  proof -
    have "cold_start_with_backend ?p c (fs_backend all_ok dk) = Inr \<lparr>cs_database = db_from_store c s1, cs_level = WalOnly\<rparr>"
      using that assms(9) k(2) log R(2) by (cases "dk_checkpoint dk") (auto simp: view)
    then show thesis using R(3) by (intro finish [where db' = "db_from_store c s1" and w' = w' and m = m])
      (simp_all add: db_from_store_def db_build_def build_opening_def)
  qed
  show thesis
  proof (cases "\<exists>bs s0. dk_checkpoint dk = Some bs \<and> load_store ?b ?bc bs = Inr s0")
    case False
    then show thesis by (intro from_log) (metis sum.exhaust)
  next
    case True
    then obtain bs s0 where bs: "dk_checkpoint dk = Some bs" "load_store ?b ?bc bs = Inr s0" by blast
    then obtain s where s: "s \<in> set ss" "checkpoint_store ?b ?bc s = Inr bs" "store_len s \<le> u32_max" "op_consistent (set (datoms s))"
      using ck [of bs] by auto
    have pre: "prefix_store ?b order acked s" using assms(3) s(1) by blast
    have d: "s0 = demote ?b s" using load_prefix_store [OF assms(4,5) pre s(3,4,2)] bs(2) by simp
    obtain s' where s': "replay_wal ?bc o1 (\<lambda>ep. epoch s < ep) (take m es) (demote ?b s) = Inr s'"
      "logged ?b ?bc order s' w' (take m es) m (acked @ take (m - length acked) xs) []" using R(4) [OF pre] by blast
    have "cold_start_with_backend ?p c (fs_backend all_ok dk) = Inr \<lparr>cs_database = db_from_store c s', cs_level = CheckpointPlusWal\<rparr>"
      using bs d k(2) log s'(1) by (simp add: view)
    then show thesis using s'(2) by (intro finish [where db' = "db_from_store c s'" and w' = w' and m = m])
      (simp_all add: db_from_store_def db_build_def build_opening_def)
  qed
qed

text \<open>C21 Crash recovery through a storage backend. Take a run of a database with a log and a crash as for the
  recovery from a directory (\<open>db_run\<close>, \<open>crashed\<close>), the file backend over the directory or an in-memory backend
  with the same contents, none of them failing to read. When the checkpoint, if there is one and it does not
  load, is reported as corrupted, \<open>cold_start_with_backend\<close> returns a database that satisfies the store
  invariant and holds every published datom and at least the published epoch, exactly the published store when
  no log entry failed after it was written. (A checkpoint that is refused with another error ends this cascade
  with that error, while the recovery from a directory goes on to the log.)\<close>

theorem backend_cold_start_restores:
  assumes "db_run p db ss" "crashed p db ss dk" "db_wal db = Some w" "iteration_order order"
    "bincode_reads_back (pf_bincode p)" "digest32 (pf_hash p)"
    "\<forall>bs e. dk_checkpoint dk = Some bs \<longrightarrow> load_store (pf_hash p) (pf_bincode p) bs = Inl e \<longrightarrow> e = CheckpointCorrupted"
    "bk = fs_backend all_ok dk \<or> (\<exists>mb. same_contents dk mb \<and> bk = memory_backend_view False False mb)"
  shows "\<exists>db' level. cold_start_with_backend (p\<lparr>pf_order := order\<rparr>) c bk = Inr \<lparr>cs_database = db', cs_level = level\<rparr> \<and>
    store_inv (pf_hash p) (current db') \<and>
    set (datoms (current db)) \<subseteq> set (datoms (current db')) \<and> epoch (current db) \<le> epoch (current db') \<and>
    (pending_epoch w = epoch (current db) \<longrightarrow> demote (pf_hash p) (current db') = demote (pf_hash p) (current db))"
proof -
  let ?b = "pf_hash p" and ?bc = "pf_bincode p" and ?p = "p\<lparr>pf_order := order\<rparr>"
  obtain es n acked xs where i: "logged ?b ?bc order (current db) w es n acked xs" "\<forall>s \<in> set ss. prefix_store ?b order acked s"
    using db_run_inv [OF assms(1,5,6,4)] assms(3) unfolding run_inv_def by auto
  obtain db' level w' m where C: "cold_start_with_backend ?p c (fs_backend all_ok dk) = Inr \<lparr>cs_database = db', cs_level = level\<rparr>"
    "logged ?b ?bc order (current db') w' (take m es) m (acked @ take (m - length acked) xs) []"
    by (rule fs_cold_start_logged [OF i(1) assms(3) i(2) assms(5,6,2,4,4,7), where c = c])
  have "map_sum id cs_database (cold_start_with_backend ?p c bk) = Inr db'"
    using assms(8) same_contents_cold_start [of dk _ ?p c] C(1) by auto
  then obtain level' where "cold_start_with_backend ?p c bk = Inr \<lparr>cs_database = db', cs_level = level'\<rparr>"
    by (cases "cold_start_with_backend ?p c bk") (auto, metis (full_types) cold_start_result.surjective old.unit.exhaust)
  with logged_restores [OF i(1) C(2)] show ?thesis by blast
qed

text \<open>The run with one transaction, through an in-memory backend that holds the durable bytes of its log: the
  transaction is restored.\<close>

theorem backend_cold_start_restores_witness:
  "\<exists>p db ss w mb c db' level. db_run p db ss \<and> db_wal db = Some w \<and> epoch (current db) = 1 \<and> mb_wal mb = w_durable w \<and>
     cold_start_with_backend (p\<lparr>pf_order := rev\<rparr>) c (memory_backend_view False False mb) =
       Inr \<lparr>cs_database = db', cs_level = level\<rparr> \<and>
     demote (pf_hash p) (current (db' :: unit database)) = demote (pf_hash p) (current db)"
proof -
  obtain p db rc w where d: "pf_hash p = zero_digest" "bincode_reads_back (pf_bincode p)" "pf_order p = (\<lambda>es. es)"
    "transact_any p demo_env None demo_tx (db_build () (genesis zero_digest) (Some wal_create)) = (db, Inr rc)"
    "db_wal db = Some w" "pending_epoch w = 1" "epoch (current db) = 1" by (rule demo_logged_transact)
  let ?ss = "[genesis zero_digest] @ [current db]"
  have run: "db_run p db ?ss" by (rule demo_run [OF d(1,3,4)])
  have dur: "take (length (w_durable w)) (w_file w) = w_durable w" by (rule durable_prefix [OF run d(2) _ d(5)]) (simp add: d(1) zero_digest(1))
  let ?dk = "\<lparr>dk_checkpoint = None, dk_wal = Some (w_durable w)\<rparr>" and ?mb = "\<lparr>mb_checkpoint = [], mb_wal = w_durable w\<rparr>"
  have "crash_file w (w_durable w)" using dur by (auto simp: crash_file_def intro!: exI [of _ "length (w_durable w)"])
  then have cr: "crashed p db ?ss ?dk" using d(5) by (auto simp: crashed_def)
  have mb: "memory_backend_view False False ?mb = fs_backend all_ok ?dk \<or>
      (\<exists>mb. same_contents ?dk mb \<and> memory_backend_view False False ?mb = memory_backend_view False False mb)"
    by (intro disjI2 exI [of _ ?mb]) (simp add: same_contents_def)
  have "digest32 (pf_hash p)" using d(1) zero_digest(1) by simp
  from backend_cold_start_restores [OF run cr d(5) iteration_order_rev d(2) this _ mb, where c = "()"]
  obtain db' level where "cold_start_with_backend (p\<lparr>pf_order := rev\<rparr>) () (memory_backend_view False False ?mb) =
      Inr \<lparr>cs_database = db', cs_level = level\<rparr>" "demote (pf_hash p) (current db') = demote (pf_hash p) (current db)"
    using d(6,7) by auto
  with run d(5,7) show ?thesis by (intro exI [of _ p] exI [of _ db] exI [of _ ?ss] exI [of _ w] exI [of _ ?mb] exI [of _ "()"]
      exI [of _ db'] exI [of _ level]) simp
qed

text \<open>The in-memory backend keeps its contract: entries appended one writer at a time are all recovered.\<close>

theorem memory_log_recovered:
  assumes "\<forall>e \<in> set es. entry_wf e" "es \<noteq> []"
    "replay_wal (pf_bincode p) (pf_order p) (\<lambda>_. True) es (genesis (pf_hash p)) = Inr s"
  shows "cold_start_with_backend p c (memory_backend_view False False (fold memory_append_wal (map entry_frame es) memory_new)) =
    Inr \<lparr>cs_database = db_from_store c s, cs_level = WalOnly\<rparr>"
  using assms by (intro memory.cold_start_appended) (simp_all add: memory_backend_view_def memory_new_def)

text \<open>The file backend's log writer does not append: it starts at the beginning of the file, so a second
  use of it overwrites the entries of the first.\<close>

theorem fs_wal_writer_overwrites:
  "dk_wal (fs_append_wal (entry_frame f) (fs_append_wal (entry_frame e) (dk\<lparr>dk_wal := None\<rparr>))) =
     Some (entry_frame f @ drop (length (entry_frame f)) (entry_frame e))"
  by (simp add: fs_append_wal_def fs_open_wal_writer_def cursor_write_def Let_def)

text \<open>A flushed in-memory log writer is left with an empty buffer and its old position: what it writes next
  replaces the log by zeros and the new bytes.\<close>

theorem memory_second_flush_loses:
  "fst (seek_flush (map_prod id (cursor_write ys) (seek_flush (mb, cursor_write xs (memory_open_wal_writer mb))))) =
     mb\<lparr>mb_wal := replicate (length (mb_wal mb) + length xs) 0 @ ys\<rparr>"
  by (simp add: seek_flush_def cursor_write_def memory_open_wal_writer_def Let_def)

end
