(* ===== verification/Prolly.thy ===== *)
theory Prolly
  imports Canonical
begin

text \<open>
  The prolly tree (\<open>ferratomic-core/src/prolly\<close>: \<open>chunk.rs\<close>, \<open>boundary.rs\<close>, \<open>build.rs\<close>, \<open>read.rs\<close>): a
  content-addressed search tree over byte-string keys, cut into chunks where a rolling hash of the key
  says so, so that the tree depends on its contents only.

  A chunk store is a record of the trait's operations on an abstract state, as the code takes it as a
  trait object; what the tree relies on is stated as a locale and discharged for \<open>MemoryChunkStore\<close>.
  BLAKE3 and its keyed derivation are parameters. Building may not terminate in principle (it would not
  on an empty level), so it is a partial function whose value \<open>None\<close> is divergence; walking a tree takes
  fuel, and the lemmas give the fuel that is enough.
\<close>

section \<open>Chunks and chunk stores (chunk.rs)\<close>

record chunk =
  ck_addr :: bytes
  ck_data :: bytes

definition chunk_from_bytes :: "(bytes \<Rightarrow> bytes) \<Rightarrow> bytes \<Rightarrow> chunk" where
  "chunk_from_bytes blake3 data = \<lparr>ck_addr = blake3 data, ck_data = data\<rparr>"

record 's chunk_store =
  put_chunk :: "chunk \<Rightarrow> 's \<Rightarrow> 's \<times> (ferra_error + bytes)"
  get_chunk :: "bytes \<Rightarrow> 's \<Rightarrow> ferra_error + chunk option"
  has_chunk :: "bytes \<Rightarrow> 's \<Rightarrow> ferra_error + bool"
  all_addrs :: "'s \<Rightarrow> ferra_error + bytes list"
  delete_chunk :: "bytes \<Rightarrow> 's \<Rightarrow> 's \<times> (ferra_error + unit)"

record memory_chunks =
  mc_chunks :: "(bytes, chunk) omap"
  mc_poisoned :: bool

definition lock_err :: ferra_error where
  "lock_err = InvariantViolation ''INV-FERR-050''"

definition mem_put_chunk :: "chunk \<Rightarrow> memory_chunks \<Rightarrow> memory_chunks \<times> (ferra_error + bytes)" where
  "mem_put_chunk c st =
     (if mc_poisoned st then (st, Inl lock_err)
      else (if om_get (mc_chunks st) (ck_addr c) = None then st\<lparr>mc_chunks := om_insert (ck_addr c) c (mc_chunks st)\<rparr> else st,
            Inr (ck_addr c)))"

definition mem_get_chunk :: "bytes \<Rightarrow> memory_chunks \<Rightarrow> ferra_error + chunk option" where
  "mem_get_chunk addr st = (if mc_poisoned st then Inl lock_err else Inr (om_get (mc_chunks st) addr))"

definition mem_has_chunk :: "bytes \<Rightarrow> memory_chunks \<Rightarrow> ferra_error + bool" where
  "mem_has_chunk addr st = (if mc_poisoned st then Inl lock_err else Inr (om_get (mc_chunks st) addr \<noteq> None))"

definition mem_all_addrs :: "memory_chunks \<Rightarrow> ferra_error + bytes list" where
  "mem_all_addrs st = (if mc_poisoned st then Inl lock_err else Inr (map fst (mc_chunks st)))"

definition mem_delete_chunk :: "bytes \<Rightarrow> memory_chunks \<Rightarrow> memory_chunks \<times> (ferra_error + unit)" where
  "mem_delete_chunk addr st =
     (if mc_poisoned st then (st, Inl lock_err) else (st\<lparr>mc_chunks := om_remove addr (mc_chunks st)\<rparr>, Inr ()))"

definition memory_chunk_store :: "memory_chunks chunk_store" where
  "memory_chunk_store =
     \<lparr>put_chunk = mem_put_chunk, get_chunk = mem_get_chunk, has_chunk = mem_has_chunk,
      all_addrs = mem_all_addrs, delete_chunk = mem_delete_chunk\<rparr>"

definition memory_chunks_new :: memory_chunks where
  "memory_chunks_new = \<lparr>mc_chunks = [], mc_poisoned = False\<rparr>"

section \<open>Chunk boundaries (boundary.rs)\<close>

definition MIN_CHUNK_SIZE :: nat where "MIN_CHUNK_SIZE = 32"
definition MAX_CHUNK_SIZE :: nat where "MAX_CHUNK_SIZE = 1024"
definition DEFAULT_PATTERN_WIDTH :: nat where "DEFAULT_PATTERN_WIDTH = 8"

text \<open>\<open>derive_key\<close> is BLAKE3's key derivation under the table's context string.\<close>

definition gear_table :: "(bytes \<Rightarrow> bytes) \<Rightarrow> u8 \<Rightarrow> u64" where
  "gear_table derive_key byte = from_le_bytes (take 8 (derive_key [byte]))"

definition gear_hash :: "(bytes \<Rightarrow> bytes) \<Rightarrow> bytes \<Rightarrow> u64" where
  "gear_hash derive_key key = fold (\<lambda>byte hash. word_rotl 1 hash XOR gear_table derive_key byte) key 0"

text \<open>The shift amount is taken modulo 64, as in a build without overflow checks; with them a pattern width of
  64 or more panics.\<close>

definition is_boundary :: "(bytes \<Rightarrow> bytes) \<Rightarrow> nat \<Rightarrow> bytes \<Rightarrow> nat \<Rightarrow> bool" where
  "is_boundary derive_key pattern_width key entries_since_last =
     (if entries_since_last < MIN_CHUNK_SIZE then False
      else if entries_since_last \<ge> MAX_CHUNK_SIZE then True
      else (let hash = gear_hash derive_key key; mask = push_bit (pattern_width mod 64) 1 - 1
            in hash AND mask = mask))"

section \<open>Serialisation (build.rs)\<close>

definition len_u32 :: "nat \<Rightarrow> ferra_error + u32" where
  "len_u32 n = (if n \<le> u32_max then Inr (of_nat n) else Inl (InvariantViolation ''INV-FERR-045''))"

fun serialize_entries :: "(bytes \<times> bytes) list \<Rightarrow> ferra_error + bytes" where
  "serialize_entries [] = Inr []"
| "serialize_entries ((key, val) # entries) =
     bind_result (len_u32 (length key)) (\<lambda>key_len.
     bind_result (len_u32 (length val)) (\<lambda>value_len.
     bind_result (serialize_entries entries) (\<lambda>rest.
       Inr (to_le_bytes 4 key_len @ key @ to_le_bytes 4 value_len @ val @ rest))))"

definition serialize_leaf_chunk :: "(bytes \<times> bytes) list \<Rightarrow> ferra_error + bytes" where
  "serialize_leaf_chunk entries =
     bind_result (len_u32 (length entries)) (\<lambda>count.
     bind_result (serialize_entries entries) (\<lambda>rest. Inr ([0x01] @ to_le_bytes 4 count @ rest)))"

fun serialize_children :: "(bytes \<times> bytes) list \<Rightarrow> ferra_error + bytes" where
  "serialize_children [] = Inr []"
| "serialize_children ((separator, hash) # children) =
     bind_result (len_u32 (length separator)) (\<lambda>sep_len.
     bind_result (serialize_children children) (\<lambda>rest.
       Inr (to_le_bytes 4 sep_len @ separator @ hash @ rest)))"

definition serialize_internal_chunk :: "u8 \<Rightarrow> (bytes \<times> bytes) list \<Rightarrow> ferra_error + bytes" where
  "serialize_internal_chunk level children =
     bind_result (len_u32 (length children)) (\<lambda>count.
     bind_result (serialize_children children) (\<lambda>rest. Inr ([0x02, level] @ to_le_bytes 4 count @ rest)))"

definition read4 :: "bytes \<Rightarrow> nat \<Rightarrow> ferra_error + bytes" where
  "read4 data offset = (if offset + 4 > length data then Inl TruncatedChunk else Inr (take 4 (drop offset data)))"

definition check_len :: "bytes \<Rightarrow> nat \<Rightarrow> nat \<Rightarrow> ferra_error + unit" where
  "check_len data offset need = (if offset + need > length data then Inl TruncatedChunk else Inr ())"

text \<open>A length-prefixed byte string at a position; the new position is behind it.\<close>

definition read_sized :: "bytes \<Rightarrow> nat \<Rightarrow> ferra_error + bytes \<times> nat" where
  "read_sized data pos =
     bind_result (read4 data pos) (\<lambda>bs.
       let len = unat (from_le_bytes bs :: u32); pos = pos + 4 in
       bind_result (check_len data pos len) (\<lambda>_. Inr (take len (drop pos data), pos + len)))"

fun read_entries :: "bytes \<Rightarrow> nat \<Rightarrow> nat \<Rightarrow> ferra_error + (bytes \<times> bytes) list \<times> nat" where
  "read_entries data 0 pos = Inr ([], pos)"
| "read_entries data (Suc n) pos =
     bind_result (read_sized data pos) (\<lambda>(key, pos).
     bind_result (read_sized data pos) (\<lambda>(val, pos).
     bind_result (read_entries data n pos) (\<lambda>(entries, pos). Inr ((key, val) # entries, pos))))"

definition deserialize_leaf_chunk :: "bytes \<Rightarrow> ferra_error + (bytes \<times> bytes) list" where
  "deserialize_leaf_chunk data =
     (if data = [] then Inl EmptyChunk
      else if hd data \<noteq> 0x01 then Inl (UnknownCodecTag (hd data))
      else if length data < 5 then Inl TruncatedChunk
      else bind_result (read4 data 1) (\<lambda>count.
           bind_result (read_entries data (unat (from_le_bytes count :: u32)) 5) (\<lambda>(entries, pos).
             if pos \<noteq> length data then Inl TrailingBytes
             else if \<not> windows_lt (map fst entries) then Inl NonCanonicalChunk
             else Inr entries)))"

fun read_addrs :: "bytes \<Rightarrow> nat \<Rightarrow> nat \<Rightarrow> ferra_error + bytes list" where
  "read_addrs data 0 pos = Inr []"
| "read_addrs data (Suc n) pos =
     bind_result (read4 data pos) (\<lambda>bs.
       let pos = pos + (4 + unat (from_le_bytes bs :: u32)) in
       bind_result (check_len data pos 32) (\<lambda>_.
       bind_result (read_addrs data n (pos + 32)) (\<lambda>addrs. Inr (take 32 (drop pos data) # addrs))))"

fun read_children :: "bytes \<Rightarrow> nat \<Rightarrow> nat \<Rightarrow> ferra_error + (bytes \<times> bytes) list" where
  "read_children data 0 pos = Inr []"
| "read_children data (Suc n) pos =
     bind_result (read_sized data pos) (\<lambda>(separator, pos).
     bind_result (check_len data pos 32) (\<lambda>_.
     bind_result (read_children data n (pos + 32)) (\<lambda>children. Inr ((separator, take 32 (drop pos data)) # children))))"

text \<open>The two decoders dispatch on the tag in the same way.\<close>

definition decode_internal :: "(bytes \<Rightarrow> nat \<Rightarrow> nat \<Rightarrow> ferra_error + 'x list) \<Rightarrow> chunk \<Rightarrow> ferra_error + 'x list" where
  "decode_internal read chunk =
     (let data = ck_data chunk in
      if data = [] then Inl EmptyChunk
      else if hd data = 0x01 then Inr []
      else if hd data = 0x02 then
        (if length data < 6 then Inl TruncatedChunk
         else bind_result (read4 data 2) (\<lambda>count. read data (unat (from_le_bytes count :: u32)) 6))
      else Inl (UnknownCodecTag (hd data)))"

definition decode_child_addrs :: "chunk \<Rightarrow> ferra_error + bytes list" where
  "decode_child_addrs chunk = decode_internal read_addrs chunk"

definition decode_internal_children :: "chunk \<Rightarrow> ferra_error + (bytes \<times> bytes) list" where
  "decode_internal_children chunk = decode_internal read_children chunk"

section \<open>Building (build.rs)\<close>

text \<open>The split loop, with the group under construction; the last pair never closes a group.\<close>

fun split_loop :: "(bytes \<Rightarrow> nat \<Rightarrow> bool) \<Rightarrow> (bytes \<times> 'v) list \<Rightarrow> (bytes \<times> 'v) list \<Rightarrow> (bytes \<times> 'v) list list" where
  "split_loop boundary current [] = (if current = [] then [] else [current])"
| "split_loop boundary current (kv # kvs) =
     (let current = current @ [kv]
      in if kvs \<noteq> [] \<and> boundary (fst kv) (length current) then current # split_loop boundary [] kvs
         else split_loop boundary current kvs)"

definition split_at_boundaries :: "(bytes \<Rightarrow> bytes) \<Rightarrow> nat \<Rightarrow> (bytes \<times> 'v) list \<Rightarrow> (bytes \<times> 'v) list list" where
  "split_at_boundaries derive_key pattern_width kvs = split_loop (is_boundary derive_key pattern_width) [] kvs"

text \<open>Store one chunk per group; the result pairs each group's first key with its chunk's address.\<close>

fun store_groups ::
  "'s chunk_store \<Rightarrow> (bytes \<Rightarrow> bytes) \<Rightarrow> ((bytes \<times> bytes) list \<Rightarrow> ferra_error + bytes) \<Rightarrow> (bytes \<times> bytes) list list \<Rightarrow> 's \<Rightarrow>
     's \<times> (ferra_error + (bytes \<times> bytes) list)" where
  "store_groups ops blake3 serialize [] st = (st, Inr [])"
| "store_groups ops blake3 serialize (grp # groups) st =
     (case serialize grp of
        Inl e \<Rightarrow> (st, Inl e)
      | Inr data \<Rightarrow>
          (case put_chunk ops (chunk_from_bytes blake3 data) st of
             (st, Inl e) \<Rightarrow> (st, Inl e)
           | (st, Inr _) \<Rightarrow>
               (case store_groups ops blake3 serialize groups st of
                  (st, Inl e) \<Rightarrow> (st, Inl e)
                | (st, Inr addrs) \<Rightarrow> (st, Inr ((fst (hd grp), ck_addr (chunk_from_bytes blake3 data)) # addrs)))))"

definition saturating_level :: "u8 \<Rightarrow> u8" where
  "saturating_level l = (if l = 255 then 255 else l + 1)"

partial_function (option) build_internal_nodes ::
  "'s chunk_store \<Rightarrow> (bytes \<Rightarrow> bytes) \<Rightarrow> (bytes \<Rightarrow> bytes) \<Rightarrow> nat \<Rightarrow> u8 \<Rightarrow> (bytes \<times> bytes) list \<Rightarrow> 's \<Rightarrow> ('s \<times> (ferra_error + bytes)) option" where
  "build_internal_nodes ops blake3 derive_key pattern_width level child_addrs st =
     (if length child_addrs = 1 then Some (st, Inr (snd (hd child_addrs)))
      else (case store_groups ops blake3 (serialize_internal_chunk level) (split_at_boundaries derive_key pattern_width child_addrs) st of
              (st, Inl e) \<Rightarrow> Some (st, Inl e)
            | (st, Inr next_level_addrs) \<Rightarrow>
                build_internal_nodes ops blake3 derive_key pattern_width (saturating_level level) next_level_addrs st))"

definition build_prolly_tree ::
  "'s chunk_store \<Rightarrow> (bytes \<Rightarrow> bytes) \<Rightarrow> (bytes \<Rightarrow> bytes) \<Rightarrow> nat \<Rightarrow> (bytes, bytes) omap \<Rightarrow> 's \<Rightarrow> ('s \<times> (ferra_error + bytes)) option" where
  "build_prolly_tree ops blake3 derive_key pattern_width kvs st =
     (if kvs = [] then
        (case serialize_leaf_chunk [] of
           Inl e \<Rightarrow> Some (st, Inl e)
         | Inr data \<Rightarrow>
             (case put_chunk ops (chunk_from_bytes blake3 data) st of
                (st, Inl e) \<Rightarrow> Some (st, Inl e)
              | (st, Inr _) \<Rightarrow> Some (st, Inr (ck_addr (chunk_from_bytes blake3 data)))))
      else (case store_groups ops blake3 serialize_leaf_chunk (split_at_boundaries derive_key pattern_width kvs) st of
              (st, Inl e) \<Rightarrow> Some (st, Inl e)
            | (st, Inr leaf_addrs) \<Rightarrow> build_internal_nodes ops blake3 derive_key pattern_width 1 leaf_addrs st))"

section \<open>Reading (read.rs)\<close>

definition load_chunk :: "'s chunk_store \<Rightarrow> string \<Rightarrow> bytes \<Rightarrow> 's \<Rightarrow> ferra_error + chunk" where
  "load_chunk ops invariant addr st =
     bind_result (get_chunk ops addr st) (\<lambda>c. case c of None \<Rightarrow> Inl (InvariantViolation invariant) | Some chunk \<Rightarrow> Inr chunk)"

fun walk_children :: "(bytes \<Rightarrow> 'r \<Rightarrow> (ferra_error + 'r) option) \<Rightarrow> bytes list \<Rightarrow> 'r \<Rightarrow> (ferra_error + 'r) option" where
  "walk_children f [] result = Some (Inr result)"
| "walk_children f (addr # addrs) result =
     (case f addr result of
        None \<Rightarrow> None
      | Some (Inl e) \<Rightarrow> Some (Inl e)
      | Some (Inr result) \<Rightarrow> walk_children f addrs result)"

text \<open>The recursive descent; \<open>collect\<close> adds the entries of a leaf to the result.\<close>

primrec read_walk ::
  "nat \<Rightarrow> 's chunk_store \<Rightarrow> ((bytes \<times> bytes) list \<Rightarrow> 'r \<Rightarrow> 'r) \<Rightarrow> 's \<Rightarrow> bytes \<Rightarrow> 'r \<Rightarrow> (ferra_error + 'r) option" where
  "read_walk 0 ops collect st addr result = None"
| "read_walk (Suc fuel) ops collect st addr result =
     (case load_chunk ops ''INV-FERR-049'' addr st of
        Inl e \<Rightarrow> Some (Inl e)
      | Inr chunk \<Rightarrow>
          (let data = ck_data chunk in
           if data = [] then Some (Inl EmptyChunk)
           else if hd data = 0x01 then Some (bind_result (deserialize_leaf_chunk data) (\<lambda>entries. Inr (collect entries result)))
           else if hd data = 0x02 then
             (case decode_child_addrs chunk of
                Inl e \<Rightarrow> Some (Inl e)
              | Inr children \<Rightarrow> walk_children (read_walk fuel ops collect st) children result)
           else Some (Inl (UnknownCodecTag (hd data)))))"

definition read_subtree :: "nat \<Rightarrow> 's chunk_store \<Rightarrow> 's \<Rightarrow> bytes \<Rightarrow> (bytes, bytes) omap \<Rightarrow> (ferra_error + (bytes, bytes) omap) option" where
  "read_subtree fuel ops = read_walk fuel ops (\<lambda>entries result. fold (\<lambda>(k, v). om_insert k v) entries result)"

definition read_subtree_vec :: "nat \<Rightarrow> 's chunk_store \<Rightarrow> 's \<Rightarrow> bytes \<Rightarrow> (bytes \<times> bytes) list \<Rightarrow> (ferra_error + (bytes \<times> bytes) list) option" where
  "read_subtree_vec fuel ops = read_walk fuel ops (\<lambda>entries result. result @ entries)"

definition read_prolly_tree :: "nat \<Rightarrow> 's chunk_store \<Rightarrow> 's \<Rightarrow> bytes \<Rightarrow> (ferra_error + (bytes, bytes) omap) option" where
  "read_prolly_tree fuel ops st root = read_subtree fuel ops st root []"

definition read_prolly_tree_vec :: "nat \<Rightarrow> 's chunk_store \<Rightarrow> 's \<Rightarrow> bytes \<Rightarrow> (ferra_error + (bytes \<times> bytes) list) option" where
  "read_prolly_tree_vec fuel ops st root = read_subtree_vec fuel ops st root []"

section \<open>The chunk codec\<close>

abbreviation sized :: "bytes \<Rightarrow> bytes" where
  "sized x \<equiv> to_le_bytes 4 (of_nat (length x) :: u32) @ x"

definition entry_bytes :: "bytes \<times> bytes \<Rightarrow> bytes" where
  "entry_bytes = (\<lambda>(k, v). sized k @ sized v)"

definition leaf_fits :: "(bytes \<times> bytes) list \<Rightarrow> bool" where
  "leaf_fits es \<longleftrightarrow> length es \<le> u32_max \<and> (\<forall>(k, v) \<in> set es. length k \<le> u32_max \<and> length v \<le> u32_max)"

definition leaf_bytes :: "(bytes \<times> bytes) list \<Rightarrow> bytes" where
  "leaf_bytes es = [0x01] @ to_le_bytes 4 (of_nat (length es) :: u32) @ concat (map entry_bytes es)"

definition child_bytes :: "bytes \<times> bytes \<Rightarrow> bytes" where
  "child_bytes = (\<lambda>(sep, hash). sized sep @ hash)"

definition node_fits :: "(bytes \<times> bytes) list \<Rightarrow> bool" where
  "node_fits cs \<longleftrightarrow> length cs \<le> u32_max \<and> (\<forall>(sep, hash) \<in> set cs. length sep \<le> u32_max)"

definition node_bytes_of :: "u8 \<Rightarrow> (bytes \<times> bytes) list \<Rightarrow> bytes" where
  "node_bytes_of level cs = [0x02, level] @ to_le_bytes 4 (of_nat (length cs) :: u32) @ concat (map child_bytes cs)"

lemma len_u32_simps: "len_u32 n = (if n \<le> u32_max then Inr (of_nat n) else Inl (InvariantViolation ''INV-FERR-045''))"
  by (simp add: len_u32_def)

lemma serialize_leaf_eq:
  "serialize_leaf_chunk es = (if leaf_fits es then Inr (leaf_bytes es) else Inl (InvariantViolation ''INV-FERR-045''))"
proof -
  have "serialize_entries es =
      (if \<forall>(k, v) \<in> set es. length k \<le> u32_max \<and> length v \<le> u32_max then Inr (concat (map entry_bytes es))
       else Inl (InvariantViolation ''INV-FERR-045''))"
    by (induction es rule: serialize_entries.induct) (auto simp: len_u32_def entry_bytes_def)
  then show ?thesis by (auto simp: serialize_leaf_chunk_def leaf_fits_def leaf_bytes_def len_u32_def)
qed

lemma serialize_internal_eq:
  "serialize_internal_chunk level cs = (if node_fits cs then Inr (node_bytes_of level cs) else Inl (InvariantViolation ''INV-FERR-045''))"
proof -
  have "serialize_children cs =
      (if \<forall>(sep, hash) \<in> set cs. length sep \<le> u32_max then Inr (concat (map child_bytes cs))
       else Inl (InvariantViolation ''INV-FERR-045''))"
    by (induction cs rule: serialize_children.induct) (auto simp: len_u32_def child_bytes_def)
  then show ?thesis by (auto simp: serialize_internal_chunk_def node_fits_def node_bytes_of_def len_u32_def)
qed

lemma unat_len_u32: "n \<le> u32_max \<Longrightarrow> unat (of_nat n :: u32) = n"
  by (simp add: u32_max_def unat_of_nat)

lemma unat_u32_le: "unat (x :: u32) \<le> u32_max"
proof -
  have "unat x < 2 ^ LENGTH(32)" by (rule unsigned_less)
  then show ?thesis by (simp add: u32_max_def)
qed

lemma read4_at: "read4 (pre @ to_le_bytes 4 (x :: u32) @ rest) (length pre) = Inr (to_le_bytes 4 x)"
  by (simp add: read4_def)

lemma read_sized_at:
  assumes "length x \<le> u32_max"
  shows "read_sized (pre @ sized x @ rest) (length pre) = Inr (x, length pre + length (sized x))"
  using read4_at [of pre "of_nat (length x)" "x @ rest"] assms
  by (simp add: read_sized_def check_len_def unat_len_u32)

lemma read_entries_at:
  assumes "\<forall>(k, v) \<in> set es. length k \<le> u32_max \<and> length v \<le> u32_max"
  shows "read_entries (pre @ concat (map entry_bytes es) @ rest) (length es) (length pre) =
    Inr (es, length pre + length (concat (map entry_bytes es)))"
  using assms
proof (induction es arbitrary: pre)
  case (Cons e es)
  obtain k v where e: "e = (k, v)" by fastforce
  have l: "length k \<le> u32_max" "length v \<le> u32_max" using Cons.prems e by auto
  let ?r = "concat (map entry_bytes es) @ rest"
  have s1: "read_sized (pre @ sized k @ sized v @ ?r) (length pre) = Inr (k, length (pre @ sized k))"
    using read_sized_at [OF l(1), of pre "sized v @ ?r"] by simp
  have s2: "read_sized ((pre @ sized k) @ sized v @ ?r) (length (pre @ sized k)) = Inr (v, length (pre @ sized k @ sized v))"
    using read_sized_at [OF l(2), of "pre @ sized k" ?r] by simp
  have IH: "read_entries ((pre @ sized k @ sized v) @ ?r) (length es) (length (pre @ sized k @ sized v)) =
      Inr (es, length (pre @ sized k @ sized v) + length (concat (map entry_bytes es)))"
    using Cons.IH [of "pre @ sized k @ sized v"] Cons.prems by simp
  show ?case using s1 s2 IH by (simp add: e entry_bytes_def)
qed simp

lemma read_children_at:
  assumes "\<forall>(sep, hash) \<in> set cs. length sep \<le> u32_max \<and> length hash = 32"
  shows "read_children (pre @ concat (map child_bytes cs) @ rest) (length cs) (length pre) = Inr cs \<and>
    read_addrs (pre @ concat (map child_bytes cs) @ rest) (length cs) (length pre) = Inr (map snd cs)"
  using assms
proof (induction cs arbitrary: pre)
  case (Cons c cs)
  obtain sep hash where c: "c = (sep, hash)" by fastforce
  have l: "length sep \<le> u32_max" "length hash = 32" using Cons.prems c by auto
  let ?r = "concat (map child_bytes cs) @ rest"
  have s1: "read_sized (pre @ sized sep @ hash @ ?r) (length pre) = Inr (sep, length (pre @ sized sep))"
    using read_sized_at [OF l(1), of pre "hash @ ?r"] by simp
  have r4: "read4 (pre @ sized sep @ hash @ ?r) (length pre) = Inr (to_le_bytes 4 (of_nat (length sep) :: u32))"
    using read4_at [of pre "of_nat (length sep)" "sep @ hash @ ?r"] by simp
  have d: "take 32 (drop (length (pre @ sized sep)) (pre @ sized sep @ hash @ ?r)) = hash"
    "check_len (pre @ sized sep @ hash @ ?r) (length (pre @ sized sep)) 32 = Inr ()"
    using l(2) by (simp_all add: check_len_def)
  have IH: "read_children ((pre @ sized sep @ hash) @ ?r) (length cs) (length (pre @ sized sep @ hash)) = Inr cs"
    "read_addrs ((pre @ sized sep @ hash) @ ?r) (length cs) (length (pre @ sized sep @ hash)) = Inr (map snd cs)"
    using Cons.IH [of "pre @ sized sep @ hash"] Cons.prems by simp_all
  show ?case using s1 r4 d IH l by (simp add: c child_bytes_def unat_len_u32 add.commute add.left_commute Let_def)
qed simp

lemma deserialize_leaf_bytes:
  assumes "leaf_fits es" "strict_sorted (map fst es)"
  shows "deserialize_leaf_chunk (leaf_bytes es) = Inr es"
proof -
  let ?p = "[0x01] @ to_le_bytes 4 (of_nat (length es) :: u32)"
  have "read_entries (?p @ concat (map entry_bytes es) @ []) (length es) (length ?p) = Inr (es, length ?p + length (concat (map entry_bytes es)))"
    using assms(1) by (intro read_entries_at) (simp add: leaf_fits_def)
  moreover have "read4 (leaf_bytes es) 1 = Inr (to_le_bytes 4 (of_nat (length es) :: u32))"
    using read4_at [of "[0x01]"] by (simp add: leaf_bytes_def)
  ultimately show ?thesis using assms
    by (simp add: deserialize_leaf_chunk_def leaf_bytes_def leaf_fits_def unat_len_u32 windows_lt_iff)
qed

lemma decode_node_bytes:
  assumes "node_fits cs" "\<forall>(sep, hash) \<in> set cs. length hash = 32" "ck_data c = node_bytes_of level cs"
  shows "decode_internal_children c = Inr cs" "decode_child_addrs c = Inr (map snd cs)"
proof -
  let ?p = "[0x02, level] @ to_le_bytes 4 (of_nat (length cs) :: u32)"
  have ok: "\<forall>(sep, hash) \<in> set cs. length sep \<le> u32_max \<and> length hash = 32" using assms(1,2) by (auto simp: node_fits_def)
  have "read4 (node_bytes_of level cs) 2 = Inr (to_le_bytes 4 (of_nat (length cs) :: u32))"
    using read4_at [of "[0x02, level]"] by (simp add: node_bytes_of_def numeral_2_eq_2)
  with read_children_at [OF ok, of ?p "[]"] assms(1,3)
  show "decode_internal_children c = Inr cs" "decode_child_addrs c = Inr (map snd cs)"
    by (simp_all add: decode_internal_children_def decode_child_addrs_def decode_internal_def node_bytes_of_def node_fits_def unat_len_u32)
qed

text \<open>The codec is injective on what it accepts: the accepted bytes are the encoding of the entries.\<close>

lemma read_sized_exact:
  assumes "read_sized data pos = Inr (x, pos')" "pos \<le> length data"
  shows "drop pos data = sized x @ drop pos' data" "pos' \<le> length data" "length x \<le> u32_max"
proof -
  let ?b = "take 4 (drop pos data)"
  let ?n = "unat (from_le_bytes ?b :: u32)"
  have r: "pos + 4 + ?n \<le> length data" "x = take ?n (drop (pos + 4) data)" "pos' = pos + 4 + ?n"
    using assms(1) by (auto simp: read_sized_def read4_def check_len_def Let_def split: if_splits)
  have "length ?b = 4" using r(1) by simp
  then have b: "to_le_bytes 4 (from_le_bytes ?b :: u32) = ?b" using to_le_from_le [of ?b, where ?'a = 32] by simp
  have lx: "length x = ?n" using r by simp
  then have "sized x = ?b @ x" using b by simp
  moreover have "drop pos data = ?b @ drop (pos + 4) data" by (metis append_take_drop_id drop_drop add.commute)
  moreover have "drop (pos + 4) data = x @ drop pos' data" using r by (metis append_take_drop_id drop_drop add.commute)
  ultimately show "drop pos data = sized x @ drop pos' data" by simp
  show "pos' \<le> length data" using r by simp
  show "length x \<le> u32_max" unfolding lx by (rule unat_u32_le)
qed

lemma read_entries_exact:
  assumes "read_entries data n pos = Inr (es, pos')" "pos \<le> length data"
  shows "drop pos data = concat (map entry_bytes es) @ drop pos' data \<and> pos' \<le> length data \<and> length es = n \<and>
    (\<forall>(k, v) \<in> set es. length k \<le> u32_max \<and> length v \<le> u32_max)"
  using assms
proof (induction n arbitrary: pos es)
  case (Suc n)
  from Suc.prems(1) obtain k p1 v p2 es' where r: "read_sized data pos = Inr (k, p1)" "read_sized data p1 = Inr (v, p2)"
    "read_entries data n p2 = Inr (es', pos')" "es = (k, v) # es'" by (auto simp: bind_result_Inr)
  note a = read_sized_exact [OF r(1) Suc.prems(2)] and b = read_sized_exact [OF r(2)]
  from Suc.IH [OF r(3)] a b r(4) show ?case by (auto simp: entry_bytes_def)
qed simp

lemma deserialize_leaf_exact:
  assumes "deserialize_leaf_chunk data = Inr es"
  shows "data = leaf_bytes es \<and> leaf_fits es \<and> strict_sorted (map fst es)"
proof -
  let ?b = "take 4 (drop 1 data)"
  have r: "5 \<le> length data" "hd data = 1" "data \<noteq> []" "read_entries data (unat (from_le_bytes ?b :: u32)) 5 = Inr (es, length data)" "strict_sorted (map fst es)"
    using assms by (auto simp: deserialize_leaf_chunk_def read4_def bind_result_Inr windows_lt_iff split: if_splits)
  note x = read_entries_exact [OF r(4,1)]
  have "length ?b = 4" using r(1) by simp
  then have "to_le_bytes 4 (from_le_bytes ?b :: u32) = ?b" using to_le_from_le [of ?b, where ?'a = 32] by simp
  moreover have "length es = unat (from_le_bytes ?b :: u32)" using x by simp
  moreover have "data = [1] @ ?b @ drop 5 data"
  proof -
    have "drop 1 data = ?b @ drop 5 data" by (metis append_take_drop_id drop_drop numeral_plus_one semiring_norm(5) semiring_norm(2) semiring_norm(8))
    moreover have "data = [1] @ drop 1 data" using r(2,3) by (cases data) auto
    ultimately show ?thesis by simp
  qed
  ultimately have "data = leaf_bytes es" using x by (simp add: leaf_bytes_def)
  moreover have "length es \<le> u32_max" using x unat_u32_le by metis
  ultimately show ?thesis using x r(5) by (simp add: leaf_fits_def)
qed

end
