(* ===== verification/Prolly_Tree.thy ===== *)
theory Prolly_Tree
  imports Prolly
begin

text \<open>
  The prolly tree as a tree. The reference is a datatype of leaves and nodes with a pure builder; the code's
  builder stores exactly the chunks of that tree and returns its address, and the code's reader gives back
  its entries. What the tree relies on of a chunk store is the locale \<open>lawful_chunk_store\<close>.
\<close>

section \<open>Splitting\<close>

lemma concat_split_loop: "concat (split_loop bd cur xs) = cur @ xs"
  by (induction bd cur xs rule: split_loop.induct) (auto simp: Let_def)

lemma split_loop_nonempty: "[] \<notin> set (split_loop bd cur xs)"
  by (induction bd cur xs rule: split_loop.induct) (auto simp: Let_def)

lemma split_loop_map:
  "split_loop bd (map (map_prod id f) cur) (map (map_prod id f) xs) = map (map (map_prod id f)) (split_loop bd cur xs)"
proof (induction bd cur xs rule: split_loop.induct)
  case (2 bd cur kv kvs)
  have c: "map (map_prod id f) cur @ [map_prod id f kv] = map (map_prod id f) (cur @ [kv])" by simp
  show ?case using 2 by (simp only: split_loop.simps list.map c Let_def length_map fst_map_prod id_apply) simp
qed simp

text \<open>Sizes of the groups: every group but the last has between 32 and 1024 entries, the last at most 1024.\<close>

lemma split_loop_sizes:
  assumes "length cur < MAX_CHUNK_SIZE"
  shows "(\<forall>g \<in> set (split_loop (is_boundary dk pw) cur xs). length g \<le> MAX_CHUNK_SIZE) \<and>
    (\<forall>g \<in> set (butlast (split_loop (is_boundary dk pw) cur xs)). MIN_CHUNK_SIZE \<le> length g)"
  using assms
proof (induction "is_boundary dk pw" cur xs rule: split_loop.induct)
  case (2 cur kv kvs)
  let ?cur = "cur @ [kv]"
  have le: "length ?cur \<le> MAX_CHUNK_SIZE" using 2(3) by simp
  have pos: "length ([] :: (bytes \<times> 'a) list) < MAX_CHUNK_SIZE" by (simp add: MAX_CHUNK_SIZE_def)
  show ?case
  proof (cases "kvs \<noteq> [] \<and> is_boundary dk pw (fst kv) (length ?cur)")
    case True
    then have "MIN_CHUNK_SIZE \<le> length ?cur" by (auto simp: is_boundary_def split: if_splits)
    with True le 2(1) [OF refl True pos] show ?thesis by (auto simp: Let_def)
  next
    case False
    show ?thesis
    proof (cases "kvs = []")
      case True
      with le show ?thesis by simp
    next
      case ne: False
      with False have "length ?cur < MAX_CHUNK_SIZE" by (auto simp: is_boundary_def MIN_CHUNK_SIZE_def MAX_CHUNK_SIZE_def split: if_splits)
      with 2(2) [OF refl False] False show ?thesis by (auto simp: Let_def)
    qed
  qed
qed simp

lemma length_concat_ge: "\<forall>g \<in> set gs. m \<le> length g \<Longrightarrow> m * length gs \<le> length (concat gs)"
  by (induction gs) auto

lemma split_count:
  assumes "xs \<noteq> []" "split_at_boundaries dk pw xs = gs"
  shows "gs \<noteq> []" "32 * (length gs - 1) < length xs"
proof -
  note gs_def = assms(2) [symmetric]
  have c: "concat gs = xs" "[] \<notin> set gs" by (simp_all add: gs_def split_at_boundaries_def concat_split_loop split_loop_nonempty)
  then show ne: "gs \<noteq> []" using assms(1) by auto
  have "\<forall>g \<in> set (butlast gs). 32 \<le> length g"
    using split_loop_sizes [of "[]" dk pw xs] by (simp add: gs_def split_at_boundaries_def MIN_CHUNK_SIZE_def MAX_CHUNK_SIZE_def)
  from length_concat_ge [OF this] have "32 * (length gs - 1) \<le> length (concat (butlast gs))" by simp
  moreover have "length xs = length (concat (butlast gs)) + length (last gs)"
    unfolding c(1) [symmetric] by (subst append_butlast_last_id [OF ne, symmetric]) (simp add: length_concat del: append_butlast_last_id)
  moreover have "last gs \<noteq> []" using c(2) ne last_in_set by metis
  ultimately show "32 * (length gs - 1) < length xs" by (cases "last gs") auto
qed

lemma split_fewer:
  assumes "length xs \<noteq> 1" "xs \<noteq> []"
  shows "length (split_at_boundaries dk pw xs) < length xs" "split_at_boundaries dk pw xs \<noteq> []"
proof -
  have "2 \<le> length xs" using assms by (cases xs) (auto simp: Suc_le_eq)
  with split_count [OF assms(2) refl, of dk pw] show "length (split_at_boundaries dk pw xs) < length xs" "split_at_boundaries dk pw xs \<noteq> []"
    by (auto simp: Suc_le_eq)
qed

section \<open>The tree\<close>

datatype ptree = PLeaf "(bytes \<times> bytes) list" | PNode u8 "(bytes \<times> ptree) list"

fun tree_entries :: "ptree \<Rightarrow> (bytes \<times> bytes) list" where
  "tree_entries (PLeaf es) = es"
| "tree_entries (PNode l cs) = concat (map (\<lambda>(_, t). tree_entries t) cs)"

text \<open>The bytes of the root chunk, and those of all chunks.\<close>

fun tree_data :: "(bytes \<Rightarrow> bytes) \<Rightarrow> ptree \<Rightarrow> bytes" where
  "tree_data b (PLeaf es) = leaf_bytes es"
| "tree_data b (PNode l cs) = node_bytes_of l (map (\<lambda>(k, t). (k, b (tree_data b t))) cs)"

definition tree_addr :: "(bytes \<Rightarrow> bytes) \<Rightarrow> ptree \<Rightarrow> bytes" where
  "tree_addr b t = b (tree_data b t)"

fun tree_chunks :: "(bytes \<Rightarrow> bytes) \<Rightarrow> ptree \<Rightarrow> bytes set" where
  "tree_chunks b (PLeaf es) = {leaf_bytes es}"
| "tree_chunks b (PNode l cs) = insert (tree_data b (PNode l cs)) (\<Union>(k, t) \<in> set cs. tree_chunks b t)"

fun tree_height :: "ptree \<Rightarrow> nat" where
  "tree_height (PLeaf es) = 1"
| "tree_height (PNode l cs) = Suc (fold max (map (\<lambda>(_, t). tree_height t) cs) 0)"

text \<open>Every chunk can be written: its lengths fit 32 bits.\<close>

fun tree_fits :: "ptree \<Rightarrow> bool" where
  "tree_fits (PLeaf es) \<longleftrightarrow> leaf_fits es"
| "tree_fits (PNode l cs) \<longleftrightarrow> length cs \<le> u32_max \<and> (\<forall>(k, t) \<in> set cs. length k \<le> u32_max \<and> tree_fits t)"

fun leaves_sorted :: "ptree \<Rightarrow> bool" where
  "leaves_sorted (PLeaf es) \<longleftrightarrow> strict_sorted (map fst es)"
| "leaves_sorted (PNode l cs) \<longleftrightarrow> (\<forall>(k, t) \<in> set cs. leaves_sorted t)"

section \<open>The reference builder\<close>

definition up_level :: "(bytes \<Rightarrow> bytes) \<Rightarrow> nat \<Rightarrow> u8 \<Rightarrow> (bytes \<times> ptree) list \<Rightarrow> (bytes \<times> ptree) list" where
  "up_level dk pw level ts = map (\<lambda>g. (fst (hd g), PNode level g)) (split_at_boundaries dk pw ts)"

function up_tree :: "(bytes \<Rightarrow> bytes) \<Rightarrow> nat \<Rightarrow> u8 \<Rightarrow> (bytes \<times> ptree) list \<Rightarrow> ptree" where
  "up_tree dk pw level ts =
     (if length ts \<le> 1 then snd (hd ts) else up_tree dk pw (saturating_level level) (up_level dk pw level ts))"
  by pat_completeness auto
termination
proof (relation "measure (\<lambda>(dk, pw, level, ts). length ts)", goal_cases)
  case (2 dk pw level ts)
  then have "ts \<noteq> []" "length ts \<noteq> 1" by auto
  then show ?case using split_fewer(1) [of ts dk pw] by (simp add: up_level_def)
qed simp

declare up_tree.simps [simp del]

definition leaf_level :: "(bytes \<Rightarrow> bytes) \<Rightarrow> nat \<Rightarrow> (bytes, bytes) omap \<Rightarrow> (bytes \<times> ptree) list" where
  "leaf_level dk pw kvs = map (\<lambda>g. (fst (hd g), PLeaf g)) (split_at_boundaries dk pw kvs)"

definition prolly_tree :: "(bytes \<Rightarrow> bytes) \<Rightarrow> nat \<Rightarrow> (bytes, bytes) omap \<Rightarrow> ptree" where
  "prolly_tree dk pw kvs = (if kvs = [] then PLeaf [] else up_tree dk pw 1 (leaf_level dk pw kvs))"

lemma split_groups:
  "concat (split_at_boundaries dk pw xs) = xs" "[] \<notin> set (split_at_boundaries dk pw xs)"
  by (simp_all add: split_at_boundaries_def concat_split_loop split_loop_nonempty)

lemma set_group: "g \<in> set (split_at_boundaries dk pw xs) \<Longrightarrow> set g \<subseteq> set xs"
  using split_groups(1) [of dk pw xs] by (metis UN_upper set_concat)

lemma up_level_nonempty:
  assumes "\<not> length ts \<le> 1"
  shows "up_level dk pw level ts \<noteq> []"
proof -
  have "length ts \<noteq> 1" "ts \<noteq> []" using assms by auto
  from split_fewer(2) [OF this] show ?thesis by (simp add: up_level_def)
qed

text \<open>A predicate of the trees that survives grouping holds of the whole tree.\<close>

lemma up_tree_induct:
  assumes "ts \<noteq> []" "\<forall>(k, t) \<in> set ts. P k t"
    "\<And>level g. g \<noteq> [] \<Longrightarrow> \<forall>(k, t) \<in> set g. P k t \<Longrightarrow> length g \<le> MAX_CHUNK_SIZE \<Longrightarrow> P (fst (hd g)) (PNode level g)"
  shows "\<exists>k. P k (up_tree dk pw level ts)"
  using assms(1,2)
proof (induction dk pw level ts rule: up_tree.induct)
  case (1 dk pw level ts)
  show ?case
  proof (cases "length ts \<le> 1")
    case True
    with 1 show ?thesis by (cases ts) (auto simp: up_tree.simps)
  next
    case False
    have ne: "up_level dk pw level ts \<noteq> []" using False by (rule up_level_nonempty)
    have size: "length g \<le> MAX_CHUNK_SIZE" if "g \<in> set (split_at_boundaries dk pw ts)" for g
      using split_loop_sizes [of "[]" dk pw ts] that by (simp add: split_at_boundaries_def MAX_CHUNK_SIZE_def)
    have "\<forall>(k, t) \<in> set (up_level dk pw level ts). P k t"
      using 1(3) set_group split_groups(2) [of dk pw ts] size
      by (fastforce simp: up_level_def intro!: assms(3))
    with 1(1) [OF False ne] False show ?thesis by (subst up_tree.simps) simp
  qed
qed

lemma concat_concat_map: "concat (concat (map (map f) xss)) = concat (map (\<lambda>xs. concat (map f xs)) xss)"
  by (induction xss) auto

lemma up_tree_entries: "ts \<noteq> [] \<Longrightarrow> tree_entries (up_tree dk pw level ts) = concat (map (\<lambda>(_, t). tree_entries t) ts)"
proof (induction dk pw level ts rule: up_tree.induct)
  case (1 dk pw level ts)
  show ?case
  proof (cases "length ts \<le> 1")
    case True
    with 1 show ?thesis by (cases ts) (auto simp: up_tree.simps)
  next
    case False
    have ne: "up_level dk pw level ts \<noteq> []" using False by (rule up_level_nonempty)
    have "concat (map (\<lambda>(_, t). tree_entries t) (up_level dk pw level ts)) =
        concat (map (\<lambda>(_, t). tree_entries t) (concat (split_at_boundaries dk pw ts)))"
      by (simp add: up_level_def comp_def map_concat concat_concat_map)
    with 1(1) [OF False ne] False show ?thesis by (subst up_tree.simps) (simp add: split_groups)
  qed
qed

section \<open>The reference tree of a key-value map\<close>

definition kvs_fit :: "(bytes, bytes) omap \<Rightarrow> bool" where
  "kvs_fit kvs \<longleftrightarrow> (\<forall>(k, v) \<in> set kvs. length k \<le> u32_max \<and> length v \<le> u32_max)"

lemma leaf_level_nonempty: "kvs \<noteq> [] \<Longrightarrow> leaf_level dk pw kvs \<noteq> []"
  using split_count(1) [of kvs dk pw] by (simp add: leaf_level_def)

lemma prolly_tree_entries: "tree_entries (prolly_tree dk pw kvs) = kvs"
proof (cases "kvs = []")
  case False
  have "concat (map (\<lambda>(_, t). tree_entries t) (leaf_level dk pw kvs)) = kvs"
    by (simp add: leaf_level_def comp_def split_groups)
  with False up_tree_entries [OF leaf_level_nonempty [OF False]] show ?thesis by (simp add: prolly_tree_def)
qed (simp add: prolly_tree_def)

text \<open>What the builder keeps of every subtree: its separator is short, its chunks can be written, its leaves are sorted.\<close>

lemma prolly_tree_fits:
  assumes "kvs_fit kvs" "om_inv kvs"
  shows "tree_fits (prolly_tree dk pw kvs) \<and> leaves_sorted (prolly_tree dk pw kvs)"
proof (cases "kvs = []")
  case False
  let ?P = "\<lambda>(k :: bytes) t. length k \<le> u32_max \<and> tree_fits t \<and> leaves_sorted t"
  have max: "MAX_CHUNK_SIZE \<le> u32_max" by (simp add: MAX_CHUNK_SIZE_def u32_max_def)
  have leaf: "?P (fst (hd g)) (PLeaf g)" if g: "g \<in> set (split_at_boundaries dk pw kvs)" for g
  proof -
    have ne: "g \<noteq> []" using g split_groups(2) by metis
    have "length g \<le> MAX_CHUNK_SIZE"
      using split_loop_sizes [of "[]" dk pw kvs] g by (simp add: split_at_boundaries_def MAX_CHUNK_SIZE_def)
    then have "leaf_fits g" using assms(1) set_group [OF g] max by (fastforce simp: leaf_fits_def kvs_fit_def)
    moreover obtain pre post where "split_at_boundaries dk pw kvs = pre @ g # post" using g by (meson split_list)
    then have "kvs = concat pre @ g @ concat post" using split_groups(1) [of dk pw kvs] by simp
    then have "strict_sorted (map fst g)" using assms(2) by (simp add: om_inv_def sorted_wrt_append)
    moreover have "length (fst (hd g)) \<le> u32_max"
      using assms(1) set_group [OF g] hd_in_set [OF ne] by (fastforce simp: kvs_fit_def)
    ultimately show ?thesis by simp
  qed
  have node: "?P (fst (hd g)) (PNode level g)"
    if "g \<noteq> []" "\<forall>(k, t) \<in> set g. ?P k t" "length g \<le> MAX_CHUNK_SIZE" for level g
    using that max hd_in_set [OF that(1)] by fastforce
  have "\<exists>k. ?P k (up_tree dk pw 1 (leaf_level dk pw kvs))"
    by (rule up_tree_induct [OF leaf_level_nonempty [OF False], where P = ?P])
      (use leaf node in \<open>auto simp: leaf_level_def\<close>)
  with False show ?thesis by (simp add: prolly_tree_def)
qed (simp add: prolly_tree_def leaf_fits_def)

section \<open>Which chunks a store holds\<close>

text \<open>A store from which nothing but content-addressed chunks with data in \<open>U\<close> can be read.\<close>

definition held :: "(bytes \<Rightarrow> bytes) \<Rightarrow> bytes set \<Rightarrow> (bytes \<Rightarrow> chunk option) \<Rightarrow> bool" where
  "held b U m \<longleftrightarrow> (\<forall>a c. m a = Some c \<longrightarrow> c = chunk_from_bytes b (ck_data c) \<and> a = ck_addr c \<and> ck_data c \<in> U)"

definition stored :: "(bytes \<Rightarrow> bytes) \<Rightarrow> bytes set \<Rightarrow> (bytes \<Rightarrow> chunk option) \<Rightarrow> bool" where
  "stored b D m \<longleftrightarrow> (\<forall>d \<in> D. m (b d) = Some (chunk_from_bytes b d))"

text \<open>The second store is the first with the chunks of \<open>D\<close> and no others.\<close>

definition stores :: "(bytes \<Rightarrow> bytes) \<Rightarrow> bytes set \<Rightarrow> (bytes \<Rightarrow> chunk option) \<Rightarrow> (bytes \<Rightarrow> chunk option) \<Rightarrow> bool" where
  "stores b D m m' \<longleftrightarrow> m \<subseteq>\<^sub>m m' \<and> dom m' = dom m \<union> b ` D \<and> stored b D m'"

lemma stores_refl [simp]: "stores b {} m m"
  by (simp add: stores_def stored_def)

lemma stores_trans:
  assumes "stores b D m m1" "stores b E m1 m2"
  shows "stores b (D \<union> E) m m2"
proof -
  have "stored b D m2" using assms unfolding stores_def stored_def map_le_def by (metis domI)
  then show ?thesis using assms unfolding stores_def stored_def by (auto intro: map_le_trans)
qed

lemma stores_held:
  assumes "stores b D m m'" "held b U m" "D \<subseteq> U"
  shows "held b U m'"
  unfolding held_def
proof (intro allI impI)
  fix a c assume c: "m' a = Some c"
  then have "a \<in> dom m \<union> b ` D" using assms(1) unfolding stores_def by blast
  then consider "m a = Some c" | d where "d \<in> D" "a = b d"
    using assms(1) c unfolding stores_def map_le_def by (metis UnE domIff imageE)
  then show "c = chunk_from_bytes b (ck_data c) \<and> a = ck_addr c \<and> ck_data c \<in> U"
  proof cases
    case 1 with assms(2) show ?thesis by (auto simp: held_def)
  next
    case 2
    then have "c = chunk_from_bytes b d" using assms(1) c by (simp add: stores_def stored_def)
    with 2 assms(3) show ?thesis by (auto simp: chunk_from_bytes_def)
  qed
qed

lemma stores_determined: "stores b D m m1 \<Longrightarrow> stores b D m m2 \<Longrightarrow> m1 = m2"
proof (rule ext)
  fix a
  assume s: "stores b D m m1" "stores b D m m2"
  then have d: "dom m1 = dom m \<union> b ` D" "dom m2 = dom m \<union> b ` D" by (auto simp: stores_def)
  consider "a \<in> dom m" | d where "d \<in> D" "a = b d" | "a \<notin> dom m1" using d by auto
  then show "m1 a = m2 a"
  proof cases
    case 1
    have "m a = m1 a" "m a = m2 a" using s 1 unfolding stores_def map_le_def by blast+
    then show ?thesis by simp
  next
    case 2 with s show ?thesis by (simp add: stores_def stored_def)
  next
    case 3
    then have "a \<notin> dom m2" using d by blast
    with 3 show ?thesis by (simp add: domIff)
  qed
qed

section \<open>What the tree relies on of a chunk store\<close>

locale lawful_chunk_store =
  fixes ops :: "'s chunk_store" and chunks :: "'s \<Rightarrow> bytes \<Rightarrow> chunk option" and ok :: "'s \<Rightarrow> bool"
  assumes get: "ok st \<Longrightarrow> get_chunk ops a st = Inr (chunks st a)"
    and has: "ok st \<Longrightarrow> has_chunk ops a st = Inr (chunks st a \<noteq> None)"
    and put: "ok st \<Longrightarrow> \<exists>st'. put_chunk ops c st = (st', Inr (ck_addr c)) \<and> ok st' \<and>
      chunks st' = (if chunks st (ck_addr c) = None then (chunks st)(ck_addr c \<mapsto> c) else chunks st)"
begin

lemma put_stores:
  assumes "ok st" "inj_on b U" "held b U (chunks st)" "d \<in> U"
  shows "\<exists>st'. put_chunk ops (chunk_from_bytes b d) st = (st', Inr (b d)) \<and> ok st' \<and> stores b {d} (chunks st) (chunks st')"
proof -
  obtain st' where st': "put_chunk ops (chunk_from_bytes b d) st = (st', Inr (b d))" "ok st'"
      "chunks st' = (if chunks st (b d) = None then (chunks st)(b d \<mapsto> chunk_from_bytes b d) else chunks st)"
    using put [OF assms(1), of "chunk_from_bytes b d"] by (auto simp: chunk_from_bytes_def)
  have "c = chunk_from_bytes b d" if "chunks st (b d) = Some c" for c
  proof -
    have c: "c = chunk_from_bytes b (ck_data c)" "b d = ck_addr c" "ck_data c \<in> U" using that assms(3) by (auto simp: held_def)
    then have "b (ck_data c) = b d" by (metis chunk.select_convs(1) chunk_from_bytes_def)
    then show ?thesis using c assms(2,4) by (metis inj_onD)
  qed
  then have "stores b {d} (chunks st) (chunks st')"
    using st'(3) by (auto simp: stores_def stored_def map_le_def split: if_splits)
  with st' show ?thesis by blast
qed

lemma store_groups_stores:
  assumes "ok st" "inj_on b U" "held b U (chunks st)" "data ` set gs \<subseteq> U" "\<And>g. g \<in> set gs \<Longrightarrow> ser g = Inr (data g)"
  shows "\<exists>st'. store_groups ops b ser gs st = (st', Inr (map (\<lambda>g. (fst (hd g), b (data g))) gs)) \<and> ok st' \<and>
    stores b (data ` set gs) (chunks st) (chunks st')"
  using assms(1,3,4,5)
proof (induction gs arbitrary: st)
  case (Cons g gs)
  obtain st1 where st1: "put_chunk ops (chunk_from_bytes b (data g)) st = (st1, Inr (b (data g)))" "ok st1"
      "stores b {data g} (chunks st) (chunks st1)"
    using put_stores [OF Cons.prems(1) assms(2) Cons.prems(2), of "data g"] Cons.prems(3) by auto
  have "held b U (chunks st1)" using stores_held [OF st1(3) Cons.prems(2)] Cons.prems(3) by simp
  then obtain st2 where st2: "store_groups ops b ser gs st1 = (st2, Inr (map (\<lambda>g. (fst (hd g), b (data g))) gs))" "ok st2"
      "stores b (data ` set gs) (chunks st1) (chunks st2)"
    using Cons.IH [OF st1(2)] Cons.prems(3,4) by auto
  have "stores b (data ` set (g # gs)) (chunks st) (chunks st2)" using stores_trans [OF st1(3) st2(3)] by simp
  with st1 st2 Cons.prems(4) [of g] show ?case by (simp add: chunk_from_bytes_def)
qed simp

end

end
