(* ===== verification/Prolly_Correct.thy ===== *)
theory Prolly_Correct
  imports Prolly_Tree
begin

text \<open>
  The code's builder and readers against the reference tree: building always ends, stores exactly the chunks
  of the reference tree and returns its address; both readers give back the entries; the address identifies
  the contents. The proofs are made once for every lawful chunk store and used for \<open>MemoryChunkStore\<close>.
\<close>

section \<open>Building ends\<close>

lemma store_groups_length: "store_groups ops b ser gs st = (st', Inr addrs) \<Longrightarrow> length addrs = length gs"
  by (induction gs arbitrary: st st' addrs) (auto split: sum.splits prod.splits)

lemma build_internal_ends:
  assumes "addrs \<noteq> []"
  shows "build_internal_nodes ops b dk pw level addrs st \<noteq> None"
  using assms
proof (induction addrs arbitrary: level st rule: length_induct)
  case (1 addrs)
  show ?case
  proof (cases "length addrs = 1")
    case True
    then show ?thesis by (subst build_internal_nodes.simps) simp
  next
    case False
    let ?gs = "split_at_boundaries dk pw addrs"
    obtain st' r where r: "store_groups ops b (serialize_internal_chunk level) ?gs st = (st', r)" by fastforce
    show ?thesis
    proof (cases r)
      case (Inl e)
      with r False show ?thesis by (subst build_internal_nodes.simps) simp
    next
      case (Inr upper)
      have "length upper = length ?gs" using r Inr by (simp add: store_groups_length)
      with split_fewer [OF False 1(2), of dk pw] have "length upper < length addrs" "upper \<noteq> []" by auto
      with 1(1) r Inr False show ?thesis by (subst build_internal_nodes.simps) simp
    qed
  qed
qed

lemma build_ends: "build_prolly_tree ops b dk pw kvs st \<noteq> None"
proof (cases "kvs = []")
  case True
  then show ?thesis by (auto simp: build_prolly_tree_def split: sum.splits prod.splits)
next
  case False
  obtain st' r where r: "store_groups ops b serialize_leaf_chunk (split_at_boundaries dk pw kvs) st = (st', r)" by fastforce
  show ?thesis
  proof (cases r)
    case (Inl e)
    with r False show ?thesis by (simp add: build_prolly_tree_def)
  next
    case (Inr addrs)
    then have "addrs \<noteq> []" using r split_count(1) [OF False refl, of dk pw] store_groups_length by fastforce
    with r Inr False build_internal_ends show ?thesis by (simp add: build_prolly_tree_def)
  qed
qed

section \<open>Building stores the reference tree\<close>

abbreviation addressed :: "(bytes \<Rightarrow> bytes) \<Rightarrow> (bytes \<times> ptree) list \<Rightarrow> (bytes \<times> bytes) list" where
  "addressed b ts \<equiv> map (map_prod id (tree_addr b)) ts"

abbreviation forest_chunks :: "(bytes \<Rightarrow> bytes) \<Rightarrow> (bytes \<times> ptree) list \<Rightarrow> bytes set" where
  "forest_chunks b ts \<equiv> \<Union>(tree_chunks b ` snd ` set ts)"

lemma tree_data_node: "tree_data b (PNode level g) = node_bytes_of level (addressed b g)"
  by (simp add: tree_addr_def map_prod_def split_def)

lemma tree_chunks_node: "tree_chunks b (PNode level g) = insert (node_bytes_of level (addressed b g)) (forest_chunks b g)"
  by (auto simp: tree_data_node [symmetric])

lemma forest_chunks_up_level:
  "forest_chunks b (up_level dk pw level ts) =
     forest_chunks b ts \<union> (\<lambda>g. node_bytes_of level (addressed b g)) ` set (split_at_boundaries dk pw ts)"
proof -
  have "set ts = \<Union>(set ` set (split_at_boundaries dk pw ts))"
    using split_groups(1) [of dk pw ts] by (metis set_concat)
  then show ?thesis by (auto simp: up_level_def tree_chunks_node simp del: tree_chunks.simps)
qed

lemma split_addressed:
  "split_at_boundaries dk pw (addressed b ts) = map (addressed b) (split_at_boundaries dk pw ts)"
  using split_loop_map [of _ _ "[]" ts] by (simp add: split_at_boundaries_def)

lemma node_fits_addressed: "tree_fits (PNode level g) \<Longrightarrow> node_fits (addressed b g)"
  by (auto simp: node_fits_def)

text \<open>The chunks of a level are among those of the tree above it.\<close>

lemma up_tree_step: "\<not> length ts \<le> 1 \<Longrightarrow> up_tree dk pw level ts = up_tree dk pw (saturating_level level) (up_level dk pw level ts)"
  by (subst up_tree.simps) simp

lemma up_tree_single: "ts \<noteq> [] \<Longrightarrow> length ts \<le> 1 \<Longrightarrow> \<exists>k t. ts = [(k, t)] \<and> up_tree dk pw level ts = t"
  by (cases ts) (auto simp: up_tree.simps)

lemma up_tree_covers:
  assumes "ts \<noteq> []"
  shows "forest_chunks b ts \<subseteq> tree_chunks b (up_tree dk pw level ts)"
    and "tree_fits (up_tree dk pw level ts) \<Longrightarrow> \<forall>t \<in> set ts. tree_fits (snd t)"
  using assms
proof (induction dk pw level ts rule: up_tree.induct)
  case (1 dk pw level ts)
  {
    case 1
    show ?case
    proof (cases "length ts \<le> 1")
      case True
      then show ?thesis using up_tree_single [OF 1 True, of dk pw level] by fastforce
    next
      case False
      have "forest_chunks b ts \<subseteq> forest_chunks b (up_level dk pw level ts)" unfolding forest_chunks_up_level by blast
      also have "\<dots> \<subseteq> tree_chunks b (up_tree dk pw (saturating_level level) (up_level dk pw level ts))"
        using "1.IH"(1) [OF False up_level_nonempty [OF False]] .
      finally show ?thesis by (simp add: up_tree_step [OF False])
    qed
  next
    case 2
    show ?case
    proof (cases "length ts \<le> 1")
      case True
      then show ?thesis using 2 up_tree_single [OF 2(2) True, of dk pw level] by fastforce
    next
      case False
      have all: "\<forall>t \<in> set (up_level dk pw level ts). tree_fits (snd t)"
        using "1.IH"(2) [OF False _ up_level_nonempty [OF False]] 2(1) by (simp add: up_tree_step [OF False])
      show ?thesis
      proof
        fix t assume "t \<in> set ts"
        then obtain g where g: "g \<in> set (split_at_boundaries dk pw ts)" "t \<in> set g"
          using split_groups(1) [of dk pw ts] by (metis UN_E set_concat)
        then have "tree_fits (PNode level g)" using all by (auto simp: up_level_def)
        with g(2) show "tree_fits (snd t)" by (cases t) auto
      qed
    qed
  }
qed

context lawful_chunk_store
begin

lemma build_internal_stores:
  assumes "inj_on b U" "ts \<noteq> []" "tree_fits (up_tree dk pw level ts)" "tree_chunks b (up_tree dk pw level ts) \<subseteq> U"
    and "ok st" "held b U (chunks st)" "stores b (forest_chunks b ts) m (chunks st)"
  shows "\<exists>st'. build_internal_nodes ops b dk pw level (addressed b ts) st = Some (st', Inr (tree_addr b (up_tree dk pw level ts))) \<and>
    ok st' \<and> stores b (tree_chunks b (up_tree dk pw level ts)) m (chunks st')"
  using assms(2-)
proof (induction dk pw level ts arbitrary: st rule: up_tree.induct)
  case (1 dk pw level ts)
  show ?case
  proof (cases "length ts \<le> 1")
    case True
    then obtain k t where "ts = [(k, t)]" "up_tree dk pw level ts = t" using up_tree_single [OF 1(2)] by metis
    then show ?thesis using 1(5-) by (subst build_internal_nodes.simps) simp
  next
    case False
    let ?up = "up_level dk pw level ts" and ?gs = "split_at_boundaries dk pw ts"
    let ?data = "node_bytes_of level"
    have ne: "?up \<noteq> []" by (rule up_level_nonempty [OF False])
    have fits: "\<forall>t \<in> set ?up. tree_fits (snd t)" and sub: "forest_chunks b ?up \<subseteq> U"
      using up_tree_covers(2) [OF ne, of dk pw "saturating_level level"] up_tree_covers(1) [OF ne, of b dk pw "saturating_level level"]
        1(3,4) unfolding up_tree_step [OF False] by blast+
    have "?data ` set (map (addressed b) ?gs) \<subseteq> U" using sub unfolding forest_chunks_up_level by auto
    moreover have "serialize_internal_chunk level g = Inr (?data g)" if "g \<in> set (map (addressed b) ?gs)" for g
      using that fits node_fits_addressed by (fastforce simp: serialize_internal_eq up_level_def)
    ultimately obtain st' where st': "store_groups ops b (serialize_internal_chunk level) (map (addressed b) ?gs) st =
        (st', Inr (map (\<lambda>g. (fst (hd g), b (?data g))) (map (addressed b) ?gs)))" "ok st'"
        "stores b (?data ` set (map (addressed b) ?gs)) (chunks st) (chunks st')"
      using store_groups_stores [OF 1(5) assms(1) 1(6), of ?data "map (addressed b) ?gs" "serialize_internal_chunk level"] by blast
    have "fst (hd (addressed b g)) = fst (hd g)" if "g \<in> set ?gs" for g
    proof -
      have "g \<noteq> []" using that split_groups(2) by metis
      then show ?thesis by (simp add: hd_map)
    qed
    then have "map (\<lambda>g. (fst (hd g), b (?data g))) (map (addressed b) ?gs) = addressed b ?up"
      by (auto simp: up_level_def tree_addr_def tree_data_node hd_map simp del: tree_data.simps)
    moreover have "stores b (forest_chunks b ?up) m (chunks st')"
      using stores_trans [OF 1(7) st'(3)] unfolding forest_chunks_up_level by (simp add: image_image)
    moreover have "held b U (chunks st')"
      using stores_held [OF st'(3) 1(6)] \<open>?data ` set (map (addressed b) ?gs) \<subseteq> U\<close> by blast
    moreover have "length (addressed b ts) \<noteq> 1" using False by simp
    ultimately show ?thesis
      using 1(1) [OF False ne _ _ st'(2)] 1(3,4) st'(1) split_addressed [of dk pw b ts] up_tree_step [OF False, of dk pw level]
      by (subst build_internal_nodes.simps) (simp add: id_def)
  qed
qed

lemma build_stores:
  assumes "inj_on b U" "kvs_fit kvs" "om_inv kvs" "tree_chunks b (prolly_tree dk pw kvs) \<subseteq> U" "ok st" "held b U (chunks st)"
  shows "\<exists>st'. build_prolly_tree ops b dk pw kvs st = Some (st', Inr (tree_addr b (prolly_tree dk pw kvs))) \<and>
    ok st' \<and> stores b (tree_chunks b (prolly_tree dk pw kvs)) (chunks st) (chunks st')"
proof (cases "kvs = []")
  case True
  then obtain st' where "put_chunk ops (chunk_from_bytes b (leaf_bytes [])) st = (st', Inr (b (leaf_bytes [])))" "ok st'"
      "stores b {leaf_bytes []} (chunks st) (chunks st')"
    using put_stores [OF assms(5,1,6), of "leaf_bytes []"] assms(4) by (auto simp: prolly_tree_def)
  with True show ?thesis
    by (simp add: build_prolly_tree_def serialize_leaf_eq leaf_fits_def prolly_tree_def tree_addr_def chunk_from_bytes_def)
next
  case False
  let ?ts = "leaf_level dk pw kvs" and ?gs = "split_at_boundaries dk pw kvs" and ?t = "prolly_tree dk pw kvs"
  have t: "?t = up_tree dk pw 1 ?ts" using False by (simp add: prolly_tree_def)
  have ne: "?ts \<noteq> []" by (rule leaf_level_nonempty [OF False])
  have fits: "tree_fits ?t" using prolly_tree_fits [OF assms(2,3)] by blast
  note covers = up_tree_covers(1) [OF ne, of b dk pw 1] up_tree_covers(2) [OF ne, of dk pw 1]
  have forest: "forest_chunks b ?ts = leaf_bytes ` set ?gs" by (auto simp: leaf_level_def)
  have sub: "leaf_bytes ` set ?gs \<subseteq> U" using covers(1) assms(4) unfolding t forest by blast
  have "serialize_leaf_chunk g = Inr (leaf_bytes g)" if "g \<in> set ?gs" for g
    using that covers(2) fits by (auto simp: serialize_leaf_eq leaf_level_def t)
  then obtain st' where st': "store_groups ops b serialize_leaf_chunk ?gs st =
      (st', Inr (map (\<lambda>g. (fst (hd g), b (leaf_bytes g))) ?gs))" "ok st'" "stores b (leaf_bytes ` set ?gs) (chunks st) (chunks st')"
    using store_groups_stores [OF assms(5,1,6) sub, of serialize_leaf_chunk] by blast
  have "map (\<lambda>g. (fst (hd g), b (leaf_bytes g))) ?gs = addressed b ?ts" by (simp add: leaf_level_def tree_addr_def)
  moreover have "held b U (chunks st')" by (rule stores_held [OF st'(3) assms(6) sub])
  moreover have "stores b (forest_chunks b ?ts) (chunks st) (chunks st')" using st'(3) unfolding forest .
  ultimately show ?thesis
    using build_internal_stores [OF assms(1) ne, of dk pw 1 st' "chunks st"] fits assms(4) st'(1,2) False
    by (simp add: t build_prolly_tree_def)
qed

end

section \<open>Reading gives the entries back\<close>

fun leaf_lists :: "ptree \<Rightarrow> (bytes \<times> bytes) list list" where
  "leaf_lists (PLeaf es) = [es]"
| "leaf_lists (PNode l cs) = concat (map (\<lambda>(_, t). leaf_lists t) cs)"

lemma concat_leaf_lists: "concat (leaf_lists t) = tree_entries t"
proof (induction t)
  case (PNode l cs)
  then have "map (\<lambda>(_, t). concat (leaf_lists t)) cs = map (\<lambda>(_, t). tree_entries t) cs" by (auto intro!: map_cong)
  then show ?case by (induction cs) auto
qed simp

lemma fold_max_ge: "(x :: nat) \<in> set xs \<or> x \<le> a \<Longrightarrow> x \<le> fold max xs a"
  by (induction xs arbitrary: a) (auto simp: max.coboundedI2 max.coboundedI1)

lemma child_height: "(k, t) \<in> set cs \<Longrightarrow> tree_height t < tree_height (PNode l cs)"
  using fold_max_ge [of "tree_height t" "map (\<lambda>(_, t). tree_height t) cs" 0] by force

context lawful_chunk_store
begin

lemma walk_reads:
  assumes "ok st" "\<And>x. length (b x) = 32" "stored b (tree_chunks b t) (chunks st)" "tree_fits t" "leaves_sorted t"
    "tree_height t \<le> fuel"
  shows "read_walk fuel ops collect st (tree_addr b t) r = Some (Inr (fold collect (leaf_lists t) r))"
  using assms(3-)
proof (induction t arbitrary: fuel r)
  case (PLeaf es)
  then obtain f where f: "fuel = Suc f" by (cases fuel) auto
  have "load_chunk ops ''INV-FERR-049'' (tree_addr b (PLeaf es)) st = Inr (chunk_from_bytes b (leaf_bytes es))"
    using PLeaf(1) by (simp add: load_chunk_def get [OF assms(1)] stored_def tree_addr_def)
  moreover have "deserialize_leaf_chunk (leaf_bytes es) = Inr es" using PLeaf by (simp add: deserialize_leaf_bytes)
  moreover have "hd (leaf_bytes es) = 1" "leaf_bytes es \<noteq> []" by (simp_all add: leaf_bytes_def)
  ultimately show ?case by (simp add: f chunk_from_bytes_def)
next
  case (PNode l cs)
  then obtain f where f: "fuel = Suc f" by (cases fuel) auto
  let ?c = "chunk_from_bytes b (tree_data b (PNode l cs))"
  have load: "load_chunk ops ''INV-FERR-049'' (tree_addr b (PNode l cs)) st = Inr ?c"
    using PNode(2) by (simp add: load_chunk_def get [OF assms(1)] stored_def tree_addr_def)
  have data: "ck_data ?c = node_bytes_of l (addressed b cs)" by (simp add: chunk_from_bytes_def tree_data_node del: tree_data.simps)
  have "node_fits (addressed b cs)" using PNode(3) by (rule node_fits_addressed)
  moreover have "\<forall>(sep, hash) \<in> set (addressed b cs). length hash = 32" using assms(2) by (auto simp: tree_addr_def)
  ultimately have kids: "decode_child_addrs ?c = Inr (map (\<lambda>(_, t). tree_addr b t) cs)"
    using decode_node_bytes(2) [OF _ _ data] by (simp add: comp_def case_prod_unfold)
  have "walk_children (read_walk f ops collect st) (map (\<lambda>(_, t). tree_addr b t) xs) r =
      Some (Inr (fold collect (concat (map (\<lambda>(_, t). leaf_lists t) xs)) r))" if "set xs \<subseteq> set cs" for xs r
    using that
  proof (induction xs arbitrary: r)
    case (Cons x xs)
    obtain k t where x: "x = (k, t)" by fastforce
    then have "(k, t) \<in> set cs" using Cons.prems by simp
    moreover from this have "tree_height t \<le> f" using child_height [of k t cs l] PNode(5) f by simp
    ultimately have "read_walk f ops collect st (tree_addr b t) r = Some (Inr (fold collect (leaf_lists t) r))"
      using PNode(1) [of "(k, t)" t f r] PNode(2-4) by (fastforce simp: stored_def)
    with Cons x show ?case by simp
  qed simp
  moreover have "hd (ck_data ?c) = 2" "ck_data ?c \<noteq> []" unfolding data by (simp_all add: node_bytes_of_def)
  ultimately show ?case using load kids by (simp add: f Let_def del: tree_data.simps)
qed

end

lemma fold_append: "fold (\<lambda>es r. r @ es) xss r = r @ concat xss"
  by (induction xss arbitrary: r) auto

lemma fold_fold_concat: "fold (\<lambda>es r. fold f es r) xss r = fold f (concat xss) r"
  by (induction xss arbitrary: r) auto

lemma om_insert_last: "\<forall>x \<in> set m. fst x < k \<Longrightarrow> om_insert k v m = m @ [(k, v)]"
  by (induction m) auto

lemma fold_om_insert_sorted:
  "strict_sorted (map fst (m @ es)) \<Longrightarrow> fold (\<lambda>(k, v). om_insert k v) es m = m @ es"
proof (induction es arbitrary: m)
  case (Cons e es)
  obtain k v where e: "e = (k, v)" by fastforce
  have "\<forall>x \<in> set m. fst x < k" using Cons.prems e by (auto simp: sorted_wrt_append)
  with Cons e show ?case by (simp add: om_insert_last)
qed simp

section \<open>The address identifies the contents\<close>

lemma node_bytes_inj:
  assumes "node_bytes_of l1 cs1 = node_bytes_of l2 cs2" "node_fits cs1" "node_fits cs2"
    "\<forall>c \<in> set cs1. length (snd c) = 32" "\<forall>c \<in> set cs2. length (snd c) = 32"
  shows "l1 = l2 \<and> cs1 = cs2"
proof -
  let ?c = "\<lparr>ck_addr = [], ck_data = node_bytes_of l1 cs1\<rparr>"
  have "decode_internal_children ?c = Inr cs1" by (rule decode_node_bytes(1) [OF assms(2)]) (use assms(4) in auto)
  moreover have "decode_internal_children ?c = Inr cs2"
    by (rule decode_node_bytes(1) [OF assms(3), where level = l2]) (use assms(1,5) in auto)
  ultimately show ?thesis using assms(1) by (simp add: node_bytes_of_def)
qed

lemma tree_data_inj:
  assumes "\<And>x. length (b x) = 32" "tree_data b t1 = tree_data b t2" "inj_on b (tree_chunks b t1 \<union> tree_chunks b t2)"
    "tree_fits t1" "leaves_sorted t1" "tree_fits t2" "leaves_sorted t2"
  shows "t1 = t2"
  using assms(2-)
proof (induction t1 arbitrary: t2)
  case (PLeaf es)
  show ?case
  proof (cases t2)
    case (PLeaf es2)
    have "leaf_fits es" "strict_sorted (map fst es)" "leaf_fits es2" "strict_sorted (map fst es2)"
      using PLeaf.prems(3-) PLeaf by simp_all
    then have "deserialize_leaf_chunk (leaf_bytes es) = Inr es" "deserialize_leaf_chunk (leaf_bytes es2) = Inr es2"
      using deserialize_leaf_bytes by blast+
    moreover have "leaf_bytes es = leaf_bytes es2" using PLeaf.prems(1) PLeaf by simp
    ultimately show ?thesis using PLeaf by (metis sum.inject(2))
  next
    case (PNode l cs)
    with PLeaf.prems(1) show ?thesis by (simp add: leaf_bytes_def node_bytes_of_def)
  qed
next
  case (PNode l cs)
  show ?case
  proof (cases t2)
    case (PLeaf es)
    with PNode.prems(1) show ?thesis by (simp add: leaf_bytes_def node_bytes_of_def)
  next
    case t2: (PNode l2 cs2)
    have "l = l2 \<and> addressed b cs = addressed b cs2"
    proof (rule node_bytes_inj)
      show "node_bytes_of l (addressed b cs) = node_bytes_of l2 (addressed b cs2)"
        using PNode.prems(1) unfolding t2 tree_data_node .
      show "node_fits (addressed b cs)" using PNode.prems(3) by (rule node_fits_addressed)
      show "node_fits (addressed b cs2)" using PNode.prems(5) unfolding t2 by (rule node_fits_addressed)
    qed (auto simp: tree_addr_def assms(1))
    then have eq: "l = l2" "addressed b cs = addressed b cs2" by auto
    have "cs = cs2"
    proof (rule nth_equalityI)
      show len: "length cs = length cs2" using eq(2) by (rule map_eq_imp_length_eq)
      fix i assume i: "i < length cs"
      obtain k t k2 t' where n: "cs ! i = (k, t)" "cs2 ! i = (k2, t')" by fastforce
      have in1: "(k, t) \<in> set cs" and in2: "(k2, t') \<in> set cs2" using i len n by (metis nth_mem)+
      have e: "k = k2" "tree_addr b t = tree_addr b t'"
        using arg_cong [OF eq(2), of "\<lambda>xs. xs ! i"] i len n by auto
      have sub: "tree_chunks b t \<union> tree_chunks b t' \<subseteq> tree_chunks b (PNode l cs) \<union> tree_chunks b t2"
        using in1 in2 t2 by fastforce
      have "tree_data b t \<in> tree_chunks b t" "tree_data b t' \<in> tree_chunks b t'" by (cases t; simp; fail | cases t'; simp; fail)+
      then have "tree_data b t = tree_data b t'"
        using e(2) sub inj_onD [OF PNode.prems(2)] unfolding tree_addr_def by blast
      moreover have "inj_on b (tree_chunks b t \<union> tree_chunks b t')" by (rule inj_on_subset [OF PNode.prems(2) sub])
      ultimately have "t = t'"
        using PNode.IH [of "(k, t)" t t'] in1 in2 PNode.prems(3-) t2 by fastforce
      then show "cs ! i = cs2 ! i" using n e(1) by simp
    qed
    with eq(1) t2 show ?thesis by simp
  qed
qed

section \<open>The in-memory store\<close>

definition mem_ok :: "memory_chunks \<Rightarrow> bool" where
  "mem_ok st \<longleftrightarrow> \<not> mc_poisoned st \<and> om_inv (mc_chunks st)"

definition mem_chunks :: "memory_chunks \<Rightarrow> bytes \<Rightarrow> chunk option" where
  "mem_chunks st = om_get (mc_chunks st)"

interpretation mem: lawful_chunk_store memory_chunk_store mem_chunks mem_ok
  by unfold_locales
    (auto simp: memory_chunk_store_def mem_get_chunk_def mem_has_chunk_def mem_put_chunk_def mem_ok_def mem_chunks_def)

text \<open>What a deletion leaves, and what an interrupted lock does: the operations outside the tree's contract.\<close>

lemma mem_delete:
  assumes "mem_ok st"
  shows "\<exists>st'. mem_delete_chunk a st = (st', Inr ()) \<and> mem_ok st' \<and> mem_chunks st' = (mem_chunks st)(a := None)"
  using assms by (auto simp: mem_delete_chunk_def mem_ok_def mem_chunks_def om_get_remove)

text \<open>C30 Building a prolly tree always ends, whatever the chunk store answers: each level of internal nodes is
  shorter than the one below, because every group but the last has at least 32 members.
\<close>

theorem build_terminates: "\<exists>st' r. build_prolly_tree ops blake3 derive_key pattern_width kvs st = Some (st', r)"
  using build_ends [of ops blake3 derive_key pattern_width kvs st] by auto

text \<open>C13 History independence: building from the same map gives the same root from any two in-memory stores,
  whatever they already hold, and adds exactly the chunks of the reference tree of that map: every chunk
  already held stays, and a second build over the result adds nothing. The hypotheses are that the keys and
  values are shorter than 4 GiB and that the hash does not collide on the data at hand.
\<close>

theorem build_canonical:
  assumes "kvs_fit kvs" "om_inv kvs" "inj_on blake3 U" "tree_chunks blake3 (prolly_tree derive_key pw kvs) \<subseteq> U"
    and "mem_ok st1" "held blake3 U (mem_chunks st1)" "mem_ok st2" "held blake3 U (mem_chunks st2)"
  shows "\<exists>st1' st2' root.
    build_prolly_tree memory_chunk_store blake3 derive_key pw kvs st1 = Some (st1', Inr root) \<and>
    build_prolly_tree memory_chunk_store blake3 derive_key pw kvs st2 = Some (st2', Inr root) \<and>
    root = tree_addr blake3 (prolly_tree derive_key pw kvs) \<and>
    stores blake3 (tree_chunks blake3 (prolly_tree derive_key pw kvs)) (mem_chunks st1) (mem_chunks st1') \<and>
    build_prolly_tree memory_chunk_store blake3 derive_key pw kvs st1' = Some (st1', Inr root)"
proof -
  let ?t = "prolly_tree derive_key pw kvs"
  note build = mem.build_stores [OF assms(3,1,2,4)]
  obtain st1' where 1: "build_prolly_tree memory_chunk_store blake3 derive_key pw kvs st1 = Some (st1', Inr (tree_addr blake3 ?t))"
    "mem_ok st1'" "stores blake3 (tree_chunks blake3 ?t) (mem_chunks st1) (mem_chunks st1')" using build [OF assms(5,6)] by blast
  obtain st2' where 2: "build_prolly_tree memory_chunk_store blake3 derive_key pw kvs st2 = Some (st2', Inr (tree_addr blake3 ?t))"
    using build [OF assms(7,8)] by blast
  have "held blake3 U (mem_chunks st1')" by (rule stores_held [OF 1(3) assms(6,4)])
  then obtain st3 where 3: "build_prolly_tree memory_chunk_store blake3 derive_key pw kvs st1' = Some (st3, Inr (tree_addr blake3 ?t))"
    "mem_ok st3" "stores blake3 (tree_chunks blake3 ?t) (mem_chunks st1') (mem_chunks st3)" using build [OF 1(2)] by blast
  have "mem_chunks st3 = mem_chunks st1'"
    by (rule stores_determined [OF 3(3)]) (use 1(3) in \<open>auto simp: stores_def\<close>)
  then have "st3 = st1'" using 1(2) 3(2) by (auto simp: mem_ok_def mem_chunks_def fun_eq_iff intro!: memory_chunks.equality om_ext)
  with 1 2 3(1) show ?thesis by blast
qed

text \<open>C14 A prolly tree that was built is read back: with fuel for its height, both readers return exactly the
  key-value pairs it was built from, in order, from the store the build left.
\<close>

theorem build_read_roundtrip:
  assumes "kvs_fit kvs" "om_inv kvs" "inj_on blake3 U" "tree_chunks blake3 (prolly_tree derive_key pw kvs) \<subseteq> U"
    and "mem_ok st" "held blake3 U (mem_chunks st)" "\<And>x. length (blake3 x) = 32"
    and "tree_height (prolly_tree derive_key pw kvs) \<le> fuel"
  shows "\<exists>st' root. build_prolly_tree memory_chunk_store blake3 derive_key pw kvs st = Some (st', Inr root) \<and>
    read_prolly_tree fuel memory_chunk_store st' root = Some (Inr kvs) \<and>
    read_prolly_tree_vec fuel memory_chunk_store st' root = Some (Inr kvs)"
proof -
  let ?t = "prolly_tree derive_key pw kvs"
  obtain st' where st': "build_prolly_tree memory_chunk_store blake3 derive_key pw kvs st = Some (st', Inr (tree_addr blake3 ?t))"
    "mem_ok st'" "stores blake3 (tree_chunks blake3 ?t) (mem_chunks st) (mem_chunks st')"
    using mem.build_stores [OF assms(3,1,2,4,5,6)] by blast
  have "stored blake3 (tree_chunks blake3 ?t) (mem_chunks st')" using st'(3) by (simp add: stores_def)
  note walk = mem.walk_reads [OF st'(2) assms(7) this _ _ assms(8)] and fits = prolly_tree_fits [OF assms(1,2), of derive_key pw]
  have "read_prolly_tree_vec fuel memory_chunk_store st' (tree_addr blake3 ?t) = Some (Inr kvs)"
    by (simp add: walk fits read_prolly_tree_vec_def read_subtree_vec_def fold_append concat_leaf_lists prolly_tree_entries)
  moreover have "read_prolly_tree fuel memory_chunk_store st' (tree_addr blake3 ?t) = Some (Inr kvs)"
    using fold_om_insert_sorted [of "[]" kvs] assms(2)
    by (simp add: walk fits read_prolly_tree_def read_subtree_def fold_fold_concat concat_leaf_lists prolly_tree_entries om_inv_def)
  ultimately show ?thesis using st'(1) by blast
qed

text \<open>Two maps whose trees have the same root address are equal, if the hash does not collide on the chunks of
  the two trees: comparing roots compares contents.
\<close>

theorem root_identifies_contents:
  assumes "kvs_fit kvs1" "om_inv kvs1" "kvs_fit kvs2" "om_inv kvs2" "\<And>x. length (blake3 x) = 32"
    and "inj_on blake3 (tree_chunks blake3 (prolly_tree derive_key pw kvs1) \<union> tree_chunks blake3 (prolly_tree derive_key pw kvs2))"
  shows "tree_addr blake3 (prolly_tree derive_key pw kvs1) = tree_addr blake3 (prolly_tree derive_key pw kvs2) \<longleftrightarrow> kvs1 = kvs2"
proof
  let ?t1 = "prolly_tree derive_key pw kvs1" and ?t2 = "prolly_tree derive_key pw kvs2"
  assume "tree_addr blake3 ?t1 = tree_addr blake3 ?t2"
  moreover have "tree_data blake3 ?t1 \<in> tree_chunks blake3 ?t1" "tree_data blake3 ?t2 \<in> tree_chunks blake3 ?t2"
    by (cases ?t1; simp; fail | cases ?t2; simp; fail)+
  ultimately have "tree_data blake3 ?t1 = tree_data blake3 ?t2" using assms(6) unfolding tree_addr_def by (meson UnI1 UnI2 inj_onD)
  then have "?t1 = ?t2"
    using tree_data_inj [OF assms(5) _ assms(6)] prolly_tree_fits [OF assms(1,2)] prolly_tree_fits [OF assms(3,4)] by blast
  then show "kvs1 = kvs2" by (metis prolly_tree_entries)
qed simp

section \<open>A two-level tree\<close>

text \<open>33 entries with a cut after every 32: two leaves under a node. The hash keeps the first 31 bytes.\<close>

definition demo_hash :: "bytes \<Rightarrow> bytes" where
  "demo_hash d = 9 # take 31 (d @ replicate 31 0)"

definition demo_derive :: "bytes \<Rightarrow> bytes" where
  "demo_derive d = d @ replicate 31 0"

definition demo_kvs :: "(bytes, bytes) omap" where
  "demo_kvs = map (\<lambda>i. ([of_nat i], [7])) [0..<33]"

lemma demo_hash_length [simp]: "length (demo_hash d) = 32"
  by (simp add: demo_hash_def)

lemma demo_kvs_fit: "kvs_fit demo_kvs" "om_inv demo_kvs"
proof -
  show "kvs_fit demo_kvs" by (auto simp: kvs_fit_def demo_kvs_def u32_max_def)
  show "om_inv demo_kvs" by code_simp
qed

lemma demo_no_collision: "inj_on demo_hash (insert [9] (tree_chunks demo_hash (prolly_tree demo_derive 0 demo_kvs)))"
  unfolding inj_on_def by code_simp

lemma demo_height: "tree_height (prolly_tree demo_derive 0 demo_kvs) = 2"
  by code_simp

lemma demo_store: "mem_ok memory_chunks_new" "held demo_hash U (mem_chunks memory_chunks_new)"
  by (simp_all add: mem_ok_def mem_chunks_def held_def memory_chunks_new_def)

text \<open>A store that already holds a chunk of something else.\<close>

definition demo_other :: memory_chunks where
  "demo_other = \<lparr>mc_chunks = [(demo_hash [9], chunk_from_bytes demo_hash [9])], mc_poisoned = False\<rparr>"

lemma demo_other_store: "mem_ok demo_other" "[9] \<in> U \<Longrightarrow> held demo_hash U (mem_chunks demo_other)"
  by (auto simp: mem_ok_def mem_chunks_def held_def demo_other_def om_inv_def chunk_from_bytes_def split: if_splits)

theorem build_canonical_witness:
  "\<exists>st1' st2' root.
    build_prolly_tree memory_chunk_store demo_hash demo_derive 0 demo_kvs memory_chunks_new = Some (st1', Inr root) \<and>
    build_prolly_tree memory_chunk_store demo_hash demo_derive 0 demo_kvs demo_other = Some (st2', Inr root)"
  using build_canonical [OF demo_kvs_fit demo_no_collision subset_insertI demo_store demo_other_store(1) demo_other_store(2)]
  by blast

theorem build_read_roundtrip_witness:
  "\<exists>st' root. build_prolly_tree memory_chunk_store demo_hash demo_derive 0 demo_kvs demo_other = Some (st', Inr root) \<and>
    read_prolly_tree 2 memory_chunk_store st' root = Some (Inr demo_kvs) \<and>
    read_prolly_tree_vec 2 memory_chunk_store st' root = Some (Inr demo_kvs)"
  using build_read_roundtrip [OF demo_kvs_fit demo_no_collision subset_insertI demo_other_store demo_hash_length, of 2] demo_height
  by simp

theorem root_identifies_contents_witness:
  "tree_addr demo_hash (prolly_tree demo_derive 0 demo_kvs) \<noteq> tree_addr demo_hash (prolly_tree demo_derive 0 [([1], [2])])"
proof -
  have "kvs_fit [([1], [2])]" "om_inv [([1 :: u8], [2 :: u8])]" by (simp_all add: kvs_fit_def om_inv_def u32_max_def)
  moreover have "inj_on demo_hash (tree_chunks demo_hash (prolly_tree demo_derive 0 demo_kvs) \<union>
      tree_chunks demo_hash (prolly_tree demo_derive 0 [([1], [2])]))"
    unfolding inj_on_def by code_simp
  moreover have "demo_kvs \<noteq> [([1], [2])]" by code_simp
  ultimately show ?thesis using root_identifies_contents [of demo_kvs "[([1], [2])]" demo_hash demo_derive 0] demo_kvs_fit by simp
qed

end
