(* ===== verification/Prolly_Diff.thy ===== *)
theory Prolly_Diff
  imports Prolly_Correct "HOL-Library.Multiset"
begin

text \<open>
  The diff of two prolly trees (\<open>ferratomic-core/src/prolly/diff.rs\<close>): a lazy depth-first walk of both trees
  that skips subtrees with equal addresses, and the pass that cancels the pairs which the walk reports for
  entries that only moved to another chunk. The main result is that \<open>diff_exact\<close> ends and returns exactly the
  symmetric difference of the two maps.

  The stack of the walk is a list with its top first. \<open>advance\<close> and \<open>collect\<close> are loops that might not end, so
  they are partial functions whose value \<open>None\<close> is divergence.
\<close>

section \<open>Entries\<close>

datatype diff_entry = LeftOnly bytes bytes | RightOnly bytes bytes | Modified bytes bytes bytes

datatype diff_side = LeftSide | RightSide

datatype diff_stack_entry = Compare bytes bytes | LeftSub bytes | RightSub bytes

record diff_iterator =
  di_stack :: "diff_stack_entry list"
  di_pending :: "diff_entry list"

definition chunk_tag :: "chunk \<Rightarrow> ferra_error + u8" where
  "chunk_tag chunk =
     (case ck_data chunk of
        [] \<Rightarrow> Inl EmptyChunk
      | tag # _ \<Rightarrow> if tag \<noteq> 0x01 \<and> tag \<noteq> 0x02 then Inl (UnknownCodecTag tag) else Inr tag)"

fun diff_sorted_entries :: "(bytes \<times> bytes) list \<Rightarrow> (bytes \<times> bytes) list \<Rightarrow> diff_entry list \<Rightarrow> diff_entry list" where
  "diff_sorted_entries ((lk, lv) # l) ((rk, rv) # r) out =
     (if lk < rk then diff_sorted_entries l ((rk, rv) # r) (out @ [LeftOnly lk lv])
      else if rk < lk then diff_sorted_entries ((lk, lv) # l) r (out @ [RightOnly rk rv])
      else diff_sorted_entries l r (if lv \<noteq> rv then out @ [Modified lk lv rv] else out))"
| "diff_sorted_entries ((lk, lv) # l) [] out = diff_sorted_entries l [] (out @ [LeftOnly lk lv])"
| "diff_sorted_entries [] ((rk, rv) # r) out = diff_sorted_entries [] r (out @ [RightOnly rk rv])"
| "diff_sorted_entries [] [] out = out"

fun merge_join_children :: "(bytes \<times> bytes) list \<Rightarrow> (bytes \<times> bytes) list \<Rightarrow> diff_stack_entry list \<Rightarrow> diff_stack_entry list" where
  "merge_join_children ((lk, lh) # l) ((rk, rh) # r) stack =
     (if lk < rk then merge_join_children l ((rk, rh) # r) (LeftSub lh # stack)
      else if rk < lk then merge_join_children ((lk, lh) # l) r (RightSub rh # stack)
      else merge_join_children l r (if lh \<noteq> rh then Compare lh rh # stack else stack))"
| "merge_join_children ((lk, lh) # l) [] stack = merge_join_children l [] (LeftSub lh # stack)"
| "merge_join_children [] ((rk, rh) # r) stack = merge_join_children [] r (RightSub rh # stack)"
| "merge_join_children [] [] stack = stack"

section \<open>The walk\<close>

definition one_sided :: "diff_side \<Rightarrow> bytes \<times> bytes \<Rightarrow> diff_entry" where
  "one_sided side = (\<lambda>(k, v). case side of LeftSide \<Rightarrow> LeftOnly k v | RightSide \<Rightarrow> RightOnly k v)"

definition one_sided_sub :: "diff_side \<Rightarrow> bytes \<Rightarrow> diff_stack_entry" where
  "one_sided_sub side child = (case side of LeftSide \<Rightarrow> LeftSub child | RightSide \<Rightarrow> RightSub child)"

text \<open>Appending the entries of a leaf to the pending queue, and pushing the children of a node, last child first.\<close>

definition push_entries :: "diff_side \<Rightarrow> chunk \<Rightarrow> diff_iterator \<Rightarrow> diff_iterator \<times> (ferra_error + unit)" where
  "push_entries side chunk it =
     (case deserialize_leaf_chunk (ck_data chunk) of
        Inl e \<Rightarrow> (it, Inl e)
      | Inr entries \<Rightarrow> (it\<lparr>di_pending := di_pending it @ map (one_sided side) entries\<rparr>, Inr ()))"

definition push_children :: "diff_side \<Rightarrow> chunk \<Rightarrow> diff_iterator \<Rightarrow> diff_iterator \<times> (ferra_error + unit)" where
  "push_children side chunk it =
     (case decode_child_addrs chunk of
        Inl e \<Rightarrow> (it, Inl e)
      | Inr children \<Rightarrow> (it\<lparr>di_stack := fold (\<lambda>child stack. one_sided_sub side child # stack) (rev children) (di_stack it)\<rparr>, Inr ()))"

definition enumerate_subtree ::
  "'s chunk_store \<Rightarrow> 's \<Rightarrow> bytes \<Rightarrow> diff_side \<Rightarrow> diff_iterator \<Rightarrow> diff_iterator \<times> (ferra_error + unit)" where
  "enumerate_subtree ops st hash side it =
     (case bind_result (load_chunk ops ''INV-FERR-047'' hash st) (\<lambda>chunk. bind_result (chunk_tag chunk) (\<lambda>tag. Inr (chunk, tag))) of
        Inl e \<Rightarrow> (it, Inl e)
      | Inr (chunk, tag) \<Rightarrow> if tag = 0x01 then push_entries side chunk it else push_children side chunk it)"

definition compare_chunks ::
  "'s chunk_store \<Rightarrow> 's \<Rightarrow> bytes \<Rightarrow> bytes \<Rightarrow> diff_iterator \<Rightarrow> diff_iterator \<times> (ferra_error + unit)" where
  "compare_chunks ops st left_hash right_hash it =
     (case bind_result (load_chunk ops ''INV-FERR-047'' left_hash st) (\<lambda>lc.
           bind_result (load_chunk ops ''INV-FERR-047'' right_hash st) (\<lambda>rc.
           bind_result (chunk_tag lc) (\<lambda>lt. bind_result (chunk_tag rc) (\<lambda>rt. Inr (lc, rc, lt = 0x01, rt = 0x01))))) of
        Inl e \<Rightarrow> (it, Inl e)
      | Inr (lc, rc, True, True) \<Rightarrow>
          (case bind_result (deserialize_leaf_chunk (ck_data lc)) (\<lambda>le.
                bind_result (deserialize_leaf_chunk (ck_data rc)) (\<lambda>re. Inr (le, re))) of
             Inl e \<Rightarrow> (it, Inl e)
           | Inr (le, re) \<Rightarrow> (it\<lparr>di_pending := diff_sorted_entries le re (di_pending it)\<rparr>, Inr ()))
      | Inr (lc, rc, False, False) \<Rightarrow>
          (case bind_result (decode_internal_children lc) (\<lambda>lcs.
                bind_result (decode_internal_children rc) (\<lambda>rcs. Inr (lcs, rcs))) of
             Inl e \<Rightarrow> (it, Inl e)
           | Inr (lcs, rcs) \<Rightarrow> (it\<lparr>di_stack := merge_join_children lcs rcs (di_stack it)\<rparr>, Inr ()))
      | Inr (lc, rc, True, False) \<Rightarrow>
          (case push_entries LeftSide lc it of
             (it, Inl e) \<Rightarrow> (it, Inl e)
           | (it, Inr _) \<Rightarrow> push_children RightSide rc it)
      | Inr (lc, rc, False, True) \<Rightarrow>
          (case push_entries RightSide rc it of
             (it, Inl e) \<Rightarrow> (it, Inl e)
           | (it, Inr _) \<Rightarrow> push_children LeftSide lc it))"

text \<open>One turn of the loop with an empty queue: the popped stack entry is worked off.\<close>

definition diff_turn :: "'s chunk_store \<Rightarrow> 's \<Rightarrow> diff_stack_entry \<Rightarrow> diff_iterator \<Rightarrow> diff_iterator \<times> (ferra_error + unit)" where
  "diff_turn ops st entry it =
     (case entry of
        LeftSub hash \<Rightarrow> enumerate_subtree ops st hash LeftSide it
      | RightSub hash \<Rightarrow> enumerate_subtree ops st hash RightSide it
      | Compare left_hash right_hash \<Rightarrow>
          if left_hash = right_hash then (it, Inr ()) else compare_chunks ops st left_hash right_hash it)"

partial_function (option) advance ::
  "'s chunk_store \<Rightarrow> 's \<Rightarrow> diff_iterator \<Rightarrow> (diff_iterator \<times> (ferra_error + diff_entry option)) option" where
  "advance ops st it =
     (case di_pending it of
        entry # pending \<Rightarrow> Some (it\<lparr>di_pending := pending\<rparr>, Inr (Some entry))
      | [] \<Rightarrow>
          (case di_stack it of
             [] \<Rightarrow> Some (it, Inr None)
           | entry # stack \<Rightarrow>
               (case diff_turn ops st entry (it\<lparr>di_stack := stack\<rparr>) of
                  (it, Inl e) \<Rightarrow> Some (it, Inl e)
                | (it, Inr _) \<Rightarrow> advance ops st it)))"

text \<open>Collecting the iterator into a vector; the first error ends it.\<close>

partial_function (option) collect_diff ::
  "'s chunk_store \<Rightarrow> 's \<Rightarrow> diff_entry list \<Rightarrow> diff_iterator \<Rightarrow> (ferra_error + diff_entry list) option" where
  "collect_diff ops st out it =
     (case advance ops st it of
        None \<Rightarrow> None
      | Some (it, Inl e) \<Rightarrow> Some (Inl e)
      | Some (it, Inr None) \<Rightarrow> Some (Inr out)
      | Some (it, Inr (Some entry)) \<Rightarrow> collect_diff ops st (out @ [entry]) it)"

definition diff :: "bytes \<Rightarrow> bytes \<Rightarrow> diff_iterator" where
  "diff root1 root2 =
     (if root1 = root2 then \<lparr>di_stack = [], di_pending = []\<rparr> else \<lparr>di_stack = [Compare root1 root2], di_pending = []\<rparr>)"

section \<open>Cancelling phantoms\<close>

fun merge_cancel_phantoms :: "(bytes \<times> bytes) list \<Rightarrow> (bytes \<times> bytes) list \<Rightarrow> diff_entry list \<Rightarrow> diff_entry list" where
  "merge_cancel_phantoms ((lk, lv) # left) ((rk, rv) # right) out =
     (if lk < rk then merge_cancel_phantoms left ((rk, rv) # right) (out @ [LeftOnly lk lv])
      else if rk < lk then merge_cancel_phantoms ((lk, lv) # left) right (out @ [RightOnly rk rv])
      else merge_cancel_phantoms left right (if lv \<noteq> rv then out @ [Modified lk lv rv] else out))"
| "merge_cancel_phantoms left right out = out @ map (\<lambda>(k, v). LeftOnly k v) left @ map (\<lambda>(k, v). RightOnly k v) right"

fun partition_entries :: "diff_entry list \<Rightarrow> (bytes \<times> bytes) list \<times> (bytes \<times> bytes) list \<times> diff_entry list" where
  "partition_entries [] = ([], [], [])"
| "partition_entries (entry # entries) =
     (let (left, right, result) = partition_entries entries
      in case entry of
           LeftOnly key val \<Rightarrow> ((key, val) # left, right, result)
         | RightOnly key val \<Rightarrow> (left, (key, val) # right, result)
         | Modified _ _ _ \<Rightarrow> (left, right, entry # result))"

definition deduplicate_phantom_entries :: "diff_entry list \<Rightarrow> diff_entry list" where
  "deduplicate_phantom_entries entries =
     (let (left, right, result) = partition_entries entries
      in merge_cancel_phantoms (sort_key fst left) (sort_key fst right) result)"

definition diff_exact :: "'s chunk_store \<Rightarrow> 's \<Rightarrow> bytes \<Rightarrow> bytes \<Rightarrow> (ferra_error + diff_entry list) option" where
  "diff_exact ops st root1 root2 =
     map_option (\<lambda>r. bind_result r (\<lambda>raw. Inr (deduplicate_phantom_entries raw))) (collect_diff ops st [] (diff root1 root2))"

section \<open>What the entries report of each side\<close>

fun lefts :: "diff_entry \<Rightarrow> (bytes \<times> bytes) multiset" where
  "lefts (LeftOnly k v) = {#(k, v)#}"
| "lefts (RightOnly k v) = {#}"
| "lefts (Modified k l r) = {#(k, l)#}"

fun rights :: "diff_entry \<Rightarrow> (bytes \<times> bytes) multiset" where
  "rights (LeftOnly k v) = {#}"
| "rights (RightOnly k v) = {#(k, v)#}"
| "rights (Modified k l r) = {#(k, r)#}"

fun proper :: "diff_entry \<Rightarrow> bool" where
  "proper (Modified k l r) \<longleftrightarrow> l \<noteq> r"
| "proper _ \<longleftrightarrow> True"

abbreviation all_lefts :: "diff_entry list \<Rightarrow> (bytes \<times> bytes) multiset" where
  "all_lefts es \<equiv> sum_list (map lefts es)"

abbreviation all_rights :: "diff_entry list \<Rightarrow> (bytes \<times> bytes) multiset" where
  "all_rights es \<equiv> sum_list (map rights es)"

text \<open>Both sides report all of \<open>L\<close> and \<open>R\<close> but a common part.\<close>

definition reports :: "diff_entry list \<Rightarrow> (bytes \<times> bytes) multiset \<Rightarrow> (bytes \<times> bytes) multiset \<Rightarrow> bool" where
  "reports es L R \<longleftrightarrow> (\<exists>S. L = all_lefts es + S \<and> R = all_rights es + S) \<and> (\<forall>e \<in> set es. proper e)"

lemma reports_empty: "reports [] S S"
  by (simp add: reports_def)

lemma reports_append: "reports es L R \<Longrightarrow> reports fs L' R' \<Longrightarrow> reports (es @ fs) (L + L') (R + R')"
  unfolding reports_def by (auto simp: union_ac)

lemma one_sided_entries [simp]:
  "lefts (one_sided LeftSide x) = {#x#}" "rights (one_sided LeftSide x) = {#}"
  "lefts (one_sided RightSide x) = {#}" "rights (one_sided RightSide x) = {#x#}" "proper (one_sided side x)"
  by (cases x; cases side; simp add: one_sided_def)+

lemma one_sided_reports:
  "reports (map (one_sided LeftSide) es) (mset es) {#}" "reports (map (one_sided RightSide) es) {#} (mset es)"
proof -
  have "sum_list (map (\<lambda>x. {#x#}) es) = mset es" by (induction es) auto
  then show "reports (map (one_sided LeftSide) es) (mset es) {#}" "reports (map (one_sided RightSide) es) {#} (mset es)"
    by (auto simp: reports_def comp_def)
qed

lemma diff_sorted_reports: "\<exists>es. diff_sorted_entries l r out = out @ es \<and> reports es (mset l) (mset r)"
proof (induction l r out rule: diff_sorted_entries.induct)
  case (1 lk lv l rk rv r out)
  consider "lk < rk" | "rk < lk" | "lk = rk" "lv \<noteq> rv" | "lk = rk" "lv = rv" by (meson linorder_neqE)
  then show ?case
  proof cases
    case a: 1
    obtain es where es: "diff_sorted_entries l ((rk, rv) # r) (out @ [LeftOnly lk lv]) = (out @ [LeftOnly lk lv]) @ es"
      "reports es (mset l) (mset ((rk, rv) # r))" using 1(1) [OF a] by blast
    have "reports [LeftOnly lk lv] {#(lk, lv)#} {#}" by (simp add: reports_def)
    from reports_append [OF this es(2)] es(1) a show ?thesis by (intro exI [of _ "LeftOnly lk lv # es"]) simp
  next
    case a: 2
    then have not: "\<not> lk < rk" by simp
    with a obtain es where es: "diff_sorted_entries ((lk, lv) # l) r (out @ [RightOnly rk rv]) = (out @ [RightOnly rk rv]) @ es"
      "reports es (mset ((lk, lv) # l)) (mset r)" using 1(2) by blast
    have "reports [RightOnly rk rv] {#} {#(rk, rv)#}" by (simp add: reports_def)
    from reports_append [OF this es(2)] es(1) a not show ?thesis by (intro exI [of _ "RightOnly rk rv # es"]) simp
  next
    case a: 3
    then obtain es where es: "diff_sorted_entries l r (out @ [Modified lk lv rv]) = (out @ [Modified lk lv rv]) @ es"
      "reports es (mset l) (mset r)" using 1(3) by fastforce
    have "reports [Modified lk lv rv] {#(lk, lv)#} {#(rk, rv)#}" using a by (simp add: reports_def)
    from reports_append [OF this es(2)] es(1) a show ?thesis by (intro exI [of _ "Modified lk lv rv # es"]) simp
  next
    case a: 4
    then obtain es where es: "diff_sorted_entries l r out = out @ es" "reports es (mset l) (mset r)" using 1(3) by fastforce
    from reports_append [OF reports_empty [of "{#(lk, lv)#}"] es(2)] es(1) a show ?thesis by (intro exI [of _ es]) simp
  qed
next
  case (2 lk lv l out)
  then obtain es where es: "diff_sorted_entries l [] (out @ [LeftOnly lk lv]) = (out @ [LeftOnly lk lv]) @ es" "reports es (mset l) (mset [])" by blast
  have "reports [LeftOnly lk lv] {#(lk, lv)#} {#}" by (simp add: reports_def)
  from reports_append [OF this es(2)] es(1) show ?case by (intro exI [of _ "LeftOnly lk lv # es"]) simp
next
  case (3 rk rv r out)
  then obtain es where es: "diff_sorted_entries [] r (out @ [RightOnly rk rv]) = (out @ [RightOnly rk rv]) @ es" "reports es (mset []) (mset r)" by blast
  have "reports [RightOnly rk rv] {#} {#(rk, rv)#}" by (simp add: reports_def)
  from reports_append [OF this es(2)] es(1) show ?case by (intro exI [of _ "RightOnly rk rv # es"]) simp
qed (auto intro: reports_empty)

section \<open>The walk on the trees\<close>

datatype walk_entry = WCompare ptree ptree | WLeft ptree | WRight ptree

fun stack_entry :: "(bytes \<Rightarrow> bytes) \<Rightarrow> walk_entry \<Rightarrow> diff_stack_entry" where
  "stack_entry b (WCompare t1 t2) = Compare (tree_addr b t1) (tree_addr b t2)"
| "stack_entry b (WLeft t) = LeftSub (tree_addr b t)"
| "stack_entry b (WRight t) = RightSub (tree_addr b t)"

fun left_entries :: "walk_entry \<Rightarrow> (bytes \<times> bytes) multiset" where
  "left_entries (WCompare t1 t2) = mset (tree_entries t1)"
| "left_entries (WLeft t) = mset (tree_entries t)"
| "left_entries (WRight t) = {#}"

fun right_entries :: "walk_entry \<Rightarrow> (bytes \<times> bytes) multiset" where
  "right_entries (WCompare t1 t2) = mset (tree_entries t2)"
| "right_entries (WLeft t) = {#}"
| "right_entries (WRight t) = mset (tree_entries t)"

fun walk_trees :: "walk_entry \<Rightarrow> ptree set" where
  "walk_trees (WCompare t1 t2) = {t1, t2}"
| "walk_trees (WLeft t) = {t}"
| "walk_trees (WRight t) = {t}"

text \<open>The work a walk has before it.\<close>

fun tree_work :: "ptree \<Rightarrow> nat" where
  "tree_work (PLeaf es) = Suc (length es)"
| "tree_work (PNode l cs) = Suc (sum_list (map (\<lambda>(_, t). tree_work t) cs))"

fun entry_work :: "walk_entry \<Rightarrow> nat" where
  "entry_work (WCompare t1 t2) = tree_work t1 + tree_work t2"
| "entry_work (WLeft t) = tree_work t"
| "entry_work (WRight t) = tree_work t"

abbreviation walk_work :: "walk_entry list \<Rightarrow> nat" where
  "walk_work ws \<equiv> sum_list (map entry_work ws)"

fun merge_children :: "(bytes \<Rightarrow> bytes) \<Rightarrow> (bytes \<times> ptree) list \<Rightarrow> (bytes \<times> ptree) list \<Rightarrow> walk_entry list" where
  "merge_children b ((lk, t1) # l) ((rk, t2) # r) =
     (if lk < rk then WLeft t1 # merge_children b l ((rk, t2) # r)
      else if rk < lk then WRight t2 # merge_children b ((lk, t1) # l) r
      else (if tree_addr b t1 \<noteq> tree_addr b t2 then [WCompare t1 t2] else []) @ merge_children b l r)"
| "merge_children b l r = map (\<lambda>(_, t). WLeft t) l @ map (\<lambda>(_, t). WRight t) r"

lemma merge_children_left: "merge_children b l [] = map (\<lambda>(_, t). WLeft t) l"
  by (cases l) auto

lemma merge_children_right: "merge_children b [] r = map (\<lambda>(_, t). WRight t) r"
  by (cases r) auto

lemma merge_join_addressed:
  "merge_join_children (addressed b l) (addressed b r) stack = rev (map (stack_entry b) (merge_children b l r)) @ stack"
proof (induction "addressed b l" "addressed b r" stack arbitrary: l r rule: merge_join_children.induct)
  case (1 lk lh l' rk rh r' stack)
  then obtain t1 l2 t2 r2 where c: "l = (lk, t1) # l2" "lh = tree_addr b t1" "l' = addressed b l2"
    "r = (rk, t2) # r2" "rh = tree_addr b t2" "r' = addressed b r2" by (cases l; cases r) auto
  show ?case using 1(1) [of l2 r] 1(2) [of l r2] 1(3) [of l2 r2] c by auto
next
  case (2 lk lh l' stack)
  then obtain t1 l2 where c: "l = (lk, t1) # l2" "lh = tree_addr b t1" "l' = addressed b l2" by (cases l) auto
  show ?case using 2(1) [of l2 "[]"] 2(3) c by (auto simp: merge_children_left)
next
  case (3 rk rh r' stack)
  then obtain t2 r2 where c: "r = (rk, t2) # r2" "rh = tree_addr b t2" "r' = addressed b r2" by (cases r) auto
  show ?case using 3(1) [of "[]" r2] 3(2) c by (auto simp: merge_children_right)
qed auto

definition good_tree :: "(bytes \<Rightarrow> bytes) \<Rightarrow> bytes set \<Rightarrow> ptree \<Rightarrow> bool" where
  "good_tree b U t \<longleftrightarrow> tree_fits t \<and> leaves_sorted t \<and> tree_chunks b t \<subseteq> U"

lemma good_children: "good_tree b U (PNode l cs) \<Longrightarrow> (k, t) \<in> set cs \<Longrightarrow> good_tree b U t"
  by (fastforce simp: good_tree_def)

lemma root_chunk: "tree_data b t \<in> tree_chunks b t"
  by (cases t) auto

lemma same_addr_same_tree:
  assumes "\<And>x. length (b x) = 32" "inj_on b U" "good_tree b U t1" "good_tree b U t2" "tree_addr b t1 = tree_addr b t2"
  shows "t1 = t2"
proof (rule tree_data_inj [OF assms(1)])
  have "tree_data b t1 \<in> U" "tree_data b t2 \<in> U" using assms(3,4) root_chunk unfolding good_tree_def by blast+
  then show "tree_data b t1 = tree_data b t2" using assms(2,5) unfolding tree_addr_def by (meson inj_onD)
  show "inj_on b (tree_chunks b t1 \<union> tree_chunks b t2)" by (rule inj_on_subset [OF assms(2)]) (use assms(3,4) in \<open>auto simp: good_tree_def\<close>)
qed (use assms(3,4) in \<open>auto simp: good_tree_def\<close>)

abbreviation forest_entries :: "(bytes \<times> ptree) list \<Rightarrow> (bytes \<times> bytes) multiset" where
  "forest_entries cs \<equiv> sum_list (map (\<lambda>(_, t). mset (tree_entries t)) cs)"

lemma tree_entries_node: "mset (tree_entries (PNode l cs)) = forest_entries cs"
  by (induction cs) auto

lemma walk_sums [simp]:
  "sum_list (map (\<lambda>x. left_entries (case x of (_, t) \<Rightarrow> WLeft t)) cs) = forest_entries cs"
  "sum_list (map (\<lambda>x. right_entries (case x of (_, t) \<Rightarrow> WLeft t)) cs) = {#}"
  "sum_list (map (\<lambda>x. left_entries (case x of (_, t) \<Rightarrow> WRight t)) cs) = {#}"
  "sum_list (map (\<lambda>x. right_entries (case x of (_, t) \<Rightarrow> WRight t)) cs) = forest_entries cs"
  "sum_list (map (\<lambda>x. entry_work (case x of (_, t) \<Rightarrow> WLeft t)) cs) = sum_list (map (\<lambda>(_, t). tree_work t) cs)"
  "sum_list (map (\<lambda>x. entry_work (case x of (_, t) \<Rightarrow> WRight t)) cs) = sum_list (map (\<lambda>(_, t). tree_work t) cs)"
  by (induction cs) auto

text \<open>Joining the children loses only subtrees that both sides share.\<close>

lemma merge_children_entries:
  assumes "\<And>x. length (b x) = 32" "inj_on b U" "\<forall>c \<in> set l \<union> set r. good_tree b U (snd c)"
  shows "\<exists>S. forest_entries l = sum_list (map left_entries (merge_children b l r)) + S \<and>
    forest_entries r = sum_list (map right_entries (merge_children b l r)) + S"
  using assms
proof (induction b l r rule: merge_children.induct)
  case (1 b lk t1 l rk t2 r)
  consider "lk < rk" | "rk < lk" "\<not> lk < rk" | "lk = rk" by (meson linorder_less_linear)
  then show ?case
  proof cases
    case a: 1
    with 1(1) [OF _ 1(4,5)] 1(6) show ?thesis by (auto simp: union_ac)
  next
    case a: 2
    with 1(2) [OF _ _ 1(4,5)] 1(6) show ?thesis by (auto simp: union_ac)
  next
    case a: 3
    then obtain S where S: "forest_entries l = sum_list (map left_entries (merge_children b l r)) + S"
      "forest_entries r = sum_list (map right_entries (merge_children b l r)) + S" using 1(3) [OF _ _ 1(4,5)] 1(6) by auto
    show ?thesis
    proof (cases "tree_addr b t1 = tree_addr b t2")
      case True
      then have "t1 = t2" using same_addr_same_tree [OF 1(4,5), of t1 t2] 1(6) by simp
      with a S True show ?thesis by (intro exI [of _ "mset (tree_entries t1) + S"]) (simp add: union_ac)
    next
      case False
      with a S show ?thesis by (intro exI [of _ S]) (simp add: union_ac)
    qed
  qed
qed (auto simp: comp_def)

lemma merge_children_work:
  "walk_work (merge_children b l r) \<le> sum_list (map (\<lambda>(_, t). tree_work t) l) + sum_list (map (\<lambda>(_, t). tree_work t) r)"
  by (induction b l r rule: merge_children.induct) (auto simp: comp_def)

lemma merge_children_trees: "w \<in> set (merge_children b l r) \<Longrightarrow> walk_trees w \<subseteq> snd ` (set l \<union> set r)"
  by (induction b l r rule: merge_children.induct) (force split: if_splits)+

lemma push_all: "fold (\<lambda>child stack. f child # stack) (rev children) stack = map f children @ stack"
  by (induction children arbitrary: stack) auto

section \<open>One turn of the walk\<close>

text \<open>
  What a turn makes of the popped entry: new stack entries and pending entries with less work, which account
  for both sides but a common part.
\<close>

definition turned ::
  "(bytes \<Rightarrow> bytes) \<Rightarrow> bytes set \<Rightarrow> walk_entry \<Rightarrow> walk_entry list \<Rightarrow> diff_entry list \<Rightarrow> bool" where
  "turned b U w ws p \<longleftrightarrow> walk_work ws + length p < entry_work w \<and> (\<forall>w \<in> set ws. \<forall>t \<in> walk_trees w. good_tree b U t) \<and>
     (\<forall>e \<in> set p. proper e) \<and>
     (\<exists>S. left_entries w = all_lefts p + sum_list (map left_entries ws) + S \<and>
          right_entries w = all_rights p + sum_list (map right_entries ws) + S)"

lemma turned_reports:
  assumes "turned b U w ws p" "reports es (sum_list (map left_entries ws) + L) (sum_list (map right_entries ws) + R)"
  shows "reports (p @ es) (left_entries w + L) (right_entries w + R)"
proof -
  obtain S where S: "left_entries w = all_lefts p + sum_list (map left_entries ws) + S"
    "right_entries w = all_rights p + sum_list (map right_entries ws) + S" using assms(1) by (auto simp: turned_def)
  obtain S' where S': "sum_list (map left_entries ws) + L = all_lefts es + S'" "sum_list (map right_entries ws) + R = all_rights es + S'"
    using assms(2) by (auto simp: reports_def)
  have "left_entries w + L = all_lefts (p @ es) + (S + S')" "right_entries w + R = all_rights (p @ es) + (S + S')"
    using S S' by (simp_all add: union_ac)
  moreover have "\<forall>e \<in> set (p @ es). proper e" using assms by (auto simp: turned_def reports_def)
  ultimately show ?thesis unfolding reports_def by blast
qed

context lawful_chunk_store
begin

lemma load_good:
  assumes "ok st" "stored b U (chunks st)" "good_tree b U t"
  shows "load_chunk ops invariant (tree_addr b t) st = Inr (chunk_from_bytes b (tree_data b t))"
proof -
  have "tree_data b t \<in> U" using assms(3) root_chunk by (auto simp: good_tree_def)
  then show ?thesis using assms(2) by (simp add: load_chunk_def get [OF assms(1)] stored_def tree_addr_def)
qed

end

lemma decode_leaf:
  assumes "good_tree b U (PLeaf es)" "c = chunk_from_bytes b (tree_data b (PLeaf es))"
  shows "chunk_tag c = Inr 1" "deserialize_leaf_chunk (ck_data c) = Inr es"
proof -
  have "ck_data c = leaf_bytes es" "leaf_fits es" "strict_sorted (map fst es)" using assms by (simp_all add: good_tree_def chunk_from_bytes_def)
  then show "chunk_tag c = Inr 1" "deserialize_leaf_chunk (ck_data c) = Inr es"
    by (simp_all add: chunk_tag_def deserialize_leaf_bytes) (simp add: leaf_bytes_def)
qed

lemma decode_node:
  assumes "\<And>x. length (b x) = 32" "good_tree b U (PNode l cs)" "c = chunk_from_bytes b (tree_data b (PNode l cs))"
  shows "chunk_tag c = Inr 2" "decode_internal_children c = Inr (addressed b cs)"
    "decode_child_addrs c = Inr (map (\<lambda>(_, t). tree_addr b t) cs)"
proof -
  have data: "ck_data c = node_bytes_of l (addressed b cs)" using assms(3) by (simp add: chunk_from_bytes_def tree_data_node del: tree_data.simps)
  have "node_fits (addressed b cs)" using assms(2) node_fits_addressed by (auto simp: good_tree_def)
  moreover have "\<forall>(sep, hash) \<in> set (addressed b cs). length hash = 32" using assms(1) by (auto simp: tree_addr_def)
  ultimately show "decode_internal_children c = Inr (addressed b cs)" "decode_child_addrs c = Inr (map (\<lambda>(_, t). tree_addr b t) cs)"
    using decode_node_bytes [OF _ _ data] by (simp_all add: comp_def case_prod_unfold)
  show "chunk_tag c = Inr 2" by (simp add: chunk_tag_def data node_bytes_of_def)
qed

lemma turned_leaf:
  "turned b U (WLeft (PLeaf es)) [] (map (one_sided LeftSide) es)" "turned b U (WRight (PLeaf es)) [] (map (one_sided RightSide) es)"
  using one_sided_reports [of es] by (auto simp: turned_def reports_def)

lemma turned_node:
  assumes "good_tree b U (PNode l cs)"
  shows "turned b U (WLeft (PNode l cs)) (map (\<lambda>(_, t). WLeft t) cs) []" "turned b U (WRight (PNode l cs)) (map (\<lambda>(_, t). WRight t) cs) []"
  unfolding turned_def using good_children [OF assms] tree_entries_node [of l cs]
  by (auto simp: comp_def simp del: tree_entries.simps)

lemma turned_leaves:
  assumes "reports p (mset es1) (mset es2)" "length p \<le> length es1 + length es2"
  shows "turned b U (WCompare (PLeaf es1) (PLeaf es2)) [] p"
  using assms by (auto simp: turned_def reports_def)

lemma turned_nodes:
  assumes "\<And>x. length (b x) = 32" "inj_on b U" "good_tree b U (PNode l1 cs1)" "good_tree b U (PNode l2 cs2)"
  shows "turned b U (WCompare (PNode l1 cs1) (PNode l2 cs2)) (rev (merge_children b cs1 cs2)) []"
proof -
  have good: "\<forall>c \<in> set cs1 \<union> set cs2. good_tree b U (snd c)" using good_children assms(3,4) by (metis Un_iff prod.collapse)
  obtain S where "forest_entries cs1 = sum_list (map left_entries (merge_children b cs1 cs2)) + S"
    "forest_entries cs2 = sum_list (map right_entries (merge_children b cs1 cs2)) + S"
    using merge_children_entries [OF assms(1,2) good] by blast
  then have "\<exists>S. left_entries (WCompare (PNode l1 cs1) (PNode l2 cs2)) = sum_list (map left_entries (rev (merge_children b cs1 cs2))) + S \<and>
      right_entries (WCompare (PNode l1 cs1) (PNode l2 cs2)) = sum_list (map right_entries (rev (merge_children b cs1 cs2))) + S"
    by (simp add: tree_entries_node rev_map [symmetric] del: tree_entries.simps)
  moreover have "walk_work (rev (merge_children b cs1 cs2)) < entry_work (WCompare (PNode l1 cs1) (PNode l2 cs2))"
    using merge_children_work [of b cs1 cs2] by (simp add: rev_map [symmetric])
  moreover have "\<forall>w \<in> set (rev (merge_children b cs1 cs2)). \<forall>t \<in> walk_trees w. good_tree b U t"
    using merge_children_trees good by fastforce
  ultimately show ?thesis unfolding turned_def by simp
qed

lemma turned_cross:
  assumes "good_tree b U (PNode l cs)"
  shows "turned b U (WCompare (PLeaf es) (PNode l cs)) (map (\<lambda>(_, t). WRight t) cs) (map (one_sided LeftSide) es)"
    "turned b U (WCompare (PNode l cs) (PLeaf es)) (map (\<lambda>(_, t). WLeft t) cs) (map (one_sided RightSide) es)"
proof -
  have sum: "sum_list (map (\<lambda>x. {#x#}) es) = mset es" by (induction es) auto
  show "turned b U (WCompare (PLeaf es) (PNode l cs)) (map (\<lambda>(_, t). WRight t) cs) (map (one_sided LeftSide) es)"
    "turned b U (WCompare (PNode l cs) (PLeaf es)) (map (\<lambda>(_, t). WLeft t) cs) (map (one_sided RightSide) es)"
    unfolding turned_def using good_children [OF assms] tree_entries_node [of l cs]
    by (auto simp: comp_def sum)
qed

lemma diff_sorted_length: "length (diff_sorted_entries l r out) \<le> length out + length l + length r"
  by (induction l r out rule: diff_sorted_entries.induct) auto

context lawful_chunk_store
begin

lemma diff_turn_walks:
  assumes "ok st" "\<And>x. length (b x) = 32" "inj_on b U" "stored b U (chunks st)" "\<forall>t \<in> walk_trees w. good_tree b U t"
  shows "\<exists>ws p. diff_turn ops st (stack_entry b w) \<lparr>di_stack = stack, di_pending = []\<rparr> =
      (\<lparr>di_stack = map (stack_entry b) ws @ stack, di_pending = p\<rparr>, Inr ()) \<and> turned b U w ws p"
proof -
  note load = load_good [OF assms(1,4)]
  note defs = diff_turn_def enumerate_subtree_def compare_chunks_def push_entries_def push_children_def push_all one_sided_sub_def
  note leaf = decode_leaf [OF _ refl] and node = decode_node [where b = b and U = U, OF assms(2) _ refl]
  show ?thesis
  proof (cases w)
    case (WLeft t)
    then have g: "good_tree b U t" using assms(5) by simp
    show ?thesis
    proof (cases t)
      case (PLeaf es)
      with g WLeft show ?thesis using turned_leaf(1) [of b U es] load [OF g] leaf [of b U es]
        by (intro exI [of _ "[]"] exI [of _ "map (one_sided LeftSide) es"]) (simp add: defs del: tree_data.simps)
    next
      case (PNode l cs)
      with g WLeft show ?thesis using turned_node(1) [of b U l cs] load [OF g] node [of l cs]
        by (intro exI [of _ "map (\<lambda>(_, t). WLeft t) cs"] exI [of _ "[]"]) (simp add: defs comp_def case_prod_unfold del: tree_data.simps)
    qed
  next
    case (WRight t)
    then have g: "good_tree b U t" using assms(5) by simp
    show ?thesis
    proof (cases t)
      case (PLeaf es)
      with g WRight show ?thesis using turned_leaf(2) [of b U es] load [OF g] leaf [of b U es]
        by (intro exI [of _ "[]"] exI [of _ "map (one_sided RightSide) es"]) (simp add: defs del: tree_data.simps)
    next
      case (PNode l cs)
      with g WRight show ?thesis using turned_node(2) [of b U l cs] load [OF g] node [of l cs]
        by (intro exI [of _ "map (\<lambda>(_, t). WRight t) cs"] exI [of _ "[]"]) (simp add: defs comp_def case_prod_unfold del: tree_data.simps)
    qed
  next
    case (WCompare t1 t2)
    then have g: "good_tree b U t1" "good_tree b U t2" using assms(5) by simp_all
    show ?thesis
    proof (cases "tree_addr b t1 = tree_addr b t2")
      case True
      then have "t1 = t2" using same_addr_same_tree [OF assms(2,3) g] by blast
      then have "turned b U w [] []" using WCompare by (cases t2) (auto simp: turned_def)
      with True WCompare show ?thesis by (intro exI [of _ "[]"]) (simp add: diff_turn_def)
    next
      case ne: False
      show ?thesis
      proof (cases t1; cases t2)
        fix es1 es2 assume t: "t1 = PLeaf es1" "t2 = PLeaf es2"
        obtain p where p: "diff_sorted_entries es1 es2 [] = p" "reports p (mset es1) (mset es2)"
          using diff_sorted_reports [of es1 es2 "[]"] by auto
        have "turned b U w [] p" using turned_leaves [OF p(2)] diff_sorted_length [of es1 es2 "[]"] p(1) t WCompare by simp
        then show ?thesis using ne WCompare load [OF g(1)] load [OF g(2)] leaf [of b U es1] leaf [of b U es2] g p(1) t
          by (intro exI [of _ "[]"] exI [of _ p]) (simp add: defs del: tree_data.simps)
      next
        fix l1 cs1 l2 cs2 assume t: "t1 = PNode l1 cs1" "t2 = PNode l2 cs2"
        show ?thesis using ne WCompare turned_nodes [OF assms(2,3), of l1 cs1 l2 cs2] load [OF g(1)] load [OF g(2)]
            node [of l1 cs1] node [of l2 cs2] g t merge_join_addressed [of b cs1 cs2 stack]
          by (intro exI [of _ "rev (merge_children b cs1 cs2)"] exI [of _ "[]"]) (simp add: defs rev_map del: tree_data.simps)
      next
        fix es l cs assume t: "t1 = PLeaf es" "t2 = PNode l cs"
        show ?thesis using ne WCompare turned_cross(1) [of b U l cs es] load [OF g(1)] load [OF g(2)] leaf [of b U es] node [of l cs] g t
          by (intro exI [of _ "map (\<lambda>(_, t). WRight t) cs"] exI [of _ "map (one_sided LeftSide) es"])
            (simp add: defs comp_def case_prod_unfold del: tree_data.simps)
      next
        fix l cs es assume t: "t1 = PNode l cs" "t2 = PLeaf es"
        show ?thesis using ne WCompare turned_cross(2) [of b U l cs es] load [OF g(1)] load [OF g(2)] leaf [of b U es] node [of l cs] g t
          by (intro exI [of _ "map (\<lambda>(_, t). WLeft t) cs"] exI [of _ "map (one_sided RightSide) es"])
            (simp add: defs comp_def case_prod_unfold del: tree_data.simps)
      qed
    qed
  qed
qed

end

section \<open>The raw diff\<close>

lemma advance_pending:
  "collect_diff ops st out \<lparr>di_stack = stack, di_pending = e # p\<rparr> = collect_diff ops st (out @ [e]) \<lparr>di_stack = stack, di_pending = p\<rparr>"
  by (subst collect_diff.simps, subst advance.simps) simp

lemma advance_done: "collect_diff ops st out \<lparr>di_stack = [], di_pending = []\<rparr> = Some (Inr out)"
  by (subst collect_diff.simps, subst advance.simps) simp

lemma advance_turn:
  assumes "diff_turn ops st entry \<lparr>di_stack = stack, di_pending = []\<rparr> = (it, Inr ())"
  shows "collect_diff ops st out \<lparr>di_stack = entry # stack, di_pending = []\<rparr> = collect_diff ops st out it"
proof -
  have "advance ops st \<lparr>di_stack = entry # stack, di_pending = []\<rparr> = advance ops st it"
    using assms by (subst advance.simps) simp
  then show ?thesis by (subst (1 2) collect_diff.simps) simp
qed

context lawful_chunk_store
begin

lemma collect_reports:
  assumes "ok st" "\<And>x. length (b x) = 32" "inj_on b U" "stored b U (chunks st)"
    "\<forall>w \<in> set ws. \<forall>t \<in> walk_trees w. good_tree b U t"
  shows "\<exists>es. collect_diff ops st out \<lparr>di_stack = map (stack_entry b) ws, di_pending = p\<rparr> = Some (Inr (out @ p @ es)) \<and>
    reports es (sum_list (map left_entries ws)) (sum_list (map right_entries ws))"
  using assms(5)
proof (induction "walk_work ws + length p" arbitrary: ws p out rule: less_induct)
  case less
  show ?case
  proof (cases p)
    case (Cons e p')
    then show ?thesis using less(1) [of ws p' "out @ [e]"] less(2) by (simp add: advance_pending)
  next
    case p: Nil
    show ?thesis
    proof (cases ws)
      case Nil
      with p show ?thesis by (auto simp: advance_done reports_empty)
    next
      case (Cons w ws')
      obtain ws1 p1 where t: "diff_turn ops st (stack_entry b w) \<lparr>di_stack = map (stack_entry b) ws', di_pending = []\<rparr> =
          (\<lparr>di_stack = map (stack_entry b) (ws1 @ ws'), di_pending = p1\<rparr>, Inr ())" "turned b U w ws1 p1"
        using diff_turn_walks [OF assms(1-4), of w "map (stack_entry b) ws'"] less(2) Cons by auto
      have "walk_work (ws1 @ ws') + length p1 < walk_work ws + length p" using t(2) Cons p by (simp add: turned_def)
      moreover have "\<forall>w \<in> set (ws1 @ ws'). \<forall>t \<in> walk_trees w. good_tree b U t" using t(2) less(2) Cons by (auto simp: turned_def)
      ultimately obtain es where es: "collect_diff ops st out \<lparr>di_stack = map (stack_entry b) (ws1 @ ws'), di_pending = p1\<rparr> =
          Some (Inr (out @ p1 @ es))"
          "reports es (sum_list (map left_entries (ws1 @ ws'))) (sum_list (map right_entries (ws1 @ ws')))"
        using less(1) by blast
      have "reports (p1 @ es) (left_entries w + sum_list (map left_entries ws')) (right_entries w + sum_list (map right_entries ws'))"
        by (rule turned_reports [OF t(2)]) (use es(2) in simp)
      moreover have "collect_diff ops st out \<lparr>di_stack = map (stack_entry b) ws, di_pending = p\<rparr> = Some (Inr (out @ p1 @ es))"
        using advance_turn [OF t(1), of out] es(1) Cons p by simp
      ultimately show ?thesis using Cons p by auto
    qed
  qed
qed

lemma diff_reports:
  assumes "ok st" "\<And>x. length (b x) = 32" "inj_on b U" "stored b U (chunks st)" "good_tree b U t1" "good_tree b U t2"
  shows "\<exists>es. collect_diff ops st [] (diff (tree_addr b t1) (tree_addr b t2)) = Some (Inr es) \<and>
    reports es (mset (tree_entries t1)) (mset (tree_entries t2))"
proof (cases "tree_addr b t1 = tree_addr b t2")
  case True
  then have "t1 = t2" using same_addr_same_tree [OF assms(2,3,5,6)] by blast
  then show ?thesis by (auto simp: diff_def advance_done reports_empty)
next
  case False
  then show ?thesis using collect_reports [OF assms(1-4), of "[WCompare t1 t2]" "[]" "[]"] assms(5,6) by (simp add: diff_def)
qed

end

section \<open>The symmetric difference\<close>

definition diff_spec :: "(bytes \<rightharpoonup> bytes) \<Rightarrow> (bytes \<rightharpoonup> bytes) \<Rightarrow> diff_entry set" where
  "diff_spec m1 m2 =
     {LeftOnly k v |k v. m1 k = Some v \<and> m2 k = None} \<union> {RightOnly k v |k v. m1 k = None \<and> m2 k = Some v} \<union>
     {Modified k v w |k v w. m1 k = Some v \<and> m2 k = Some w \<and> v \<noteq> w}"

fun entry_key :: "diff_entry \<Rightarrow> bytes" where
  "entry_key (LeftOnly k v) = k"
| "entry_key (RightOnly k v) = k"
| "entry_key (Modified k v w) = k"

lemma in_all_lefts: "x \<in># all_lefts es \<longleftrightarrow> (\<exists>e \<in> set es. x \<in># lefts e)"
  by (induction es) auto

lemma in_all_rights: "x \<in># all_rights es \<longleftrightarrow> (\<exists>e \<in> set es. x \<in># rights e)"
  by (induction es) auto

lemma lefts_key: "x \<in># lefts e \<Longrightarrow> fst x = entry_key e"
  by (cases e) auto

lemma rights_key: "x \<in># rights e \<Longrightarrow> fst x = entry_key e"
  by (cases e) auto

lemma mset_parts_disjoint:
  assumes "mset kvs = A + S" "om_inv kvs" "(k, v) \<in># A" "(k, w) \<in># S"
  shows False
proof -
  have "distinct kvs" using om_inv_distinct [OF assms(2)] by (simp add: distinct_map)
  moreover have "(k, v) \<in> set kvs" "(k, w) \<in> set kvs" using assms(1,3,4) by (metis set_mset_mset union_iff)+
  then have "v = w" using om_inv_distinct [OF assms(2)] by (metis eq_key_imp_eq_value)
  then have "count A (k, v) > 0" "count S (k, v) > 0" using assms(3,4) by simp_all
  then have "count A (k, v) + count S (k, v) > 1" by linarith
  then have "count (mset kvs) (k, v) > 1" using assms(1) by simp
  ultimately show False by (metis distinct_count_atmost_1 not_less zero_less_one less_or_eq_imp_le le_numeral_extra(4))
qed

lemma exact_of_reports:
  assumes "reports es (mset kvs1) (mset kvs2)" "om_inv kvs1" "om_inv kvs2" "distinct (map entry_key es)"
  shows "set es = diff_spec (om_get kvs1) (om_get kvs2)"
proof -
  obtain S where S: "mset kvs1 = all_lefts es + S" "mset kvs2 = all_rights es + S" and proper: "\<forall>e \<in> set es. proper e"
    using assms(1) by (auto simp: reports_def)
  have get1: "om_get kvs1 k = Some v \<longleftrightarrow> (k, v) \<in># all_lefts es \<or> (k, v) \<in># S" for k v
    using S(1) assms(2) by (metis om_get_in_set set_mset_mset union_iff)
  have get2: "om_get kvs2 k = Some v \<longleftrightarrow> (k, v) \<in># all_rights es \<or> (k, v) \<in># S" for k v
    using S(2) assms(3) by (metis om_get_in_set set_mset_mset union_iff)
  have uniq: "e = e'" if "e \<in> set es" "e' \<in> set es" "entry_key e = entry_key e'" for e e'
    using that assms(4) by (meson distinct_map inj_onD)
  have left: "(k, v) \<in># all_lefts es" if "e \<in> set es" "(k, v) \<in># lefts e" for e k v using that in_all_lefts by blast
  have right: "(k, v) \<in># all_rights es" if "e \<in> set es" "(k, v) \<in># rights e" for e k v using that in_all_rights by blast
  have noS: "(k, w) \<notin># S" if "(k, v) \<in># all_lefts es \<or> (k, v) \<in># all_rights es" for k v w
    using that mset_parts_disjoint [OF S(1) assms(2)] mset_parts_disjoint [OF S(2) assms(3)] by blast
  have sound: "e \<in> diff_spec (om_get kvs1) (om_get kvs2)" if e: "e \<in> set es" for e
  proof (cases e)
    case (LeftOnly k v)
    have "(k, w) \<notin># all_rights es" for w
      using uniq [OF e] rights_key LeftOnly unfolding in_all_rights by (metis empty_iff entry_key.simps(1) fst_conv rights.simps(1) set_mset_empty)
    then have "om_get kvs2 k = None" using get2 noS left [OF e, of k v] LeftOnly by (metis lefts.simps(1) not_Some_eq union_single_eq_member)
    then show ?thesis using get1 left [OF e, of k v] LeftOnly by (simp add: diff_spec_def)
  next
    case (RightOnly k v)
    have "(k, w) \<notin># all_lefts es" for w
      using uniq [OF e] lefts_key RightOnly unfolding in_all_lefts by (metis empty_iff entry_key.simps(2) fst_conv lefts.simps(2) set_mset_empty)
    then have "om_get kvs1 k = None" using get1 noS right [OF e, of k v] RightOnly by (metis rights.simps(2) not_Some_eq union_single_eq_member)
    then show ?thesis using get2 right [OF e, of k v] RightOnly by (simp add: diff_spec_def)
  next
    case (Modified k v w)
    then show ?thesis using get1 get2 left [OF e, of k v] right [OF e, of k w] proper e by (auto simp: diff_spec_def)
  qed
  have "e \<in> set es" if e: "e \<in> diff_spec (om_get kvs1) (om_get kvs2)" for e
  proof (cases e)
    case (LeftOnly k v)
    then have k: "om_get kvs1 k = Some v" "om_get kvs2 k = None" using e by (auto simp: diff_spec_def)
    then obtain f where f: "f \<in> set es" "(k, v) \<in># lefts f" using get1 get2 in_all_lefts by (metis option.distinct(1))
    show ?thesis using sound [OF f(1)] f k LeftOnly by (cases f) (auto simp: diff_spec_def)
  next
    case (RightOnly k v)
    then have k: "om_get kvs1 k = None" "om_get kvs2 k = Some v" using e by (auto simp: diff_spec_def)
    then obtain f where f: "f \<in> set es" "(k, v) \<in># rights f" using get1 get2 in_all_rights by (metis option.distinct(1))
    show ?thesis using sound [OF f(1)] f k RightOnly by (cases f) (auto simp: diff_spec_def)
  next
    case (Modified k v w)
    then have k: "om_get kvs1 k = Some v" "om_get kvs2 k = Some w" "v \<noteq> w" using e by (auto simp: diff_spec_def)
    then obtain f where f: "f \<in> set es" "(k, v) \<in># lefts f" using get1 get2 in_all_lefts by (metis option.inject)
    show ?thesis using sound [OF f(1)] f k Modified by (cases f) (auto simp: diff_spec_def)
  qed
  with sound show ?thesis by blast
qed

section \<open>Cancelling is exact\<close>

lemma merge_cancel_eq: "merge_cancel_phantoms l r out = diff_sorted_entries l r out"
proof -
  have one: "diff_sorted_entries l [] out = out @ map (\<lambda>(k, v). LeftOnly k v) l" for l out by (induction l arbitrary: out) auto
  have two: "diff_sorted_entries [] r out = out @ map (\<lambda>(k, v). RightOnly k v) r" for r out by (induction r arbitrary: out) auto
  show ?thesis by (induction l r out rule: merge_cancel_phantoms.induct) (auto simp: one two)
qed

lemma diff_sorted_keys:
  assumes "strict_sorted (map fst l)" "strict_sorted (map fst r)"
  shows "\<exists>es. diff_sorted_entries l r out = out @ es \<and> strict_sorted (map entry_key es) \<and> entry_key ` set es \<subseteq> fst ` set l \<union> fst ` set r"
  using assms
proof (induction l r out rule: diff_sorted_entries.induct)
  case (1 lk lv l rk rv r out)
  consider "lk < rk" | "rk < lk" "\<not> lk < rk" | "lk = rk" by (meson linorder_less_linear)
  then show ?case
  proof cases
    case a: 1
    then obtain es where es: "diff_sorted_entries l ((rk, rv) # r) (out @ [LeftOnly lk lv]) = (out @ [LeftOnly lk lv]) @ es"
      "strict_sorted (map entry_key es)" "entry_key ` set es \<subseteq> fst ` set l \<union> fst ` set ((rk, rv) # r)" using 1(1,4,5) by auto
    have "\<forall>k \<in> fst ` set l \<union> fst ` set ((rk, rv) # r). lk < k" using 1(4,5) a by auto
    then have "\<forall>e \<in> set es. lk < entry_key e" using es(3) by blast
    with a es show ?thesis by (intro exI [of _ "LeftOnly lk lv # es"]) auto
  next
    case a: 2
    then obtain es where es: "diff_sorted_entries ((lk, lv) # l) r (out @ [RightOnly rk rv]) = (out @ [RightOnly rk rv]) @ es"
      "strict_sorted (map entry_key es)" "entry_key ` set es \<subseteq> fst ` set ((lk, lv) # l) \<union> fst ` set r" using 1(2,4,5) by auto
    have "\<forall>k \<in> fst ` set ((lk, lv) # l) \<union> fst ` set r. rk < k" using 1(4,5) a by auto
    then have "\<forall>e \<in> set es. rk < entry_key e" using es(3) by blast
    with a es show ?thesis by (intro exI [of _ "RightOnly rk rv # es"]) auto
  next
    case a: 3
    let ?new = "if lv \<noteq> rv then [Modified lk lv rv] else []"
    have "\<not> lk < rk" "\<not> rk < lk" "strict_sorted (map fst l)" "strict_sorted (map fst r)" using 1(4,5) a by auto
    then obtain es where es: "diff_sorted_entries l r (out @ ?new) = (out @ ?new) @ es"
      "strict_sorted (map entry_key es)" "entry_key ` set es \<subseteq> fst ` set l \<union> fst ` set r"
      using 1(3) by (cases "lv = rv") auto
    have "\<forall>k \<in> fst ` set l \<union> fst ` set r. lk < k" using 1(4,5) a by auto
    then have "\<forall>e \<in> set es. lk < entry_key e" using es(3) by blast
    with a es show ?thesis by (intro exI [of _ "?new @ es"]) auto
  qed
next
  case (2 lk lv l out)
  then obtain es where es: "diff_sorted_entries l [] (out @ [LeftOnly lk lv]) = (out @ [LeftOnly lk lv]) @ es"
    "strict_sorted (map entry_key es)" "entry_key ` set es \<subseteq> fst ` set l" by auto
  have "\<forall>k \<in> fst ` set l. lk < k" using 2(2) by auto
  then have "\<forall>e \<in> set es. lk < entry_key e" using es(3) by blast
  with es show ?case by (intro exI [of _ "LeftOnly lk lv # es"]) auto
next
  case (3 rk rv r out)
  then obtain es where es: "diff_sorted_entries [] r (out @ [RightOnly rk rv]) = (out @ [RightOnly rk rv]) @ es"
    "strict_sorted (map entry_key es)" "entry_key ` set es \<subseteq> fst ` set r" by auto
  have "\<forall>k \<in> fst ` set r. rk < k" using 3(3) by auto
  then have "\<forall>e \<in> set es. rk < entry_key e" using es(3) by blast
  with es show ?case by (intro exI [of _ "RightOnly rk rv # es"]) auto
qed auto

text \<open>The partition keeps what each side reports.\<close>

lemma partition_sums:
  assumes "partition_entries es = (l, r, ms)"
  shows "all_lefts es = mset l + all_lefts ms" "all_rights es = mset r + all_rights ms"
    "set ms \<subseteq> set es" "\<forall>e \<in> set ms. \<exists>k v w. e = Modified k v w"
  using assms by (induction es arbitrary: l r ms) (auto simp: Let_def split: prod.splits diff_entry.splits)

lemma modified_keys:
  assumes "\<forall>e \<in> set ms. \<exists>k v w. e = Modified k v w"
  shows "image_mset fst (all_lefts ms) = mset (map entry_key ms)" "image_mset fst (all_rights ms) = mset (map entry_key ms)"
  using assms by (induction ms) auto

lemma distinct_part: "mset xs = mset ys + Z \<Longrightarrow> distinct xs \<Longrightarrow> distinct ys"
  by (metis distinct_append ex_mset mset_append mset_eq_imp_distinct_iff)

lemma sorted_by_key: "distinct (map fst l) \<Longrightarrow> strict_sorted (map fst (sort_key fst l))"
  by (simp add: strict_sorted_iff distinct_map)

text \<open>Both sides of the raw entries have distinct keys, because they are parts of maps.\<close>

lemma part_keys_distinct:
  assumes "mset kvs = mset l + M + S" "om_inv kvs" "image_mset fst M = mset ks"
  shows "distinct (ks @ map fst l)"
proof (rule distinct_part)
  show "mset (map fst kvs) = mset (ks @ map fst l) + image_mset fst S"
    using arg_cong [OF assms(1), of "image_mset fst"] assms(3) by (simp add: union_ac)
qed (rule om_inv_distinct [OF assms(2)])

lemma disjoint_cover: "A \<inter> L = {} \<Longrightarrow> A \<inter> R = {} \<Longrightarrow> K \<subseteq> L \<union> R \<Longrightarrow> A \<inter> K = {}"
  by blast

lemma deduplicate_exact:
  assumes "reports raw (mset kvs1) (mset kvs2)" "om_inv kvs1" "om_inv kvs2"
  shows "set (deduplicate_phantom_entries raw) = diff_spec (om_get kvs1) (om_get kvs2) \<and>
    distinct (map entry_key (deduplicate_phantom_entries raw))"
proof -
  obtain l r ms where part: "partition_entries raw = (l, r, ms)" by (metis prod_cases3)
  note p = partition_sums [OF part]
  obtain S where S: "mset kvs1 = all_lefts raw + S" "mset kvs2 = all_rights raw + S" and proper: "\<forall>e \<in> set raw. proper e"
    using assms(1) by (auto simp: reports_def)
  have keys: "distinct (map entry_key ms @ map fst l)" "distinct (map entry_key ms @ map fst r)"
    using part_keys_distinct [OF S(1) [unfolded p(1)] assms(2) modified_keys(1) [OF p(4)]]
      part_keys_distinct [OF S(2) [unfolded p(2)] assms(3) modified_keys(2) [OF p(4)]] by auto
  let ?l = "sort_key fst l" and ?r = "sort_key fst r"
  have sorted: "strict_sorted (map fst ?l)" "strict_sorted (map fst ?r)" using keys by (simp_all add: sorted_by_key)
  obtain es where es: "diff_sorted_entries ?l ?r ms = ms @ es" "reports es (mset ?l) (mset ?r)"
    using diff_sorted_reports by blast
  have esk: "strict_sorted (map entry_key es)" "entry_key ` set es \<subseteq> fst ` set l \<union> fst ` set r"
    using diff_sorted_keys [OF sorted, of ms] es(1) by auto
  have result: "deduplicate_phantom_entries raw = ms @ es"
    using es(1) by (simp add: deduplicate_phantom_entries_def part merge_cancel_eq)
  have "entry_key ` set ms \<inter> entry_key ` set es = {}" 
  proof -
    have "entry_key ` set ms \<inter> fst ` set l = {}" "entry_key ` set ms \<inter> fst ` set r = {}" using keys by simp_all
    from disjoint_cover [OF this esk(2)] show ?thesis .
  qed
  then have d: "distinct (map entry_key (ms @ es))" using keys esk(1) by (simp add: strict_sorted_iff)
  have ms: "reports ms (all_lefts ms + S) (all_rights ms + S)" using p(3) proper by (auto simp: reports_def)
  have "reports (ms @ es) (mset kvs1) (mset kvs2)"
    using reports_append [OF ms es(2)] S p(1,2) by (simp add: union_ac)
  from exact_of_reports [OF this assms(2,3) d] d show ?thesis unfolding result by blast
qed

section \<open>Diff of two built trees\<close>

lemma prolly_tree_good:
  "kvs_fit kvs \<Longrightarrow> om_inv kvs \<Longrightarrow> tree_chunks b (prolly_tree dk pw kvs) \<subseteq> U \<Longrightarrow> good_tree b U (prolly_tree dk pw kvs)"
  using prolly_tree_fits by (simp add: good_tree_def)

text \<open>C11 The diff is exact: from two roots of trees whose chunks the store holds, \<open>diff_exact\<close> ends without an error
  and returns, each key once, exactly the symmetric difference of the two maps: the keys of one side only with
  their values, and the keys of both sides whose values differ, with both values. Nothing is reported for
  entries that only moved between chunks. The hash is assumed not to collide on the chunks in the store.
\<close>

theorem diff_exact_symmetric_difference:
  assumes "mem_ok st" "\<And>x. length (blake3 x) = 32" "inj_on blake3 U" "stored blake3 U (mem_chunks st)"
    and "kvs_fit kvs1" "om_inv kvs1" "tree_chunks blake3 (prolly_tree derive_key pw kvs1) \<subseteq> U"
    and "kvs_fit kvs2" "om_inv kvs2" "tree_chunks blake3 (prolly_tree derive_key pw kvs2) \<subseteq> U"
  shows "\<exists>es. diff_exact memory_chunk_store st (tree_addr blake3 (prolly_tree derive_key pw kvs1))
      (tree_addr blake3 (prolly_tree derive_key pw kvs2)) = Some (Inr es) \<and>
    set es = diff_spec (om_get kvs1) (om_get kvs2) \<and> distinct (map entry_key es)"
proof -
  obtain raw where "collect_diff memory_chunk_store st [] (diff (tree_addr blake3 (prolly_tree derive_key pw kvs1))
      (tree_addr blake3 (prolly_tree derive_key pw kvs2))) = Some (Inr raw)" "reports raw (mset kvs1) (mset kvs2)"
    using mem.diff_reports [OF assms(1-4) prolly_tree_good [OF assms(5-7)] prolly_tree_good [OF assms(8-10)]]
    by (auto simp: prolly_tree_entries)
  with deduplicate_exact [OF _ assms(6,9)] show ?thesis by (simp add: diff_exact_def)
qed

text \<open>Two trees built one after the other into the same store.\<close>

abbreviation demo_small :: "(bytes, bytes) omap" where
  "demo_small \<equiv> [([1], [2])]"

abbreviation demo_union :: "bytes set" where
  "demo_union \<equiv> tree_chunks demo_hash (prolly_tree demo_derive 0 demo_kvs) \<union> tree_chunks demo_hash (prolly_tree demo_derive 0 demo_small)"

lemma demo_small_fit: "kvs_fit demo_small" "om_inv demo_small"
  by (simp_all add: kvs_fit_def om_inv_def u32_max_def)

lemma demo_both_stored:
  assumes "inj_on demo_hash V" "demo_union \<subseteq> V"
  shows "\<exists>st. mem_ok st \<and> held demo_hash V (mem_chunks st) \<and> stored demo_hash demo_union (mem_chunks st)"
proof -
  have sub: "tree_chunks demo_hash (prolly_tree demo_derive 0 demo_kvs) \<subseteq> V" "tree_chunks demo_hash (prolly_tree demo_derive 0 demo_small) \<subseteq> V"
    using assms(2) by auto
  obtain st1 where 1: "mem_ok st1" "stores demo_hash (tree_chunks demo_hash (prolly_tree demo_derive 0 demo_kvs)) (mem_chunks memory_chunks_new) (mem_chunks st1)"
    using mem.build_stores [OF assms(1) demo_kvs_fit sub(1) demo_store] by blast
  have "held demo_hash V (mem_chunks st1)" by (rule stores_held [OF 1(2) demo_store(2) sub(1)])
  then obtain st2 where 2: "mem_ok st2" "stores demo_hash (tree_chunks demo_hash (prolly_tree demo_derive 0 demo_small)) (mem_chunks st1) (mem_chunks st2)"
    using mem.build_stores [OF assms(1) demo_small_fit sub(2) 1(1)] by blast
  note both = stores_trans [OF 1(2) 2(2)]
  show ?thesis using both stores_held [OF both demo_store(2) assms(2)] 2(1) by (auto simp: stores_def)
qed

lemma demo_union_inj: "inj_on demo_hash demo_union"
  unfolding inj_on_def by code_simp

theorem diff_exact_witness:
  "\<exists>st es. diff_exact memory_chunk_store st (tree_addr demo_hash (prolly_tree demo_derive 0 demo_kvs))
      (tree_addr demo_hash (prolly_tree demo_derive 0 demo_small)) = Some (Inr es) \<and>
    Modified [1] [7] [2] \<in> set es \<and> LeftOnly [0] [7] \<in> set es \<and> distinct (map entry_key es)"
proof -
  obtain st where st: "inj_on demo_hash demo_union" "mem_ok st" "stored demo_hash demo_union (mem_chunks st)"
    using demo_both_stored [OF demo_union_inj order_refl] demo_union_inj by blast
  have "Modified [1] [7] [2] \<in> diff_spec (om_get demo_kvs) (om_get demo_small)" "LeftOnly [0] [7] \<in> diff_spec (om_get demo_kvs) (om_get demo_small)"
  proof -
    have "om_get demo_kvs [1] = Some [7]" "om_get demo_kvs [0] = Some [7]" by code_simp+
    then show "Modified [1] [7] [2] \<in> diff_spec (om_get demo_kvs) (om_get demo_small)" "LeftOnly [0] [7] \<in> diff_spec (om_get demo_kvs) (om_get demo_small)"
      by (simp_all add: diff_spec_def)
  qed
  then show ?thesis
    using diff_exact_symmetric_difference [OF st(2) demo_hash_length st(1,3) demo_kvs_fit Un_upper1 demo_small_fit Un_upper2] by metis
qed

end
