(* ===== verification/Prolly_Transfer.thy ===== *)
theory Prolly_Transfer
  imports Prolly_Diff
begin

text \<open>
  Moving trees between chunk stores (\<open>ferratomic-core/src/prolly/transfer.rs\<close>) and snapshot manifests
  (\<open>snapshot.rs\<close>). The transfer descends from a root, copies each chunk the destination lacks and prunes at
  each chunk it has. That is complete only if the destination is closed: with a chunk it holds the whole
  subtree. The theorems state this, that a complete transfer keeps the destination closed, and what happens
  after an interrupted one.
\<close>

section \<open>Transfer (transfer.rs)\<close>

record transfer_result =
  chunks_transferred :: u64
  chunks_skipped :: u64
  bytes_transferred :: u64
  tr_root :: bytes

type_synonym 'd transferring = "'d \<times> transfer_result \<times> (ferra_error + unit)"

fun transfer_children :: "(bytes \<Rightarrow> 'd \<Rightarrow> transfer_result \<Rightarrow> 'd transferring option) \<Rightarrow> bytes list \<Rightarrow> 'd \<Rightarrow> transfer_result \<Rightarrow> 'd transferring option" where
  "transfer_children f [] dst result = Some (dst, result, Inr ())"
| "transfer_children f (addr # addrs) dst result =
     (case f addr dst result of
        None \<Rightarrow> None
      | Some (dst, result, Inl e) \<Rightarrow> Some (dst, result, Inl e)
      | Some (dst, result, Inr _) \<Rightarrow> transfer_children f addrs dst result)"

primrec transfer_recursive ::
  "nat \<Rightarrow> 's chunk_store \<Rightarrow> 's \<Rightarrow> 'd chunk_store \<Rightarrow> bytes \<Rightarrow> 'd \<Rightarrow> transfer_result \<Rightarrow> 'd transferring option" where
  "transfer_recursive 0 src_ops src dst_ops addr dst result = None"
| "transfer_recursive (Suc fuel) src_ops src dst_ops addr dst result =
     (case has_chunk dst_ops addr dst of
        Inl e \<Rightarrow> Some (dst, result, Inl e)
      | Inr True \<Rightarrow> Some (dst, result\<lparr>chunks_skipped := chunks_skipped result + 1\<rparr>, Inr ())
      | Inr False \<Rightarrow>
          (case load_chunk src_ops ''INV-FERR-048'' addr src of
             Inl e \<Rightarrow> Some (dst, result, Inl e)
           | Inr chunk \<Rightarrow>
               (case put_chunk dst_ops chunk dst of
                  (dst, Inl e) \<Rightarrow> Some (dst, result, Inl e)
                | (dst, Inr _) \<Rightarrow>
                    (let result = result\<lparr>chunks_transferred := chunks_transferred result + 1,
                           bytes_transferred := bytes_transferred result + of_nat (length (ck_data chunk))\<rparr>
                     in case decode_child_addrs chunk of
                          Inl e \<Rightarrow> Some (dst, result, Inl e)
                        | Inr children \<Rightarrow>
                            transfer_children (transfer_recursive fuel src_ops src dst_ops) children dst result))))"

definition transfer ::
  "nat \<Rightarrow> 's chunk_store \<Rightarrow> 's \<Rightarrow> 'd chunk_store \<Rightarrow> bytes \<Rightarrow> 'd \<Rightarrow> ('d \<times> (ferra_error + transfer_result)) option" where
  "transfer fuel src_ops src dst_ops root dst =
     map_option (\<lambda>(dst, result, r). (dst, bind_result r (\<lambda>_. Inr result)))
       (transfer_recursive fuel src_ops src dst_ops root dst
          \<lparr>chunks_transferred = 0, chunks_skipped = 0, bytes_transferred = 0, tr_root = root\<rparr>)"

section \<open>Snapshot manifests (snapshot.rs)\<close>

record root_set =
  rs_primary :: bytes
  rs_eavt :: bytes
  rs_aevt :: bytes
  rs_vaet :: bytes
  rs_avet :: bytes

definition MANIFEST_SIZE :: nat where "MANIFEST_SIZE = 5 * 32"

definition rs_canonical_bytes :: "root_set \<Rightarrow> bytes" where
  "rs_canonical_bytes rs = rs_primary rs @ rs_eavt rs @ rs_aevt rs @ rs_vaet rs @ rs_avet rs"

definition rs_from_canonical_bytes :: "bytes \<Rightarrow> root_set" where
  "rs_from_canonical_bytes buf =
     \<lparr>rs_primary = take 32 buf, rs_eavt = take 32 (drop 32 buf), rs_aevt = take 32 (drop 64 buf),
      rs_vaet = take 32 (drop 96 buf), rs_avet = take 32 (drop 128 buf)\<rparr>"

definition create_manifest :: "'s chunk_store \<Rightarrow> (bytes \<Rightarrow> bytes) \<Rightarrow> root_set \<Rightarrow> 's \<Rightarrow> 's \<times> (ferra_error + bytes)" where
  "create_manifest ops blake3 rs st =
     (let chunk = chunk_from_bytes blake3 (rs_canonical_bytes rs)
      in case put_chunk ops chunk st of
           (st, Inl e) \<Rightarrow> (st, Inl e)
         | (st, Inr _) \<Rightarrow> (st, Inr (ck_addr chunk)))"

definition resolve_manifest :: "'s chunk_store \<Rightarrow> bytes \<Rightarrow> 's \<Rightarrow> ferra_error + root_set" where
  "resolve_manifest ops manifest st =
     bind_result (load_chunk ops ''INV-FERR-049'' manifest st) (\<lambda>chunk.
       if length (ck_data chunk) \<noteq> MANIFEST_SIZE then Inl (InvariantViolation ''INV-FERR-049'')
       else Inr (rs_from_canonical_bytes (ck_data chunk)))"

text \<open>The five transfers in turn; the first error ends them.\<close>

fun transfer_roots :: "(bytes \<Rightarrow> 'd \<Rightarrow> ('d \<times> (ferra_error + transfer_result)) option) \<Rightarrow> bytes list \<Rightarrow> 'd \<Rightarrow> ('d \<times> (ferra_error + unit)) option" where
  "transfer_roots f [] dst = Some (dst, Inr ())"
| "transfer_roots f (root # roots) dst =
     (case f root dst of
        None \<Rightarrow> None
      | Some (dst, Inl e) \<Rightarrow> Some (dst, Inl e)
      | Some (dst, Inr _) \<Rightarrow> transfer_roots f roots dst)"

definition transfer_snapshot ::
  "'s chunk_store \<Rightarrow> 's \<Rightarrow> 'd chunk_store \<Rightarrow> (bytes \<Rightarrow> 'd \<Rightarrow> ('d \<times> (ferra_error + transfer_result)) option) \<Rightarrow> bytes \<Rightarrow> 'd \<Rightarrow>
     ('d \<times> (ferra_error + unit)) option" where
  "transfer_snapshot src_ops src dst_ops transfer_fn manifest dst =
     (case has_chunk dst_ops manifest dst of
        Inl e \<Rightarrow> Some (dst, Inl e)
      | Inr present \<Rightarrow>
          (case (if present then (dst, Inr ())
                 else (case load_chunk src_ops ''INV-FERR-049'' manifest src of
                         Inl e \<Rightarrow> (dst, Inl e)
                       | Inr chunk \<Rightarrow> (case put_chunk dst_ops chunk dst of (dst, Inl e) \<Rightarrow> (dst, Inl e) | (dst, Inr _) \<Rightarrow> (dst, Inr ())))) of
             (dst, Inl e) \<Rightarrow> Some (dst, Inl e)
           | (dst, Inr _) \<Rightarrow>
               (case resolve_manifest src_ops manifest src of
                  Inl e \<Rightarrow> Some (dst, Inl e)
                | Inr rs \<Rightarrow>
                    transfer_roots transfer_fn [rs_primary rs, rs_eavt rs, rs_aevt rs, rs_vaet rs, rs_avet rs] dst)))"

section \<open>Closed stores\<close>

text \<open>With the root chunk of a tree (of at most a given height) the store holds all its chunks.\<close>

definition closed_below :: "(bytes \<Rightarrow> bytes) \<Rightarrow> bytes set \<Rightarrow> nat \<Rightarrow> (bytes \<Rightarrow> chunk option) \<Rightarrow> bool" where
  "closed_below b U n m \<longleftrightarrow>
     (\<forall>t. good_tree b U t \<and> tree_height t \<le> n \<and> m (tree_addr b t) \<noteq> None \<longrightarrow> stored b (tree_chunks b t) m)"

definition closed_store :: "(bytes \<Rightarrow> bytes) \<Rightarrow> bytes set \<Rightarrow> (bytes \<Rightarrow> chunk option) \<Rightarrow> bool" where
  "closed_store b U m \<longleftrightarrow> (\<forall>n. closed_below b U n m)"

lemma stored_mono: "stored b D m \<Longrightarrow> m \<subseteq>\<^sub>m m' \<Longrightarrow> stored b D m'"
  unfolding stored_def map_le_def by (metis domI)

lemma stored_subset: "stored b D m \<Longrightarrow> E \<subseteq> D \<Longrightarrow> stored b E m"
  by (auto simp: stored_def)

text \<open>Every chunk of a tree is the root chunk of a subtree.\<close>

lemma chunk_of_subtree:
  "good_tree b U t \<Longrightarrow> d \<in> tree_chunks b t \<Longrightarrow> \<exists>s. good_tree b U s \<and> tree_data b s = d \<and> tree_chunks b s \<subseteq> tree_chunks b t"
proof (induction t)
  case (PNode l cs)
  show ?case
  proof (cases "d = tree_data b (PNode l cs)")
    case False
    then obtain k t where t: "(k, t) \<in> set cs" "d \<in> tree_chunks b t" using PNode.prems(2) by auto
    then obtain s where "good_tree b U s" "tree_data b s = d" "tree_chunks b s \<subseteq> tree_chunks b t"
      using PNode.IH [of "(k, t)" t] good_children [OF PNode.prems(1)] by auto
    moreover have "tree_chunks b t \<subseteq> tree_chunks b (PNode l cs)" using t(1) by auto
    ultimately show ?thesis by blast
  qed (use PNode.prems in blast)
qed auto

lemma closed_below_stores:
  assumes "\<And>x. length (b x) = 32" "inj_on b U" "good_tree b U t" "closed_below b U n m" "stores b (tree_chunks b t) m m'"
  shows "closed_below b U n m'"
  unfolding closed_below_def
proof (intro allI impI)
  fix s assume s: "good_tree b U s \<and> tree_height s \<le> n \<and> m' (tree_addr b s) \<noteq> None"
  then have "tree_addr b s \<in> dom m \<or> tree_addr b s \<in> b ` tree_chunks b t" using assms(5) unfolding stores_def by blast
  then show "stored b (tree_chunks b s) m'"
  proof
    assume "tree_addr b s \<in> dom m"
    then have "stored b (tree_chunks b s) m" using s assms(4) by (auto simp: closed_below_def)
    then show ?thesis using assms(5) stored_mono by (auto simp: stores_def)
  next
    assume "tree_addr b s \<in> b ` tree_chunks b t"
    then obtain d where d: "d \<in> tree_chunks b t" "tree_addr b s = b d" by blast
    obtain s' where s': "good_tree b U s'" "tree_data b s' = d" "tree_chunks b s' \<subseteq> tree_chunks b t"
      using chunk_of_subtree [OF assms(3) d(1)] by blast
    have "s = s'" by (rule same_addr_same_tree [OF assms(1,2)]) (use s s' d in \<open>auto simp: tree_addr_def\<close>)
    then show ?thesis using s'(3) assms(5) stored_subset by (auto simp: stores_def)
  qed
qed

text \<open>Storing one more chunk keeps closedness for the trees below it.\<close>

lemma closed_below_put:
  assumes "\<And>x. length (b x) = 32" "inj_on b U" "closed_below b U n m" "stores b {d} m m'" "k \<le> n"
    and "\<And>t. good_tree b U t \<Longrightarrow> tree_addr b t = b d \<Longrightarrow> tree_height t > k"
  shows "closed_below b U k m'"
  unfolding closed_below_def
proof (intro allI impI)
  fix s assume s: "good_tree b U s \<and> tree_height s \<le> k \<and> m' (tree_addr b s) \<noteq> None"
  then have "tree_addr b s \<noteq> b d" using assms(6) by fastforce
  then have "tree_addr b s \<in> dom m" using s assms(4) unfolding stores_def by blast
  then have "stored b (tree_chunks b s) m" using s assms(3,5) by (auto simp: closed_below_def)
  then show "stored b (tree_chunks b s) m'" using assms(4) stored_mono by (auto simp: stores_def)
qed

section \<open>Counting new chunks\<close>

abbreviation new_chunks :: "(bytes \<Rightarrow> chunk option) \<Rightarrow> (bytes \<Rightarrow> chunk option) \<Rightarrow> bytes set" where
  "new_chunks m m' \<equiv> dom m' - dom m"

definition new_bytes :: "(bytes \<Rightarrow> chunk option) \<Rightarrow> (bytes \<Rightarrow> chunk option) \<Rightarrow> nat" where
  "new_bytes m m' = (\<Sum>a \<in> new_chunks m m'. length (ck_data (the (m' a))))"

lemma finite_tree_chunks: "finite (tree_chunks b t)"
  by (induction t) auto

lemma new_finite: "stores b D m m' \<Longrightarrow> finite D \<Longrightarrow> finite (new_chunks m m')"
  unfolding stores_def by (metis Diff_subset_conv finite_imageI finite_subset subset_refl sup_commute)

lemma new_chunks_trans:
  assumes "stores b D m m1" "stores b E m1 m2" "finite D" "finite E"
  shows "card (new_chunks m m2) = card (new_chunks m m1) + card (new_chunks m1 m2)"
    "new_bytes m m2 = new_bytes m m1 + new_bytes m1 m2"
proof -
  have le: "m \<subseteq>\<^sub>m m1" "m1 \<subseteq>\<^sub>m m2" using assms by (auto simp: stores_def)
  then have d: "dom m \<subseteq> dom m1" "dom m1 \<subseteq> dom m2" by (simp_all add: map_le_implies_dom_le)
  then have split: "new_chunks m m2 = new_chunks m m1 \<union> new_chunks m1 m2" "new_chunks m m1 \<inter> new_chunks m1 m2 = {}" by blast+
  note fin = new_finite [OF assms(1,3)] new_finite [OF assms(2,4)]
  show "card (new_chunks m m2) = card (new_chunks m m1) + card (new_chunks m1 m2)" unfolding split(1) by (rule card_Un_disjoint [OF fin split(2)])
  have "(\<Sum>a \<in> new_chunks m m1. length (ck_data (the (m2 a)))) = new_bytes m m1"
    unfolding new_bytes_def by (rule sum.cong) (use le(2) in \<open>auto simp: map_le_def dom_def\<close>)
  then show "new_bytes m m2 = new_bytes m m1 + new_bytes m1 m2"
    unfolding new_bytes_def [of m m2] split(1) sum.union_disjoint [OF fin split(2)] by (simp add: new_bytes_def)
qed

text \<open>The tally of a transfer grows by what was added.\<close>

definition tallied :: "transfer_result \<Rightarrow> transfer_result \<Rightarrow> (bytes \<Rightarrow> chunk option) \<Rightarrow> (bytes \<Rightarrow> chunk option) \<Rightarrow> bool" where
  "tallied r r' m m' \<longleftrightarrow> chunks_transferred r' = chunks_transferred r + of_nat (card (new_chunks m m')) \<and>
     bytes_transferred r' = bytes_transferred r + of_nat (new_bytes m m') \<and> tr_root r' = tr_root r"

lemma tallied_trans:
  assumes "stores b D m m1" "stores b E m1 m2" "finite D" "finite E" "tallied r r1 m m1" "tallied r1 r2 m1 m2"
  shows "tallied r r2 m m2"
  using new_chunks_trans [OF assms(1-4)] assms(5,6) by (simp add: tallied_def)

lemma tallied_refl: "tallied r (r\<lparr>chunks_skipped := s\<rparr>) m m" "tallied r r m m"
  by (simp_all add: tallied_def new_bytes_def)

section \<open>A transfer completes the tree\<close>

text \<open>The children of a tree's root chunk, for leaves and nodes alike.\<close>

fun tree_children :: "ptree \<Rightarrow> ptree list" where
  "tree_children (PLeaf es) = []"
| "tree_children (PNode l cs) = map snd cs"

lemma decode_root_children:
  assumes "\<And>x. length (b x) = 32" "good_tree b U t"
  shows "decode_child_addrs (chunk_from_bytes b (tree_data b t)) = Inr (map (tree_addr b) (tree_children t))"
proof (cases t)
  case (PLeaf es)
  then show ?thesis by (simp add: decode_child_addrs_def decode_internal_def chunk_from_bytes_def leaf_bytes_def)
next
  case (PNode l cs)
  with decode_node(3) [where b = b and U = U and l = l and cs = cs, OF assms(1) _ refl] assms(2)
  show ?thesis by (simp add: comp_def case_prod_unfold del: tree_data.simps)
qed

lemma tree_children_props:
  assumes "good_tree b U t" "s \<in> set (tree_children t)"
  shows "good_tree b U s" "tree_height s < tree_height t" "tree_chunks b s \<subseteq> tree_chunks b t"
  using assms child_height good_children by (cases t; fastforce)+

lemma tree_chunks_children: "tree_chunks b t = insert (tree_data b t) (\<Union>(tree_chunks b ` set (tree_children t)))"
  by (cases t) (auto simp: split_def)

locale chunk_transfer =
  src: lawful_chunk_store src_ops src_chunks src_ok + dst: lawful_chunk_store dst_ops dst_chunks dst_ok
  for src_ops :: "'s chunk_store" and src_chunks and src_ok and dst_ops :: "'d chunk_store" and dst_chunks and dst_ok
begin

lemma transfer_stores:
  assumes "\<And>x. length (b x) = 32" "inj_on b U" "src_ok src"
    and "good_tree b U t" "stored b (tree_chunks b t) (src_chunks src)" "dst_ok dst" "held b U (dst_chunks dst)"
    and "closed_below b U n (dst_chunks dst)" "tree_height t \<le> n" "tree_height t \<le> fuel"
  shows "\<exists>dst' r'. transfer_recursive fuel src_ops src dst_ops (tree_addr b t) dst r = Some (dst', r', Inr ()) \<and> dst_ok dst' \<and>
    stores b (tree_chunks b t) (dst_chunks dst) (dst_chunks dst') \<and> tallied r r' (dst_chunks dst) (dst_chunks dst')"
  using assms(4-)
proof (induction fuel arbitrary: t dst r n)
  case 0
  then show ?case by (cases t) auto
next
  case (Suc fuel)
  show ?case
  proof (cases "dst_chunks dst (tree_addr b t) = None")
    case False
    then have "stored b (tree_chunks b t) (dst_chunks dst)" using Suc.prems(1,5,6) by (auto simp: closed_below_def)
    then have "stores b (tree_chunks b t) (dst_chunks dst) (dst_chunks dst)" by (auto simp: stores_def stored_def)
    with False Suc.prems(3) show ?thesis by (simp add: dst.has tallied_refl)
  next
    case True
    let ?c = "chunk_from_bytes b (tree_data b t)"
    let ?r = "r\<lparr>chunks_transferred := chunks_transferred r + 1, bytes_transferred := bytes_transferred r + of_nat (length (ck_data ?c))\<rparr>"
    have load: "load_chunk src_ops ''INV-FERR-048'' (tree_addr b t) src = Inr ?c"
      using Suc.prems(2) root_chunk [of b t] by (auto simp: load_chunk_def src.get [OF assms(3)] stored_def tree_addr_def)
    have dU: "tree_data b t \<in> U" using Suc.prems(1) root_chunk by (auto simp: good_tree_def)
    obtain d1 where d1: "put_chunk dst_ops ?c dst = (d1, Inr (b (tree_data b t)))" "dst_ok d1"
        "stores b {tree_data b t} (dst_chunks dst) (dst_chunks d1)"
      using dst.put_stores [OF Suc.prems(3) assms(2) Suc.prems(4) dU] by blast
    have held1: "held b U (dst_chunks d1)" using stores_held [OF d1(3) Suc.prems(4)] dU by simp
    have "closed_below b U (tree_height t - 1) (dst_chunks d1)"
    proof (rule closed_below_put [OF assms(1,2) Suc.prems(5) d1(3)])
      show "tree_height t - 1 < tree_height s" if "good_tree b U s" "tree_addr b s = b (tree_data b t)" for s
      proof -
        have "s = t" using same_addr_same_tree [OF assms(1,2) that(1) Suc.prems(1)] that(2) by (simp add: tree_addr_def)
        then show ?thesis by (cases t) auto
      qed
    qed (use Suc.prems(6) in simp)
    moreover have "tallied r ?r (dst_chunks dst) (dst_chunks d1)"
    proof -
      have "new_chunks (dst_chunks dst) (dst_chunks d1) = {tree_addr b t}" "dst_chunks d1 (tree_addr b t) = Some ?c"
        using d1(3) True by (auto simp: stores_def stored_def tree_addr_def)
      then show ?thesis by (simp add: tallied_def new_bytes_def)
    qed
    moreover have "\<exists>d' r'. transfer_children (transfer_recursive fuel src_ops src dst_ops) (map (tree_addr b) ts) d q = Some (d', r', Inr ()) \<and>
        dst_ok d' \<and> stores b (\<Union>(tree_chunks b ` set ts)) (dst_chunks d) (dst_chunks d') \<and> tallied q r' (dst_chunks d) (dst_chunks d')"
      if "set ts \<subseteq> set (tree_children t)" "dst_ok d" "held b U (dst_chunks d)" "closed_below b U (tree_height t - 1) (dst_chunks d)" for ts d q
      using that
    proof (induction ts arbitrary: d q)
      case (Cons s ts)
      note s = tree_children_props [OF Suc.prems(1), of s]
      have "stored b (tree_chunks b s) (src_chunks src)" using Suc.prems(2) s(3) Cons.prems(1) stored_subset by fastforce
      then obtain d2 r2 where 2: "transfer_recursive fuel src_ops src dst_ops (tree_addr b s) d q = Some (d2, r2, Inr ())" "dst_ok d2"
          "stores b (tree_chunks b s) (dst_chunks d) (dst_chunks d2)" "tallied q r2 (dst_chunks d) (dst_chunks d2)"
        using Suc.IH [of s d "tree_height t - 1" q] s Cons.prems Suc.prems(7) by fastforce
      have "held b U (dst_chunks d2)" by (rule stores_held [OF 2(3) Cons.prems(3)]) (use s(1) Cons.prems(1) in \<open>auto simp: good_tree_def\<close>)
      moreover have "closed_below b U (tree_height t - 1) (dst_chunks d2)"
        by (rule closed_below_stores [OF assms(1,2) _ Cons.prems(4) 2(3)]) (use s(1) Cons.prems(1) in simp)
      ultimately obtain d3 r3 where 3: "transfer_children (transfer_recursive fuel src_ops src dst_ops) (map (tree_addr b) ts) d2 r2 = Some (d3, r3, Inr ())"
          "dst_ok d3" "stores b (\<Union>(tree_chunks b ` set ts)) (dst_chunks d2) (dst_chunks d3)" "tallied r2 r3 (dst_chunks d2) (dst_chunks d3)"
        using Cons.IH [OF _ 2(2)] Cons.prems(1) by fastforce
      have "tallied q r3 (dst_chunks d) (dst_chunks d3)"
        by (rule tallied_trans [OF 2(3) 3(3) _ _ 2(4) 3(4)]) (simp_all add: finite_tree_chunks)
      moreover have "stores b (\<Union>(tree_chunks b ` set (s # ts))) (dst_chunks d) (dst_chunks d3)" using stores_trans [OF 2(3) 3(3)] by simp
      ultimately show ?case using 2(1) 3(1,2) by simp
    qed (simp add: tallied_refl)
    from this [OF order_refl d1(2) held1] obtain d2 r2 where
      2: "transfer_children (transfer_recursive fuel src_ops src dst_ops) (map (tree_addr b) (tree_children t)) d1 ?r = Some (d2, r2, Inr ())"
        "dst_ok d2" "stores b (\<Union>(tree_chunks b ` set (tree_children t))) (dst_chunks d1) (dst_chunks d2)"
        "tallied ?r r2 (dst_chunks d1) (dst_chunks d2)" using calculation(1) by blast
    have "stores b (tree_chunks b t) (dst_chunks dst) (dst_chunks d2)"
      using stores_trans [OF d1(3) 2(3)] tree_chunks_children [of b t] by simp
    moreover have "tallied r r2 (dst_chunks dst) (dst_chunks d2)"
      by (rule tallied_trans [OF d1(3) 2(3) _ _ calculation(2) 2(4)]) (simp_all add: finite_tree_chunks)
    ultimately show ?thesis
      using True load d1(1) 2(1,2) decode_root_children [OF assms(1) Suc.prems(1)] Suc.prems(3) by (simp add: dst.has Let_def)
  qed
qed

end

interpretation mem2: chunk_transfer memory_chunk_store mem_chunks mem_ok memory_chunk_store mem_chunks mem_ok
  by unfold_locales

lemma closed_store_stores:
  assumes "\<And>x. length (b x) = 32" "inj_on b U" "good_tree b U t" "closed_store b U m" "stores b (tree_chunks b t) m m'"
  shows "closed_store b U m'"
  using closed_below_stores [OF assms(1-3) _ assms(5)] assms(4) by (auto simp: closed_store_def)

lemma mem_transfer:
  assumes "\<And>x. length (b x) = 32" "inj_on b U" "mem_ok src" "good_tree b U t" "stored b (tree_chunks b t) (mem_chunks src)"
    and "mem_ok dst" "held b U (mem_chunks dst)" "closed_store b U (mem_chunks dst)" "tree_height t \<le> fuel"
  shows "\<exists>dst' res. transfer fuel memory_chunk_store src memory_chunk_store (tree_addr b t) dst = Some (dst', Inr res) \<and>
    mem_ok dst' \<and> held b U (mem_chunks dst') \<and> closed_store b U (mem_chunks dst') \<and>
    stores b (tree_chunks b t) (mem_chunks dst) (mem_chunks dst') \<and> tr_root res = tree_addr b t \<and>
    chunks_transferred res = of_nat (card (new_chunks (mem_chunks dst) (mem_chunks dst'))) \<and>
    bytes_transferred res = of_nat (new_bytes (mem_chunks dst) (mem_chunks dst'))"
proof -
  let ?r = "\<lparr>chunks_transferred = 0, chunks_skipped = 0, bytes_transferred = 0, tr_root = tree_addr b t\<rparr>"
  have "closed_below b U (tree_height t) (mem_chunks dst)" using assms(8) by (simp add: closed_store_def)
  then obtain dst' r' where t: "transfer_recursive fuel memory_chunk_store src memory_chunk_store (tree_addr b t) dst ?r = Some (dst', r', Inr ())"
      "mem_ok dst'" "stores b (tree_chunks b t) (mem_chunks dst) (mem_chunks dst')" "tallied ?r r' (mem_chunks dst) (mem_chunks dst')"
    using mem2.transfer_stores [OF assms(1-7) _ order_refl assms(9)] by blast
  have "closed_store b U (mem_chunks dst')" by (rule closed_store_stores [OF assms(1,2,4,8) t(3)])
  moreover have "held b U (mem_chunks dst')" by (rule stores_held [OF t(3) assms(7)]) (use assms(4) in \<open>simp add: good_tree_def\<close>)
  ultimately show ?thesis using t by (auto simp: transfer_def tallied_def)
qed

lemma read_stored_tree:
  assumes "\<And>x. length (b x) = 32" "mem_ok st" "kvs_fit kvs" "om_inv kvs"
    "stored b (tree_chunks b (prolly_tree dk pw kvs)) (mem_chunks st)" "tree_height (prolly_tree dk pw kvs) \<le> fuel"
  shows "read_prolly_tree fuel memory_chunk_store st (tree_addr b (prolly_tree dk pw kvs)) = Some (Inr kvs)"
  using fold_om_insert_sorted [of "[]" kvs] assms(4)
  by (simp add: mem.walk_reads [OF assms(2,1,5) _ _ assms(6)] prolly_tree_fits [OF assms(3,4)] read_prolly_tree_def
      read_subtree_def fold_fold_concat concat_leaf_lists prolly_tree_entries om_inv_def)

text \<open>C12 A transfer into a closed store is complete and minimal: it ends without an error, the destination gains
  exactly the chunks of the tree it lacked and loses none, the counters say how many chunks and bytes were
  added, the tree can be read from the destination, and a second transfer adds nothing.
\<close>

theorem transfer_complete_minimal:
  assumes "\<And>x. length (blake3 x) = 32" "inj_on blake3 U" "kvs_fit kvs" "om_inv kvs"
    and "tree_chunks blake3 (prolly_tree derive_key pw kvs) \<subseteq> U" "tree_height (prolly_tree derive_key pw kvs) \<le> fuel"
    and "mem_ok src" "stored blake3 (tree_chunks blake3 (prolly_tree derive_key pw kvs)) (mem_chunks src)"
    and "mem_ok dst" "held blake3 U (mem_chunks dst)" "closed_store blake3 U (mem_chunks dst)"
    and "root = tree_addr blake3 (prolly_tree derive_key pw kvs)"
  shows "\<exists>dst' res res2. transfer fuel memory_chunk_store src memory_chunk_store root dst = Some (dst', Inr res) \<and>
    stores blake3 (tree_chunks blake3 (prolly_tree derive_key pw kvs)) (mem_chunks dst) (mem_chunks dst') \<and>
    closed_store blake3 U (mem_chunks dst') \<and>
    chunks_transferred res = of_nat (card (new_chunks (mem_chunks dst) (mem_chunks dst'))) \<and>
    bytes_transferred res = of_nat (new_bytes (mem_chunks dst) (mem_chunks dst')) \<and>
    read_prolly_tree fuel memory_chunk_store dst' root = Some (Inr kvs) \<and>
    transfer fuel memory_chunk_store src memory_chunk_store root dst' = Some (dst', Inr res2) \<and> chunks_transferred res2 = 0"
proof -
  let ?t = "prolly_tree derive_key pw kvs"
  have good: "good_tree blake3 U ?t" by (rule prolly_tree_good [OF assms(3-5)])
  obtain dst' res where 1: "transfer fuel memory_chunk_store src memory_chunk_store root dst = Some (dst', Inr res)" "mem_ok dst'"
      "closed_store blake3 U (mem_chunks dst')" "stores blake3 (tree_chunks blake3 ?t) (mem_chunks dst) (mem_chunks dst')"
      "chunks_transferred res = of_nat (card (new_chunks (mem_chunks dst) (mem_chunks dst')))"
      "bytes_transferred res = of_nat (new_bytes (mem_chunks dst) (mem_chunks dst'))"
    using mem_transfer [OF assms(1,2,7) good assms(8-11,6)] assms(12) by blast
  have sto: "stored blake3 (tree_chunks blake3 ?t) (mem_chunks dst')" using 1(4) by (simp add: stores_def)
  then have "mem_chunks dst' root = Some (chunk_from_bytes blake3 (tree_data blake3 ?t))"
    using root_chunk assms(12) by (auto simp: stored_def tree_addr_def)
  moreover obtain f where "fuel = Suc f" using assms(6) by (cases fuel; cases ?t) auto
  ultimately have "\<exists>res2. transfer fuel memory_chunk_store src memory_chunk_store root dst' = Some (dst', Inr res2) \<and> chunks_transferred res2 = 0"
    using 1(2) by (simp add: transfer_def mem.has)
  then show ?thesis using 1 read_stored_tree [OF assms(1) 1(2) assms(3,4) sto assms(6)] assms(12) by blast
qed

section \<open>Manifests\<close>

definition roots_ok :: "root_set \<Rightarrow> bool" where
  "roots_ok rs \<longleftrightarrow> (\<forall>r \<in> {rs_primary rs, rs_eavt rs, rs_aevt rs, rs_vaet rs, rs_avet rs}. length r = 32)"

lemma rs_roundtrip: "roots_ok rs \<Longrightarrow> rs_from_canonical_bytes (rs_canonical_bytes rs) = rs"
  by (simp add: rs_from_canonical_bytes_def rs_canonical_bytes_def roots_ok_def)

lemma rs_length: "roots_ok rs \<Longrightarrow> length (rs_canonical_bytes rs) = MANIFEST_SIZE"
  by (simp add: rs_canonical_bytes_def roots_ok_def MANIFEST_SIZE_def)

lemma resolve_stored:
  assumes "mem_ok st" "roots_ok rs" "stored b {rs_canonical_bytes rs} (mem_chunks st)"
  shows "resolve_manifest memory_chunk_store (b (rs_canonical_bytes rs)) st = Inr rs"
  using assms by (simp add: resolve_manifest_def load_chunk_def mem.get stored_def chunk_from_bytes_def rs_length rs_roundtrip)

lemma transfer_roots_complete:
  assumes "\<And>x. length (b x) = 32" "inj_on b U" "mem_ok src"
    and "\<forall>t \<in> set ts. good_tree b U t \<and> stored b (tree_chunks b t) (mem_chunks src) \<and> tree_height t \<le> fuel"
    and "mem_ok dst" "held b U (mem_chunks dst)" "closed_store b U (mem_chunks dst)"
  shows "\<exists>dst'. transfer_roots (transfer fuel memory_chunk_store src memory_chunk_store) (map (tree_addr b) ts) dst = Some (dst', Inr ()) \<and>
    mem_ok dst' \<and> stores b (\<Union>(tree_chunks b ` set ts)) (mem_chunks dst) (mem_chunks dst')"
  using assms(4-)
proof (induction ts arbitrary: dst)
  case (Cons t ts)
  then have t: "good_tree b U t" "stored b (tree_chunks b t) (mem_chunks src)" "tree_height t \<le> fuel" by auto
  obtain d1 res where 1: "transfer fuel memory_chunk_store src memory_chunk_store (tree_addr b t) dst = Some (d1, Inr res)" "mem_ok d1"
      "held b U (mem_chunks d1)" "closed_store b U (mem_chunks d1)" "stores b (tree_chunks b t) (mem_chunks dst) (mem_chunks d1)"
    using mem_transfer [OF assms(1-3) t(1,2) Cons.prems(2-4) t(3)] by blast
  obtain d2 where 2: "transfer_roots (transfer fuel memory_chunk_store src memory_chunk_store) (map (tree_addr b) ts) d1 = Some (d2, Inr ())"
      "mem_ok d2" "stores b (\<Union>(tree_chunks b ` set ts)) (mem_chunks d1) (mem_chunks d2)"
    using Cons.IH [OF _ 1(2-4)] Cons.prems(1) by auto
  show ?case using 1(1) 2(1,2) stores_trans [OF 1(5) 2(3)] by simp
qed simp

text \<open>Storing a chunk that is no tree chunk keeps the store closed.\<close>

lemma closed_store_put_other:
  assumes "\<And>x. length (b x) = 32" "inj_on b U" "closed_store b U m" "stores b {d} m m'" "d \<in> U" "\<And>t. good_tree b U t \<Longrightarrow> tree_data b t \<noteq> d"
  shows "closed_store b U m'"
  unfolding closed_store_def
proof
  fix n
  have "tree_addr b t \<noteq> b d" if "good_tree b U t" for t
    using that assms(2,5,6) root_chunk unfolding good_tree_def tree_addr_def by (meson inj_onD subsetD)
  then show "closed_below b U n m'"
    using closed_below_put [OF assms(1,2) _ assms(4) order_refl] assms(3) by (metis closed_store_def)
qed

text \<open>The roots of the five index trees of a snapshot, built over five maps.\<close>

definition snapshot_roots :: "(bytes \<Rightarrow> bytes) \<Rightarrow> ptree \<Rightarrow> ptree \<Rightarrow> ptree \<Rightarrow> ptree \<Rightarrow> ptree \<Rightarrow> root_set" where
  "snapshot_roots b p e a v x =
     \<lparr>rs_primary = tree_addr b p, rs_eavt = tree_addr b e, rs_aevt = tree_addr b a, rs_vaet = tree_addr b v, rs_avet = tree_addr b x\<rparr>"

lemma snapshot_transfer:
  assumes "\<And>x. length (b x) = 32" "inj_on b U" "mem_ok src" "rs = snapshot_roots b p e a v x" "rs_canonical_bytes rs \<in> U"
    and "stored b {rs_canonical_bytes rs} (mem_chunks src)"
    and "\<forall>t \<in> {p, e, a, v, x}. good_tree b U t \<and> stored b (tree_chunks b t) (mem_chunks src) \<and> tree_height t \<le> fuel"
    and "mem_ok dst" "held b U (mem_chunks dst)" "closed_store b U (mem_chunks dst)"
    and "\<And>t. good_tree b U t \<Longrightarrow> tree_data b t \<noteq> rs_canonical_bytes rs"
  shows "\<exists>dst'. transfer_snapshot memory_chunk_store src memory_chunk_store (transfer fuel memory_chunk_store src memory_chunk_store)
      (b (rs_canonical_bytes rs)) dst = Some (dst', Inr ()) \<and> mem_ok dst' \<and>
    stores b (insert (rs_canonical_bytes rs) (\<Union>t \<in> {p, e, a, v, x}. tree_chunks b t)) (mem_chunks dst) (mem_chunks dst') \<and>
    resolve_manifest memory_chunk_store (b (rs_canonical_bytes rs)) dst' = Inr rs"
proof -
  let ?m = "rs_canonical_bytes rs"
  have roots: "roots_ok rs" by (simp add: assms(4) roots_ok_def snapshot_roots_def tree_addr_def assms(1))
  have load: "load_chunk memory_chunk_store ''INV-FERR-049'' (b ?m) src = Inr (chunk_from_bytes b ?m)"
    using assms(6) by (simp add: load_chunk_def mem.get [OF assms(3)] stored_def)
  obtain d1 where d1: "put_chunk memory_chunk_store (chunk_from_bytes b ?m) dst = (d1, Inr (b ?m))" "mem_ok d1"
      "stores b {?m} (mem_chunks dst) (mem_chunks d1)"
    using mem.put_stores [OF assms(8,2,9,5)] by blast
  have same: "d1 = dst" if "mem_chunks dst (b ?m) \<noteq> None"
    using d1(1) that assms(8) by (auto simp: memory_chunk_store_def mem_put_chunk_def mem_ok_def mem_chunks_def chunk_from_bytes_def)
  have "held b U (mem_chunks d1)" by (rule stores_held [OF d1(3) assms(9)]) (use assms(5) in simp)
  moreover have "closed_store b U (mem_chunks d1)" by (rule closed_store_put_other [OF assms(1,2,10) d1(3) assms(5,11)])
  ultimately obtain d2 where d2: "transfer_roots (transfer fuel memory_chunk_store src memory_chunk_store) (map (tree_addr b) [p, e, a, v, x]) d1 =
      Some (d2, Inr ())" "mem_ok d2" "stores b (\<Union>(tree_chunks b ` set [p, e, a, v, x])) (mem_chunks d1) (mem_chunks d2)"
    using transfer_roots_complete [OF assms(1-3), of "[p, e, a, v, x]" fuel d1] assms(7) d1(2) by auto
  have all: "stores b (insert ?m (\<Union>t \<in> {p, e, a, v, x}. tree_chunks b t)) (mem_chunks dst) (mem_chunks d2)"
    using stores_trans [OF d1(3) d2(3)] by simp
  then have "stored b {?m} (mem_chunks d2)" by (auto simp: stores_def stored_def)
  then have "resolve_manifest memory_chunk_store (b ?m) d2 = Inr rs" by (rule resolve_stored [OF d2(2) roots])
  moreover have "resolve_manifest memory_chunk_store (b ?m) src = Inr rs" by (rule resolve_stored [OF assms(3) roots assms(6)])
  then have "transfer_snapshot memory_chunk_store src memory_chunk_store (transfer fuel memory_chunk_store src memory_chunk_store) (b ?m) dst =
      Some (d2, Inr ())"
    using load d1(1) d2(1) same assms(4) by (auto simp: transfer_snapshot_def mem.has [OF assms(8)] snapshot_roots_def)
  ultimately show ?thesis using all d2(2) by blast
qed

text \<open>A snapshot transfer carries the whole snapshot: into a closed store it ends without an error, after it the
  manifest resolves in the destination to the same five roots, and each of the five maps is read back from
  its root there. Besides collision-freeness of the hash, the manifest's bytes must not happen to be a tree chunk.
\<close>

theorem snapshot_transfer_complete:
  assumes "\<And>x. length (blake3 x) = 32" "inj_on blake3 U" "mem_ok src" "rs_canonical_bytes rs \<in> U"
    and "rs = snapshot_roots blake3 (prolly_tree dk pw kp) (prolly_tree dk pw ke) (prolly_tree dk pw ka) (prolly_tree dk pw kv) (prolly_tree dk pw kx)"
    and "stored blake3 {rs_canonical_bytes rs} (mem_chunks src)"
    and "\<forall>k \<in> {kp, ke, ka, kv, kx}. kvs_fit k \<and> om_inv k \<and> tree_chunks blake3 (prolly_tree dk pw k) \<subseteq> U \<and>
      stored blake3 (tree_chunks blake3 (prolly_tree dk pw k)) (mem_chunks src) \<and> tree_height (prolly_tree dk pw k) \<le> fuel"
    and "mem_ok dst" "held blake3 U (mem_chunks dst)" "closed_store blake3 U (mem_chunks dst)"
    and "\<And>t. good_tree blake3 U t \<Longrightarrow> tree_data blake3 t \<noteq> rs_canonical_bytes rs"
  shows "\<exists>dst'. transfer_snapshot memory_chunk_store src memory_chunk_store (transfer fuel memory_chunk_store src memory_chunk_store)
      (blake3 (rs_canonical_bytes rs)) dst = Some (dst', Inr ()) \<and>
    resolve_manifest memory_chunk_store (blake3 (rs_canonical_bytes rs)) dst' = Inr rs \<and>
    (\<forall>(root, k) \<in> {(rs_primary rs, kp), (rs_eavt rs, ke), (rs_aevt rs, ka), (rs_vaet rs, kv), (rs_avet rs, kx)}.
       read_prolly_tree fuel memory_chunk_store dst' root = Some (Inr k)) \<and> mem_chunks dst \<subseteq>\<^sub>m mem_chunks dst'"
proof -
  let ?t = "prolly_tree dk pw"
  have "\<forall>t \<in> {?t kp, ?t ke, ?t ka, ?t kv, ?t kx}. good_tree blake3 U t \<and> stored blake3 (tree_chunks blake3 t) (mem_chunks src) \<and> tree_height t \<le> fuel"
    using assms(7) by (auto intro: prolly_tree_good)
  from snapshot_transfer [OF assms(1-3,5,4,6) this assms(8-11)] obtain dst' where d:
    "transfer_snapshot memory_chunk_store src memory_chunk_store (transfer fuel memory_chunk_store src memory_chunk_store)
      (blake3 (rs_canonical_bytes rs)) dst = Some (dst', Inr ())" "mem_ok dst'"
    "stores blake3 (insert (rs_canonical_bytes rs) (\<Union>t \<in> {?t kp, ?t ke, ?t ka, ?t kv, ?t kx}. tree_chunks blake3 t)) (mem_chunks dst) (mem_chunks dst')"
    "resolve_manifest memory_chunk_store (blake3 (rs_canonical_bytes rs)) dst' = Inr rs" by blast
  have "read_prolly_tree fuel memory_chunk_store dst' (tree_addr blake3 (?t k)) = Some (Inr k)" if "k \<in> {kp, ke, ka, kv, kx}" for k
  proof (rule read_stored_tree [OF assms(1) d(2)])
    show "stored blake3 (tree_chunks blake3 (?t k)) (mem_chunks dst')"
      by (rule stored_subset [of _ "insert (rs_canonical_bytes rs) (\<Union>t \<in> {?t kp, ?t ke, ?t ka, ?t kv, ?t kx}. tree_chunks blake3 t)"])
        (use d(3) that in \<open>auto simp: stores_def\<close>)
  qed (use assms(7) that in auto)
  then have "\<forall>(root, k) \<in> {(rs_primary rs, kp), (rs_eavt rs, ke), (rs_aevt rs, ka), (rs_vaet rs, kv), (rs_avet rs, kx)}.
      read_prolly_tree fuel memory_chunk_store dst' root = Some (Inr k)" by (simp add: assms(5) snapshot_roots_def)
  moreover have "mem_chunks dst \<subseteq>\<^sub>m mem_chunks dst'" using d(3) by (simp add: stores_def)
  ultimately show ?thesis using d(1,4) by blast
qed

section \<open>Examples\<close>

lemma empty_closed: "closed_store b U (mem_chunks memory_chunks_new)"
  by (simp add: closed_store_def closed_below_def mem_chunks_def memory_chunks_new_def)

lemma demo_heights: "tree_height (prolly_tree demo_derive 0 demo_kvs) \<le> 2" "tree_height (prolly_tree demo_derive 0 demo_small) \<le> 2"
  by code_simp+

theorem transfer_complete_minimal_witness:
  "\<exists>src dst' res. transfer 2 memory_chunk_store src memory_chunk_store (tree_addr demo_hash (prolly_tree demo_derive 0 demo_kvs)) memory_chunks_new =
      Some (dst', Inr res) \<and>
    read_prolly_tree 2 memory_chunk_store dst' (tree_addr demo_hash (prolly_tree demo_derive 0 demo_kvs)) = Some (Inr demo_kvs)"
proof -
  obtain st where st: "mem_ok st" "stored demo_hash demo_union (mem_chunks st)"
    using demo_both_stored [OF demo_union_inj order_refl] by blast
  have "stored demo_hash (tree_chunks demo_hash (prolly_tree demo_derive 0 demo_kvs)) (mem_chunks st)" using st(2) by (auto simp: stored_def)
  from transfer_complete_minimal [OF demo_hash_length demo_union_inj demo_kvs_fit Un_upper1 demo_heights(1) st(1) this demo_store empty_closed refl]
  show ?thesis by blast
qed

definition demo_roots :: root_set where
  "demo_roots = (let t = prolly_tree demo_derive 0; k = t demo_kvs; s = t demo_small in snapshot_roots demo_hash k s s k s)"

theorem snapshot_transfer_complete_witness:
  "\<exists>src dst'. transfer_snapshot memory_chunk_store src memory_chunk_store (transfer 2 memory_chunk_store src memory_chunk_store)
      (demo_hash (rs_canonical_bytes demo_roots)) memory_chunks_new = Some (dst', Inr ()) \<and>
    resolve_manifest memory_chunk_store (demo_hash (rs_canonical_bytes demo_roots)) dst' = Inr demo_roots \<and>
    read_prolly_tree 2 memory_chunk_store dst' (rs_vaet demo_roots) = Some (Inr demo_kvs)"
proof -
  let ?m = "rs_canonical_bytes demo_roots" and ?t = "prolly_tree demo_derive 0"
  let ?U = "insert ?m demo_union"
  have inj: "inj_on demo_hash ?U" unfolding inj_on_def by code_simp
  obtain st where st: "mem_ok st" "held demo_hash ?U (mem_chunks st)" "stored demo_hash demo_union (mem_chunks st)"
    using demo_both_stored [OF inj subset_insertI] by blast
  obtain src where src: "mem_ok src" "stores demo_hash {?m} (mem_chunks st) (mem_chunks src)"
    using mem.put_stores [OF st(1) inj st(2), of ?m] by blast
  have sto: "stored demo_hash demo_union (mem_chunks src)" "stored demo_hash {?m} (mem_chunks src)"
    using src(2) st(3) stored_mono by (auto simp: stores_def)
  have not: "tree_data demo_hash t \<noteq> ?m" for t
  proof -
    have "hd ?m = 9" by code_simp
    moreover have "hd (tree_data demo_hash t) \<noteq> 9" by (cases t) (simp_all add: leaf_bytes_def node_bytes_of_def)
    ultimately show ?thesis by metis
  qed
  have all: "\<forall>k \<in> {demo_kvs, demo_small, demo_small, demo_kvs, demo_small}. kvs_fit k \<and> om_inv k \<and> tree_chunks demo_hash (?t k) \<subseteq> ?U \<and>
      stored demo_hash (tree_chunks demo_hash (?t k)) (mem_chunks src) \<and> tree_height (?t k) \<le> 2"
    using demo_kvs_fit demo_small_fit demo_heights sto(1) by (auto simp: stored_def)
  have rs: "demo_roots = snapshot_roots demo_hash (?t demo_kvs) (?t demo_small) (?t demo_small) (?t demo_kvs) (?t demo_small)"
    by (simp add: demo_roots_def Let_def)
  from snapshot_transfer_complete [OF demo_hash_length inj src(1) insertI1 rs sto(2) all demo_store empty_closed not]
  show ?thesis by blast
qed

text \<open>
  An interrupted transfer is not resumed: a chunk is stored before its children, so when a child is missing
  in the source, the destination keeps the root chunk alone. Every later transfer, from any source, then finds
  the root chunk, copies nothing and reports success, and the tree still cannot be read.
\<close>

definition demo_root :: bytes where
  "demo_root = tree_addr demo_hash (prolly_tree demo_derive 0 demo_kvs)"

definition demo_partial :: memory_chunks where
  "demo_partial = fst (mem_put_chunk (chunk_from_bytes demo_hash (tree_data demo_hash (prolly_tree demo_derive 0 demo_kvs))) memory_chunks_new)"

theorem interrupted_transfer_not_resumed:
  "\<exists>dst. transfer 2 memory_chunk_store demo_partial memory_chunk_store demo_root memory_chunks_new = Some (dst, Inl (InvariantViolation ''INV-FERR-048'')) \<and>
    (\<forall>src. \<exists>res. transfer 2 memory_chunk_store src memory_chunk_store demo_root dst = Some (dst, Inr res) \<and> chunks_transferred res = 0) \<and>
    read_prolly_tree 2 memory_chunk_store dst demo_root = Some (Inl (InvariantViolation ''INV-FERR-049''))"
proof (intro exI conjI allI)
  show "transfer 2 memory_chunk_store demo_partial memory_chunk_store demo_root memory_chunks_new = Some (demo_partial, Inl (InvariantViolation ''INV-FERR-048''))"
    by code_simp
  show "read_prolly_tree 2 memory_chunk_store demo_partial demo_root = Some (Inl (InvariantViolation ''INV-FERR-049''))" by code_simp
  have has: "mem_has_chunk demo_root demo_partial = Inr True" by code_simp
  let ?res = "\<lparr>chunks_transferred = 0, chunks_skipped = 1, bytes_transferred = 0, tr_root = demo_root\<rparr>"
  show "transfer 2 memory_chunk_store src memory_chunk_store demo_root demo_partial = Some (demo_partial, Inr ?res)" for src
    using has by (simp add: transfer_def numeral_2_eq_2 memory_chunk_store_def)
  show "chunks_transferred ?res = 0" by simp
qed

end
