(* ===== verification/Mph.thy ===== *)
theory Mph
  imports Search
begin

text \<open>
  The perfect hash over entities (\<open>ferratomic-positional/src/mph.rs\<close>) and the lookup that uses it
  (\<open>entity_lookup\<close> of \<open>search.rs\<close>). The table is built by trying displacements bucket by bucket; it may fail, and
  then the lookup falls back to binary search. The main result is that the lookup equals the binary search
  for every entity, stored or not, however the build went.

  Slots, positions and key indices are 32-bit numbers in the code; here they are naturals with the saturation
  written out, and \<open>u32_max\<close> is the mark of a free slot. The buckets are sorted by an unstable sort, which is a
  parameter: any function that returns the buckets in the order of their sizes.
\<close>

section \<open>Hashes and slots\<close>

definition MAX_DISPLACEMENT :: nat where "MAX_DISPLACEMENT = 1024"
definition BUCKET_RATIO :: nat where "BUCKET_RATIO = 4"

definition be_u64 :: "nat \<Rightarrow> entity_id \<Rightarrow> u64" where
  "be_u64 k eid = from_le_bytes (rev (take 8 (drop k (entity_bytes eid))))"

definition mph_h1 :: "entity_id \<Rightarrow> u64" where "mph_h1 eid = be_u64 0 eid"
definition mph_h2 :: "entity_id \<Rightarrow> u64" where "mph_h2 eid = be_u64 8 eid"
definition mph_h3 :: "entity_id \<Rightarrow> u64" where "mph_h3 eid = be_u64 16 eid"

definition reduce_hash :: "u64 \<Rightarrow> nat \<Rightarrow> nat" where
  "reduce_hash hash_val modulus = unat hash_val mod modulus"

text \<open>Every key is pushed onto the bucket its first hash selects.\<close>

fun assign_loop :: "nat \<Rightarrow> nat \<Rightarrow> entity_id list \<Rightarrow> nat list list \<Rightarrow> nat list list" where
  "assign_loop num_buckets i [] buckets = buckets"
| "assign_loop num_buckets i (key # keys) buckets =
     (let r = reduce_hash (mph_h1 key) num_buckets
      in assign_loop num_buckets (i + 1) keys (buckets[r := buckets ! r @ [i]]))"

definition assign_buckets :: "entity_id list \<Rightarrow> nat \<Rightarrow> nat list list" where
  "assign_buckets sorted_keys num_buckets = assign_loop num_buckets 0 sorted_keys (replicate num_buckets [])"

definition slot_for_key :: "entity_id \<Rightarrow> nat \<Rightarrow> nat \<Rightarrow> nat" where
  "slot_for_key key d num_slots = reduce_hash (mph_h2 key + of_nat d * mph_h3 key) num_slots"

fun try_slots :: "nat list \<Rightarrow> entity_id list \<Rightarrow> nat \<Rightarrow> nat \<Rightarrow> bool list \<Rightarrow> nat list \<Rightarrow> nat list option" where
  "try_slots [] sorted_keys d num_slots slot_occupied slots_used = Some slots_used"
| "try_slots (key_idx # bucket) sorted_keys d num_slots slot_occupied slots_used =
     (let slot = slot_for_key (sorted_keys ! key_idx) d num_slots
      in if slot_occupied ! slot \<or> slot \<in> set slots_used then None
         else try_slots bucket sorted_keys d num_slots slot_occupied (slots_used @ [slot]))"

definition try_displacement :: "nat list \<Rightarrow> entity_id list \<Rightarrow> nat \<Rightarrow> nat \<Rightarrow> bool list \<Rightarrow> nat list option" where
  "try_displacement bucket sorted_keys d num_slots slot_occupied = try_slots bucket sorted_keys d num_slots slot_occupied []"

section \<open>The table\<close>

record chd_backend =
  displacements :: "nat list"
  slot_to_key_idx :: "nat list"

fun find_map :: "('a \<Rightarrow> 'b option) \<Rightarrow> 'a list \<Rightarrow> 'b option" where
  "find_map f [] = None"
| "find_map f (x # xs) = (case f x of Some y \<Rightarrow> Some y | None \<Rightarrow> find_map f xs)"

record placing =
  pl_displacements :: "nat list"
  pl_occupied :: "bool list"
  pl_slots :: "nat list"

fun mark_slots :: "(nat \<times> nat) list \<Rightarrow> placing \<Rightarrow> placing" where
  "mark_slots [] pl = pl"
| "mark_slots ((key_idx, slot) # ks) pl =
     mark_slots ks (pl\<lparr>pl_occupied := (pl_occupied pl)[slot := True],
       pl_slots := (pl_slots pl)[slot := sat_usize u32_max key_idx]\<rparr>)"

fun place_buckets :: "nat list \<Rightarrow> nat list list \<Rightarrow> entity_id list \<Rightarrow> nat \<Rightarrow> placing \<Rightarrow> placing option" where
  "place_buckets [] buckets sorted_keys num_slots pl = Some pl"
| "place_buckets (bi # order) buckets sorted_keys num_slots pl =
     (if buckets ! bi = [] then place_buckets order buckets sorted_keys num_slots pl
      else (case find_map (\<lambda>d. map_option (Pair d) (try_displacement (buckets ! bi) sorted_keys d num_slots (pl_occupied pl)))
                   [0..<MAX_DISPLACEMENT] of
              None \<Rightarrow> None
            | Some (d, slots) \<Rightarrow>
                place_buckets order buckets sorted_keys num_slots
                  (mark_slots (zip (buckets ! bi) slots) (pl\<lparr>pl_displacements := (pl_displacements pl)[bi := d]\<rparr>))))"

text \<open>Largest buckets first. The sort is not stable, so the order of buckets of equal size is any: the sort is a
  parameter, of which \<open>sorts_buckets\<close> holds.\<close>

definition sorts_buckets :: "(nat list list \<Rightarrow> nat list \<Rightarrow> nat list) \<Rightarrow> bool" where
  "sorts_buckets srt \<longleftrightarrow>
     (\<forall>bs xs. mset (srt bs xs) = mset xs \<and> sorted_wrt (\<lambda>a b. length (bs ! b) \<le> length (bs ! a)) (srt bs xs))"

definition chd_build :: "(nat list list \<Rightarrow> nat list \<Rightarrow> nat list) \<Rightarrow> entity_id list \<Rightarrow> chd_backend option" where
  "chd_build srt sorted_keys =
     (if length sorted_keys \<ge> u32_max then None
      else let n = length sorted_keys
      in if n = 0 then Some \<lparr>displacements = [], slot_to_key_idx = []\<rparr>
         else let num_buckets = n div BUCKET_RATIO + 1;
                  num_slots = n + n div 4 + 1;
                  buckets = assign_buckets sorted_keys num_buckets;
                  bucket_order = srt buckets [0..<num_buckets]
              in map_option (\<lambda>pl. \<lparr>displacements = pl_displacements pl, slot_to_key_idx = pl_slots pl\<rparr>)
                   (place_buckets bucket_order buckets sorted_keys num_slots
                      \<lparr>pl_displacements = replicate num_buckets 0, pl_occupied = replicate num_slots False,
                       pl_slots = replicate num_slots u32_max\<rparr>))"

definition chd_lookup :: "chd_backend \<Rightarrow> entity_id \<Rightarrow> nat" where
  "chd_lookup c key =
     (if slot_to_key_idx c = [] then 0
      else let bucket = reduce_hash (mph_h1 key) (length (displacements c))
           in slot_for_key key (displacements c ! bucket) (length (slot_to_key_idx c)))"

definition reverse_lookup :: "chd_backend \<Rightarrow> nat \<Rightarrow> nat option" where
  "reverse_lookup c slot =
     (let raw = (if slot < length (slot_to_key_idx c) then slot_to_key_idx c ! slot else u32_max)
      in if raw = u32_max then None else Some raw)"

record mph =
  mph_backend :: chd_backend
  entity_first_pos :: "nat list"

definition mph_build :: "(nat list list \<Rightarrow> nat list \<Rightarrow> nat list) \<Rightarrow> entity_id list \<Rightarrow> nat list \<Rightarrow> mph option" where
  "mph_build srt sorted_keys first_positions =
     map_option (\<lambda>b. \<lparr>mph_backend = b, entity_first_pos = first_positions\<rparr>) (chd_build srt sorted_keys)"

definition entity_position :: "mph \<Rightarrow> entity_id \<Rightarrow> datom list \<Rightarrow> nat option" where
  "entity_position m key canonical =
     (if entity_first_pos m = [] then None
      else let slot = chd_lookup (mph_backend m) key
      in Option.bind (reverse_lookup (mph_backend m) slot) (\<lambda>key_idx.
           if key_idx < length (entity_first_pos m)
           then let pos = entity_first_pos m ! key_idx
                in if pos < length canonical \<and> d_entity (canonical ! pos) = key then Some pos else None
           else None))"

definition entity_lookup :: "(nat list list \<Rightarrow> nat list \<Rightarrow> nat list) \<Rightarrow> positional_store \<Rightarrow> entity_id \<Rightarrow> nat option" where
  "entity_lookup srt s eid =
     (let (keys, positions) = unique_entities_with_positions s
      in case mph_build srt keys positions of
           Some m \<Rightarrow> entity_position m eid (ps_canonical s)
         | None \<Rightarrow> first_datom_position_for_entity s eid)"

section \<open>Buckets and displacements\<close>

lemma reduce_hash_less: "0 < m \<Longrightarrow> reduce_hash h m < m"
  by (simp add: reduce_hash_def)

lemma assign_loop_length [simp]: "length (assign_loop nb i keys bs) = length bs"
  by (induction keys arbitrary: i bs) (auto simp: Let_def)

lemma assign_loop_spec:
  "length bs = nb \<Longrightarrow> 0 < nb \<Longrightarrow> b < nb \<Longrightarrow> set (assign_loop nb i keys bs ! b) =
     set (bs ! b) \<union> {j. i \<le> j \<and> j < i + length keys \<and> reduce_hash (mph_h1 (keys ! (j - i))) nb = b}"
proof (induction keys arbitrary: i bs)
  case (Cons k keys)
  let ?r = "reduce_hash (mph_h1 k) nb"
  let ?bs = "bs[?r := bs ! ?r @ [i]]"
  have rl: "?r < length bs" using Cons.prems reduce_hash_less by simp
  have "{j. i \<le> j \<and> j < i + length (k # keys) \<and> reduce_hash (mph_h1 ((k # keys) ! (j - i))) nb = b} =
      (if ?r = b then {i} else {}) \<union> {j. i + 1 \<le> j \<and> j < i + 1 + length keys \<and> reduce_hash (mph_h1 (keys ! (j - (i + 1)))) nb = b}"
  proof (intro set_eqI iffI)
    fix j assume "j \<in> {j. i \<le> j \<and> j < i + length (k # keys) \<and> reduce_hash (mph_h1 ((k # keys) ! (j - i))) nb = b}"
    then show "j \<in> (if ?r = b then {i} else {}) \<union> {j. i + 1 \<le> j \<and> j < i + 1 + length keys \<and> reduce_hash (mph_h1 (keys ! (j - (i + 1)))) nb = b}"
      by (cases "j = i") (auto simp: nth_Cons')
  next
    fix j assume "j \<in> (if ?r = b then {i} else {}) \<union> {j. i + 1 \<le> j \<and> j < i + 1 + length keys \<and> reduce_hash (mph_h1 (keys ! (j - (i + 1)))) nb = b}"
    then show "j \<in> {j. i \<le> j \<and> j < i + length (k # keys) \<and> reduce_hash (mph_h1 ((k # keys) ! (j - i))) nb = b}"
      by (auto simp: nth_Cons' split: if_splits)
  qed
  moreover have "set (?bs ! b) = set (bs ! b) \<union> (if ?r = b then {i} else {})" using rl by (auto simp: nth_list_update)
  ultimately show ?case using Cons.IH [of ?bs "i + 1"] Cons.prems by (simp add: Let_def Un_assoc)
qed auto

lemma assign_buckets_spec:
  assumes "0 < nb" "b < nb"
  shows "set (assign_buckets keys nb ! b) = {j. j < length keys \<and> reduce_hash (mph_h1 (keys ! j)) nb = b}"
  using assign_loop_spec [of "replicate nb []" nb b 0 keys] assms by (simp add: assign_buckets_def)

lemma try_slots_spec:
  "try_slots bucket keys d n occ used = Some slots \<Longrightarrow>
     slots = used @ map (\<lambda>i. slot_for_key (keys ! i) d n) bucket \<and> (distinct used \<longrightarrow> distinct slots) \<and>
     (\<forall>i \<in> set bucket. \<not> occ ! slot_for_key (keys ! i) d n)"
proof (induction bucket arbitrary: used)
  case (Cons i bucket)
  let ?s = "slot_for_key (keys ! i) d n"
  have "\<not> occ ! ?s" "?s \<notin> set used" "try_slots bucket keys d n occ (used @ [?s]) = Some slots"
    using Cons.prems by (auto simp: Let_def split: if_splits)
  note r = this Cons.IH [OF this(3)]
  show ?case
  proof (intro conjI)
    show "slots = used @ map (\<lambda>i. slot_for_key (keys ! i) d n) (i # bucket)" using r(4) by simp
    show "distinct used \<longrightarrow> distinct slots" using r(2) conjunct1 [OF conjunct2 [OF r(4)]] by simp
    show "\<forall>i \<in> set (i # bucket). \<not> occ ! slot_for_key (keys ! i) d n" using r(1,4) by simp
  qed
qed simp

lemma find_map_Some: "find_map f xs = Some y \<Longrightarrow> \<exists>x \<in> set xs. f x = Some y"
  by (induction xs) (auto split: option.splits)

lemma mark_slots_spec:
  assumes "distinct (map snd ks)" "\<forall>(i, s) \<in> set ks. s < length (pl_slots pl)" "length (pl_occupied pl) = length (pl_slots pl)"
  shows "pl_displacements (mark_slots ks pl) = pl_displacements pl \<and> length (pl_slots (mark_slots ks pl)) = length (pl_slots pl) \<and>
    length (pl_occupied (mark_slots ks pl)) = length (pl_slots pl) \<and>
    (\<forall>s. s \<notin> snd ` set ks \<longrightarrow> pl_slots (mark_slots ks pl) ! s = pl_slots pl ! s \<and> pl_occupied (mark_slots ks pl) ! s = pl_occupied pl ! s) \<and>
    (\<forall>(i, s) \<in> set ks. pl_slots (mark_slots ks pl) ! s = sat_usize u32_max i \<and> pl_occupied (mark_slots ks pl) ! s)"
  using assms
proof (induction ks arbitrary: pl)
  case (Cons k ks)
  obtain i s where k: "k = (i, s)" by fastforce
  let ?pl = "pl\<lparr>pl_occupied := (pl_occupied pl)[s := True], pl_slots := (pl_slots pl)[s := sat_usize u32_max i]\<rparr>"
  have IH: "pl_displacements (mark_slots ks ?pl) = pl_displacements ?pl \<and> length (pl_slots (mark_slots ks ?pl)) = length (pl_slots ?pl) \<and>
    length (pl_occupied (mark_slots ks ?pl)) = length (pl_slots ?pl) \<and>
    (\<forall>s. s \<notin> snd ` set ks \<longrightarrow> pl_slots (mark_slots ks ?pl) ! s = pl_slots ?pl ! s \<and> pl_occupied (mark_slots ks ?pl) ! s = pl_occupied ?pl ! s) \<and>
    (\<forall>(i, s) \<in> set ks. pl_slots (mark_slots ks ?pl) ! s = sat_usize u32_max i \<and> pl_occupied (mark_slots ks ?pl) ! s)"
    by (rule Cons.IH) (use Cons.prems k in auto)
  have s: "s \<notin> snd ` set ks" "s < length (pl_slots pl)" "s < length (pl_occupied pl)" using Cons.prems k by auto
  then show ?case using IH unfolding k by (auto simp: nth_list_update)
qed simp

section \<open>The table is a perfect hash\<close>

text \<open>Every key of a placed bucket is in the slot its bucket's displacement gives.\<close>

definition placed :: "entity_id list \<Rightarrow> nat list list \<Rightarrow> nat \<Rightarrow> placing \<Rightarrow> nat set \<Rightarrow> bool" where
  "placed keys buckets n pl bs \<longleftrightarrow> length (pl_slots pl) = n \<and> length (pl_occupied pl) = n \<and>
     (\<forall>b \<in> bs. \<forall>i \<in> set (buckets ! b).
        let s = slot_for_key (keys ! i) (pl_displacements pl ! b) n in pl_occupied pl ! s \<and> pl_slots pl ! s = sat_usize u32_max i)"

lemma place_step:
  assumes "placed keys buckets n pl bs" "bi \<notin> bs" "bi < length (pl_displacements pl)" "0 < n"
    "try_displacement (buckets ! bi) keys d n (pl_occupied pl) = Some slots"
  shows "placed keys buckets n (mark_slots (zip (buckets ! bi) slots) (pl\<lparr>pl_displacements := (pl_displacements pl)[bi := d]\<rparr>)) (insert bi bs)"
    "pl_displacements (mark_slots (zip (buckets ! bi) slots) (pl\<lparr>pl_displacements := (pl_displacements pl)[bi := d]\<rparr>)) = (pl_displacements pl)[bi := d]"
proof -
  let ?slot = "\<lambda>i. slot_for_key (keys ! i) d n" and ?b = "buckets ! bi"
  let ?pl = "pl\<lparr>pl_displacements := (pl_displacements pl)[bi := d]\<rparr>"
  let ?ks = "zip ?b slots"
  have t: "slots = map ?slot ?b" "distinct slots" "\<forall>i \<in> set ?b. \<not> pl_occupied pl ! ?slot i"
    using try_slots_spec [of ?b keys d n "pl_occupied pl" "[]" slots] assms(5) by (auto simp: try_displacement_def)
  have ks: "?ks = map (\<lambda>i. (i, ?slot i)) ?b" unfolding t(1) by (simp add: zip_map2 zip_same_conv_map comp_def)
  have len: "length (pl_slots pl) = n" "length (pl_occupied pl) = n" using assms(1) by (auto simp: placed_def)
  have snd: "map snd ?ks = slots" unfolding ks t(1) by simp
  have less: "?slot i < n" for i using assms(4) by (simp add: slot_for_key_def reduce_hash_less)
  have M: "pl_displacements (mark_slots ?ks ?pl) = pl_displacements ?pl \<and> length (pl_slots (mark_slots ?ks ?pl)) = length (pl_slots ?pl) \<and>
    length (pl_occupied (mark_slots ?ks ?pl)) = length (pl_slots ?pl) \<and>
    (\<forall>s. s \<notin> snd ` set ?ks \<longrightarrow> pl_slots (mark_slots ?ks ?pl) ! s = pl_slots ?pl ! s \<and> pl_occupied (mark_slots ?ks ?pl) ! s = pl_occupied ?pl ! s) \<and>
    (\<forall>(i, s) \<in> set ?ks. pl_slots (mark_slots ?ks ?pl) ! s = sat_usize u32_max i \<and> pl_occupied (mark_slots ?ks ?pl) ! s)"
  proof (rule mark_slots_spec)
    show "distinct (map snd ?ks)" unfolding snd by (rule t(2))
    show "\<forall>(i, s) \<in> set ?ks. s < length (pl_slots ?pl)" unfolding ks using less len by auto
  qed (use len in simp)
  then show "pl_displacements (mark_slots ?ks ?pl) = (pl_displacements pl)[bi := d]" by simp
  have new: "pl_slots (mark_slots ?ks ?pl) ! ?slot i = sat_usize u32_max i \<and> pl_occupied (mark_slots ?ks ?pl) ! ?slot i" if "i \<in> set ?b" for i
  proof -
    have "(i, ?slot i) \<in> set ?ks" unfolding ks using that by simp
    with M show ?thesis by fast
  qed
  have old: "pl_slots (mark_slots ?ks ?pl) ! s = pl_slots pl ! s \<and> pl_occupied (mark_slots ?ks ?pl) ! s" if "pl_occupied pl ! s" for s
  proof -
    have "s \<notin> snd ` set ?ks" using that t(3) unfolding ks by auto
    with M that show ?thesis by simp
  qed
  show "placed keys buckets n (mark_slots ?ks ?pl) (insert bi bs)"
    unfolding placed_def Let_def
  proof (intro conjI ballI)
    fix b i assume b: "b \<in> insert bi bs" "i \<in> set (buckets ! b)"
    let ?s = "slot_for_key (keys ! i) (pl_displacements (mark_slots ?ks ?pl) ! b) n"
    have "pl_occupied (mark_slots ?ks ?pl) ! ?s \<and> pl_slots (mark_slots ?ks ?pl) ! ?s = sat_usize u32_max i"
    proof (cases "b = bi")
      case True
      then have "pl_displacements (mark_slots ?ks ?pl) ! b = d" using M assms(3) by simp
      then show ?thesis using new [of i] b(2) True by simp
    next
      case False
      then have "pl_displacements (mark_slots ?ks ?pl) ! b = pl_displacements pl ! b" using M by simp
      moreover have "pl_occupied pl ! slot_for_key (keys ! i) (pl_displacements pl ! b) n \<and>
          pl_slots pl ! slot_for_key (keys ! i) (pl_displacements pl ! b) n = sat_usize u32_max i"
        using assms(1) b False by (auto simp: placed_def Let_def)
      ultimately show ?thesis using old by simp
    qed
    then show "pl_occupied (mark_slots ?ks ?pl) ! ?s" "pl_slots (mark_slots ?ks ?pl) ! ?s = sat_usize u32_max i" by auto
  qed (use M len in auto)
qed

lemma place_buckets_spec:
  assumes "place_buckets order buckets keys n pl = Some pl'" "placed keys buckets n pl bs" "distinct order" "set order \<inter> bs = {}"
    "\<forall>b \<in> set order. b < length (pl_displacements pl)" "0 < n"
  shows "placed keys buckets n pl' (set order \<union> bs) \<and> length (pl_displacements pl') = length (pl_displacements pl)"
  using assms
proof (induction order arbitrary: pl bs)
  case (Cons bi order)
  show ?case
  proof (cases "buckets ! bi = []")
    case True
    have "placed keys buckets n pl (insert bi bs)" using Cons.prems(2) True by (auto simp: placed_def)
    then show ?thesis using Cons.IH [of pl "insert bi bs"] Cons.prems True by simp
  next
    case False
    then obtain d slots where ds: "try_displacement (buckets ! bi) keys d n (pl_occupied pl) = Some slots"
      "place_buckets order buckets keys n (mark_slots (zip (buckets ! bi) slots) (pl\<lparr>pl_displacements := (pl_displacements pl)[bi := d]\<rparr>)) = Some pl'"
      using Cons.prems(1) by (auto split: option.splits dest!: find_map_Some)
    let ?pl = "mark_slots (zip (buckets ! bi) slots) (pl\<lparr>pl_displacements := (pl_displacements pl)[bi := d]\<rparr>)"
    have bi: "bi \<notin> bs" "bi < length (pl_displacements pl)" using Cons.prems(4,5) by auto
    note step = place_step [OF Cons.prems(2) bi Cons.prems(6) ds(1)]
    have "placed keys buckets n pl' (set order \<union> insert bi bs) \<and> length (pl_displacements pl') = length (pl_displacements ?pl)"
      by (rule Cons.IH [OF ds(2) step(1)]) (use Cons.prems step(2) in auto)
    then show ?thesis using step(2) by simp
  qed
qed simp

text \<open>What a finished build promises: every key's slot leads back to its index.\<close>

lemma chd_build_perfect:
  assumes "chd_build srt keys = Some c" "i < length keys" "sorts_buckets srt"
  shows "reverse_lookup c (chd_lookup c (keys ! i)) = Some i"
proof -
  let ?n = "length keys"
  let ?nb = "?n div BUCKET_RATIO + 1" and ?ns = "?n + ?n div 4 + 1"
  let ?bs = "assign_buckets keys ?nb"
  let ?order = "srt ?bs [0..<?nb]"
  let ?init = "\<lparr>pl_displacements = replicate ?nb 0, pl_occupied = replicate ?ns False, pl_slots = replicate ?ns u32_max\<rparr>"
  have small: "?n < u32_max" using assms(1) by (auto simp: chd_build_def split: if_splits)
  have ne: "?n \<noteq> 0" using assms(2) by auto
  then obtain pl where pl: "place_buckets ?order ?bs keys ?ns ?init = Some pl" "c = \<lparr>displacements = pl_displacements pl, slot_to_key_idx = pl_slots pl\<rparr>"
    using assms(1) small by (auto simp: chd_build_def Let_def)
  have perm: "mset ?order = mset [0..<?nb]" using assms(3) unfolding sorts_buckets_def by blast
  then have order: "set ?order = {0..<?nb}" "distinct ?order"
    by (metis atLeastLessThan_upt set_mset_mset, metis distinct_upt mset_eq_imp_distinct_iff)
  have "placed keys ?bs ?ns ?init {}" by (simp add: placed_def)
  then have P: "placed keys ?bs ?ns pl (set ?order \<union> {}) \<and> length (pl_displacements pl) = length (pl_displacements ?init)"
    by (rule place_buckets_spec [OF pl(1)]) (use order in auto)
  let ?b = "reduce_hash (mph_h1 (keys ! i)) ?nb"
  let ?s = "slot_for_key (keys ! i) (pl_displacements pl ! ?b) ?ns"
  have b: "?b < ?nb" by (rule reduce_hash_less) simp
  have "i \<in> set (?bs ! ?b)" using assign_buckets_spec [OF _ b, of keys] assms(2) by simp
  moreover have "?b \<in> set ?order \<union> {}" using b order(1) by simp
  ultimately have "pl_slots pl ! ?s = sat_usize u32_max i" using P unfolding placed_def Let_def by blast
  moreover have "length (pl_slots pl) = ?ns" "length (pl_displacements pl) = ?nb" using P by (auto simp: placed_def)
  moreover have "pl_slots pl \<noteq> []" using calculation(2) by auto
  moreover have "?s < ?ns" by (simp add: slot_for_key_def reduce_hash_less)
  ultimately show ?thesis
    using small assms(2) by (simp add: chd_lookup_def reverse_lookup_def pl(2) sat_usize_def Let_def)
qed

section \<open>Looking entities up\<close>

lemma unique_loop_spec:
  "length ds + i \<le> u32_max \<Longrightarrow> (eid, p) \<in> set (unique_loop i prev ds) \<Longrightarrow>
     i \<le> p \<and> p < i + length ds \<and> d_entity (ds ! (p - i)) = eid \<and>
     (p = i \<longrightarrow> prev \<noteq> Some eid) \<and> (p > i \<longrightarrow> d_entity (ds ! (p - i - 1)) \<noteq> eid)"
proof (induction i prev ds rule: unique_loop.induct)
  case (2 i prev d ds)
  show ?case
  proof (cases "prev \<noteq> Some (d_entity d) \<and> (eid, p) = (d_entity d, sat_usize u32_max i)")
    case True
    with 2(3) show ?thesis by (simp add: sat_usize_def)
  next
    case False
    then have IH: "i + 1 \<le> p \<and> p < i + 1 + length ds \<and> d_entity (ds ! (p - (i + 1))) = eid \<and>
        (p = i + 1 \<longrightarrow> d_entity d \<noteq> eid) \<and> (p > i + 1 \<longrightarrow> d_entity (ds ! (p - (i + 1) - 1)) \<noteq> eid)"
    proof (cases "prev = Some (d_entity d)")
      case True
      then have "(eid, p) \<in> set (unique_loop (i + 1) prev ds)" "\<not> prev \<noteq> Some (d_entity d)" using 2(4) by simp_all
      from 2(2) [OF this(2) _ this(1)] 2(3) True show ?thesis by simp
    next
      case ne: False
      then have "(eid, p) \<in> set (unique_loop (i + 1) (Some (d_entity d)) ds)" using 2(4) False by auto
      from 2(1) [OF ne _ this] 2(3) show ?thesis by simp
    qed
    then have "i + 1 \<le> p" by blast
    then obtain k where k: "p = i + 1 + k" using nat_le_iff_add by blast
    have "d_entity ((d # ds) ! (p - i)) = eid" "p > i \<longrightarrow> d_entity ((d # ds) ! (p - i - 1)) \<noteq> eid" "i \<le> p" "p < i + length (d # ds)" "p \<noteq> i"
      using IH unfolding k by (cases k; simp)+
    then show ?thesis by blast
  qed
qed simp

text \<open>In a sorted array the recorded position is the first of its entity.\<close>

lemma unique_positions_first:
  assumes "strict_sorted (ps_canonical s)" "ps_len s \<le> u32_max" "(eid, p) \<in> set (unique_loop 0 None (ps_canonical s))"
  shows "first_datom_position_for_entity s eid = Some p"
proof -
  let ?ds = "ps_canonical s"
  have u: "p < length ?ds" "d_entity (?ds ! p) = eid" "p > 0 \<longrightarrow> d_entity (?ds ! (p - 1)) \<noteq> eid"
    using unique_loop_spec [of ?ds 0 eid p None] assms(2,3) by (auto simp: ps_len_def)
  have "d_entity (?ds ! q) \<noteq> eid" if "q < p" for q
  proof
    assume e: "d_entity (?ds ! q) = eid"
    have sorted: "?ds ! a \<le> ?ds ! c" if "a \<le> c" "c < length ?ds" for a c
      using assms(1) that by (cases "a = c") (auto simp: sorted_wrt_iff_nth_less intro: less_imp_le)
    have "d_entity (?ds ! q) \<le> d_entity (?ds ! (p - 1))" "d_entity (?ds ! (p - 1)) \<le> d_entity (?ds ! p)"
      using that u(1) by (auto intro!: entity_mono sorted)
    then have "d_entity (?ds ! (p - 1)) = eid" using e u(2) by simp
    with u(3) that show False by simp
  qed
  then show ?thesis using first_datom_position_spec [OF assms(1,2)] u by (simp add: ps_len_def)
qed

text \<open>C36 The perfect-hash lookup is exact. For every positional store and every entity, stored or not,
  \<open>entity_lookup\<close> returns what the binary search returns: the first position of the entity, or nothing; this
  holds whether the table was built or its construction gave up, and whatever order the sort gives buckets of
  equal size.\<close>

theorem entity_lookup_exact:
  assumes "ps_inv blake3 s" "ps_len s \<le> u32_max" "sorts_buckets srt"
  shows "entity_lookup srt s eid = first_datom_position_for_entity s eid"
proof -
  let ?us = "unique_loop 0 None (ps_canonical s)"
  have ss: "strict_sorted (ps_canonical s)" using assms(1) by (simp add: ps_inv_def)
  note first = unique_positions_first [OF ss assms(2)]
  show ?thesis
  proof (cases "chd_build srt (map fst ?us)")
    case None
    then show ?thesis by (simp add: entity_lookup_def unique_entities_with_positions_def mph_build_def Let_def)
  next
    case (Some c)
    have found: "reverse_lookup c (chd_lookup c (fst (?us ! i))) = Some i" if "i < length ?us" for i
      using chd_build_perfect [OF Some _ assms(3), of i] that by simp
    have eq: "entity_lookup srt s eid = entity_position \<lparr>mph_backend = c, entity_first_pos = map snd ?us\<rparr> eid (ps_canonical s)"
      using Some by (simp add: entity_lookup_def unique_entities_with_positions_def mph_build_def Let_def)
    show ?thesis
    proof (cases "first_datom_position_for_entity s eid")
      case None
      show ?thesis
      proof (rule ccontr)
        assume "entity_lookup srt s eid \<noteq> first_datom_position_for_entity s eid"
        then obtain i where i: "i < length ?us" "snd (?us ! i) < length (ps_canonical s)" "d_entity (ps_canonical s ! snd (?us ! i)) = eid"
          using None unfolding eq by (auto simp: entity_position_def Let_def Option.bind_eq_Some_conv split: if_splits)
        have "(fst (?us ! i), snd (?us ! i)) \<in> set ?us" using i(1) by simp
        from first [OF this] have "d_entity (ps_canonical s ! snd (?us ! i)) = fst (?us ! i)"
          using first_datom_position_spec [OF ss assms(2)] by blast
        with i first [OF \<open>(fst (?us ! i), snd (?us ! i)) \<in> set ?us\<close>] None show False by simp
      qed
    next
      case (Some p)
      then have "eid \<in> d_entity ` set (ps_canonical s)" using first_datom_position_spec [OF ss assms(2)] by (auto simp: ps_len_def)
      then have "eid \<in> set (map fst ?us)" using set_unique_loop [of 0 None "ps_canonical s"] by auto
      then obtain i where i: "i < length ?us" "fst (?us ! i) = eid" by (auto simp: in_set_conv_nth)
      have "(fst (?us ! i), snd (?us ! i)) \<in> set ?us" using i(1) by simp
      from first [OF this] have p: "snd (?us ! i) = p" using Some i(2) by simp
      have "p < length (ps_canonical s)" "d_entity (ps_canonical s ! p) = eid"
        using first_datom_position_spec [OF ss assms(2)] Some by (auto simp: ps_len_def)
      with found [OF i(1)] i p Some show ?thesis unfolding eq by (auto simp: entity_position_def Let_def)
    qed
  qed
qed

lemma stable_sort_buckets: "sorts_buckets (\<lambda>bs. sort_key (\<lambda>b. - int (length (bs ! b))))"
proof -
  have "sorted (map (\<lambda>b. - int (length (bs ! b))) (sort_key (\<lambda>b. - int (length (bs ! b))) xs))" for bs :: "nat list list" and xs
    by simp
  then show ?thesis by (simp add: sorts_buckets_def sorted_wrt_map)
qed

theorem entity_lookup_exact_witness:
  "entity_lookup (\<lambda>bs. sort_key (\<lambda>b. - int (length (bs ! b)))) (ps_from_datoms id [sample_datom (VLong 1), sample_datom (VBool True)]) (d_entity (sample_datom (VLong 1))) \<noteq> None"
proof -
  let ?ds = "[sample_datom (VLong 1), sample_datom (VBool True)]"
  let ?s = "ps_from_datoms id ?ds" and ?e = "d_entity (sample_datom (VLong 1))"
  have "card (set ?ds) \<le> 2" using card_length [of ?ds] by simp
  then have "length (sort_dedup ?ds) \<le> u32_max"
    using distinct_card [OF strict_sorted_distinct [OF strict_sorted_sort_dedup], of ?ds] by (simp add: u32_max_def)
  then have len: "ps_len ?s \<le> u32_max" by (simp add: ps_len_def)
  have "strict_sorted (ps_canonical ?s)" using ps_inv_simps(1) by (simp add: ps_inv_def)
  note first = first_datom_position_spec [OF this len, of ?e]
  have "sample_datom (VLong 1) \<in> set (ps_canonical ?s)" by simp
  then have "\<exists>p. p < ps_len ?s \<and> d_entity (ps_canonical ?s ! p) = ?e" unfolding in_set_conv_nth ps_len_def by metis
  then obtain p where "p < ps_len ?s \<and> d_entity (ps_canonical ?s ! p) = ?e" "\<forall>q < p. \<not> (q < ps_len ?s \<and> d_entity (ps_canonical ?s ! q) = ?e)"
    using exists_least_iff [of "\<lambda>p. p < ps_len ?s \<and> d_entity (ps_canonical ?s ! p) = ?e"] by blast
  then have "first_datom_position_for_entity ?s ?e = Some p" unfolding first by auto
  then show ?thesis using entity_lookup_exact [OF ps_inv_simps(1) len stable_sort_buckets, of ?e] by simp
qed

end
