(* ===== verification/Adjacency.thy ===== *)
theory Adjacency
  imports Positional
begin

text \<open>
  The graph adjacency index (\<open>ferratomic-positional/src/adjacency.rs\<close>): forward and reverse edges of the live
  reference datoms of a canonical array, as two ordered maps from an entity to its list of edges. The LIVE
  bitvector is a list of bits, and reading past its end gives no bit.
\<close>

section \<open>The index\<close>

type_synonym edges = "(entity_id, (nat \<times> entity_id) list) omap"

record adjacency_index =
  adj_forward :: edges
  adj_reverse :: edges

definition push_edge :: "entity_id \<Rightarrow> nat \<times> entity_id \<Rightarrow> edges \<Rightarrow> edges" where
  "push_edge k x m = om_insert k ((case om_get m k of None \<Rightarrow> [] | Some xs \<Rightarrow> xs) @ [x]) m"

definition bit_at :: "bool list \<Rightarrow> nat \<Rightarrow> bool option" where
  "bit_at bits p = (if p < length bits then Some (bits ! p) else None)"

definition index_datom :: "bool list \<Rightarrow> attribute_intern \<Rightarrow> nat \<times> datom \<Rightarrow> adjacency_index \<Rightarrow> adjacency_index" where
  "index_datom live_bits tbl = (\<lambda>(pos, datom) adj.
     if bit_at live_bits pos \<noteq> Some True then adj
     else case d_value datom of
       VRef target \<Rightarrow>
         (case id_of tbl (d_attribute datom) of
           None \<Rightarrow> adj
         | Some attr_id \<Rightarrow>
             let source = d_entity datom
             in adj\<lparr>adj_forward := push_edge source (attr_id, target) (adj_forward adj),
                    adj_reverse := push_edge target (attr_id, source) (adj_reverse adj)\<rparr>)
     | _ \<Rightarrow> adj)"

definition adjacency_from_canonical :: "datom list \<Rightarrow> bool list \<Rightarrow> attribute_intern \<Rightarrow> adjacency_index" where
  "adjacency_from_canonical datoms live_bits tbl =
     fold (index_datom live_bits tbl) (enumerate 0 datoms) \<lparr>adj_forward = [], adj_reverse = []\<rparr>"

definition neighbors :: "adjacency_index \<Rightarrow> entity_id \<Rightarrow> (nat \<times> entity_id) list" where
  "neighbors adj e = (case om_get (adj_forward adj) e of None \<Rightarrow> [] | Some xs \<Rightarrow> xs)"

definition reverse_neighbors :: "adjacency_index \<Rightarrow> entity_id \<Rightarrow> (nat \<times> entity_id) list" where
  "reverse_neighbors adj e = (case om_get (adj_reverse adj) e of None \<Rightarrow> [] | Some xs \<Rightarrow> xs)"

definition forward_entity_count :: "adjacency_index \<Rightarrow> nat" where
  "forward_entity_count adj = length (adj_forward adj)"

definition reverse_entity_count :: "adjacency_index \<Rightarrow> nat" where
  "reverse_entity_count adj = length (adj_reverse adj)"

definition total_edges :: "adjacency_index \<Rightarrow> nat" where
  "total_edges adj = sum_list (map (length \<circ> snd) (adj_forward adj))"

section \<open>Edges as a list\<close>

text \<open>The edge of a reference datom: source, attribute and target.\<close>

definition edge_of :: "attribute_intern \<Rightarrow> datom \<Rightarrow> (entity_id \<times> nat \<times> entity_id) option" where
  "edge_of tbl d = (case d_value d of
     VRef t \<Rightarrow> map_option (\<lambda>i. (d_entity d, i, t)) (id_of tbl (d_attribute d)) | _ \<Rightarrow> None)"

fun add_edge :: "entity_id \<times> nat \<times> entity_id \<Rightarrow> adjacency_index \<Rightarrow> adjacency_index" where
  "add_edge (s, i, t) adj =
     adj\<lparr>adj_forward := push_edge s (i, t) (adj_forward adj), adj_reverse := push_edge t (i, s) (adj_reverse adj)\<rparr>"

definition bucket :: "edges \<Rightarrow> entity_id \<Rightarrow> (nat \<times> entity_id) list" where
  "bucket m e = (case om_get m e of None \<Rightarrow> [] | Some xs \<Rightarrow> xs)"

text \<open>The lists of a map are not empty.\<close>

definition edges_inv :: "edges \<Rightarrow> bool" where
  "edges_inv m \<longleftrightarrow> om_inv m \<and> (\<forall>xs \<in> snd ` set m. xs \<noteq> [])"

lemma neighbors_bucket: "neighbors adj e = bucket (adj_forward adj) e" "reverse_neighbors adj e = bucket (adj_reverse adj) e"
  by (simp_all add: neighbors_def reverse_neighbors_def bucket_def)

lemma bucket_push [simp]: "bucket (push_edge k x m) e = bucket m e @ (if e = k then [x] else [])"
  by (simp add: bucket_def push_edge_def)

lemma index_datom_edge:
  "index_datom bits tbl (p, d) adj =
     (case (if bit_at bits p = Some True then edge_of tbl d else None) of None \<Rightarrow> adj | Some x \<Rightarrow> add_edge x adj)"
  by (auto simp: index_datom_def edge_of_def Let_def split: val.split option.split)

lemma fold_map_filter:
  "fold (\<lambda>x s. case f x of None \<Rightarrow> s | Some y \<Rightarrow> g y s) xs s = fold g (List.map_filter f xs) s"
  by (induction xs arbitrary: s) (auto simp: map_filter_simps split: option.split)

lemma map_filter_filter:
  "List.map_filter (\<lambda>x. if P x then f (h x) else None) xs = List.map_filter f (map h (filter P xs))"
  by (induction xs) (auto simp: map_filter_simps split: option.split)

lemma adjacency_edges:
  "adjacency_from_canonical ds bits tbl =
     fold add_edge (List.map_filter (edge_of tbl) (map (nth ds) (filter (\<lambda>p. bit_at bits p = Some True) [0..<length ds])))
       \<lparr>adj_forward = [], adj_reverse = []\<rparr>"
proof -
  have "index_datom bits tbl =
      (\<lambda>q adj. case (if bit_at bits (fst q) = Some True then edge_of tbl (snd q) else None) of
         None \<Rightarrow> adj | Some x \<Rightarrow> add_edge x adj)"
    by (auto simp: index_datom_edge fun_eq_iff)
  moreover have "enumerate 0 ds = map (\<lambda>p. (p, ds ! p)) [0..<length ds]"
    by (rule nth_equalityI) (simp_all add: nth_enumerate_eq)
  ultimately have "adjacency_from_canonical ds bits tbl =
      fold add_edge (List.map_filter (\<lambda>q. if bit_at bits (fst q) = Some True then edge_of tbl (snd q) else None)
        (map (\<lambda>p. (p, ds ! p)) [0..<length ds])) \<lparr>adj_forward = [], adj_reverse = []\<rparr>"
    by (simp add: adjacency_from_canonical_def fold_map_filter)
  moreover have "List.map_filter (\<lambda>q. if bit_at bits (fst q) = Some True then edge_of tbl (snd q) else None)
        (map (\<lambda>p. (p, ds ! p)) [0..<length ds]) =
      List.map_filter (edge_of tbl) (map (nth ds) (filter (\<lambda>p. bit_at bits p = Some True) [0..<length ds]))"
    using map_filter_filter [where h = snd and P = "\<lambda>q. bit_at bits (fst q) = Some True" and f = "edge_of tbl"]
    by (simp add: filter_map comp_def)
  ultimately show ?thesis by simp
qed

lemma bucket_fold_edges:
  "bucket (adj_forward (fold add_edge es adj)) e = bucket (adj_forward adj) e @ map snd (filter (\<lambda>x. fst x = e) es) \<and>
   bucket (adj_reverse (fold add_edge es adj)) e =
     bucket (adj_reverse adj) e @ map (\<lambda>(s, i, t). (i, s)) (filter (\<lambda>(s, i, t). t = e) es)"
proof (induction es arbitrary: adj)
  case (Cons x es)
  then show ?case by (cases x) auto
qed simp

lemma sum_om_insert:
  "om_inv m \<Longrightarrow> sum_list (map (f \<circ> snd) (om_insert k v m)) + (case om_get m k of None \<Rightarrow> 0 | Some w \<Rightarrow> f w) =
     sum_list (map (f \<circ> snd) m) + (f v :: nat)"
proof (induction k v m rule: om_insert.induct)
  case (2 k v k' v' m)
  have "om_get m k = None" if "k \<le> k'" using "2.prems" that by (intro om_get_below) (auto simp: om_inv_Cons)
  with 2 show ?case by (auto simp: om_inv_Cons)
qed simp

lemma edges_inv_push: "edges_inv m \<Longrightarrow> edges_inv (push_edge k x m)"
  unfolding edges_inv_def
proof (elim conjE, intro conjI)
  assume inv: "om_inv m" and ne: "\<forall>xs \<in> snd ` set m. xs \<noteq> []"
  show i: "om_inv (push_edge k x m)" using inv by (simp add: push_edge_def)
  have "xs \<noteq> []" if "om_get (push_edge k x m) e = Some xs" for e xs
    using that ne om_get_in_set [OF inv] by (fastforce simp: push_edge_def split: if_splits)
  then show "\<forall>xs \<in> snd ` set (push_edge k x m). xs \<noteq> []" using om_get_in_set [OF i] by force
qed

lemma edges_of_push:
  assumes "edges_inv m"
  shows "sum_list (map (length \<circ> snd) (push_edge k x m)) = Suc (sum_list (map (length \<circ> snd) m))"
proof -
  have "om_inv m" using assms by (simp add: edges_inv_def)
  from sum_om_insert [OF this, of length k "bucket m k @ [x]"] show ?thesis
    by (simp add: push_edge_def bucket_def split: option.splits)
qed

lemma edges_fold:
  assumes "edges_inv (adj_forward adj)" "edges_inv (adj_reverse adj)"
  shows "edges_inv (adj_forward (fold add_edge es adj)) \<and> edges_inv (adj_reverse (fold add_edge es adj)) \<and>
    total_edges (fold add_edge es adj) = total_edges adj + length es"
  using assms
proof (induction es arbitrary: adj)
  case (Cons x es)
  obtain s i t where "x = (s, i, t)" by (cases x)
  with Cons.IH [of "add_edge x adj"] Cons.prems show ?case by (simp add: edges_inv_push edges_of_push total_edges_def)
qed simp

lemma edges_inv_length:
  assumes "edges_inv m"
  shows "length m = card {e. bucket m e \<noteq> []}"
proof -
  have inv: "om_inv m" and ne: "\<And>k xs. (k, xs) \<in> set m \<Longrightarrow> xs \<noteq> []" using assms by (force simp: edges_inv_def)+
  have "bucket m e \<noteq> [] \<longleftrightarrow> e \<in> fst ` set m" for e
    using om_get_in_set [OF inv, of e] ne by (force simp: bucket_def split: option.splits)
  then have "{e. bucket m e \<noteq> []} = set (map fst m)" by auto
  then show ?thesis using distinct_card [OF om_inv_distinct [OF inv]] by simp
qed

section \<open>The index of a store\<close>

lemma live_bits_filter:
  assumes "ps_inv blake3 s" "ps_len s \<le> u32_max"
  shows "live_datoms s = map (nth (ps_canonical s)) (filter (\<lambda>p. bit_at (live_bits_clone s) p = Some True) [0..<ps_len s])"
proof -
  let ?live = "\<lambda>p. bit_at (live_bits_clone s) p = Some True"
  have "strict_sorted (ps_live_bits s)" using ps_inv_live [OF assms(1)] by simp
  moreover have "strict_sorted (filter ?live [0..<ps_len s])" by (rule sorted_wrt_filter) simp
  moreover have "set (ps_live_bits s) = set (filter ?live [0..<ps_len s])"
    using live_bits_iff [OF assms] by (auto simp: bit_at_def live_bits_clone_nth is_live_def)
  ultimately have "ps_live_bits s = filter ?live [0..<ps_len s]" by (metis sorted_distinct_set_unique strict_sorted_iff)
  then show ?thesis by (simp add: live_datoms_map [OF assms])
qed

lemma edge_of_Some:
  "edge_of tbl d = Some (e, i, t) \<longleftrightarrow> d_entity d = e \<and> d_value d = VRef t \<and> id_of tbl (d_attribute d) = Some i"
  by (auto simp: edge_of_def split: val.splits)

lemma set_map_filter: "set (List.map_filter f xs) = {y. \<exists>x \<in> set xs. f x = Some y}"
  by (induction xs) (auto simp: map_filter_simps split: option.splits)

lemma distinct_map_filter:
  "distinct xs \<Longrightarrow> (\<And>x x' y. x \<in> set xs \<Longrightarrow> x' \<in> set xs \<Longrightarrow> f x = Some y \<Longrightarrow> f x' = Some y \<Longrightarrow> x = x') \<Longrightarrow> distinct (List.map_filter f xs)"
proof (induction xs)
  case (Cons a xs)
  from Cons.IH [OF _ Cons.prems(2)] Cons.prems(1) have "distinct (List.map_filter f xs)" by simp
  moreover have "y \<notin> set (List.map_filter f xs)" if "f a = Some y" for y
    using that Cons.prems(1) Cons.prems(2) [of a _ y] by (auto simp: set_map_filter)
  ultimately show ?case by (simp add: map_filter_simps split: option.splits)
qed (simp add: map_filter_simps)

lemma edges_from:
  "map snd (filter (\<lambda>x. fst x = e) (List.map_filter (edge_of tbl) ds)) =
     List.map_filter (\<lambda>d. map_option snd (edge_of tbl d)) (filter (\<lambda>d. d_entity d = e) ds)"
  by (induction ds) (auto simp: map_filter_simps edge_of_def split: option.splits val.splits)

lemma live_edges_distinct:
  assumes "ps_inv blake3 s" "ps_len s \<le> u32_max" "intern_inv tbl"
  shows "distinct (List.map_filter (edge_of tbl) (live_datoms s))"
proof (rule distinct_map_filter)
  have "distinct (ps_live_bits s)" using ps_inv_live [OF assms(1)] by (simp add: strict_sorted_distinct [OF strict_sorted_build_live_roaring])
  moreover have "inj_on (nth (ps_canonical s)) (set (ps_live_bits s))"
  proof (rule inj_on_nth)
    show "distinct (ps_canonical s)" using assms(1) by (intro strict_sorted_distinct) (simp add: ps_inv_def)
    show "\<forall>p \<in> set (ps_live_bits s). p < length (ps_canonical s)" using live_bits_iff [OF assms(1,2)] by (simp add: ps_len_def)
  qed
  ultimately show "distinct (live_datoms s)" by (simp add: live_datoms_map [OF assms(1,2)] distinct_map)
next
  fix d d' x
  assume live: "d \<in> set (live_datoms s)" "d' \<in> set (live_datoms s)" and eq: "edge_of tbl d = Some x" "edge_of tbl d' = Some x"
  obtain e i t where x: "x = (e, i, t)" by (cases x)
  have "as_str (d_attribute d) = as_str (d_attribute d')" using eq assms(3) by (auto simp: x edge_of_Some intern_inv_def)
  then have same: "eav d = eav d'" using eq by (auto simp: x edge_of_Some eav_def attribute.expand)
  have "(d_tx d, d_op d) = (d_tx d', d_op d')"
  proof (rule order_antisym)
    have "latest (set (ps_canonical s)) d" "latest (set (ps_canonical s)) d'" using live live_datoms_set [OF assms(1,2)] by auto
    then show "(d_tx d, d_op d) \<le> (d_tx d', d_op d')" "(d_tx d', d_op d') \<le> (d_tx d, d_op d)"
      unfolding latest_def using same by metis+
  qed
  with same show "d = d'" by (auto simp: eav_def intro: datom.expand)
qed

text \<open>C37 The adjacency index is the graph of the live references. In every store, whatever attributes are
  interned, an edge from \<open>e\<close> by attribute \<open>i\<close> to \<open>t\<close> is listed at \<open>e\<close> exactly when some latest assertion of the
  store references \<open>t\<close> from \<open>e\<close> by the attribute with this number; neighbours come in the canonical order of
  their datoms, no edge is listed twice, every edge is listed at both of its ends, and the counts are those of the
  edges and of the entities that have one.\<close>

theorem adjacency_live_graph:
  assumes "ps_inv blake3 s" "ps_len s \<le> u32_max" "intern_inv tbl"
    "adj = adjacency_from_canonical (ps_canonical s) (live_bits_clone s) tbl"
  shows "((i, t) \<in> set (neighbors adj e) \<longleftrightarrow>
      (\<exists>d. d_op d = Assert \<and> latest (set (ps_canonical s)) d \<and> d_entity d = e \<and> d_value d = VRef t \<and>
           id_of tbl (d_attribute d) = Some i)) \<and>
    ((i, t) \<in> set (neighbors adj e) \<longleftrightarrow> (i, e) \<in> set (reverse_neighbors adj t)) \<and>
    neighbors adj e = List.map_filter (\<lambda>d. map_option snd (edge_of tbl d)) (filter (\<lambda>d. d_entity d = e) (live_datoms s)) \<and>
    distinct (neighbors adj e) \<and> distinct (reverse_neighbors adj t) \<and>
    forward_entity_count adj = card {e. neighbors adj e \<noteq> []} \<and>
    reverse_entity_count adj = card {e. reverse_neighbors adj e \<noteq> []} \<and>
    total_edges adj = card {(e, i, t). (i, t) \<in> set (neighbors adj e)}"
proof -
  define es where "es = List.map_filter (edge_of tbl) (live_datoms s)"
  have adj: "adj = fold add_edge es \<lparr>adj_forward = [], adj_reverse = []\<rparr>"
    using live_bits_filter [OF assms(1,2)] by (simp add: assms(4) adjacency_edges es_def ps_len_def)
  have nb: "neighbors adj e = map snd (filter (\<lambda>x. fst x = e) es)"
    "reverse_neighbors adj e = map (\<lambda>(s, i, t). (i, s)) (filter (\<lambda>(s, i, t). t = e) es)" for e
    using bucket_fold_edges [of es "\<lparr>adj_forward = [], adj_reverse = []\<rparr>" e] by (simp_all add: neighbors_bucket adj bucket_def)
  have inv: "edges_inv (adj_forward adj)" "edges_inv (adj_reverse adj)" and total: "total_edges adj = length es"
    using edges_fold [of "\<lparr>adj_forward = [], adj_reverse = []\<rparr>" es] by (simp_all add: adj edges_inv_def total_edges_def)
  have "distinct es" unfolding es_def by (rule live_edges_distinct [OF assms(1-3)])
  have set: "(i, t) \<in> set (neighbors adj e) \<longleftrightarrow> (e, i, t) \<in> set es" "(i, e) \<in> set (reverse_neighbors adj t) \<longleftrightarrow> (e, i, t) \<in> set es" for e i t
    by (force simp: nb)+
  have mem: "(e, i, t) \<in> set es \<longleftrightarrow> (\<exists>d. d_op d = Assert \<and> latest (set (ps_canonical s)) d \<and> d_entity d = e \<and> d_value d = VRef t \<and>
      id_of tbl (d_attribute d) = Some i)"
    by (auto simp: es_def set_map_filter live_datoms_set [OF assms(1,2)] edge_of_Some)
  have order: "neighbors adj e = List.map_filter (\<lambda>d. map_option snd (edge_of tbl d)) (filter (\<lambda>d. d_entity d = e) (live_datoms s))"
    unfolding nb es_def by (rule edges_from)
  have "distinct (neighbors adj e)" "distinct (reverse_neighbors adj t)"
    using \<open>distinct es\<close> by (auto simp: nb distinct_map inj_on_def)
  moreover have "{(e, i, t). (i, t) \<in> set (neighbors adj e)} = set es" by (auto simp: set)
  moreover have "forward_entity_count adj = card {e. neighbors adj e \<noteq> []}" "reverse_entity_count adj = card {e. reverse_neighbors adj e \<noteq> []}"
    using edges_inv_length [OF inv(1)] edges_inv_length [OF inv(2)]
    by (simp_all add: forward_entity_count_def reverse_entity_count_def neighbors_bucket)
  moreover have "total_edges adj = card (set es)" using total distinct_card [OF \<open>distinct es\<close>] by simp
  ultimately show ?thesis unfolding order [symmetric] set mem [symmetric] by auto
qed

theorem adjacency_live_graph_witness:
  "\<exists>tbl. from_attributes [Attribute ''knows''] = Inr tbl \<and>
    (let s = ps_from_datoms id [Datom (EntityId [1]) (Attribute ''knows'') (VRef (EntityId [2])) (with_node 1 0 zero_node) Assert];
         adj = adjacency_from_canonical (ps_canonical s) (live_bits_clone s) tbl
     in (0, EntityId [1]) \<in> set (reverse_neighbors adj (EntityId [2])) \<and> neighbors adj (EntityId [2]) = [])"
proof -
  let ?d = "Datom (EntityId [1]) (Attribute ''knows'') (VRef (EntityId [2])) (with_node 1 0 zero_node) Assert"
  let ?s = "ps_from_datoms id [?d]"
  have len: "ps_len ?s \<le> u32_max" using length_sort_dedup [of "[?d]"] by (simp add: ps_len_def u32_max_def)
  obtain tbl where tbl: "from_attributes [Attribute ''knows''] = Inr tbl" "intern_inv tbl" "id_of tbl (Attribute ''knows'') = Some 0"
    using from_attributes_spec [of "[Attribute ''knows'']"]
    by (auto simp: intern_inv_def resolve_def sort_dedup_def u16_max_def)
  define adj where "adj = adjacency_from_canonical (ps_canonical ?s) (live_bits_clone ?s) tbl"
  note graph = adjacency_live_graph [OF ps_inv_simps(1) len tbl(2) adj_def]
  have "latest (set (ps_canonical ?s)) d \<longleftrightarrow> d = ?d" for d by (auto simp: latest_def)
  then have "(i, t) \<in> set (neighbors adj e) \<longleftrightarrow> i = 0 \<and> t = EntityId [2] \<and> e = EntityId [1]" for i t e
    unfolding graph [THEN conjunct1] using tbl(3) by auto
  note edge = this
  have "(0, EntityId [1]) \<in> set (reverse_neighbors adj (EntityId [2]))"
    unfolding graph [THEN conjunct2, THEN conjunct1, symmetric] edge by simp
  moreover have "x \<notin> set (neighbors adj (EntityId [2]))" for x
    using edge [of "fst x" "snd x" "EntityId [2]"] by simp
  ultimately have "(0, EntityId [1]) \<in> set (reverse_neighbors adj (EntityId [2]))" "neighbors adj (EntityId [2]) = []"
    by (simp, metis list.set_intros(1) neq_Nil_conv)
  then show ?thesis using tbl(1) by (auto simp: adj_def Let_def)
qed

end
