(* ===== verification/Leaf_Codec.thy ===== *)
theory Leaf_Codec
  imports Prolly Positional
begin

text \<open>
  The leaf chunk codec of datom sets (\<open>ferratomic-positional/src/codec.rs\<close>): a set of datoms as a sequence of
  pairs of canonical bytes and content hash, behind a codec tag. A \<open>BTreeSet\<close> of datoms is its sorted list. The
  debug assertion of \<open>from_sorted_unchecked\<close> is a flag: a build with debug assertions panics (\<open>None\<close>) where a
  release build goes on.

  The payload has the layout of the entries of a prolly leaf, so its reader is the \<open>read_entries\<close> of the prolly
  tree: both loops read length-prefixed keys and values and report a truncated chunk at the first short read.
\<close>

section \<open>Chunks of pairs\<close>

definition CODEC_TAG :: u8 where "CODEC_TAG = 0x01"

record datom_pair_chunk =
  dp_entries :: "(bytes \<times> bytes) list"

fun windows_eq :: "'a list \<Rightarrow> bool" where
  "windows_eq (x # y # zs) = (x = y \<or> windows_eq (y # zs))"
| "windows_eq _ = False"

definition pair_chunk_new :: "(bytes \<times> bytes) list \<Rightarrow> ferra_error + datom_pair_chunk" where
  "pair_chunk_new entries =
     (let entries = sort_key fst entries
      in if windows_eq (map fst entries) then Inl NonCanonicalChunk else Inr \<lparr>dp_entries = entries\<rparr>)"

definition from_sorted_unchecked :: "bool \<Rightarrow> (bytes \<times> bytes) list \<Rightarrow> datom_pair_chunk option" where
  "from_sorted_unchecked debug entries =
     (if debug \<and> \<not> windows_lt (map fst entries) then None else Some \<lparr>dp_entries = entries\<rparr>)"

section \<open>The codec\<close>

definition sat_len :: "nat \<Rightarrow> bytes" where
  "sat_len n = to_le_bytes 4 (of_nat (sat_usize u32_max n) :: u32)"

fun encode_pairs :: "(bytes \<times> bytes) list \<Rightarrow> bytes" where
  "encode_pairs [] = []"
| "encode_pairs ((k, v) # entries) = sat_len (length k) @ k @ sat_len (length v) @ v @ encode_pairs entries"

definition encode_payload :: "datom_pair_chunk \<Rightarrow> bytes" where
  "encode_payload chunk = sat_len (length (dp_entries chunk)) @ encode_pairs (dp_entries chunk)"

definition decode_payload :: "bytes \<Rightarrow> ferra_error + datom_pair_chunk" where
  "decode_payload bs =
     (if length bs < 4 then Inl TruncatedChunk
      else bind_result (read_entries bs (unat (from_le_bytes (take 4 bs) :: u32)) 4) (\<lambda>(entries, offset).
             if offset \<noteq> length bs then Inl TrailingBytes else pair_chunk_new entries))"

definition datom_set_to_pair_chunk :: "(bytes \<Rightarrow> bytes) \<Rightarrow> bool \<Rightarrow> datom list \<Rightarrow> datom_pair_chunk option" where
  "datom_set_to_pair_chunk blake3 debug datoms =
     from_sorted_unchecked debug (map (\<lambda>d. let key = canonical_bytes d in (key, blake3 key)) datoms)"

fun parse_keys :: "(bytes \<times> bytes) list \<Rightarrow> ferra_error + datom list" where
  "parse_keys [] = Inr []"
| "parse_keys ((key, _) # entries) =
     bind_result (from_canonical_bytes key) (\<lambda>d. bind_result (parse_keys entries) (\<lambda>ds. Inr (d # ds)))"

definition pair_chunk_to_datom_set :: "datom_pair_chunk \<Rightarrow> ferra_error + datom list" where
  "pair_chunk_to_datom_set chunk = bind_result (parse_keys (dp_entries chunk)) (\<lambda>ds. Inr (fold os_insert ds []))"

definition codec_encode :: "(bytes \<Rightarrow> bytes) \<Rightarrow> bool \<Rightarrow> datom list \<Rightarrow> bytes option" where
  "codec_encode blake3 debug datoms = map_option encode_payload (datom_set_to_pair_chunk blake3 debug datoms)"

definition codec_decode :: "bytes \<Rightarrow> ferra_error + datom list" where
  "codec_decode bs = bind_result (decode_payload bs) pair_chunk_to_datom_set"

definition boundary_key :: "bytes \<Rightarrow> ferra_error + datom" where
  "boundary_key bs =
     bind_result (codec_decode bs) (\<lambda>datoms. case datoms of [] \<Rightarrow> Inl EmptyChunk | d # _ \<Rightarrow> Inr d)"

datatype leaf_chunk = DatomPair datom_pair_chunk

fun leaf_chunk_encode :: "leaf_chunk \<Rightarrow> bytes" where
  "leaf_chunk_encode (DatomPair chunk) = CODEC_TAG # encode_payload chunk"

definition leaf_chunk_decode :: "bytes \<Rightarrow> ferra_error + leaf_chunk" where
  "leaf_chunk_decode bs =
     (case bs of
        [] \<Rightarrow> Inl TruncatedChunk
      | tag # payload \<Rightarrow>
          if tag = CODEC_TAG then bind_result (decode_payload payload) (\<lambda>chunk. Inr (DatomPair chunk))
          else Inl (UnknownCodecTag tag))"

definition framework_fingerprint :: "datom_pair_chunk \<Rightarrow> bytes" where
  "framework_fingerprint chunk =
     fold (\<lambda>(_, val) acc. if length val = 32 then map2 (XOR) acc val else acc) (dp_entries chunk) zero32"

fun leaf_chunk_fingerprint :: "leaf_chunk \<Rightarrow> bytes" where
  "leaf_chunk_fingerprint (DatomPair chunk) = framework_fingerprint chunk"

section \<open>Sorting and reading back\<close>

lemma windows_eq_sorted: "sorted xs \<Longrightarrow> windows_eq xs \<longleftrightarrow> \<not> distinct xs"
proof (induction xs rule: windows_eq.induct)
  case (1 x y zs)
  have "x \<le> y" "\<forall>z \<in> set zs. y \<le> z" "sorted (y # zs)" using 1(2) by auto
  then have "x \<notin> set (y # zs) \<longleftrightarrow> x \<noteq> y" by fastforce
  with 1(1) [OF \<open>sorted (y # zs)\<close>] show ?case by (simp only: windows_eq.simps distinct.simps) blast
qed auto

definition pairs_fit :: "(bytes \<times> bytes) list \<Rightarrow> bool" where
  "pairs_fit es \<longleftrightarrow> length es \<le> u32_max \<and> (\<forall>(k, v) \<in> set es. length k \<le> u32_max \<and> length v \<le> u32_max)"

lemma encode_pairs_fit: "\<forall>(k, v) \<in> set es. length k \<le> u32_max \<and> length v \<le> u32_max \<Longrightarrow> encode_pairs es = concat (map entry_bytes es)"
  by (induction es rule: encode_pairs.induct) (auto simp: entry_bytes_def sat_len_def sat_usize_def)

text \<open>Whatever the order of the pairs, the payload decodes to them in key order.\<close>

lemma decode_encode_payload:
  assumes "pairs_fit (dp_entries c)" "distinct (map fst (dp_entries c))"
  shows "decode_payload (encode_payload c) = Inr \<lparr>dp_entries = sort_key fst (dp_entries c)\<rparr>"
proof -
  let ?es = "dp_entries c" and ?p = "to_le_bytes 4 (of_nat (length (dp_entries c)) :: u32)"
  have len: "length ?es \<le> u32_max" using assms(1) by (simp add: pairs_fit_def)
  have fit: "\<forall>(k, v) \<in> set ?es. length k \<le> u32_max \<and> length v \<le> u32_max" using assms(1) by (simp add: pairs_fit_def)
  have enc: "encode_payload c = ?p @ concat (map entry_bytes ?es) @ []"
    using len fit by (simp add: encode_payload_def encode_pairs_fit sat_len_def sat_usize_def)
  have "read_entries (encode_payload c) (length ?es) (length ?p) = Inr (?es, length ?p + length (concat (map entry_bytes ?es)))"
    unfolding enc by (rule read_entries_at [OF fit])
  moreover have "take 4 (encode_payload c) = ?p" "length (encode_payload c) = 4 + length (concat (map entry_bytes ?es))" unfolding enc by simp_all
  moreover have "pair_chunk_new ?es = Inr \<lparr>dp_entries = sort_key fst ?es\<rparr>"
  proof -
    have "mset (map fst (sort_key fst ?es)) = mset (map fst ?es)" by simp
    then have "distinct (map fst (sort_key fst ?es))" using assms(2) mset_eq_imp_distinct_iff by blast
    then show ?thesis by (simp add: pair_chunk_new_def windows_eq_sorted)
  qed
  ultimately show ?thesis using len by (simp add: decode_payload_def unat_len_u32)
qed

lemma canonical_parses: "datom_wf d \<Longrightarrow> from_canonical_bytes (canonical_bytes d) = Inr d"
  unfolding canonical_bytes_layout by (rule parse_layout) (simp_all add: parse_value_encoded datom_wf_def)

lemma canonical_bytes_inj: "datom_wf d \<Longrightarrow> datom_wf e \<Longrightarrow> canonical_bytes d = canonical_bytes e \<Longrightarrow> d = e"
  by (metis canonical_parses sum.inject(2))

lemma canonical_bytes_inj_on: "inj_on canonical_bytes {d. datom_wf d}"
  using canonical_bytes_inj by (auto intro: inj_onI)

lemma parse_keys_canonical:
  "\<forall>(k, v) \<in> set es. \<exists>d. datom_wf d \<and> k = canonical_bytes d \<Longrightarrow>
     \<exists>ds. parse_keys es = Inr ds \<and> map canonical_bytes ds = map fst es \<and> (\<forall>d \<in> set ds. datom_wf d)"
proof (induction es)
  case (Cons e es)
  obtain k v where e: "e = (k, v)" by fastforce
  then obtain d where d: "datom_wf d" "k = canonical_bytes d" using Cons.prems by auto
  obtain ds where "parse_keys es = Inr ds" "map canonical_bytes ds = map fst es" "\<forall>d \<in> set ds. datom_wf d"
    using Cons by auto
  with d e show ?case by (simp add: canonical_parses)
qed simp

section \<open>Properties\<close>

definition datoms_fit :: "datom list \<Rightarrow> bool" where
  "datoms_fit ds \<longleftrightarrow> length ds \<le> u32_max \<and> (\<forall>d \<in> set ds. datom_wf d \<and> length (canonical_bytes d) \<le> u32_max)"

lemma pair_entries:
  assumes "datoms_fit ds" "hash32 b" "strict_sorted ds"
  shows "pairs_fit (map (\<lambda>d. let key = canonical_bytes d in (key, b key)) ds)"
    "distinct (map fst (map (\<lambda>d. let key = canonical_bytes d in (key, b key)) ds))"
proof -
  show "pairs_fit (map (\<lambda>d. let key = canonical_bytes d in (key, b key)) ds)"
    using assms(1,2) by (auto simp: pairs_fit_def datoms_fit_def hash32_def Let_def u32_max_def)
  have "inj_on canonical_bytes (set ds)" using assms(1) canonical_bytes_inj by (auto simp: datoms_fit_def intro!: inj_onI)
  then show "distinct (map fst (map (\<lambda>d. let key = canonical_bytes d in (key, b key)) ds))"
    using strict_sorted_distinct [OF assms(3)] by (simp add: distinct_map comp_def Let_def)
qed

text \<open>C38 The leaf codec round-trips. A build with debug assertions refuses (panics on) exactly the sets whose canonical
  bytes are not in the order of the datoms; a build without them refuses none. Whenever a set of well-formed
  datoms is encoded, it decodes to the same set, the tagged chunk decodes to its pairs in key order, the
  smallest datom is its boundary key, and the chunk's fingerprint is the store fingerprint of the datoms.\<close>

theorem leaf_codec_roundtrip:
  assumes "strict_sorted ds" "datoms_fit ds" "hash32 blake3"
  shows "if debug \<and> \<not> sorted_wrt (<) (map canonical_bytes ds) then codec_encode blake3 debug ds = None
    else (\<exists>bs chunk. datom_set_to_pair_chunk blake3 debug ds = Some chunk \<and> codec_encode blake3 debug ds = Some bs \<and>
      codec_decode bs = Inr ds \<and>
      leaf_chunk_decode (leaf_chunk_encode (DatomPair chunk)) = Inr (DatomPair \<lparr>dp_entries = sort_key fst (dp_entries chunk)\<rparr>) \<and>
      boundary_key bs = (case ds of [] \<Rightarrow> Inl EmptyChunk | d # _ \<Rightarrow> Inr d) \<and>
      leaf_chunk_fingerprint (DatomPair chunk) = compute_fingerprint blake3 ds)"
proof -
  let ?es = "map (\<lambda>d. let key = canonical_bytes d in (key, blake3 key)) ds"
  let ?c = "\<lparr>dp_entries = ?es\<rparr>" and ?bs = "encode_payload \<lparr>dp_entries = ?es\<rparr>"
  have keys: "map fst ?es = map canonical_bytes ds" by (simp add: Let_def)
  have chunk: "datom_set_to_pair_chunk blake3 debug ds =
      (if debug \<and> \<not> sorted_wrt (<) (map canonical_bytes ds) then None else Some ?c)"
    by (simp only: datom_set_to_pair_chunk_def from_sorted_unchecked_def keys windows_lt_iff)
  note fit = pair_entries [OF assms(2,3,1)]
  have dec: "decode_payload ?bs = Inr \<lparr>dp_entries = sort_key fst ?es\<rparr>"
    using decode_encode_payload [of ?c] fit by simp
  have "\<forall>(k, v) \<in> set (sort_key fst ?es). \<exists>d. datom_wf d \<and> k = canonical_bytes d"
    using assms(2) by (auto simp: datoms_fit_def Let_def)
  then obtain ds' where ds': "parse_keys (sort_key fst ?es) = Inr ds'" "map canonical_bytes ds' = map fst (sort_key fst ?es)" "\<forall>d \<in> set ds'. datom_wf d"
    using parse_keys_canonical by blast
  have "canonical_bytes ` set ds' = canonical_bytes ` set ds"
    using arg_cong [OF ds'(2), of set] by (auto simp: Let_def image_image)
  then have "set ds' = set ds"
    using inj_on_image_eq_iff [OF canonical_bytes_inj_on, of "set ds'" "set ds"] ds'(3) assms(2) by (auto simp: datoms_fit_def)
  then have "fold os_insert ds' [] = ds"
    using strict_sorted_equal [of "fold os_insert ds' []" ds] assms(1) by simp
  then have all: "codec_decode ?bs = Inr ds" using dec ds'(1) by (simp add: codec_decode_def pair_chunk_to_datom_set_def)
  have fp: "fold (\<lambda>(_, val) acc. if length val = 32 then map2 (XOR) acc val else acc) ?es fp0 =
      fold (\<lambda>d fp. xor_hash_into fp (content_hash blake3 d)) ds fp0" if "length fp0 = 32" for fp0
    using that
  proof (induction ds arbitrary: fp0)
    case (Cons d ds)
    have "length (blake3 (canonical_bytes d)) = 32" using assms(3) by (simp add: hash32_def)
    then show ?case using Cons by (simp add: Let_def xor_bytes_def content_hash_canonical)
  qed simp
  have "leaf_chunk_decode (leaf_chunk_encode (DatomPair ?c)) = Inr (DatomPair \<lparr>dp_entries = sort_key fst (dp_entries ?c)\<rparr>)"
    using dec by (simp add: leaf_chunk_decode_def)
  moreover have "leaf_chunk_fingerprint (DatomPair ?c) = compute_fingerprint blake3 ds"
    using fp [of zero32] by (simp add: framework_fingerprint_def compute_fingerprint_def zero32_def)
  moreover have "codec_encode blake3 debug ds = (if debug \<and> \<not> sorted_wrt (<) (map canonical_bytes ds) then None else Some ?bs)"
    by (simp add: codec_encode_def chunk)
  moreover have "boundary_key ?bs = (case ds of [] \<Rightarrow> Inl EmptyChunk | d # _ \<Rightarrow> Inr d)" by (simp add: boundary_key_def all)
  ultimately show ?thesis using chunk all by (cases "debug \<and> \<not> sorted_wrt (<) (map canonical_bytes ds)") (simp_all only: if_True if_False simp_thms, blast)
qed

lemma less_same_prefix: "(xs @ ys :: 'a::linorder list) < xs @ zs \<longleftrightarrow> ys < zs"
  by (induction xs) auto

text \<open>A set of two datoms in the order of the set, whose keys are in the other order.\<close>

definition codec_pair :: "datom list" where
  "codec_pair =
     [Datom (EntityId (replicate 32 7)) (Attribute ''aa'') (VBool True) (TxId 5 1 zero_node) Assert,
      Datom (EntityId (replicate 32 7)) (Attribute ''b'') (VBool True) (TxId 5 1 zero_node) Assert]"

lemma codec_pair_fit: "strict_sorted codec_pair" "datoms_fit codec_pair"
proof -
  show "strict_sorted codec_pair" by code_simp
  have "length (canonical_bytes d) \<le> u32_max" if "d \<in> set codec_pair" for d
    using that by (auto simp: codec_pair_def canonical_bytes_def canonical_attr_bytes_def canonical_tx_bytes_def zero_node_def as_bytes_def u32_max_def Let_def)
  moreover have "datom_wf d" if "d \<in> set codec_pair" for d
    using that by (auto simp: codec_pair_def datom_wf_def entity_wf_def attr_wf_def txid_wf_def node_wf_def zero_node_def str_wf_def
        as_bytes_def utf8_valid_ascii u16_max_def)
  ultimately show "datoms_fit codec_pair" by (simp add: datoms_fit_def) (simp add: codec_pair_def u32_max_def)
qed

lemma codec_pair_order: "\<not> canonical_bytes (codec_pair ! 0) < canonical_bytes (codec_pair ! 1)"
proof -
  have le: "to_le_bytes 2 (2 :: u16) = [2, 0]" "to_le_bytes 2 (1 :: u16) = [1, 0]" by code_simp+
  have attr: "canonical_attr_bytes (Attribute ''aa'') = [2, 0] @ as_bytes ''aa''" "canonical_attr_bytes (Attribute ''b'') = [1, 0] @ as_bytes ''b''"
    using le by (simp_all add: canonical_attr_bytes_def attr_byte_len_u16_def sat_usize_def u16_max_def as_bytes_def)
  show ?thesis by (simp add: canonical_bytes_def codec_pair_def attr less_same_prefix)
qed

text \<open>The set is encoded and decoded by a build without debug assertions and refused by one with them, which encodes
  and decodes the set of its first datom.\<close>

theorem leaf_codec_roundtrip_witness:
  "(\<exists>bs. codec_encode (\<lambda>bs. replicate 32 (of_nat (length bs))) False codec_pair = Some bs \<and> codec_decode bs = Inr codec_pair) \<and>
   codec_encode (\<lambda>bs. replicate 32 (of_nat (length bs))) True codec_pair = None \<and>
   (\<exists>bs. codec_encode (\<lambda>bs. replicate 32 (of_nat (length bs))) True [hd codec_pair] = Some bs \<and> codec_decode bs = Inr [hd codec_pair])"
proof -
  let ?b = "\<lambda>bs. replicate 32 (of_nat (length bs)) :: bytes"
  have h: "hash32 ?b" by (simp add: hash32_def)
  have one: "strict_sorted [hd codec_pair]" "datoms_fit [hd codec_pair]"
    using codec_pair_fit(2) by (simp_all add: datoms_fit_def codec_pair_def u32_max_def)
  have "\<not> sorted_wrt (<) (map canonical_bytes codec_pair)"
    using codec_pair_order by (auto simp: codec_pair_def)
  with leaf_codec_roundtrip [OF codec_pair_fit h, of False] leaf_codec_roundtrip [OF codec_pair_fit h, of True]
    leaf_codec_roundtrip [OF one h, of True] show ?thesis by auto
qed

text \<open>
  The order of datoms is not the order of their canonical bytes: an attribute is preceded by its length, low byte
  first. So on this set a build with debug assertions panics. A release build writes the pairs out of key
  order, and the decoder, which sorts what it reads, accepts two payloads for one set.
\<close>

theorem encode_order_not_canonical:
  "codec_encode (\<lambda>bs. replicate 32 0) True codec_pair = None \<and>
   (\<exists>bs1 bs2. bs1 \<noteq> bs2 \<and> decode_payload bs1 = decode_payload bs2 \<and> decode_payload bs1 \<noteq> Inl NonCanonicalChunk)"
proof (intro conjI exI)
  show "codec_encode (\<lambda>bs. replicate 32 0) True codec_pair = None"
    using codec_pair_order
    by (simp add: codec_encode_def datom_set_to_pair_chunk_def from_sorted_unchecked_def codec_pair_def)
  let ?c1 = "\<lparr>dp_entries = [([1], []), ([2], [])]\<rparr>" and ?c2 = "\<lparr>dp_entries = [([2], []), ([1], [])]\<rparr>"
  show "encode_payload ?c1 \<noteq> encode_payload ?c2" by (simp add: encode_payload_def)
  have "decode_payload (encode_payload ?c1) = Inr \<lparr>dp_entries = sort_key fst [([1], []), ([2], [])]\<rparr>"
    "decode_payload (encode_payload ?c2) = Inr \<lparr>dp_entries = sort_key fst [([2], []), ([1], [])]\<rparr>"
    using decode_encode_payload [of ?c1] decode_encode_payload [of ?c2] by (simp_all add: pairs_fit_def u32_max_def)
  then show "decode_payload (encode_payload ?c1) = decode_payload (encode_payload ?c2)"
    "decode_payload (encode_payload ?c1) \<noteq> Inl NonCanonicalChunk" by simp_all
qed

end
