(* ===== verification/Sketch.thy ===== *)
theory Sketch
  imports Canonical "HOL-Library.Multiset"
begin

text \<open>
  The MinHash sketch of a store (\<open>ferratomic-store/src/sketch.rs\<close>): the \<open>K\<close> smallest content hashes and the
  number of datoms. A binary heap is the sorted list of its elements, so peeking and popping are at its end.
  Counts of type \<open>usize\<close> are naturals; the 128-bit arithmetic of the estimate cannot overflow for them, and its
  conversion back saturates. The floating-point similarity is given by its numerator and denominator.
\<close>

section \<open>Sketches\<close>

definition DEFAULT_CAPACITY :: nat where "DEFAULT_CAPACITY = 256"

record store_sketch =
  min_hashes :: "bytes list"
  sk_count :: nat
  sk_capacity :: nat

record set_counts =
  sc_intersection :: nat
  sc_union :: nat

fun counts_loop :: "bytes list \<Rightarrow> bytes list \<Rightarrow> set_counts \<Rightarrow> set_counts" where
  "counts_loop (x # a) (y # b) c =
     (let c = c\<lparr>sc_union := sc_union c + 1\<rparr>
      in if x = y then counts_loop a b (c\<lparr>sc_intersection := sc_intersection c + 1\<rparr>)
         else if x < y then counts_loop a (y # b) c
         else counts_loop (x # a) b c)"
| "counts_loop a b c = c\<lparr>sc_union := sc_union c + sat_usize u32_max (length a + length b)\<rparr>"

definition sorted_set_counts :: "bytes list \<Rightarrow> bytes list \<Rightarrow> set_counts" where
  "sorted_set_counts a b = counts_loop a b \<lparr>sc_intersection = 0, sc_union = 0\<rparr>"

definition heap_offer :: "nat \<Rightarrow> bytes \<Rightarrow> bytes list \<Rightarrow> bytes list" where
  "heap_offer capacity hash heap =
     (if length heap < capacity then insort hash heap
      else if heap \<noteq> [] \<and> hash < last heap then insort hash (butlast heap)
      else heap)"

definition sketch_compute :: "(bytes \<Rightarrow> bytes) \<Rightarrow> datom list \<Rightarrow> nat \<Rightarrow> ferra_error + store_sketch" where
  "sketch_compute blake3 datoms capacity =
     (if capacity = 0 then Inl (InvariantViolation ''bd-wows'')
      else let (heap, count) = fold (\<lambda>d (heap, count). (heap_offer capacity (content_hash blake3 d) heap, count + 1)) datoms ([], 0)
           in Inr \<lparr>min_hashes = heap, sk_count = count, sk_capacity = capacity\<rparr>)"

definition capacity_mismatch :: ferra_error where
  "capacity_mismatch = InvariantViolation ''bd-wows''"

text \<open>The similarity as a fraction.\<close>

definition jaccard_similarity :: "store_sketch \<Rightarrow> store_sketch \<Rightarrow> ferra_error + nat \<times> nat" where
  "jaccard_similarity a b =
     (if sk_capacity a \<noteq> sk_capacity b then Inl capacity_mismatch
      else if min_hashes a = [] \<and> min_hashes b = [] then Inr (1, 1)
      else if min_hashes a = [] \<or> min_hashes b = [] then Inr (0, 1)
      else let counts = sorted_set_counts (min_hashes a) (min_hashes b)
           in if sc_union counts = 0 then Inr (1, 1) else Inr (sc_intersection counts, sc_union counts))"

definition estimated_diff_size :: "store_sketch \<Rightarrow> store_sketch \<Rightarrow> ferra_error + nat" where
  "estimated_diff_size a b =
     (if sk_capacity a \<noteq> sk_capacity b then Inl capacity_mismatch
      else if min_hashes a = [] \<and> min_hashes b = [] then Inr 0
      else if min_hashes a = [] then Inr (sk_count b)
      else if min_hashes b = [] then Inr (sk_count a)
      else let counts = sorted_set_counts (min_hashes a) (min_hashes b)
           in if sc_intersection counts = sc_union counts then Inr 0
              else if sc_union counts = 0 then Inr 0
              else let total = sk_count a + sk_count b;
                       diff_numerator = sc_union counts - sc_intersection counts;
                       denominator = sc_union counts + sc_intersection counts
                   in if denominator = 0 then Inr 0
                      else Inr (sat_usize u64_max ((total * diff_numerator + denominator div 2) div denominator)))"

fun merge_hashes :: "bytes list \<Rightarrow> bytes list \<Rightarrow> bytes list" where
  "merge_hashes (x # a) (y # b) =
     (if x = y then x # merge_hashes a b
      else if x < y then x # merge_hashes a (y # b)
      else y # merge_hashes (x # a) b)"
| "merge_hashes a b = a @ b"

definition sketch_merge :: "store_sketch \<Rightarrow> store_sketch \<Rightarrow> ferra_error + store_sketch" where
  "sketch_merge a b =
     (if sk_capacity a \<noteq> sk_capacity b then Inl capacity_mismatch
      else Inr \<lparr>min_hashes = take (sk_capacity a) (merge_hashes (min_hashes a) (min_hashes b)),
        sk_count = sk_count a + sk_count b, sk_capacity = sk_capacity a\<rparr>)"

section \<open>The signature is the smallest hashes\<close>

lemma sorted_mset_unique: "sorted (a :: 'a::linorder list) \<Longrightarrow> sorted b \<Longrightarrow> mset a = mset b \<Longrightarrow> a = b"
  by (metis properties_for_sort sorted_sort_id)

lemma sorted_take_drop:
  assumes "sorted xs" "j < length xs"
  shows "\<forall>x \<in> set (take j xs). x \<le> xs ! j" "\<forall>x \<in> set (drop j xs). xs ! j \<le> x"
proof -
  show "\<forall>x \<in> set (take j xs). x \<le> xs ! j" using assms by (auto simp: in_set_conv_nth intro!: sorted_nth_mono)
  show "\<forall>x \<in> set (drop j xs). xs ! j \<le> x" using assms by (auto simp: in_set_conv_nth intro!: sorted_nth_mono)
qed

lemma insort_take:
  fixes xs :: "'a::linorder list"
  assumes "sorted xs" "0 < k"
  shows "take k (insort x xs) =
     (if length xs < k then insort x xs else if x < xs ! (k - 1) then insort x (take (k - 1) xs) else take k xs)"
proof (cases "length xs < k")
  case False
  then have j: "k - 1 < length xs" "k = Suc (k - 1)" using assms(2) by auto
  note b = sorted_take_drop [OF assms(1) j(1)]
  show ?thesis
  proof (cases "x < xs ! (k - 1)")
    case True
    let ?ys = "insort x (take (k - 1) xs) @ drop (k - 1) xs"
    have "\<forall>y \<in> set (insort x (take (k - 1) xs)). \<forall>z \<in> set (drop (k - 1) xs). y \<le> z"
      using b True by (auto simp: set_insort_key intro: order.trans less_imp_le)
    then have "sorted ?ys" using assms(1) by (simp add: sorted_append sorted_insort sorted_wrt_take sorted_wrt_drop)
    moreover have "mset ?ys = mset (insort x xs)" by (metis append_take_drop_id mset_append mset_insort union_mset_add_mset_left)
    ultimately have "insort x xs = ?ys" using sorted_mset_unique sorted_insort assms(1) by metis
    moreover have "length (insort x (take (k - 1) xs)) = k" using j by simp
    ultimately show ?thesis using True False by simp
  next
    case ge: False
    let ?ys = "take k xs @ insort x (drop k xs)"
    have "\<forall>y \<in> set (take k xs). y \<le> xs ! (k - 1)"
      using b(1) j by (metis UnE set_append take_Suc_conv_app_nth empty_iff insert_iff list.set order.refl)
    then have "\<forall>y \<in> set (take k xs). y \<le> x" using ge by (meson linorder_not_less order.trans)
    moreover have "\<forall>y \<in> set (take k xs). \<forall>z \<in> set (drop k xs). y \<le> z"
      using assms(1) by (metis append_take_drop_id sorted_append)
    ultimately have "sorted ?ys" using assms(1) by (simp add: sorted_append sorted_insort sorted_wrt_take sorted_wrt_drop set_insort_key)
    moreover have "mset ?ys = mset (insort x xs)" by (metis append_take_drop_id mset_append mset_insort union_mset_add_mset_right)
    ultimately have "insort x xs = ?ys" using sorted_mset_unique sorted_insort assms(1) by metis
    then show ?thesis using ge False by simp
  qed
qed (simp add: Suc_leI)

lemma fold_heap_offer:
  assumes "0 < k"
  shows "fold (\<lambda>h heap. heap_offer k h heap) hs (take k (sort xs)) = take k (sort (rev hs @ xs))"
proof (induction hs arbitrary: xs)
  case (Cons h hs)
  have "heap_offer k h (take k (sort xs)) = take k (sort (h # xs))"
  proof -
    have last: "last (take k (sort xs)) = sort xs ! (k - 1)" "butlast (take k (sort xs)) = take (k - 1) (sort xs)" if "k \<le> length xs"
    proof -
      have "length (take k (sort xs)) = k" using that by simp
      moreover from this have "take k (sort xs) \<noteq> []" using assms by (metis less_irrefl list.size(3))
      ultimately show "last (take k (sort xs)) = sort xs ! (k - 1)" using assms by (simp add: last_conv_nth)
      show "butlast (take k (sort xs)) = take (k - 1) (sort xs)" using that by (simp add: butlast_take)
    qed
    have "sort xs = [] \<longleftrightarrow> xs = []" by (metis length_0_conv length_sort)
    then show ?thesis using insort_take [of "sort xs" k h] assms last by (auto simp: heap_offer_def not_less)
  qed
  moreover have "sort (rev hs @ h # xs) = sort (rev (h # hs) @ xs)" by simp
  ultimately show ?case using Cons.IH [of "h # xs"] by simp
qed simp

lemma compute_fold:
  "fold (\<lambda>d (heap, count). (heap_offer k (content_hash b d) heap, count + 1)) ds (heap, n) =
     (fold (\<lambda>h heap. heap_offer k h heap) (map (content_hash b) ds) heap, n + length ds)"
  by (induction ds arbitrary: heap n) auto

lemma sketch_compute_eq:
  assumes "0 < k"
  shows "sketch_compute b ds k = Inr \<lparr>min_hashes = take k (sort (map (content_hash b) ds)), sk_count = length ds, sk_capacity = k\<rparr>"
proof -
  have "sort (rev (map (content_hash b) ds)) = sort (map (content_hash b) ds)" by (rule sorted_mset_unique) simp_all
  then show ?thesis using fold_heap_offer [OF assms, of "map (content_hash b) ds" "[]"] compute_fold [of k b ds "[]" 0] assms
    by (simp add: sketch_compute_def)
qed

section \<open>Counting and merging\<close>

lemma counts_loop_spec:
  "strict_sorted a \<Longrightarrow> strict_sorted b \<Longrightarrow> length a + length b \<le> u32_max \<Longrightarrow>
     sc_intersection (counts_loop a b c) = sc_intersection c + card (set a \<inter> set b) \<and>
     sc_union (counts_loop a b c) = sc_union c + card (set a \<union> set b)"
proof (induction a b c rule: counts_loop.induct)
  case (1 x a y b c)
  consider "x = y" | "x < y" | "y < x" by (meson linorder_neqE)
  then show ?case
  proof cases
    case e: 1
    have "set (x # a) \<inter> set (y # b) = insert x (set a \<inter> set b)" "set (x # a) \<union> set (y # b) = insert x (set a \<union> set b)"
      "x \<notin> set a" "x \<notin> set b" using 1(4,5) e by auto
    with 1(1) [OF refl e] 1(4-6) e show ?thesis by (simp add: Let_def)
  next
    case l: 2
    then have "set (x # a) \<inter> set (y # b) = set a \<inter> set (y # b)" "set (x # a) \<union> set (y # b) = insert x (set a \<union> set (y # b))"
      "x \<notin> set a" "x \<notin> set (y # b)" "x \<noteq> y" using 1(4,5) by auto
    with 1(2) [OF refl this(5) l] 1(4-6) l show ?thesis by (simp add: Let_def)
  next
    case g: 3
    then have "set (x # a) \<inter> set (y # b) = set (x # a) \<inter> set b" "set (x # a) \<union> set (y # b) = insert y (set (x # a) \<union> set b)"
      "y \<notin> set (x # a)" "y \<notin> set b" "x \<noteq> y" "\<not> x < y" using 1(4,5) by auto
    with 1(3) [OF refl this(5,6)] 1(4-6) g show ?thesis by (simp add: Let_def)
  qed
qed (auto simp: sat_usize_def distinct_card strict_sorted_distinct)

lemma merge_hashes_spec:
  "strict_sorted a \<Longrightarrow> strict_sorted b \<Longrightarrow> strict_sorted (merge_hashes a b) \<and> set (merge_hashes a b) = set a \<union> set b"
proof (induction a b rule: merge_hashes.induct)
  case (1 x a y b)
  consider "x = y" | "x < y" | "y < x" by (meson linorder_neqE)
  then show ?case
  proof cases
    case e: 1
    with 1(1) 1(4,5) show ?thesis by auto
  next
    case l: 2
    then have "strict_sorted (merge_hashes a (y # b)) \<and> set (merge_hashes a (y # b)) = set a \<union> set (y # b)" using 1(2,4,5) by auto
    with l 1(4,5) show ?thesis by (auto dest: less_trans)
  next
    case g: 3
    then have "strict_sorted (merge_hashes (x # a) b) \<and> set (merge_hashes (x # a) b) = set (x # a) \<union> set b" using 1(3,4,5) by auto
    with g 1(4,5) show ?thesis by (auto dest: less_trans)
  qed
qed auto

lemma take_filter_subset: "set (filter P (take k U)) \<subseteq> set (take k (filter P U))"
proof -
  have "filter P U = filter P (take k U) @ filter P (drop k U)" by (metis append_take_drop_id filter_append)
  moreover have "length (filter P (take k U)) \<le> k" by (metis length_filter_le length_take min.cobounded2 order.trans)
  ultimately have "take k (filter P U) = filter P (take k U) @ take (k - length (filter P (take k U))) (filter P (drop k U))" by simp
  then show ?thesis by simp
qed

text \<open>The smallest elements of a union are among the smallest of its parts.\<close>

lemma take_merge:
  assumes "strict_sorted U" "set U = A \<union> B" "strict_sorted a" "set a = A" "strict_sorted b" "set b = B"
  shows "take k (merge_hashes (take k a) (take k b)) = take k U"
proof -
  let ?M = "merge_hashes (take k a) (take k b)"
  have fa: "a = filter (\<lambda>x. x \<in> A) U" "b = filter (\<lambda>x. x \<in> B) U"
    using assms by (auto intro!: strict_sorted_equal simp: sorted_wrt_filter)
  have M: "strict_sorted ?M" "set ?M = set (take k a) \<union> set (take k b)"
    using merge_hashes_spec [of "take k a" "take k b"] assms(3,5) by (simp_all add: sorted_wrt_take)
  have sub: "set (take k U) \<subseteq> set ?M"
  proof
    fix x assume x: "x \<in> set (take k U)"
    then have "x \<in> A \<or> x \<in> B" using assms(2) in_set_takeD by fast
    moreover have "x \<in> set (take k a)" if "x \<in> A" using take_filter_subset [of "\<lambda>x. x \<in> A" k U] x that by (subst fa(1)) auto
    moreover have "x \<in> set (take k b)" if "x \<in> B" using take_filter_subset [of "\<lambda>x. x \<in> B" k U] x that by (subst fa(2)) auto
    ultimately show "x \<in> set ?M" unfolding M(2) by blast
  qed
  have "set ?M \<subseteq> set U" unfolding M(2) assms(2) assms(4) [symmetric] assms(6) [symmetric] using set_take_subset [of k a] set_take_subset [of k b] by blast
  then have "?M = filter (\<lambda>x. x \<in> set ?M) U"
    using M(1) assms(1) by (intro strict_sorted_equal) (auto simp: sorted_wrt_filter)
  also have "\<dots> = filter (\<lambda>x. x \<in> set ?M) (take k U) @ filter (\<lambda>x. x \<in> set ?M) (drop k U)"
    by (metis append_take_drop_id filter_append)
  also have "filter (\<lambda>x. x \<in> set ?M) (take k U) = take k U" using sub by (auto intro!: filter_True)
  finally have "?M = take k U @ filter (\<lambda>x. x \<in> set ?M) (drop k U)" .
  then have "take k ?M = take k (take k U @ filter (\<lambda>x. x \<in> set ?M) (drop k U))" by simp
  also have "\<dots> = take k U" by (cases "length U < k") auto
  finally show ?thesis .
qed

section \<open>Properties\<close>

text \<open>The hashes of a store, without collisions.\<close>

definition hash_list :: "(bytes \<Rightarrow> bytes) \<Rightarrow> datom list \<Rightarrow> bytes list" where
  "hash_list b ds = sort (map (content_hash b) ds)"

lemma hash_list_props:
  assumes "distinct ds" "inj_on (content_hash b) (set ds)"
  shows "strict_sorted (hash_list b ds)" "set (hash_list b ds) = content_hash b ` set ds" "length (hash_list b ds) = length ds"
  using assms by (simp_all add: hash_list_def strict_sorted_iff distinct_map)

lemma hash_list_Nil: "hash_list b ds = [] \<longleftrightarrow> ds = []"
proof -
  have "length (hash_list b ds) = length ds" by (simp add: hash_list_def)
  then show ?thesis by (metis length_0_conv)
qed

lemma rounded_quotient:
  assumes "0 < (m :: nat)"
  shows "(m * q + m div 2) div m = q"
proof -
  have "m div 2 < m" using assms by simp
  then show ?thesis using assms by (metis add.commute add.right_neutral div_less div_mult_self2 not_gr_zero)
qed

text \<open>Sketches that hold all hashes of their stores count exactly.\<close>

lemma small_diff_exact:
  assumes "distinct xs" "distinct ys" "inj_on (content_hash blake3) (set xs \<union> set ys)"
    and small: "length xs \<le> k" "length ys \<le> k" "length xs + length ys \<le> u32_max"
    and d: "estimated_diff_size \<lparr>min_hashes = take k (hash_list blake3 xs), sk_count = length xs, sk_capacity = k\<rparr>
      \<lparr>min_hashes = take k (hash_list blake3 ys), sk_count = length ys, sk_capacity = k\<rparr> = Inr d"
  shows "d = card (set xs - set ys) + card (set ys - set xs)"
proof -
  let ?h = "content_hash blake3"
  have u: "inj_on ?h (set xs \<union> set ys)" by (rule assms(3))
  then have inj: "inj_on ?h (set xs)" "inj_on ?h (set ys)" by (auto intro: inj_on_subset)
  note X = hash_list_props [OF assms(1) inj(1)] and Y = hash_list_props [OF assms(2) inj(2)]
  let ?i = "card (set xs \<inter> set ys)" and ?n = "card (set xs \<union> set ys)"
  have full: "take k (hash_list blake3 xs) = hash_list blake3 xs" "take k (hash_list blake3 ys) = hash_list blake3 ys"
    using small X(3) Y(3) by simp_all
  from u have "?h ` set xs \<inter> ?h ` set ys = ?h ` (set xs \<inter> set ys)" by (simp add: inj_on_image_Int [OF u])
  moreover have "inj_on ?h (set xs \<inter> set ys)" using u by (rule inj_on_subset) auto
  ultimately have "card (?h ` set xs \<inter> ?h ` set ys) = ?i" "card (?h ` set xs \<union> ?h ` set ys) = ?n"
    using u by (simp_all add: image_Un [symmetric] card_image)
  then have counts: "sc_intersection (sorted_set_counts (hash_list blake3 xs) (hash_list blake3 ys)) = ?i"
    "sc_union (sorted_set_counts (hash_list blake3 xs) (hash_list blake3 ys)) = ?n"
    using counts_loop_spec [OF X(1) Y(1)] X(2,3) Y(2,3) small(3) by (simp_all add: sorted_set_counts_def)
  have cards: "length xs = card (set xs)" "length ys = card (set ys)" using assms(1,2) distinct_card by metis+
  have sum: "length xs + length ys = ?n + ?i" using card_Un_Int [of "set xs" "set ys"] cards by simp
  have diff: "card (set xs - set ys) + card (set ys - set xs) = ?n - ?i"
    using card_Diff_subset_Int [of "set xs" "set ys"] card_Diff_subset_Int [of "set ys" "set xs"] sum cards
      card_mono [of "set xs" "set xs \<inter> set ys"] card_mono [of "set ys" "set xs \<inter> set ys"]
    by (simp add: Int_commute)
  have le: "?i \<le> ?n" by (rule card_mono) auto
  have "d = ?n - ?i"
  proof (cases "xs = [] \<or> ys = []")
    case True
    then show ?thesis using d cards unfolding estimated_diff_size_def by (auto simp: full hash_list_Nil split: if_splits)
  next
    case False
    then have ne: "hash_list blake3 xs \<noteq> []" "hash_list blake3 ys \<noteq> []" using X(3) Y(3) by fastforce+
    have "((?n + ?i) * (?n - ?i) + (?n + ?i) div 2) div (?n + ?i) = ?n - ?i" if "0 < ?n + ?i" using that by (rule rounded_quotient)
    moreover have "?n - ?i \<le> u64_max" using sum small(3) by (simp add: u32_max_def u64_max_def)
    ultimately show ?thesis using d ne le sum by (auto simp: estimated_diff_size_def full counts Let_def sat_usize_def split: if_splits)
  qed
  then show ?thesis using diff by simp
qed

text \<open>Sketches are compositional and exact on small stores. The signature is the \<open>K\<close> smallest content hashes.
  The merge of the sketches of two datom sets has the signature of their union, however they overlap. When
  both stores fit into the signature, the estimated size of their difference is the exact size of the
  symmetric difference. The content hash is assumed to have no collision on the datoms at hand.\<close>

theorem sketch_exact:
  assumes "0 < k" "distinct xs" "distinct ys" "distinct us" "set us = set xs \<union> set ys" "inj_on (content_hash blake3) (set us)"
  shows "\<exists>a b u m d. sketch_compute blake3 xs k = Inr a \<and> sketch_compute blake3 ys k = Inr b \<and> sketch_compute blake3 us k = Inr u \<and>
    min_hashes u = take k (sort (map (content_hash blake3) us)) \<and>
    sketch_merge a b = Inr m \<and> min_hashes m = min_hashes u \<and> sketch_merge b a = Inr m \<and>
    estimated_diff_size a b = Inr d \<and>
    (length xs \<le> k \<longrightarrow> length ys \<le> k \<longrightarrow> length xs + length ys \<le> u32_max \<longrightarrow>
       d = card (set xs - set ys) + card (set ys - set xs))"
proof -
  let ?h = "content_hash blake3"
  have inj: "inj_on ?h (set xs)" "inj_on ?h (set ys)" using assms(5,6) by (auto intro: inj_on_subset)
  note X = hash_list_props [OF assms(2) inj(1)] and Y = hash_list_props [OF assms(3) inj(2)] and U = hash_list_props [OF assms(4,6)]
  let ?a = "\<lparr>min_hashes = take k (hash_list blake3 xs), sk_count = length xs, sk_capacity = k\<rparr>"
  let ?b = "\<lparr>min_hashes = take k (hash_list blake3 ys), sk_count = length ys, sk_capacity = k\<rparr>"
  let ?u = "\<lparr>min_hashes = take k (hash_list blake3 us), sk_count = length us, sk_capacity = k\<rparr>"
  let ?m = "\<lparr>min_hashes = take k (hash_list blake3 us), sk_count = length xs + length ys, sk_capacity = k\<rparr>"
  have comp: "sketch_compute blake3 xs k = Inr ?a" "sketch_compute blake3 ys k = Inr ?b" "sketch_compute blake3 us k = Inr ?u"
    by (simp_all add: sketch_compute_eq [OF assms(1)] hash_list_def)
  have img: "set (hash_list blake3 us) = set (hash_list blake3 xs) \<union> set (hash_list blake3 ys)" using X(2) Y(2) U(2) assms(5) by auto
  have merge: "sketch_merge ?a ?b = Inr ?m" "sketch_merge ?b ?a = Inr ?m"
    using take_merge [OF U(1) img X(1) refl Y(1) refl, of k] take_merge [OF U(1) _ Y(1) refl X(1) refl, of k] img
    by (simp_all add: sketch_merge_def Un_commute add.commute)
  have "\<exists>d. estimated_diff_size ?a ?b = Inr d" by (auto simp: estimated_diff_size_def Let_def)
  then obtain d where d: "estimated_diff_size ?a ?b = Inr d" by blast
  have "d = card (set xs - set ys) + card (set ys - set xs)" if "length xs \<le> k" "length ys \<le> k" "length xs + length ys \<le> u32_max"
    using small_diff_exact [OF assms(2,3) _ that d] assms(5,6) by simp
  then show ?thesis using comp merge d by (intro exI [of _ ?a] exI [of _ ?b] exI [of _ ?u] exI [of _ ?m] exI [of _ d]) (simp add: hash_list_def)
qed

theorem sketch_exact_witness:
  "\<exists>a b. sketch_compute id [sample_datom (VLong 1)] 4 = Inr a \<and>
    sketch_compute id [sample_datom (VLong 1), sample_datom (VBool True)] 4 = Inr b \<and> estimated_diff_size a b = Inr 1"
proof -
  let ?d = "sample_datom (VLong 1)" and ?e = "sample_datom (VBool True)"
  have ne: "content_hash id ?d \<noteq> content_hash id ?e"
    by (simp add: content_hash_canonical canonical_bytes_def sample_datom_def)
  then have "?d \<noteq> ?e" by metis
  with ne have "inj_on (content_hash id) (set [?d, ?e])" "distinct [?d, ?e]" by auto
  moreover have "set [?d, ?e] = set [?d] \<union> set [?d, ?e]" by auto
  ultimately obtain a b d where "sketch_compute id [?d] 4 = Inr a" "sketch_compute id [?d, ?e] 4 = Inr b" "estimated_diff_size a b = Inr d"
    "d = card (set [?d] - set [?d, ?e]) + card (set [?d, ?e] - set [?d])"
    using sketch_exact [of 4 "[?d]" "[?d, ?e]" "[?d, ?e]" id] by (auto simp: u32_max_def)
  moreover have "set [?d, ?e] - set [?d] = {?e}" using \<open>?d \<noteq> ?e\<close> by auto
  ultimately show ?thesis by auto
qed

end
