(* ===== verification/Succinct.thy ===== *)
theory Succinct
  imports Ferr_Prelude
begin

unbundle bit_operations_syntax

text \<open>
  The succinct bitvector (\<open>ferratomic-positional/src/succinct.rs\<close>): a table of cumulative population counts over
  the 64-bit words of a bitvector, with \<open>rank1\<close> by one lookup and \<open>select1\<close> by binary search. A bitvector of the
  \<open>bitvec\<close> crate is its raw words and its length in bits; the bits of the last word beyond the length are the
  crate's and are not specified.
\<close>

section \<open>Words\<close>

definition count_ones :: "u64 \<Rightarrow> nat" where
  "count_ones w = length (filter (bit w) [0..<64])"

definition trailing_zeros :: "u64 \<Rightarrow> nat" where
  "trailing_zeros w = length (takeWhile (\<lambda>i. \<not> bit w i) [0..<64])"

fun select_in_word :: "u64 \<Rightarrow> nat \<Rightarrow> nat option" where
  "select_in_word word 0 = (if word = 0 then None else Some (trailing_zeros word))"
| "select_in_word word (Suc k) = (if word = 0 then None else select_in_word (word AND (word - 1)) k)"

section \<open>Bitvectors and their tables\<close>

record bitvec =
  bv_raw :: "u64 list"
  bv_len :: nat

record succinct_bitvec =
  sb_bits :: bitvec
  sb_prefix :: "nat list"
  sb_ones :: nat

fun prefix_loop :: "u64 list \<Rightarrow> nat \<Rightarrow> nat list \<Rightarrow> nat list \<times> nat" where
  "prefix_loop [] cumulative prefix = (prefix, cumulative)"
| "prefix_loop (w # raw) cumulative prefix =
     (let cumulative = sat_usize u64_max (cumulative + count_ones w)
      in prefix_loop raw cumulative (prefix @ [cumulative]))"

definition from_bitvec :: "bitvec \<Rightarrow> succinct_bitvec" where
  "from_bitvec bits =
     (let (prefix, cumulative) = prefix_loop (bv_raw bits) 0 [0]
      in \<lparr>sb_bits = bits, sb_prefix = prefix, sb_ones = cumulative\<rparr>)"

definition rank1 :: "succinct_bitvec \<Rightarrow> nat \<Rightarrow> nat" where
  "rank1 sb pos =
     (if pos = 0 then 0
      else if pos \<ge> bv_len (sb_bits sb) then sb_ones sb
      else let word_idx = pos div 64; bit_idx = pos mod 64;
               base = sb_prefix sb ! word_idx;
               partial = (if bit_idx = 0 then 0
                          else count_ones (bv_raw (sb_bits sb) ! word_idx AND (push_bit bit_idx 1 - 1)))
           in base + partial)"

function search_word :: "nat list \<Rightarrow> nat \<Rightarrow> nat \<Rightarrow> nat \<Rightarrow> nat" where
  "search_word prefix target lo hi =
     (if lo < hi then
        let mid = lo + (hi - lo) div 2
        in if prefix ! (mid + 1) < target then search_word prefix target (mid + 1) hi
           else search_word prefix target lo mid
      else lo)"
  by pat_completeness auto

termination
  by (relation "measure (\<lambda>(_, _, lo, hi). hi - lo)") auto

declare search_word.simps [simp del]

definition select1 :: "succinct_bitvec \<Rightarrow> nat \<Rightarrow> nat option" where
  "select1 sb k =
     (if k \<ge> sb_ones sb then None
      else let target = k + 1; words = length (sb_prefix sb) - 1;
               lo = search_word (sb_prefix sb) target 0 words;
               bits_before = sb_prefix sb ! lo;
               remaining = k - bits_before
           in map_option (\<lambda>bit. lo * 64 + bit) (select_in_word (bv_raw (sb_bits sb) ! lo) remaining))"

definition bv_get :: "bitvec \<Rightarrow> nat \<Rightarrow> bool" where
  "bv_get bv pos \<longleftrightarrow> pos < bv_len bv \<and> bit (bv_raw bv ! (pos div 64)) (pos mod 64)"

definition succinct_get :: "succinct_bitvec \<Rightarrow> nat \<Rightarrow> bool" where
  "succinct_get sb pos = bv_get (sb_bits sb) pos"

section \<open>Counting and clearing bits\<close>

lemma count_ones_card: "count_ones w = card {i. bit w i}"
proof -
  have "{i. bit w i} = set (filter (bit w) [0..<64])" by (auto dest: bit_imp_le_length)
  then show ?thesis using distinct_card [of "filter (bit w) [0..<64]"] by (simp add: count_ones_def)
qed

lemma trailing_zeros_least:
  assumes "w \<noteq> 0"
  shows "bit w (trailing_zeros w)" "\<And>i. i < trailing_zeros w \<Longrightarrow> \<not> bit w i"
proof -
  let ?P = "\<lambda>i. \<not> bit w i"
  obtain n where n: "bit w n" using assms bit_eqI [of w 0] by auto
  then have n64: "n < 64" using bit_imp_le_length [OF n] by simp
  have len: "trailing_zeros w < 64"
  proof (rule ccontr)
    assume "\<not> trailing_zeros w < 64"
    then have "takeWhile ?P [0..<64] = [0..<64]"
      using length_takeWhile_le [of ?P "[0..<64]"] takeWhile_eq_take [of ?P "[0..<64]"] by (simp add: trailing_zeros_def)
    then have "\<forall>i \<in> set [0..<64]. ?P i" by (simp only: takeWhile_eq_all_conv)
    with n n64 show False by simp
  qed
  then show "bit w (trailing_zeros w)"
    using nth_length_takeWhile [of ?P "[0..<64]"] by (simp add: trailing_zeros_def)
  show "\<not> bit w i" if "i < trailing_zeros w" for i
    using that len takeWhile_nth [of i ?P "[0..<64]"] nth_mem [of i "takeWhile ?P [0..<64]"] set_takeWhileD [of "takeWhile ?P [0..<64] ! i" ?P "[0..<64]"]
    by (simp add: trailing_zeros_def)
qed

lemma clear_lowest_bit:
  assumes "w \<noteq> (0 :: u64)"
  shows "w AND (w - 1) = unset_bit (trailing_zeros w) w"
proof -
  let ?n = "trailing_zeros w" and ?u = "unset_bit (trailing_zeros w) w"
  note least = trailing_zeros_least [OF assms]
  have n: "?n < 64" using bit_imp_le_length [OF least(1)] by simp
  have "?u AND 2 ^ ?n = 0" by (rule bit_eqI) (auto simp: bit_simps)
  then have "?u + 2 ^ ?n = ?u OR 2 ^ ?n" by (rule disjunctive_add_eq_or)
  also have "\<dots> = w" using least(1) by (intro bit_eqI) (auto simp: bit_simps)
  finally have "?u + 2 ^ ?n = w" .
  then have "w - 1 = ?u + mask ?n" by (simp add: mask_eq_exp_minus_1 algebra_simps)
  also have "\<dots> = ?u OR mask ?n"
    using least(2) by (intro disjunctive_add_eq_or bit_eqI) (auto simp: bit_simps)
  finally have "w AND (w - 1) = w AND (?u OR mask ?n)" by simp
  also have "\<dots> = ?u"
    using least by (intro bit_eqI) (auto simp: bit_simps)
  finally show ?thesis .
qed

lemma select_in_word_Some:
  "select_in_word w k = Some b \<longleftrightarrow> bit w b \<and> card {i. i < b \<and> bit w i} = k"
proof (induction w k arbitrary: b rule: select_in_word.induct)
  case (1 w)
  show ?case
  proof (cases "w = 0")
    case False
    note least = trailing_zeros_least [OF False]
    have "{i. i < b \<and> bit w i} = {} \<longleftrightarrow> b \<le> trailing_zeros w"
      using least by (auto simp: not_less)
    then show ?thesis using False least by (auto simp: card_eq_0_iff) (metis le_neq_implies_less)
  qed simp
next
  case (2 w k)
  show ?case
  proof (cases "w = 0")
    case False
    let ?n = "trailing_zeros w" and ?u = "unset_bit (trailing_zeros w) w"
    note least = trailing_zeros_least [OF False]
    have "bit w b \<and> card {i. i < b \<and> bit w i} = Suc k \<longleftrightarrow> bit ?u b \<and> card {i. i < b \<and> bit ?u i} = k"
    proof (cases "bit w b \<and> b \<noteq> ?n")
      case True
      then have "{i. i < b \<and> bit w i} = insert ?n {i. i < b \<and> bit ?u i}"
        using least by (auto simp: bit_simps) (metis linorder_neqE_nat)
      then show ?thesis using True by (simp add: bit_simps)
    next
      case b: False
      have none: "{i. i < ?n \<and> bit w i} = {}" using least(2) by auto
      have "card {i. i < b \<and> bit w i} \<noteq> Suc k" if "bit w b"
        using b that none by (metis card.empty nat.distinct(1))
      then show ?thesis using b by (auto simp: bit_simps)
    qed
    then show ?thesis using 2 [OF False] False clear_lowest_bit [OF False] by simp
  qed simp
qed

lemma select_in_word_total: "k < count_ones w \<Longrightarrow> \<exists>b. select_in_word w k = Some b"
proof (induction w k rule: select_in_word.induct)
  case (2 w k)
  then have "w \<noteq> 0" by (auto simp: count_ones_card)
  note least = trailing_zeros_least [OF this]
  have "{i. bit (unset_bit (trailing_zeros w) w) i} = {i. bit w i} - {trailing_zeros w}" by (auto simp: bit_simps)
  then have "count_ones (unset_bit (trailing_zeros w) w) = count_ones w - 1" using least(1) by (simp add: count_ones_card)
  with 2 \<open>w \<noteq> 0\<close> show ?case by (simp add: clear_lowest_bit)
qed (auto simp: count_ones_card)

section \<open>Counting over the words\<close>

definition gbit :: "u64 list \<Rightarrow> nat \<Rightarrow> bool" where
  "gbit raw p \<longleftrightarrow> bit (raw ! (p div 64)) (p mod 64)"

definition ones :: "u64 list \<Rightarrow> nat \<Rightarrow> nat" where
  "ones raw n = card {p. p < n \<and> gbit raw p}"

lemma ones_0 [simp]: "ones raw 0 = 0"
  by (simp add: ones_def)

lemma ones_split:
  assumes "j \<le> 64"
  shows "ones raw (64 * i + j) = ones raw (64 * i) + card {b. b < j \<and> bit (raw ! i) b}"
proof -
  have "{p. p < 64 * i + j \<and> gbit raw p} = {p. p < 64 * i \<and> gbit raw p} \<union> (\<lambda>b. 64 * i + b) ` {b. b < j \<and> bit (raw ! i) b}"
  proof (intro equalityI subsetI)
    fix p assume p: "p \<in> {p. p < 64 * i + j \<and> gbit raw p}"
    show "p \<in> {p. p < 64 * i \<and> gbit raw p} \<union> (\<lambda>b. 64 * i + b) ` {b. b < j \<and> bit (raw ! i) b}"
    proof (cases "p < 64 * i")
      case False
      then have "p div 64 = i" using p assms by (auto simp: div_nat_eqI)
      then have "p div 64 = i" "p mod 64 = p - 64 * i" by (simp_all add: modulo_nat_def mult.commute)
      with p False have "p = 64 * i + (p - 64 * i)" "p - 64 * i \<in> {b. b < j \<and> bit (raw ! i) b}" by (auto simp: gbit_def)
      then show ?thesis by blast
    qed (use p in simp)
  qed (use assms in \<open>auto simp: gbit_def\<close>)
  moreover have "{p. p < 64 * i \<and> gbit raw p} \<inter> (\<lambda>b. 64 * i + b) ` {b. b < j \<and> bit (raw ! i) b} = {}" by auto
  ultimately show ?thesis unfolding ones_def by (simp add: card_Un_disjoint card_image inj_on_def)
qed

lemma ones_word: "ones raw (64 * Suc i) = ones raw (64 * i) + count_ones (raw ! i)"
proof -
  have "{b. b < 64 \<and> bit (raw ! i) b} = {b. bit (raw ! i) b}" by (auto dest: bit_imp_le_length)
  then show ?thesis using ones_split [of 64 raw i] by (simp add: count_ones_card add.commute)
qed

lemma ones_mono: "m \<le> n \<Longrightarrow> ones raw m \<le> ones raw n"
  unfolding ones_def by (rule card_mono) auto

lemma ones_less: "gbit raw m \<Longrightarrow> m < n \<Longrightarrow> ones raw m < ones raw n"
  unfolding ones_def by (rule psubset_card_mono) auto

lemma sum_count_ones: "i \<le> length raw \<Longrightarrow> sum_list (map count_ones (take i raw)) = ones raw (64 * i)"
proof (induction i)
  case (Suc i)
  then show ?case using ones_word [of raw i] by (simp add: take_Suc_conv_app_nth del: mult_Suc_right)
qed simp

lemma count_ones_le: "count_ones w \<le> 64"
  using length_filter_le [of "bit w" "[0..<64]"] by (simp add: count_ones_def)

lemma prefix_loop_spec:
  "c + 64 * length raw \<le> u64_max \<Longrightarrow>
   prefix_loop raw c pre =
     (pre @ map (\<lambda>i. c + sum_list (map count_ones (take (Suc i) raw))) [0..<length raw], c + sum_list (map count_ones raw))"
proof (induction raw arbitrary: c pre)
  case (Cons w raw)
  have le: "c + count_ones w + 64 * length raw \<le> u64_max" using Cons.prems count_ones_le [of w] by simp
  then have "sat_usize u64_max (c + count_ones w) = c + count_ones w" by simp
  then show ?case using Cons.IH [OF le] by (simp add: upt_conv_Cons map_Suc_upt [symmetric] add.assoc del: upt_Suc)
qed simp

lemma prefix_table:
  assumes "64 * length (bv_raw bv) \<le> u64_max"
  shows "length (sb_prefix (from_bitvec bv)) = Suc (length (bv_raw bv))"
    "i \<le> length (bv_raw bv) \<Longrightarrow> sb_prefix (from_bitvec bv) ! i = ones (bv_raw bv) (64 * i)"
    "sb_ones (from_bitvec bv) = ones (bv_raw bv) (64 * length (bv_raw bv))"
    "sb_bits (from_bitvec bv) = bv"
proof -
  note eq = prefix_loop_spec [of 0 "bv_raw bv" "[0]"]
  show "length (sb_prefix (from_bitvec bv)) = Suc (length (bv_raw bv))" using eq assms by (simp add: from_bitvec_def)
  show "sb_prefix (from_bitvec bv) ! i = ones (bv_raw bv) (64 * i)" if "i \<le> length (bv_raw bv)"
    using eq assms that sum_count_ones [of i "bv_raw bv"] by (cases i) (simp_all add: from_bitvec_def)
  show "sb_ones (from_bitvec bv) = ones (bv_raw bv) (64 * length (bv_raw bv))"
    using eq assms sum_count_ones [of "length (bv_raw bv)" "bv_raw bv"] by (simp add: from_bitvec_def)
  show "sb_bits (from_bitvec bv) = bv" using eq assms by (simp add: from_bitvec_def)
qed

lemma search_word_first:
  assumes "lo \<le> hi" "\<And>i j. i \<le> j \<Longrightarrow> j \<le> n \<Longrightarrow> pre ! i \<le> (pre ! j :: nat)" "hi \<le> n"
    "\<And>i. i < lo \<Longrightarrow> pre ! Suc i < target" "\<And>i. hi \<le> i \<Longrightarrow> i < n \<Longrightarrow> target \<le> pre ! Suc i"
  shows "search_word pre target lo hi \<le> hi \<and> (\<forall>i < search_word pre target lo hi. pre ! Suc i < target) \<and>
    (\<forall>i \<ge> search_word pre target lo hi. i < n \<longrightarrow> target \<le> pre ! Suc i)"
  using assms
proof (induction pre target lo hi rule: search_word.induct)
  case (1 pre target lo hi)
  show ?case
  proof (cases "lo < hi")
    case True
    let ?mid = "lo + (hi - lo) div 2"
    have mid: "lo \<le> ?mid" "?mid < hi" using True by simp_all
    show ?thesis
    proof (cases "pre ! (?mid + 1) < target")
      case less: True
      have "pre ! Suc i < target" if "i < ?mid + 1" for i
        using "1.prems"(2) [of "Suc i" "?mid + 1"] that less mid "1.prems"(3) by simp
      then show ?thesis
        using "1.IH"(1) [OF True refl less _ "1.prems"(2,3) _ "1.prems"(5)] mid True less by (subst (1 2 3) search_word.simps) (simp add: Let_def)
    next
      case ge: False
      have "target \<le> pre ! Suc i" if "?mid \<le> i" "i < n" for i
        using "1.prems"(2) [of "?mid + 1" "Suc i"] that ge by simp
      then have "search_word pre target lo ?mid \<le> ?mid \<and> (\<forall>i < search_word pre target lo ?mid. pre ! Suc i < target) \<and>
          (\<forall>i \<ge> search_word pre target lo ?mid. i < n \<longrightarrow> target \<le> pre ! Suc i)"
        using "1.IH"(2) [OF True refl ge mid(1) "1.prems"(2) _ "1.prems"(4)] mid "1.prems"(3) by simp
      then show ?thesis using mid True ge by (subst (1 2 3) search_word.simps) (simp add: Let_def)
    qed
  next
    case False
    then show ?thesis using "1.prems" by (simp add: search_word.simps)
  qed
qed

text \<open>Whatever the unused bits are, they are counted.\<close>

lemma dead_bits_counted: "sb_ones (from_bitvec \<lparr>bv_raw = [3], bv_len = 1\<rparr>) = 2"
proof -
  have "filter (bit (3 :: u64)) [0..<64] = [0, 1]" by (simp add: upt_rec bit_numeral_rec bit_1_iff)
  then show ?thesis by (simp add: from_bitvec_def count_ones_def sat_usize_def try_from_usize_def u64_max_def)
qed

section \<open>Rank and select\<close>

text \<open>The bits beyond the length are zero, and the words hold the whole length.\<close>

definition bitvec_ok :: "bitvec \<Rightarrow> bool" where
  "bitvec_ok bv \<longleftrightarrow> bv_len bv \<le> 64 * length (bv_raw bv) \<and> 64 * length (bv_raw bv) \<le> u64_max \<and>
     (\<forall>p. bv_len bv \<le> p \<and> p < 64 * length (bv_raw bv) \<longrightarrow> \<not> gbit (bv_raw bv) p)"

lemma rank1_ones:
  assumes "64 * length (bv_raw bv) \<le> u64_max" "p < bv_len bv" "bv_len bv \<le> 64 * length (bv_raw bv)"
  shows "rank1 (from_bitvec bv) p = ones (bv_raw bv) p"
proof -
  let ?raw = "bv_raw bv"
  have idx: "p div 64 < length ?raw" using assms(2,3) by (simp add: less_mult_imp_div_less mult.commute)
  have "count_ones (?raw ! (p div 64) AND (push_bit (p mod 64) 1 - 1)) = card {b. b < p mod 64 \<and> bit (?raw ! (p div 64)) b}"
  proof -
    have "{i. bit (?raw ! (p div 64) AND mask (p mod 64)) i} = {b. b < p mod 64 \<and> bit (?raw ! (p div 64)) b}"
      by (auto simp: bit_simps dest: bit_imp_le_length)
    then show ?thesis by (simp add: count_ones_card mask_eq_exp_minus_1)
  qed
  moreover have "ones ?raw p = ones ?raw (64 * (p div 64)) + card {b. b < p mod 64 \<and> bit (?raw ! (p div 64)) b}"
    using ones_split [of "p mod 64" ?raw "p div 64"] by simp
  ultimately show ?thesis
    using idx assms(2) prefix_table [OF assms(1)] by (cases "p mod 64 = 0") (simp_all add: rank1_def Let_def)
qed

lemma select1_found:
  assumes "64 * length (bv_raw bv) \<le> u64_max" "k < ones (bv_raw bv) (64 * length (bv_raw bv))"
  shows "\<exists>p. select1 (from_bitvec bv) k = Some p \<and> p < 64 * length (bv_raw bv) \<and> gbit (bv_raw bv) p \<and> ones (bv_raw bv) p = k"
proof -
  let ?raw = "bv_raw bv" and ?n = "length (bv_raw bv)" and ?pre = "sb_prefix (from_bitvec bv)"
  note table = prefix_table [OF assms(1)]
  define r where "r = search_word ?pre (k + 1) 0 ?n"
  have "?pre ! i \<le> ?pre ! j" if "i \<le> j" "j \<le> ?n" for i j using that by (simp add: table(2) ones_mono)
  from search_word_first [of 0 ?n ?n ?pre "k + 1", OF _ this]
  have r: "r \<le> ?n" "\<And>i. i < r \<Longrightarrow> ?pre ! Suc i < k + 1" "\<And>i. r \<le> i \<Longrightarrow> i < ?n \<Longrightarrow> k + 1 \<le> ?pre ! Suc i"
    by (simp_all add: r_def)
  have before: "ones ?raw (64 * r) \<le> k"
    using r(1) r(2) [of "r - 1"] table(2) [of r] by (cases r) simp_all
  have "r \<noteq> ?n" using before assms(2) by auto
  then have lt: "r < ?n" using r(1) by simp
  then have "k < ones ?raw (64 * Suc r)" using r(3) [of r] table(2) [of "Suc r"] by simp
  then have "k - ones ?raw (64 * r) < count_ones (?raw ! r)" using ones_word [of ?raw r] before by simp
  then obtain b where b: "select_in_word (?raw ! r) (k - ones ?raw (64 * r)) = Some b" using select_in_word_total by blast
  then have bit: "bit (?raw ! r) b" "card {i. i < b \<and> bit (?raw ! r) i} = k - ones ?raw (64 * r)" by (simp_all add: select_in_word_Some)
  have b64: "b < 64" using bit_imp_le_length [OF bit(1)] by simp
  have "select1 (from_bitvec bv) k = Some (r * 64 + b)"
    using b assms(2) lt by (simp add: select1_def Let_def table r_def)
  moreover have "gbit ?raw (r * 64 + b)" using bit(1) b64 by (simp add: gbit_def)
  moreover have "ones ?raw (r * 64 + b) = k" using ones_split [of b ?raw r] bit(2) b64 before by (simp add: mult.commute)
  moreover have "r * 64 + b < 64 * ?n" using lt b64 by linarith
  ultimately show ?thesis by blast
qed

text \<open>C39 Rank and select are exact inverse functions. For every bitvector whose unused bits are zero, \<open>rank1\<close> counts
  the set bits below a position, also past the end; \<open>select1 k\<close> is the position of the \<open>k\<close>-th set bit, that is the
  set bit with \<open>k\<close> set bits below it, and it answers exactly when there are more than \<open>k\<close>.\<close>

theorem rank_select_exact:
  assumes "bitvec_ok bv" "sb = from_bitvec bv"
  shows "rank1 sb pos = card {p. p < pos \<and> bv_get bv p} \<and>
    (select1 sb k = Some p \<longleftrightarrow> succinct_get sb p \<and> rank1 sb p = k) \<and>
    (select1 sb k = None \<longleftrightarrow> card {p. bv_get bv p} \<le> k)"
proof -
  let ?raw = "bv_raw bv" and ?n = "64 * length (bv_raw bv)"
  have len: "bv_len bv \<le> ?n" and max: "?n \<le> u64_max" and dead: "\<And>p. bv_len bv \<le> p \<Longrightarrow> p < ?n \<Longrightarrow> \<not> gbit ?raw p"
    using assms(1) by (auto simp: bitvec_ok_def)
  note table = prefix_table [OF max]
  have get: "bv_get bv p \<longleftrightarrow> p < bv_len bv \<and> gbit ?raw p" for p by (simp add: bv_get_def gbit_def)
  have all: "{p. bv_get bv p} = {p. p < ?n \<and> gbit ?raw p}" using len dead get by (auto simp: not_less [symmetric])
  have rank: "rank1 sb pos = card {p. p < pos \<and> bv_get bv p}" for pos
  proof (cases "pos < bv_len bv")
    case True
    then have "{p. p < pos \<and> bv_get bv p} = {p. p < pos \<and> gbit ?raw p}" by (auto simp: get)
    then show ?thesis using rank1_ones [OF max True len] assms(2) by (simp add: ones_def)
  next
    case False
    then have "{p. p < pos \<and> bv_get bv p} = {p. bv_get bv p}" by (auto simp: get)
    then show ?thesis using False all assms(2) table(3,4) by (auto simp: rank1_def ones_def)
  qed
  have rank_ones: "rank1 sb p = ones ?raw p" if "bv_get bv p" for p using rank1_ones [OF max _ len, of p] that assms(2) get by simp
  have total: "ones ?raw ?n = card {p. bv_get bv p}" by (simp add: all ones_def)
  have none: "select1 sb k = None" if "ones ?raw ?n \<le> k" using that assms(2) table(3) by (simp add: select1_def)
  have some: "\<exists>p. select1 sb k = Some p \<and> bv_get bv p \<and> ones ?raw p = k" if "k < ones ?raw ?n"
    using select1_found [OF max that] all assms(2) by blast
  have uniq: "p = q" if "bv_get bv p" "bv_get bv q" "ones ?raw p = ones ?raw q" for p q
    using that ones_less [of ?raw p q] ones_less [of ?raw q p] get by (metis linorder_neqE_nat less_irrefl)
  have below: "ones ?raw p < ones ?raw ?n" if "bv_get bv p" for p using that ones_less [of ?raw p ?n] get len by auto
  have "select1 sb k = Some p \<longleftrightarrow> bv_get bv p \<and> ones ?raw p = k"
    using none some uniq below by (metis not_less option.distinct(1) option.inject)
  moreover have "select1 sb k = None \<longleftrightarrow> card {p. bv_get bv p} \<le> k" using none some total by (metis not_less option.distinct(1))
  moreover have "succinct_get sb p = bv_get bv p" using assms(2) table(4) by (simp add: succinct_get_def)
  ultimately show ?thesis using rank rank_ones by metis
qed

theorem rank_select_exact_witness:
  "select1 (from_bitvec \<lparr>bv_raw = [0, 5], bv_len = 70\<rparr>) 1 = Some 66"
proof -
  let ?bv = "\<lparr>bv_raw = [0, 5 :: u64], bv_len = 70\<rparr>"
  have b5: "bit (5 :: u64) n \<longleftrightarrow> n = 0 \<or> n = 2" for n
    by (simp add: bit_numeral_rec bit_1_iff split: nat.split) auto
  have g: "gbit [0, 5 :: u64] p \<longleftrightarrow> p = 64 \<or> p = 66" if "p < 128" for p
  proof -
    have "p div 64 = 0 \<or> p div 64 = 1" using that by linarith
    then show ?thesis
    proof
      assume "p div 64 = 1"
      moreover then have "p = 64 + p mod 64" using div_mult_mod_eq [of p 64] by simp
      ultimately show ?thesis using b5 [of "p mod 64"] by (auto simp: gbit_def)
    qed (auto simp: gbit_def)
  qed
  then have ok: "bitvec_ok ?bv" by (auto simp: bitvec_ok_def u64_max_def)
  have "{p. p < 66 \<and> bv_get ?bv p} = {64}" using g by (auto simp: bv_get_def gbit_def)
  with rank_select_exact [OF ok refl, of 66 1 66] prefix_table(4) [of ?bv] show ?thesis
    by (simp add: succinct_get_def bv_get_def gbit_def b5 u64_max_def)
qed

end
