(* ===== verification/Mmap.thy ===== *)
theory Mmap
  imports Checkpoint Succinct
begin

text \<open>
  Memory-mapped checkpoints (\<open>ferratomic-checkpoint/src/mmap.rs\<close>): the payload, its writer, the cold start from a
  mapped file, the promotion to a positional store, and the checked cast. The \<open>rkyv\<close> crate is a
  parameter: writing an archive, the validated and the unchecked access. A mapped file is its bytes; opening
  and mapping may fail. A bitvector is its words and its length, as in \<open>Succinct\<close>.
\<close>

section \<open>Mapped stores\<close>

record mmap_payload =
  mp_datoms_bytes :: bytes
  mp_datom_count :: nat
  mp_live_bits_words :: "u64 list"
  mp_live_bits_len :: nat
  mp_epoch :: u64
  mp_genesis_node :: bytes
  mp_schema_bytes :: bytes

record rkyv =
  rkyv_to_bytes :: "mmap_payload \<Rightarrow> bytes option"
  rkyv_access :: "bytes \<Rightarrow> mmap_payload option"
  rkyv_access_unchecked :: "bytes \<Rightarrow> mmap_payload"

record mapped_store =
  ms_mmap :: bytes
  ms_payload_end :: nat
  ms_epoch :: u64
  ms_datom_count :: nat

definition validate_and_cast :: "(bytes \<Rightarrow> bytes) \<Rightarrow> nat \<Rightarrow> nat \<Rightarrow> (bytes \<Rightarrow> 'a) \<Rightarrow> nat \<Rightarrow> bytes \<Rightarrow> ferra_error + 'a" where
  "validate_and_cast blake3 size_of align_of cast ptr bs =
     bind_result (verify_blake3 blake3 bs size_of) (\<lambda>content.
       if ptr mod align_of \<noteq> 0 then Inl CheckpointCorrupted else Inr (cast (take size_of content)))"

definition archived :: "rkyv \<Rightarrow> mapped_store \<Rightarrow> mmap_payload" where
  "archived rk m = rkyv_access_unchecked rk (take (ms_payload_end m) (ms_mmap m))"

definition bv_from_vec :: "u64 list \<Rightarrow> bitvec" where
  "bv_from_vec words = \<lparr>bv_raw = words, bv_len = 64 * length words\<rparr>"

definition bv_truncate :: "nat \<Rightarrow> bitvec \<Rightarrow> bitvec" where
  "bv_truncate n bv = (if n < bv_len bv then bv\<lparr>bv_len := n\<rparr> else bv)"

definition bits_of :: "bitvec \<Rightarrow> bool list" where
  "bits_of bv = map (bv_get bv) [0..<bv_len bv]"

definition promote_to_positional :: "(bytes \<Rightarrow> bytes) \<Rightarrow> bincode \<Rightarrow> rkyv \<Rightarrow> mapped_store \<Rightarrow> ferra_error + positional_store" where
  "promote_to_positional blake3 bc rk m =
     (let a = archived rk m
      in case de_datoms bc (mp_datoms_bytes a) of
           None \<Rightarrow> Inl CheckpointCorrupted
         | Some wire_datoms \<Rightarrow>
             let ds = map into_trusted wire_datoms
             in case try_from_usize u64_max (mp_live_bits_len a) of
                  None \<Rightarrow> Inl CheckpointCorrupted
                | Some live_bits_len \<Rightarrow>
                    let live_bits = bv_truncate live_bits_len (bv_from_vec (mp_live_bits_words a))
                    in from_sorted_with_live blake3 ds (bits_of live_bits))"

definition access_archived :: "rkyv \<Rightarrow> bytes \<Rightarrow> ferra_error + mmap_payload" where
  "access_archived rk content = (case rkyv_access rk content of None \<Rightarrow> Inl CheckpointCorrupted | Some a \<Rightarrow> Inr a)"

definition mmap_cold_start :: "(bytes \<Rightarrow> bytes) \<Rightarrow> rkyv \<Rightarrow> bytes option \<Rightarrow> bool \<Rightarrow> ferra_error + mapped_store" where
  "mmap_cold_start blake3 rk file maps =
     (case file of
        None \<Rightarrow> Inl (Io ''entity not found'' ''mmap_cold_start'')
      | Some mmap \<Rightarrow>
          if \<not> maps then Inl (Io ''other error'' ''mmap failed'')
          else bind_result (verify_blake3 blake3 mmap 0) (\<lambda>content.
               bind_result (access_archived rk content) (\<lambda>a.
               Inr \<lparr>ms_mmap = mmap, ms_payload_end = length mmap - HASH_SIZE, ms_epoch = mp_epoch a,
                    ms_datom_count = mp_datom_count a\<rparr>)))"

definition serialize_mmap_checkpoint ::
  "(bytes \<Rightarrow> bytes) \<Rightarrow> bincode \<Rightarrow> rkyv \<Rightarrow> datom list \<Rightarrow> bitvec \<Rightarrow> u64 \<Rightarrow> bytes \<Rightarrow> bytes \<Rightarrow> ferra_error + bytes" where
  "serialize_mmap_checkpoint blake3 bc rk ds live_bits ep node schema_bytes =
     (case ser_datoms bc ds of
        None \<Rightarrow> Inl CheckpointCorrupted
      | Some datoms_bytes \<Rightarrow>
          (case try_from_usize u64_max (length ds) of
             None \<Rightarrow> Inl (CheckpointWrite ''datom count exceeds u64'')
           | Some datom_count \<Rightarrow>
               (case try_from_usize u64_max (bv_len live_bits) of
                  None \<Rightarrow> Inl (CheckpointWrite ''live_bits length exceeds u64'')
                | Some live_bits_len \<Rightarrow>
                    (case rkyv_to_bytes rk \<lparr>mp_datoms_bytes = datoms_bytes, mp_datom_count = datom_count,
                        mp_live_bits_words = bv_raw live_bits, mp_live_bits_len = live_bits_len, mp_epoch = ep,
                        mp_genesis_node = node, mp_schema_bytes = schema_bytes\<rparr> of
                       None \<Rightarrow> Inl CheckpointCorrupted
                     | Some result \<Rightarrow> Inr (result @ blake3 result)))))"

section \<open>Writing and mapping\<close>

text \<open>What the code relies on: an archive is read back as it was written, by both accesses.\<close>

definition rkyv_reads_back :: "rkyv \<Rightarrow> bool" where
  "rkyv_reads_back rk \<longleftrightarrow> (\<forall>p bs. rkyv_to_bytes rk p = Some bs \<longrightarrow> rkyv_access rk bs = Some p \<and> rkyv_access_unchecked rk bs = p)"

lemma verify_blake3_iff:
  assumes "digest32 b"
  shows "verify_blake3 b bs n = Inr content \<longleftrightarrow> bs = content @ b content \<and> n \<le> length content"
proof -
  have len: "length (b content) = 32" using assms by (simp add: digest32_def)
  show ?thesis
  proof
    assume v: "verify_blake3 b bs n = Inr content"
    then have c: "content = take (length bs - 32) bs" "b content = drop (length bs - 32) bs" "32 + n \<le> length bs"
      by (auto simp: verify_blake3_def HASH_SIZE_def Let_def split: if_splits)
    then show "bs = content @ b content \<and> n \<le> length content" by (metis append_take_drop_id length_take min.absorb2 diff_le_self add_le_imp_le_diff add.commute)
  qed (use len in \<open>auto simp: verify_blake3_def HASH_SIZE_def Let_def\<close>)
qed

lemma truncated_bits: "bv_len bv \<le> 64 * length (bv_raw bv) \<Longrightarrow> bits_of (bv_truncate (bv_len bv) (bv_from_vec (bv_raw bv))) = bits_of bv"
  by (auto simp: bits_of_def bv_truncate_def bv_from_vec_def bv_get_def)

text \<open>C35 A mapped checkpoint restores the store. For a positional store written with its LIVE bits, the cold start
  from the mapped file succeeds with the epoch and the number of datoms, and promotion returns exactly that
  store. Whatever file is mapped, a cold start succeeds only on contents followed by their own hash that the archive
  validator accepts, and every other mapped file is reported as corrupted; the checked cast accepts
  exactly sealed and aligned bytes of at least the size of its target.\<close>

theorem mmap_roundtrip:
  assumes "bincode_reads_back bc" "rkyv_reads_back rk" "digest32 b" "ps_inv b s" "ps_len s \<le> u32_max"
    "bv_len bv \<le> 64 * length (bv_raw bv)" "bits_of bv = live_bits_clone s"
    "serialize_mmap_checkpoint b bc rk (ps_canonical s) bv ep node schema = Inr bs"
  shows "(\<exists>m. mmap_cold_start b rk (Some bs) True = Inr m \<and> ms_epoch m = ep \<and> ms_datom_count m = ps_len s \<and>
      promote_to_positional b bc rk m = Inr s) \<and>
    (\<forall>img. (case mmap_cold_start b rk (Some img) True of
        Inr m \<Rightarrow> \<exists>content a. img = content @ b content \<and> rkyv_access rk content = Some a \<and> ms_epoch m = mp_epoch a
      | Inl e \<Rightarrow> e = CheckpointCorrupted)) \<and>
    (\<forall>size align cast ptr img. (\<exists>x. validate_and_cast b size align cast ptr img = Inr x) \<longleftrightarrow>
      (\<exists>content. img = content @ b content \<and> size \<le> length content) \<and> ptr mod align = 0)"
proof -
  note v = verify_blake3_iff [OF assms(3)]
  obtain dbs p r where ser: "ser_datoms bc (ps_canonical s) = Some dbs"
    and p: "p = \<lparr>mp_datoms_bytes = dbs, mp_datom_count = ps_len s, mp_live_bits_words = bv_raw bv, mp_live_bits_len = bv_len bv,
        mp_epoch = ep, mp_genesis_node = node, mp_schema_bytes = schema\<rparr>"
    and r: "rkyv_to_bytes rk p = Some r" "bs = r @ b r" and len: "bv_len bv \<le> u64_max"
    using assms(8) by (auto simp: serialize_mmap_checkpoint_def try_from_usize_def ps_len_def split: option.splits if_splits)
  have acc: "rkyv_access rk r = Some p" "rkyv_access_unchecked rk r = p" using assms(2) r(1) by (auto simp: rkyv_reads_back_def)
  have wire: "de_datoms bc dbs = Some (map to_wire (ps_canonical s))" using assms(1) ser by (simp add: bincode_reads_back_def)
  have h: "length (b r) = 32" using assms(3) by (simp add: digest32_def)
  let ?m = "\<lparr>ms_mmap = bs, ms_payload_end = length bs - HASH_SIZE, ms_epoch = ep, ms_datom_count = ps_len s\<rparr>"
  have "verify_blake3 b bs 0 = Inr r" by (simp add: v r(2))
  then have "mmap_cold_start b rk (Some bs) True = Inr ?m"
    by (simp add: mmap_cold_start_def access_archived_def acc(1) bind_result_def) (simp add: p)
  moreover have "archived rk ?m = p" using h by (simp add: archived_def r(2) HASH_SIZE_def acc(2))
  then have "promote_to_positional b bc rk ?m = Inr s"
    using wire len from_sorted_with_live_restore [OF assms(4,5)] truncated_bits [OF assms(6)] assms(7)
    by (simp add: promote_to_positional_def p try_from_usize_def)
  moreover have "case mmap_cold_start b rk (Some img) True of
        Inr m \<Rightarrow> \<exists>content a. img = content @ b content \<and> rkyv_access rk content = Some a \<and> ms_epoch m = mp_epoch a
      | Inl e \<Rightarrow> e = CheckpointCorrupted" for img
  proof (cases "verify_blake3 b img 0")
    case (Inl e)
    then show ?thesis by (auto simp: mmap_cold_start_def bind_result_def verify_blake3_def Let_def split: if_splits)
  next
    case (Inr content)
    then have "img = content @ b content" by (simp add: v)
    with Inr show ?thesis by (auto simp: mmap_cold_start_def bind_result_def access_archived_def split: option.splits)
  qed
  moreover have "(\<exists>x. validate_and_cast b size align cast ptr img = Inr x) \<longleftrightarrow>
      (\<exists>content. img = content @ b content \<and> size \<le> length content) \<and> ptr mod align = 0" for size align ptr img and cast :: "bytes \<Rightarrow> 'a"
    using v [of img size] by (cases "verify_blake3 b img size") (auto simp: validate_and_cast_def bind_result_def)
  ultimately show ?thesis by auto
qed

theorem mmap_roundtrip_witness:
  "\<exists>bc rk bs m. serialize_mmap_checkpoint zero_digest bc rk [sample_datom (VLong 1)] \<lparr>bv_raw = [1], bv_len = 1\<rparr> 5 [] [] = Inr bs \<and>
     mmap_cold_start zero_digest rk (Some bs) True = Inr m \<and>
     promote_to_positional zero_digest bc rk m = Inr (ps_from_datoms zero_digest [sample_datom (VLong 1)])"
proof -
  let ?d = "sample_datom (VLong 1)" and ?bv = "\<lparr>bv_raw = [1], bv_len = 1\<rparr>"
  let ?s = "ps_from_datoms zero_digest [?d]"
  let ?p = "\<lparr>mp_datoms_bytes = [], mp_datom_count = 1, mp_live_bits_words = [1], mp_live_bits_len = 1, mp_epoch = 5,
      mp_genesis_node = [], mp_schema_bytes = []\<rparr>"
  let ?bc = "one_value_bincode [?d] undefined undefined undefined"
  let ?rk = "\<lparr>rkyv_to_bytes = (\<lambda>p. if p = ?p then Some [] else None), rkyv_access = (\<lambda>_. Some ?p), rkyv_access_unchecked = (\<lambda>_. ?p)\<rparr>"
  have rk: "rkyv_reads_back ?rk" by (simp add: rkyv_reads_back_def)
  have can: "ps_canonical ?s = [?d]" by (simp add: ps_from_datoms_def sort_dedup_def Let_def)
  have len: "ps_len ?s \<le> u32_max" using can by (simp add: ps_len_def u32_max_def)
  have "is_live ?s 0" using live_bits_iff [OF ps_inv_simps(1) len, of 0] can by (simp add: is_live_def ps_len_def latest_def sample_datom_def)
  then have "live_bits_clone ?s = [True]"
    using live_bits_clone_nth [of 0 ?s] can by (intro nth_equalityI) (simp_all add: ps_len_def)
  then have bits: "bits_of ?bv = live_bits_clone ?s" by (simp add: bits_of_def bv_get_def)
  have bv: "bv_len ?bv \<le> 64 * length (bv_raw ?bv)" by simp
  have ser: "\<exists>bs. serialize_mmap_checkpoint zero_digest ?bc ?rk (ps_canonical ?s) ?bv 5 [] [] = Inr bs"
    by (simp add: serialize_mmap_checkpoint_def can one_value_bincode_def try_from_usize_def u64_max_def)
  then obtain bs where bs: "serialize_mmap_checkpoint zero_digest ?bc ?rk (ps_canonical ?s) ?bv 5 [] [] = Inr bs" ..
  obtain m where "mmap_cold_start zero_digest ?rk (Some bs) True = Inr m" "promote_to_positional zero_digest ?bc ?rk m = Inr ?s"
    using mmap_roundtrip [OF one_value_bincode_reads_back rk zero_digest(1) ps_inv_simps(1) len bv bits bs, THEN conjunct1] by (elim exE conjE)
  with bs show ?thesis unfolding can by (intro exI conjI)
qed

end
