(* ===== verification/Ans.thy ===== *)
theory Ans
  imports Canonical
begin

text \<open>
  Byte compression by asymmetric numeral systems (\<open>ferratomic-positional/src/ans.rs\<close>): the counting of bytes and the
  header around the coder of the \<open>ans\<close> crate. The coder is a parameter: building a frequency table, encoding
  and decoding, each of which may fail. \<open>estimate_ratio\<close>, a floating-point entropy for reports, is left out.
\<close>

section \<open>Compression\<close>

record 'table coder =
  from_counts :: "u32 list \<Rightarrow> nat \<Rightarrow> string + 'table"
  ans_encode :: "u32 list \<Rightarrow> 'table \<Rightarrow> string + bytes"
  ans_decode :: "bytes \<Rightarrow> 'table \<Rightarrow> nat \<Rightarrow> string + u32 list"

definition PRECISION_BITS :: nat where "PRECISION_BITS = 12"

definition ans_error :: ferra_error where
  "ans_error = InvariantViolation ''ANS''"

definition map_err :: "string + 'a \<Rightarrow> ferra_error + 'a" where
  "map_err r = (case r of Inl _ \<Rightarrow> Inl ans_error | Inr x \<Rightarrow> Inr x)"

definition byte_counts :: "bytes \<Rightarrow> u32 list" where
  "byte_counts data = fold (\<lambda>b counts. counts[unat b := counts ! unat b + 1]) data (replicate 256 0)"

definition ans_compress :: "'t coder \<Rightarrow> bytes \<Rightarrow> ferra_error + bytes" where
  "ans_compress c data =
     (if data = [] then Inl ans_error
      else let counts = byte_counts data
      in bind_result (map_err (from_counts c counts PRECISION_BITS)) (\<lambda>table.
         let symbols = map (\<lambda>b. ucast b :: u32) data
         in bind_result (map_err (ans_encode c symbols table)) (\<lambda>compressed.
         case try_from_usize u32_max (length data) of
           None \<Rightarrow> Inl ans_error
         | Some sym_count \<Rightarrow> Inr (concat (map (to_le_bytes 4) counts) @ to_le_bytes 4 (of_nat sym_count :: u32) @ compressed))))"

definition ans_decompress :: "'t coder \<Rightarrow> bytes \<Rightarrow> ferra_error + bytes" where
  "ans_decompress c compressed =
     (let header_size = 1024 + 4
      in if length compressed < header_size then Inl TruncatedChunk
      else let counts = map (\<lambda>i. from_le_bytes (take 4 (drop (i * 4) compressed)) :: u32) [0..<256];
               sym_count = unat (from_le_bytes (take 4 (drop 1024 compressed)) :: u32)
      in bind_result (map_err (from_counts c counts PRECISION_BITS)) (\<lambda>table.
         bind_result (map_err (ans_decode c (drop header_size compressed) table sym_count)) (\<lambda>symbols.
         Inr (map (\<lambda>s. case try_from_usize 255 (unat s) of Some b \<Rightarrow> of_nat b | None \<Rightarrow> 0) symbols))))"

section \<open>The header\<close>

lemma unat_byte_less: "unat (b :: u8) < 256"
  using unsigned_less [of b, where ?'a = nat] by simp

lemma unat_ucast_byte: "unat (ucast (b :: u8) :: u32) = unat b"
  using unat_byte_less [of b] by (simp add: unsigned_ucast_eq take_bit_nat_eq_self_iff)

lemma length_byte_counts [simp]: "length (byte_counts data) = 256"
proof -
  have "length (fold (\<lambda>b counts. counts[unat b := counts ! unat b + 1]) data cs) = length cs" for cs :: "u32 list"
    by (induction data arbitrary: cs) simp_all
  then show ?thesis by (simp add: byte_counts_def)
qed

lemma byte_counts_nth:
  "byte_counts data ! unat (b :: u8) = of_nat (count_list data b)"
proof -
  have "fold (\<lambda>b counts. counts[unat b := counts ! unat b + 1]) data cs ! unat b = cs ! unat b + of_nat (count_list data b)"
    if "length cs = 256" for cs :: "u32 list"
    using that
  proof (induction data arbitrary: cs)
    case (Cons a data)
    have "unat a < 256" using unat_byte_less [of a] by simp
    then show ?case using Cons by (auto simp: nth_list_update unsigned_word_eqI)
  qed simp
  from this [of "replicate 256 0"] show ?thesis using unat_byte_less [of b] by (simp add: byte_counts_def)
qed

lemma counts_header:
  "i < length counts \<Longrightarrow> take 4 (drop (i * 4) (concat (map (to_le_bytes 4) counts) @ rest)) = to_le_bytes 4 (counts ! i)"
proof (induction counts arbitrary: i)
  case (Cons w counts)
  then show ?case by (cases i) (simp_all add: drop_append)
qed simp

lemma length_counts: "length (concat (map (to_le_bytes 4) counts)) = 4 * length counts"
  by (induction counts) simp_all

text \<open>What the coder promises: decoding reads back what encoding wrote with the same table.\<close>

definition coder_reads_back :: "'t coder \<Rightarrow> bool" where
  "coder_reads_back c \<longleftrightarrow> (\<forall>table symbols out. ans_encode c symbols table = Inr out \<longrightarrow>
     ans_decode c out table (length symbols) = Inr symbols)"

lemma byte_of_symbol: "(case try_from_usize 255 (unat (ucast b :: u32)) of Some n \<Rightarrow> of_nat n | None \<Rightarrow> 0) = (b :: u8)"
proof -
  have "unat b \<le> 255" using unat_byte_less [of b] by simp
  then show ?thesis by (simp add: try_from_usize_def unat_ucast_byte)
qed

text \<open>Compression round-trips through the header. With a coder that reads back its own output, whatever
  \<open>ans_compress\<close> returns for some bytes decompresses to these bytes, and its header holds the number of occurrences
  of every byte and the length. It returns an output exactly when the input is not empty, no longer than a
  32-bit count, and the coder accepts it; a buffer shorter than the header is reported as truncated.\<close>

theorem ans_roundtrip:
  assumes "coder_reads_back c"
  shows "(\<forall>out. ans_compress c data = Inr out \<longrightarrow>
      ans_decompress c out = Inr data \<and>
      (\<forall>b. from_le_bytes (take 4 (drop (unat b * 4) out)) = (of_nat (count_list data b) :: u32)) \<and>
      unat (from_le_bytes (take 4 (drop 1024 out)) :: u32) = length data) \<and>
    ((\<exists>out. ans_compress c data = Inr out) \<longleftrightarrow> data \<noteq> [] \<and> length data \<le> u32_max \<and>
      (\<exists>table out. from_counts c (byte_counts data) PRECISION_BITS = Inr table \<and> ans_encode c (map ucast data) table = Inr out)) \<and>
    (length bs < 1028 \<longrightarrow> ans_decompress c bs = Inl TruncatedChunk)"
proof -
  let ?counts = "byte_counts data" and ?sy = "map (\<lambda>b. ucast b :: u32) data"
  have "ans_decompress c out = Inr data \<and>
      (\<forall>b. from_le_bytes (take 4 (drop (unat b * 4) out)) = (of_nat (count_list data b) :: u32)) \<and>
      unat (from_le_bytes (take 4 (drop 1024 out)) :: u32) = length data" if comp: "ans_compress c data = Inr out" for out
  proof -
    from comp obtain table z where
      t: "from_counts c ?counts PRECISION_BITS = Inr table" and z: "ans_encode c ?sy table = Inr z" and n: "length data \<le> u32_max"
      and out: "out = concat (map (to_le_bytes 4) ?counts) @ to_le_bytes 4 (of_nat (length data) :: u32) @ z"
      by (auto simp: ans_compress_def Let_def map_err_def bind_result_def try_from_usize_def split: if_splits sum.splits)
    have count: "from_le_bytes (take 4 (drop (i * 4) out)) = ?counts ! i" if "i < 256" for i
      using that counts_header [of i ?counts] unfolding out by (simp del: take_append drop_append)
    have len: "from_le_bytes (take 4 (drop 1024 out)) = (of_nat (length data) :: u32)" "drop 1028 out = z"
      by (simp_all add: out length_counts)
    have "map (\<lambda>i. from_le_bytes (take 4 (drop (i * 4) out)) :: u32) [0..<256] = ?counts"
      by (rule nth_equalityI) (simp_all add: count)
    moreover have nat: "unat (of_nat (length data) :: u32) = length data" using n by (simp add: unsigned_of_nat take_bit_nat_eq_self_iff u32_max_def)
    moreover have "ans_decode c z table (length data) = Inr ?sy" using assms z unfolding coder_reads_back_def by (metis length_map)
    moreover have "\<not> length out < 1028" by (simp add: out length_counts)
    ultimately have "ans_decompress c out = Inr data"
      using t by (simp add: ans_decompress_def len map_err_def bind_result_def comp_def byte_of_symbol del: upt_Suc)
    moreover have "from_le_bytes (take 4 (drop (unat b * 4) out)) = (of_nat (count_list data b) :: u32)" for b
      using count [of "unat b"] unat_byte_less [of b] by (simp add: byte_counts_nth)
    ultimately show ?thesis using len(1) nat by simp
  qed
  moreover have "(\<exists>out. ans_compress c data = Inr out) \<longleftrightarrow> data \<noteq> [] \<and> length data \<le> u32_max \<and>
      (\<exists>table out. from_counts c ?counts PRECISION_BITS = Inr table \<and> ans_encode c ?sy table = Inr out)"
    by (auto simp: ans_compress_def Let_def map_err_def bind_result_def try_from_usize_def split: if_splits sum.splits)
  ultimately show ?thesis by (simp add: ans_decompress_def)
qed

text \<open>A coder that writes every symbol as one byte, reading back as many as it is asked for.\<close>

definition byte_coder :: "u32 list coder" where
  "byte_coder = \<lparr>from_counts = (\<lambda>counts _. Inr counts),
     ans_encode = (\<lambda>syms _. if list_all (\<lambda>s. unat s < 256) syms then Inr (map ucast syms) else Inl ''symbol''),
     ans_decode = (\<lambda>bs _ n. if length bs = n then Inr (map ucast bs) else Inl ''length'')\<rparr>"

lemma byte_coder_reads_back: "coder_reads_back byte_coder"
proof -
  have "(ucast (ucast s :: u8) :: u32) = s" if "unat s < 256" for s :: u32
    using that by (intro word_unat_eq_iff [THEN iffD2])
      (simp add: unat_ucast_byte unsigned_ucast_eq [where ?'a = nat] take_bit_nat_eq_self_iff)
  then have "map (\<lambda>s. ucast (ucast s :: u8) :: u32) syms = syms" if "list_all (\<lambda>s. unat s < 256) syms" for syms
    using that by (induction syms) simp_all
  then show ?thesis by (auto simp: coder_reads_back_def byte_coder_def comp_def)
qed

theorem ans_roundtrip_witness:
  "\<exists>out. ans_compress byte_coder [7, 9, 7] = Inr out \<and> ans_decompress byte_coder out = Inr [7, 9, 7]"
  using ans_roundtrip [OF byte_coder_reads_back, of "[7, 9, 7]"]
  by (simp add: byte_coder_def u32_max_def unat_ucast_byte) blast

end
