(* ===== verification/Views.thy ===== *)
theory Views
  imports Replication
begin

text \<open>
  The views of a store (\<open>ferratomic-store/src/iter.rs\<close>, with \<open>datom_set\<close> and \<open>datoms\<close> of \<open>store.rs\<close>, and the snapshots of
  \<open>query.rs\<close>): iterators and set views that dispatch on the representation. An iterator is the list of what it
  has still to yield; the shared pointer of a snapshot is the store it points to.
\<close>

section \<open>Iterators\<close>

datatype datom_iter = SliceIter "datom list" | OrdSetIter "datom list"

text \<open>\<open>next\<close> of the iterators of a slice and of an ordered set.\<close>

fun iter_step :: "'a list \<Rightarrow> 'a list \<times> 'a option" where
  "iter_step [] = ([], None)"
| "iter_step (x # xs) = (xs, Some x)"

fun di_next :: "datom_iter \<Rightarrow> datom_iter \<times> datom option" where
  "di_next (SliceIter it) = map_prod SliceIter id (iter_step it)"
| "di_next (OrdSetIter it) = map_prod OrdSetIter id (iter_step it)"

fun di_size_hint :: "datom_iter \<Rightarrow> nat \<times> nat option" where
  "di_size_hint (SliceIter it) = (length it, Some (length it))"
| "di_size_hint (OrdSetIter it) = (length it, Some (length it))"

fun di_len :: "datom_iter \<Rightarrow> nat" where
  "di_len (SliceIter it) = length it"
| "di_len (OrdSetIter it) = length it"

text \<open>Exhausting an iterator, and \<open>Iterator::eq\<close>.\<close>

lemma di_next_len: "di_next it = (it', Some d) \<Longrightarrow> di_len it' < di_len it"
proof (cases it)
  case (SliceIter xs)
  then show "di_next it = (it', Some d) \<Longrightarrow> di_len it' < di_len it" by (cases xs) auto
next
  case (OrdSetIter xs)
  then show "di_next it = (it', Some d) \<Longrightarrow> di_len it' < di_len it" by (cases xs) auto
qed

function collect :: "datom_iter \<Rightarrow> datom list" where
  "collect it = (case di_next it of (_, None) \<Rightarrow> [] | (it', Some d) \<Rightarrow> d # collect it')"
  by auto
termination by (relation "measure di_len") (auto dest!: di_next_len [OF sym])

function iter_eq :: "datom_iter \<Rightarrow> datom_iter \<Rightarrow> bool" where
  "iter_eq a b =
     (case di_next a of
        (_, None) \<Rightarrow> snd (di_next b) = None
      | (a', Some x) \<Rightarrow> (case di_next b of (_, None) \<Rightarrow> False | (b', Some y) \<Rightarrow> x = y \<and> iter_eq a' b'))"
  by auto
termination by (relation "measure (di_len \<circ> fst)") (auto dest!: di_next_len [OF sym])

declare collect.simps [simp del] iter_eq.simps [simp del]

section \<open>Set views\<close>

datatype datom_set_view = ViewSlice "datom list" | ViewOrdSet "datom list"

fun view_contains :: "datom_set_view \<Rightarrow> datom \<Rightarrow> bool" where
  "view_contains (ViewSlice ds) d = (binary_search_by (\<lambda>x. cmp x d) ds \<noteq> None)"
| "view_contains (ViewOrdSet ds) d = List.member ds d"

fun view_len :: "datom_set_view \<Rightarrow> nat" where
  "view_len (ViewSlice ds) = length ds"
| "view_len (ViewOrdSet ds) = length ds"

fun view_is_empty :: "datom_set_view \<Rightarrow> bool" where
  "view_is_empty (ViewSlice ds) = (ds = [])"
| "view_is_empty (ViewOrdSet ds) = (ds = [])"

fun view_iter :: "datom_set_view \<Rightarrow> datom_iter" where
  "view_iter (ViewSlice ds) = SliceIter ds"
| "view_iter (ViewOrdSet ds) = OrdSetIter ds"

definition view_eq :: "datom_set_view \<Rightarrow> datom_set_view \<Rightarrow> bool" where
  "view_eq v w \<longleftrightarrow> view_len v = view_len w \<and> iter_eq (view_iter v) (view_iter w)"

definition datom_set :: "store \<Rightarrow> datom_set_view" where
  "datom_set s = (case repr s of RPositional ps \<Rightarrow> ViewSlice (ps_canonical ps) | ROrdMap ds _ \<Rightarrow> ViewOrdSet ds)"

definition store_iter :: "store \<Rightarrow> datom_iter" where
  "store_iter s = (case repr s of RPositional ps \<Rightarrow> SliceIter (ps_canonical ps) | ROrdMap ds _ \<Rightarrow> OrdSetIter ds)"

section \<open>Snapshots\<close>

datatype snapshot_datoms = SdPositional positional_store | SdOrdSet "datom list"

fun sd_iter :: "snapshot_datoms \<Rightarrow> datom_iter" where
  "sd_iter (SdPositional ps) = SliceIter (ps_canonical ps)"
| "sd_iter (SdOrdSet ds) = OrdSetIter ds"

definition snapshot_datoms_of :: "store \<Rightarrow> snapshot_datoms" where
  "snapshot_datoms_of s = (case repr s of RPositional ps \<Rightarrow> SdPositional ps | ROrdMap ds _ \<Rightarrow> SdOrdSet ds)"

section \<open>Representation independence\<close>

fun remaining :: "datom_iter \<Rightarrow> datom list" where
  "remaining (SliceIter it) = it"
| "remaining (OrdSetIter it) = it"

lemma di_next_remaining:
  "di_next it = (it', r) \<Longrightarrow> iter_step (remaining it) = (remaining it', r)"
  by (cases it) (auto simp: map_prod_def split: prod.splits)

lemma collect_remaining: "collect it = remaining it"
proof (induction it rule: collect.induct)
  case (1 it)
  obtain it' r where n: "di_next it = (it', r)" by fastforce
  note rem = di_next_remaining [OF n]
  show ?case
  proof (cases r)
    case None
    with rem n show ?thesis by (cases "remaining it") (subst collect.simps; simp)+
  next
    case (Some d)
    with rem n 1 show ?thesis by (cases "remaining it") (subst collect.simps; simp)+
  qed
qed

lemma iter_eq_remaining: "iter_eq a b \<longleftrightarrow> remaining a = remaining b"
proof (induction a b rule: iter_eq.induct)
  case (1 a b)
  obtain a' r where a: "di_next a = (a', r)" by fastforce
  obtain b' q where b: "di_next b = (b', q)" by fastforce
  note ra = di_next_remaining [OF a] and rb = di_next_remaining [OF b]
  show ?case
    using 1 ra rb a b
    by (cases r; cases q; cases "remaining a"; cases "remaining b") (subst iter_eq.simps; simp)+
qed

text \<open>The views do not depend on the representation. Of every store that keeps the invariant, the set view and the iterators
  show exactly the stored datoms, each once, in the order of datoms, with exact lengths; membership is that
  of the set; two views are equal exactly when the sets are, whatever their representations; a snapshot
  yields what the store held.\<close>

theorem views_exact:
  assumes "store_inv blake3 s" "store_inv blake3 t"
  shows "(view_contains (datom_set s) d \<longleftrightarrow> d \<in> set (datoms s)) \<and>
    view_len (datom_set s) = card (set (datoms s)) \<and> (view_is_empty (datom_set s) \<longleftrightarrow> set (datoms s) = {}) \<and>
    collect (view_iter (datom_set s)) = sorted_list_of_set (set (datoms s)) \<and> collect (store_iter s) = sorted_list_of_set (set (datoms s)) \<and>
    di_size_hint (store_iter s) = (card (set (datoms s)), Some (card (set (datoms s)))) \<and>
    (view_eq (datom_set s) (datom_set t) \<longleftrightarrow> set (datoms s) = set (datoms t)) \<and>
    collect (sd_iter (snapshot_datoms_of s)) = sn_datoms (snapshot s)"
proof -
  have s: "strict_sorted (datoms s)" and t: "strict_sorted (datoms t)" using assms by (auto intro: strict_sorted_datoms)
  have so: "sorted_list_of_set (set (datoms s)) = datoms s" using s by (simp add: sorted_list_of_set.idem_if_sorted_distinct strict_sorted_iff)
  have card: "card (set (datoms s)) = length (datoms s)" using s by (simp add: distinct_card strict_sorted_distinct)
  have mem: "view_contains (datom_set s) d \<longleftrightarrow> d \<in> set (datoms s)"
    using s binary_search_sorted [of id "datoms s" d]
    by (cases "repr s") (auto simp: datom_set_def datoms_def in_set_conv_nth)
  have it: "remaining (view_iter (datom_set u)) = datoms u" "remaining (store_iter u) = datoms u" "view_len (datom_set u) = length (datoms u)"
    "di_size_hint (store_iter u) = (length (datoms u), Some (length (datoms u)))" "view_is_empty (datom_set u) \<longleftrightarrow> datoms u = []"
    "remaining (sd_iter (snapshot_datoms_of u)) = sn_datoms (snapshot u)" for u
    by (cases "repr u"; simp add: datom_set_def store_iter_def datoms_def snapshot_datoms_of_def snapshot_def)+
  have "view_eq (datom_set s) (datom_set t) \<longleftrightarrow> set (datoms s) = set (datoms t)"
    using strict_sorted_equal [OF s t] by (auto simp: view_eq_def it iter_eq_remaining)
  then show ?thesis using mem by (simp add: it collect_remaining so card)
qed

end
