(* ===== verification/Faults.thy ===== *)
theory Faults
  imports Storage
begin

text \<open>
  Fault injection (\<open>ferratomic-verify/src/fault_injection.rs\<close>): a backend that wraps another one and fails chosen operations. The
  state shared by its readers and writers is passed through every call; the flag \<open>poisoned\<close> is that of its mutex.
  The wrapped reader and writer are arguments. \<open>write_all\<close> and \<open>read_to_end\<close> are the loops of the standard library. A
  shift by eight or more is masked, as in a release build.
\<close>

section \<open>Specifications and state\<close>

datatype fault_spec =
    TornWrite nat nat
  | PowerCut nat
  | IoError nat
  | DiskFull nat
  | BitFlip nat nat

record fault_state =
  write_count :: nat
  sync_count :: nat
  read_count :: nat
  power_cut_active :: bool
  poisoned :: bool

definition fault_state_default :: fault_state where
  "fault_state_default = \<lparr>write_count = 0, sync_count = 0, read_count = 0, power_cut_active = False, poisoned = False\<rparr>"

datatype io_error = IoOther string | IoOs nat | WriteZero

definition is_power_cut :: "fault_state \<Rightarrow> bool" where
  "is_power_cut st = (if poisoned st then False else power_cut_active st)"

definition check_power_cut :: "fault_state \<Rightarrow> ferra_error + unit" where
  "check_power_cut st = (if is_power_cut st then Inl (Io ''Other'' ''power cut: all operations failed'') else Inr ())"

text \<open>Opening a writer or a reader, and creating the directories: what the wrapped backend answers, unless the power is cut.\<close>

definition fault_open :: "fault_state \<Rightarrow> ferra_error + 'w \<Rightarrow> ferra_error + 'w" where
  "fault_open st inner = bind_result (check_power_cut st) (\<lambda>_. inner)"

section \<open>Writers\<close>

text \<open>The wrapped writer: \<open>write\<close> returns how many bytes it took.\<close>

record 'w writer =
  wr_write :: "'w \<Rightarrow> bytes \<Rightarrow> 'w \<times> (io_error + nat)"
  wr_flush :: "'w \<Rightarrow> 'w \<times> (io_error + unit)"

datatype write_fault = Tear nat | Full | Pass

text \<open>The loop over the specifications: the first one that applies to this write decides.\<close>

fun write_fault_at :: "nat \<Rightarrow> fault_spec list \<Rightarrow> write_fault" where
  "write_fault_at cnt [] = Pass"
| "write_fault_at cnt (TornWrite nth_write valid_bytes # specs) =
     (if cnt = nth_write then Tear valid_bytes else write_fault_at cnt specs)"
| "write_fault_at cnt (DiskFull after_nth_write # specs) = (if cnt = after_nth_write then Full else write_fault_at cnt specs)"
| "write_fault_at cnt (_ # specs) = write_fault_at cnt specs"

definition fault_write ::
  "'w writer \<Rightarrow> fault_spec list \<Rightarrow> fault_state \<times> 'w \<Rightarrow> bytes \<Rightarrow> (fault_state \<times> 'w) \<times> (io_error + nat)" where
  "fault_write wr specs = (\<lambda>(st, w) buf.
     if poisoned st then ((st, w), Inl (IoOther ''state mutex poisoned''))
     else if power_cut_active st then ((st, w), Inl (IoOther ''power cut active''))
     else let st' = st\<lparr>write_count := write_count st + 1\<rparr>
          in case write_fault_at (write_count st') specs of
               Tear valid_bytes \<Rightarrow> (case wr_write wr w (take (min (length buf) valid_bytes) buf) of (w', r) \<Rightarrow> ((st', w'), r))
             | Full \<Rightarrow> ((st', w), Inl (IoOs 28))
             | Pass \<Rightarrow> (case wr_write wr w buf of (w', r) \<Rightarrow> ((st', w'), r)))"

fun cuts_power :: "nat \<Rightarrow> fault_spec list \<Rightarrow> bool" where
  "cuts_power cnt [] = False"
| "cuts_power cnt (PowerCut after_nth_sync # specs) = (cnt = after_nth_sync \<or> cuts_power cnt specs)"
| "cuts_power cnt (_ # specs) = cuts_power cnt specs"

definition fault_flush :: "'w writer \<Rightarrow> fault_spec list \<Rightarrow> fault_state \<times> 'w \<Rightarrow> (fault_state \<times> 'w) \<times> (io_error + unit)" where
  "fault_flush wr specs = (\<lambda>(st, w).
     if poisoned st then ((st, w), Inl (IoOther ''state mutex poisoned''))
     else if power_cut_active st then ((st, w), Inl (IoOther ''power cut active''))
     else let st' = st\<lparr>sync_count := sync_count st + 1\<rparr>
          in if cuts_power (sync_count st') specs then ((st'\<lparr>power_cut_active := True\<rparr>, w), Inl (IoOther ''power cut triggered''))
             else (case wr_flush wr w of (w', r) \<Rightarrow> ((st', w'), r)))"

text \<open>\<open>seek\<close>, of writers and readers.\<close>

definition fault_seek :: "('w \<Rightarrow> 'p \<Rightarrow> 'w \<times> (io_error + nat)) \<Rightarrow> fault_state \<times> 'w \<Rightarrow> 'p \<Rightarrow> (fault_state \<times> 'w) \<times> (io_error + nat)" where
  "fault_seek sk = (\<lambda>(st, w) pos.
     if is_power_cut st then ((st, w), Inl (IoOther ''power cut active''))
     else (case sk w pos of (w', r) \<Rightarrow> ((st, w'), r)))"

section \<open>Readers\<close>

fun read_fails :: "nat \<Rightarrow> fault_spec list \<Rightarrow> bool" where
  "read_fails cnt [] = False"
| "read_fails cnt (IoError nth_read # specs) = (cnt = nth_read \<or> read_fails cnt specs)"
| "read_fails cnt (_ # specs) = read_fails cnt specs"

fun flip_bits :: "fault_spec list \<Rightarrow> bytes \<Rightarrow> bytes" where
  "flip_bits [] bs = bs"
| "flip_bits (BitFlip off bit_position # specs) bs =
     flip_bits specs (if off < length bs then bs[off := xor (bs ! off) (push_bit (bit_position mod 8) 1)] else bs)"
| "flip_bits (_ # specs) bs = flip_bits specs bs"

text \<open>The wrapped reader yields the bytes it has put at the start of a buffer of the given length.\<close>

definition fault_read ::
  "('r \<Rightarrow> nat \<Rightarrow> 'r \<times> (io_error + bytes)) \<Rightarrow> fault_spec list \<Rightarrow> fault_state \<times> 'r \<Rightarrow> nat \<Rightarrow> (fault_state \<times> 'r) \<times> (io_error + bytes)" where
  "fault_read rd specs = (\<lambda>(st, r) buf_len.
     if poisoned st then ((st, r), Inl (IoOther ''state mutex poisoned''))
     else if power_cut_active st then ((st, r), Inl (IoOther ''power cut active''))
     else let st' = st\<lparr>read_count := read_count st + 1\<rparr>
          in if read_fails (read_count st') specs then ((st', r), Inl (IoOther ''injected IO error''))
             else (case rd r buf_len of (r', res) \<Rightarrow> ((st', r'), map_sum id (flip_bits specs) res)))"

section \<open>The backend\<close>

text \<open>A reader over bytes, and \<open>read_to_end\<close>: reads with buffers of some sizes until one yields nothing.\<close>

definition slice_read :: "bytes \<Rightarrow> nat \<Rightarrow> bytes \<times> (io_error + bytes)" where
  "slice_read r n = (drop n r, Inr (take n r))"

function read_to_end :: "(nat \<Rightarrow> nat) \<Rightarrow> fault_spec list \<Rightarrow> fault_state \<times> bytes \<Rightarrow> io_error + bytes" where
  "read_to_end sizes specs (st, r) =
     (case fault_read slice_read specs (st, r) (sizes (read_count st)) of
        (_, Inl e) \<Rightarrow> Inl e
      | ((st', r'), Inr bs) \<Rightarrow> if bs = [] then Inr [] else map_sum id ((@) bs) (read_to_end sizes specs (st', r')))"
  by pat_completeness auto

lemma length_flip_bits [simp]: "length (flip_bits specs bs) = length bs"
  by (induction specs bs rule: flip_bits.induct) simp_all

lemma flip_bits_Nil [simp]: "flip_bits specs bs = [] \<longleftrightarrow> bs = []"
  using length_flip_bits [of specs bs] by (metis length_0_conv)

lemma slice_read_shrinks: "fault_read slice_read specs (st, r) n = ((st', r'), Inr bs) \<Longrightarrow> bs \<noteq> [] \<Longrightarrow> length r' < length r"
  by (auto simp: fault_read_def slice_read_def Let_def split: if_splits)

termination read_to_end
  by (relation "measure (\<lambda>(_, _, _, r). length r)") (auto dest!: slice_read_shrinks [OF sym])

declare read_to_end.simps [simp del]

definition fault_reader :: "(nat \<Rightarrow> nat) \<Rightarrow> fault_spec list \<Rightarrow> fault_state \<Rightarrow> ferra_error + bytes option \<Rightarrow> ferra_error + bytes option" where
  "fault_reader sizes specs st inner_reader =
     bind_result (fault_open st inner_reader) (\<lambda>reader.
       case reader of
         None \<Rightarrow> Inr None
       | Some bs \<Rightarrow> (case read_to_end sizes specs (st, bs) of Inl _ \<Rightarrow> Inr None | Inr bs' \<Rightarrow> Inr (Some bs')))"

text \<open>What recovery sees: \<open>st_ck\<close> and \<open>st_wal\<close> are the states in which it opens the two readers.\<close>

definition fault_backend :: "(nat \<Rightarrow> nat) \<Rightarrow> fault_spec list \<Rightarrow> fault_state \<Rightarrow> fault_state \<Rightarrow> fault_state \<Rightarrow> backend \<Rightarrow> backend" where
  "fault_backend sizes specs st st_ck st_wal bk =
     \<lparr>bk_create_dirs = fault_open st (bk_create_dirs bk),
      bk_checkpoint_exists = (if is_power_cut st then False else bk_checkpoint_exists bk),
      bk_wal_exists = (if is_power_cut st then False else bk_wal_exists bk),
      bk_checkpoint_reader = fault_reader sizes specs st_ck (bk_checkpoint_reader bk),
      bk_wal_reader = fault_reader sizes specs st_wal (bk_wal_reader bk)\<rparr>"

section \<open>Torn writes and write_all\<close>

text \<open>\<open>write_all\<close> writes until nothing is left; it takes one call per byte at most.\<close>

fun write_all :: "nat \<Rightarrow> 'w writer \<Rightarrow> fault_spec list \<Rightarrow> fault_state \<times> 'w \<Rightarrow> bytes \<Rightarrow> ((fault_state \<times> 'w) \<times> (io_error + unit)) option" where
  "write_all fuel wr specs s [] = Some (s, Inr ())"
| "write_all 0 wr specs s buf = None"
| "write_all (Suc fuel) wr specs s buf =
     (case fault_write wr specs s buf of
        (s', Inl e) \<Rightarrow> Some (s', Inl e)
      | (s', Inr 0) \<Rightarrow> Some (s', Inl WriteZero)
      | (s', Inr n) \<Rightarrow> write_all fuel wr specs s' (drop n buf))"

text \<open>The checkpoint writer of the in-memory backend: it takes every byte.\<close>

definition buffer_writer :: "(memory_backend \<times> bytes) writer" where
  "buffer_writer = \<lparr>wr_write = (\<lambda>(mb, local_buf) buf. ((mb, buffer_write buf local_buf), Inr (length buf))),
     wr_flush = (\<lambda>w. (buffer_flush w, Inr ()))\<rparr>"

definition live_state :: "fault_state \<Rightarrow> bool" where
  "live_state st \<longleftrightarrow> \<not> poisoned st \<and> \<not> power_cut_active st"

text \<open>Without faults the wrapper is transparent.\<close>

lemma no_write_fault: "live_state st \<Longrightarrow> fault_write wr [] (st, w) buf =
    (case wr_write wr w buf of (w', r) \<Rightarrow> ((st\<lparr>write_count := write_count st + 1\<rparr>, w'), r))"
  by (simp add: fault_write_def live_state_def)

lemma read_to_end_clean:
  assumes "live_state st" "\<And>n. 0 < sizes n"
  shows "read_to_end sizes [] (st, r) = Inr r"
  using assms(1)
proof (induction "length r" arbitrary: st r rule: less_induct)
  case less
  have pos: "0 < sizes (read_count st)" by (rule assms(2))
  show ?case
  proof (cases r)
    case Nil
    then show ?thesis using less.prems by (simp add: read_to_end.simps fault_read_def slice_read_def live_state_def)
  next
    case (Cons b bs)
    let ?n = "sizes (read_count st)" and ?st = "st\<lparr>read_count := read_count st + 1\<rparr>"
    have "read_to_end sizes [] (?st, drop ?n r) = Inr (drop ?n r)"
      using less.hyps [of "drop ?n r" ?st] less.prems pos Cons by (simp add: live_state_def)
    then show ?thesis using less.prems pos Cons append_take_drop_id [of ?n r]
      by (simp add: read_to_end.simps [of _ _ st] fault_read_def slice_read_def live_state_def)
  qed
qed

theorem no_faults_transparent:
  assumes "live_state st" "live_state st_ck" "live_state st_wal" "\<And>n. 0 < sizes n"
  shows "fault_backend sizes [] st st_ck st_wal bk = bk \<and>
    fault_write wr [] (st, w) buf = (case wr_write wr w buf of (w', r) \<Rightarrow> ((st\<lparr>write_count := write_count st + 1\<rparr>, w'), r)) \<and>
    fault_flush wr [] (st, w) = (case wr_flush wr w of (w', r) \<Rightarrow> ((st\<lparr>sync_count := sync_count st + 1\<rparr>, w'), r))"
proof -
  have reader: "fault_reader sizes [] u r = r" if "live_state u" for u r
    using that read_to_end_clean [OF that assms(4)]
    by (cases r) (auto simp: fault_reader_def fault_open_def check_power_cut_def is_power_cut_def live_state_def split: option.splits)
  then show ?thesis using assms
    by (cases bk) (simp add: fault_backend_def fault_open_def check_power_cut_def is_power_cut_def live_state_def fault_write_def fault_flush_def)
qed

text \<open>A power cut is final. From the flush that triggers it every operation fails, none reaches the wrapped writer or reader, the
  state stays as it is, and a cold start reports the cut instead of starting from an empty store.\<close>

theorem power_cut_is_final:
  assumes "live_state st" "cuts_power (sync_count st + 1) specs"
  shows "\<exists>st'. fault_flush wr specs (st, w) = ((st', w), Inl (IoOther ''power cut triggered'')) \<and>
    (\<forall>buf n pos (v :: 'w). fault_write wr specs (st', v) buf = ((st', v), Inl (IoOther ''power cut active'')) \<and>
      fault_flush wr specs (st', v) = ((st', v), Inl (IoOther ''power cut active'')) \<and>
      fault_seek sk (st', v) pos = ((st', v), Inl (IoOther ''power cut active'')) \<and>
      fault_read rd specs (st', v) n = ((st', v), Inl (IoOther ''power cut active''))) \<and>
    cold_start_with_backend p c (fault_backend sizes specs st' st' st' bk) = Inl (Io ''Other'' ''power cut: all operations failed'')"
  using assms
  by (intro exI [of _ "st\<lparr>sync_count := sync_count st + 1, power_cut_active := True\<rparr>"])
    (simp add: fault_flush_def fault_write_def fault_seek_def fault_read_def live_state_def is_power_cut_def check_power_cut_def fault_open_def
      cold_start_with_backend_def fault_backend_def)

text \<open>A torn write loses nothing for a caller that uses \<open>write_all\<close>. The torn call reports the bytes it took, and
  \<open>write_all\<close> goes on with the rest: with a single torn write of at least one byte, the whole buffer arrives.\<close>

lemma buffer_write_all:
  assumes "live_state st" "n < write_count st + 1" "buf \<noteq> []"
  shows "write_all (Suc fuel) buffer_writer [TornWrite n k] (st, mb, local_buf) buf =
    Some ((st\<lparr>write_count := write_count st + 1\<rparr>, mb, local_buf @ buf), Inr ())"
  using assms by (cases buf) (simp_all add: fault_write_def live_state_def buffer_writer_def buffer_write_def)

theorem torn_write_completed:
  assumes "live_state st" "n = write_count st + 1" "0 < k" "buf \<noteq> []"
  shows "\<exists>st'. write_all 2 buffer_writer [TornWrite n k] (st, mb, local_buf) buf = Some ((st', mb, local_buf @ buf), Inr ())"
proof -
  let ?st = "st\<lparr>write_count := write_count st + 1\<rparr>" and ?m = "min (length buf) k"
  have w: "fault_write buffer_writer [TornWrite n k] (st, mb, local_buf) buf = ((?st, mb, local_buf @ take ?m buf), Inr ?m)"
    using assms(1,2) by (simp add: fault_write_def live_state_def buffer_writer_def buffer_write_def)
  have "0 < ?m" using assms(3,4) by simp
  then obtain m where m: "?m = Suc m" by (cases ?m) auto
  have step: "write_all 2 buffer_writer [TornWrite n k] (st, mb, local_buf) buf =
      write_all (Suc 0) buffer_writer [TornWrite n k] (?st, mb, local_buf @ take ?m buf) (drop ?m buf)"
    using w m assms(4) by (cases buf) (simp_all add: numeral_2_eq_2)
  show ?thesis
  proof (cases "drop ?m buf = []")
    case True
    then have "take ?m buf = buf" by (metis append_take_drop_id append_Nil2)
    with True step show ?thesis by simp
  next
    case False
    have "write_all (Suc 0) buffer_writer [TornWrite n k] (?st, mb, local_buf @ take ?m buf) (drop ?m buf) =
        Some ((?st\<lparr>write_count := write_count ?st + 1\<rparr>, mb, (local_buf @ take ?m buf) @ drop ?m buf), Inr ())"
      by (rule buffer_write_all) (use assms(1,2) False in \<open>simp_all add: live_state_def\<close>)
    then show ?thesis using step by simp
  qed
qed

text \<open>A full disk lasts for one write only: the call fails and takes nothing, the next one succeeds.\<close>

theorem disk_full_is_transient:
  assumes "live_state st" "n = write_count st + 1" "buf \<noteq> []"
  shows "\<exists>st'. write_all 1 buffer_writer [DiskFull n] (st, mb, local_buf) buf = Some ((st', mb, local_buf), Inl (IoOs 28)) \<and>
    (\<exists>st''. write_all 1 buffer_writer [DiskFull n] (st', mb, local_buf) buf = Some ((st'', mb, local_buf @ buf), Inr ()))"
  using assms by (cases buf) (auto simp: fault_write_def live_state_def buffer_writer_def buffer_write_def)

text \<open>A bit flip acts on every read that reaches its offset, so a file read in two buffers is damaged twice.\<close>

theorem bit_flip_repeats:
  assumes "live_state st" "length xs = n" "length ys = n" "off < n" "\<And>i. sizes i = n"
  shows "read_to_end sizes [BitFlip off b] (st, xs @ ys) = Inr (flip_bits [BitFlip off b] xs @ flip_bits [BitFlip off b] ys)"
proof -
  let ?f = "flip_bits [BitFlip off b]"
  have ne: "?f zs \<noteq> []" if "length zs = n" for zs using that assms(4) flip_bits_Nil [of "[BitFlip off b]" zs] by auto
  have read: "fault_read slice_read [BitFlip off b] (u, r) n = ((u\<lparr>read_count := read_count u + 1\<rparr>, drop n r), Inr (?f (take n r)))"
    if "live_state u" for u r using that by (simp add: fault_read_def slice_read_def live_state_def)
  show ?thesis
    using assms(1-3) ne [of xs] ne [of ys]
    by (simp add: read_to_end.simps assms(5) read live_state_def del: flip_bits.simps)
qed

end
