(* ===== verification/Checker.thy ===== *)
theory Checker
  imports Ferr_Prelude
begin

text \<open>
  The interface of the protocol models of \<open>ferratomic-verify/stateright/\<close>. The models implement the \<open>Model\<close> trait of
  the \<open>stateright\<close> crate: initial states, the actions enabled in a state, the successor by an action, a boundary that
  keeps the search finite, and a list of properties, each expected always or sometimes. The record \<open>model\<close> has
  these items. The crate's checker visits the states reachable within the boundary. Here an \<open>Always\<close>
  property is shown of every reachable state, also beyond the boundary and for every value of the bounds, and
  a \<open>Sometimes\<close> property of a state that the search within the boundary reaches.
\<close>

section \<open>Models\<close>

record ('s, 'a) model =
  init_states :: "'s list"
  actions :: "'s \<Rightarrow> 'a list"
  next_state :: "'s \<Rightarrow> 'a \<Rightarrow> 's option"
  within_boundary :: "'s \<Rightarrow> bool"

datatype 's expectation = Always string "'s \<Rightarrow> bool" | Sometimes string "'s \<Rightarrow> bool"

inductive model_run :: "('s, 'a) model \<Rightarrow> 's \<Rightarrow> bool" for m where
  run_init: "s \<in> set (init_states m) \<Longrightarrow> model_run m s"
| run_step: "model_run m s \<Longrightarrow> a \<in> set (actions m s) \<Longrightarrow> next_state m s a = Some t \<Longrightarrow> model_run m t"

inductive leads_to :: "('s, 'a) model \<Rightarrow> 's \<Rightarrow> 's \<Rightarrow> bool" for m where
  leads_refl: "leads_to m s s"
| leads_step: "leads_to m s t \<Longrightarrow> a \<in> set (actions m t) \<Longrightarrow> next_state m t a = Some u \<Longrightarrow> within_boundary m u \<Longrightarrow> leads_to m s u"

definition explored :: "('s, 'a) model \<Rightarrow> 's \<Rightarrow> bool" where
  "explored m s \<longleftrightarrow> (\<exists>i \<in> set (init_states m). within_boundary m i \<and> leads_to m i s)"

fun meets :: "('s, 'a) model \<Rightarrow> 's expectation \<Rightarrow> bool" where
  "meets m (Always _ P) \<longleftrightarrow> (\<forall>s. model_run m s \<longrightarrow> P s)"
| "meets m (Sometimes _ P) \<longleftrightarrow> (\<exists>s. explored m s \<and> P s)"

definition verdict :: "('s, 'a) model \<Rightarrow> 's expectation list \<Rightarrow> bool" where
  "verdict m ps \<longleftrightarrow> list_all (meets m) ps"

text \<open>A run along given actions, for the states that a \<open>Sometimes\<close> property asks for.\<close>

fun follow :: "('s, 'a) model \<Rightarrow> 'a list \<Rightarrow> 's \<Rightarrow> 's option" where
  "follow m [] s = Some s"
| "follow m (a # as) s =
     (if List.member (actions m s) a
      then Option.bind (next_state m s a) (\<lambda>t. if within_boundary m t then follow m as t else None)
      else None)"

text \<open>\<open>checked_add(1)\<close> of \<open>u8\<close>, the counters of several models.\<close>

definition checked_inc_u8 :: "nat \<Rightarrow> nat option" where
  "checked_inc_u8 n = (if n < 255 then Some (n + 1) else None)"

section \<open>Runs\<close>

lemma leads_trans: "leads_to m t u \<Longrightarrow> leads_to m s t \<Longrightarrow> leads_to m s u"
  by (induction rule: leads_to.induct) (auto intro: leads_to.intros)

lemma follow_leads: "follow m as s = Some t \<Longrightarrow> leads_to m s t"
proof (induction as arbitrary: s)
  case (Cons a as)
  then obtain u where "a \<in> set (actions m s)" "next_state m s a = Some u" "within_boundary m u" "follow m as u = Some t"
    by (auto simp: Option.bind_eq_Some_conv split: if_splits)
  with Cons.IH [of u] show ?case by (blast intro: leads_trans leads_to.intros)
qed (auto intro: leads_refl)

lemma explored_leads: "explored m s \<Longrightarrow> leads_to m s t \<Longrightarrow> explored m t"
  unfolding explored_def by (blast intro: leads_trans)

lemma explored_follow:
  "i \<in> set (init_states m) \<Longrightarrow> within_boundary m i \<Longrightarrow> follow m as i = Some t \<Longrightarrow> explored m t"
  unfolding explored_def by (blast intro: follow_leads)

lemma leads_run: "leads_to m s t \<Longrightarrow> model_run m s \<Longrightarrow> model_run m t"
  by (induction rule: leads_to.induct) (auto intro: model_run.intros)

lemma explored_run: "explored m s \<Longrightarrow> model_run m s"
  unfolding explored_def by (blast intro: leads_run model_run.intros)

section \<open>Inductive invariants\<close>

locale model_invariant =
  fixes m :: "('s, 'a) model" and inv :: "'s \<Rightarrow> bool"
  assumes inv_init: "s \<in> set (init_states m) \<Longrightarrow> inv s"
    and inv_step: "inv s \<Longrightarrow> a \<in> set (actions m s) \<Longrightarrow> next_state m s a = Some t \<Longrightarrow> inv t"
begin

lemma run_inv: "model_run m s \<Longrightarrow> inv s"
  by (induction rule: model_run.induct) (auto intro: inv_init inv_step)

lemma explored_inv: "explored m s \<Longrightarrow> inv s"
  by (rule run_inv) (rule explored_run)

lemma leads_inv: "leads_to m s t \<Longrightarrow> inv s \<Longrightarrow> inv t"
  by (induction rule: leads_to.induct) (auto intro: inv_step)

lemma always: "(\<And>s. inv s \<Longrightarrow> P s) \<Longrightarrow> meets m (Always n P)"
  using run_inv by auto

end

lemma sometimes:
  assumes "i \<in> set (init_states m)" "within_boundary m i" "follow m as i = Some t" "P t"
  shows "meets m (Sometimes n P)"
  using explored_follow [OF assms(1-3)] assms(4) by auto

end
