(* ===== verification/Crdt_Model.thy ===== *)
theory Crdt_Model
  imports Checker
begin

text \<open>
  The merge model (\<open>ferratomic-verify/stateright/crdt_model.rs\<close>): replicas that write datoms locally, send snapshots of
  themselves as messages, and merge delivered messages in any order, with the writes each replica has
  received recorded beside its state. Also the synthetic datoms the other models use. The fields of a datom, of type
  \<open>u64\<close>, are naturals: the seeds are below a bound of that type.
\<close>

section \<open>Synthetic datoms\<close>

record model_datom =
  md_e :: nat
  md_a :: nat
  md_v :: nat
  md_tx :: nat
  md_op :: bool

definition from_seed :: "nat \<Rightarrow> model_datom" where
  "from_seed seed = \<lparr>md_e = seed div 4, md_a = seed div 2 mod 2, md_v = 0, md_tx = 0, md_op = even seed\<rparr>"

lemma from_seed_inject: "from_seed i = from_seed j \<longleftrightarrow> i = j"
proof
  assume "from_seed i = from_seed j"
  then have "i div 2 div 2 = j div 2 div 2" "i div 2 mod 2 = j div 2 mod 2" "even i \<longleftrightarrow> even j"
    by (simp_all add: from_seed_def div_mult2_eq [symmetric])
  then have "i div 2 = j div 2" "i mod 2 = j mod 2" by (metis div_mult_mod_eq, metis even_iff_mod_2_eq_zero not_mod_2_eq_0_eq_1)
  then show "i = j" by (metis div_mult_mod_eq)
qed simp

section \<open>The model\<close>

type_synonym merge_message = "nat \<times> nat \<times> model_datom set"

record crdt_state =
  nodes :: "model_datom set list"
  in_flight :: "merge_message list"
  received_writes :: "model_datom set list"

datatype crdt_action = Write nat model_datom | InitMerge nat nat | DeliverMerge nat

record crdt_params =
  node_count :: nat
  max_datoms :: nat
  max_in_flight :: nat

definition crdt_default :: crdt_params where
  "crdt_default = \<lparr>node_count = 3, max_datoms = 3, max_in_flight = 6\<rparr>"

definition merge_sets :: "model_datom set \<Rightarrow> model_datom set \<Rightarrow> model_datom set" where
  "merge_sets a b = a \<union> b"

definition is_converged :: "crdt_state \<Rightarrow> bool" where
  "is_converged s = (case nodes s of [] \<Rightarrow> True | first # _ \<Rightarrow> list_all (\<lambda>node. node = first) (nodes s))"

definition is_in_domain :: "crdt_params \<Rightarrow> model_datom \<Rightarrow> bool" where
  "is_in_domain p d \<longleftrightarrow> md_e d < max_datoms p div 4 + 1 \<and> md_a d \<le> 1"

definition can_queue_snapshot :: "crdt_params \<Rightarrow> crdt_state \<Rightarrow> nat \<Rightarrow> nat \<Rightarrow> model_datom set option" where
  "can_queue_snapshot p s src dst =
     (if src \<ge> length (nodes s) \<or> dst \<ge> length (nodes s) \<or> src = dst then None
      else if length (in_flight s) \<ge> max_in_flight p then None
      else Some (nodes s ! src))"

definition crdt_init_states :: "crdt_params \<Rightarrow> crdt_state list" where
  "crdt_init_states p = [\<lparr>nodes = replicate (node_count p) {}, in_flight = [], received_writes = replicate (node_count p) {}\<rparr>]"

definition crdt_actions :: "crdt_params \<Rightarrow> crdt_state \<Rightarrow> crdt_action list" where
  "crdt_actions p s =
     concat (map (\<lambda>node.
       map (Write node) (filter (\<lambda>d. d \<notin> nodes s ! node) (map from_seed [0..<max_datoms p])) @
       map (InitMerge node) (filter (\<lambda>peer. can_queue_snapshot p s node peer \<noteq> None) [0..<node_count p])) [0..<node_count p]) @
     map DeliverMerge [0..<length (in_flight s)]"

fun crdt_next_state :: "crdt_params \<Rightarrow> crdt_state \<Rightarrow> crdt_action \<Rightarrow> crdt_state option" where
  "crdt_next_state p s (Write node d) =
     (if node \<ge> length (nodes s) \<or> \<not> is_in_domain p d then None
      else Some (s\<lparr>nodes := (nodes s)[node := insert d (nodes s ! node)],
                   received_writes := (received_writes s)[node := insert d (received_writes s ! node)]\<rparr>))"
| "crdt_next_state p s (InitMerge src dst) =
     map_option (\<lambda>payload. s\<lparr>in_flight := in_flight s @ [(src, dst, payload)]\<rparr>) (can_queue_snapshot p s src dst)"
| "crdt_next_state p s (DeliverMerge i) =
     (if i \<ge> length (in_flight s) then None
      else let (_, dst, payload) = in_flight s ! i; rest = take i (in_flight s) @ drop (i + 1) (in_flight s)
           in if dst \<ge> length (nodes s) then None
              else Some \<lparr>nodes = (nodes s)[dst := merge_sets (nodes s ! dst) payload], in_flight = rest,
                         received_writes = (received_writes s)[dst := received_writes s ! dst \<union> payload]\<rparr>)"

definition payloads_in_domain :: "crdt_params \<Rightarrow> crdt_state \<Rightarrow> bool" where
  "payloads_in_domain p s \<longleftrightarrow> (\<forall>(_, _, payload) \<in> set (in_flight s). \<forall>d \<in> payload. is_in_domain p d)"

definition crdt_within_boundary :: "crdt_params \<Rightarrow> crdt_state \<Rightarrow> bool" where
  "crdt_within_boundary p s \<longleftrightarrow> length (in_flight s) \<le> max_in_flight p \<and> (\<forall>node \<in> set (nodes s). \<forall>d \<in> node. is_in_domain p d) \<and>
     payloads_in_domain p s"

definition crdt_model :: "crdt_params \<Rightarrow> (crdt_state, crdt_action) model" where
  "crdt_model p = \<lparr>init_states = crdt_init_states p, actions = crdt_actions p, next_state = crdt_next_state p,
     within_boundary = crdt_within_boundary p\<rparr>"

definition sec_convergence :: "crdt_state \<Rightarrow> bool" where
  "sec_convergence s \<longleftrightarrow> in_flight s \<noteq> [] \<or>
     (\<forall>i \<in> {0..<length (nodes s)}. \<forall>j \<in> {i + 1..<length (nodes s)}.
        \<not> (received_writes s ! i = received_writes s ! j \<and> nodes s ! i \<noteq> nodes s ! j))"

definition monotonic_growth :: "crdt_state \<Rightarrow> bool" where
  "monotonic_growth s \<longleftrightarrow> list_all (\<lambda>(node, received). received \<subseteq> node) (zip (nodes s) (received_writes s))"

definition crdt_properties :: "crdt_params \<Rightarrow> crdt_state expectation list" where
  "crdt_properties p =
     [Always ''inv_ferr_010_in_flight_payloads_stay_in_domain'' (payloads_in_domain p),
      Always ''inv_ferr_010_sec_convergence'' sec_convergence,
      Always ''inv_ferr_004_monotonic_growth'' monotonic_growth,
      Always ''inv_ferr_018_append_only_crdt_alias'' monotonic_growth,
      Sometimes ''inv_ferr_010_convergence_reachable'' (\<lambda>s. in_flight s = [] \<and> is_converged s)]"

section \<open>Invariant\<close>

text \<open>A replica is exactly what it has received; messages go between replicas and carry part of what their source holds.\<close>

definition crdt_inv :: "crdt_params \<Rightarrow> crdt_state \<Rightarrow> bool" where
  "crdt_inv p s \<longleftrightarrow> length (nodes s) = node_count p \<and> received_writes s = nodes s \<and>
     (\<forall>node \<in> set (nodes s). \<forall>d \<in> node. is_in_domain p d) \<and> payloads_in_domain p s \<and>
     length (in_flight s) \<le> max_in_flight p \<and>
     (\<forall>(src, dst, payload) \<in> set (in_flight s). src < node_count p \<and> dst < node_count p \<and> payload \<subseteq> nodes s ! src)"

lemma seed_in_domain: "seed < max_datoms p \<Longrightarrow> is_in_domain p (from_seed seed)"
  by (auto simp: is_in_domain_def from_seed_def less_Suc_eq_le div_le_mono)

lemma list_update_grows: "payload \<subseteq> xs ! src \<Longrightarrow> payload \<subseteq> xs[i := xs ! i \<union> A] ! src"
  by (cases "src < length xs"; cases "i = src") (auto simp: nth_list_update list_update_beyond)

lemma Union_update_le: "node \<in> set (xs[i := xs ! i \<union> A]) \<Longrightarrow> node \<subseteq> \<Union> (set xs) \<union> A"
proof (cases "i < length xs")
  case True
  assume "node \<in> set (xs[i := xs ! i \<union> A])"
  then have "node = xs ! i \<union> A \<or> node \<in> set xs" using set_update_subset_insert [of xs i "xs ! i \<union> A"] by blast
  with nth_mem [OF True] show ?thesis by blast
qed (auto simp: list_update_beyond)

lemma crdt_invD:
  assumes "crdt_inv p s"
  shows "length (nodes s) = node_count p" "received_writes s = nodes s" "payloads_in_domain p s"
    "node \<in> set (nodes s) \<Longrightarrow> d \<in> node \<Longrightarrow> is_in_domain p d" "length (in_flight s) \<le> max_in_flight p"
    "(src, dst, payload) \<in> set (in_flight s) \<Longrightarrow> src < node_count p \<and> dst < node_count p \<and> payload \<subseteq> nodes s ! src"
  using assms by (auto simp: crdt_inv_def)

lemma crdt_invI:
  assumes "length ns = node_count p" "\<And>node d. node \<in> set ns \<Longrightarrow> d \<in> node \<Longrightarrow> is_in_domain p d"
    "\<And>src dst payload d. (src, dst, payload) \<in> set ms \<Longrightarrow> d \<in> payload \<Longrightarrow> is_in_domain p d" "length ms \<le> max_in_flight p"
    "\<And>src dst payload. (src, dst, payload) \<in> set ms \<Longrightarrow> src < node_count p \<and> dst < node_count p"
    "\<And>src dst payload. (src, dst, payload) \<in> set ms \<Longrightarrow> payload \<subseteq> ns ! src"
  shows "crdt_inv p \<lparr>nodes = ns, in_flight = ms, received_writes = ns\<rparr>"
proof -
  have "\<forall>(src, dst, payload) \<in> set ms. src < node_count p \<and> dst < node_count p \<and> payload \<subseteq> ns ! src" using assms(5,6) by blast
  moreover have "\<forall>(_, _, payload) \<in> set ms. \<forall>d \<in> payload. is_in_domain p d" using assms(3) by blast
  ultimately show ?thesis using assms(1,2,4) by (simp add: crdt_inv_def payloads_in_domain_def)
qed

lemma crdt_inv_grow:
  assumes "crdt_inv p s" "i < node_count p" "\<forall>d \<in> A. is_in_domain p d" "set msgs \<subseteq> set (in_flight s)" "length msgs \<le> max_in_flight p"
  shows "crdt_inv p \<lparr>nodes = (nodes s)[i := nodes s ! i \<union> A], in_flight = msgs, received_writes = (nodes s)[i := nodes s ! i \<union> A]\<rparr>"
proof (rule crdt_invI)
  note D = crdt_invD [OF assms(1)]
  show "is_in_domain p d" if "node \<in> set ((nodes s)[i := nodes s ! i \<union> A])" "d \<in> node" for node d
    using Union_update_le [OF that(1)] that(2) D(4) assms(3) by blast
  show "is_in_domain p d" if "(src, dst, payload) \<in> set msgs" "d \<in> payload" for src dst payload d
    using that D(3) assms(4) by (fastforce simp: payloads_in_domain_def)
  show "payload \<subseteq> (nodes s)[i := nodes s ! i \<union> A] ! src" if "(src, dst, payload) \<in> set msgs" for src dst payload
    using that D(6) assms(4) by (intro list_update_grows) blast
  show "src < node_count p \<and> dst < node_count p" if "(src, dst, payload) \<in> set msgs" for src dst payload
    using that D(6) assms(4) by blast
qed (use crdt_invD(1) [OF assms(1)] assms(5) in simp_all)

lemma crdt_inv_send:
  assumes "crdt_inv p s" "can_queue_snapshot p s src dst = Some payload"
  shows "crdt_inv p (s\<lparr>in_flight := in_flight s @ [(src, dst, payload)]\<rparr>)"
proof -
  have q: "src < length (nodes s)" "dst < length (nodes s)" "length (in_flight s) < max_in_flight p" "payload = nodes s ! src"
    using assms(2) by (auto simp: can_queue_snapshot_def split: if_splits)
  note D = crdt_invD [OF assms(1)]
  have dom: "is_in_domain p d" if "d \<in> payload" for d using that D(4) nth_mem [OF q(1)] q(4) by blast
  have "crdt_inv p \<lparr>nodes = nodes s, in_flight = in_flight s @ [(src, dst, payload)], received_writes = nodes s\<rparr>"
  proof (rule crdt_invI)
    fix src' dst' payload' assume m: "(src', dst', payload') \<in> set (in_flight s @ [(src, dst, payload)])"
    show "src' < node_count p \<and> dst' < node_count p" using m D(1,6) q(1,2) by auto
    show "payload' \<subseteq> nodes s ! src'" using m D(6) q(4) by (cases "(src', dst', payload') \<in> set (in_flight s)") auto
    show "is_in_domain p d" if "d \<in> payload'" for d using that m D(3) dom by (auto simp: payloads_in_domain_def)
  qed (use D(1,4) q(3) in auto)
  then show ?thesis by (cases s) (use D(2) in simp)
qed

lemma in_set_drop_one: "x \<in> set (take i xs) \<Longrightarrow> x \<in> set xs" "x \<in> set (drop j xs) \<Longrightarrow> x \<in> set xs"
  by (rule in_set_takeD, assumption) (rule in_set_dropD)

lemma crdt_inv_deliver:
  assumes "crdt_inv p s" "crdt_next_state p s (DeliverMerge i) = Some t"
  shows "crdt_inv p t"
proof -
  obtain src dst payload where m: "in_flight s ! i = (src, dst, payload)" by (cases "in_flight s ! i") auto
  let ?rest = "take i (in_flight s) @ drop (i + 1) (in_flight s)"
  note D = crdt_invD [OF assms(1)]
  have i: "i < length (in_flight s)" and dst: "dst < node_count p"
    and t: "t = \<lparr>nodes = (nodes s)[dst := nodes s ! dst \<union> payload], in_flight = ?rest, received_writes = (nodes s)[dst := nodes s ! dst \<union> payload]\<rparr>"
    using assms(2) unfolding crdt_next_state.simps m Let_def prod.case merge_sets_def D(1,2) by (simp_all split: if_splits)
  have dom: "\<forall>d \<in> payload. is_in_domain p d" using D(3) nth_mem [OF i] unfolding m payloads_in_domain_def by blast
  have "set ?rest \<subseteq> set (in_flight s)" using in_set_drop_one by auto
  moreover have "length ?rest \<le> max_in_flight p" using i D(5) by simp
  ultimately show ?thesis unfolding t by (rule crdt_inv_grow [OF assms(1) dst dom])
qed

interpretation crdt: model_invariant "crdt_model p" "crdt_inv p" for p
proof
  show "crdt_inv p s" if "s \<in> set (init_states (crdt_model p))" for s
    using that by (auto simp: crdt_model_def crdt_init_states_def crdt_inv_def payloads_in_domain_def)
  show "crdt_inv p t" if inv: "crdt_inv p s" and "a \<in> set (actions (crdt_model p) s)" and step: "next_state (crdt_model p) s a = Some t" for s a t
  proof (cases a)
    case (Write node d)
    then have "node < node_count p" "is_in_domain p d"
      and t: "t = \<lparr>nodes = (nodes s)[node := nodes s ! node \<union> {d}], in_flight = in_flight s, received_writes = (nodes s)[node := nodes s ! node \<union> {d}]\<rparr>"
      using step crdt_invD(1,2) [OF inv] by (auto simp: crdt_model_def split: if_splits)
    then show ?thesis unfolding t using crdt_invD(5) [OF inv] by (intro crdt_inv_grow inv) auto
  next
    case (InitMerge src dst)
    then show ?thesis using step crdt_inv_send [OF inv] by (auto simp: crdt_model_def)
  next
    case (DeliverMerge i)
    then show ?thesis using step crdt_inv_deliver [OF inv, of i] by (simp add: crdt_model_def)
  qed
qed

section \<open>Convergence\<close>

lemma crdt_inv_boundary: "crdt_inv p s \<Longrightarrow> within_boundary (crdt_model p) s"
  by (simp add: crdt_model_def crdt_within_boundary_def crdt_inv_def)

lemma crdt_enabled:
  "src < node_count p \<Longrightarrow> dst < node_count p \<Longrightarrow> can_queue_snapshot p s src dst = Some payload \<Longrightarrow> InitMerge src dst \<in> set (crdt_actions p s)"
  "i < length (in_flight s) \<Longrightarrow> DeliverMerge i \<in> set (crdt_actions p s)"
  unfolding crdt_actions_def set_append set_concat set_map set_upt image_image by force+

lemma crdt_leads:
  assumes "crdt_inv p s" "a \<in> set (crdt_actions p s)" "crdt_next_state p s a = Some t"
  shows "leads_to (crdt_model p) s t" "crdt_inv p t"
proof -
  show "crdt_inv p t" using crdt.inv_step [of p s a t] assms by (simp add: crdt_model_def)
  then show "leads_to (crdt_model p) s t"
    using leads_step [OF leads_refl, of a "crdt_model p" s t] assms(2,3) crdt_inv_boundary by (simp add: crdt_model_def)
qed

text \<open>Delivering the first message, and what it leaves of the union of all replicas.\<close>

lemma crdt_deliver:
  assumes "crdt_inv p s" "in_flight s = (src, dst, payload) # rest"
  defines "ns \<equiv> (nodes s)[dst := nodes s ! dst \<union> payload]"
  shows "leads_to (crdt_model p) s \<lparr>nodes = ns, in_flight = rest, received_writes = ns\<rparr>"
    "crdt_inv p \<lparr>nodes = ns, in_flight = rest, received_writes = ns\<rparr>"
proof -
  have "dst < length (nodes s)" "received_writes s = nodes s" using crdt_invD(1,2) [OF assms(1)] crdt_invD(6) [OF assms(1), of src dst payload] assms(2) by auto
  then have "crdt_next_state p s (DeliverMerge 0) = Some \<lparr>nodes = ns, in_flight = rest, received_writes = ns\<rparr>"
    by (simp add: assms(2) merge_sets_def ns_def)
  moreover have "DeliverMerge 0 \<in> set (crdt_actions p s)" using crdt_enabled(2) assms(2) by simp
  ultimately show "leads_to (crdt_model p) s \<lparr>nodes = ns, in_flight = rest, received_writes = ns\<rparr>"
    "crdt_inv p \<lparr>nodes = ns, in_flight = rest, received_writes = ns\<rparr>" using crdt_leads [OF assms(1)] by blast+
qed

lemma Union_update: "i < length xs \<Longrightarrow> A \<subseteq> \<Union> (set xs) \<Longrightarrow> \<Union> (set (xs[i := xs ! i \<union> A])) = \<Union> (set xs)"
proof (rule antisym)
  assume i: "i < length xs" and A: "A \<subseteq> \<Union> (set xs)"
  show "\<Union> (set (xs[i := xs ! i \<union> A])) \<subseteq> \<Union> (set xs)"
    using Union_update_le [of _ xs i A] A by blast
  show "\<Union> (set xs) \<subseteq> \<Union> (set (xs[i := xs ! i \<union> A]))"
  proof
    fix x assume "x \<in> \<Union> (set xs)"
    then obtain j where "j < length xs" "x \<in> xs ! j" by (auto simp: in_set_conv_nth)
    then have "j < length (xs[i := xs ! i \<union> A])" "x \<in> xs[i := xs ! i \<union> A] ! j" by (cases "i = j"; simp)+
    then show "x \<in> \<Union> (set (xs[i := xs ! i \<union> A]))" by (meson UnionI nth_mem)
  qed
qed

lemma crdt_drain:
  assumes "crdt_inv p s"
  shows "\<exists>t. leads_to (crdt_model p) s t \<and> crdt_inv p t \<and> in_flight t = [] \<and> \<Union> (set (nodes t)) = \<Union> (set (nodes s))"
  using assms
proof (induction "in_flight s" arbitrary: s)
  case Nil
  then show ?case by (auto intro: leads_refl)
next
  case (Cons m rest)
  obtain src dst payload where m: "m = (src, dst, payload)" by (cases m) auto
  note del = crdt_deliver [OF Cons.prems Cons.hyps(2) [symmetric, unfolded m]]
  have ends: "src < length (nodes s)" "dst < length (nodes s)" "payload \<subseteq> nodes s ! src"
    using crdt_invD(1) [OF Cons.prems] crdt_invD(6) [OF Cons.prems, of src dst payload] Cons.hyps(2) [symmetric] m by simp_all
  have "payload \<subseteq> \<Union> (set (nodes s))" using ends(3) nth_mem [OF ends(1)] by blast
  then have "\<Union> (set ((nodes s)[dst := nodes s ! dst \<union> payload])) = \<Union> (set (nodes s))" by (rule Union_update [OF ends(2)])
  with Cons.hyps(1) [OF _ del(2)] show ?case using leads_trans [OF _ del(1)] by simp blast
qed

text \<open>A replica sends its state to another one, which merges it.\<close>

lemma crdt_gossip:
  assumes "crdt_inv p s" "in_flight s = []" "0 < max_in_flight p" "src < node_count p" "dst < node_count p" "src \<noteq> dst"
  defines "ns \<equiv> (nodes s)[dst := nodes s ! dst \<union> nodes s ! src]"
  shows "\<exists>t. leads_to (crdt_model p) s t \<and> crdt_inv p t \<and> in_flight t = [] \<and> nodes t = ns"
proof -
  have q: "can_queue_snapshot p s src dst = Some (nodes s ! src)"
    using assms(2-6) crdt_invD(1) [OF assms(1)] by (simp add: can_queue_snapshot_def)
  have "InitMerge src dst \<in> set (crdt_actions p s)" using q assms(4,5) crdt_enabled(1) by blast
  then have send: "leads_to (crdt_model p) s (s\<lparr>in_flight := [(src, dst, nodes s ! src)]\<rparr>)"
    "crdt_inv p (s\<lparr>in_flight := [(src, dst, nodes s ! src)]\<rparr>)"
    using crdt_leads [OF assms(1)] q assms(2) by auto
  let ?t = "\<lparr>nodes = ns, in_flight = [], received_writes = ns\<rparr>"
  have "leads_to (crdt_model p) (s\<lparr>in_flight := [(src, dst, nodes s ! src)]\<rparr>) ?t" "crdt_inv p ?t"
    using crdt_deliver [OF send(2), of src dst "nodes s ! src" "[]"] by (simp_all add: ns_def)
  then show ?thesis using leads_trans [OF _ send(1)] by (intro exI [of _ ?t]) simp
qed

lemma crdt_gather:
  assumes "crdt_inv p s" "in_flight s = []" "0 < max_in_flight p" "Suc k \<le> node_count p"
  shows "\<exists>t. leads_to (crdt_model p) s t \<and> crdt_inv p t \<and> in_flight t = [] \<and>
    nodes t = (nodes s)[0 := \<Union> (set (take (Suc k) (nodes s)))]"
  using assms(4)
proof (induction k)
  case 0
  then have "(nodes s)[0 := \<Union> (set (take (Suc 0) (nodes s)))] = nodes s" using crdt_invD(1) [OF assms(1)] by (cases "nodes s") simp_all
  then show ?case using assms(1,2) leads_refl by metis
next
  case (Suc k)
  then obtain t where t: "leads_to (crdt_model p) s t" "crdt_inv p t" "in_flight t = []"
    "nodes t = (nodes s)[0 := \<Union> (set (take (Suc k) (nodes s)))]" by auto
  have len: "Suc k < length (nodes s)" using Suc.prems crdt_invD(1) [OF assms(1)] by simp
  then have pos: "0 < length (nodes s)" by linarith
  obtain u where u: "leads_to (crdt_model p) t u" "crdt_inv p u" "in_flight u = []"
    "nodes u = (nodes t)[0 := nodes t ! 0 \<union> nodes t ! Suc k]"
    using crdt_gossip [OF t(2,3) assms(3), of "Suc k" 0] Suc.prems by auto
  have "nodes u = (nodes s)[0 := \<Union> (set (take (Suc (Suc k)) (nodes s)))]"
    using nth_list_update_eq [OF pos] len by (simp add: u(4) t(4) take_Suc_conv_app_nth [OF len] Un_commute)
  then show ?case using leads_trans [OF u(1) t(1)] u(2,3) by blast
qed

lemma crdt_scatter:
  assumes "crdt_inv p s" "in_flight s = []" "0 < max_in_flight p" "\<And>i. i < node_count p \<Longrightarrow> nodes s ! i \<subseteq> nodes s ! 0" "k < node_count p"
  shows "\<exists>t. leads_to (crdt_model p) s t \<and> crdt_inv p t \<and> in_flight t = [] \<and>
    (\<forall>i < node_count p. nodes t ! i = (if i \<le> k then nodes s ! 0 else nodes s ! i))"
  using assms(5)
proof (induction k)
  case 0
  then show ?case using assms(1,2) leads_refl by (metis le_zero_eq)
next
  case (Suc k)
  then obtain t where t: "leads_to (crdt_model p) s t" "crdt_inv p t" "in_flight t = []"
    "\<And>i. i < node_count p \<Longrightarrow> nodes t ! i = (if i \<le> k then nodes s ! 0 else nodes s ! i)" by auto
  obtain u where u: "leads_to (crdt_model p) t u" "crdt_inv p u" "in_flight u = []"
    "nodes u = (nodes t)[Suc k := nodes t ! Suc k \<union> nodes t ! 0]"
    using crdt_gossip [OF t(2,3) assms(3), of 0 "Suc k"] Suc.prems by auto
  have "nodes u ! i = (if i \<le> Suc k then nodes s ! 0 else nodes s ! i)" if "i < node_count p" for i
    using t(4) [OF that] t(4) [OF Suc.prems] t(4) [of 0] assms(4) [OF Suc.prems] that Suc.prems crdt_invD(1) [OF t(2)]
    by (auto simp: u(4) nth_list_update)
  then show ?case using leads_trans [OF u(1) t(1)] u(2,3) by blast
qed

lemma crdt_converges:
  assumes "crdt_inv p s" "0 < max_in_flight p"
  shows "\<exists>t. leads_to (crdt_model p) s t \<and> in_flight t = [] \<and> nodes t = replicate (node_count p) (\<Union> (set (nodes s)))"
proof -
  obtain t where t: "leads_to (crdt_model p) s t" "crdt_inv p t" "in_flight t = []" "\<Union> (set (nodes t)) = \<Union> (set (nodes s))"
    using crdt_drain [OF assms(1)] by blast
  show ?thesis
  proof (cases "node_count p")
    case 0
    then show ?thesis using t crdt_invD(1) [OF t(2)] by auto
  next
    case (Suc n)
    then obtain u where u: "leads_to (crdt_model p) t u" "crdt_inv p u" "in_flight u = []" "nodes u = (nodes t)[0 := \<Union> (set (nodes t))]"
      using crdt_gather [OF t(2,3) assms(2), of n] crdt_invD(1) [OF t(2)] by auto
    have top: "nodes u ! 0 = \<Union> (set (nodes s))" using Suc crdt_invD(1) [OF t(2)] by (simp add: u(4) t(4))
    have "nodes u ! i \<subseteq> nodes u ! 0" if "i < node_count p" for i
    proof (cases i)
      case (Suc j)
      then have "nodes u ! i = nodes t ! i" by (simp add: u(4))
      moreover have "nodes t ! i \<in> set (nodes t)" using that crdt_invD(1) [OF t(2)] by simp
      ultimately show ?thesis unfolding top t(4) [symmetric] by auto
    qed simp
    then obtain v where v: "leads_to (crdt_model p) u v" "crdt_inv p v" "in_flight v = []"
      "\<And>i. i < node_count p \<Longrightarrow> nodes v ! i = (if i \<le> n then nodes u ! 0 else nodes u ! i)"
      using crdt_scatter [OF u(2,3) assms(2), of n] Suc by auto
    have "nodes v = replicate (node_count p) (\<Union> (set (nodes s)))"
      by (rule nth_equalityI) (use v(4) crdt_invD(1) [OF v(2)] top Suc in \<open>auto simp: less_Suc_eq_le simp del: replicate_Suc\<close>)
    then show ?thesis using leads_trans [OF v(1) leads_trans [OF u(1) t(1)]] v(3) by blast
  qed
qed

lemma crdt_step_grows:
  assumes "crdt_next_state p s a = Some t"
  shows "nodes s ! i \<subseteq> nodes t ! i"
proof (cases a)
  case (Write node d)
  then show ?thesis using assms list_update_grows [OF subset_refl, of "nodes s" i node "{d}"] by (auto split: if_splits)
next
  case (DeliverMerge j)
  obtain src dst payload where m: "in_flight s ! j = (src, dst, payload)" by (cases "in_flight s ! j") auto
  with DeliverMerge show ?thesis
    using assms list_update_grows [OF subset_refl, of "nodes s" i dst payload] by (auto simp: merge_sets_def split: if_splits)
qed (use assms in auto)

text \<open>C27 Replicas converge in the merge model, for any number of replicas, datoms and messages in flight. The model passes its
  check; a replica never loses a datom in a step; and from every reachable state, if one message may be in flight,
  the network can be emptied with every replica then holding exactly the union of what the replicas held.\<close>

theorem crdt_model_verified:
  assumes "0 < max_in_flight p"
  shows "verdict (crdt_model p) (crdt_properties p) \<and>
    (\<forall>s. model_run (crdt_model p) s \<longrightarrow>
      (\<forall>a t i. crdt_next_state p s a = Some t \<longrightarrow> i < node_count p \<longrightarrow> nodes s ! i \<subseteq> nodes t ! i) \<and>
      (\<exists>t. leads_to (crdt_model p) s t \<and> in_flight t = [] \<and> is_converged t \<and>
        nodes t = replicate (node_count p) (\<Union> (set (nodes s)))))"
proof -
  let ?i = "hd (crdt_init_states p)"
  have i: "?i \<in> set (init_states (crdt_model p))" "within_boundary (crdt_model p) ?i" "in_flight ?i = []"
    by (auto simp: crdt_model_def crdt_init_states_def crdt_within_boundary_def payloads_in_domain_def)
  have conv: "is_converged t" if "nodes t = replicate n A" for t :: crdt_state and n A
    using that by (cases n) (simp_all add: is_converged_def list_all_iff)
  have "is_converged ?i" by (rule conv [of _ "node_count p" "{}"]) (simp add: crdt_init_states_def)
  then have "meets (crdt_model p) (Sometimes n (\<lambda>s. in_flight s = [] \<and> is_converged s))" for n
    using i by (intro sometimes [where as = "[]"]) auto
  moreover have "sec_convergence s" "monotonic_growth s" if "crdt_inv p s" for s
    using crdt_invD(2) [OF that] by (auto simp: sec_convergence_def monotonic_growth_def list_all_iff zip_same_conv_map)
  ultimately have "verdict (crdt_model p) (crdt_properties p)"
    unfolding verdict_def crdt_properties_def using crdt_invD(3) by (simp del: meets.simps add: crdt.always)
  then show ?thesis using crdt_converges [OF _ assms] crdt.run_inv conv crdt_step_grows by metis
qed

theorem crdt_model_verified_witness: "verdict (crdt_model crdt_default) (crdt_properties crdt_default)"
  by (rule crdt_model_verified [THEN conjunct1]) (simp add: crdt_default_def)

end
