(* ===== verification/Backpressure_Model.thy ===== *)
theory Backpressure_Model
  imports Crdt_Model Observers
begin

text \<open>
  The backpressure model (\<open>ferratomic-verify/stateright/backpressure_model.rs\<close>): a bounded queue of submissions in
  front of one writer, with counters of what happened to each submission, and its relation to the write limiter
  of \<open>Observers\<close>. Counters of type \<open>usize\<close> are naturals.
\<close>

section \<open>The queue\<close>

record backpressure_state =
  bp_queue :: "model_datom list"
  bp_capacity :: nat
  bp_committed_count :: nat
  bp_rejected_count :: nat
  bp_total_submitted :: nat
  bp_committed_set :: "model_datom set"

datatype backpressure_action = Submit model_datom | Process

record backpressure_params =
  bp_queue_capacity :: nat
  bp_max_submissions :: nat
  bp_datom_domain :: nat

definition bp_default :: backpressure_params where
  "bp_default = \<lparr>bp_queue_capacity = 3, bp_max_submissions = 6, bp_datom_domain = 3\<rparr>"

definition bp_init_states :: "backpressure_params \<Rightarrow> backpressure_state list" where
  "bp_init_states p = [\<lparr>bp_queue = [], bp_capacity = bp_queue_capacity p, bp_committed_count = 0, bp_rejected_count = 0,
     bp_total_submitted = 0, bp_committed_set = {}\<rparr>]"

definition bp_actions :: "backpressure_params \<Rightarrow> backpressure_state \<Rightarrow> backpressure_action list" where
  "bp_actions p s =
     (if bp_total_submitted s < bp_max_submissions p then map (\<lambda>seed. Submit (from_seed seed)) [0..<bp_datom_domain p] else []) @
     (if bp_queue s \<noteq> [] then [Process] else [])"

fun bp_next_state :: "backpressure_params \<Rightarrow> backpressure_state \<Rightarrow> backpressure_action \<Rightarrow> backpressure_state option" where
  "bp_next_state p s (Submit d) =
     (if bp_total_submitted s \<ge> bp_max_submissions p then None
      else let s' = s\<lparr>bp_total_submitted := bp_total_submitted s + 1\<rparr>
           in if length (bp_queue s) < bp_capacity s then Some (s'\<lparr>bp_queue := bp_queue s @ [d]\<rparr>)
              else Some (s'\<lparr>bp_rejected_count := bp_rejected_count s + 1\<rparr>))"
| "bp_next_state p s Process =
     (case bp_queue s of
        [] \<Rightarrow> None
      | d # q \<Rightarrow> Some (s\<lparr>bp_queue := q, bp_committed_count := bp_committed_count s + 1,
                         bp_committed_set := insert d (bp_committed_set s)\<rparr>))"

definition bp_within_boundary :: "backpressure_params \<Rightarrow> backpressure_state \<Rightarrow> bool" where
  "bp_within_boundary p s \<longleftrightarrow> bp_total_submitted s \<le> bp_max_submissions p \<and> length (bp_queue s) \<le> bp_capacity s"

definition bp_model :: "backpressure_params \<Rightarrow> (backpressure_state, backpressure_action) model" where
  "bp_model p = \<lparr>init_states = bp_init_states p, actions = bp_actions p, next_state = bp_next_state p,
     within_boundary = bp_within_boundary p\<rparr>"

definition bp_properties :: "backpressure_state expectation list" where
  "bp_properties =
     [Always ''inv_ferr_021_no_silent_drop''
        (\<lambda>s. bp_total_submitted s = bp_committed_count s + bp_rejected_count s + length (bp_queue s)),
      Always ''inv_ferr_021_bounded_queue'' (\<lambda>s. length (bp_queue s) \<le> bp_capacity s),
      Always ''inv_ferr_021_committed_set_consistent'' (\<lambda>s. card (bp_committed_set s) \<le> bp_committed_count s),
      Sometimes ''inv_ferr_021_commit_reachable'' (\<lambda>s. bp_committed_count s > 0),
      Sometimes ''inv_ferr_021_rejection_reachable'' (\<lambda>s. bp_rejected_count s > 0),
      Sometimes ''inv_ferr_021_full_lifecycle_reachable'' (\<lambda>s. bp_committed_count s > 0 \<and> bp_rejected_count s > 0)]"

section \<open>Invariant\<close>

definition bp_inv :: "backpressure_params \<Rightarrow> backpressure_state \<Rightarrow> bool" where
  "bp_inv p s \<longleftrightarrow> bp_capacity s = bp_queue_capacity p \<and> length (bp_queue s) \<le> bp_capacity s \<and>
     bp_total_submitted s = bp_committed_count s + bp_rejected_count s + length (bp_queue s) \<and>
     finite (bp_committed_set s) \<and> card (bp_committed_set s) \<le> bp_committed_count s"

interpretation bp: model_invariant "bp_model p" "bp_inv p" for p
proof
  show "bp_inv p s" if "s \<in> set (init_states (bp_model p))" for s
    using that by (simp add: bp_model_def bp_init_states_def bp_inv_def)
  show "bp_inv p t" if "bp_inv p s" "next_state (bp_model p) s a = Some t" for s a t
    using that by (cases a) (auto simp: bp_model_def bp_inv_def Let_def card_insert_if split: if_splits list.splits)
qed

section \<open>The model and the limiter\<close>

lemma bp_fill:
  assumes "0 < bp_datom_domain p" "bp_total_submitted s + k \<le> bp_max_submissions p" "length (bp_queue s) + k \<le> bp_capacity s"
  shows "follow (bp_model p) (replicate k (Submit (from_seed 0)) @ as) s =
    follow (bp_model p) as (s\<lparr>bp_total_submitted := bp_total_submitted s + k, bp_queue := bp_queue s @ replicate k (from_seed 0)\<rparr>)"
  using assms
proof (induction k arbitrary: s)
  case (Suc k)
  have "Submit (from_seed 0) \<in> set (bp_actions p s)" using Suc.prems by (auto simp: bp_actions_def)
  moreover have "replicate k (from_seed 0) @ [from_seed 0] = from_seed 0 # replicate k (from_seed 0)" by (simp add: replicate_append_same)
  ultimately show ?case using Suc by (simp add: bp_model_def bp_within_boundary_def Let_def)
qed simp

definition bp_lifecycle :: "backpressure_params \<Rightarrow> backpressure_action list" where
  "bp_lifecycle p = replicate (bp_queue_capacity p) (Submit (from_seed 0)) @ [Submit (from_seed 0), Process]"

lemma bp_lifecycle_run:
  assumes "0 < bp_datom_domain p" "0 < bp_queue_capacity p" "bp_queue_capacity p < bp_max_submissions p"
  shows "\<exists>t. follow (bp_model p) (bp_lifecycle p) (hd (bp_init_states p)) = Some t \<and> bp_committed_count t = 1 \<and> bp_rejected_count t = 1"
proof -
  let ?c = "bp_queue_capacity p"
  let ?s = "\<lparr>bp_queue = replicate ?c (from_seed 0), bp_capacity = ?c, bp_committed_count = 0, bp_rejected_count = 0,
     bp_total_submitted = ?c, bp_committed_set = {}\<rparr>"
  have "follow (bp_model p) (bp_lifecycle p) (hd (bp_init_states p)) = follow (bp_model p) [Submit (from_seed 0), Process] ?s"
    unfolding bp_lifecycle_def using assms by (subst bp_fill) (simp_all add: bp_init_states_def)
  moreover have "Submit (from_seed 0) \<in> set (bp_actions p ?s)" using assms by (auto simp: bp_actions_def)
  ultimately show ?thesis
    using assms by (cases ?c) (auto simp: bp_model_def bp_within_boundary_def bp_actions_def Let_def)
qed

text \<open>The limiter holds a slot for every queued submission.\<close>

definition limits :: "write_limiter \<Rightarrow> backpressure_state \<Rightarrow> bool" where
  "limits wl s \<longleftrightarrow> wl_max wl = bp_capacity s \<and> wl_active wl = length (bp_queue s)"

text \<open>The backpressure model passes its check for all bounds, and the write limiter implements it. Every property of the
  model holds: none of the submissions is lost, the queue stays within its capacity, and a run that commits and rejects
  exists as soon as one more submission than the capacity is allowed. Each step of the model is a call of the
  limiter: a submission is accepted exactly when \<open>try_acquire\<close> gives a slot, processing gives it back.\<close>

theorem backpressure_model_verified:
  assumes "0 < bp_datom_domain p" "0 < bp_queue_capacity p" "bp_queue_capacity p < bp_max_submissions p"
  shows "verdict (bp_model p) bp_properties \<and>
    limits (limiter_new (bp_queue_capacity p)) (hd (bp_init_states p)) \<and>
    (limits wl s \<longrightarrow> bp_next_state p s a = Some t \<longrightarrow>
      (case a of
        Submit d \<Rightarrow> limits (fst (try_acquire wl)) t \<and> (snd (try_acquire wl) \<longleftrightarrow> bp_rejected_count t = bp_rejected_count s)
      | Process \<Rightarrow> limits (release_sub wl) t))"
proof -
  let ?i = "hd (bp_init_states p)"
  have i: "?i \<in> set (init_states (bp_model p))" "within_boundary (bp_model p) ?i"
    by (simp_all add: bp_model_def bp_init_states_def bp_within_boundary_def)
  obtain t where t: "follow (bp_model p) (bp_lifecycle p) ?i = Some t" "bp_committed_count t = 1" "bp_rejected_count t = 1"
    using bp_lifecycle_run [OF assms] by blast
  have "meets (bp_model p) (Sometimes n P)" if "P t" for n P using sometimes [of ?i "bp_model p", OF i t(1)] that by blast
  then have "verdict (bp_model p) bp_properties"
    using t(2,3) unfolding verdict_def bp_properties_def by (auto simp: bp_inv_def simp del: meets.simps intro!: bp.always)
  moreover have "limits (limiter_new (bp_queue_capacity p)) ?i" by (simp add: limits_def limiter_new_def bp_init_states_def)
  moreover have "case a of
        Submit d \<Rightarrow> limits (fst (try_acquire wl)) t \<and> (snd (try_acquire wl) \<longleftrightarrow> bp_rejected_count t = bp_rejected_count s)
      | Process \<Rightarrow> limits (release_sub wl) t" if "limits wl s" "bp_next_state p s a = Some t" for t
    using that by (cases a) (auto simp: limits_def try_acquire_def acquire_add_def release_sub_def Let_def split: if_splits list.splits)
  ultimately show ?thesis by blast
qed

theorem backpressure_model_verified_witness: "verdict (bp_model bp_default) bp_properties"
  using backpressure_model_verified [of bp_default] by (simp add: bp_default_def)

end
