(* ===== verification/Hlc_Model.thy ===== *)
theory Hlc_Model
  imports Checker Clock
begin

text \<open>
  The clock model (\<open>ferratomic-verify/stateright/hlc_model.rs\<close>): one hybrid clock under a wall clock that advances, stalls
  and goes back, with all timestamps it issued; and its relation to the clock of \<open>ferratom-clock\<close>. The fields of type
  \<open>u8\<close> are naturals with checked increments.
\<close>

section \<open>The model\<close>

record hlc_state =
  wall_clock :: nat
  prev_physical :: nat
  prev_logical :: nat
  tick_count :: nat
  tick_outputs :: "(nat \<times> nat) list"

datatype hlc_action = WallClockAdvance | WallClockStall | WallClockRegress | HlcTick

record hlc_params =
  max_wall_clock :: nat
  max_ticks :: nat
  max_logical :: nat

definition hlc_default :: hlc_params where
  "hlc_default = \<lparr>max_wall_clock = 3, max_ticks = 5, max_logical = 6\<rparr>"

definition hlc_init_states :: "hlc_state list" where
  "hlc_init_states = [\<lparr>wall_clock = 0, prev_physical = 0, prev_logical = 0, tick_count = 0, tick_outputs = []\<rparr>]"

definition hlc_actions :: "hlc_params \<Rightarrow> hlc_state \<Rightarrow> hlc_action list" where
  "hlc_actions p s =
     (if wall_clock s < max_wall_clock p then [WallClockAdvance] else []) @ [WallClockStall] @
     (if wall_clock s > 0 then [WallClockRegress] else []) @
     (if tick_count s < max_ticks p then [HlcTick] else [])"

definition hlc_tick :: "hlc_params \<Rightarrow> hlc_state \<Rightarrow> (nat \<times> nat) option" where
  "hlc_tick p s =
     (let pt = max (wall_clock s) (prev_physical s)
      in if pt = prev_physical s
         then Option.bind (checked_inc_u8 (prev_logical s)) (\<lambda>candidate.
              if candidate > max_logical p then None else Some (pt, candidate))
         else Some (pt, 0))"

fun hlc_next_state :: "hlc_params \<Rightarrow> hlc_state \<Rightarrow> hlc_action \<Rightarrow> hlc_state option" where
  "hlc_next_state p s WallClockAdvance =
     (if wall_clock s \<ge> max_wall_clock p then None
      else map_option (\<lambda>w. s\<lparr>wall_clock := w\<rparr>) (checked_inc_u8 (wall_clock s)))"
| "hlc_next_state p s WallClockStall = Some s"
| "hlc_next_state p s WallClockRegress =
     (if wall_clock s = 0 then None else Some (s\<lparr>wall_clock := wall_clock s - 1\<rparr>))"
| "hlc_next_state p s HlcTick =
     (if tick_count s \<ge> max_ticks p then None
      else Option.bind (hlc_tick p s) (\<lambda>(pt, log).
           map_option (\<lambda>n. s\<lparr>prev_physical := pt, prev_logical := log, tick_count := n, tick_outputs := tick_outputs s @ [(pt, log)]\<rparr>)
             (checked_inc_u8 (tick_count s))))"

definition hlc_within_boundary :: "hlc_params \<Rightarrow> hlc_state \<Rightarrow> bool" where
  "hlc_within_boundary p s \<longleftrightarrow> tick_count s \<le> max_ticks p \<and> wall_clock s \<le> max_wall_clock p \<and> prev_logical s \<le> max_logical p"

definition hlc_model :: "hlc_params \<Rightarrow> (hlc_state, hlc_action) model" where
  "hlc_model p = \<lparr>init_states = hlc_init_states, actions = hlc_actions p, next_state = hlc_next_state p,
     within_boundary = hlc_within_boundary p\<rparr>"

definition hlc_properties :: "hlc_state expectation list" where
  "hlc_properties =
     [Always ''inv_ferr_015_hlc_monotonicity'' (\<lambda>s. windows_lt (tick_outputs s)),
      Sometimes ''inv_ferr_015_regression_monotonicity_reachable'' (\<lambda>s. wall_clock s < prev_physical s \<and> tick_count s \<ge> 2),
      Sometimes ''inv_ferr_015_tick_after_advance_reachable'' (\<lambda>s. tick_count s \<ge> 3)]"

section \<open>Invariant\<close>

text \<open>Every issued timestamp is at most the last one, which the state remembers; the state fits \<open>u8\<close>.\<close>

definition hlc_inv :: "hlc_state \<Rightarrow> bool" where
  "hlc_inv s \<longleftrightarrow> strict_sorted (tick_outputs s) \<and> (\<forall>x \<in> set (tick_outputs s). x \<le> (prev_physical s, prev_logical s)) \<and>
     wall_clock s \<le> 255 \<and> prev_physical s \<le> 255 \<and> prev_logical s \<le> 255"

lemma hlc_tick_later: "hlc_tick p s = Some x \<Longrightarrow> (prev_physical s, prev_logical s) < x"
  by (auto simp: hlc_tick_def checked_inc_u8_def less_prod_simp Let_def Option.bind_eq_Some_conv split: if_splits)

lemma hlc_tick_bound: "hlc_tick p s = Some x \<Longrightarrow> hlc_inv s \<Longrightarrow> fst x \<le> 255 \<and> snd x \<le> 255"
  by (auto simp: hlc_tick_def checked_inc_u8_def hlc_inv_def Let_def Option.bind_eq_Some_conv split: if_splits)

interpretation hlc: model_invariant "hlc_model p" hlc_inv for p
proof
  show "hlc_inv s" if "s \<in> set (init_states (hlc_model p))" for s
    using that by (simp add: hlc_model_def hlc_init_states_def hlc_inv_def)
  show "hlc_inv t" if inv: "hlc_inv s" and nxt: "next_state (hlc_model p) s a = Some t" for s a t
  proof (cases "a = HlcTick")
    case True
    with nxt obtain x where x: "hlc_tick p s = Some x" and t: "prev_physical t = fst x" "prev_logical t = snd x" "wall_clock t = wall_clock s"
      "tick_outputs t = tick_outputs s @ [x]"
      by (auto simp: hlc_model_def Option.bind_eq_Some_conv checked_inc_u8_def split: if_splits)
    have "y < x" if "y \<in> set (tick_outputs s)" for y
      using that inv hlc_tick_later [OF x] by (auto simp: hlc_inv_def intro: le_less_trans)
    then show ?thesis using inv hlc_tick_bound [OF x inv] t by (auto simp: hlc_inv_def sorted_wrt_append less_imp_le)
  next
    case False
    with nxt inv have "tick_outputs t = tick_outputs s" "prev_physical t = prev_physical s" "prev_logical t = prev_logical s" "wall_clock t \<le> 255"
      by (cases a; auto simp: hlc_model_def checked_inc_u8_def hlc_inv_def split: if_splits)+
    with inv show ?thesis by (simp add: hlc_inv_def)
  qed
qed

section \<open>The model and the clock\<close>

definition clocks :: "'c hybrid_clock \<Rightarrow> hlc_state \<Rightarrow> bool" where
  "clocks hc s \<longleftrightarrow> unat (hc_physical hc) = prev_physical s \<and> unat (hc_logical hc) = prev_logical s"

text \<open>C28 The clock model passes its check for all bounds that leave room for the states it asks for: at least three ticks, a
  wall clock that can advance and a logical counter that can be incremented. Its timestamps strictly increase under
  every bound, beyond the boundary too. The program's clock implements the model: from corresponding states, with the
  model's wall clock as the reading, whenever the model issues a timestamp \<open>tick\<close> succeeds, issues the same one and
  ends in the corresponding state.\<close>

theorem hlc_model_verified:
  assumes "1 \<le> max_wall_clock p" "3 \<le> max_ticks p" "1 \<le> max_logical p"
  shows "verdict (hlc_model p) hlc_properties \<and>
    (\<forall>q r. model_run (hlc_model q) r \<longrightarrow> sorted_wrt (<) (tick_outputs r)) \<and>
    (hlc_inv s \<longrightarrow> clocks hc s \<longrightarrow> unat (fst (now (hc_clock hc))) = wall_clock s \<longrightarrow> hlc_next_state p s HlcTick = Some t \<longrightarrow>
      (\<exists>hc' tx. tick now hc = (hc', Inr tx) \<and> clocks hc' t \<and>
         tick_outputs t = tick_outputs s @ [(unat (tx_physical tx), unat (tx_logical tx))]))"
proof -
  let ?i = "hd hlc_init_states"
  have i: "?i \<in> set (init_states (hlc_model p))" "within_boundary (hlc_model p) ?i"
    by (simp_all add: hlc_model_def hlc_init_states_def hlc_within_boundary_def)
  have "\<exists>t. follow (hlc_model p) [HlcTick, WallClockAdvance, HlcTick, HlcTick, WallClockRegress] ?i = Some t \<and>
      wall_clock t = 0 \<and> prev_physical t = 1 \<and> tick_count t = 3"
    using assms by (simp add: hlc_model_def hlc_init_states_def hlc_actions_def hlc_tick_def hlc_within_boundary_def checked_inc_u8_def Let_def)
  then obtain t' where t': "follow (hlc_model p) [HlcTick, WallClockAdvance, HlcTick, HlcTick, WallClockRegress] ?i = Some t'"
      "wall_clock t' = 0" "prev_physical t' = 1" "tick_count t' = 3" by blast
  have "meets (hlc_model p) (Sometimes n P)" if "P t'" for n P using sometimes [of ?i "hlc_model p", OF i t'(1)] that by blast
  then have "verdict (hlc_model p) hlc_properties"
    using t'(2-4) unfolding verdict_def hlc_properties_def by (auto simp: hlc_inv_def windows_lt_iff simp del: meets.simps intro!: hlc.always)
  moreover have "\<exists>hc' tx. tick now hc = (hc', Inr tx) \<and> clocks hc' t \<and>
         tick_outputs t = tick_outputs s @ [(unat (tx_physical tx), unat (tx_logical tx))]"
    if inv: "hlc_inv s" and rel: "clocks hc s" and wall: "unat (fst (now (hc_clock hc))) = wall_clock s"
      and t: "hlc_next_state p s HlcTick = Some t"
  proof -
    obtain w c where now: "now (hc_clock hc) = (w, c)" by (cases "now (hc_clock hc)")
    from t obtain x where x: "hlc_tick p s = Some x" and out: "prev_physical t = fst x" "prev_logical t = snd x" "tick_outputs t = tick_outputs s @ [x]"
      by (auto simp: Option.bind_eq_Some_conv split: if_splits)
    have l: "unat (hc_logical hc) < u32_max" "unat (hc_logical hc + 1) = prev_logical s + 1"
      using inv rel by (auto simp: clocks_def hlc_inv_def u32_max_def unat_word_ariths)
    show ?thesis
    proof (cases "hc_physical hc < w")
      case True
      then have "x = (unat w, 0)" using x rel wall now by (auto simp: hlc_tick_def clocks_def word_less_nat_alt Let_def max_def split: if_splits)
      then show ?thesis using True now out by (auto simp: tick_def tick_bounded_def clocks_def with_node_def Let_def)
    next
      case False
      then have "x = (unat (hc_physical hc), unat (hc_logical hc + 1))"
        using x rel wall now l by (auto simp: hlc_tick_def clocks_def checked_inc_u8_def word_less_nat_alt Let_def max_def Option.bind_eq_Some_conv split: if_splits)
      then show ?thesis using False now out l by (auto simp: tick_def tick_bounded_def checked_add_u32_def clocks_def with_node_def Let_def)
    qed
  qed
  moreover have "sorted_wrt (<) (tick_outputs r)" if "model_run (hlc_model q) r" for q r
    using hlc.run_inv [OF that] by (simp add: hlc_inv_def)
  ultimately show ?thesis by blast
qed

text \<open>The default bounds; a state that has issued \<open>(1, 0)\<close> with the wall clock gone back to 0: model and clock issue
  \<open>(1, 1)\<close>.\<close>

theorem hlc_model_verified_witness:
  "verdict (hlc_model hlc_default) hlc_properties \<and>
   (\<exists>s t hc hc' tx. hlc_inv s \<and> clocks hc s \<and> wall_clock s = 0 \<and> tick_outputs s = [(1, 0)] \<and>
      hlc_next_state hlc_default s HlcTick = Some t \<and> tick (\<lambda>c. (0, c)) (hc :: unit hybrid_clock) = (hc', Inr tx) \<and> clocks hc' t \<and>
      tick_outputs t = [(1, 0), (unat (tx_physical tx), unat (tx_logical tx))] \<and> tick_outputs t = [(1, 0), (1, 1)])"
proof -
  have d: "1 \<le> max_wall_clock hlc_default" "3 \<le> max_ticks hlc_default" "1 \<le> max_logical hlc_default" by (simp_all add: hlc_default_def)
  let ?s = "\<lparr>wall_clock = 0, prev_physical = 1, prev_logical = 0, tick_count = 1, tick_outputs = [(1, 0)]\<rparr>"
  let ?hc = "(with_clock zero_node ())\<lparr>hc_physical := 1, hc_logical := 0\<rparr>"
  have s: "hlc_inv ?s" "clocks ?hc ?s" "unat (fst ((\<lambda>c. (0 :: u64, c)) (hc_clock ?hc))) = wall_clock ?s"
    by (simp_all add: hlc_inv_def clocks_def)
  obtain t where t: "hlc_next_state hlc_default ?s HlcTick = Some t" "tick_outputs t = [(1, 0), (1, 1)]"
    by (simp add: hlc_tick_def hlc_default_def checked_inc_u8_def Let_def)
  note v = hlc_model_verified [OF d, of ?s ?hc "\<lambda>c. (0, c)" t]
  from v s t(1) obtain hc' tx where "tick (\<lambda>c. (0, c)) ?hc = (hc', Inr tx)" "clocks hc' t"
    "tick_outputs t = tick_outputs ?s @ [(unat (tx_physical tx), unat (tx_logical tx))]" by blast
  with s t have "hlc_inv ?s \<and> clocks ?hc ?s \<and> wall_clock ?s = 0 \<and> tick_outputs ?s = [(1, 0)] \<and>
      hlc_next_state hlc_default ?s HlcTick = Some t \<and> tick (\<lambda>c. (0, c)) ?hc = (hc', Inr tx) \<and> clocks hc' t \<and>
      tick_outputs t = [(1, 0), (unat (tx_physical tx), unat (tx_logical tx))] \<and> tick_outputs t = [(1, 0), (1, 1)]"
    by simp
  then show ?thesis using conjunct1 [OF v] by blast
qed

end
