(* ===== verification/Writes_Model.thy ===== *)
theory Writes_Model
  imports Checker "HOL-Library.Sublist"
begin

text \<open>
  The model of serialised writers (\<open>ferratomic-verify/stateright/write_linearizability_model.rs\<close>): any number of writers share
  one lock, get an epoch under it, sync the log and publish; crashes before and after the sync, and recovery. A
  writer id out of range, on which the code would panic and which no enabled action has, gives no successor.
\<close>

section \<open>The model\<close>

definition WL_MAX_EPOCH :: nat where "WL_MAX_EPOCH = 3"
definition WL_MAX_PENDING :: nat where "WL_MAX_PENDING = 3"

datatype writer_lock = Free | Held nat

datatype crash_mode = Normal | Recovering

datatype pending_txn = Waiting | EpochAssigned nat | TxnFsynced nat | Done nat

record write_lin_state =
  committed_epochs :: "nat list"
  wl_current_epoch :: nat
  wl_lock :: writer_lock
  pending_txns :: "pending_txn list"
  wl_mode :: crash_mode
  wal_fsynced_epoch :: "nat option"

datatype write_lin_action =
  AcquireLock nat | AssignEpoch nat | WlFsyncWal nat | ReleaseLock nat | WlCrashBeforeFsync | WlCrashAfterFsync | WlRecover

definition last_or_0 :: "nat list \<Rightarrow> nat" where
  "last_or_0 es = (if es = [] then 0 else last es)"

definition apply_acquire_lock :: "write_lin_state \<Rightarrow> nat \<Rightarrow> write_lin_state option" where
  "apply_acquire_lock s i =
     (if wl_lock s \<noteq> Free \<or> wl_mode s \<noteq> Normal \<or> i \<ge> length (pending_txns s) \<or> pending_txns s ! i \<noteq> Waiting then None
      else Some (s\<lparr>wl_lock := Held i\<rparr>))"

definition apply_assign_epoch :: "write_lin_state \<Rightarrow> nat \<Rightarrow> write_lin_state option" where
  "apply_assign_epoch s i =
     (if wl_lock s \<noteq> Held i \<or> i \<ge> length (pending_txns s) \<or> pending_txns s ! i \<noteq> Waiting then None
      else if wl_current_epoch s > WL_MAX_EPOCH then None
      else let ep = wl_current_epoch s
           in Some (s\<lparr>pending_txns := (pending_txns s)[i := EpochAssigned ep], wl_current_epoch := ep + 1\<rparr>))"

definition apply_fsync_wal :: "write_lin_state \<Rightarrow> nat \<Rightarrow> write_lin_state option" where
  "apply_fsync_wal s i =
     (if i \<ge> length (pending_txns s) then None
      else case pending_txns s ! i of
        EpochAssigned ep \<Rightarrow> Some (s\<lparr>pending_txns := (pending_txns s)[i := TxnFsynced ep], wal_fsynced_epoch := Some ep\<rparr>)
      | _ \<Rightarrow> None)"

definition apply_release_lock :: "write_lin_state \<Rightarrow> nat \<Rightarrow> write_lin_state option" where
  "apply_release_lock s i =
     (if wl_lock s \<noteq> Held i \<or> i \<ge> length (pending_txns s) then None
      else case pending_txns s ! i of
        TxnFsynced ep \<Rightarrow> Some (s\<lparr>committed_epochs := committed_epochs s @ [ep], pending_txns := (pending_txns s)[i := Done ep],
          wl_lock := Free, wal_fsynced_epoch := None\<rparr>)
      | _ \<Rightarrow> None)"

fun reset_txn :: "bool \<Rightarrow> pending_txn \<Rightarrow> pending_txn" where
  "reset_txn _ (EpochAssigned _) = Waiting"
| "reset_txn reset_fsynced (TxnFsynced ep) = (if reset_fsynced then Waiting else TxnFsynced ep)"
| "reset_txn _ t = t"

definition reset_inflight_txns :: "pending_txn list \<Rightarrow> bool \<Rightarrow> pending_txn list" where
  "reset_inflight_txns pending reset_fsynced = map (reset_txn reset_fsynced) pending"

definition apply_crash_before_fsync :: "write_lin_state \<Rightarrow> write_lin_state" where
  "apply_crash_before_fsync s = s\<lparr>wl_lock := Free, wal_fsynced_epoch := None,
     pending_txns := reset_inflight_txns (pending_txns s) False, wl_mode := Recovering\<rparr>"

definition apply_crash_after_fsync :: "write_lin_state \<Rightarrow> write_lin_state" where
  "apply_crash_after_fsync s = s\<lparr>wl_lock := Free, pending_txns := reset_inflight_txns (pending_txns s) True, wl_mode := Recovering\<rparr>"

definition apply_recover :: "write_lin_state \<Rightarrow> write_lin_state option" where
  "apply_recover s =
     (if wl_mode s \<noteq> Recovering then None
      else let committed = (case wal_fsynced_epoch s of
                 None \<Rightarrow> committed_epochs s
               | Some ep \<Rightarrow> if ep > last_or_0 (committed_epochs s) then committed_epochs s @ [ep] else committed_epochs s);
               current = (if wl_current_epoch s \<le> last_or_0 committed then last_or_0 committed + 1 else wl_current_epoch s)
           in Some (s\<lparr>wal_fsynced_epoch := None, committed_epochs := committed, wl_current_epoch := current, wl_mode := Normal\<rparr>))"

definition wl_init_states :: "nat \<Rightarrow> write_lin_state list" where
  "wl_init_states writer_count = [\<lparr>committed_epochs = [], wl_current_epoch = 1, wl_lock = Free,
     pending_txns = replicate writer_count Waiting, wl_mode = Normal, wal_fsynced_epoch = None\<rparr>]"

definition writer_actions :: "write_lin_state \<Rightarrow> nat \<Rightarrow> write_lin_action list" where
  "writer_actions s i = (case pending_txns s ! i of
     Waiting \<Rightarrow> if wl_lock s = Free then [AcquireLock i] else []
   | EpochAssigned _ \<Rightarrow> [WlFsyncWal i, WlCrashBeforeFsync]
   | TxnFsynced _ \<Rightarrow> [ReleaseLock i, WlCrashAfterFsync]
   | Done _ \<Rightarrow> [])"

definition wl_actions :: "write_lin_state \<Rightarrow> write_lin_action list" where
  "wl_actions s = (case wl_mode s of
     Recovering \<Rightarrow> [WlRecover]
   | Normal \<Rightarrow> concat (map (writer_actions s) [0..<length (pending_txns s)]) @
       (case wl_lock s of
          Held holder \<Rightarrow> if pending_txns s ! holder = Waiting then [AssignEpoch holder] else []
        | Free \<Rightarrow> []))"

fun wl_next_state :: "write_lin_state \<Rightarrow> write_lin_action \<Rightarrow> write_lin_state option" where
  "wl_next_state s (AcquireLock i) = apply_acquire_lock s i"
| "wl_next_state s (AssignEpoch i) = apply_assign_epoch s i"
| "wl_next_state s (WlFsyncWal i) = apply_fsync_wal s i"
| "wl_next_state s (ReleaseLock i) = apply_release_lock s i"
| "wl_next_state s WlCrashBeforeFsync = Some (apply_crash_before_fsync s)"
| "wl_next_state s WlCrashAfterFsync = Some (apply_crash_after_fsync s)"
| "wl_next_state s WlRecover = apply_recover s"

definition wl_within_boundary :: "write_lin_state \<Rightarrow> bool" where
  "wl_within_boundary s \<longleftrightarrow> wl_current_epoch s \<le> WL_MAX_EPOCH + 1 \<and> length (committed_epochs s) \<le> WL_MAX_EPOCH \<and>
     length (pending_txns s) \<le> WL_MAX_PENDING"

definition wl_model :: "nat \<Rightarrow> (write_lin_state, write_lin_action) model" where
  "wl_model writer_count = \<lparr>init_states = wl_init_states writer_count, actions = wl_actions, next_state = wl_next_state,
     within_boundary = wl_within_boundary\<rparr>"

definition wl_properties :: "write_lin_state expectation list" where
  "wl_properties =
     [Always ''inv_ferr_007_epoch_strict_monotonicity'' (\<lambda>s. windows_lt (committed_epochs s)),
      Always ''inv_ferr_007_recovery_epoch_monotonicity'' (\<lambda>s. wl_current_epoch s > last_or_0 (committed_epochs s)),
      Sometimes ''inv_ferr_007_at_least_one_commit'' (\<lambda>s. committed_epochs s \<noteq> [])]"

section \<open>Invariant\<close>

text \<open>An epoch that may still be published: new, and already assigned.\<close>

definition fresh_epoch :: "write_lin_state \<Rightarrow> nat \<Rightarrow> bool" where
  "fresh_epoch s ep \<longleftrightarrow> ep < wl_current_epoch s \<and> 0 < ep \<and> (\<forall>c \<in> set (committed_epochs s). c < ep)"

text \<open>What a writer's state promises: in flight is only the holder of the lock, and what is done is committed.\<close>

fun txn_ok :: "write_lin_state \<Rightarrow> nat \<Rightarrow> pending_txn \<Rightarrow> bool" where
  "txn_ok s i Waiting = True"
| "txn_ok s i (EpochAssigned ep) = (wl_mode s = Normal \<and> wl_lock s = Held i \<and> fresh_epoch s ep)"
| "txn_ok s i (TxnFsynced ep) = (wl_mode s = Normal \<and> wl_lock s = Held i \<and> wal_fsynced_epoch s = Some ep)"
| "txn_ok s i (Done ep) = (ep \<in> set (committed_epochs s))"

definition epochs_ok :: "write_lin_state \<Rightarrow> bool" where
  "epochs_ok s \<longleftrightarrow> strict_sorted (committed_epochs s) \<and> (\<forall>c \<in> set (committed_epochs s). c < wl_current_epoch s) \<and> 0 < wl_current_epoch s"

definition wl_inv :: "write_lin_state \<Rightarrow> bool" where
  "wl_inv s \<longleftrightarrow> epochs_ok s \<and> (\<forall>i < length (pending_txns s). txn_ok s i (pending_txns s ! i)) \<and>
     (\<forall>ep. wal_fsynced_epoch s = Some ep \<longrightarrow> fresh_epoch s ep)"

lemma wl_invI:
  assumes "epochs_ok s" "\<And>i. i < length (pending_txns s) \<Longrightarrow> txn_ok s i (pending_txns s ! i)"
    "\<And>ep. wal_fsynced_epoch s = Some ep \<Longrightarrow> fresh_epoch s ep"
  shows "wl_inv s"
  using assms by (simp add: wl_inv_def)

lemma wl_invD:
  assumes "wl_inv s"
  shows "epochs_ok s" "i < length (pending_txns s) \<Longrightarrow> txn_ok s i (pending_txns s ! i)"
    "wal_fsynced_epoch s = Some ep \<Longrightarrow> fresh_epoch s ep"
  using assms by (simp_all add: wl_inv_def)

lemma last_or_0_less: "(\<forall>c \<in> set es. c < n) \<Longrightarrow> 0 < n \<Longrightarrow> last_or_0 es < n"
  by (simp add: last_or_0_def)

lemma epochs_ok_push: "epochs_ok s \<Longrightarrow> fresh_epoch s ep \<Longrightarrow> epochs_ok (s\<lparr>committed_epochs := committed_epochs s @ [ep]\<rparr>)"
  by (auto simp: epochs_ok_def fresh_epoch_def sorted_wrt_append)

text \<open>With the lock elsewhere, a writer is waiting or done.\<close>

lemma txn_idle:
  assumes "txn_ok s i t" "wl_lock s \<noteq> Held i \<or> wl_mode s \<noteq> Normal"
  shows "t = Waiting \<or> (\<exists>ep. t = Done ep \<and> ep \<in> set (committed_epochs s))"
  using assms by (cases t) auto

lemma wl_inv_acquire:
  assumes "wl_inv s" "apply_acquire_lock s j = Some t"
  shows "wl_inv t"
proof -
  have t: "t = s\<lparr>wl_lock := Held j\<rparr>" and free: "wl_lock s = Free" using assms(2) by (auto simp: apply_acquire_lock_def split: if_splits)
  show ?thesis
  proof (rule wl_invI)
    fix i assume i: "i < length (pending_txns t)"
    then show "txn_ok t i (pending_txns t ! i)" using txn_idle [OF wl_invD(2) [OF assms(1)], of i] free by (auto simp: t)
  qed (use wl_invD [OF assms(1)] in \<open>simp_all add: t epochs_ok_def fresh_epoch_def\<close>)
qed

lemma wl_inv_assign:
  assumes "wl_inv s" "wl_mode s = Normal" "apply_assign_epoch s j = Some t"
  shows "wl_inv t"
proof -
  let ?ep = "wl_current_epoch s"
  have t: "t = s\<lparr>pending_txns := (pending_txns s)[j := EpochAssigned ?ep], wl_current_epoch := ?ep + 1\<rparr>"
    and lock: "wl_lock s = Held j" using assms(3) by (auto simp: apply_assign_epoch_def Let_def split: if_splits)
  have ok: "epochs_ok s" by (rule wl_invD(1) [OF assms(1)])
  have fresh: "fresh_epoch t ?ep" using ok by (auto simp: t fresh_epoch_def epochs_ok_def)
  have keep: "fresh_epoch t ep" if "fresh_epoch s ep" for ep using that by (auto simp: t fresh_epoch_def)
  show ?thesis
  proof (rule wl_invI)
    show "epochs_ok t" using ok by (auto simp: t epochs_ok_def less_Suc_eq)
    fix i assume i: "i < length (pending_txns t)"
    show "txn_ok t i (pending_txns t ! i)"
    proof (cases "i = j")
      case False
      then show ?thesis using txn_idle [OF wl_invD(2) [OF assms(1)], of i] i lock by (auto simp: t)
    qed (use i fresh assms(2) lock in \<open>simp add: t\<close>)
  qed (use wl_invD(3) [OF assms(1)] keep in \<open>simp add: t\<close>)
qed

lemma wl_inv_fsync:
  assumes "wl_inv s" "apply_fsync_wal s j = Some t"
  shows "wl_inv t"
proof -
  obtain ep where j: "j < length (pending_txns s)" "pending_txns s ! j = EpochAssigned ep"
    and t: "t = s\<lparr>pending_txns := (pending_txns s)[j := TxnFsynced ep], wal_fsynced_epoch := Some ep\<rparr>"
    using assms(2) by (auto simp: apply_fsync_wal_def split: if_splits pending_txn.splits)
  have lock: "wl_mode s = Normal" "wl_lock s = Held j" "fresh_epoch s ep" using wl_invD(2) [OF assms(1) j(1)] j(2) by simp_all
  show ?thesis
  proof (rule wl_invI)
    fix i assume i: "i < length (pending_txns t)"
    show "txn_ok t i (pending_txns t ! i)"
    proof (cases "i = j")
      case False
      then show ?thesis using txn_idle [OF wl_invD(2) [OF assms(1)], of i] i lock by (auto simp: t)
    qed (use i lock in \<open>simp add: t\<close>)
  qed (use wl_invD(1) [OF assms(1)] lock in \<open>simp_all add: t epochs_ok_def fresh_epoch_def\<close>)
qed

lemma wl_inv_release:
  assumes "wl_inv s" "apply_release_lock s j = Some t"
  shows "wl_inv t"
proof -
  obtain ep where j: "j < length (pending_txns s)" "pending_txns s ! j = TxnFsynced ep" "wl_lock s = Held j"
    and t: "t = s\<lparr>committed_epochs := committed_epochs s @ [ep], pending_txns := (pending_txns s)[j := Done ep],
          wl_lock := Free, wal_fsynced_epoch := None\<rparr>"
    using assms(2) by (auto simp: apply_release_lock_def split: if_splits pending_txn.splits)
  have fresh: "fresh_epoch s ep" using wl_invD(2) [OF assms(1) j(1)] wl_invD(3) [OF assms(1)] j(2) by simp
  show ?thesis
  proof (rule wl_invI)
    show "epochs_ok t" using epochs_ok_push [OF wl_invD(1) [OF assms(1)] fresh] by (simp add: t epochs_ok_def)
    fix i assume i: "i < length (pending_txns t)"
    show "txn_ok t i (pending_txns t ! i)"
    proof (cases "i = j")
      case False
      then show ?thesis using txn_idle [OF wl_invD(2) [OF assms(1)], of i] i j(3) by (auto simp: t)
    qed (use i in \<open>simp add: t\<close>)
  qed (simp add: t)
qed

text \<open>A crash leaves nobody in flight.\<close>

lemma reset_txn_idle: "reset_txn True t = Waiting \<or> (\<exists>ep. t = Done ep \<and> reset_txn True t = t)"
  by (cases t) auto

lemma wl_inv_crash_before:
  assumes "wl_inv s" "j < length (pending_txns s)" "pending_txns s ! j = EpochAssigned ep"
  shows "wl_inv (apply_crash_before_fsync s)"
proof (rule wl_invI)
  have lock: "wl_lock s = Held j" using wl_invD(2) [OF assms(1,2)] assms(3) by simp
  fix i assume i: "i < length (pending_txns (apply_crash_before_fsync s))"
  then show "txn_ok (apply_crash_before_fsync s) i (pending_txns (apply_crash_before_fsync s) ! i)"
    using txn_idle [OF wl_invD(2) [OF assms(1)], of i] lock assms(3)
    by (cases "i = j") (auto simp: apply_crash_before_fsync_def reset_inflight_txns_def)
qed (use wl_invD(1) [OF assms(1)] in \<open>simp_all add: apply_crash_before_fsync_def epochs_ok_def fresh_epoch_def\<close>)

lemma wl_inv_crash_after:
  assumes "wl_inv s"
  shows "wl_inv (apply_crash_after_fsync s)"
proof (rule wl_invI)
  fix i assume "i < length (pending_txns (apply_crash_after_fsync s))"
  then show "txn_ok (apply_crash_after_fsync s) i (pending_txns (apply_crash_after_fsync s) ! i)"
    using wl_invD(2) [OF assms, of i] reset_txn_idle [of "pending_txns s ! i"]
    by (auto simp: apply_crash_after_fsync_def reset_inflight_txns_def)
qed (use wl_invD [OF assms] in \<open>simp_all add: apply_crash_after_fsync_def epochs_ok_def fresh_epoch_def\<close>)

lemma wl_recovered:
  assumes "wl_inv s" "apply_recover s = Some t"
  shows "t = s\<lparr>wal_fsynced_epoch := None, wl_mode := Normal,
    committed_epochs := committed_epochs s @ (case wal_fsynced_epoch s of None \<Rightarrow> [] | Some ep \<Rightarrow> [ep])\<rparr>"
proof (cases "wal_fsynced_epoch s")
  case None
  have "last_or_0 (committed_epochs s) < wl_current_epoch s" using wl_invD(1) [OF assms(1)] by (intro last_or_0_less) (simp_all add: epochs_ok_def)
  then show ?thesis using assms(2) None by (auto simp: apply_recover_def Let_def split: if_splits)
next
  case (Some ep)
  have fresh: "fresh_epoch s ep" by (rule wl_invD(3) [OF assms(1) Some])
  then have "last_or_0 (committed_epochs s) < ep" by (intro last_or_0_less) (simp_all add: fresh_epoch_def)
  moreover have "\<not> wl_current_epoch s \<le> last_or_0 (committed_epochs s @ [ep])" using fresh by (simp add: last_or_0_def fresh_epoch_def)
  ultimately show ?thesis using assms(2) Some by (auto simp: apply_recover_def Let_def split: if_splits)
qed

lemma wl_inv_recover:
  assumes "wl_inv s" "apply_recover s = Some t"
  shows "wl_inv t"
proof (rule wl_invI)
  note t = wl_recovered [OF assms]
  have mode: "wl_mode s \<noteq> Normal" using assms(2) by (auto simp: apply_recover_def split: if_splits)
  show "epochs_ok t"
    using epochs_ok_push [OF wl_invD(1) [OF assms(1)]] wl_invD(1,3) [OF assms(1)]
    by (cases "wal_fsynced_epoch s") (simp_all add: t epochs_ok_def)
  fix i assume "i < length (pending_txns t)"
  then show "txn_ok t i (pending_txns t ! i)" using txn_idle [OF wl_invD(2) [OF assms(1)], of i] mode by (auto simp: t)
qed (use wl_recovered [OF assms] in simp)

lemma wl_enabled:
  "AssignEpoch i \<in> set (wl_actions s) \<Longrightarrow> wl_mode s = Normal"
  "WlCrashBeforeFsync \<in> set (wl_actions s) \<Longrightarrow> \<exists>j ep. j < length (pending_txns s) \<and> pending_txns s ! j = EpochAssigned ep"
proof -
  show "AssignEpoch i \<in> set (wl_actions s) \<Longrightarrow> wl_mode s = Normal" by (simp add: wl_actions_def split: crash_mode.splits)
  assume "WlCrashBeforeFsync \<in> set (wl_actions s)"
  then obtain j where "j < length (pending_txns s)" "WlCrashBeforeFsync \<in> set (writer_actions s j)"
    by (auto simp: wl_actions_def split: crash_mode.splits writer_lock.splits if_splits)
  then show "\<exists>j ep. j < length (pending_txns s) \<and> pending_txns s ! j = EpochAssigned ep"
    by (cases "pending_txns s ! j") (auto simp: writer_actions_def split: if_splits)
qed

interpretation wl: model_invariant "wl_model n" wl_inv for n
proof
  show "wl_inv s" if "s \<in> set (init_states (wl_model n))" for s
    using that by (simp add: wl_model_def wl_init_states_def wl_inv_def epochs_ok_def)
  show "wl_inv t" if "wl_inv s" "a \<in> set (actions (wl_model n) s)" "next_state (wl_model n) s a = Some t" for s a t
    using that wl_enabled(1) [of _ s] wl_enabled(2) [of s] wl_inv_crash_before [of s]
    by (cases a) (auto simp: wl_model_def intro: wl_inv_acquire wl_inv_assign wl_inv_fsync wl_inv_release
        wl_inv_crash_after wl_inv_recover)
qed

lemmas wl_steps = apply_acquire_lock_def apply_assign_epoch_def apply_fsync_wal_def apply_release_lock_def
  apply_crash_before_fsync_def apply_crash_after_fsync_def apply_recover_def

lemma wl_one_write:
  assumes "1 \<le> n" "n \<le> WL_MAX_PENDING"
  shows "\<exists>t. follow (wl_model n) [AcquireLock 0, AssignEpoch 0, WlFsyncWal 0, ReleaseLock 0] (hd (wl_init_states n)) = Some t \<and>
    committed_epochs t = [1]"
proof -
  obtain k where n: "n = Suc k" using assms(1) by (cases n) auto
  have up: "[0..<Suc k] = 0 # [Suc 0..<Suc k]" by (simp add: upt_conv_Cons del: upt_Suc)
  show ?thesis using assms(2)
    by (simp add: n up wl_model_def wl_init_states_def wl_actions_def writer_actions_def wl_steps wl_within_boundary_def WL_MAX_EPOCH_def Let_def
        del: upt_Suc)
qed

text \<open>Without writers nothing happens; with too many the initial state is outside the boundary and the search is empty.\<close>

lemma wl_no_commit:
  assumes "n = 0 \<or> WL_MAX_PENDING < n" "explored (wl_model n) s"
  shows "committed_epochs s = []"
proof -
  have "n = 0" using assms by (auto simp: explored_def wl_model_def wl_init_states_def wl_within_boundary_def)
  have "pending_txns s = [] \<and> wl_lock s = Free \<and> wl_mode s = Normal \<and> committed_epochs s = []"
    using explored_run [OF assms(2)]
    by (induction rule: model_run.induct) (auto simp: \<open>n = 0\<close> wl_model_def wl_init_states_def wl_actions_def)
  then show ?thesis by blast
qed

text \<open>C23 Writes are linearizable in the model. The model passes its check with one to three writers and only then: with more
  its initial state lies outside its boundary, so that no commit is found. What the check is meant to show holds in every
  state that is reachable with any number of writers, beyond the boundary too, and with any crashes: the published epochs
  strictly increase and stay below the next epoch; at most one writer is between its epoch and its publication; every
  published epoch stays published, in its place; and a crash after the sync followed by recovery publishes exactly the
  synced epoch, which is larger than all before.\<close>

theorem writes_model_verified:
  "(verdict (wl_model writer_count) wl_properties \<longleftrightarrow> 1 \<le> writer_count \<and> writer_count \<le> WL_MAX_PENDING) \<and>
    (\<forall>n s. model_run (wl_model n) s \<longrightarrow>
      sorted_wrt (<) (committed_epochs s) \<and> (\<forall>ep \<in> set (committed_epochs s). ep < wl_current_epoch s) \<and>
      (\<forall>i j x y. i < length (pending_txns s) \<longrightarrow> j < length (pending_txns s) \<longrightarrow>
         pending_txns s ! i \<in> {EpochAssigned x, TxnFsynced x} \<longrightarrow> pending_txns s ! j \<in> {EpochAssigned y, TxnFsynced y} \<longrightarrow> i = j) \<and>
      (\<forall>i ep. i < length (pending_txns s) \<longrightarrow> pending_txns s ! i = Done ep \<longrightarrow> ep \<in> set (committed_epochs s)) \<and>
      (\<forall>a t. wl_next_state s a = Some t \<longrightarrow> prefix (committed_epochs s) (committed_epochs t)) \<and>
      (\<forall>ep t. wal_fsynced_epoch s = Some ep \<longrightarrow> apply_recover (apply_crash_after_fsync s) = Some t \<longrightarrow>
         committed_epochs t = committed_epochs s @ [ep] \<and> (\<forall>c \<in> set (committed_epochs s). c < ep)))"
proof -
  have "verdict (wl_model writer_count) wl_properties" if n: "1 \<le> writer_count" "writer_count \<le> WL_MAX_PENDING"
  proof -
    let ?i = "hd (wl_init_states writer_count)" and ?as = "[AcquireLock 0, AssignEpoch 0, WlFsyncWal 0, ReleaseLock 0]"
    have i: "?i \<in> set (init_states (wl_model writer_count))" "within_boundary (wl_model writer_count) ?i"
      using n(2) by (simp_all add: wl_model_def wl_init_states_def wl_within_boundary_def WL_MAX_EPOCH_def)
    obtain t where t: "follow (wl_model writer_count) ?as ?i = Some t" "committed_epochs t = [1]"
      using wl_one_write [OF n] by blast
    have "meets (wl_model writer_count) (Sometimes n P)" if "P t" for n P
      using sometimes [of ?i "wl_model writer_count", OF i t(1)] that by blast
    then show ?thesis
      using t(2) wl_invD(1) unfolding verdict_def wl_properties_def
      by (auto simp: epochs_ok_def windows_lt_iff last_or_0_less simp del: meets.simps intro!: wl.always)
  qed
  moreover have "1 \<le> writer_count \<and> writer_count \<le> WL_MAX_PENDING" if "verdict (wl_model writer_count) wl_properties"
  proof (rule ccontr)
    assume "\<not> (1 \<le> writer_count \<and> writer_count \<le> WL_MAX_PENDING)"
    then have "writer_count = 0 \<or> WL_MAX_PENDING < writer_count" by linarith
    from wl_no_commit [OF this] that show False by (auto simp: verdict_def wl_properties_def)
  qed
  moreover have "sorted_wrt (<) (committed_epochs s) \<and> (\<forall>ep \<in> set (committed_epochs s). ep < wl_current_epoch s)" if "wl_inv s" for s
    using wl_invD(1) [OF that] by (simp add: epochs_ok_def)
  moreover have "i = j" if "wl_inv s" "i < length (pending_txns s)" "j < length (pending_txns s)"
    "pending_txns s ! i \<in> {EpochAssigned x, TxnFsynced x}" "pending_txns s ! j \<in> {EpochAssigned y, TxnFsynced y}" for s i j x y
    using wl_invD(2) [OF that(1,2)] wl_invD(2) [OF that(1,3)] that(4,5) by auto
  moreover have "ep \<in> set (committed_epochs s)" if "wl_inv s" "i < length (pending_txns s)" "pending_txns s ! i = Done ep" for s i ep
    using wl_invD(2) [OF that(1,2)] that(3) by simp
  moreover have "prefix (committed_epochs s) (committed_epochs t)" if "wl_next_state s a = Some t" for s a t
    using that by (cases a) (auto simp: wl_steps Let_def split: if_splits option.splits pending_txn.splits)
  moreover have "committed_epochs t = committed_epochs s @ [ep] \<and> (\<forall>c \<in> set (committed_epochs s). c < ep)"
    if "wl_inv s" "wal_fsynced_epoch s = Some ep" "apply_recover (apply_crash_after_fsync s) = Some t" for s ep t
    using wl_recovered [OF wl_inv_crash_after [OF that(1)] that(3)] wl_invD(3) [OF that(1,2)] that(2)
    by (simp add: apply_crash_after_fsync_def fresh_epoch_def)
  ultimately show ?thesis using wl.run_inv by blast
qed

text \<open>Four writers, of whom one has written: no check by the model, but its epoch is below the next one.\<close>

theorem writes_model_verified_witness:
  "\<exists>t. verdict (wl_model 3) wl_properties \<and> \<not> verdict (wl_model 4) wl_properties \<and> model_run (wl_model 4) t \<and>
     committed_epochs t = [1] \<and> 1 < wl_current_epoch t"
proof -
  let ?s = "\<lambda>es ep l ts w. \<lparr>committed_epochs = es, wl_current_epoch = ep, wl_lock = l, pending_txns = ts, wl_mode = Normal, wal_fsynced_epoch = w\<rparr>"
  let ?t = "?s [1] 2 Free [Done 1, Waiting, Waiting, Waiting] None"
  note w = wl_model_def wl_init_states_def wl_actions_def writer_actions_def wl_steps WL_MAX_EPOCH_def Let_def numeral_eq_Suc
  have 0: "model_run (wl_model 4) (?s [] 1 Free [Waiting, Waiting, Waiting, Waiting] None)" by (rule run_init) (simp add: w)
  have 1: "model_run (wl_model 4) (?s [] 1 (Held 0) [Waiting, Waiting, Waiting, Waiting] None)"
    by (rule run_step [OF 0, where a = "AcquireLock 0"]) (simp_all add: w)
  have 2: "model_run (wl_model 4) (?s [] 2 (Held 0) [EpochAssigned 1, Waiting, Waiting, Waiting] None)"
    by (rule run_step [OF 1, where a = "AssignEpoch 0"]) (simp_all add: w)
  have 3: "model_run (wl_model 4) (?s [] 2 (Held 0) [TxnFsynced 1, Waiting, Waiting, Waiting] (Some 1))"
    by (rule run_step [OF 2, where a = "WlFsyncWal 0"]) (simp_all add: w)
  have 4: "model_run (wl_model 4) ?t"
    by (rule run_step [OF 3, where a = "ReleaseLock 0"]) (simp_all add: w)
  have "\<forall>ep \<in> set (committed_epochs ?t). ep < wl_current_epoch ?t"
    using conjunct2 [OF writes_model_verified, rule_format, OF 4] by blast
  moreover have "verdict (wl_model 3) wl_properties" "\<not> verdict (wl_model 4) wl_properties"
    using conjunct1 [OF writes_model_verified] by (simp_all add: WL_MAX_PENDING_def)
  ultimately show ?thesis using 4 by (intro exI [of _ ?t]) simp
qed

end
