(* ===== verification/Crash_Model.thy ===== *)
theory Crash_Model
  imports Crdt_Model
begin

text \<open>
  The crash-recovery model (\<open>ferratomic-verify/stateright/crash_recovery_model.rs\<close>): one writer that prepares a datom, syncs
  the log, and publishes, with crashes in every phase and recovery from the published store and the log. The theorem
  adds to the model's own properties what the log contains: recovery gives exactly the log.
\<close>

section \<open>The model\<close>

datatype phase =
    PhIdle
  | PhWriting "model_datom set"
  | PhFsynced "model_datom set"
  | PhCrashed bool "model_datom set"
  | PhRecovering
  | PhRecovered

record crash_recovery_state =
  cr_phase :: phase
  committed_store :: "model_datom set"
  recovered_store :: "model_datom set"
  cr_wal :: "model_datom set"
  index_set :: "model_datom set"
  cr_committed_count :: nat

datatype crash_recovery_action =
  BeginWrite model_datom | FsyncWal | CommitWrite | CrashBeforeFsync | CrashAfterFsync | CrashIdle | Recover

record crash_recovery_params =
  cr_max_datoms :: nat
  cr_max_commits :: nat

definition cr_default :: crash_recovery_params where
  "cr_default = \<lparr>cr_max_datoms = 3, cr_max_commits = 3\<rparr>"

definition generate_write_actions :: "nat \<Rightarrow> nat \<Rightarrow> crash_recovery_state \<Rightarrow> crash_recovery_action list" where
  "generate_write_actions datoms commits s =
     (if cr_committed_count s < commits
      then map BeginWrite (filter (\<lambda>d. d \<notin> committed_store s) (map from_seed [0..<datoms]))
      else [])"

definition apply_fsync_wal_transition :: "crash_recovery_state \<Rightarrow> crash_recovery_state option" where
  "apply_fsync_wal_transition s = (case cr_phase s of
     PhWriting pending \<Rightarrow> Some (s\<lparr>cr_wal := cr_wal s \<union> pending, cr_phase := PhFsynced pending\<rparr>)
   | _ \<Rightarrow> None)"

definition apply_commit_transition :: "crash_recovery_state \<Rightarrow> crash_recovery_state option" where
  "apply_commit_transition s = (case cr_phase s of
     PhFsynced pending \<Rightarrow>
       (let committed = committed_store s \<union> pending
        in Some (s\<lparr>committed_store := committed, index_set := committed, cr_committed_count := cr_committed_count s + 1,
                   cr_phase := PhIdle\<rparr>))
   | _ \<Rightarrow> None)"

definition apply_recovery :: "crash_recovery_state \<Rightarrow> bool \<Rightarrow> model_datom set \<Rightarrow> crash_recovery_state" where
  "apply_recovery s fsynced pending =
     (let recovered = (if fsynced then committed_store s \<union> pending else committed_store s);
          s' = (if fsynced then s\<lparr>committed_store := recovered, cr_committed_count := cr_committed_count s + 1\<rparr> else s)
      in s'\<lparr>recovered_store := recovered, index_set := recovered, cr_phase := PhRecovered\<rparr>)"

definition cr_init_states :: "crash_recovery_state list" where
  "cr_init_states = [\<lparr>cr_phase = PhIdle, committed_store = {}, recovered_store = {}, cr_wal = {}, index_set = {}, cr_committed_count = 0\<rparr>]"

definition cr_actions :: "crash_recovery_params \<Rightarrow> crash_recovery_state \<Rightarrow> crash_recovery_action list" where
  "cr_actions p s = (case cr_phase s of
     PhIdle \<Rightarrow> generate_write_actions (cr_max_datoms p) (cr_max_commits p) s @ [CrashIdle]
   | PhWriting _ \<Rightarrow> [FsyncWal, CrashBeforeFsync]
   | PhFsynced _ \<Rightarrow> [CommitWrite, CrashAfterFsync]
   | PhCrashed _ _ \<Rightarrow> [Recover]
   | PhRecovering \<Rightarrow> []
   | PhRecovered \<Rightarrow> generate_write_actions (cr_max_datoms p) (cr_max_commits p) s @ [CrashIdle])"

fun cr_next_state :: "crash_recovery_state \<Rightarrow> crash_recovery_action \<Rightarrow> crash_recovery_state option" where
  "cr_next_state s (BeginWrite d) = (if cr_phase s \<in> {PhIdle, PhRecovered} then Some (s\<lparr>cr_phase := PhWriting {d}\<rparr>) else None)"
| "cr_next_state s FsyncWal = apply_fsync_wal_transition s"
| "cr_next_state s CommitWrite = apply_commit_transition s"
| "cr_next_state s CrashAfterFsync = (case cr_phase s of PhFsynced pending \<Rightarrow> Some (s\<lparr>cr_phase := PhCrashed True pending\<rparr>) | _ \<Rightarrow> None)"
| "cr_next_state s CrashBeforeFsync = (case cr_phase s of PhWriting pending \<Rightarrow> Some (s\<lparr>cr_phase := PhCrashed False pending\<rparr>) | _ \<Rightarrow> None)"
| "cr_next_state s CrashIdle = (if cr_phase s \<in> {PhIdle, PhRecovered} then Some (s\<lparr>cr_phase := PhCrashed False {}\<rparr>) else None)"
| "cr_next_state s Recover = (case cr_phase s of PhCrashed fsynced pending \<Rightarrow> Some (apply_recovery s fsynced pending) | _ \<Rightarrow> None)"

definition cr_within_boundary :: "crash_recovery_params \<Rightarrow> crash_recovery_state \<Rightarrow> bool" where
  "cr_within_boundary p s \<longleftrightarrow> cr_committed_count s \<le> cr_max_commits p"

definition cr_model :: "crash_recovery_params \<Rightarrow> (crash_recovery_state, crash_recovery_action) model" where
  "cr_model p = \<lparr>init_states = cr_init_states, actions = cr_actions p, next_state = cr_next_state, within_boundary = cr_within_boundary p\<rparr>"

definition cr_properties :: "crash_recovery_state expectation list" where
  "cr_properties =
     [Always ''inv_ferr_014_recovery_preserves_committed''
        (\<lambda>s. case cr_phase s of PhRecovered \<Rightarrow> committed_store s \<subseteq> recovered_store s | _ \<Rightarrow> True),
      Always ''inv_ferr_014_no_phantom_datoms''
        (\<lambda>s. case cr_phase s of PhRecovered \<Rightarrow> recovered_store s \<subseteq> committed_store s | _ \<Rightarrow> True),
      Always ''inv_ferr_014_recovery_idempotent''
        (\<lambda>s. case cr_phase s of PhRecovered \<Rightarrow> recovered_store s = committed_store s | _ \<Rightarrow> True),
      Sometimes ''inv_ferr_014_recovery_reachable'' (\<lambda>s. cr_phase s = PhRecovered),
      Sometimes ''inv_ferr_014_write_crash_recovery_reachable'' (\<lambda>s. cr_phase s = PhRecovered \<and> committed_store s \<noteq> {}),
      Sometimes ''inv_ferr_014_crash_after_fsync_reachable'' (\<lambda>s. case cr_phase s of PhCrashed fsynced _ \<Rightarrow> fsynced | _ \<Rightarrow> False),
      Always ''inv_ferr_005_index_bijection''
        (\<lambda>s. case cr_phase s of PhIdle \<Rightarrow> committed_store s = index_set s | PhRecovered \<Rightarrow> committed_store s = index_set s | _ \<Rightarrow> True),
      Always ''inv_ferr_008_no_unfsynced_in_recovery''
        (\<lambda>s. case cr_phase s of PhCrashed False pending \<Rightarrow> \<forall>d \<in> pending. d \<notin> cr_wal s | _ \<Rightarrow> True),
      Always ''inv_ferr_008_fsynced_pending_in_wal''
        (\<lambda>s. case cr_phase s of PhCrashed True pending \<Rightarrow> \<forall>d \<in> pending. d \<in> cr_wal s | _ \<Rightarrow> True),
      Always ''inv_ferr_013_checkpoint_equivalence''
        (\<lambda>s. case cr_phase s of PhRecovered \<Rightarrow> recovered_store s = committed_store s | _ \<Rightarrow> True),
      Always ''inv_ferr_018_append_only_recovery''
        (\<lambda>s. case cr_phase s of PhRecovered \<Rightarrow> committed_store s \<subseteq> recovered_store s | _ \<Rightarrow> True)]"

section \<open>Invariant\<close>

text \<open>The log is what is published plus what is synced; what is not synced is not published.\<close>

fun phase_ok :: "phase \<Rightarrow> crash_recovery_state \<Rightarrow> bool" where
  "phase_ok PhIdle s \<longleftrightarrow> cr_wal s = committed_store s"
| "phase_ok (PhWriting pending) s \<longleftrightarrow> cr_wal s = committed_store s \<and> pending \<inter> committed_store s = {}"
| "phase_ok (PhFsynced pending) s \<longleftrightarrow> cr_wal s = committed_store s \<union> pending"
| "phase_ok (PhCrashed fsynced pending) s \<longleftrightarrow>
     (if fsynced then cr_wal s = committed_store s \<union> pending else cr_wal s = committed_store s \<and> pending \<inter> committed_store s = {})"
| "phase_ok PhRecovering s \<longleftrightarrow> False"
| "phase_ok PhRecovered s \<longleftrightarrow> cr_wal s = committed_store s \<and> recovered_store s = committed_store s"

definition cr_inv :: "crash_recovery_state \<Rightarrow> bool" where
  "cr_inv s \<longleftrightarrow> phase_ok (cr_phase s) s \<and> index_set s = committed_store s"

lemmas cr_steps = apply_fsync_wal_transition_def apply_commit_transition_def apply_recovery_def Let_def

interpretation cr: model_invariant "cr_model p" cr_inv for p
proof
  show "cr_inv s" if "s \<in> set (init_states (cr_model p))" for s
    using that by (simp add: cr_model_def cr_init_states_def cr_inv_def)
  show "cr_inv t" if "cr_inv s" "a \<in> set (actions (cr_model p) s)" "next_state (cr_model p) s a = Some t" for s a t
    using that
    by (cases a) (auto simp: cr_model_def cr_inv_def cr_steps cr_actions_def generate_write_actions_def split: phase.splits if_splits)
qed

section \<open>Recovery\<close>

lemma cr_write_crash:
  assumes "0 < cr_max_datoms p" "0 < cr_max_commits p"
  shows "\<exists>s t. follow (cr_model p) [BeginWrite (from_seed 0), FsyncWal, CrashAfterFsync] (hd cr_init_states) = Some s \<and>
    cr_phase s = PhCrashed True {from_seed 0} \<and>
    follow (cr_model p) [BeginWrite (from_seed 0), FsyncWal, CrashAfterFsync, Recover] (hd cr_init_states) = Some t \<and>
    cr_phase t = PhRecovered \<and> committed_store t = {from_seed 0}"
proof -
  obtain k where "cr_max_datoms p = Suc k" using assms(1) by (cases "cr_max_datoms p") auto
  then have "[0..<cr_max_datoms p] = 0 # [Suc 0..<cr_max_datoms p]" by (simp add: upt_conv_Cons del: upt_Suc)
  then show ?thesis using assms(2)
    by (simp add: cr_model_def cr_init_states_def cr_actions_def generate_write_actions_def cr_within_boundary_def cr_steps)
qed

lemma cr_recovers:
  assumes "cr_inv s" "cr_phase s = PhCrashed fsynced pending"
  shows "Recover \<in> set (cr_actions p s) \<and>
    (\<exists>t. cr_next_state s Recover = Some t \<and> recovered_store t = cr_wal s \<and> committed_store t = cr_wal s \<and>
      committed_store t = committed_store s \<union> (if fsynced then pending else {}) \<and> (pending \<subseteq> committed_store t \<longleftrightarrow> fsynced \<or> pending = {}))"
  using assms by (auto simp: cr_inv_def cr_steps cr_actions_def split: if_splits)

text \<open>C24 Recovery is correct in the crash model, for all bounds. The model passes its check; no step takes a datom out
  of the published store; recovery is enabled in every crashed state, gives exactly the synced log, keeps all that was
  published and adds the pending datoms exactly when they were synced; and recovering once more after a crash
  at rest changes nothing.\<close>

theorem crash_model_verified:
  assumes "0 < cr_max_datoms p" "0 < cr_max_commits p"
  shows "verdict (cr_model p) cr_properties \<and>
    (\<forall>s. model_run (cr_model p) s \<longrightarrow>
      (\<forall>a t. cr_next_state s a = Some t \<longrightarrow> committed_store s \<subseteq> committed_store t) \<and>
      (\<forall>fsynced pending. cr_phase s = PhCrashed fsynced pending \<longrightarrow> Recover \<in> set (cr_actions p s) \<and>
        (\<exists>t. cr_next_state s Recover = Some t \<and> recovered_store t = cr_wal s \<and> committed_store t = cr_wal s \<and>
          committed_store t = committed_store s \<union> (if fsynced then pending else {}) \<and> (pending \<subseteq> committed_store t \<longleftrightarrow> fsynced \<or> pending = {}))) \<and>
      (\<forall>t. cr_phase s = PhRecovered \<longrightarrow> Option.bind (cr_next_state s CrashIdle) (\<lambda>c. cr_next_state c Recover) = Some t \<longrightarrow> t = s))"
proof -
  let ?i = "hd cr_init_states"
  have i: "?i \<in> set (init_states (cr_model p))" "within_boundary (cr_model p) ?i"
    by (simp_all add: cr_model_def cr_init_states_def cr_within_boundary_def)
  obtain s t where s: "follow (cr_model p) [BeginWrite (from_seed 0), FsyncWal, CrashAfterFsync] ?i = Some s" "cr_phase s = PhCrashed True {from_seed 0}"
    and t: "follow (cr_model p) [BeginWrite (from_seed 0), FsyncWal, CrashAfterFsync, Recover] ?i = Some t" "cr_phase t = PhRecovered" "committed_store t = {from_seed 0}"
    using cr_write_crash [OF assms] by blast
  have some: "meets (cr_model p) (Sometimes n P)" if "P s \<or> P t" for n P
    using sometimes [OF i s(1)] sometimes [OF i t(1)] that by blast
  have "verdict (cr_model p) cr_properties"
    unfolding verdict_def cr_properties_def using s(2) t(2,3)
    by (auto simp: cr_inv_def simp del: meets.simps intro!: cr.always some split: phase.splits bool.splits)
  moreover have "committed_store s \<subseteq> committed_store t" if "cr_next_state s a = Some t" for s a t
    using that by (cases a) (auto simp: cr_steps split: phase.splits if_splits)
  moreover have "t = s" if "cr_inv s" "cr_phase s = PhRecovered" "Option.bind (cr_next_state s CrashIdle) (\<lambda>c. cr_next_state c Recover) = Some t" for s t
    using that by (cases s) (auto simp: cr_inv_def cr_steps)
  ultimately show ?thesis
    apply (intro conjI allI impI)
    subgoal .
    subgoal by blast
    subgoal using cr.run_inv cr_recovers by blast
    subgoal using cr.run_inv cr_recovers by blast
    subgoal using cr.run_inv by blast
    done
qed

theorem crash_model_verified_witness: "verdict (cr_model cr_default) cr_properties"
  by (rule crash_model_verified [THEN conjunct1]) (simp_all add: cr_default_def)

end
