(* ===== verification/Schema_Model.thy ===== *)
theory Schema_Model
  imports Checker
begin

text \<open>
  The schema validation model (\<open>ferratomic-verify/stateright/schema_validation_model.rs\<close>): one transaction at a time is filled with
  datoms under known and unknown attributes, and committed or rejected as a whole. Datom and attribute ids, of
  type \<open>u8\<close>, are naturals: the model only copies and compares them.
\<close>

section \<open>The model\<close>

record schema_validation_state =
  sv_store :: "nat set"
  valid_attributes :: "nat set"
  sv_pending :: "(nat \<times> nat) list"
  has_violation :: bool
  pre_transaction_store :: "nat set"
  sv_committed_count :: nat

datatype schema_action = AddValid nat nat | AddInvalid nat nat | SvCommit | NewTransaction

record schema_validation_params =
  sv_max_datoms :: nat
  valid_attrs :: "nat list"
  invalid_attrs :: "nat list"
  sv_max_commits :: nat
  sv_max_pending :: nat

definition schema_validation_default :: schema_validation_params where
  "schema_validation_default = \<lparr>sv_max_datoms = 3, valid_attrs = [0, 1], invalid_attrs = [2], sv_max_commits = 2, sv_max_pending = 2\<rparr>"

definition apply_add_valid :: "schema_validation_state \<Rightarrow> nat \<Rightarrow> nat \<Rightarrow> nat \<Rightarrow> schema_validation_state option" where
  "apply_add_valid s datom_id attribute_id max_pending =
     (if attribute_id \<notin> valid_attributes s then None
      else if length (sv_pending s) \<ge> max_pending then None
      else Some (s\<lparr>sv_pending := sv_pending s @ [(datom_id, attribute_id)]\<rparr>))"

definition apply_add_invalid :: "schema_validation_state \<Rightarrow> nat \<Rightarrow> nat \<Rightarrow> nat \<Rightarrow> schema_validation_state option" where
  "apply_add_invalid s datom_id attribute_id max_pending =
     (if attribute_id \<in> valid_attributes s then None
      else if length (sv_pending s) \<ge> max_pending then None
      else Some (s\<lparr>sv_pending := sv_pending s @ [(datom_id, attribute_id)], has_violation := True\<rparr>))"

definition apply_sv_commit :: "schema_validation_state \<Rightarrow> schema_validation_state option" where
  "apply_sv_commit s =
     (if sv_pending s = [] then None
      else let store = (if has_violation s then sv_store s else fold (\<lambda>(datom_id, _) st. insert datom_id st) (sv_pending s) (sv_store s))
           in Some (s\<lparr>sv_store := store, sv_pending := [], has_violation := False,
                      sv_committed_count := sv_committed_count s + 1, pre_transaction_store := store\<rparr>))"

definition apply_new_transaction :: "schema_validation_state \<Rightarrow> schema_validation_state" where
  "apply_new_transaction s = s\<lparr>sv_pending := [], has_violation := False, pre_transaction_store := sv_store s\<rparr>"

definition check_rejection_preserves_store :: "schema_validation_state \<Rightarrow> bool" where
  "check_rejection_preserves_store s = (if has_violation s then sv_store s = pre_transaction_store s else True)"

definition check_atomicity_no_partial :: "schema_validation_state \<Rightarrow> bool" where
  "check_atomicity_no_partial s =
     (if has_violation s
      then list_all (\<lambda>(datom_id, _). \<not> (datom_id \<in> sv_store s \<and> datom_id \<notin> pre_transaction_store s)) (sv_pending s)
      else True)"

definition sv_init_states :: "schema_validation_params \<Rightarrow> schema_validation_state list" where
  "sv_init_states p = [\<lparr>sv_store = {}, valid_attributes = set (valid_attrs p), sv_pending = [], has_violation = False,
     pre_transaction_store = {}, sv_committed_count = 0\<rparr>]"

definition sv_actions :: "schema_validation_params \<Rightarrow> schema_validation_state \<Rightarrow> schema_action list" where
  "sv_actions p s =
     (if length (sv_pending s) < sv_max_pending p
      then concat (map (\<lambda>datom_id. map (AddValid datom_id) (valid_attrs p) @ map (AddInvalid datom_id) (invalid_attrs p)) [0..<sv_max_datoms p])
      else []) @
     (if sv_pending s \<noteq> [] then [SvCommit] else []) @
     (if sv_pending s = [] \<and> sv_committed_count s < sv_max_commits p then [NewTransaction] else [])"

fun sv_next_state :: "schema_validation_params \<Rightarrow> schema_validation_state \<Rightarrow> schema_action \<Rightarrow> schema_validation_state option" where
  "sv_next_state p s (AddValid datom_id attr) = apply_add_valid s datom_id attr (sv_max_pending p)"
| "sv_next_state p s (AddInvalid datom_id attr) = apply_add_invalid s datom_id attr (sv_max_pending p)"
| "sv_next_state p s SvCommit = apply_sv_commit s"
| "sv_next_state p s NewTransaction = Some (apply_new_transaction s)"

definition sv_within_boundary :: "schema_validation_params \<Rightarrow> schema_validation_state \<Rightarrow> bool" where
  "sv_within_boundary p s \<longleftrightarrow> sv_committed_count s \<le> sv_max_commits p \<and> length (sv_pending s) \<le> sv_max_pending p"

definition sv_model :: "schema_validation_params \<Rightarrow> (schema_validation_state, schema_action) model" where
  "sv_model p = \<lparr>init_states = sv_init_states p, actions = sv_actions p, next_state = sv_next_state p, within_boundary = sv_within_boundary p\<rparr>"

definition sv_properties :: "schema_validation_state expectation list" where
  "sv_properties =
     [Always ''inv_ferr_009_rejection_preserves_store'' check_rejection_preserves_store,
      Always ''inv_ferr_009_atomicity_no_partial'' check_atomicity_no_partial,
      Sometimes ''inv_ferr_009_valid_transaction_accepted''
        (\<lambda>s. sv_committed_count s > 0 \<and> sv_store s \<noteq> {} \<and> sv_pending s = [] \<and> \<not> has_violation s)]"

section \<open>Invariant\<close>

text \<open>The flag says whether some pending attribute is unknown, and nothing pending has been stored.\<close>

definition sv_state_inv :: "schema_validation_params \<Rightarrow> schema_validation_state \<Rightarrow> bool" where
  "sv_state_inv p s \<longleftrightarrow> valid_attributes s = set (valid_attrs p) \<and> sv_store s = pre_transaction_store s \<and>
     (has_violation s \<longleftrightarrow> (\<exists>(_, attr) \<in> set (sv_pending s). attr \<notin> set (valid_attrs p)))"

lemmas sv_steps = apply_add_valid_def apply_add_invalid_def apply_sv_commit_def apply_new_transaction_def Let_def

lemma fold_insert_fst: "fold (\<lambda>(datom_id, _) st. insert datom_id st) ps A = A \<union> fst ` set ps"
  by (induction ps arbitrary: A) auto

interpretation sv: model_invariant "sv_model p" "sv_state_inv p" for p
proof
  show "sv_state_inv p s" if "s \<in> set (init_states (sv_model p))" for s
    using that by (simp add: sv_model_def sv_init_states_def sv_state_inv_def)
  show "sv_state_inv p t" if "sv_state_inv p s" "next_state (sv_model p) s a = Some t" for s a t
    using that by (cases a) (auto simp: sv_model_def sv_state_inv_def sv_steps split: if_splits)
qed

section \<open>Accepted and rejected transactions\<close>

definition sv_accepted :: "schema_validation_params \<Rightarrow> schema_action list" where
  "sv_accepted p = [AddValid 0 (hd (valid_attrs p)), SvCommit]"

lemma sv_accepted_run:
  assumes "0 < sv_max_datoms p" "valid_attrs p \<noteq> []" "0 < sv_max_pending p" "0 < sv_max_commits p"
  shows "\<exists>t. follow (sv_model p) (sv_accepted p) (hd (sv_init_states p)) = Some t \<and> sv_committed_count t = 1 \<and> sv_store t = {0} \<and>
    sv_pending t = [] \<and> \<not> has_violation t"
proof -
  have "AddValid 0 (hd (valid_attrs p)) \<in> set (sv_actions p (hd (sv_init_states p)))"
    using assms(1-3) by (auto simp: sv_actions_def sv_init_states_def intro!: bexI [of _ 0])
  then show ?thesis using assms(2-4)
    by (simp add: sv_accepted_def sv_model_def sv_within_boundary_def sv_init_states_def sv_steps) (simp add: sv_actions_def)
qed

text \<open>Schema validation is all or nothing in the model, for any schema and bounds. The model passes its check; and in
  every reachable state a commit of a non-empty transaction succeeds, adds all pending datoms when every pending
  attribute is in the schema, and leaves the store as it was before the transaction otherwise.\<close>

theorem schema_model_verified:
  assumes "0 < sv_max_datoms p" "valid_attrs p \<noteq> []" "0 < sv_max_pending p" "0 < sv_max_commits p"
  shows "verdict (sv_model p) sv_properties \<and>
    (\<forall>s. model_run (sv_model p) s \<longrightarrow> sv_pending s \<noteq> [] \<longrightarrow>
      (\<exists>t. sv_next_state p s SvCommit = Some t \<and> sv_pending t = [] \<and>
        sv_store t = (if \<forall>(_, attr) \<in> set (sv_pending s). attr \<in> set (valid_attrs p)
                      then pre_transaction_store s \<union> fst ` set (sv_pending s) else pre_transaction_store s)))"
proof -
  let ?i = "hd (sv_init_states p)"
  have i: "?i \<in> set (init_states (sv_model p))" "within_boundary (sv_model p) ?i"
    by (simp_all add: sv_model_def sv_init_states_def sv_within_boundary_def)
  obtain t where t: "follow (sv_model p) (sv_accepted p) ?i = Some t" "sv_committed_count t = 1" "sv_store t = {0}"
    "sv_pending t = []" "\<not> has_violation t" using sv_accepted_run [OF assms] by blast
  have some: "meets (sv_model p) (Sometimes n P)" if "P t" for n P using sometimes [OF i t(1)] that by blast
  have checks: "check_rejection_preserves_store s" "check_atomicity_no_partial s" if "sv_state_inv p s" for s
    using that by (auto simp: sv_state_inv_def check_rejection_preserves_store_def check_atomicity_no_partial_def list_all_iff)
  have "verdict (sv_model p) sv_properties"
    unfolding verdict_def sv_properties_def by (simp del: meets.simps add: sv.always checks some t(2-5))
  moreover have "\<exists>t. sv_next_state p s SvCommit = Some t \<and> sv_pending t = [] \<and>
        sv_store t = (if \<forall>(_, attr) \<in> set (sv_pending s). attr \<in> set (valid_attrs p)
                      then pre_transaction_store s \<union> fst ` set (sv_pending s) else pre_transaction_store s)"
    if "sv_state_inv p s" "sv_pending s \<noteq> []" for s
  proof -
    have "has_violation s \<longleftrightarrow> \<not> (\<forall>(_, attr) \<in> set (sv_pending s). attr \<in> set (valid_attrs p))" "sv_store s = pre_transaction_store s"
      using that(1) by (auto simp: sv_state_inv_def)
    then show ?thesis using that(2) by (simp add: apply_sv_commit_def fold_insert_fst Let_def)
  qed
  ultimately show ?thesis using sv.run_inv by blast
qed

theorem schema_model_verified_witness: "verdict (sv_model schema_validation_default) sv_properties"
  by (rule schema_model_verified [THEN conjunct1]) (simp_all add: schema_validation_default_def)

end
