(* ===== verification/Snapshot_Model.thy ===== *)
theory Snapshot_Model
  imports Checker Ordered_Map "HOL-Library.Sublist"
begin

text \<open>
  The snapshot isolation model (\<open>ferratomic-verify/stateright/snapshot_isolation_model.rs\<close>): a writer that commits sets of datoms,
  one epoch each, and observers that take snapshots at the current epoch. Epochs and counters of type \<open>u8\<close> are
  naturals with the check of \<open>checked_add\<close>. The masks of \<open>datom_subsets\<close> are the code's \<open>u16\<close>, shifted as in a build
  without overflow checks, which takes the amount modulo 16; with overflow checks the shift panics for a domain of
  16 or more.
\<close>

section \<open>The model\<close>

record snapshot_isolation_state =
  si_current_epoch :: nat
  datoms_by_epoch :: "(nat, nat set) omap"
  reader_snapshots :: "(nat \<times> nat set) list"
  pending_write :: "nat list option"
  total_writes :: nat
  snapshot_verified :: bool
  observer_epoch_history :: "nat list list"

datatype snapshot_action = StartRead nat | StartWrite "nat list" | SiCommitWrite | VerifySnapshot nat

record snapshot_isolation_params =
  max_epochs :: nat
  si_max_datoms :: nat
  max_readers :: nat
  max_writes :: nat

definition SI_MAX_EPOCHS :: nat where "SI_MAX_EPOCHS = 3"
definition SI_MAX_DATOMS :: nat where "SI_MAX_DATOMS = 3"
definition SI_MAX_READERS :: nat where "SI_MAX_READERS = 2"
definition SI_MAX_WRITES :: nat where "SI_MAX_WRITES = 2"

definition si_default :: snapshot_isolation_params where
  "si_default = \<lparr>max_epochs = SI_MAX_EPOCHS, si_max_datoms = SI_MAX_DATOMS, max_readers = SI_MAX_READERS, max_writes = SI_MAX_WRITES\<rparr>"

definition visible_datoms_at_epoch :: "(nat, nat set) omap \<Rightarrow> nat \<Rightarrow> nat set" where
  "visible_datoms_at_epoch m epoch = fold (\<lambda>(committed_epoch, ids) result. if committed_epoch \<le> epoch then result \<union> ids else result) m {}"

definition snapshot_satisfies_isolation :: "(nat, nat set) omap \<Rightarrow> nat \<Rightarrow> nat set \<Rightarrow> bool" where
  "snapshot_satisfies_isolation m captured_epoch visible =
     (let future = fold (\<lambda>(committed_epoch, ids) result. if committed_epoch > captured_epoch then result \<union> ids else result) m {}
      in \<forall>id \<in> visible. \<not> (\<not> list_ex (\<lambda>(epoch, ids). epoch \<le> captured_epoch \<and> id \<in> ids) m \<and> id \<in> future))"

definition shl16 :: "nat \<Rightarrow> u16" where
  "shl16 n = push_bit (n mod 16) 1"

definition datom_subsets :: "snapshot_isolation_params \<Rightarrow> nat list list" where
  "datom_subsets p =
     map (\<lambda>mask. filter (\<lambda>b. (of_nat mask :: u16) AND shl16 b \<noteq> 0) [0..<si_max_datoms p]) [1..<unat (shl16 (si_max_datoms p))]"

definition si_init_states :: "snapshot_isolation_params \<Rightarrow> snapshot_isolation_state list" where
  "si_init_states p = [\<lparr>si_current_epoch = 0, datoms_by_epoch = [], reader_snapshots = [], pending_write = None, total_writes = 0,
     snapshot_verified = False, observer_epoch_history = replicate (max_readers p) []\<rparr>]"

definition si_actions :: "snapshot_isolation_params \<Rightarrow> snapshot_isolation_state \<Rightarrow> snapshot_action list" where
  "si_actions p s =
     (if length (reader_snapshots s) < max_readers p then map StartRead [0..<max_readers p] else []) @
     (if pending_write s = None \<and> total_writes s < max_writes p \<and> si_current_epoch s < max_epochs p
      then map StartWrite (datom_subsets p) else []) @
     (if pending_write s \<noteq> None then [SiCommitWrite] else []) @
     map VerifySnapshot [0..<length (reader_snapshots s)]"

fun si_next_state :: "snapshot_isolation_params \<Rightarrow> snapshot_isolation_state \<Rightarrow> snapshot_action \<Rightarrow> snapshot_isolation_state option" where
  "si_next_state p s (StartRead observer_id) =
     (if length (reader_snapshots s) \<ge> max_readers p then None
      else if observer_id \<ge> max_readers p then None
      else let epoch = si_current_epoch s; visible = visible_datoms_at_epoch (datoms_by_epoch s) epoch;
               history = observer_epoch_history s
           in Some (s\<lparr>reader_snapshots := reader_snapshots s @ [(epoch, visible)],
                      observer_epoch_history := history[observer_id := history ! observer_id @ [epoch]]\<rparr>))"
| "si_next_state p s (StartWrite datom_ids) =
     (if pending_write s \<noteq> None then None
      else if total_writes s \<ge> max_writes p then None
      else if si_current_epoch s \<ge> max_epochs p then None
      else Some (s\<lparr>pending_write := Some datom_ids\<rparr>))"
| "si_next_state p s SiCommitWrite =
     Option.bind (pending_write s) (\<lambda>datom_ids.
     Option.bind (checked_inc_u8 (si_current_epoch s)) (\<lambda>epoch.
     Option.bind (checked_inc_u8 (total_writes s)) (\<lambda>writes.
       Some (s\<lparr>pending_write := None, si_current_epoch := epoch, datoms_by_epoch := om_insert epoch (set datom_ids) (datoms_by_epoch s),
               total_writes := writes\<rparr>))))"
| "si_next_state p s (VerifySnapshot idx) =
     (if idx \<ge> length (reader_snapshots s) then None else Some (s\<lparr>snapshot_verified := True\<rparr>))"

definition si_within_boundary :: "snapshot_isolation_params \<Rightarrow> snapshot_isolation_state \<Rightarrow> bool" where
  "si_within_boundary p s \<longleftrightarrow> si_current_epoch s \<le> max_epochs p \<and> length (reader_snapshots s) \<le> max_readers p \<and>
     total_writes s \<le> max_writes p \<and> list_all (\<lambda>(_, ids). \<forall>id \<in> ids. id < si_max_datoms p) (datoms_by_epoch s) \<and>
     list_all (\<lambda>h. length h \<le> max_readers p) (observer_epoch_history s)"

definition si_model :: "snapshot_isolation_params \<Rightarrow> (snapshot_isolation_state, snapshot_action) model" where
  "si_model p = \<lparr>init_states = si_init_states p, actions = si_actions p, next_state = si_next_state p, within_boundary = si_within_boundary p\<rparr>"

text \<open>\<open>windows(2).all(|w| w[0] <= w[1])\<close>.\<close>

fun windows_le :: "nat list \<Rightarrow> bool" where
  "windows_le (x # y # zs) = (x \<le> y \<and> windows_le (y # zs))"
| "windows_le _ = True"

definition si_properties :: "snapshot_isolation_state expectation list" where
  "si_properties =
     [Always ''inv_ferr_006_snapshot_isolation_safety''
        (\<lambda>s. list_all (\<lambda>(captured_epoch, visible). snapshot_satisfies_isolation (datoms_by_epoch s) captured_epoch visible) (reader_snapshots s)),
      Always ''inv_ferr_006_snapshot_completeness''
        (\<lambda>s. list_all (\<lambda>(captured_epoch, visible). visible = visible_datoms_at_epoch (datoms_by_epoch s) captured_epoch) (reader_snapshots s)),
      Sometimes ''inv_ferr_006_snapshot_verified_reachable'' (\<lambda>s. snapshot_verified s \<and> reader_snapshots s \<noteq> [] \<and> total_writes s > 0),
      Always ''inv_ferr_011_observer_monotonicity'' (\<lambda>s. list_all windows_le (observer_epoch_history s))]"

section \<open>Visible datoms\<close>

lemma fold_union_if: "fold (\<lambda>(e, ids) r. if P e then r \<union> ids else r) m A = A \<union> \<Union> {ids. \<exists>e. (e, ids) \<in> set m \<and> P e}"
proof (induction m arbitrary: A)
  case (Cons x m)
  obtain e ids where x: "x = (e, ids)" by (cases x)
  have "{ids'. \<exists>e'. (e', ids') \<in> set (x # m) \<and> P e'} = (if P e then {ids} else {}) \<union> {ids. \<exists>e. (e, ids) \<in> set m \<and> P e}"
    unfolding x by auto
  then show ?case using Cons by (simp add: x Un_assoc)
qed simp

lemma visible_eq: "visible_datoms_at_epoch m epoch = \<Union> {ids. \<exists>e. (e, ids) \<in> set m \<and> e \<le> epoch}"
  by (simp add: visible_datoms_at_epoch_def fold_union_if)

lemma visible_isolated: "snapshot_satisfies_isolation m e (visible_datoms_at_epoch m e)"
  by (auto simp: snapshot_satisfies_isolation_def visible_eq list_ex_iff)

lemma om_insert_above: "\<forall>x \<in> set m. fst x < k \<Longrightarrow> om_insert k v m = m @ [(k :: nat, v)]"
  by (induction m) (auto simp: cmp_def)

text \<open>A commit at a new epoch is invisible below it.\<close>

lemma visible_append: "visible_datoms_at_epoch (m @ [(k, ids)]) e = visible_datoms_at_epoch m e \<union> (if k \<le> e then ids else {})"
  by (simp add: visible_datoms_at_epoch_def)

lemma windows_le_iff: "windows_le xs \<longleftrightarrow> sorted xs"
  by (induction xs rule: windows_le.induct) (auto intro: order_trans)

section \<open>Invariant\<close>

definition si_inv :: "snapshot_isolation_params \<Rightarrow> snapshot_isolation_state \<Rightarrow> bool" where
  "si_inv p s \<longleftrightarrow> (\<forall>x \<in> set (datoms_by_epoch s). fst x \<le> si_current_epoch s) \<and>
     (\<forall>x \<in> set (reader_snapshots s). fst x \<le> si_current_epoch s \<and> snd x = visible_datoms_at_epoch (datoms_by_epoch s) (fst x)) \<and>
     (\<forall>h \<in> set (observer_epoch_history s). sorted h \<and> (\<forall>e \<in> set h. e \<le> si_current_epoch s)) \<and>
     length (observer_epoch_history s) = max_readers p \<and> total_writes s = si_current_epoch s"

lemma si_inv_frame:
  "si_inv p (s\<lparr>pending_write := w\<rparr>) = si_inv p s" "si_inv p (s\<lparr>snapshot_verified := b\<rparr>) = si_inv p s"
  by (simp_all add: si_inv_def)

lemma si_commit:
  assumes "si_inv p s" "pending_write s = Some ids" "si_next_state p s SiCommitWrite = Some t"
  shows "t = s\<lparr>pending_write := None, si_current_epoch := si_current_epoch s + 1,
    datoms_by_epoch := datoms_by_epoch s @ [(si_current_epoch s + 1, set ids)], total_writes := total_writes s + 1\<rparr>"
proof -
  have "om_insert (si_current_epoch s + 1) (set ids) (datoms_by_epoch s) = datoms_by_epoch s @ [(si_current_epoch s + 1, set ids)]"
    using assms(1) by (intro om_insert_above) (auto simp: si_inv_def)
  then show ?thesis using assms(2,3) by (auto simp: checked_inc_u8_def split: if_splits)
qed

lemma si_inv_read:
  assumes "si_inv p s" "si_next_state p s (StartRead i) = Some t"
  shows "si_inv p t"
proof -
  let ?H = "observer_epoch_history s" and ?e = "si_current_epoch s"
  have i: "i < max_readers p" and t: "t = s\<lparr>reader_snapshots := reader_snapshots s @ [(?e, visible_datoms_at_epoch (datoms_by_epoch s) ?e)],
      observer_epoch_history := ?H[i := ?H ! i @ [?e]]\<rparr>" using assms(2) by (auto simp: Let_def split: if_splits)
  have H: "\<forall>h \<in> set ?H. sorted h \<and> (\<forall>e \<in> set h. e \<le> ?e)" "?H ! i \<in> set ?H" using i assms(1) by (simp_all add: si_inv_def)
  have "sorted h \<and> (\<forall>e \<in> set h. e \<le> ?e)" if "h \<in> set (?H[i := ?H ! i @ [?e]])" for h
  proof -
    have "h = ?H ! i @ [?e] \<or> h \<in> set ?H" using that set_update_subset_insert [of ?H i "?H ! i @ [?e]"] by blast
    then show ?thesis using H(1) bspec [OF H] by (auto simp: sorted_append)
  qed
  then show ?thesis using assms(1) by (auto simp: t si_inv_def)
qed

interpretation si: model_invariant "si_model p" "si_inv p" for p
proof
  show "si_inv p s" if "s \<in> set (init_states (si_model p))" for s
    using that by (simp add: si_model_def si_init_states_def si_inv_def)
  show "si_inv p t" if inv: "si_inv p s" and step: "next_state (si_model p) s a = Some t" for s a t
  proof (cases a)
    case SiCommitWrite
    then obtain ids where ids: "pending_write s = Some ids" using step by (cases "pending_write s") (auto simp: si_model_def)
    have t: "t = s\<lparr>pending_write := None, si_current_epoch := si_current_epoch s + 1,
      datoms_by_epoch := datoms_by_epoch s @ [(si_current_epoch s + 1, set ids)], total_writes := total_writes s + 1\<rparr>"
      using si_commit [OF inv ids] step SiCommitWrite by (simp add: si_model_def)
    show ?thesis using inv by (auto simp: t si_inv_def visible_append le_SucI)
  next
    case (StartRead i)
    then show ?thesis using step si_inv_read [OF inv, of i] by (simp add: si_model_def)
  qed (use step inv in \<open>auto simp: si_model_def si_inv_frame split: if_splits\<close>)
qed

section \<open>Snapshot isolation\<close>

lemma shl16_small: "n < 16 \<Longrightarrow> unat (shl16 n) = 2 ^ n"
proof -
  assume "n < 16"
  then have "(2::nat) ^ n < 2 ^ 16" by (intro power_strict_increasing) simp_all
  then have "unat (2 ^ n :: u16) = 2 ^ n" using unat_of_nat [where 'a = 16, of "2 ^ n"] by simp
  then show ?thesis using \<open>n < 16\<close> by (simp add: shl16_def push_bit_eq_mult)
qed

lemma first_subset:
  assumes "0 < si_max_datoms p" "si_max_datoms p < 16"
  shows "[0] \<in> set (datom_subsets p)"
proof -
  obtain n where n: "si_max_datoms p = Suc n" "n < 15" using assms by (cases "si_max_datoms p") auto
  have one: "(of_nat 1 :: u16) AND shl16 b \<noteq> 0 \<longleftrightarrow> b = 0" if "b < 16" for b
  proof -
    have bits: "bit ((of_nat 1 :: u16) AND shl16 b) k \<longleftrightarrow> b = 0 \<and> k = 0" for k
      using that by (auto simp: shl16_def bit_and_iff bit_push_bit_iff bit_1_iff simp del: push_bit_of_1)
    show ?thesis
    proof (cases "b = 0")
      case False
      then have "(of_nat 1 :: u16) AND shl16 b = 0" by (intro bit_word_eqI) (simp only: bits bit_0_eq bot_apply bot_bool_def simp_thms)
      with False show ?thesis by simp
    qed (simp add: shl16_def)
  qed
  have "filter (\<lambda>b. (of_nat 1 :: u16) AND shl16 b \<noteq> 0) [0..<Suc n] = filter (\<lambda>b. b = 0) [0..<Suc n]"
    by (intro filter_cong refl one) (use n(2) in auto)
  also have "\<dots> = [0]" by (auto simp: upt_conv_Cons filter_empty_conv simp del: upt_Suc)
  finally have "filter (\<lambda>b. (of_nat 1 :: u16) AND shl16 b \<noteq> 0) [0..<Suc n] = [0]" .
  moreover have "1 \<in> set [1..<unat (shl16 (Suc n))]"
    using one_less_power [of "2::nat" "Suc n"] n(2) by (simp add: shl16_small)
  ultimately show ?thesis unfolding datom_subsets_def n set_map by (intro image_eqI [of _ _ 1]) (rule sym)
qed

lemma si_reads:
  assumes "0 < max_epochs p" "0 < si_max_datoms p" "0 < max_readers p" "0 < max_writes p" "si_max_datoms p < 16"
  shows "\<exists>t. follow (si_model p) [StartWrite [0], SiCommitWrite, StartRead 0, VerifySnapshot 0] (hd (si_init_states p)) = Some t \<and>
    snapshot_verified t \<and> reader_snapshots t = [(1, {0})] \<and> total_writes t = 1"
proof -
  obtain k where k: "max_readers p = Suc k" using assms(3) by (cases "max_readers p") auto
  have up: "[0..<Suc k] = 0 # [Suc 0..<Suc k]" by (simp add: upt_conv_Cons del: upt_Suc)
  show ?thesis using assms first_subset [OF assms(2,5)]
    by (simp add: si_model_def si_init_states_def si_actions_def si_within_boundary_def checked_inc_u8_def visible_datoms_at_epoch_def k up list_all_iff
        del: upt_Suc)
qed

text \<open>C26 Snapshots are isolated in the model, for any positive number of readers, writes and epochs and a domain of 1 to 15
  datoms (with 16 the shift of a 16-bit mask wraps and nothing is ever written). The model passes its check: a
  snapshot is exactly what was committed up to its epoch, and the epochs an observer sees never go back. No step
  changes a snapshot already taken, and a commit, which succeeds below epoch 255, makes exactly the pending
  datoms visible, at the next epoch only.\<close>

theorem snapshot_model_verified:
  assumes "0 < max_epochs p" "0 < si_max_datoms p" "0 < max_readers p" "0 < max_writes p" "si_max_datoms p < 16"
  shows "verdict (si_model p) si_properties \<and>
    (\<forall>s. model_run (si_model p) s \<longrightarrow>
      (\<forall>a t. si_next_state p s a = Some t \<longrightarrow> prefix (reader_snapshots s) (reader_snapshots t)) \<and>
      (\<forall>ids. pending_write s = Some ids \<longrightarrow> si_current_epoch s < 255 \<longrightarrow>
        (\<exists>t. si_next_state p s SiCommitWrite = Some t \<and> si_current_epoch t = si_current_epoch s + 1 \<and>
          (\<forall>e. visible_datoms_at_epoch (datoms_by_epoch t) e =
               visible_datoms_at_epoch (datoms_by_epoch s) e \<union> (if e > si_current_epoch s then set ids else {})))))"
proof -
  let ?i = "hd (si_init_states p)"
  have i: "?i \<in> set (init_states (si_model p))" "within_boundary (si_model p) ?i"
    by (simp_all add: si_model_def si_init_states_def si_within_boundary_def list_all_iff)
  obtain t where t: "follow (si_model p) [StartWrite [0], SiCommitWrite, StartRead 0, VerifySnapshot 0] ?i = Some t"
    "snapshot_verified t" "reader_snapshots t = [(1, {0})]" "total_writes t = 1" using si_reads [OF assms] by blast
  have some: "meets (si_model p) (Sometimes n P)" if "P t" for n P using sometimes [OF i t(1)] that by blast
  have exact: "list_all (\<lambda>(e, visible). visible = visible_datoms_at_epoch (datoms_by_epoch s) e) (reader_snapshots s)"
    "list_all (\<lambda>(e, visible). snapshot_satisfies_isolation (datoms_by_epoch s) e visible) (reader_snapshots s)"
    "list_all windows_le (observer_epoch_history s)" if "si_inv p s" for s
    using that by (auto simp: si_inv_def list_all_iff windows_le_iff visible_isolated)
  have "verdict (si_model p) si_properties"
    unfolding verdict_def si_properties_def by (simp del: meets.simps add: si.always exact some t(2-4))
  moreover have "prefix (reader_snapshots s) (reader_snapshots t)" if "si_next_state p s a = Some t" for s a t
    using that by (cases a) (auto simp: Let_def Option.bind_eq_Some_conv split: if_splits)
  moreover have "\<exists>t. si_next_state p s SiCommitWrite = Some t \<and> si_current_epoch t = si_current_epoch s + 1 \<and>
      (\<forall>e. visible_datoms_at_epoch (datoms_by_epoch t) e =
           visible_datoms_at_epoch (datoms_by_epoch s) e \<union> (if e > si_current_epoch s then set ids else {}))"
    if "si_inv p s" "pending_write s = Some ids" "si_current_epoch s < 255" for s ids
  proof -
    note a = that
    have "total_writes s = si_current_epoch s" using a(1) by (simp add: si_inv_def)
    then obtain t where t: "si_next_state p s SiCommitWrite = Some t" using a(2,3) by (simp add: checked_inc_u8_def)
    show ?thesis using t unfolding si_commit [OF a(1,2) t] by (auto simp: visible_append Suc_le_eq)
  qed
  ultimately show ?thesis using si.run_inv by blast
qed

text \<open>The default bounds; and in a state of them with a pending write, the commit makes it visible at the next epoch.\<close>

theorem snapshot_model_verified_witness:
  "verdict (si_model si_default) si_properties \<and>
   (\<exists>s t. model_run (si_model si_default) s \<and> pending_write s = Some [0] \<and> si_next_state si_default s SiCommitWrite = Some t \<and>
      visible_datoms_at_epoch (datoms_by_epoch t) 0 = {} \<and> visible_datoms_at_epoch (datoms_by_epoch t) 1 = {0})"
proof -
  have d: "0 < max_epochs si_default" "0 < si_max_datoms si_default" "0 < max_readers si_default" "0 < max_writes si_default"
    "si_max_datoms si_default < 16"
    by (simp_all add: si_default_def SI_MAX_EPOCHS_def SI_MAX_DATOMS_def SI_MAX_READERS_def SI_MAX_WRITES_def)
  let ?i = "hd (si_init_states si_default)"
  have "model_run (si_model si_default) (?i\<lparr>pending_write := Some [0]\<rparr>)"
    by (rule run_step [OF run_init [of ?i], where a = "StartWrite [0]"])
       (use d first_subset [OF d(2,5)] in \<open>simp_all add: si_model_def si_init_states_def si_actions_def\<close>)
  moreover obtain t where t: "si_next_state si_default (?i\<lparr>pending_write := Some [0]\<rparr>) SiCommitWrite = Some t"
    "\<And>e. visible_datoms_at_epoch (datoms_by_epoch t) e = visible_datoms_at_epoch [] e \<union> (if e > 0 then set [0] else {})"
    using conjunct2 [OF conjunct2 [OF snapshot_model_verified [OF d], rule_format, OF calculation], rule_format, of "[0]"]
    by (auto simp: si_init_states_def simp del: si_next_state.simps)
  have "visible_datoms_at_epoch [] e = {}" for e by (simp add: visible_datoms_at_epoch_def)
  with t(2) have "visible_datoms_at_epoch (datoms_by_epoch t) 0 = {}" "visible_datoms_at_epoch (datoms_by_epoch t) 1 = {0}" by simp_all
  moreover have "verdict (si_model si_default) si_properties" by (rule conjunct1 [OF snapshot_model_verified [OF d]])
  ultimately show ?thesis using t(1)
    by (intro conjI exI [of _ "?i\<lparr>pending_write := Some [0]\<rparr>"] exI [of _ t]) (simp_all del: si_next_state.simps)
qed

text \<open>A domain of 16 datoms has no subset to write: the shift wraps to 1.\<close>

theorem wide_domain_writes_nothing: "si_max_datoms p = 16 \<Longrightarrow> datom_subsets p = []"
  by (simp add: datom_subsets_def shl16_def)

end
