(* ===== verification/Atomicity_Model.thy ===== *)
theory Atomicity_Model
  imports Checker "HOL-Library.Sublist"
begin

text \<open>
  The transaction atomicity model (\<open>ferratomic-verify/stateright/transaction_atomicity_model.rs\<close>): transactions of several datoms that
  commit under one epoch, snapshots, crashes before and after a commit, and recovery from the durable log. The
  epochs, of type \<open>u64\<close>, are naturals below the saturation of the commit's \<open>checked_add\<close>, which is written out.
\<close>

section \<open>The model\<close>

definition TA_MAX_TRANSACTIONS :: nat where "TA_MAX_TRANSACTIONS = 3"
definition TA_MAX_DATOMS_PER_TX :: nat where "TA_MAX_DATOMS_PER_TX = 3"
definition TA_MAX_EPOCH :: nat where "TA_MAX_EPOCH = 3"
definition TA_MAX_SNAPSHOTS :: nat where "TA_MAX_SNAPSHOTS = 3"

record committed_tx =
  ct_epoch :: nat
  ct_datom_ids :: "nat set"

record snapshot_view =
  at_epoch :: nat
  visible_datom_ids :: "nat set"

datatype wal_state = NotWritten | WalFsynced

record pending_tx_rec =
  pt_datom_ids :: "nat set"
  assigned_epoch :: nat
  pt_wal_state :: wal_state

record tx_atomicity_state =
  committed_txns :: "committed_tx list"
  snapshots :: "snapshot_view list"
  ta_current_epoch :: nat
  pending_tx :: "pending_tx_rec option"
  crashed :: bool
  durable_wal :: "committed_tx list"

datatype tx_action = StartTx "nat set" | CommitTx | TakeSnapshot | CrashBeforeCommit | CrashAfterCommit | TaRecover

definition ta_new :: "nat set list" where
  "ta_new = map (\<lambda>mask. set (filter (\<lambda>i. bit (mask::nat) i) [0..<TA_MAX_DATOMS_PER_TX])) [1..<2 ^ TA_MAX_DATOMS_PER_TX]"

definition visible_at_epoch :: "committed_tx list \<Rightarrow> nat \<Rightarrow> nat set" where
  "visible_at_epoch committed snap_epoch = \<Union> (set (map ct_datom_ids (filter (\<lambda>tx. ct_epoch tx \<le> snap_epoch) committed)))"

definition apply_start_tx :: "tx_atomicity_state \<Rightarrow> nat set \<Rightarrow> tx_atomicity_state option" where
  "apply_start_tx s datom_ids =
     (if pending_tx s \<noteq> None \<or> crashed s \<or> ta_current_epoch s > TA_MAX_EPOCH then None
      else Some (s\<lparr>pending_tx := Some \<lparr>pt_datom_ids = datom_ids, assigned_epoch = ta_current_epoch s, pt_wal_state = NotWritten\<rparr>\<rparr>))"

definition apply_commit_tx :: "tx_atomicity_state \<Rightarrow> tx_atomicity_state option" where
  "apply_commit_tx s = (case pending_tx s of
     None \<Rightarrow> None
   | Some pending \<Rightarrow>
       if crashed s then None
       else let committed = \<lparr>ct_epoch = assigned_epoch pending, ct_datom_ids = pt_datom_ids pending\<rparr>
            in Some (s\<lparr>pending_tx := None, durable_wal := durable_wal s @ [committed], committed_txns := committed_txns s @ [committed],
                       ta_current_epoch := (if ta_current_epoch s + 1 < 2 ^ 64 then ta_current_epoch s + 1 else ta_current_epoch s)\<rparr>))"

definition apply_take_snapshot :: "tx_atomicity_state \<Rightarrow> tx_atomicity_state option" where
  "apply_take_snapshot s =
     (if crashed s \<or> committed_txns s = [] then None
      else let snap_epoch = ta_current_epoch s - 1; visible = visible_at_epoch (committed_txns s) snap_epoch
           in Some (s\<lparr>snapshots := snapshots s @ [\<lparr>at_epoch = snap_epoch, visible_datom_ids = visible\<rparr>]\<rparr>))"

definition apply_crash :: "tx_atomicity_state \<Rightarrow> tx_atomicity_state" where
  "apply_crash s = s\<lparr>crashed := True, committed_txns := [], snapshots := []\<rparr>"

definition apply_crash_before_commit :: "tx_atomicity_state \<Rightarrow> tx_atomicity_state option" where
  "apply_crash_before_commit s = (case pending_tx s of
     None \<Rightarrow> None
   | Some pending \<Rightarrow> if pt_wal_state pending \<noteq> NotWritten then None else Some (apply_crash (s\<lparr>pending_tx := None\<rparr>)))"

definition apply_crash_after_commit :: "tx_atomicity_state \<Rightarrow> tx_atomicity_state option" where
  "apply_crash_after_commit s = (if pending_tx s \<noteq> None \<or> crashed s then None else Some (apply_crash s))"

definition apply_tx_recover :: "tx_atomicity_state \<Rightarrow> tx_atomicity_state option" where
  "apply_tx_recover s =
     (if \<not> crashed s then None
      else let max_epoch = fold max (map ct_epoch (durable_wal s)) 0
           in Some (s\<lparr>committed_txns := durable_wal s, crashed := False, ta_current_epoch := max_epoch + 1\<rparr>))"

definition check_epoch_uniformity :: "tx_atomicity_state \<Rightarrow> bool" where
  "check_epoch_uniformity s \<longleftrightarrow> list_all (\<lambda>tx. \<not> (ct_epoch tx = 0 \<or> ct_epoch tx > TA_MAX_EPOCH)) (committed_txns s) \<and>
     card (ct_epoch ` set (committed_txns s)) = length (committed_txns s)"

definition check_all_or_nothing_visibility :: "tx_atomicity_state \<Rightarrow> bool" where
  "check_all_or_nothing_visibility s \<longleftrightarrow> list_all (\<lambda>snap. list_all (\<lambda>tx.
     ct_epoch tx \<le> at_epoch snap \<longrightarrow> (\<forall>id \<in> ct_datom_ids tx. id \<in> visible_datom_ids snap)) (committed_txns s)) (snapshots s)"

definition check_crash_atomicity :: "tx_atomicity_state \<Rightarrow> bool" where
  "check_crash_atomicity s = (if crashed s then committed_txns s = [] else set (committed_txns s) = set (durable_wal s))"

definition ta_init_states :: "tx_atomicity_state list" where
  "ta_init_states = [\<lparr>committed_txns = [], snapshots = [], ta_current_epoch = 1, pending_tx = None, crashed = False, durable_wal = []\<rparr>]"

definition ta_actions :: "nat set list \<Rightarrow> tx_atomicity_state \<Rightarrow> tx_action list" where
  "ta_actions datom_domain s =
     (if crashed s then [TaRecover]
      else (if pending_tx s = None \<and> length (committed_txns s) < TA_MAX_TRANSACTIONS \<and> ta_current_epoch s \<le> TA_MAX_EPOCH
            then map StartTx datom_domain else []) @
           (if pending_tx s \<noteq> None then [CommitTx] else []) @
           (if committed_txns s \<noteq> [] \<and> length (snapshots s) < TA_MAX_SNAPSHOTS then [TakeSnapshot] else []) @
           (case pending_tx s of None \<Rightarrow> [] | Some pending \<Rightarrow> if pt_wal_state pending = NotWritten then [CrashBeforeCommit] else []) @
           (if pending_tx s = None \<and> committed_txns s \<noteq> [] then [CrashAfterCommit] else []))"

fun ta_next_state :: "tx_atomicity_state \<Rightarrow> tx_action \<Rightarrow> tx_atomicity_state option" where
  "ta_next_state s (StartTx datom_ids) = apply_start_tx s datom_ids"
| "ta_next_state s CommitTx = apply_commit_tx s"
| "ta_next_state s TakeSnapshot = apply_take_snapshot s"
| "ta_next_state s CrashBeforeCommit = apply_crash_before_commit s"
| "ta_next_state s CrashAfterCommit = apply_crash_after_commit s"
| "ta_next_state s TaRecover = apply_tx_recover s"

definition ta_within_boundary :: "tx_atomicity_state \<Rightarrow> bool" where
  "ta_within_boundary s \<longleftrightarrow> length (committed_txns s) \<le> TA_MAX_TRANSACTIONS \<and> length (snapshots s) \<le> TA_MAX_SNAPSHOTS \<and>
     ta_current_epoch s \<le> TA_MAX_EPOCH + 2 \<and> length (durable_wal s) \<le> TA_MAX_TRANSACTIONS"

definition ta_model :: "nat set list \<Rightarrow> (tx_atomicity_state, tx_action) model" where
  "ta_model datom_domain = \<lparr>init_states = ta_init_states, actions = ta_actions datom_domain, next_state = ta_next_state,
     within_boundary = ta_within_boundary\<rparr>"

definition ta_properties :: "tx_atomicity_state expectation list" where
  "ta_properties =
     [Always ''inv_ferr_020_epoch_uniformity'' check_epoch_uniformity,
      Always ''inv_ferr_020_all_or_nothing_visibility'' check_all_or_nothing_visibility,
      Always ''inv_ferr_020_crash_atomicity'' check_crash_atomicity,
      Sometimes ''inv_ferr_020_committed_snapshot_reachable''
        (\<lambda>s. committed_txns s \<noteq> [] \<and> snapshots s \<noteq> [] \<and> list_ex (\<lambda>snap. visible_datom_ids snap \<noteq> {}) (snapshots s)),
      Sometimes ''inv_ferr_020_crash_recovery_reachable''
        (\<lambda>s. \<not> crashed s \<and> durable_wal s \<noteq> [] \<and> committed_txns s \<noteq> [] \<and> committed_txns s = durable_wal s)]"

section \<open>Invariant\<close>

text \<open>The log has one transaction per epoch, in order; the store is the log, or empty after a crash.\<close>

definition ta_inv :: "tx_atomicity_state \<Rightarrow> bool" where
  "ta_inv s \<longleftrightarrow> map ct_epoch (durable_wal s) = [1..<ta_current_epoch s] \<and> 1 \<le> ta_current_epoch s \<and> ta_current_epoch s \<le> TA_MAX_EPOCH + 1 \<and>
     committed_txns s = (if crashed s then [] else durable_wal s) \<and> (crashed s \<longrightarrow> pending_tx s = None \<and> snapshots s = []) \<and>
     (\<forall>q. pending_tx s = Some q \<longrightarrow> assigned_epoch q = ta_current_epoch s \<and> ta_current_epoch s \<le> TA_MAX_EPOCH) \<and>
     (\<forall>snap \<in> set (snapshots s). at_epoch snap < ta_current_epoch s \<and> visible_datom_ids snap = visible_at_epoch (durable_wal s) (at_epoch snap))"

lemma fold_max_upt: "1 \<le> n \<Longrightarrow> fold max [1..<n] 0 + 1 = (n :: nat)"
proof (induction n)
  case (Suc n)
  then show ?case by (cases "n = 0") (auto simp: max_def)
qed simp

lemma visible_at_append:
  "visible_at_epoch (txs @ [tx]) e = visible_at_epoch txs e \<union> (if ct_epoch tx \<le> e then ct_datom_ids tx else {})"
  by (auto simp: visible_at_epoch_def)

lemma ta_inv_commit:
  assumes "ta_inv s" "apply_commit_tx s = Some t"
  shows "ta_inv t"
proof -
  obtain q where q: "pending_tx s = Some q" "\<not> crashed s" using assms(2) by (auto simp: apply_commit_tx_def split: option.splits if_splits)
  let ?tx = "\<lparr>ct_epoch = ta_current_epoch s, ct_datom_ids = pt_datom_ids q\<rparr>"
  have cur: "assigned_epoch q = ta_current_epoch s" "ta_current_epoch s \<le> 3" using assms(1) q(1) by (simp_all add: ta_inv_def TA_MAX_EPOCH_def)
  then have t: "t = s\<lparr>pending_tx := None, durable_wal := durable_wal s @ [?tx], committed_txns := committed_txns s @ [?tx],
      ta_current_epoch := ta_current_epoch s + 1\<rparr>" using assms(2) q by (simp add: apply_commit_tx_def Let_def)
  show ?thesis using assms(1) q cur by (auto simp: t ta_inv_def visible_at_append TA_MAX_EPOCH_def)
qed

lemma ta_inv_snapshot:
  assumes "ta_inv s" "apply_take_snapshot s = Some t"
  shows "ta_inv t"
proof -
  have "committed_txns s = durable_wal s" "\<not> crashed s" using assms by (auto simp: apply_take_snapshot_def ta_inv_def split: if_splits)
  then have "t = s\<lparr>snapshots := snapshots s @ [\<lparr>at_epoch = ta_current_epoch s - 1,
      visible_datom_ids = visible_at_epoch (durable_wal s) (ta_current_epoch s - 1)\<rparr>]\<rparr>"
    using assms(2) by (simp add: apply_take_snapshot_def Let_def split: if_splits)
  with assms(1) \<open>\<not> crashed s\<close> show ?thesis by (auto simp: ta_inv_def)
qed

lemmas ta_crashes = apply_crash_before_commit_def apply_crash_after_commit_def apply_crash_def

lemma ta_crash:
  assumes "ta_inv s" "a \<in> {CrashBeforeCommit, CrashAfterCommit}" "ta_next_state s a = Some c"
  shows "c = s\<lparr>pending_tx := None, crashed := True, committed_txns := [], snapshots := []\<rparr>" "committed_txns s = durable_wal s"
proof -
  have "c = s\<lparr>pending_tx := None, crashed := True, committed_txns := [], snapshots := []\<rparr> \<and> \<not> crashed s"
    using assms by (cases s) (auto simp: ta_crashes ta_inv_def split: option.splits if_splits)
  then show "c = s\<lparr>pending_tx := None, crashed := True, committed_txns := [], snapshots := []\<rparr>" "committed_txns s = durable_wal s"
    using assms(1) by (auto simp: ta_inv_def)
qed

lemma ta_inv_recover: "ta_inv s \<Longrightarrow> apply_tx_recover s = Some t \<Longrightarrow> t = s\<lparr>committed_txns := durable_wal s, crashed := False\<rparr>"
  using fold_max_upt [of "ta_current_epoch s"] by (auto simp: apply_tx_recover_def ta_inv_def Let_def split: if_splits)

interpretation ta: model_invariant "ta_model datom_domain" ta_inv for datom_domain
proof
  show "ta_inv s" if "s \<in> set (init_states (ta_model datom_domain))" for s
    using that by (simp add: ta_model_def ta_init_states_def ta_inv_def)
  show "ta_inv t" if inv: "ta_inv s" and step: "next_state (ta_model datom_domain) s a = Some t" for s a t
  proof (cases a)
    case (StartTx ids)
    then show ?thesis using inv step by (auto simp: ta_model_def apply_start_tx_def ta_inv_def split: if_splits)
  next
    case TaRecover
    then have "t = s\<lparr>committed_txns := durable_wal s, crashed := False\<rparr>" using ta_inv_recover [OF inv] step by (simp add: ta_model_def)
    with inv show ?thesis by (auto simp: ta_inv_def)
  next
    case CommitTx
    then show ?thesis using step ta_inv_commit [OF inv] by (simp add: ta_model_def)
  next
    case TakeSnapshot
    then show ?thesis using step ta_inv_snapshot [OF inv] by (simp add: ta_model_def)
  qed (use ta_crash [OF inv, of a t] step inv in \<open>simp_all add: ta_model_def ta_inv_def\<close>)
qed

section \<open>Atomicity\<close>

lemma ta_commit_snapshot:
  assumes "ids \<in> set datom_domain" "ids \<noteq> {}"
  shows "\<exists>t. follow (ta_model datom_domain) [StartTx ids, CommitTx, TakeSnapshot] (hd ta_init_states) = Some t \<and> \<not> crashed t \<and>
    durable_wal t = [\<lparr>ct_epoch = 1, ct_datom_ids = ids\<rparr>] \<and> committed_txns t = durable_wal t \<and> snapshots t = [\<lparr>at_epoch = 1, visible_datom_ids = ids\<rparr>]"
  using assms(1)
  by (simp add: ta_model_def ta_init_states_def ta_actions_def ta_within_boundary_def apply_start_tx_def apply_commit_tx_def
      apply_take_snapshot_def visible_at_epoch_def TA_MAX_EPOCH_def TA_MAX_TRANSACTIONS_def TA_MAX_SNAPSHOTS_def Let_def)

text \<open>C25 Transactions are atomic in the model, for any payloads. The model passes its check; a snapshot is exactly the union
  of the durable transactions up to its epoch, so it has all of a transaction or, beyond shared datoms, none of it; the
  durable log only grows; and after a crash, before or after a commit, recovery is enabled and brings back
  exactly the transactions committed before the crash, with the epoch counter, and no pending transaction.\<close>

theorem atomicity_model_verified:
  assumes "ids \<in> set datom_domain" "ids \<noteq> {}"
  shows "verdict (ta_model datom_domain) ta_properties \<and>
    (\<forall>s. model_run (ta_model datom_domain) s \<longrightarrow>
      (\<forall>snap \<in> set (snapshots s). visible_datom_ids snap = visible_at_epoch (durable_wal s) (at_epoch snap)) \<and>
      (\<forall>a t. ta_next_state s a = Some t \<longrightarrow> prefix (durable_wal s) (durable_wal t)) \<and>
      (\<forall>a c. a \<in> {CrashBeforeCommit, CrashAfterCommit} \<longrightarrow> ta_next_state s a = Some c \<longrightarrow> ta_actions datom_domain c = [TaRecover] \<and>
        (\<exists>t. ta_next_state c TaRecover = Some t \<and> committed_txns t = committed_txns s \<and> ta_current_epoch t = ta_current_epoch s \<and>
          pending_tx t = None \<and> snapshots t = [])))"
proof -
  let ?i = "hd ta_init_states" and ?m = "ta_model datom_domain"
  have i: "?i \<in> set (init_states ?m)" "within_boundary ?m ?i"
    by (simp_all add: ta_model_def ta_init_states_def ta_within_boundary_def TA_MAX_EPOCH_def)
  obtain t where t: "follow ?m [StartTx ids, CommitTx, TakeSnapshot] ?i = Some t" "\<not> crashed t"
    "durable_wal t = [\<lparr>ct_epoch = 1, ct_datom_ids = ids\<rparr>]" "committed_txns t = durable_wal t" "snapshots t = [\<lparr>at_epoch = 1, visible_datom_ids = ids\<rparr>]"
    using ta_commit_snapshot [OF assms] by blast
  have some: "meets ?m (Sometimes n P)" if "P t" for n P using sometimes [OF i t(1)] that by blast
  have checks: "check_epoch_uniformity s" "check_all_or_nothing_visibility s" "check_crash_atomicity s" if inv: "ta_inv s" for s
  proof -
    have m: "map ct_epoch (committed_txns s) = (if crashed s then [] else [1..<ta_current_epoch s])" using inv by (simp add: ta_inv_def)
    have e: "ct_epoch ` set (committed_txns s) = (if crashed s then {} else {1..<ta_current_epoch s})" using arg_cong [OF m, of set] by simp
    have "ct_epoch tx \<noteq> 0 \<and> ct_epoch tx \<le> TA_MAX_EPOCH" if "tx \<in> set (committed_txns s)" for tx
    proof -
      have "ct_epoch tx \<in> ct_epoch ` set (committed_txns s)" using that by simp
      then show ?thesis using inv unfolding e ta_inv_def by (auto split: if_splits)
    qed
    moreover have "length (committed_txns s) = (if crashed s then 0 else ta_current_epoch s - 1)" using arg_cong [OF m, of length] by simp
    ultimately show "check_epoch_uniformity s" by (auto simp: check_epoch_uniformity_def e list_all_iff not_less [symmetric])
  qed (use inv in \<open>auto simp: ta_inv_def check_all_or_nothing_visibility_def check_crash_atomicity_def list_all_iff visible_at_epoch_def\<close>)
  have "verdict ?m ta_properties"
    unfolding verdict_def ta_properties_def by (simp del: meets.simps add: ta.always checks some t(2-5) assms(2))
  moreover have "prefix (durable_wal s) (durable_wal t)" if "ta_next_state s a = Some t" for s a t
    using that by (cases a) (auto simp: apply_start_tx_def apply_commit_tx_def apply_take_snapshot_def ta_crashes apply_tx_recover_def Let_def
        split: if_splits option.splits)
  moreover have "ta_actions datom_domain c = [TaRecover] \<and>
      (\<exists>t. ta_next_state c TaRecover = Some t \<and> committed_txns t = committed_txns s \<and> ta_current_epoch t = ta_current_epoch s \<and>
          pending_tx t = None \<and> snapshots t = [])"
    if inv: "ta_inv s" and "a \<in> {CrashBeforeCommit, CrashAfterCommit}" "ta_next_state s a = Some c" for s a c
  proof -
    note c = ta_crash [OF that]
    show ?thesis using fold_max_upt [of "ta_current_epoch s"] inv unfolding ta_inv_def
      by (simp add: c apply_tx_recover_def ta_actions_def)
  qed
  moreover have "\<forall>snap \<in> set (snapshots s). visible_datom_ids snap = visible_at_epoch (durable_wal s) (at_epoch snap)" if "ta_inv s" for s
    using that by (simp add: ta_inv_def)
  ultimately show ?thesis using ta.run_inv by blast
qed

theorem atomicity_model_verified_witness: "verdict (ta_model ta_new) ta_properties"
proof (rule atomicity_model_verified [THEN conjunct1])
  show "{0} \<in> set ta_new" by (simp add: ta_new_def TA_MAX_DATOMS_PER_TX_def upt_rec bit_nat_def)
qed simp

end
