(* ===== verification/Spec2Isabelle.thy ===== *)
theory Spec2Isabelle
  imports Storage Prolly_Transfer Mph Adjacency Leaf_Codec Sketch Mmap Ans
    Views Faults Backpressure_Model Hlc_Model Writes_Model Crash_Model Schema_Model Snapshot_Model Atomicity_Model
begin

text \<open>
  A verification library for ferratomic, an append-only database of datoms (entity, attribute, value,
  transaction, operation) with content-addressed identity, a write-ahead log, checkpoints, conflict-free
  merge of replicas, and a content-addressed search tree for snapshots and federation.

  \<^bold>\<open>The program.\<close> The crates under \<open>src/\<close> build on each other. \<open>ferratom-clock\<close> issues transaction ids;
  \<open>ferratom\<close> has the data model, its canonical bytes, the schema types, errors, filters, signatures and wire
  types; \<open>ferratomic-tx\<close> validates transactions; \<open>ferratomic-index\<close> and \<open>ferratomic-positional\<close> hold datoms
  in indexes and in a sorted array; \<open>ferratomic-store\<close> applies, batches, replays and merges; \<open>ferratomic-wal\<close>
  and \<open>ferratomic-checkpoint\<close> make stores durable; \<open>ferratomic-storage\<close> abstracts the medium;
  \<open>ferratomic-core\<close> puts them together as a database with one writer, lock-free snapshots, observers,
  recovery, federation and prolly trees.

  \<^bold>\<open>The theories\<close>, in the order of their imports, and the code they model:
  \<^item> \<open>Ferr_Prelude\<close>: types of bytes and words, result type with \<open>bind_result\<close>, little-endian codecs, sorted
    lists, the collections of simplification rules. \<open>Ordered_Map\<close>: the ordered map and set of the \<open>im\<close> crate
    and of \<open>std\<close> as sorted association lists with a locale of join semilattices.
  \<^item> \<open>Clock\<close> (\<open>ferratom-clock\<close>): the hybrid clock as a state at its machine widths, with the wall clock as an
    input of every call; frontiers. \<open>Datom\<close> and \<open>Canonical\<close> (\<open>ferratom/src/datom\<close>, \<open>error.rs\<close>, \<open>filter.rs\<close>):
    values, attribute interning, filters, and the canonical encoder and parser.
  \<^item> \<open>Index\<close> (\<open>ferratomic-index\<close>): the two index backends behind one locale, and the secondary indexes.
    \<open>Schema\<close> (\<open>schema.rs\<close>, \<open>ferratomic-tx\<close>, \<open>schema_evolution.rs\<close>): validation, evolution, merge of schemas.
  \<^item> \<open>Positional\<close> and \<open>Search\<close> (\<open>ferratomic-positional\<close>): the canonical array, its XOR fingerprint, LIVE bits,
    permutations, merge; interpolation search, implicit-tree search, bloom filter, run-length groups.
    \<open>Mph\<close> (\<open>mph.rs\<close>), \<open>Adjacency\<close>, \<open>Succinct\<close>, \<open>Ans\<close> and \<open>Leaf_Codec\<close> (\<open>codec.rs\<close>): the perfect hash, the graph
    index, rank and select, compression, the leaf codec.
    \<open>Live\<close> (\<open>query.rs\<close>, \<open>merge.rs\<close> of the store): the causal LIVE lattice and value resolution.
  \<^item> \<open>Store\<close> and \<open>Replication\<close> (\<open>ferratomic-store\<close>): both representations of a store, \<open>transact\<close>, batches,
    replay, merge, selective merge, checkpoint data; what they do, as functions of the whole state.
    \<open>Views\<close> (\<open>iter.rs\<close>): iterators and set views. \<open>Sketch\<close> (\<open>sketch.rs\<close>): signatures of stores for estimating differences.
  \<^item> \<open>Wal\<close> (\<open>ferratomic-wal\<close>): the log as file bytes with a durable prefix. \<open>Wire\<close> and \<open>Checkpoint\<close>
    (\<open>wire.rs\<close>, \<open>ferratomic-checkpoint\<close>, \<open>checkpoint.rs\<close>): formats, seals, partial loading, and writing as a
    sequence of calls on a file system with power failures.
    \<open>Mmap\<close> (\<open>mmap.rs\<close>): memory-mapped checkpoints.
  \<^item> \<open>Federation\<close> (\<open>signing.rs\<close>, \<open>bundle.rs\<close>, \<open>transport.rs\<close>, \<open>topology.rs\<close>, \<open>anti_entropy.rs\<close>), \<open>Observers\<close>
    (\<open>observer.rs\<close>, \<open>backpressure.rs\<close>), \<open>Db\<close> (\<open>db/\<close>): the database with every early return of a transaction;
    what the environment decides (each acquisition of a lock, failing writes and syncs, time) is a record of inputs.
  \<^item> \<open>Recovery\<close> (\<open>db/recover.rs\<close>, \<open>storage/\<close>) and \<open>Storage\<close> (\<open>ferratomic-storage\<close>): runs of a database with
    crashes, the cold-start cascade, the file and the in-memory backend. \<open>Faults\<close> (\<open>fault_injection.rs\<close> of the verification crate):
    the backend that injects faults into another one.
  \<^item> \<open>Prolly\<close>, \<open>Prolly_Tree\<close>, \<open>Prolly_Correct\<close>, \<open>Prolly_Diff\<close>, \<open>Prolly_Transfer\<close> (\<open>prolly/\<close>): the tree's code,
    a reference datatype of trees, the builder and readers against it, the diff, transfer and manifests.
  \<^item> \<open>Checker\<close> and the eight theories named \<open>_Model\<close> (\<open>ferratomic-verify/stateright/\<close>): the repository's own
    protocol models, which its tests explore up to small bounds. \<open>Checker\<close> has the model interface, reachability and inductive
    invariants; each other theory has one model with its actions, transitions, boundary and properties, and
    shows the properties for all bounds that leave room for what the model looks for: merging replicas (\<open>Crdt_Model\<close>), backpressure, the clock, serialised writers
    (\<open>Writes_Model\<close>), crash recovery, schema validation, snapshot isolation, atomicity.

  \<^bold>\<open>State and effects.\<close> A struct is a record and an enum a datatype with the source's constructors. An
  operation on \<open>&mut self\<close> returns the new state with its result; a \<open>Result\<close> is \<open>ferra_error + 'a\<close>, and every
  early return is a branch. Hash maps whose iteration order the code exposes take the order as an argument, and an
  unstable sort is any function that sorts.
  BLAKE3, its key derivation, Ed25519, bincode, rkyv and the entropy coder are parameters; theorems that need
  more than their being functions name it as a hypothesis (32-byte digests, no collision among the data at hand, decoding reads
  back what encoding wrote, a signature verifies for one message only), and the witnesses discharge it with concrete functions.

  \<^bold>\<open>Interfaces.\<close> Locales state what a client relies on, are used for the client's lemmas, and are interpreted on
  the model's own definitions: join semilattices (frontiers, schemas, LIVE lattices, arrays, stores), index
  backends, lawful chunk stores and pairs of them for transfer, storage backends, inductive invariants of
  protocol models.

  \<^bold>\<open>What is shown.\<close> Transactions have exactly their effect or a described failure (one of which, a frontier mutex
  poisoned behind the publication, leaves the transaction published), never lose datoms, keep
  the store invariant and typing; both representations and batches agree with single steps; replay restores
  the store, and so does recovery, from a directory or through a backend, after a run of the database and a
  crash that tears the log, possibly inside a last failing write; merge is a join and replicas converge; checkpoints
  round-trip, reject damaged bytes and replace the old file atomically, also under power failures; observers
  see every notified commit in order; signatures verify from the store and bind what they sign;
  lookups, the graph index, rank and select and the leaf codec are exact; prolly trees are canonical, read
  back, diff exactly and transfer completely. The protocol models pass their checks for any bounds, up to the
  limits they set themselves (three writers, masks of 16 bits), with their invariants beyond these; the clock
  and the write limiter simulate theirs, and from every reachable state the replicas can converge. Each theory also has theorems on behaviour that departs from the code's comments.

  \<^bold>\<open>Loops and fuel.\<close> Loops over data are structural recursion. Building a prolly tree and the diff iterator are
  partial functions with \<open>None\<close> for divergence, proved to return. Reading and transferring a tree take
  fuel; the height of the tree is enough, and the theorems say so. Searches recurse with a measure.

  \<^bold>\<open>Not modelled.\<close> The wavelet backends (\<open>wavelet.rs\<close>: every method only calls a third-party crate) and the
  floating-point entropy estimate of \<open>ans.rs\<close>; the addresses of mapped memory beyond the alignment check; async
  plumbing and the traits of remote transports (no code); the datalog crate (empty stubs); of the verification crate all but its protocol models and fault
  injection (generators, a catalogue of invariants, property tests and Kani harnesses), fuzz targets, benchmarks and tests. Threads are not interleaved below the level of whole calls,
  the limiter's atomic steps apart: the write lock serialises writers, and its failure is an input; delivery to
  observers outside the lock is a separate step that may come late or not at all. Arithmetic on machine words
  wraps as in a release build where the source does not check it; the places where a build with overflow checks
  or debug assertions panics are named beside their definitions.
\<close>

end
